(* ===== verification/Xv6_Base.thy ===== *)
theory Xv6_Base
  imports Main "HOL-Library.Word"
begin

text \<open>
  The prelude of the development. It holds what every component shares:
  the fallible state-passing computations in which the C functions are written,
  the byte-addressed memory with its 32-bit and 64-bit little-endian accesses,
  the wrap-around arithmetic of 64-bit addresses and sizes, and the lemmas on words
  that the flag fields and bitmaps of the program need.

  Addresses and values of type \<^verbatim>\<open>size_t\<close> or \<^verbatim>\<open>uint64\<close> are natural numbers below
  \<open>2 ^ 64\<close>; where the code adds or subtracts them the reduction is written out
  (\<open>w64\<close>, \<open>sub64\<close>). Fields that the code treats bitwise are machine words.
\<close>

unbundle bit_operations_syntax

named_theorems run_simps \<open>how the primitive computations run\<close>
named_theorems mem_simps \<open>reading memory after a write\<close>

section \<open>Fallible computations with state\<close>

type_synonym ('s, 'e, 'a) comp = "'s \<Rightarrow> 'e + 'a \<times> 's"

definition ret :: "'a \<Rightarrow> ('s, 'e, 'a) comp" where
  "ret x = (\<lambda>s. Inr (x, s))"

definition fail :: "'e \<Rightarrow> ('s, 'e, 'a) comp" where
  "fail e = (\<lambda>s. Inl e)"

definition bnd :: "('s, 'e, 'a) comp \<Rightarrow> ('a \<Rightarrow> ('s, 'e, 'b) comp) \<Rightarrow> ('s, 'e, 'b) comp" where
  "bnd m f = (\<lambda>s. case m s of Inl e \<Rightarrow> Inl e | Inr (x, s') \<Rightarrow> f x s')"

definition sq :: "('s, 'e, unit) comp \<Rightarrow> ('s, 'e, 'b) comp \<Rightarrow> ('s, 'e, 'b) comp" where
  "sq m k = bnd m (\<lambda>_. k)"

definition gets :: "('s \<Rightarrow> 'a) \<Rightarrow> ('s, 'e, 'a) comp" where
  "gets f = (\<lambda>s. Inr (f s, s))"

definition upd :: "('s \<Rightarrow> 's) \<Rightarrow> ('s, 'e, unit) comp" where
  "upd f = (\<lambda>s. Inr ((), f s))"

definition guard :: "bool \<Rightarrow> 'e \<Rightarrow> ('s, 'e, unit) comp" where
  "guard b e = (\<lambda>s. if b then Inr ((), s) else Inl e)"

lemma ret_run [run_simps]: "ret x s = Inr (x, s)"
  by (simp add: ret_def)

lemma fail_run [run_simps]: "fail e s = Inl e"
  by (simp add: fail_def)

lemma gets_run [run_simps]: "gets f s = Inr (f s, s)"
  by (simp add: gets_def)

lemma upd_run [run_simps]: "upd f s = Inr ((), f s)"
  by (simp add: upd_def)

lemma guard_run [run_simps]: "b \<Longrightarrow> guard b e s = Inr ((), s)" "\<not> b \<Longrightarrow> guard b e s = Inl e"
  by (simp_all add: guard_def)

lemma bnd_Inr [run_simps]: "m s = Inr (x, s') \<Longrightarrow> bnd m f s = f x s'"
  by (simp add: bnd_def)

lemma bnd_Inl [run_simps]: "m s = Inl e \<Longrightarrow> bnd m f s = Inl e"
  by (simp add: bnd_def)

lemma sq_Inr [run_simps]: "m s = Inr ((), s') \<Longrightarrow> sq m k s = k s'"
  by (simp add: sq_def bnd_def)

lemma sq_Inl [run_simps]: "m s = Inl e \<Longrightarrow> sq m k s = Inl e"
  by (simp add: sq_def bnd_def)

text \<open>The same as rules, for a run that is followed step by step.\<close>

lemma bnd_eq: "m s = Inr (x, s') \<Longrightarrow> f x s' = r \<Longrightarrow> bnd m f s = r"
  by (simp add: bnd_def)

lemma sq_eq: "m s = Inr ((), s') \<Longrightarrow> k s' = r \<Longrightarrow> sq m k s = r"
  by (simp add: sq_def bnd_def)

lemma bnd_InrE:
  assumes "bnd m f s = Inr (y, t)"
  obtains x s' where "m s = Inr (x, s')" "f x s' = Inr (y, t)"
  using assms by (auto simp: bnd_def split: sum.splits)

section \<open>Arithmetic of \<^verbatim>\<open>size_t\<close>\<close>

definition w64 :: "nat \<Rightarrow> nat" where
  "w64 n = n mod 2 ^ 64"

definition sub64 :: "nat \<Rightarrow> nat \<Rightarrow> nat" where
  "sub64 a b = (a + 2 ^ 64 - b mod 2 ^ 64) mod 2 ^ 64"

lemma w64_id [simp]: "n < 2 ^ 64 \<Longrightarrow> w64 n = n"
  by (simp add: w64_def)

lemma w64_less: "w64 n < 2 ^ 64"
  by (simp add: w64_def)

lemma sub64_le [simp]: "b \<le> a \<Longrightarrow> a < 2 ^ 64 \<Longrightarrow> sub64 a b = a - b"
proof -
  assume "b \<le> a" "a < 2 ^ 64"
  then have "a + 2 ^ 64 - b mod 2 ^ 64 = (a - b) + 2 ^ 64"
    by simp
  with \<open>a < 2 ^ 64\<close> show ?thesis
    by (simp add: sub64_def)
qed

lemma add_numerals_assoc [simp]: "(x :: nat) + numeral v + numeral w = x + numeral (v + w)"
  by simp

section \<open>Byte-addressed memory\<close>

type_synonym byte = "8 word"
type_synonym memory = "nat \<Rightarrow> byte"

definition load32 :: "memory \<Rightarrow> nat \<Rightarrow> 32 word" where
  "load32 m a = ucast (m a) OR push_bit 8 (ucast (m (a + 1))) OR
     push_bit 16 (ucast (m (a + 2))) OR push_bit 24 (ucast (m (a + 3)))"

definition store32 :: "memory \<Rightarrow> nat \<Rightarrow> 32 word \<Rightarrow> memory" where
  "store32 m a w = m(a := ucast w, a + 1 := ucast (drop_bit 8 w),
     a + 2 := ucast (drop_bit 16 w), a + 3 := ucast (drop_bit 24 w))"

definition load64 :: "memory \<Rightarrow> nat \<Rightarrow> 64 word" where
  "load64 m a = ucast (load32 m a) OR push_bit 32 (ucast (load32 m (a + 4)))"

definition store64 :: "memory \<Rightarrow> nat \<Rightarrow> 64 word \<Rightarrow> memory" where
  "store64 m a w = store32 (store32 m a (ucast w)) (a + 4) (ucast (drop_bit 32 w))"

lemma load32_store32 [mem_simps, simp]: "load32 (store32 m a w) a = w"
proof (rule bit_word_eqI)
  fix n assume "n < LENGTH(32)"
  then have n: "n < 32" by simp
  consider "n < 8" | "8 \<le> n" "n < 16" | "16 \<le> n" "n < 24" | "24 \<le> n" using n by linarith
  then show "bit (load32 (store32 m a w) a) n = bit w n"
    using n by cases (auto simp: load32_def store32_def bit_simps)
qed

lemma store32_other: "a + 4 \<le> b \<or> b < a \<Longrightarrow> store32 m a w b = m b"
  by (auto simp: store32_def)

lemma store64_other: "a + 8 \<le> b \<or> b < a \<Longrightarrow> store64 m a w b = m b"
  by (auto simp: store64_def store32_other)

lemma load32_cong: "(\<And>i. i < 4 \<Longrightarrow> m (a + i) = m' (a + i)) \<Longrightarrow> load32 m a = load32 m' a"
proof -
  assume h: "\<And>i. i < 4 \<Longrightarrow> m (a + i) = m' (a + i)"
  show ?thesis
    using h[of 0] h[of 1] h[of 2] h[of 3] by (simp add: load32_def)
qed

lemma load64_cong: "(\<And>i. i < 8 \<Longrightarrow> m (a + i) = m' (a + i)) \<Longrightarrow> load64 m a = load64 m' a"
proof -
  assume h: "\<And>i. i < 8 \<Longrightarrow> m (a + i) = m' (a + i)"
  have "load32 m a = load32 m' a"
    by (rule load32_cong) (simp add: h)
  moreover have "load32 m (a + 4) = load32 m' (a + 4)"
  proof (rule load32_cong)
    fix i :: nat assume "i < 4"
    then show "m (a + 4 + i) = m' (a + 4 + i)"
      using h[of "4 + i"] by (simp add: add.assoc)
  qed
  ultimately show ?thesis by (simp add: load64_def)
qed

lemma load32_store32_lo [mem_simps]: "a + 4 \<le> b \<Longrightarrow> load32 (store32 m a w) b = load32 m b"
  by (rule load32_cong) (simp add: store32_other)

lemma load32_store32_hi [mem_simps]: "b + 4 \<le> a \<Longrightarrow> load32 (store32 m a w) b = load32 m b"
  by (rule load32_cong) (simp add: store32_other)

lemma load32_store64_lo [mem_simps]: "a + 8 \<le> b \<Longrightarrow> load32 (store64 m a w) b = load32 m b"
  by (rule load32_cong) (simp add: store64_other)

lemma load32_store64_hi [mem_simps]: "b + 4 \<le> a \<Longrightarrow> load32 (store64 m a w) b = load32 m b"
  by (rule load32_cong) (simp add: store64_other)

lemma load64_store32_lo [mem_simps]: "a + 4 \<le> b \<Longrightarrow> load64 (store32 m a w) b = load64 m b"
  by (rule load64_cong) (simp add: store32_other)

lemma load64_store32_hi [mem_simps]: "b + 8 \<le> a \<Longrightarrow> load64 (store32 m a w) b = load64 m b"
  by (rule load64_cong) (simp add: store32_other)

lemma load64_store64_lo [mem_simps]: "a + 8 \<le> b \<Longrightarrow> load64 (store64 m a w) b = load64 m b"
  by (rule load64_cong) (simp add: store64_other)

lemma load64_store64_hi [mem_simps]: "b + 8 \<le> a \<Longrightarrow> load64 (store64 m a w) b = load64 m b"
  by (rule load64_cong) (simp add: store64_other)

lemma load64_store64 [mem_simps, simp]: "load64 (store64 m a w) a = w"
proof (rule bit_word_eqI)
  fix n assume "n < LENGTH(64)"
  then have n: "n < 64" by simp
  have "load32 (store64 m a w) a = ucast w" "load32 (store64 m a w) (a + 4) = ucast (drop_bit 32 w)"
    by (simp_all add: store64_def mem_simps)
  then show "bit (load64 (store64 m a w) a) n = bit w n"
    using n by (cases "n < 32") (auto simp: load64_def bit_simps)
qed

text \<open>Copying a run of bytes, and writing one.\<close>

definition load_bytes :: "memory \<Rightarrow> nat \<Rightarrow> nat \<Rightarrow> byte list" where
  "load_bytes m a n = map (\<lambda>i. m (a + i)) [0..<n]"

definition store_bytes :: "memory \<Rightarrow> nat \<Rightarrow> byte list \<Rightarrow> memory" where
  "store_bytes m a bs = (\<lambda>x. if a \<le> x \<and> x < a + length bs then bs ! (x - a) else m x)"

lemma length_load_bytes [simp]: "length (load_bytes m a n) = n"
  by (simp add: load_bytes_def)

lemma load_store_bytes [simp]: "load_bytes (store_bytes m a bs) a (length bs) = bs"
  by (rule nth_equalityI) (simp_all add: load_bytes_def store_bytes_def)

lemma store_bytes_other: "x < a \<or> a + length bs \<le> x \<Longrightarrow> store_bytes m a bs x = m x"
  by (auto simp: store_bytes_def)

lemma store_load_bytes [simp]: "store_bytes m a (load_bytes m a n) = m"
  by (rule ext) (auto simp: store_bytes_def load_bytes_def)

section \<open>Words\<close>

lemma unat_of_nat_small [simp]:
  "n < 2 ^ LENGTH('a::len) \<Longrightarrow> unat (of_nat n :: 'a word) = n"
  by (simp add: unat_of_nat take_bit_nat_eq_self)

lemma bit_of_nat_word:
  "bit (of_nat n :: 'a::len word) i \<longleftrightarrow> i < LENGTH('a) \<and> bit n i"
  by (simp add: bit_simps)

lemma low_bits_dvd8:
  assumes "8 dvd (n::nat)" "i < 3"
  shows "\<not> bit n i"
proof -
  from assms(1) obtain k where "n = push_bit 3 k"
    by (auto simp: push_bit_eq_mult mult.commute elim: dvdE)
  then show ?thesis using assms(2) by (simp add: bit_push_bit_iff)
qed

lemma bit_7_iff: "bit (7 :: int) i \<longleftrightarrow> i < 3"
proof -
  have "(7 :: int) = mask 3"
    by (simp add: mask_eq_exp_minus_1)
  then show ?thesis by (simp only: bit_mask_iff possible_bit_def) simp
qed

text \<open>A multiple of eight has room for three flag bits.\<close>

lemma flags_split:
  fixes k :: "'a::len word"
  assumes n: "8 dvd n" and k: "k AND 7 = k"
  shows "(of_nat n OR k) AND NOT 7 = of_nat n" and "(of_nat n OR k) AND 7 = k"
proof -
  note low = low_bits_dvd8[OF n]
  have hi: "\<not> bit k i" if "3 \<le> i" for i
  proof -
    have "bit k i = bit (k AND 7) i" by (simp add: k)
    with that show ?thesis by (simp add: bit_and_iff bit_7_iff)
  qed
  show "(of_nat n OR k) AND NOT 7 = of_nat n"
  proof (rule bit_word_eqI)
    fix i assume "i < LENGTH('a)"
    then show "bit ((of_nat n OR k) AND NOT 7) i = bit (of_nat n :: 'a word) i"
      using low[of i] hi[of i] by (cases "i < 3") (auto simp: bit_simps bit_7_iff)
  qed
  show "(of_nat n OR k) AND 7 = k"
  proof (rule bit_word_eqI)
    fix i assume "i < LENGTH('a)"
    then show "bit ((of_nat n OR k) AND 7) i = bit k i"
      using low[of i] hi[of i] by (cases "i < 3") (auto simp: bit_simps bit_7_iff)
  qed
qed

lemma of_nat_and_7: "8 dvd n \<Longrightarrow> (of_nat n :: 'a::len word) AND 7 = 0"
  by (rule bit_word_eqI) (auto simp: bit_simps bit_7_iff low_bits_dvd8)

end
