(* ===== verification/Um_Decl.thy ===== *)
theory Um_Decl
  imports Xv6_Base
begin

text \<open>
  The data model of the user-level allocator: \<^verbatim>\<open>memory/ummalloc_decl.h\<close>.
  A chunk (\<^verbatim>\<open>struct pack\<close>) at address \<open>p\<close> has the 32-bit field \<^verbatim>\<open>prev\<close> at \<open>p\<close>, the
  32-bit field \<^verbatim>\<open>size\<close> (with three flag bits) at \<open>p + 4\<close>, and its data at \<open>p + 8\<close>;
  a list node at address \<open>n\<close> has the pointer \<^verbatim>\<open>prev\<close> at \<open>n\<close> and \<^verbatim>\<open>next\<close> at \<open>n + 8\<close>.
  Every access is checked against the process's break: one beyond it is the page
  fault that kills the process. That the pages of the program text, address 0 among them,
  cannot be written is not modelled; the allocator writes there only after a refused
  \<^verbatim>\<open>sbrk\<close>. The lemmas at the end are about the doubly linked
  rings the lists are.
\<close>

section \<open>The state of a process that uses the allocator\<close>

text \<open>
  \<open>um_base\<close> and \<open>um_bitmap\<close> are the globals of \<^verbatim>\<open>ummalloc_data.h\<close>; the globals that
  are pointed to (\<^verbatim>\<open>slots\<close>, \<^verbatim>\<open>fast_full\<close>) live in memory, at the addresses the linker
  chose (\<open>um_slots\<close>, \<open>um_fast_full\<close>). \<open>um_brk\<close> is the size of the process and
  \<open>um_limit\<close> the size beyond which the kernel refuses to grow it.
\<close>

record um =
  um_mem :: memory
  um_base :: nat
  um_bitmap :: "64 word"
  um_slots :: nat
  um_fast_full :: nat
  um_brk :: nat
  um_limit :: nat

datatype um_error =
    Impossible      \<comment> \<open>the IMPOSSIBLE macro: a message, then exit(1)\<close>
  | Fault           \<comment> \<open>an access beyond the break\<close>
  | OutOfBounds     \<comment> \<open>an index beyond \<^verbatim>\<open>slots[63]\<close>\<close>
  | ShiftOverflow   \<comment> \<open>a 64-bit shift by 64 or more, undefined in C\<close>

type_synonym 'a um_prog = "(um, um_error, 'a) comp"

definition ld32 :: "nat \<Rightarrow> 32 word um_prog" where
  "ld32 a = (\<lambda>s. if a + 4 \<le> um_brk s then Inr (load32 (um_mem s) a, s) else Inl Fault)"

definition st32 :: "nat \<Rightarrow> 32 word \<Rightarrow> unit um_prog" where
  "st32 a v = (\<lambda>s. if a + 4 \<le> um_brk s
     then Inr ((), s\<lparr>um_mem := store32 (um_mem s) a v\<rparr>) else Inl Fault)"

definition ld64 :: "nat \<Rightarrow> 64 word um_prog" where
  "ld64 a = (\<lambda>s. if a + 8 \<le> um_brk s then Inr (load64 (um_mem s) a, s) else Inl Fault)"

definition st64 :: "nat \<Rightarrow> 64 word \<Rightarrow> unit um_prog" where
  "st64 a v = (\<lambda>s. if a + 8 \<le> um_brk s
     then Inr ((), s\<lparr>um_mem := store64 (um_mem s) a v\<rparr>) else Inl Fault)"

definition ldp :: "nat \<Rightarrow> nat um_prog" where
  "ldp a = bnd (ld64 a) (\<lambda>w. ret (unat w))"

definition stp :: "nat \<Rightarrow> nat \<Rightarrow> unit um_prog" where
  "stp a p = st64 a (of_nat p)"

section \<open>Chunks\<close>

definition ALIGN :: "nat \<Rightarrow> nat" where
  "ALIGN n = w64 (n + 7) div 8 * 8"

abbreviation (input) "NONE_INUSE \<equiv> (0 :: 32 word)"
abbreviation (input) "PREV_INUSE \<equiv> (1 :: 32 word)"
abbreviation (input) "THIS_INUSE \<equiv> (2 :: 32 word)"
abbreviation (input) "BOTH_INUSE \<equiv> (3 :: 32 word)"
abbreviation (input) "RESERVED \<equiv> (4 :: 32 word)"
abbreviation (input) "FULL_MASK \<equiv> (7 :: 32 word)"

definition IMPOSSIBLE :: "bool \<Rightarrow> unit um_prog" where
  "IMPOSSIBLE x = guard (\<not> x) Impossible"

definition pack_add_meta :: "nat \<Rightarrow> 32 word \<Rightarrow> unit um_prog" where
  "pack_add_meta p info = bnd (ld32 (p + 4)) (\<lambda>sz. st32 (p + 4) (sz OR info))"

definition pack_clr_meta :: "nat \<Rightarrow> 32 word \<Rightarrow> unit um_prog" where
  "pack_clr_meta p info = bnd (ld32 (p + 4)) (\<lambda>size. st32 (p + 4) (size AND NOT info))"

definition pack_set_meta :: "nat \<Rightarrow> 32 word \<Rightarrow> unit um_prog" where
  "pack_set_meta p info =
     bnd (ld32 (p + 4)) (\<lambda>size. st32 (p + 4) ((size AND NOT FULL_MASK) OR info))"

definition pack_add_info :: "nat \<Rightarrow> 32 word \<Rightarrow> 32 word \<Rightarrow> unit um_prog" where
  "pack_add_info p sz info =
     sq (IMPOSSIBLE (sz AND FULL_MASK \<noteq> 0))
     (bnd (ld32 (p + 4)) (\<lambda>old. st32 (p + 4) (sz OR info OR (old AND FULL_MASK))))"

definition pack_set_info :: "nat \<Rightarrow> 32 word \<Rightarrow> 32 word \<Rightarrow> unit um_prog" where
  "pack_set_info p sz info =
     sq (IMPOSSIBLE (sz AND FULL_MASK \<noteq> 0)) (st32 (p + 4) (sz OR info))"

definition pack_set_prev :: "nat \<Rightarrow> 32 word \<Rightarrow> unit um_prog" where
  "pack_set_prev p sz = st32 p sz"

definition pack_set_size :: "nat \<Rightarrow> 32 word \<Rightarrow> unit um_prog" where
  "pack_set_size p sz =
     sq (IMPOSSIBLE (sz AND FULL_MASK \<noteq> 0))
     (bnd (ld32 (p + 4)) (\<lambda>old. st32 (p + 4) ((old AND FULL_MASK) OR sz)))"

definition prev_add_size :: "nat \<Rightarrow> 32 word \<Rightarrow> unit um_prog" where
  "prev_add_size p sz =
     sq (IMPOSSIBLE (sz AND FULL_MASK \<noteq> 0))
     (bnd (ld32 (p + 4)) (\<lambda>old. st32 (p + 4) (old + sz)))"

definition pack_size :: "nat \<Rightarrow> nat um_prog" where
  "pack_size p = bnd (ld32 (p + 4)) (\<lambda>size. ret (unat (size AND NOT FULL_MASK)))"

definition pack_next :: "nat \<Rightarrow> nat um_prog" where
  "pack_next p = bnd (pack_size p) (\<lambda>size. ret (w64 (p + size)))"

definition pack_prev :: "nat \<Rightarrow> nat um_prog" where
  "pack_prev p = bnd (ld32 p) (\<lambda>size. ret (sub64 p (unat size)))"

definition pack_meta :: "nat \<Rightarrow> 32 word um_prog" where
  "pack_meta p = bnd (ld32 (p + 4)) (\<lambda>size. ret (size AND FULL_MASK))"

definition pack_data :: "nat \<Rightarrow> nat" where
  "pack_data p = w64 (p + 8)"

definition list_pack :: "nat \<Rightarrow> nat" where
  "list_pack n = sub64 n 8"

section \<open>Doubly linked lists\<close>

definition list_init :: "nat \<Rightarrow> unit um_prog" where
  "list_init l = sq (stp l l) (stp (l + 8) l)"

definition list_empty :: "nat \<Rightarrow> bool um_prog" where
  "list_empty l = bnd (ldp (l + 8)) (\<lambda>n. ret (n = l))"

definition node_link :: "nat \<Rightarrow> nat \<Rightarrow> unit um_prog" where
  "node_link p n = sq (stp (p + 8) n) (stp n p)"

definition list_pop :: "nat \<Rightarrow> nat um_prog" where
  "list_pop l = bnd (ldp (l + 8)) (\<lambda>n. bnd (ldp (n + 8)) (\<lambda>nn.
     sq (node_link l nn) (ret n)))"

definition list_push :: "nat \<Rightarrow> nat \<Rightarrow> unit um_prog" where
  "list_push l n = sq (bnd (ldp (l + 8)) (\<lambda>x. node_link n x)) (node_link l n)"

definition list_erase :: "nat \<Rightarrow> unit um_prog" where
  "list_erase n = bnd (ldp n) (\<lambda>p. bnd (ldp (n + 8)) (\<lambda>x. node_link p x))"

section \<open>How the primitives run\<close>

lemma ld32_run [run_simps]: "a + 4 \<le> um_brk s \<Longrightarrow> ld32 a s = Inr (load32 (um_mem s) a, s)"
  by (simp add: ld32_def)

lemma st32_run [run_simps]:
  "a + 4 \<le> um_brk s \<Longrightarrow> st32 a v s = Inr ((), s\<lparr>um_mem := store32 (um_mem s) a v\<rparr>)"
  by (simp add: st32_def)

lemma ld64_run [run_simps]: "a + 8 \<le> um_brk s \<Longrightarrow> ld64 a s = Inr (load64 (um_mem s) a, s)"
  by (simp add: ld64_def)

lemma st64_run [run_simps]:
  "a + 8 \<le> um_brk s \<Longrightarrow> st64 a v s = Inr ((), s\<lparr>um_mem := store64 (um_mem s) a v\<rparr>)"
  by (simp add: st64_def)

definition loadp :: "memory \<Rightarrow> nat \<Rightarrow> nat" where
  "loadp m a = unat (load64 m a)"

lemma ldp_run [run_simps]: "a + 8 \<le> um_brk s \<Longrightarrow> ldp a s = Inr (loadp (um_mem s) a, s)"
  by (simp add: ldp_def loadp_def run_simps)

lemma stp_run [run_simps]:
  "a + 8 \<le> um_brk s \<Longrightarrow> stp a p s = Inr ((), s\<lparr>um_mem := store64 (um_mem s) a (of_nat p)\<rparr>)"
  by (simp add: stp_def run_simps)

lemma loadp_store [mem_simps]: "p < 2 ^ 64 \<Longrightarrow> loadp (store64 m a (of_nat p)) a = p"
  by (simp add: loadp_def)

lemma loadp_other [mem_simps]:
  "a + 8 \<le> b \<Longrightarrow> loadp (store64 m a w) b = loadp m b"
  "b + 8 \<le> a \<Longrightarrow> loadp (store64 m a w) b = loadp m b"
  "a + 4 \<le> b \<Longrightarrow> loadp (store32 m a v) b = loadp m b"
  "b + 8 \<le> a \<Longrightarrow> loadp (store32 m a v) b = loadp m b"
  by (simp_all add: loadp_def mem_simps)

lemma pack_data_small [simp]: "p + 8 < 2 ^ 64 \<Longrightarrow> pack_data p = p + 8"
  by (simp add: pack_data_def)

lemma list_pack_small [simp]: "8 \<le> n \<Longrightarrow> n < 2 ^ 64 \<Longrightarrow> list_pack n = n - 8"
  by (simp add: list_pack_def)

end
