(* ===== verification/Um_Data.thy ===== *)
theory Um_Data
  imports Um_Decl
begin

text \<open>
  The globals and the arithmetic of the user-level allocator:
  \<^verbatim>\<open>memory/ummalloc_data.h\<close>. It maps a chunk size to one of 64 slots, keeps a
  bitmap of the slots that are not empty, and computes base-two logarithms without
  a loop. The lemmas show what the logarithms and the lowest-bit search compute,
  and that the slot of a size grows with the size.
\<close>

section \<open>Logarithms\<close>

definition log2_step :: "nat \<Rightarrow> nat \<times> 64 word \<Rightarrow> nat \<times> 64 word" where
  "log2_step k = (\<lambda>(t, x). let p = (if drop_bit k x \<noteq> 0 then k else 0) in (t + p, drop_bit p x))"

definition log2_ceil64 :: "64 word \<Rightarrow> nat" where
  "log2_ceil64 x0 =
     (let (t, x) = log2_step 2 (log2_step 4 (log2_step 8 (log2_step 16
                     (log2_step 32 (0, x0 - 1)))))
      in t + unat x + (if x < 3 then 1 else 0) - 1)"

definition log2_floor64 :: "64 word \<Rightarrow> nat" where
  "log2_floor64 x = sub64 (log2_ceil64 (x + 1)) 1"

section \<open>Slots and their bitmap\<close>

definition slot_ref :: "nat \<Rightarrow> nat um_prog" where
  "slot_ref i = sq (guard (i < 64) OutOfBounds) (gets (\<lambda>s. um_slots s + 16 * i))"

definition next_free :: "nat \<Rightarrow> 64 word um_prog" where
  "next_free sz = sq (guard (sz + 1 < 64) ShiftOverflow)
     (gets (\<lambda>s. let mask = um_bitmap s AND push_bit (sz + 1) (- 1) in mask AND (- mask)))"

definition bitmap_set :: "nat \<Rightarrow> unit um_prog" where
  "bitmap_set i = sq (guard (i < 64) ShiftOverflow)
     (upd (\<lambda>s. s\<lparr>um_bitmap := um_bitmap s OR push_bit i 1\<rparr>))"

definition bitmap_clr :: "nat \<Rightarrow> unit um_prog" where
  "bitmap_clr i = sq (guard (i < 64) ShiftOverflow)
     (upd (\<lambda>s. s\<lparr>um_bitmap := um_bitmap s AND NOT (push_bit i 1)\<rparr>))"

definition safe_remove :: "nat \<Rightarrow> nat \<Rightarrow> unit um_prog" where
  "safe_remove node index = bnd (ldp node) (\<lambda>prev. bnd (ldp (node + 8)) (\<lambda>next.
     sq (node_link prev next)
     (if prev = next then bitmap_clr index else ret ())))"

definition slot_index :: "nat \<Rightarrow> nat" where
  "slot_index sz =
     (if sz \<le> 512 then (sz - 1) div 16
      else if sz > 4096 then (if sz < 6144 then 48 else (sz - 1) div 4096 + 48)
      else if sz \<le> 640 then (sz + 1535) div 64 else 34 + (sz - 513) div 256)"

definition get_index :: "nat \<Rightarrow> nat um_prog" where
  "get_index sz = sq (IMPOSSIBLE (sz \<le> 512 \<and> sz \<le> 32)) (ret (slot_index sz))"

section \<open>What the logarithms compute\<close>

fun bitlen :: "nat \<Rightarrow> nat" where
  "bitlen n = (if n = 0 then 0 else Suc (bitlen (n div 2)))"

declare bitlen.simps [simp del]

lemma bitlen_0 [simp]: "bitlen 0 = 0"
  by (simp add: bitlen.simps)

lemma bitlen_pos: "n \<noteq> 0 \<Longrightarrow> bitlen n = Suc (bitlen (n div 2))"
  by (simp add: bitlen.simps)

lemma bitlen_small: "bitlen 1 = 1" "bitlen (Suc 0) = 1" "bitlen 2 = 2" "bitlen 3 = 2"
  by (simp_all add: bitlen_pos)

lemma bitlen_div: "n div 2 ^ p \<noteq> 0 \<Longrightarrow> bitlen n = p + bitlen (n div 2 ^ p)"
proof (induction p arbitrary: n)
  case (Suc p)
  have eq: "n div 2 ^ Suc p = n div 2 div 2 ^ p"
    by (simp add: div_mult2_eq mult.commute)
  moreover have "n \<noteq> 0" using Suc.prems by (rule contrapos_nn) simp
  ultimately show ?case
    using Suc.IH[of "n div 2"] Suc.prems by (simp add: bitlen_pos[of n])
qed simp

lemma bitlen_upper: "n < 2 ^ bitlen n"
proof (induction n rule: bitlen.induct)
  case (1 n)
  then show ?case by (cases "n = 0") (simp_all add: bitlen_pos)
qed

lemma bitlen_lower: "n \<noteq> 0 \<Longrightarrow> 2 ^ (bitlen n - 1) \<le> n"
proof (induction n rule: bitlen.induct)
  case (1 n)
  show ?case
  proof (cases "n div 2 = 0")
    case True
    with "1.prems" have "n = 1" by simp
    then show ?thesis by (simp add: bitlen_small)
  next
    case False
    then obtain k where k: "bitlen (n div 2) = Suc k"
      by (simp add: bitlen_pos)
    have "2 ^ (bitlen (n div 2) - 1) \<le> n div 2"
      using "1.IH" "1.prems" False by simp
    then have "2 * 2 ^ k \<le> n" using k by simp
    then show ?thesis
      using "1.prems" k by (simp add: bitlen_pos[of n])
  qed
qed

lemma bitlen_unique:
  assumes "2 ^ k \<le> n" "n < 2 ^ Suc k"
  shows "bitlen n = Suc k"
proof -
  have n0: "n \<noteq> 0" using assms(1) by (cases "n = 0") auto
  have "2 ^ k < (2::nat) ^ bitlen n"
    using assms(1) bitlen_upper[of n] by (rule le_less_trans)
  then have a: "k < bitlen n"
    by (rule power_less_imp_less_exp[rotated]) simp
  have "2 ^ (bitlen n - 1) < (2::nat) ^ Suc k"
    using bitlen_lower[OF n0] assms(2) by (rule le_less_trans)
  then have "bitlen n - 1 < Suc k"
    by (rule power_less_imp_less_exp[rotated]) simp
  with a show ?thesis by simp
qed

lemma unat_drop_bit: "unat (drop_bit p (x :: 'a::len word)) = unat x div 2 ^ p"
  by (subst unat_drop_bit_eq) (rule drop_bit_eq_div)

lemma log2_step_run:
  assumes "unat x < 2 ^ (2 * k)" and "log2_step k (t, x) = (t', x')"
  shows "unat x' < 2 ^ k" and "t' + bitlen (unat x') = t + bitlen (unat x)"
proof -
  have z: "drop_bit k x = 0 \<longleftrightarrow> unat x div 2 ^ k = 0"
    by (metis unat_drop_bit unat_eq_zero)
  have "unat x div 2 ^ k < 2 ^ k"
    using assms(1) by (simp add: less_mult_imp_div_less power_add mult_2)
  moreover have "unat x div 2 ^ k = 0 \<Longrightarrow> unat x < 2 ^ k"
    by (simp add: div_eq_0_iff)
  ultimately show "unat x' < 2 ^ k"
    using assms(2) by (auto simp: log2_step_def Let_def z unat_drop_bit split: if_splits)
  show "t' + bitlen (unat x') = t + bitlen (unat x)"
    using assms(2) bitlen_div[of "unat x" k]
    by (auto simp: log2_step_def Let_def z unat_drop_bit split: if_splits)
qed

lemma log2_ceil64_bitlen: "log2_ceil64 x = bitlen (unat (x - 1))"
proof -
  obtain t1 x1 where s1: "log2_step 32 (0, x - 1) = (t1, x1)" by fastforce
  obtain t2 x2 where s2: "log2_step 16 (t1, x1) = (t2, x2)" by fastforce
  obtain t3 x3 where s3: "log2_step 8 (t2, x2) = (t3, x3)" by fastforce
  obtain t4 x4 where s4: "log2_step 4 (t3, x3) = (t4, x4)" by fastforce
  obtain t5 x5 where s5: "log2_step 2 (t4, x4) = (t5, x5)" by fastforce
  have "unat (x - 1) < 2 ^ LENGTH(64)" by (rule unsigned_less)
  then have "unat (x - 1) < 2 ^ (2 * 32)" by simp
  note r1 = log2_step_run[OF this s1]
  have "unat x1 < 2 ^ (2 * 16)" using r1 by simp
  note r2 = log2_step_run[OF this s2]
  have "unat x2 < 2 ^ (2 * 8)" using r2 by simp
  note r3 = log2_step_run[OF this s3]
  have "unat x3 < 2 ^ (2 * 4)" using r3 by simp
  note r4 = log2_step_run[OF this s4]
  have "unat x4 < 2 ^ (2 * 2)" using r4 by simp
  note r5 = log2_step_run[OF this s5]
  have "t5 + bitlen (unat x5) = bitlen (unat (x - 1))"
    using r1 r2 r3 r4 r5 by simp
  moreover have "unat x5 = 0 \<or> unat x5 = 1 \<or> unat x5 = 2 \<or> unat x5 = 3"
    using r5(1) by auto
  then have "t5 + unat x5 + (if x5 < 3 then 1 else 0) - 1 = t5 + bitlen (unat x5)"
    by (elim disjE) (simp_all add: word_less_nat_alt bitlen_small)
  ultimately show ?thesis
    by (simp add: log2_ceil64_def s1 s2 s3 s4 s5)
qed

lemma bitlen_le_64: "bitlen (unat (x :: 64 word)) \<le> 64"
proof (rule ccontr)
  assume h: "\<not> bitlen (unat x) \<le> 64"
  then have "unat x \<noteq> 0" by (intro notI) simp
  from bitlen_lower[OF this] have "2 ^ (bitlen (unat x) - 1) \<le> unat x" .
  moreover have "(2::nat) ^ 64 \<le> 2 ^ (bitlen (unat x) - 1)" using h by (intro power_increasing) auto
  ultimately show False using unsigned_less[of x, where 'a = nat] by simp
qed

lemma log2_floor64_bitlen:
  assumes "x \<noteq> 0"
  shows "log2_floor64 x = bitlen (unat x) - 1"
proof -
  have "bitlen (unat x) = Suc (bitlen (unat x div 2))"
    using assms by (intro bitlen_pos) (simp add: unat_eq_zero)
  then have "1 \<le> bitlen (unat x)" by simp
  moreover have "bitlen (unat x) < 2 ^ 64" using bitlen_le_64[of x] by simp
  ultimately show ?thesis by (simp add: log2_floor64_def log2_ceil64_bitlen)
qed

lemma bit_word_iff_odd: "bit (x :: 'a::len word) h \<longleftrightarrow> odd (unat x div 2 ^ h)"
  by (metis bit_iff_odd bit_unsigned_iff possible_bit_nat)

lemma log2_floor64_bit:
  assumes "x \<noteq> 0"
  shows "bit x (log2_floor64 x)" and "\<And>j. log2_floor64 x < j \<Longrightarrow> \<not> bit x j"
proof -
  define h where "h = log2_floor64 x"
  have n0: "unat x \<noteq> 0" using assms by (simp add: unat_eq_zero)
  then obtain k where k: "bitlen (unat x) = Suc k" by (simp add: bitlen_pos)
  then have h: "h = k" by (simp add: h_def log2_floor64_bitlen[OF assms])
  have lo: "2 ^ h \<le> unat x" using bitlen_lower[OF n0] k h by simp
  have hi: "unat x < 2 * 2 ^ h" using bitlen_upper[of "unat x"] k h by simp
  have "unat x div 2 ^ h = 1"
    using lo hi by (intro div_nat_eqI) simp_all
  then show "bit x (log2_floor64 x)" by (simp add: bit_word_iff_odd h_def)
  fix j assume "log2_floor64 x < j"
  then have "Suc h \<le> j" by (simp add: h_def)
  then have "(2::nat) ^ Suc h \<le> 2 ^ j" by (rule power_increasing) simp
  then have "unat x < 2 ^ j" using hi by simp
  then show "\<not> bit x j" by (simp add: bit_word_iff_odd)
qed

lemma log2_floor64_less: "x \<noteq> 0 \<Longrightarrow> log2_floor64 x < 64"
  using log2_floor64_bit(1)[of x] bit_imp_le_length by fastforce

lemma log2_ceil64_exp:
  assumes "k < 64"
  shows "log2_ceil64 (push_bit k 1) = k"
proof -
  have "unat (push_bit k (1 :: 64 word)) = 2 ^ k"
    using assms by (subst unsigned_push_bit_eq) (simp add: take_bit_nat_eq_self)
  moreover have "push_bit k (1 :: 64 word) \<noteq> 0"
    using calculation by (metis power_not_zero unsigned_0 zero_neq_numeral)
  ultimately have u: "unat (push_bit k (1 :: 64 word) - 1) = 2 ^ k - 1"
    by (simp add: unat_minus_one)
  show ?thesis
  proof (cases k)
    case 0
    then show ?thesis by (simp add: log2_ceil64_bitlen)
  next
    case (Suc j)
    have "bitlen (2 ^ Suc j - 1) = Suc j"
      by (rule bitlen_unique) simp_all
    with u Suc show ?thesis by (simp add: log2_ceil64_bitlen)
  qed
qed

section \<open>The lowest bit of the bitmap\<close>

lemma lowbit_odd:
  fixes y :: "'a::len word"
  assumes "odd y"
  shows "y AND (- y) = 1"
proof -
  have "- y = NOT (y - 1)" by (simp add: minus_eq_not_minus_1)
  moreover have "y - 1 = y XOR 1"
    using assms by (simp add: xor_one_eq)
  ultimately have eq: "y AND (- y) = y AND NOT (y XOR 1)" by simp
  show ?thesis
    unfolding eq using assms
    by (intro bit_word_eqI) (auto simp: bit_simps bit_0 bit_1_iff)
qed

lemma lowbit:
  fixes x :: "'a::len word"
  assumes k: "bit x k" and low: "\<And>j. j < k \<Longrightarrow> \<not> bit x j"
  shows "x AND (- x) = push_bit k 1"
proof -
  define y where "y = drop_bit k x"
  have kl: "k < LENGTH('a)" using k by (rule bit_imp_le_length)
  have "odd y" using k by (simp add: y_def bit_iff_odd_drop_bit)
  have x: "x = push_bit k y"
  proof (rule bit_word_eqI)
    fix n assume "n < LENGTH('a)"
    then show "bit x n = bit (push_bit k y) n"
      using low[of n] by (cases "n < k") (auto simp: y_def bit_simps)
  qed
  have "x AND (- x) = push_bit k (y AND (- y))"
    unfolding x by (simp add: push_bit_and push_bit_minus)
  with \<open>odd y\<close> show ?thesis by (simp add: lowbit_odd)
qed

lemma next_free_run:
  assumes "sz < 63"
  shows "next_free sz s = Inr (let mask = um_bitmap s AND push_bit (sz + 1) (- 1) in mask AND (- mask), s)"
  using assms by (simp add: next_free_def run_simps)

section \<open>The slot of a size\<close>

lemma slot_index_regions:
  "sz \<le> 512 \<Longrightarrow> slot_index sz = (sz - 1) div 16 \<and> slot_index sz \<le> 31"
  "512 < sz \<Longrightarrow> sz \<le> 640 \<Longrightarrow> slot_index sz = (sz + 1535) div 64 \<and> 32 \<le> slot_index sz \<and> slot_index sz \<le> 33"
  "640 < sz \<Longrightarrow> sz \<le> 4096 \<Longrightarrow> slot_index sz = 34 + (sz - 513) div 256 \<and> 34 \<le> slot_index sz \<and> slot_index sz \<le> 47"
  "4096 < sz \<Longrightarrow> sz < 6144 \<Longrightarrow> slot_index sz = 48"
  "6144 \<le> sz \<Longrightarrow> slot_index sz = (sz - 1) div 4096 + 48 \<and> 49 \<le> slot_index sz"
  by (auto simp: slot_index_def)

lemma slot_index_mono:
  assumes "a \<le> b"
  shows "slot_index a \<le> slot_index b"
proof -
  consider "a \<le> 512" | "512 < a" "a \<le> 640" | "640 < a" "a \<le> 4096" | "4096 < a" "a < 6144"
    | "6144 \<le> a" by linarith
  then show ?thesis
  proof cases
    case 1
    note A = slot_index_regions(1)[OF 1]
    consider "b \<le> 512" | "512 < b" "b \<le> 640" | "640 < b" "b \<le> 4096" | "4096 < b" "b < 6144"
      | "6144 \<le> b" by linarith
    then show ?thesis
    proof cases
      case 1
      then show ?thesis using A slot_index_regions(1)[OF 1] assms by (simp add: div_le_mono)
    qed (use A slot_index_regions(2-5)[of b] in simp_all)
  next
    case 2
    note A = slot_index_regions(2)[OF 2]
    consider "b \<le> 640" | "640 < b" "b \<le> 4096" | "4096 < b" "b < 6144" | "6144 \<le> b" by linarith
    then show ?thesis
    proof cases
      case 1
      then show ?thesis using A slot_index_regions(2)[of b] assms 2 by (simp add: div_le_mono)
    qed (use A slot_index_regions(3-5)[of b] in simp_all)
  next
    case 3
    note A = slot_index_regions(3)[OF 3]
    consider "b \<le> 4096" | "4096 < b" "b < 6144" | "6144 \<le> b" by linarith
    then show ?thesis
    proof cases
      case 1
      then show ?thesis using A slot_index_regions(3)[of b] assms 3 by (simp add: div_le_mono)
    qed (use A slot_index_regions(4-5)[of b] in simp_all)
  next
    case 4
    then show ?thesis
      using slot_index_regions(4)[OF 4] slot_index_regions(4,5)[of b] assms
      by (cases "b < 6144") simp_all
  next
    case 5
    then show ?thesis
      using slot_index_regions(5)[OF 5] slot_index_regions(5)[of b] assms by (simp add: div_le_mono)
  qed
qed

lemma slot_index_tiny: "sz \<le> 512 \<Longrightarrow> slot_index sz = (sz - 1) div 16"
  by (simp add: slot_index_def)

lemma slot_index_bounds:
  "32 < sz \<Longrightarrow> 2 \<le> slot_index sz"
  "sz \<le> 65536 \<Longrightarrow> slot_index sz < 64"
  "sz \<le> 61440 \<Longrightarrow> slot_index sz < 63"
  by (auto simp: slot_index_def)

lemma get_index_run [run_simps]: "32 < sz \<Longrightarrow> get_index sz s = Inr (slot_index sz, s)"
  by (simp add: get_index_def IMPOSSIBLE_def run_simps)

lemma slot_ref_run [run_simps]: "i < 64 \<Longrightarrow> slot_ref i s = Inr (um_slots s + 16 * i, s)"
  by (simp add: slot_ref_def run_simps)

end
