(* ===== verification/Um_Alloc.thy ===== *)
theory Um_Alloc
  imports Um_Data
begin

text \<open>
  The operations of the user-level allocator, function by function:
  \<^verbatim>\<open>memory/ummalloc_dealloc.h\<close>, \<^verbatim>\<open>memory/ummalloc_alloc.h\<close> and \<^verbatim>\<open>user/ummalloc.c\<close>.
  A data pointer is an address; 0 is \<^verbatim>\<open>NULL\<close>.
\<close>

section \<open>Freeing and merging\<close>

definition free_chunk :: "nat \<Rightarrow> unit um_prog" where
  "free_chunk pack =
     bnd (pack_meta pack) (\<lambda>meta. sq (IMPOSSIBLE (meta \<noteq> PREV_INUSE))
     (bnd (pack_next pack) (\<lambda>next. bnd (pack_meta next) (\<lambda>nmeta.
     sq (IMPOSSIBLE (nmeta \<noteq> THIS_INUSE))
     (bnd (pack_size pack) (\<lambda>size. bnd (get_index size) (\<lambda>index.
     bnd (slot_ref index) (\<lambda>list.
     sq (list_push list (pack_data pack))
     (bitmap_set index))))))))) "

definition try_safe_remove :: "nat \<Rightarrow> nat \<Rightarrow> unit um_prog" where
  "try_safe_remove node pack = bnd (ldp node) (\<lambda>prev. bnd (ldp (node + 8)) (\<lambda>next.
     sq (node_link prev next)
     (if prev = next then bnd (pack_size pack) (\<lambda>size. bnd (get_index size) bitmap_clr)
      else ret ())))"

definition try_merge_prev :: "nat \<Rightarrow> nat um_prog" where
  "try_merge_prev pack =
     bnd (pack_meta pack) (\<lambda>meta.
     if meta AND PREV_INUSE \<noteq> 0 then ret pack else
     bnd (pack_size pack) (\<lambda>size.
     bnd (pack_prev pack) (\<lambda>prev.
     sq (try_safe_remove (pack_data prev) prev)
     (sq (prev_add_size prev (of_nat size))
     (bnd (pack_next prev) (\<lambda>next.
     bnd (pack_size prev) (\<lambda>psize.
     sq (pack_set_prev next (of_nat psize))
     (ret prev))))))))"

section \<open>Allocating from a chunk\<close>

definition HEAD :: "32 word" where
  "HEAD = 114514"

definition TAIL :: "32 word" where
  "TAIL = 0"

definition pack_allocate :: "nat \<Rightarrow> nat um_prog" where
  "pack_allocate pack =
     bnd (pack_size pack) (\<lambda>size.
     sq (pack_set_meta pack BOTH_INUSE)
     (bnd (pack_next pack) (\<lambda>next.
     sq (pack_set_prev next (of_nat size))
     (sq (pack_add_meta next PREV_INUSE)
     (ret (pack_data pack))))))"

definition split_allocate :: "nat \<Rightarrow> nat \<Rightarrow> nat um_prog" where
  "split_allocate pack need =
     bnd (pack_size pack) (\<lambda>size. let rest = sub64 size need in
     bnd (pack_next pack) (\<lambda>next.
     sq (pack_set_prev next (of_nat rest))
     (sq (pack_set_meta next THIS_INUSE)
     (sq (pack_set_info pack (of_nat need) BOTH_INUSE)
     (bnd (pack_next pack) (\<lambda>temp.
     sq (pack_set_prev temp (of_nat need))
     (sq (pack_set_info temp (of_nat rest) PREV_INUSE)
     (sq (free_chunk temp)
     (ret (pack_data pack))))))))))"

definition try_split_allocate :: "nat \<Rightarrow> nat \<Rightarrow> nat um_prog" where
  "try_split_allocate pack need =
     bnd (pack_size pack) (\<lambda>size. let rest = sub64 size need in
     if rest \<ge> need \<or> rest \<ge> 512 then split_allocate pack need else pack_allocate pack)"

definition list_extract :: "nat \<Rightarrow> nat um_prog" where
  "list_extract index =
     bnd (slot_ref index) (\<lambda>list.
     bnd (list_pop list) (\<lambda>node.
     bnd (list_empty list) (\<lambda>e.
     sq (if e then bitmap_clr index else ret ()) (ret node))))"

section \<open>Growing the heap\<close>

text \<open>
  The system call: the break moves by \<open>n\<close> and the old break is returned, or nothing
  moves and \<open>-1\<close> is returned.
\<close>

definition sbrk :: "nat \<Rightarrow> nat um_prog" where
  "sbrk n = (\<lambda>s. if um_brk s + n \<le> um_limit s
     then Inr (um_brk s, s\<lparr>um_brk := um_brk s + n\<rparr>) else Inr (2 ^ 64 - 1, s))"

definition malloc_brk :: "nat \<Rightarrow> nat um_prog" where
  "malloc_brk need =
     bnd (gets um_base) (\<lambda>base. let pack = list_pack base;
       page = w64 (need + 4095) div 4096; size = w64 (page * 4096) in
     sq (pack_set_size pack (of_nat size))
     (sq (upd (\<lambda>s. s\<lparr>um_base := w64 (base + size)\<rparr>))
     (bnd (sbrk size) (\<lambda>r. if r = 2 ^ 64 - 1 then ret 0 else
     bnd (pack_next pack) (\<lambda>next.
     sq (pack_set_info next 0 THIS_INUSE)
     (bnd (try_merge_prev pack) (\<lambda>pack'. try_split_allocate pack' need))))))) "

section \<open>Allocating from the slots\<close>

definition next_allocate :: "nat \<Rightarrow> nat \<Rightarrow> nat um_prog" where
  "next_allocate index sz =
     bnd (next_free index) (\<lambda>lowbit.
     if lowbit = 0 then malloc_brk sz else
     bnd (list_extract (log2_ceil64 lowbit)) (\<lambda>node.
     try_split_allocate (list_pack node) sz))"

text \<open>The choice of a free 32-byte chunk of a page: the highest set bit of its two bitmaps.\<close>

definition fast_index :: "nat \<Rightarrow> nat um_prog" where
  "fast_index mp =
     bnd (ld64 (mp + 8)) (\<lambda>map1.
     if map1 \<noteq> 0 then let high = log2_floor64 map1 in
       sq (st64 (mp + 8) (map1 AND NOT (push_bit high 1))) (ret high)
     else bnd (ld64 (mp + 16)) (\<lambda>map2.
     if map2 \<noteq> 0 then let high = log2_floor64 map2 in
       sq (st64 (mp + 16) (map2 AND NOT (push_bit high 1))) (ret (high + 64))
     else fail Impossible))"

definition fast_allocate :: "nat um_prog" where
  "fast_allocate =
     bnd (slot_ref 1) (\<lambda>list.
     bnd (list_empty list) (\<lambda>e. if e then ret 0 else
     bnd (ldp (list + 8)) (\<lambda>node. let pack = list_pack node;
       map = w64 (pack_data pack + 16); mem = w64 (map + 24) in
     bnd (ld64 map) (\<lambda>count.
     sq (IMPOSSIBLE (count = 0))
     (sq (st64 map (count - 1))
     (sq (if count - 1 = 0
          then bnd (list_pop list) (\<lambda>n. bnd (gets um_fast_full) (\<lambda>full. list_push full n))
          else ret ())
     (bnd (fast_index map) (\<lambda>index. let next = w64 (mem + index * 32) in
     sq (pack_set_prev next (of_nat index))
     (sq (pack_set_info next 32 BOTH_INUSE)
     (ret (pack_data next)))))))))))"

definition tiny_allocate :: "nat \<Rightarrow> nat um_prog" where
  "tiny_allocate index =
     bnd (slot_ref index) (\<lambda>list.
     bnd (list_empty list) (\<lambda>e. if e then ret 0 else
     bnd (list_extract index) (\<lambda>node. pack_allocate (list_pack node))))"

text \<open>The loop of \<^verbatim>\<open>iterative_allocate\<close>; the last argument is \<^verbatim>\<open>head\<close>.\<close>

fun iterative_loop :: "nat \<Rightarrow> nat \<Rightarrow> nat \<Rightarrow> nat \<Rightarrow> nat \<Rightarrow> nat um_prog" where
  "iterative_loop index list need 0 head = ret 0"
| "iterative_loop index list need (Suc iteration) head =
     (if head = list then ret 0 else
      let pack = list_pack head in
      bnd (pack_size pack) (\<lambda>size.
      if size \<ge> need then sq (safe_remove head index) (pack_allocate pack)
      else bnd (ldp (head + 8)) (\<lambda>head'. iterative_loop index list need iteration head')))"

definition iterative_allocate :: "nat \<Rightarrow> nat \<Rightarrow> nat \<Rightarrow> nat um_prog" where
  "iterative_allocate index need iteration =
     bnd (slot_ref index) (\<lambda>list.
     bnd (ldp (list + 8)) (\<lambda>head. iterative_loop index list need iteration head))"

definition malloc_middle :: "nat \<Rightarrow> nat um_prog" where
  "malloc_middle sz =
     (let index = (if sz \<le> 640 then w64 (sz + 1535) div 64 else 34 + sub64 sz 513 div 256) in
      bnd (iterative_allocate index sz 4) (\<lambda>data. if data \<noteq> 0 then ret data
      else next_allocate index sz))"

definition malloc_huge :: "nat \<Rightarrow> nat um_prog" where
  "malloc_huge sz =
     (let index = (if sz < 6144 then 48 else sub64 sz 1 div 4096 + 48) in
      bnd (iterative_allocate index sz 8) (\<lambda>data. if data \<noteq> 0 then ret data
      else next_allocate index sz))"

definition fast_bin_reserve :: "unit um_prog" where
  "fast_bin_reserve =
     bnd (slot_ref 1) (\<lambda>list.
     bnd (list_empty list) (\<lambda>e. if \<not> e then ret () else
     bnd (malloc_huge (4096 + 48)) (\<lambda>node.
     sq (list_push list node)
     (let map = w64 (pack_data (list_pack node) + 16) in
     sq (st64 map (64 + 64))
     (sq (st64 (map + 8) (- 1))
     (st64 (map + 16) (- 1)))))))"

definition malloc_fast :: "nat um_prog" where
  "malloc_fast = sq fast_bin_reserve fast_allocate"

definition malloc_tiny :: "nat \<Rightarrow> nat um_prog" where
  "malloc_tiny sz =
     (if sz \<le> 32 then malloc_fast else
      let index = sub64 sz 1 div 16; need = (index + 1) * 16 in
      bnd (tiny_allocate index) (\<lambda>data. if data \<noteq> 0 then ret data
      else next_allocate index need))"

section \<open>Initialisation\<close>

primrec init_slots :: "nat \<Rightarrow> unit um_prog" where
  "init_slots 0 = ret ()"
| "init_slots (Suc i) = sq (init_slots i) (bnd (slot_ref i) list_init)"

definition mm_list_init :: "unit um_prog" where
  "mm_list_init = sq (init_slots 64) (bnd (gets um_fast_full) list_init)"

definition mm_align_init :: "unit um_prog" where
  "mm_align_init =
     bnd (sbrk 4096) (\<lambda>heap. let temp = heap mod 4096 in
     bnd (if temp \<noteq> 0 then bnd (sbrk (4096 - temp)) (\<lambda>_. ret (4096 + (4096 - temp)))
          else ret 4096) (\<lambda>size.
     let top = w64 (heap + size); low = w64 (ALIGN heap + 8) in
     sq (upd (\<lambda>s. s\<lparr>um_base := top\<rparr>))
     (let size' = sub64 top low; pack = list_pack low in
     sq (pack_set_prev pack HEAD)
     (sq (pack_set_info pack (of_nat size') PREV_INUSE)
     (let next = list_pack top in
     sq (pack_set_prev next (of_nat size'))
     (sq (pack_set_info next TAIL THIS_INUSE)
     (free_chunk pack)))))))"

section \<open>The interface\<close>

definition mm_init :: "int um_prog" where
  "mm_init = sq mm_list_init (sq mm_align_init
     (bnd (gets um_base) (\<lambda>base. ret (if base = 0 then - 1 else 0))))"

definition request_size :: "32 word \<Rightarrow> nat" where
  "request_size sz = unat (((sz + 7) AND NOT 7) + 8)"

definition mm_malloc :: "32 word \<Rightarrow> nat um_prog" where
  "mm_malloc sz0 = (let sz = request_size sz0 in
     if sz \<le> 512 then malloc_tiny sz
     else if sz > 4096 then malloc_huge sz
     else malloc_middle sz)"

definition mm_free :: "nat \<Rightarrow> unit um_prog" where
  "mm_free ptr = ret ()"

definition mm_realloc :: "nat \<Rightarrow> 32 word \<Rightarrow> nat um_prog" where
  "mm_realloc ptr sz =
     (if sz = 0 then sq (mm_free ptr) (ret 0)
      else if ptr = 0 then mm_malloc sz
      else ret 0)"

end
