(* ===== verification/Um_Layout.thy ===== *)
theory Um_Layout
  imports Um_Alloc
begin

text \<open>
  How the heap of the user-level allocator is laid out in memory: the used chunks one
  after another, then at most one free chunk, then the sentinel header below the break.
  The predicates of this theory read the layout off the bytes; the lemmas say which
  bytes each of them depends on.
\<close>

section \<open>Used chunks\<close>

text \<open>A used chunk is described by its size and whether it is a page of 32-byte chunks.\<close>

type_synonym chunks = "(nat \<times> bool) list"

fun starts :: "nat \<Rightarrow> chunks \<Rightarrow> (nat \<times> nat \<times> bool) list" where
  "starts p [] = []"
| "starts p ((u, k) # us) = (p, u, k) # starts (p + u) us"

definition extent :: "chunks \<Rightarrow> nat" where
  "extent us = sum_list (map fst us)"

lemma extent_simps [simp]:
  "extent [] = 0" "extent ((u, k) # us) = u + extent us" "extent (us @ vs) = extent us + extent vs"
  by (simp_all add: extent_def)

lemma starts_append: "starts p (us @ vs) = starts p us @ starts (p + extent us) vs"
  by (induction p us rule: starts.induct) (simp_all add: add.assoc)

lemma starts_bounds: "(q, u, k) \<in> set (starts p us) \<Longrightarrow> p \<le> q \<and> q + u \<le> p + extent us \<and> (u, k) \<in> set us"
  by (induction p us rule: starts.induct) fastforce+

lemma starts_disjoint:
  assumes "(q, u, k) \<in> set (starts p us)" "(q', u', k') \<in> set (starts p us)"
    and "(q, u, k) \<noteq> (q', u', k')"
  shows "q + u \<le> q' \<or> q' + u' \<le> q"
  using assms
proof (induction p us rule: starts.induct)
  case (2 p u0 k0 us)
  then show ?case using starts_bounds[of _ _ _ "p + u0" us] by fastforce
qed simp

lemma starts_unique:
  assumes "(q, u, k) \<in> set (starts p us)" "(q, u', k') \<in> set (starts p us)" "0 < u" "0 < u'"
  shows "u = u'" "k = k'"
  using starts_disjoint[OF assms(1,2)] assms(3,4) by auto

text \<open>The boundary tags of the used chunks; \<open>prv\<close> is what the first one stores of its predecessor.\<close>

fun hdrs :: "memory \<Rightarrow> 32 word \<Rightarrow> nat \<Rightarrow> chunks \<Rightarrow> bool" where
  "hdrs m prv p [] \<longleftrightarrow> True"
| "hdrs m prv p ((u, k) # us) \<longleftrightarrow>
     load32 m p = prv \<and> load32 m (p + 4) = of_nat u OR 3 \<and> hdrs m (of_nat u) (p + u) us"

fun prev_tag :: "32 word \<Rightarrow> chunks \<Rightarrow> 32 word" where
  "prev_tag prv [] = prv"
| "prev_tag prv ((u, k) # us) = prev_tag (of_nat u) us"

lemma prev_tag_append [simp]: "prev_tag prv (us @ [(u, k)]) = of_nat u"
  by (induction prv us rule: prev_tag.induct) simp_all

lemma hdrs_append:
  "hdrs m prv p (us @ [(u, k)]) \<longleftrightarrow> hdrs m prv p us \<and>
     load32 m (p + extent us) = prev_tag prv us \<and> load32 m (p + extent us + 4) = of_nat u OR 3"
  by (induction m prv p us rule: hdrs.induct) (auto simp: add.assoc)

definition agree :: "memory \<Rightarrow> memory \<Rightarrow> nat \<Rightarrow> nat \<Rightarrow> bool" where
  "agree m m' a b \<longleftrightarrow> (\<forall>x. a \<le> x \<and> x < b \<longrightarrow> m' x = m x)"

lemma agree_refl [simp]: "agree m m a b"
  by (simp add: agree_def)

lemma agree_sub: "agree m m' a b \<Longrightarrow> a \<le> c \<Longrightarrow> d \<le> b \<Longrightarrow> agree m m' c d"
  by (auto simp: agree_def)

lemma agree_store [mem_simps]:
  "b \<le> p \<or> p + 4 \<le> a \<Longrightarrow> agree m (store32 m' p v) a b = agree m m' a b"
  "b \<le> p \<or> p + 8 \<le> a \<Longrightarrow> agree m (store64 m' p w) a b = agree m m' a b"
  by (auto simp: agree_def store32_other store64_other)

lemma agree_load:
  "agree m m' a b \<Longrightarrow> a \<le> p \<Longrightarrow> p + 4 \<le> b \<Longrightarrow> load32 m' p = load32 m p"
  "agree m m' a b \<Longrightarrow> a \<le> p \<Longrightarrow> p + 8 \<le> b \<Longrightarrow> load64 m' p = load64 m p"
  "agree m m' a b \<Longrightarrow> a \<le> p \<Longrightarrow> p + 8 \<le> b \<Longrightarrow> loadp m' p = loadp m p"
  by (auto simp: agree_def loadp_def intro!: load32_cong load64_cong arg_cong[where f = unat])

lemma hdrs_agree:
  "agree m m' p (p + extent us) \<Longrightarrow> \<forall>(u, k) \<in> set us. 8 \<le> u \<Longrightarrow> hdrs m prv p us \<Longrightarrow> hdrs m' prv p us"
proof (induction m prv p us rule: hdrs.induct)
  case (2 m prv p u k us)
  have "agree m m' (p + u) (p + u + extent us)"
    using "2.prems"(1) by (rule agree_sub) simp_all
  then show ?case
    using 2 agree_load(1)[OF "2.prems"(1)] by auto
qed simp

section \<open>Rings\<close>

fun chain :: "memory \<Rightarrow> nat \<Rightarrow> nat list \<Rightarrow> nat \<Rightarrow> bool" where
  "chain m a [] b \<longleftrightarrow> loadp m (a + 8) = b \<and> loadp m b = a"
| "chain m a (n # ns) b \<longleftrightarrow> loadp m (a + 8) = n \<and> loadp m n = a \<and> chain m n ns b"

abbreviation ring :: "memory \<Rightarrow> nat \<Rightarrow> nat list \<Rightarrow> bool" where
  "ring m h ns \<equiv> chain m h ns h"

lemma chain_agree:
  "chain m a ns b \<Longrightarrow> loadp m' (a + 8) = loadp m (a + 8) \<Longrightarrow> loadp m' b = loadp m b \<Longrightarrow>
   \<forall>n \<in> set ns. loadp m' n = loadp m n \<and> loadp m' (n + 8) = loadp m (n + 8) \<Longrightarrow> chain m' a ns b"
  by (induction m a ns b rule: chain.induct) auto

lemma ring_agree:
  assumes "ring m h ns" "agree m m' h (h + 16)" "\<forall>n \<in> set ns. agree m m' n (n + 16)"
  shows "ring m' h ns"
proof (rule chain_agree[OF assms(1)])
  show "loadp m' (h + 8) = loadp m (h + 8)" "loadp m' h = loadp m h"
    using agree_load(3)[OF assms(2)] by simp_all
  show "\<forall>n \<in> set ns. loadp m' n = loadp m n \<and> loadp m' (n + 8) = loadp m (n + 8)"
    using assms(3) agree_load(3) by fastforce
qed

text \<open>What \<^verbatim>\<open>list_push\<close> writes.\<close>

definition push_mem :: "memory \<Rightarrow> nat \<Rightarrow> nat \<Rightarrow> memory" where
  "push_mem m h n = (let x = loadp m (h + 8) in
     store64 (store64 (store64 (store64 m (n + 8) (of_nat x)) x (of_nat n))
       (h + 8) (of_nat n)) n (of_nat h))"

lemma list_push_run [run_simps]:
  assumes "h + 16 \<le> um_brk s" "n + 16 \<le> um_brk s" "loadp (um_mem s) (h + 8) + 8 \<le> um_brk s"
  shows "list_push h n s = Inr ((), s\<lparr>um_mem := push_mem (um_mem s) h n\<rparr>)"
  using assms by (simp add: list_push_def node_link_def push_mem_def Let_def run_simps)

lemma ring_push:
  assumes r: "ring m h ns"
    and sep: "\<forall>x \<in> set (h # ns). n + 16 \<le> x \<or> x + 16 \<le> n"
    and sep2: "\<forall>x \<in> set ns. h + 16 \<le> x \<or> x + 16 \<le> h"
    and sep3: "\<forall>x \<in> set ns. \<forall>y \<in> set ns. x \<noteq> y \<longrightarrow> x + 16 \<le> y \<or> y + 16 \<le> x"
    and "distinct ns" and small: "\<forall>x \<in> set (n # h # ns). x < 2 ^ 64"
  shows "ring (push_mem m h n) h (n # ns)"
proof (cases ns)
  case Nil
  with r sep small show ?thesis
    by (auto simp: push_mem_def Let_def mem_simps)
next
  case (Cons y ys)
  then have y: "loadp m (h + 8) = y" "chain m y ys h" using r by auto
  let ?m = "push_mem m h n"
  have "\<forall>z \<in> set ys. y + 16 \<le> z \<or> z + 16 \<le> y"
    using Cons sep3 \<open>distinct ns\<close> by auto
  then have same: "loadp ?m z = loadp m z \<and> loadp ?m (z + 8) = loadp m (z + 8)" if "z \<in> set ys" for z
  proof -
    have "y + 16 \<le> z \<or> z + 16 \<le> y" "n + 16 \<le> z \<or> z + 16 \<le> n" "h + 16 \<le> z \<or> z + 16 \<le> h"
      using that Cons sep sep2 \<open>\<forall>z \<in> set ys. y + 16 \<le> z \<or> z + 16 \<le> y\<close> by auto
    then show ?thesis
      by (elim disjE) (simp_all add: push_mem_def Let_def y mem_simps)
  qed
  have "chain ?m y ys h"
  proof (rule chain_agree[OF y(2)])
    show "loadp ?m (y + 8) = loadp m (y + 8)" "loadp ?m h = loadp m h"
      using Cons sep sep2 y(1) by (auto simp: push_mem_def Let_def mem_simps)
  qed (use same in blast)
  moreover have "loadp ?m (h + 8) = n" "loadp ?m n = h" "loadp ?m (n + 8) = y" "loadp ?m y = n"
    using Cons sep sep2 y(1) small by (auto simp: push_mem_def Let_def mem_simps)
  ultimately show ?thesis using Cons by simp
qed

lemma agree_push:
  assumes "agree m m' a b" "b \<le> n \<or> n + 16 \<le> a" "b \<le> h + 8 \<or> h + 16 \<le> a"
    "b \<le> loadp m' (h + 8) \<or> loadp m' (h + 8) + 8 \<le> a"
  shows "agree m (push_mem m' h n) a b"
  using assms by (auto simp: push_mem_def Let_def mem_simps)

section \<open>Programs that leave the base and the break alone\<close>

definition steady :: "'a um_prog \<Rightarrow> bool" where
  "steady m \<longleftrightarrow> (\<forall>s x s'. m s = Inr (x, s') \<longrightarrow> um_base s' = um_base s \<and> um_brk s' = um_brk s)"

named_theorems steady_rules

lemma steadyD: "steady m \<Longrightarrow> m s = Inr (x, s') \<Longrightarrow> um_base s' = um_base s \<and> um_brk s' = um_brk s"
  by (simp add: steady_def)

lemma steady_bnd [steady_rules]: "steady m \<Longrightarrow> (\<And>x. steady (f x)) \<Longrightarrow> steady (bnd m f)"
  unfolding steady_def by (metis bnd_InrE)

lemma steady_sq [steady_rules]: "steady m \<Longrightarrow> steady k \<Longrightarrow> steady (sq m k)"
  unfolding sq_def by (rule steady_bnd)

lemma steady_basic [steady_rules]:
  "steady (ret x)" "steady (fail e)" "steady (gets g)" "steady (guard b e)" "steady (IMPOSSIBLE c)"
  "steady (ld32 a)" "steady (ld64 a)" "steady (st32 a v)" "steady (st64 a w)"
  "steady (upd (\<lambda>s. s\<lparr>um_bitmap := h s\<rparr>))"
  by (auto simp: steady_def ret_def fail_def gets_def guard_def IMPOSSIBLE_def ld32_def ld64_def st32_def st64_def upd_def split: if_splits)

lemma steady_if [steady_rules]: "(c \<Longrightarrow> steady m) \<Longrightarrow> (\<not> c \<Longrightarrow> steady k) \<Longrightarrow> steady (if c then m else k)"
  by simp

lemma steady_ops [steady_rules]:
  "steady (ldp a)" "steady (stp a p)" "steady (pack_set_prev p v)" "steady (pack_set_info p v k)" "steady (pack_size p)"
  "steady (pack_next p)" "steady (pack_meta p)" "steady (node_link p n)" "steady (list_empty p)" "steady (list_pop p)" "steady (list_push p n)"
  "steady (slot_ref i)" "steady (bitmap_set i)" "steady (get_index n)"
  unfolding ldp_def stp_def pack_set_prev_def pack_set_info_def pack_size_def pack_next_def pack_meta_def node_link_def list_empty_def
    list_pop_def list_push_def slot_ref_def bitmap_set_def get_index_def
  by (intro steady_rules)+

lemma steady_free_chunk [steady_rules]: "steady (free_chunk p)"
  unfolding free_chunk_def by (intro steady_rules)

lemma steady_fast [steady_rules]: "steady (fast_index mp)" "steady fast_allocate"
proof -
  show i: "steady (fast_index mp)" for mp unfolding fast_index_def Let_def by (intro steady_rules)
  show "steady fast_allocate" unfolding fast_allocate_def Let_def by (intro steady_rules i)
qed

end
