(* ===== verification/Um_Inv.thy ===== *)
theory Um_Inv
  imports Um_Layout
begin

text \<open>
  The invariant of the user-level allocator and the proof that the operations on large
  chunks keep it: taking the free chunk out of its slot, cutting it, growing the heap.
  Since \<^verbatim>\<open>mm_free\<close> does nothing, a free chunk only ever comes from cutting the last
  chunk of the heap, so there is at most one and it lies just below the sentinel.
\<close>

section \<open>The invariant\<close>

definition slot :: "um \<Rightarrow> nat \<Rightarrow> nat" where
  "slot s i = um_slots s + 16 * i"

definition sizes_ok :: "chunks \<Rightarrow> bool" where
  "sizes_ok us \<longleftrightarrow> (\<forall>(u, k) \<in> set us. 8 dvd u \<and> 48 \<le> u \<and> u < 2 ^ 31 \<and> (k \<longrightarrow> 4144 \<le> u))"

definition globals_ok :: "um \<Rightarrow> nat \<Rightarrow> bool" where
  "globals_ok s lo \<longleftrightarrow> um_slots s + 1024 \<le> lo \<and> um_fast_full s + 16 \<le> lo \<and>
     (um_slots s + 1024 \<le> um_fast_full s \<or> um_fast_full s + 16 \<le> um_slots s) \<and>
     8 dvd lo \<and> um_limit s \<le> 2 ^ 38"

text \<open>A page: the node at \<open>q + 8\<close>, the count at \<open>q + 24\<close>, two bitmaps, then 128 chunks.\<close>

definition page_bit :: "memory \<Rightarrow> nat \<Rightarrow> nat \<Rightarrow> bool" where
  "page_bit m q i = (if i < 64 then bit (load64 m (q + 32)) i else bit (load64 m (q + 40)) (i - 64))"

definition page_free :: "memory \<Rightarrow> nat \<Rightarrow> nat set" where
  "page_free m q = {i. i < 128 \<and> page_bit m q i}"

definition page_ok :: "memory \<Rightarrow> nat \<Rightarrow> bool" where
  "page_ok m q \<longleftrightarrow> load64 m (q + 24) = of_nat (card (page_free m q))"

definition page_set :: "nat \<Rightarrow> chunks \<Rightarrow> nat set" where
  "page_set lo us = {q. \<exists>u. (q, u, True) \<in> set (starts lo us)}"

definition pages_ok :: "um \<Rightarrow> nat \<Rightarrow> chunks \<Rightarrow> nat list \<Rightarrow> nat list \<Rightarrow> bool" where
  "pages_ok s lo us cur full \<longleftrightarrow>
     length cur \<le> 1 \<and> distinct (cur @ full) \<and>
     set cur \<union> set full = page_set lo us \<and>
     ring (um_mem s) (slot s 1) (map (\<lambda>q. q + 8) cur) \<and>
     ring (um_mem s) (um_fast_full s) (map (\<lambda>q. q + 8) full) \<and>
     (\<forall>q \<in> set cur. page_ok (um_mem s) q \<and> page_free (um_mem s) q \<noteq> {}) \<and>
     (\<forall>q \<in> set full. page_free (um_mem s) q = {})"

definition used_ok :: "um \<Rightarrow> nat \<Rightarrow> chunks \<Rightarrow> nat list \<Rightarrow> nat list \<Rightarrow> bool" where
  "used_ok s lo us cur full \<longleftrightarrow> globals_ok s lo \<and> sizes_ok us \<and> hdrs (um_mem s) HEAD lo us \<and>
     pages_ok s lo us cur full"

definition free_ok :: "um \<Rightarrow> nat \<Rightarrow> chunks \<Rightarrow> nat \<Rightarrow> bool" where
  "free_ok s lo us f \<longleftrightarrow> (let e = lo + extent us; m = um_mem s in
     um_base s = e + f + 8 \<and> um_brk s = um_base s \<and> um_brk s \<le> um_limit s \<and>
     load32 m e = prev_tag HEAD us \<and>
     (if f = 0 then load32 m (e + 4) = BOTH_INUSE
      else 8 dvd f \<and> 48 \<le> f \<and> f \<le> 65536 \<and> load32 m (e + 4) = of_nat f OR PREV_INUSE \<and>
        load32 m (e + f) = of_nat f \<and> load32 m (e + f + 4) = THIS_INUSE) \<and>
     um_bitmap s = (if f = 0 then 0 else push_bit (slot_index f) 1) \<and>
     (\<forall>i < 64. i \<noteq> 1 \<longrightarrow> ring m (slot s i) (if f \<noteq> 0 \<and> i = slot_index f then [e + 8] else [])))"

definition um_inv :: "um \<Rightarrow> nat \<Rightarrow> chunks \<Rightarrow> nat \<Rightarrow> nat list \<Rightarrow> nat list \<Rightarrow> bool" where
  "um_inv s lo us f cur full \<longleftrightarrow> used_ok s lo us cur full \<and> free_ok s lo us f"

text \<open>
  In the middle of an allocation the last chunk, of size \<open>c\<close>, is in no list.
\<close>

definition open_ok :: "um \<Rightarrow> nat \<Rightarrow> chunks \<Rightarrow> nat \<Rightarrow> bool" where
  "open_ok s lo us c \<longleftrightarrow> (let e = lo + extent us; m = um_mem s in
     um_base s = e + c + 8 \<and> um_brk s = um_base s \<and> um_brk s \<le> um_limit s \<and>
     8 dvd c \<and> 48 \<le> c \<and> c < 2 ^ 31 \<and>
     load32 m e = prev_tag HEAD us \<and> load32 m (e + 4) AND NOT FULL_MASK = of_nat c \<and>
     (load32 m (e + c + 4) = THIS_INUSE \<or> load32 m (e + c + 4) = BOTH_INUSE) \<and>
     um_bitmap s = 0 \<and> (\<forall>i < 64. i \<noteq> 1 \<longrightarrow> ring m (slot s i) []))"

definition same_env :: "um \<Rightarrow> um \<Rightarrow> bool" where
  "same_env s s' \<longleftrightarrow> um_slots s' = um_slots s \<and> um_fast_full s' = um_fast_full s \<and>
     um_limit s' = um_limit s"

section \<open>Frames\<close>

lemma globals_ok_env: "same_env s s' \<Longrightarrow> globals_ok s lo \<Longrightarrow> globals_ok s' lo"
  by (simp add: same_env_def globals_ok_def)

lemma page_free_agree:
  "agree m m' (q + 24) (q + 48) \<Longrightarrow> page_free m' q = page_free m q"
  using agree_load(2)[of m m' "q + 24" "q + 48"]
  by (simp add: page_free_def page_bit_def)

lemma page_ok_agree:
  "agree m m' (q + 24) (q + 48) \<Longrightarrow> page_ok m' q = page_ok m q"
  using agree_load(2)[of m m' "q + 24" "q + 48" "q + 24"] page_free_agree
  by (simp add: page_ok_def)

lemma pages_in_chunks:
  assumes "pages_ok s lo us cur full" "sizes_ok us" "q \<in> set (cur @ full)"
  obtains u where "(q, u, True) \<in> set (starts lo us)" "lo \<le> q" "q + u \<le> lo + extent us" "4144 \<le> u"
proof -
  from assms(1,3) obtain u where u: "(q, u, True) \<in> set (starts lo us)"
    unfolding pages_ok_def page_set_def by auto
  from starts_bounds[OF u] assms(2) show thesis
    by (intro that[OF u]) (auto simp: sizes_ok_def)
qed

lemma pages_okD:
  assumes "pages_ok s lo us cur full"
  shows "length cur \<le> 1" "distinct (cur @ full)"
    "set cur \<union> set full = page_set lo us"
    "ring (um_mem s) (slot s 1) (map (\<lambda>q. q + 8) cur)"
    "ring (um_mem s) (um_fast_full s) (map (\<lambda>q. q + 8) full)"
    "\<And>q. q \<in> set cur \<Longrightarrow> page_ok (um_mem s) q \<and> page_free (um_mem s) q \<noteq> {}"
    "\<And>q. q \<in> set full \<Longrightarrow> page_free (um_mem s) q = {}"
  using assms unfolding pages_ok_def by blast+

lemma used_ok_agree:
  assumes u: "used_ok s lo us cur full" and env: "same_env s s'"
    and heap: "agree (um_mem s) (um_mem s') lo (lo + extent us)"
    and s1: "agree (um_mem s) (um_mem s') (slot s 1) (slot s 1 + 16)"
    and ff: "agree (um_mem s) (um_mem s') (um_fast_full s) (um_fast_full s + 16)"
  shows "used_ok s' lo us cur full"
proof -
  have p: "pages_ok s lo us cur full" and sz: "sizes_ok us" using u by (simp_all add: used_ok_def)
  have ag: "agree (um_mem s) (um_mem s') q (q + 4144)" if q: "q \<in> set (cur @ full)" for q
  proof -
    obtain u where "(q, u, True) \<in> set (starts lo us)" "lo \<le> q" "q + u \<le> lo + extent us" "4144 \<le> u"
      by (rule pages_in_chunks[OF p sz q])
    then show ?thesis by (intro agree_sub[OF heap]) simp_all
  qed
  have nodes: "\<forall>n \<in> set (map (\<lambda>q. q + 8) qs). agree (um_mem s) (um_mem s') n (n + 16)"
    if "set qs \<subseteq> set (cur @ full)" for qs
    using that ag agree_sub by fastforce
  have free: "page_free (um_mem s') q = page_free (um_mem s) q" "page_ok (um_mem s') q = page_ok (um_mem s) q"
    if "q \<in> set cur \<or> q \<in> set full" for q
    using agree_sub[OF ag, of q "q + 24" "q + 48"] that page_free_agree page_ok_agree by auto
  have sl: "slot s' 1 = slot s 1" "um_fast_full s' = um_fast_full s"
    using env by (simp_all add: same_env_def slot_def)
  have "ring (um_mem s') (slot s' 1) (map (\<lambda>q. q + 8) cur)"
    unfolding sl by (rule ring_agree[OF pages_okD(4)[OF p] s1 nodes]) simp
  moreover have "ring (um_mem s') (um_fast_full s') (map (\<lambda>q. q + 8) full)"
    unfolding sl by (rule ring_agree[OF pages_okD(5)[OF p] ff nodes]) simp
  ultimately have "pages_ok s' lo us cur full"
    unfolding pages_ok_def using pages_okD[OF p] by (intro conjI ballI) (simp_all add: free)
  moreover have "hdrs (um_mem s') HEAD lo us"
  proof (rule hdrs_agree[OF heap])
    show "hdrs (um_mem s) HEAD lo us" using u by (simp add: used_ok_def)
    show "\<forall>(u, k) \<in> set us. 8 \<le> u" using sz by (auto simp: sizes_ok_def)
  qed
  ultimately show ?thesis
    using u globals_ok_env[OF env] by (simp add: used_ok_def)
qed

lemma used_ok_bounds:
  assumes "used_ok s lo us cur full"
  shows "um_slots s + 1024 \<le> lo" "um_fast_full s + 16 \<le> lo" "um_limit s \<le> 2 ^ 38"
    and "um_slots s + 1024 \<le> um_fast_full s \<or> um_fast_full s + 16 \<le> um_slots s"
  using assms by (simp_all add: used_ok_def globals_ok_def)

section \<open>Running the chunk accessors\<close>

lemma flag_words [simp]:
  "(PREV_INUSE :: 32 word) AND 7 = 1" "(THIS_INUSE :: 32 word) AND 7 = 2"
  "(BOTH_INUSE :: 32 word) AND 7 = 3" "(3 :: 32 word) AND - 8 = 0" "(2 :: 32 word) AND - 8 = 0"
  "(2 :: 32 word) OR 1 = 3" "(3 :: 32 word) OR 1 = 3"
  by simp_all

lemma hdr_word [simp]:
  assumes "8 dvd n"
  shows "((of_nat n :: 32 word) OR 1) AND - 8 = of_nat n" "((of_nat n :: 32 word) OR 3) AND - 8 = of_nat n"
    "((of_nat n :: 32 word) OR 1) AND 7 = 1" "((of_nat n :: 32 word) OR 3) AND 7 = 3"
    "(of_nat n :: 32 word) AND 7 = 0"
  using flags_split[OF assms, of "1 :: 32 word"] flags_split[OF assms, of "3 :: 32 word"]
    of_nat_and_7[OF assms, where 'a = 32]
  by simp_all

lemma pack_size_run:
  assumes "load32 (um_mem s) (p + 4) AND - 8 = of_nat c" "c < 2 ^ 32" "p + 8 \<le> um_brk s"
  shows "pack_size p s = Inr (c, s)"
  using assms by (simp add: pack_size_def run_simps)

lemma pack_next_run:
  assumes "load32 (um_mem s) (p + 4) AND - 8 = of_nat c" "c < 2 ^ 32" "p + 8 \<le> um_brk s"
    "p + c < 2 ^ 64"
  shows "pack_next p s = Inr (p + c, s)"
  using assms by (simp add: pack_next_def pack_size_run run_simps)

lemma pack_meta_run [run_simps]:
  "p + 8 \<le> um_brk s \<Longrightarrow> pack_meta p s = Inr (load32 (um_mem s) (p + 4) AND 7, s)"
  by (simp add: pack_meta_def run_simps)

lemma pack_set_prev_run [run_simps]:
  "p + 4 \<le> um_brk s \<Longrightarrow> pack_set_prev p v s = Inr ((), s\<lparr>um_mem := store32 (um_mem s) p v\<rparr>)"
  by (simp add: pack_set_prev_def run_simps)

lemma pack_set_info_run [run_simps]:
  "p + 8 \<le> um_brk s \<Longrightarrow> v AND 7 = 0 \<Longrightarrow>
   pack_set_info p v k s = Inr ((), s\<lparr>um_mem := store32 (um_mem s) (p + 4) (v OR k)\<rparr>)"
  by (simp add: pack_set_info_def IMPOSSIBLE_def run_simps)

lemma pack_set_meta_run [run_simps]:
  "p + 8 \<le> um_brk s \<Longrightarrow> pack_set_meta p k s =
     Inr ((), s\<lparr>um_mem := store32 (um_mem s) (p + 4) ((load32 (um_mem s) (p + 4) AND - 8) OR k)\<rparr>)"
  by (simp add: pack_set_meta_def run_simps)

lemma pack_add_meta_run [run_simps]:
  "p + 8 \<le> um_brk s \<Longrightarrow> pack_add_meta p k s =
     Inr ((), s\<lparr>um_mem := store32 (um_mem s) (p + 4) (load32 (um_mem s) (p + 4) OR k)\<rparr>)"
  by (simp add: pack_add_meta_def run_simps)

section \<open>Taking the free chunk out of its slot\<close>

definition unlink_mem :: "memory \<Rightarrow> nat \<Rightarrow> memory" where
  "unlink_mem m h = store64 (store64 m (h + 8) (of_nat h)) h (of_nat h)"

definition take_state :: "um \<Rightarrow> nat \<Rightarrow> um" where
  "take_state s f = s\<lparr>um_mem := unlink_mem (um_mem s) (slot s (slot_index f)), um_bitmap := 0\<rparr>"

lemma unlink_ring: "h < 2 ^ 64 \<Longrightarrow> ring (unlink_mem m h) h []"
  by (simp add: unlink_mem_def mem_simps)

lemma unlink_agree [mem_simps]:
  "b \<le> h \<or> h + 16 \<le> a \<Longrightarrow> agree m (unlink_mem m' h) a b = agree m m' a b"
  by (auto simp: unlink_mem_def mem_simps)

lemma slot_bounds:
  assumes "used_ok s lo us cur full" "i < 64"
  shows "um_slots s \<le> slot s i" "slot s i + 16 \<le> lo"
  using assms used_ok_bounds(1)[OF assms(1)] by (simp_all add: slot_def)

lemma slot_sep: "i \<noteq> j \<Longrightarrow> slot s i + 16 \<le> slot s j \<or> slot s j + 16 \<le> slot s i"
  by (auto simp: slot_def)

lemma free_okD:
  assumes "free_ok s lo us f"
  shows "um_base s = lo + extent us + f + 8" "um_brk s = lo + extent us + f + 8"
    "um_brk s \<le> um_limit s" "load32 (um_mem s) (lo + extent us) = prev_tag HEAD us"
    "\<And>i. i < 64 \<Longrightarrow> i \<noteq> 1 \<Longrightarrow> ring (um_mem s) (slot s i)
       (if f \<noteq> 0 \<and> i = slot_index f then [lo + extent us + 8] else [])"
    "um_bitmap s = (if f = 0 then 0 else push_bit (slot_index f) 1)"
  using assms by (simp_all add: free_ok_def Let_def)

lemma free_ok_chunkD:
  assumes "free_ok s lo us f" "f \<noteq> 0"
  shows "8 dvd f" "48 \<le> f" "f \<le> 65536" "2 \<le> slot_index f" "slot_index f < 64"
    "load32 (um_mem s) (lo + extent us + 4) = of_nat f OR 1"
    "load32 (um_mem s) (lo + extent us + f) = of_nat f"
    "load32 (um_mem s) (lo + extent us + f + 4) = 2"
  using assms by (auto simp: free_ok_def Let_def intro: slot_index_bounds)

text \<open>The free chunk as its list shows it, whatever lies above it.\<close>

definition listed :: "um \<Rightarrow> nat \<Rightarrow> chunks \<Rightarrow> nat \<Rightarrow> bool" where
  "listed s lo us f \<longleftrightarrow> (let e = lo + extent us; m = um_mem s in
     um_brk s \<le> um_limit s \<and> e + f + 8 \<le> um_brk s \<and> 8 dvd f \<and> 48 \<le> f \<and> f \<le> 65536 \<and>
     load32 m (e + 4) = of_nat f OR PREV_INUSE \<and> um_bitmap s = push_bit (slot_index f) 1 \<and>
     (\<forall>i < 64. i \<noteq> 1 \<longrightarrow> ring m (slot s i) (if i = slot_index f then [e + 8] else [])))"

lemma listedD:
  assumes "listed s lo us f"
  shows "um_brk s \<le> um_limit s" "lo + extent us + f + 8 \<le> um_brk s" "8 dvd f" "48 \<le> f" "f \<le> 65536"
    "load32 (um_mem s) (lo + extent us + 4) = of_nat f OR 1" "um_bitmap s = push_bit (slot_index f) 1"
    "2 \<le> slot_index f" "slot_index f < 64"
    "\<And>i. i < 64 \<Longrightarrow> i \<noteq> 1 \<Longrightarrow> ring (um_mem s) (slot s i)
       (if i = slot_index f then [lo + extent us + 8] else [])"
  using assms by (auto simp: listed_def Let_def intro: slot_index_bounds)

lemma free_ok_listed: "free_ok s lo us f \<Longrightarrow> f \<noteq> 0 \<Longrightarrow> listed s lo us f"
  by (simp add: free_ok_def listed_def Let_def)

lemma take_keeps:
  assumes u: "used_ok s lo us cur full" and l: "listed s lo us f"
  shows "used_ok (take_state s f) lo us cur full" "same_env s (take_state s f)"
    "agree (um_mem s) (um_mem (take_state s f)) lo (um_brk s)"
    "agree (um_mem s) (um_mem (take_state s f)) (slot s 1) (slot s 1 + 16)"
    "agree (um_mem s) (um_mem (take_state s f)) (um_fast_full s) (um_fast_full s + 16)"
    "\<And>i. i < 64 \<Longrightarrow> i \<noteq> 1 \<Longrightarrow> ring (um_mem (take_state s f)) (slot s i) []"
proof -
  note F = listedD[OF l]
  note B = used_ok_bounds[OF u] slot_bounds[OF u]
  define h where "h = slot s (slot_index f)"
  have h: "um_slots s + 32 \<le> h" "h + 16 \<le> lo" "h + 16 \<le> um_slots s + 1024" "h < 2 ^ 64"
    using F(8,9) B(6)[of "slot_index f"] F(1,2) B(3) by (simp_all add: h_def slot_def)
  have mem: "um_mem (take_state s f) = unlink_mem (um_mem s) h"
    by (simp add: take_state_def h_def)
  show env: "same_env s (take_state s f)" by (simp add: same_env_def take_state_def)
  show ag: "agree (um_mem s) (um_mem (take_state s f)) lo (um_brk s)"
    using h by (simp add: mem mem_simps)
  show s1: "agree (um_mem s) (um_mem (take_state s f)) (slot s 1) (slot s 1 + 16)"
    using h by (simp add: mem mem_simps slot_def)
  show ff: "agree (um_mem s) (um_mem (take_state s f)) (um_fast_full s) (um_fast_full s + 16)"
    using h B(4) by (auto simp add: mem mem_simps)
  have "agree (um_mem s) (um_mem (take_state s f)) lo (lo + extent us)"
    by (rule agree_sub[OF ag]) (use F(2) in simp_all)
  from used_ok_agree[OF u env this s1 ff] show "used_ok (take_state s f) lo us cur full" .
  fix i :: nat assume i: "i < 64" "i \<noteq> 1"
  show "ring (um_mem (take_state s f)) (slot s i) []"
  proof (cases "i = slot_index f")
    case True
    then show ?thesis using unlink_ring[OF h(4)] by (simp add: mem h_def)
  next
    case False
    then have "ring (um_mem s) (slot s i) []" using F(10)[OF i] by simp
    then show ?thesis
      using slot_sep[OF False, of s] by (elim ring_agree) (auto simp: mem h_def mem_simps)
  qed
qed

lemma take_open:
  assumes inv: "um_inv s lo us f cur full" and f: "f \<noteq> 0"
  shows "open_ok (take_state s f) lo us f"
proof -
  have u: "used_ok s lo us cur full" and fr: "free_ok s lo us f" using inv by (simp_all add: um_inv_def)
  note F = free_okD[OF fr] free_ok_chunkD[OF fr f]
  note T = take_keeps[OF u free_ok_listed[OF fr f]]
  have ld: "load32 (um_mem (take_state s f)) a = load32 (um_mem s) a" if "lo \<le> a" "a + 4 \<le> um_brk s" for a
    using T(3) that by (rule agree_load(1))
  show ?thesis
    using F T(6) ld by (simp add: open_ok_def Let_def)
       (simp add: take_state_def slot_def)
qed

lemma bitmap_clr_run [run_simps]:
  "i < 64 \<Longrightarrow> bitmap_clr i s = Inr ((), s\<lparr>um_bitmap := um_bitmap s AND NOT (push_bit i 1)\<rparr>)"
  by (simp add: bitmap_clr_def run_simps)

lemma bitmap_set_run [run_simps]:
  "i < 64 \<Longrightarrow> bitmap_set i s = Inr ((), s\<lparr>um_bitmap := um_bitmap s OR push_bit i 1\<rparr>)"
  by (simp add: bitmap_set_def run_simps)

lemma take_run:
  assumes u: "used_ok s lo us cur full" and l: "listed s lo us f"
  shows "list_extract (slot_index f) s = Inr (lo + extent us + 8, take_state s f)"
    "safe_remove (lo + extent us + 8) (slot_index f) s = Inr ((), take_state s f)"
    "try_safe_remove (lo + extent us + 8) (lo + extent us) s = Inr ((), take_state s f)"
    "list_empty (slot s (slot_index f)) s = Inr (False, s)"
    "ldp (slot s (slot_index f) + 8) s = Inr (lo + extent us + 8, s)"
    "ldp (lo + extent us + 8 + 8) s = Inr (slot s (slot_index f), s)"
    "pack_size (lo + extent us) s = Inr (f, s)"
proof -
  note F = listedD[OF l]
  note B = used_ok_bounds[OF u] slot_bounds[OF u F(9)]
  define h where "h = slot s (slot_index f)"
  define e where "e = lo + extent us"
  have h: "h + 16 \<le> lo" "h < 2 ^ 64" "h < e + 8" "um_slots s + 16 * slot_index f = h"
    using B F(1,2) by (simp_all add: h_def e_def slot_def)
  have r: "loadp (um_mem s) (h + 8) = e + 8" "loadp (um_mem s) (e + 8) = h"
    "loadp (um_mem s) (e + 16) = h" "loadp (um_mem s) h = e + 8"
    using F(10)[OF F(9), folded e_def h_def] F(8) by simp_all
  have brk: "e + f + 8 \<le> um_brk s" "lo \<le> e" using F(2) by (simp_all add: e_def)
  note F' = F(3,4,5,6,8,9)[folded e_def]
  have t: "take_state s f = s\<lparr>um_mem := unlink_mem (um_mem s) h, um_bitmap := 0\<rparr>"
    by (simp add: take_state_def h_def)
  have bm: "um_bitmap s AND NOT (push_bit (slot_index f) 1) = 0"
    using F(7) by simp
  show "list_extract (slot_index f) s = Inr (lo + extent us + 8, take_state s f)"
    unfolding e_def[symmetric]
    using r h brk F' bm
    by (simp add: list_extract_def list_pop_def list_empty_def node_link_def run_simps t unlink_mem_def
        mem_simps)
  show "safe_remove (lo + extent us + 8) (slot_index f) s = Inr ((), take_state s f)"
    unfolding e_def[symmetric]
    using r h brk F' bm
    by (simp add: safe_remove_def node_link_def run_simps t unlink_mem_def add.assoc)
  show "list_empty (slot s (slot_index f)) s = Inr (False, s)"
    "ldp (slot s (slot_index f) + 8) s = Inr (lo + extent us + 8, s)"
    "ldp (lo + extent us + 8 + 8) s = Inr (slot s (slot_index f), s)"
    unfolding e_def[symmetric] h_def[symmetric]
    using r h brk F' by (simp_all add: list_empty_def run_simps add.assoc)
  show "pack_size (lo + extent us) s = Inr (f, s)"
    unfolding e_def[symmetric] using F' brk by (intro pack_size_run) simp_all
  have "load32 (unlink_mem (um_mem s) h) (e + 4) = of_nat f OR 1"
    using F' h brk by (simp add: unlink_mem_def mem_simps)
  then show "try_safe_remove (lo + extent us + 8) (lo + extent us) s = Inr ((), take_state s f)"
    unfolding e_def[symmetric]
    using r h brk F' bm
    by (simp add: try_safe_remove_def node_link_def run_simps t unlink_mem_def add.assoc
        pack_size_run[where c = f])
qed

end
