(* ===== verification/Um_Cut.thy ===== *)
theory Um_Cut
  imports Um_Inv
begin

text \<open>
  Cutting the open chunk: \<^verbatim>\<open>pack_allocate\<close>, \<^verbatim>\<open>split_allocate\<close> and \<^verbatim>\<open>malloc_brk\<close>
  lead from the middle of an allocation back to the invariant.
\<close>

section \<open>A chunk joins the used ones\<close>

lemma page_set_snoc: "page_set lo (us @ [(c, False)]) = page_set lo us"
  by (auto simp: page_set_def starts_append)

lemma used_ok_snoc:
  assumes "used_ok s lo us cur full" "load32 (um_mem s) (lo + extent us) = prev_tag HEAD us"
    "load32 (um_mem s) (lo + extent us + 4) = of_nat c OR 3" "8 dvd c" "48 \<le> c" "c < 2 ^ 31"
  shows "used_ok s lo (us @ [(c, False)]) cur full"
  using assms by (auto simp: used_ok_def sizes_ok_def hdrs_append pages_ok_def page_set_snoc)

lemma open_okD:
  assumes "open_ok s lo us c"
  shows "um_base s = lo + extent us + c + 8" "um_brk s = lo + extent us + c + 8"
    "um_brk s \<le> um_limit s" "8 dvd c" "48 \<le> c" "c < 2 ^ 31"
    "load32 (um_mem s) (lo + extent us) = prev_tag HEAD us"
    "load32 (um_mem s) (lo + extent us + 4) AND - 8 = of_nat c"
    "load32 (um_mem s) (lo + extent us + c + 4) = THIS_INUSE \<or>
     load32 (um_mem s) (lo + extent us + c + 4) = BOTH_INUSE"
    "um_bitmap s = 0" "\<And>i. i < 64 \<Longrightarrow> i \<noteq> 1 \<Longrightarrow> ring (um_mem s) (slot s i) []"
  using assms by (simp_all add: open_ok_def Let_def)

text \<open>What an operation on the open chunk leaves alone: the used chunks and the page lists.\<close>

definition keeps :: "um \<Rightarrow> um \<Rightarrow> nat \<Rightarrow> nat \<Rightarrow> bool" where
  "keeps s s' lo e \<longleftrightarrow> same_env s s' \<and> agree (um_mem s) (um_mem s') lo e \<and>
     agree (um_mem s) (um_mem s') (slot s 1) (slot s 1 + 16) \<and>
     agree (um_mem s) (um_mem s') (um_fast_full s) (um_fast_full s + 16)"

lemma keeps_used:
  "used_ok s lo us cur full \<Longrightarrow> keeps s s' lo (lo + extent us) \<Longrightarrow> used_ok s' lo us cur full"
  by (auto simp: keeps_def intro: used_ok_agree)

lemma keeps_trans: "keeps s t lo e \<Longrightarrow> keeps t u lo e \<Longrightarrow> keeps s u lo e"
  by (auto simp: keeps_def same_env_def agree_def slot_def)

lemma keeps_high:
  assumes "used_ok s lo us cur full" "agree (um_mem s) m' 0 (lo + extent us)"
  shows "keeps s (s\<lparr>um_mem := m'\<rparr>) lo (lo + extent us)"
  using assms(2) used_ok_bounds[OF assms(1)] slot_bounds[OF assms(1), of 1]
  by (auto simp: keeps_def same_env_def agree_def)

lemma pack_allocate_open:
  assumes u: "used_ok s lo us cur full" and o: "open_ok s lo us c"
  obtains s' where "pack_allocate (lo + extent us) s = Inr (lo + extent us + 8, s')"
    "um_inv s' lo (us @ [(c, False)]) 0 cur full" "keeps s s' lo (lo + extent us)"
proof -
  define e where "e = lo + extent us"
  note O = open_okD[OF o, folded e_def]
  note B = used_ok_bounds[OF u]
  define m1 where "m1 = store32 (um_mem s) (e + 4) (of_nat c OR 3)"
  define m' where "m' = store32 (store32 m1 (e + c) (of_nat c)) (e + c + 4) 3"
  define s' where "s' = s\<lparr>um_mem := m'\<rparr>"
  have big: "e + c + 8 < 2 ^ 64" using O(2,3) B(3) by simp
  have run: "pack_allocate e s = Inr (e + 8, s')"
    using O(2,4,5,6,8,9) big
    by (auto simp: pack_allocate_def run_simps pack_size_run[where c = c] pack_next_run[where c = c]
        mem_simps s'_def m'_def m1_def)
  have ag: "agree (um_mem s) m' 0 e"
    using O(5) by (simp add: m'_def m1_def mem_simps)
  have k: "keeps s s' lo e"
    unfolding s'_def e_def using ag by (intro keeps_high[OF u]) (simp add: e_def)
  have ld: "load32 m' e = prev_tag HEAD us" "load32 m' (e + 4) = of_nat c OR 3"
    "load32 m' (e + c) = of_nat c" "load32 m' (e + c + 4) = 3"
    using O by (simp_all add: m'_def m1_def mem_simps)
  have "used_ok s' lo (us @ [(c, False)]) cur full"
    using keeps_used[OF u k[unfolded e_def]] O ld
    by (intro used_ok_snoc) (simp_all add: s'_def e_def)
  moreover have "ring m' (slot s i) []" if "i < 64" "i \<noteq> 1" for i
    using slot_bounds[OF u that(1)] ag
    by (intro ring_agree[OF O(11)[OF that]]) (auto simp: e_def intro: agree_sub)
  then have "free_ok s' lo (us @ [(c, False)]) 0"
    using O ld by (simp add: free_ok_def Let_def s'_def slot_def add.assoc flip: e_def)
       (simp add: e_def add.assoc)
  ultimately show thesis
    using run k by (intro that[of s']) (simp_all add: um_inv_def e_def)
qed

section \<open>Cutting a chunk in two\<close>

lemma free_chunk_run:
  assumes hd: "load32 (um_mem s) (p + 4) = of_nat r OR 1" "8 dvd r" "48 \<le> r" "r \<le> 65536"
    and tl: "load32 (um_mem s) (p + r + 4) = 2" and brk: "p + r + 8 \<le> um_brk s" "um_brk s \<le> 2 ^ 38"
    and ring: "ring (um_mem s) (slot s (slot_index r)) []" and lo: "um_slots s + 1024 \<le> p"
  shows "free_chunk p s = Inr ((), s\<lparr>um_mem := push_mem (um_mem s) (slot s (slot_index r)) (p + 8),
     um_bitmap := um_bitmap s OR push_bit (slot_index r) 1\<rparr>)"
proof -
  have i: "slot_index r < 64" using hd(4) by (rule slot_index_bounds)
  then have h: "slot s (slot_index r) + 16 \<le> p" using lo by (simp add: slot_def)
  have "pack_next p s = Inr (p + r, s)" "pack_size p s = Inr (r, s)"
    using hd brk by (auto intro!: pack_next_run pack_size_run)
  then show ?thesis
    using assms h i
    by (simp add: free_chunk_def run_simps IMPOSSIBLE_def slot_def)
qed

text \<open>A last chunk that has its header but is in no list yet.\<close>

definition detached :: "um \<Rightarrow> nat \<Rightarrow> chunks \<Rightarrow> nat \<Rightarrow> bool" where
  "detached s lo us r \<longleftrightarrow> (let e = lo + extent us; m = um_mem s in
     um_base s = e + r + 8 \<and> um_brk s = um_base s \<and> um_brk s \<le> um_limit s \<and>
     8 dvd r \<and> 48 \<le> r \<and> r \<le> 65536 \<and>
     load32 m e = prev_tag HEAD us \<and> load32 m (e + 4) = of_nat r OR PREV_INUSE \<and>
     load32 m (e + r) = of_nat r \<and> load32 m (e + r + 4) = THIS_INUSE \<and>
     um_bitmap s = 0 \<and> (\<forall>i < 64. i \<noteq> 1 \<longrightarrow> ring m (slot s i) []))"

lemma push_agree:
  assumes "loadp m (h + 8) = h" "b \<le> h \<or> h + 16 \<le> a" "b \<le> n \<or> n + 16 \<le> a"
  shows "agree m (push_mem m h n) a b"
  using assms by (intro agree_push) auto

lemma free_chunk_inv:
  assumes u: "used_ok s lo us cur full" and d: "detached s lo us r"
  obtains s' where "free_chunk (lo + extent us) s = Inr ((), s')"
    "um_inv s' lo us r cur full" "keeps s s' lo (lo + extent us)"
proof -
  define e where "e = lo + extent us"
  have D: "um_base s = e + r + 8" "um_brk s = e + r + 8" "um_brk s \<le> um_limit s" "8 dvd r" "48 \<le> r"
    "r \<le> 65536" "load32 (um_mem s) e = prev_tag HEAD us" "load32 (um_mem s) (e + 4) = of_nat r OR 1"
    "load32 (um_mem s) (e + r) = of_nat r" "load32 (um_mem s) (e + r + 4) = 2" "um_bitmap s = 0"
    and rings: "\<And>i. i < 64 \<Longrightarrow> i \<noteq> 1 \<Longrightarrow> ring (um_mem s) (slot s i) []"
    using d by (simp_all add: detached_def Let_def e_def)
  note B = used_ok_bounds[OF u]
  define h where "h = slot s (slot_index r)"
  define m' where "m' = push_mem (um_mem s) h (e + 8)"
  define s' where "s' = s\<lparr>um_mem := m', um_bitmap := push_bit (slot_index r) 1\<rparr>"
  have i: "slot_index r < 64" "slot_index r \<noteq> 1" "2 \<le> slot_index r"
    using slot_index_bounds[of r] D by auto
  have h: "um_slots s + 32 \<le> h" "h + 16 \<le> lo" "h + 16 \<le> um_slots s + 1024" "lo \<le> e" "e < 2 ^ 38"
    using slot_bounds[OF u i(1)] i D B by (simp_all add: h_def e_def slot_def)
  have x: "loadp (um_mem s) (h + 8) = h" using rings[OF i(1,2)] by (simp add: h_def)
  have "free_chunk e s = Inr ((), s\<lparr>um_mem := push_mem (um_mem s) (slot s (slot_index r)) (e + 8),
     um_bitmap := um_bitmap s OR push_bit (slot_index r) 1\<rparr>)"
    using D B rings[OF i(1,2)] h by (intro free_chunk_run) simp_all
  then have run: "free_chunk e s = Inr ((), s')"
    by (simp add: s'_def m'_def h_def D)
  have agt: "agree (um_mem s) m' a b" if "b \<le> e + 8 \<or> e + 24 \<le> a" "b \<le> h \<or> h + 16 \<le> a" for a b
    unfolding m'_def using that by (intro push_agree[OF x]) auto
  have k: "keeps s s' lo e"
    using h B by (auto simp: keeps_def same_env_def s'_def slot_def intro!: agt)
  have ld: "load32 m' a = load32 (um_mem s) a" if "lo \<le> a" "a + 4 \<le> e + 8 \<or> e + 24 \<le> a" for a
    using that h by (intro agree_load(1)[OF agt[of "a + 4" a]]) auto
  have rings': "ring m' (slot s j) (if j = slot_index r then [e + 8] else [])"
    if j: "j < 64" "j \<noteq> 1" for j
  proof (cases "j = slot_index r")
    case True
    have "ring m' h [e + 8]"
      unfolding m'_def using rings[OF i(1,2)] h by (intro ring_push) (simp_all add: h_def)
    then show ?thesis using True by (simp add: h_def)
  next
    case False
    have "ring m' (slot s j) []"
      using slot_sep[OF False, of s] slot_bounds[OF u j(1)] h
      by (intro ring_agree[OF rings[OF j]]) (auto simp: h_def[symmetric] intro!: agt)
    with False show ?thesis by simp
  qed
  have "free_ok s' lo us r"
    using D rings' ld h by (simp add: free_ok_def Let_def s'_def slot_def flip: e_def)
  then show thesis
    using run k keeps_used[OF u] by (intro that[of s']) (simp_all add: um_inv_def e_def)
qed

lemma split_allocate_open:
  assumes u: "used_ok s lo us cur full" and o: "open_ok s lo us c"
    and need: "8 dvd need" "48 \<le> need" "need + 48 \<le> c" "c \<le> need + 65536"
  obtains s' where "split_allocate (lo + extent us) need s = Inr (lo + extent us + 8, s')"
    "um_inv s' lo (us @ [(need, False)]) (c - need) cur full" "keeps s s' lo (lo + extent us)"
proof -
  define e where "e = lo + extent us"
  note O = open_okD[OF o, folded e_def]
  define r where "r = c - need"
  have r: "c = need + r" "8 dvd r" "48 \<le> r" "r \<le> 65536"
    using need O(4) by (simp_all add: r_def dvd_diff_nat)
  define m0 where "m0 = store32 (store32 (um_mem s) (e + c) (of_nat r)) (e + c + 4) 2"
  define m1 where "m1 = store32 m0 (e + 4) (of_nat need OR 3)"
  define m2 where "m2 = store32 (store32 m1 (e + need) (of_nat need)) (e + need + 4) (of_nat r OR 1)"
  define s2 where "s2 = s\<lparr>um_mem := m2\<rparr>"
  have big: "e + c + 8 < 2 ^ 64" "lo \<le> e" using O(2,3) used_ok_bounds[OF u] by (simp_all add: e_def)
  have ag: "agree (um_mem s) m2 0 e"
    using r by (simp add: m2_def m1_def m0_def mem_simps)
  have k2: "keeps s s2 lo e"
    unfolding s2_def e_def using ag by (intro keeps_high[OF u]) (simp add: e_def)
  have ld: "load32 m2 e = prev_tag HEAD us" "load32 m2 (e + 4) = of_nat need OR 3"
    "load32 m2 (e + need) = of_nat need" "load32 m2 (e + need + 4) = of_nat r OR 1"
    "load32 m2 (e + c) = of_nat r" "load32 m2 (e + c + 4) = 2"
    using O need r by (simp_all add: m2_def m1_def m0_def mem_simps)
  have u2: "used_ok s2 lo (us @ [(need, False)]) cur full"
    using keeps_used[OF u k2[unfolded e_def]] ld need O r
    by (intro used_ok_snoc) (simp_all add: s2_def e_def)
  have "ring m2 (slot s i) []" if "i < 64" "i \<noteq> 1" for i
    using slot_bounds[OF u that(1)] ag
    by (intro ring_agree[OF O(11)[OF that]]) (auto simp: e_def intro: agree_sub)
  then have d2: "detached s2 lo (us @ [(need, False)]) r"
    using O ld r by (simp add: detached_def Let_def s2_def slot_def add.assoc flip: e_def)
       (simp add: e_def add.assoc)
  obtain s' where fc: "free_chunk (e + need) s2 = Inr ((), s')"
    and inv: "um_inv s' lo (us @ [(need, False)]) r cur full" and k: "keeps s2 s' lo (e + need)"
    using free_chunk_inv[OF u2 d2] by (auto simp: e_def add.assoc)
  have run: "split_allocate e need s = Inr (e + 8, s')"
    using O(2,4,5,6,8,9) big r need fc[unfolded s2_def m2_def m1_def m0_def]
    by (auto simp: split_allocate_def run_simps Let_def pack_size_run[where c = c]
        pack_next_run[where c = c] pack_next_run[where c = need] mem_simps)
  have "keeps s2 s' lo e" using k by (auto simp: keeps_def intro: agree_sub)
  then have "keeps s s' lo e" by (rule keeps_trans[OF k2])
  then show thesis
    using run inv by (intro that[of s']) (simp_all add: e_def r_def)
qed

end
