(* ===== verification/Um_Malloc.thy ===== *)
theory Um_Malloc
  imports Um_Cut
begin

text \<open>
  The large allocations as a whole. An abstract allocator works on the list of used
  chunks and the size of the free one; every path through \<^verbatim>\<open>malloc_tiny\<close>,
  \<^verbatim>\<open>malloc_middle\<close> and \<^verbatim>\<open>malloc_huge\<close> is shown to do on memory what the abstract
  allocator does on the list.
\<close>

section \<open>The abstract allocator\<close>

definition carve :: "chunks \<Rightarrow> nat \<Rightarrow> nat \<Rightarrow> chunks \<times> nat" where
  "carve us c need = (if need \<le> c - need \<or> 512 \<le> c - need
     then (us @ [(need, False)], c - need) else (us @ [(c, False)], 0))"

definition pgup :: "nat \<Rightarrow> nat" where
  "pgup n = (n + 4095) div 4096 * 4096"

definition abs_next :: "chunks \<times> nat \<Rightarrow> nat \<Rightarrow> nat \<Rightarrow> chunks \<times> nat" where
  "abs_next = (\<lambda>(us, f) index need.
     if f \<noteq> 0 \<and> index < slot_index f then carve us f need else carve us (f + pgup need) need)"

definition abs_alloc :: "chunks \<times> nat \<Rightarrow> nat \<Rightarrow> nat \<Rightarrow> nat \<Rightarrow> chunks \<times> nat" where
  "abs_alloc = (\<lambda>(us, f) index fit need.
     if f \<noteq> 0 \<and> slot_index f = index \<and> fit \<le> f then (us @ [(f, False)], 0)
     else abs_next (us, f) index need)"

lemma pgup_bounds: "n \<le> pgup n" "pgup n < n + 4096" "4096 dvd pgup n"
proof -
  have eq: "pgup n = n + 4095 - (n + 4095) mod 4096"
    by (simp add: pgup_def minus_mod_eq_div_mult)
  have "(n + 4095) mod 4096 \<le> 4095" using mod_less_divisor[of 4096 "n + 4095"] by linarith
  then show "n \<le> pgup n" "pgup n < n + 4096" unfolding eq by linarith+
  show "4096 dvd pgup n" by (simp add: pgup_def)
qed

lemma pgup_le: "n \<le> 4096 * k \<Longrightarrow> pgup n \<le> 4096 * k"
proof -
  assume "n \<le> 4096 * k"
  then have "(n + 4095) div 4096 < Suc k"
    by (simp add: div_less_iff_less_mult)
  then show ?thesis by (simp add: pgup_def)
qed

section \<open>Cutting\<close>

lemma try_split_open:
  assumes u: "used_ok s lo us cur full" and o: "open_ok s lo us c"
    and need: "8 dvd need" "48 \<le> need" "need \<le> c" "c \<le> need + 65536"
  obtains s' where "try_split_allocate (lo + extent us) need s = Inr (lo + extent us + 8, s')"
    "um_inv s' lo (fst (carve us c need)) (snd (carve us c need)) cur full"
    "keeps s s' lo (lo + extent us)"
proof -
  note O = open_okD[OF o]
  have sz: "pack_size (lo + extent us) s = Inr (c, s)"
    using O by (intro pack_size_run) simp_all
  have rest: "sub64 c need = c - need" using need O(6) by simp
  show thesis
  proof (cases "need \<le> c - need \<or> 512 \<le> c - need")
    case True
    then have "need + 48 \<le> c" using need by auto
    then obtain s' where "split_allocate (lo + extent us) need s = Inr (lo + extent us + 8, s')"
      "um_inv s' lo (us @ [(need, False)]) (c - need) cur full" "keeps s s' lo (lo + extent us)"
      using split_allocate_open[OF u o need(1,2) _ need(4)] by blast
    then show thesis
      using True by (intro that[of s']) (simp_all add: try_split_allocate_def carve_def run_simps sz rest)
  next
    case False
    obtain s' where "pack_allocate (lo + extent us) s = Inr (lo + extent us + 8, s')"
      "um_inv s' lo (us @ [(c, False)]) 0 cur full" "keeps s s' lo (lo + extent us)"
      using pack_allocate_open[OF u o] by blast
    then show thesis
      using False by (intro that[of s']) (simp_all add: try_split_allocate_def carve_def run_simps sz rest)
  qed
qed

section \<open>Growing the heap\<close>

lemma or_one_add: "8 dvd n \<Longrightarrow> ((of_nat n :: 32 word) OR 1) + of_nat k = of_nat (n + k) + 1"
proof -
  assume "8 dvd n"
  then have "even n" by (meson dvd_trans even_numeral)
  then have "even (of_nat n :: 32 word)" by simp
  then show ?thesis by (simp add: or_one_eq)
qed

lemma or_one_add_dvd: "8 dvd n \<Longrightarrow> 8 dvd k \<Longrightarrow>
   ((of_nat n :: 32 word) OR 1) + of_nat k = of_nat (n + k) OR 1"
  using or_one_add[of n k] or_one_add[of "n + k" 0] by simp

lemma prev_add_size_run [run_simps]:
  "p + 8 \<le> um_brk s \<Longrightarrow> v AND 7 = 0 \<Longrightarrow>
   prev_add_size p v s = Inr ((), s\<lparr>um_mem := store32 (um_mem s) (p + 4) (load32 (um_mem s) (p + 4) + v)\<rparr>)"
  by (simp add: prev_add_size_def IMPOSSIBLE_def run_simps)

lemma pack_set_size_run [run_simps]:
  "p + 8 \<le> um_brk s \<Longrightarrow> v AND 7 = 0 \<Longrightarrow>
   pack_set_size p v s = Inr ((), s\<lparr>um_mem := store32 (um_mem s) (p + 4) ((load32 (um_mem s) (p + 4) AND 7) OR v)\<rparr>)"
  by (simp add: pack_set_size_def IMPOSSIBLE_def run_simps)

lemma sbrk_run [run_simps]:
  "um_brk s + n \<le> um_limit s \<Longrightarrow> sbrk n s = Inr (um_brk s, s\<lparr>um_brk := um_brk s + n\<rparr>)"
  by (simp add: sbrk_def)

text \<open>The heap after the break has moved by \<open>p\<close> and before the last free chunk is merged.\<close>

definition grown :: "um \<Rightarrow> nat \<Rightarrow> nat \<Rightarrow> um" where
  "grown s t p = s\<lparr>um_base := um_base s + p, um_brk := um_brk s + p, um_mem :=
     store32 (store32 (um_mem s) (t + 4) ((load32 (um_mem s) (t + 4) AND 7) OR of_nat p)) (t + p + 4) 2\<rparr>"

lemma merge_nothing:
  assumes u: "used_ok s lo us cur full" and fr: "free_ok s lo us 0" and p: "8 dvd p" "48 \<le> p" "p < 2 ^ 31"
    and room: "um_brk s + p \<le> um_limit s"
  defines "t \<equiv> lo + extent us"
  shows "try_merge_prev t (grown s t p) = Inr (t, grown s t p)" "open_ok (grown s t p) lo us p"
    "keeps s (grown s t p) lo t"
proof -
  note F = free_okD[OF fr, folded t_def]
  have tag: "load32 (um_mem s) (t + 4) = 3" using fr by (simp add: free_ok_def Let_def t_def)
  have w: "(3 :: 32 word) OR of_nat p = of_nat p OR 3" by (simp add: or.commute)
  have ag: "agree (um_mem s) (um_mem (grown s t p)) 0 t"
    using p by (simp add: grown_def mem_simps)
  show k: "keeps s (grown s t p) lo t"
    using ag used_ok_bounds[OF u] slot_bounds[OF u, of 1]
    by (auto simp: keeps_def same_env_def grown_def t_def intro: agree_sub)
  show "try_merge_prev t (grown s t p) = Inr (t, grown s t p)"
    using p F by (simp add: try_merge_prev_def run_simps grown_def mem_simps tag w)
  have rg: "ring (um_mem s) (slot s i) []" if "i < 64" "i \<noteq> 1" for i
    using F(5)[OF that] by simp
  have "ring (um_mem (grown s t p)) (slot s i) []" if "i < 64" "i \<noteq> 1" for i
    using slot_bounds[OF u that(1)] ag
    by (intro ring_agree[OF rg[OF that]]) (auto simp: t_def intro: agree_sub)
  then show "open_ok (grown s t p) lo us p"
    using F p room by (simp add: open_ok_def Let_def flip: t_def)
      (simp add: grown_def slot_def mem_simps tag w)
qed

lemma grown_listed:
  assumes u: "used_ok s lo us cur full" and fr: "free_ok s lo us f" and f: "f \<noteq> 0"
    and p: "8 dvd p" "48 \<le> p" "p \<le> 65536" and room: "um_brk s + p \<le> um_limit s"
  defines "e \<equiv> lo + extent us" and "g \<equiv> grown s (lo + extent us + f) p"
  shows "listed g lo us f" "keeps s g lo e" "um_brk g = e + f + p + 8" "um_base g = e + f + p + 8"
    "load32 (um_mem g) (e + f + 4) = of_nat p OR 2" "load32 (um_mem g) (e + f + p + 4) = 2"
    "load32 (um_mem g) (e + f) = of_nat f" "load32 (um_mem g) e = prev_tag HEAD us"
proof -
  note F = free_okD[OF fr, folded e_def] free_ok_chunkD[OF fr f, folded e_def]
  have w: "(2 :: 32 word) OR of_nat p = of_nat p OR 2" by (simp add: or.commute)
  have g: "g = grown s (e + f) p" by (simp add: g_def e_def)
  have ag: "agree (um_mem s) (um_mem g) 0 (e + f + 4)"
    using p by (simp add: g grown_def mem_simps)
  show "keeps s g lo e"
    using ag used_ok_bounds[OF u] slot_bounds[OF u, of 1]
    by (auto simp: keeps_def same_env_def g grown_def e_def intro: agree_sub)
  show gld: "load32 (um_mem g) (e + f + 4) = of_nat p OR 2" "load32 (um_mem g) (e + f + p + 4) = 2"
    "load32 (um_mem g) (e + f) = of_nat f" "load32 (um_mem g) e = prev_tag HEAD us"
    and gb: "um_brk g = e + f + p + 8" "um_base g = e + f + p + 8"
    using F p by (simp_all add: g grown_def mem_simps w)
  have gs: "um_bitmap g = um_bitmap s" "um_limit g = um_limit s" "\<And>i. slot g i = slot s i"
    by (simp_all add: g grown_def slot_def)
  have ld: "load32 (um_mem g) (e + 4) = of_nat f OR 1"
    using F p by (simp add: g grown_def mem_simps)
  have rg: "ring (um_mem g) (slot g i) (if i = slot_index f then [e + 8] else [])" if "i < 64" "i \<noteq> 1" for i
    using f slot_bounds[OF u that(1)] F(8) e_def unfolding gs
    by (intro ring_agree[OF F(5)[OF that, simplified f, simplified]]) (auto intro!: agree_sub[OF ag])
  show "listed g lo us f"
    unfolding listed_def Let_def e_def[symmetric]
    using F gb ld p room f gs by (intro conjI allI impI rg) (simp_all split del: if_split)
qed

lemma merge_free:
  assumes u: "used_ok s lo us cur full" and fr: "free_ok s lo us f" and f: "f \<noteq> 0"
    and p: "8 dvd p" "48 \<le> p" "p \<le> 65536" and room: "um_brk s + p \<le> um_limit s"
  defines "e \<equiv> lo + extent us"
  obtains s' where "try_merge_prev (e + f) (grown s (e + f) p) = Inr (e, s')"
    "used_ok s' lo us cur full" "open_ok s' lo us (f + p)" "keeps s s' lo e"
proof -
  define g where "g = grown s (e + f) p"
  note G = grown_listed[OF u fr f p room, folded e_def, folded g_def]
  have ug: "used_ok g lo us cur full" by (rule keeps_used[OF u G(2)[unfolded e_def]])
  note L = listedD[OF G(1), folded e_def]
  note T = take_keeps[OF ug G(1)] take_run[OF ug G(1), folded e_def]
  define k where "k = take_state g f"
  define c where "c = f + p"
  define m' where "m' = store32 (store32 (um_mem k) (e + 4) (of_nat c OR 1)) (e + c) (of_nat c)"
  define s' where "s' = k\<lparr>um_mem := m'\<rparr>"
  have kld: "load32 (um_mem k) a = load32 (um_mem g) a" if "lo \<le> a" "a + 4 \<le> um_brk g" for a
    unfolding k_def using T(3) that by (rule agree_load(1))
  have kb: "um_brk k = um_brk g" "um_base k = um_base g" "um_bitmap k = 0" "um_limit k = um_limit g"
    "\<And>i. slot s' i = slot g i"
    by (simp_all add: k_def take_state_def s'_def slot_def)
  have big: "e + f + p + 8 < 2 ^ 64" "lo \<le> e" using G(3) L(1) used_ok_bounds[OF ug] by (simp_all add: e_def)
  have d: "8 dvd c" "c < 2 ^ 31" "e + f + p = e + c" "48 \<le> c" using L p by (simp_all add: c_def)
  have oc: "((of_nat f :: 32 word) OR 1) + of_nat p = of_nat c OR 1"
    unfolding c_def using L(3) p(1) by (rule or_one_add_dvd)
  have w: "((of_nat p :: 32 word) OR 2) AND 7 = 2" "((of_nat p :: 32 word) OR 2) AND - 8 = of_nat p"
    using flags_split[OF p(1), of "2 :: 32 word"] by simp_all
  have run: "try_merge_prev (e + f) g = Inr (e, s')"
    using G big L p kld[of "e + 4"] kb d oc
    by (simp add: try_merge_prev_def run_simps w pack_size_run[where c = p] pack_size_run[where c = c]
        pack_next_run[where c = c] pack_prev_def T k_def[symmetric] mem_simps s'_def m'_def)
  have ag': "agree (um_mem k) m' 0 e" using L(4) p by (simp add: m'_def c_def mem_simps)
  have "keeps g k lo e"
    using T(2-5) G(3) by (auto simp: keeps_def k_def intro: agree_sub)
  moreover have "keeps k s' lo e"
    unfolding s'_def e_def using T(1)[folded k_def] ag' by (intro keeps_high) (simp_all add: e_def)
  ultimately have ks: "keeps g s' lo e" by (rule keeps_trans)
  have ks': "keeps s s' lo e" by (rule keeps_trans[OF G(2) ks])
  have us': "used_ok s' lo us cur full" by (rule keeps_used[OF ug ks[unfolded e_def]])
  have "ring m' (slot g i) []" if "i < 64" "i \<noteq> 1" for i
    using slot_bounds[OF ug that(1)] ag' big
    by (intro ring_agree[OF T(6)[OF that, folded k_def]]) (auto intro!: agree_sub[OF ag'])
  then have "open_ok s' lo us c"
    using G d kb kld[of e] kld[of "e + c + 4"] big L(1)
    by (simp add: open_ok_def Let_def flip: e_def) (simp add: s'_def m'_def mem_simps)
  with run us' ks' show thesis by (intro that[of s']) (simp_all add: g_def c_def)
qed

section \<open>Allocating at the break\<close>

lemma malloc_brk_inv:
  assumes inv: "um_inv s lo us f cur full"
    and need: "8 dvd need" "48 \<le> need" "need \<le> 61440" "f < need" "f = 0 \<or> 48 \<le> f"
    and room: "um_brk s + pgup need \<le> um_limit s"
  obtains s' where "malloc_brk need s = Inr (lo + extent us + 8, s')"
    "um_inv s' lo (fst (carve us (f + pgup need) need)) (snd (carve us (f + pgup need) need)) cur full"
    "keeps s s' lo (lo + extent us)"
proof -
  have u: "used_ok s lo us cur full" and fr: "free_ok s lo us f" using inv by (simp_all add: um_inv_def)
  define e where "e = lo + extent us"
  define p where "p = pgup need"
  note F = free_okD[OF fr, folded e_def]
  note B = used_ok_bounds[OF u]
  have p: "8 dvd p" "48 \<le> p" "p \<le> 65536" "need \<le> p" "p < need + 4096"
    using pgup_bounds[of need] pgup_le[of need 15] need
    by (auto simp: p_def intro: dvd_trans[of 8 4096])
  obtain s1 where m: "try_merge_prev (e + f) (grown s (e + f) p) = Inr (e, s1)"
    "used_ok s1 lo us cur full" "open_ok s1 lo us (f + p)" "keeps s s1 lo e"
  proof (cases "f = 0")
    case True
    have "um_brk s + p \<le> um_limit s" using room by (simp add: p_def)
    from merge_nothing[OF u fr[unfolded True] p(1,2) _ this, folded e_def] p(3) True that
    show thesis using keeps_used[OF u] by (auto simp: e_def)
  next
    case False
    from merge_free[OF u fr False p(1-3) room[folded p_def], folded e_def] that show thesis by blast
  qed
  obtain s' where t: "try_split_allocate e need s1 = Inr (e + 8, s')"
    "um_inv s' lo (fst (carve us (f + p) need)) (snd (carve us (f + p) need)) cur full"
    "keeps s1 s' lo e"
    using try_split_open[OF m(2,3) need(1,2)] p need by (auto simp: e_def)
  have "um_brk s + p \<le> um_limit s" using room by (simp add: p_def)
  moreover have "(need + 4095) div 4096 * 4096 = p" by (simp add: p_def pgup_def)
  moreover have "load32 (um_mem s) (e + f + 4) = 3 \<or> load32 (um_mem s) (e + f + 4) = 2"
    using fr by (auto simp: free_ok_def Let_def e_def split: if_splits)
  then have "((load32 (um_mem s) (e + f + 4) AND 7) OR of_nat p) AND - 8 = of_nat p"
    using flags_split[OF p(1), of "3 :: 32 word"] flags_split[OF p(1), of "2 :: 32 word"]
    by (auto simp: or.commute)
  ultimately have "malloc_brk need s = Inr (e + 8, s')"
    using F(1-3) B(3) p need m(1) t(1)
    by (simp add: malloc_brk_def run_simps Let_def pack_next_run[where c = p] grown_def mem_simps)
  then show thesis
    using t(2) keeps_trans[OF m(4) t(3)] by (intro that[of s']) (simp_all add: e_def p_def)
qed

end
