(* ===== verification/Um_Slots.thy ===== *)
theory Um_Slots
  imports Um_Malloc
begin

text \<open>
  Allocating through the slots: which free chunk \<^verbatim>\<open>tiny_allocate\<close>,
  \<^verbatim>\<open>iterative_allocate\<close> and \<^verbatim>\<open>next_allocate\<close> find, and that the three request
  classes above 32 bytes run as the abstract allocator says.
\<close>

section \<open>Searching the larger slots\<close>

lemma next_free_bitmap:
  assumes "index < 63" "um_bitmap s = (if f = 0 then 0 else push_bit (slot_index f) 1)" "slot_index f < 64"
  shows "next_free index s =
    Inr (if f \<noteq> 0 \<and> index < slot_index f then push_bit (slot_index f) 1 else 0, s)"
proof -
  define x where "x = um_bitmap s AND push_bit (index + 1) (- 1)"
  have bits: "bit x n \<longleftrightarrow> f \<noteq> 0 \<and> n = slot_index f \<and> index < n" for n
    using assms(2,3) by (auto simp: x_def bit_simps)
  have "x AND (- x) = (if f \<noteq> 0 \<and> index < slot_index f then push_bit (slot_index f) 1 else 0)"
  proof (cases "f \<noteq> 0 \<and> index < slot_index f")
    case True
    then have "x AND (- x) = push_bit (slot_index f) 1"
      by (intro lowbit) (auto simp: bits)
    with True show ?thesis by simp
  next
    case False
    then have "x = 0" by (intro bit_word_eqI) (auto simp: bits)
    with False show ?thesis by auto
  qed
  then show ?thesis
    using next_free_run[OF assms(1)] by (simp add: x_def Let_def)
qed

lemma slot_index_0: "slot_index 0 = 0"
  by (simp add: slot_index_def)

lemma um_inv_free:
  assumes "um_inv s lo us f cur full"
  shows "f = 0 \<or> 48 \<le> f" "f \<le> 65536" "slot_index f < 64" "f \<noteq> 0 \<Longrightarrow> listed s lo us f"
    "used_ok s lo us cur full" "free_ok s lo us f" "um_brk s = lo + extent us + f + 8"
    "lo + extent us + f + 8 < 2 ^ 64"
proof -
  show u: "used_ok s lo us cur full" and f: "free_ok s lo us f" using assms by (simp_all add: um_inv_def)
  show "f \<noteq> 0 \<Longrightarrow> listed s lo us f" using f by (rule free_ok_listed)
  show "um_brk s = lo + extent us + f + 8" using free_okD(2)[OF f] .
  then show "lo + extent us + f + 8 < 2 ^ 64" using free_okD(3)[OF f] used_ok_bounds(3)[OF u] by simp
  show le: "f = 0 \<or> 48 \<le> f" "f \<le> 65536" using free_ok_chunkD(2,3)[OF f] by auto
  show "slot_index f < 64" using le(2) by (rule slot_index_bounds)
qed

lemma take_whole:
  assumes inv: "um_inv s lo us f cur full" and f: "f \<noteq> 0"
  obtains s' where "pack_allocate (lo + extent us) (take_state s f) = Inr (lo + extent us + 8, s')"
    "um_inv s' lo (us @ [(f, False)]) 0 cur full" "keeps s s' lo (lo + extent us)"
proof -
  note I = um_inv_free[OF inv]
  note T = take_keeps[OF I(5) I(4)[OF f]]
  obtain s' where "pack_allocate (lo + extent us) (take_state s f) = Inr (lo + extent us + 8, s')"
    "um_inv s' lo (us @ [(f, False)]) 0 cur full" "keeps (take_state s f) s' lo (lo + extent us)"
    using pack_allocate_open[OF T(1) take_open[OF inv f]] by blast
  moreover have "keeps s (take_state s f) lo (lo + extent us)"
    using T(2-5) I(7) by (auto simp: keeps_def intro: agree_sub)
  ultimately show thesis using that keeps_trans by blast
qed

lemma next_allocate_inv:
  assumes inv: "um_inv s lo us f cur full" and index: "index < 63"
    and need: "8 dvd need" "48 \<le> need" "need \<le> 61440"
    and big: "f \<noteq> 0 \<and> index < slot_index f \<Longrightarrow> need \<le> f"
    and small: "\<not> (f \<noteq> 0 \<and> index < slot_index f) \<Longrightarrow> f < need"
    and room: "\<not> (f \<noteq> 0 \<and> index < slot_index f) \<Longrightarrow> um_brk s + pgup need \<le> um_limit s"
  obtains s' where "next_allocate index need s = Inr (lo + extent us + 8, s')"
    "um_inv s' lo (fst (abs_next (us, f) index need)) (snd (abs_next (us, f) index need)) cur full"
    "keeps s s' lo (lo + extent us)"
proof -
  note I = um_inv_free[OF inv]
  note lb = next_free_bitmap[OF index free_okD(6)[OF I(6)] I(3)]
  show thesis
  proof (cases "f \<noteq> 0 \<and> index < slot_index f")
    case True
    then have f: "f \<noteq> 0" by simp
    note T = take_keeps[OF I(5) I(4)[OF f]] take_run[OF I(5) I(4)[OF f]]
    obtain s' where s': "try_split_allocate (lo + extent us) need (take_state s f) = Inr (lo + extent us + 8, s')"
      "um_inv s' lo (fst (carve us f need)) (snd (carve us f need)) cur full"
      "keeps (take_state s f) s' lo (lo + extent us)"
      using try_split_open[OF T(1) take_open[OF inv f] need(1,2) big[OF True]] I(2) by auto
    have "keeps s (take_state s f) lo (lo + extent us)"
      using T(2-5) I(7) by (auto simp: keeps_def intro: agree_sub)
    then have "keeps s s' lo (lo + extent us)" using s'(3) by (rule keeps_trans)
    moreover have "push_bit (slot_index f) (1 :: 64 word) \<noteq> 0"
      using I(3) by simp
    then have "next_allocate index need s = Inr (lo + extent us + 8, s')"
      using True lb s'(1) T(7) I(3,8) by (simp add: next_allocate_def run_simps log2_ceil64_exp[simplified])
    ultimately show thesis using s'(2) True by (intro that[of s']) (simp_all add: abs_next_def)
  next
    case False
    obtain s' where s': "malloc_brk need s = Inr (lo + extent us + 8, s')"
      "um_inv s' lo (fst (carve us (f + pgup need) need)) (snd (carve us (f + pgup need) need)) cur full"
      "keeps s s' lo (lo + extent us)"
      using malloc_brk_inv[OF inv need small[OF False] I(1) room[OF False]] by blast
    have "next_free index s = Inr (0, s)" using lb False by auto
    then have "next_allocate index need s = Inr (lo + extent us + 8, s')"
      using s'(1) by (simp add: next_allocate_def run_simps)
    then show thesis
      using s'(2,3) False by (intro that[of s']) (auto simp: abs_next_def)
  qed
qed

text \<open>When the kernel refuses to move the break, \<^verbatim>\<open>base\<close> has been moved beyond it.\<close>

lemma malloc_brk_no_room:
  assumes inv: "um_inv s lo us f cur full" and need: "48 \<le> need" "need \<le> 61440"
    and no: "um_limit s < um_brk s + pgup need"
  obtains s' where "malloc_brk need s = Inr (0, s')" "um_brk s' = um_brk s" "um_base s' = um_brk s + pgup need"
proof -
  note I = um_inv_free[OF inv]
  note F = free_okD[OF I(6)]
  note B = used_ok_bounds[OF I(5)]
  define p where "p = pgup need"
  have p: "4096 \<le> p" "p \<le> 65536" "8 dvd p" using pgup_bounds[of need] pgup_le[of need 15] need dvd_trans[of 8 4096 p]
    dvd_imp_le[OF pgup_bounds(3)[of need]] by (auto simp: p_def)
  define b where "b = lo + extent us + f"
  have b: "um_base s = b + 8" "um_brk s = b + 8" "b + 8 \<le> um_limit s" "um_limit s \<le> 2 ^ 38"
    using F(1-3) B(3) by (simp_all add: b_def)
  have z: "(need + 4095) div 4096 * 4096 = p" by (simp add: p_def pgup_def)
  have w: "w64 (need + 4095) = need + 4095" "w64 p = p" using need p by simp_all
  obtain t where t: "pack_set_size b (of_nat p) s = Inr ((), t)" "um_brk t = b + 8" "um_base t = b + 8" "um_limit t = um_limit s"
    using b p(3) by (simp add: pack_set_size_def IMPOSSIBLE_def run_simps of_nat_and_7)
  have sb: "sbrk p (t\<lparr>um_base := b + 8 + p\<rparr>) = Inr (2 ^ 64 - 1, t\<lparr>um_base := b + 8 + p\<rparr>)"
    using no t b by (simp add: sbrk_def p_def)
  have "malloc_brk need s = Inr (0, t\<lparr>um_base := b + 8 + p\<rparr>)"
    using b p t sb by (simp add: malloc_brk_def Let_def run_simps z w)
  then show thesis using b t by (intro that[of "t\<lparr>um_base := b + 8 + p\<rparr>"]) (simp_all add: p_def)
qed

lemma next_allocate_refused:
  assumes inv: "um_inv s lo us f cur full" and index: "index < 63" and need: "48 \<le> need" "need \<le> 61440"
    and grow: "\<not> (f \<noteq> 0 \<and> index < slot_index f)" and no: "um_limit s < um_brk s + pgup need"
  shows "\<exists>s'. next_allocate index need s = Inr (0, s') \<and> um_brk s' < um_base s'"
proof -
  note I = um_inv_free[OF inv]
  obtain s' where s': "malloc_brk need s = Inr (0, s')" "um_brk s' = um_brk s" "um_base s' = um_brk s + pgup need"
    by (rule malloc_brk_no_room[OF inv need no])
  have "next_free index s = Inr (0, s)" using next_free_bitmap[OF index free_okD(6)[OF I(6)] I(3)] grow by auto
  then show ?thesis using s' need pgup_bounds(1)[of need] by (simp add: next_allocate_def run_simps)
qed

section \<open>The slot of the request\<close>

lemma slot_empty_run:
  assumes inv: "um_inv s lo us f cur full" and i: "i < 64" "i \<noteq> 1" "f = 0 \<or> slot_index f \<noteq> i"
  shows "list_empty (slot s i) s = Inr (True, s)" "ldp (slot s i + 8) s = Inr (slot s i, s)"
proof -
  note I = um_inv_free[OF inv]
  have "ring (um_mem s) (slot s i) []" using free_okD(5)[OF I(6) i(1,2)] i(3) by auto
  then show "list_empty (slot s i) s = Inr (True, s)" "ldp (slot s i + 8) s = Inr (slot s i, s)"
    using slot_bounds[OF I(5) i(1)] I(7) by (simp_all add: list_empty_def run_simps)
qed

lemma tiny_allocate_inv:
  assumes inv: "um_inv s lo us f cur full" and i: "2 \<le> i" "i < 64"
  shows "\<not> (f \<noteq> 0 \<and> slot_index f = i) \<Longrightarrow> tiny_allocate i s = Inr (0, s)"
    and "f \<noteq> 0 \<and> slot_index f = i \<Longrightarrow> \<exists>s'. tiny_allocate i s = Inr (lo + extent us + 8, s') \<and>
      um_inv s' lo (us @ [(f, False)]) 0 cur full \<and> keeps s s' lo (lo + extent us)"
proof -
  note I = um_inv_free[OF inv]
  assume "\<not> (f \<noteq> 0 \<and> slot_index f = i)"
  then show "tiny_allocate i s = Inr (0, s)"
    using slot_empty_run[OF inv i(2)] i by (auto simp: tiny_allocate_def run_simps slot_def)
next
  note I = um_inv_free[OF inv]
  assume f: "f \<noteq> 0 \<and> slot_index f = i"
  then obtain s' where s': "pack_allocate (lo + extent us) (take_state s f) = Inr (lo + extent us + 8, s')"
    "um_inv s' lo (us @ [(f, False)]) 0 cur full" "keeps s s' lo (lo + extent us)"
    using take_whole[OF inv] by blast
  from f have f0: "f \<noteq> 0" by simp
  note T = take_run[OF I(5) I(4)[OF f0]]
  have le: "list_empty (um_slots s + 16 * i) s = Inr (False, s)"
    and lx: "list_extract i s = Inr (lo + extent us + 8, take_state s f)"
    using f T(1,4) by (simp_all add: slot_def)
  have "tiny_allocate i s = Inr (lo + extent us + 8, s')"
    using f i s'(1) I(8) by (simp add: tiny_allocate_def bnd_def slot_ref_run le lx list_pack_def)
  then show "\<exists>s'. tiny_allocate i s = Inr (lo + extent us + 8, s') \<and>
      um_inv s' lo (us @ [(f, False)]) 0 cur full \<and> keeps s s' lo (lo + extent us)"
    using s' by blast
qed

lemma iterative_allocate_inv:
  assumes inv: "um_inv s lo us f cur full" and i: "2 \<le> i" "i < 64"
  shows "\<not> (f \<noteq> 0 \<and> slot_index f = i \<and> need \<le> f) \<Longrightarrow> iterative_allocate i need (Suc (Suc n)) s = Inr (0, s)"
    and "f \<noteq> 0 \<and> slot_index f = i \<and> need \<le> f \<Longrightarrow> \<exists>s'. iterative_allocate i need (Suc (Suc n)) s =
      Inr (lo + extent us + 8, s') \<and>
      um_inv s' lo (us @ [(f, False)]) 0 cur full \<and> keeps s s' lo (lo + extent us)"
proof -
  note I = um_inv_free[OF inv]
  assume no: "\<not> (f \<noteq> 0 \<and> slot_index f = i \<and> need \<le> f)"
  show "iterative_allocate i need (Suc (Suc n)) s = Inr (0, s)"
  proof (cases "f \<noteq> 0 \<and> slot_index f = i")
    case True
    then have f: "f \<noteq> 0" by simp
    note T = take_run[OF I(5) I(4)[OF f]]
    have "lo + extent us + 8 \<noteq> slot s i" using slot_bounds[OF I(5) i(2)] by simp
    then show ?thesis
      using True no i T(5,6,7) I(8)
      by (simp add: iterative_allocate_def run_simps slot_def Let_def)
  next
    case False
    then show ?thesis
      using slot_empty_run[OF inv i(2)] i by (auto simp: iterative_allocate_def run_simps slot_def)
  qed
next
  note I = um_inv_free[OF inv]
  assume f: "f \<noteq> 0 \<and> slot_index f = i \<and> need \<le> f"
  then obtain s' where s': "pack_allocate (lo + extent us) (take_state s f) = Inr (lo + extent us + 8, s')"
    "um_inv s' lo (us @ [(f, False)]) 0 cur full" "keeps s s' lo (lo + extent us)"
    using take_whole[OF inv] by blast
  from f have f0: "f \<noteq> 0" by simp
  note T = take_run[OF I(5) I(4)[OF f0]]
  have "lo + extent us + 8 \<noteq> slot s i" using slot_bounds[OF I(5) i(2)] by simp
  then have "iterative_allocate i need (Suc (Suc n)) s = Inr (lo + extent us + 8, s')"
    using f i s'(1) T(2,5,7) I(8) by (simp add: iterative_allocate_def run_simps slot_def Let_def)
  then show "\<exists>s'. iterative_allocate i need (Suc (Suc n)) s = Inr (lo + extent us + 8, s') \<and>
      um_inv s' lo (us @ [(f, False)]) 0 cur full \<and> keeps s s' lo (lo + extent us)"
    using s' by blast
qed

end
