(* ===== verification/Um_Requests.thy ===== *)
theory Um_Requests
  imports Um_Slots
begin

text \<open>
  The request classes above 32 bytes: \<^verbatim>\<open>malloc_tiny\<close>, \<^verbatim>\<open>malloc_middle\<close> and
  \<^verbatim>\<open>malloc_huge\<close> run on memory as the abstract allocator \<open>abs_request\<close> runs on the
  list of chunks, and they leave every chunk in use untouched.
\<close>

definition tiny_need :: "nat \<Rightarrow> nat" where
  "tiny_need sz = ((sz - 1) div 16 + 1) * 16"

definition abs_request :: "chunks \<times> nat \<Rightarrow> nat \<Rightarrow> chunks \<times> nat" where
  "abs_request h sz = (if sz \<le> 512 then abs_alloc h (slot_index sz) 0 (tiny_need sz)
     else abs_alloc h (slot_index sz) sz sz)"

lemma tiny_need:
  assumes "32 < sz" "sz \<le> 512" "8 dvd sz"
  shows "sz \<le> tiny_need sz" "tiny_need sz \<le> 512" "48 \<le> tiny_need sz" "8 dvd tiny_need sz"
    "slot_index (tiny_need sz) = slot_index sz"
proof -
  define i where "i = (sz - 1) div 16"
  have i: "16 * i \<le> sz - 1" "sz - 1 < 16 * i + 16" using mod_less_divisor[of 16 "sz - 1"]
    by (auto simp: i_def minus_mod_eq_mult_div[symmetric] intro: order.strict_trans1)
  have n: "tiny_need sz = 16 * i + 16" by (simp add: tiny_need_def i_def)
  have "i \<le> 31" "2 \<le> i" using i assms by linarith+
  then show "sz \<le> tiny_need sz" "tiny_need sz \<le> 512" "48 \<le> tiny_need sz" "8 dvd tiny_need sz"
    using i assms unfolding n by (auto intro: dvd_add dvd_mult2)
  have "(16 * i + 16 - 1) div 16 = i" by simp
  then show "slot_index (tiny_need sz) = slot_index sz"
    using \<open>i \<le> 31\<close> assms(2) unfolding n by (simp add: slot_index_tiny i_def)
qed

text \<open>
  When the heap has to grow for a request, and by how much. The slot of the request is \<open>index\<close>, and its
  chunk is taken if it has at least \<open>fit\<close> bytes.
\<close>

definition grows :: "nat \<Rightarrow> nat \<Rightarrow> nat \<Rightarrow> bool" where
  "grows f index fit \<longleftrightarrow> \<not> (f \<noteq> 0 \<and> slot_index f = index \<and> fit \<le> f) \<and> \<not> (f \<noteq> 0 \<and> index < slot_index f)"

definition growth :: "nat \<Rightarrow> nat \<Rightarrow> nat" where
  "growth f sz = (if sz \<le> 512 then if grows f (slot_index sz) 0 then pgup (tiny_need sz) else 0
     else if grows f (slot_index sz) sz then pgup sz else 0)"

lemma abs_alloc_growth:
  assumes "abs_alloc (us, f) index fit need = (us', f')" "slot_index need = index"
  shows "extent us' + f' = extent us + f + (if grows f index fit then pgup need else 0)"
proof -
  have c: "extent (fst (carve us c need)) + snd (carve us c need) = extent us + c" if "need \<le> c" for c
    using that by (simp add: carve_def)
  have "need \<le> f" if "index < slot_index f" using slot_index_mono[of f need] that assms(2) by linarith
  moreover have "need \<le> f + pgup need" using pgup_bounds(1)[of need] by simp
  ultimately show ?thesis
    using assms(1) c[of f] c[of "f + pgup need"] by (auto simp: abs_alloc_def abs_next_def grows_def split: if_splits)
qed

lemma abs_request_growth:
  assumes "abs_request (us, f) sz = (us', f')" "8 dvd sz" "32 < sz"
  shows "extent us' + f' = extent us + f + growth f sz"
proof (cases "sz \<le> 512")
  case True
  from abs_alloc_growth[OF _ tiny_need(5)[OF assms(3) True assms(2)]] assms(1) True show ?thesis
    by (simp add: abs_request_def growth_def)
next
  case False
  from abs_alloc_growth[of us f "slot_index sz" sz sz us' f'] assms(1) False show ?thesis
    by (simp add: abs_request_def growth_def)
qed

lemma slot_index_63: "61440 < sz \<Longrightarrow> sz \<le> 65536 \<Longrightarrow> slot_index sz = 63"
  using slot_index_mono[of 61441 sz] slot_index_bounds(2)[of sz] by (simp add: slot_index_def)

lemma probe_then_next:
  assumes inv: "um_inv s lo us f cur full" and index: "slot_index need = index"
    and need: "8 dvd need" "48 \<le> need" "need \<le> 61440 \<or> need \<le> f"
    and room: "grows f index fit \<Longrightarrow> um_brk s + pgup need \<le> um_limit s"
    and fit: "fit \<le> need"
    and miss: "\<not> (f \<noteq> 0 \<and> slot_index f = index \<and> fit \<le> f) \<Longrightarrow> probe s = Inr (0, s)"
    and hit: "f \<noteq> 0 \<and> slot_index f = index \<and> fit \<le> f \<Longrightarrow> \<exists>s'. probe s = Inr (lo + extent us + 8, s') \<and>
      um_inv s' lo (us @ [(f, False)]) 0 cur full \<and> keeps s s' lo (lo + extent us)"
  shows "\<exists>s' us' f'. bnd probe (\<lambda>data. if data \<noteq> 0 then ret data else next_allocate index need) s =
      Inr (lo + extent us + 8, s') \<and>
    abs_alloc (us, f) index fit need = (us', f') \<and> um_inv s' lo us' f' cur full \<and>
    keeps s s' lo (lo + extent us)"
proof (cases "f \<noteq> 0 \<and> slot_index f = index \<and> fit \<le> f")
  case True
  then obtain s' where "probe s = Inr (lo + extent us + 8, s')"
      "um_inv s' lo (us @ [(f, False)]) 0 cur full" "keeps s s' lo (lo + extent us)"
    using hit by blast
  then show ?thesis using True by (simp add: run_simps abs_alloc_def)
next
  case False
  have 1: "need \<le> f" if "f \<noteq> 0 \<and> index < slot_index f"
    using slot_index_mono[of f need] that index by linarith
  have 2: "f < need" if "\<not> (f \<noteq> 0 \<and> index < slot_index f)"
    using slot_index_mono[of need f] that index False fit need(2) by force
  have 3: "need \<le> 61440"
  proof (rule ccontr)
    assume n: "\<not> need \<le> 61440"
    then have "need \<le> f" "f \<le> 65536" using need(3) um_inv_free(2)[OF inv] by auto
    then have "slot_index f = 63" "index = 63" using n index slot_index_63 by auto
    then show False using False fit \<open>need \<le> f\<close> n by auto
  qed
  have 4: "\<not> (f \<noteq> 0 \<and> index < slot_index f) \<Longrightarrow> um_brk s + pgup need \<le> um_limit s"
    using room False by (simp add: grows_def)
  have "index < 63" using slot_index_bounds(3)[OF 3] index by simp
  then obtain s' where "next_allocate index need s = Inr (lo + extent us + 8, s')"
    "um_inv s' lo (fst (abs_next (us, f) index need)) (snd (abs_next (us, f) index need)) cur full"
    "keeps s s' lo (lo + extent us)"
    using next_allocate_inv[OF inv _ need(1,2) 3 1 2 4] by blast
  moreover have "abs_alloc (us, f) index fit need = abs_next (us, f) index need"
    using False by (auto simp: abs_alloc_def)
  ultimately show ?thesis using miss[OF False] by (simp add: run_simps prod_eq_iff)
qed

lemma probe_refused:
  assumes inv: "um_inv s lo us f cur full" and index: "slot_index need = index" and need: "48 \<le> need" "need \<le> 61440"
    and g: "grows f index fit" and no: "um_limit s < um_brk s + pgup need"
    and miss: "\<not> (f \<noteq> 0 \<and> slot_index f = index \<and> fit \<le> f) \<Longrightarrow> probe s = Inr (0, s)"
  shows "\<exists>s'. bnd probe (\<lambda>data. if data \<noteq> 0 then ret data else next_allocate index need) s = Inr (0, s') \<and> um_brk s' < um_base s'"
proof -
  have "index < 63" using slot_index_bounds(3)[OF need(2)] index by simp
  then show ?thesis using next_allocate_refused[OF inv _ need _ no] g miss by (simp add: grows_def run_simps)
qed

section \<open>The three classes of requests\<close>

abbreviation (input) serve :: "nat \<Rightarrow> nat um_prog" where
  "serve sz \<equiv> (if sz \<le> 512 then malloc_tiny sz else if sz > 4096 then malloc_huge sz else malloc_middle sz)"

lemma serve_tiny:
  assumes "32 < sz" "sz \<le> 512"
  shows "serve sz = bnd (tiny_allocate (slot_index sz)) (\<lambda>data. if data \<noteq> 0 then ret data
    else next_allocate (slot_index sz) (tiny_need sz))"
proof -
  have e: "sub64 sz 1 div 16 = slot_index sz" "(slot_index sz + 1) * 16 = tiny_need sz"
    using assms by (simp_all add: slot_index_tiny tiny_need_def)
  show ?thesis using assms unfolding malloc_tiny_def Let_def e by simp
qed

lemma serve_large:
  assumes "512 < sz" "sz < 2 ^ 32"
  obtains n where "serve sz = bnd (iterative_allocate (slot_index sz) sz (Suc (Suc n))) (\<lambda>data. if data \<noteq> 0 then ret data
    else next_allocate (slot_index sz) sz)"
proof (cases "sz > 4096")
  case True
  have "(if sz < 6144 then 48 else sub64 sz 1 div 4096 + 48) = slot_index sz"
    using True assms by (simp add: slot_index_def)
  then have "malloc_huge sz = bnd (iterative_allocate (slot_index sz) sz (Suc (Suc 6)))
    (\<lambda>data. if data \<noteq> 0 then ret data else next_allocate (slot_index sz) sz)"
    by (simp add: malloc_huge_def Let_def)
  then show thesis using True assms(1) by (intro that[of 6]) simp
next
  case False
  have "(if sz \<le> 640 then w64 (sz + 1535) div 64 else 34 + sub64 sz 513 div 256) = slot_index sz"
    using False assms by (simp add: slot_index_def)
  then have "malloc_middle sz = bnd (iterative_allocate (slot_index sz) sz (Suc (Suc 2)))
    (\<lambda>data. if data \<noteq> 0 then ret data else next_allocate (slot_index sz) sz)"
    by (simp add: malloc_middle_def Let_def)
  then show thesis using False assms(1) by (intro that[of 2]) simp
qed

lemma malloc_large_inv:
  assumes inv: "um_inv s lo us f cur full" and sz: "8 dvd sz" "32 < sz" "sz \<le> 61440 \<or> sz \<le> f"
    and room: "um_brk s + growth f sz \<le> um_limit s"
  obtains s' us' f' where "serve sz s = Inr (lo + extent us + 8, s')"
    "abs_request (us, f) sz = (us', f')" "um_inv s' lo us' f' cur full"
    "keeps s s' lo (lo + extent us)"
proof -
  have top: "sz \<le> 65536" using sz(3) um_inv_free(2)[OF inv] by auto
  have lt: "2 \<le> slot_index sz" "slot_index sz < 64"
    using slot_index_bounds[of sz] sz(2) top by auto
  show thesis
  proof (cases "sz \<le> 512")
    case True
    note N = tiny_need[OF sz(2) True sz(1)]
    have rm: "grows f (slot_index sz) 0 \<Longrightarrow> um_brk s + pgup (tiny_need sz) \<le> um_limit s" using room True by (simp add: growth_def)
    have "\<exists>s' us' f'. serve sz s = Inr (lo + extent us + 8, s') \<and>
      abs_alloc (us, f) (slot_index sz) 0 (tiny_need sz) = (us', f') \<and> um_inv s' lo us' f' cur full \<and>
      keeps s s' lo (lo + extent us)"
      unfolding serve_tiny[OF sz(2) True] using N(2-5) rm tiny_allocate_inv[OF inv lt] by (intro probe_then_next[OF inv]) simp_all
    then show thesis using True by (auto intro: that simp: abs_request_def)
  next
    case False
    obtain n where n: "serve sz = bnd (iterative_allocate (slot_index sz) sz (Suc (Suc n))) (\<lambda>data. if data \<noteq> 0 then ret data
      else next_allocate (slot_index sz) sz)" using serve_large[of sz] False top by auto
    have rm: "grows f (slot_index sz) sz \<Longrightarrow> um_brk s + pgup sz \<le> um_limit s" using room False by (simp add: growth_def)
    have "\<exists>s' us' f'. serve sz s = Inr (lo + extent us + 8, s') \<and>
      abs_alloc (us, f) (slot_index sz) sz sz = (us', f') \<and> um_inv s' lo us' f' cur full \<and>
      keeps s s' lo (lo + extent us)"
      unfolding n using False sz rm iterative_allocate_inv[OF inv lt, of sz n] by (intro probe_then_next[OF inv]) simp_all
    then show thesis using False by (auto intro: that simp: abs_request_def)
  qed
qed

lemma malloc_large_refused:
  assumes inv: "um_inv s lo us f cur full" and sz: "8 dvd sz" "32 < sz" "sz \<le> 61440"
    and no: "um_limit s < um_brk s + growth f sz"
  shows "\<exists>s'. serve sz s = Inr (0, s') \<and> um_brk s' < um_base s'"
proof -
  have lt: "2 \<le> slot_index sz" "slot_index sz < 64" using slot_index_bounds[of sz] sz(2,3) by auto
  have in_limit: "um_brk s \<le> um_limit s" using free_okD(3)[OF um_inv_free(6)[OF inv]] um_inv_free(7)[OF inv] by simp
  show ?thesis
  proof (cases "sz \<le> 512")
    case True
    note N = tiny_need[OF sz(2) True sz(1)]
    have "grows f (slot_index sz) 0" "um_limit s < um_brk s + pgup (tiny_need sz)"
      using no in_limit True by (auto simp: growth_def split: if_splits)
    then show ?thesis unfolding serve_tiny[OF sz(2) True] using N tiny_allocate_inv(1)[OF inv lt]
      by (intro probe_refused[OF inv, where fit = 0]) simp_all
  next
    case False
    obtain n where n: "serve sz = bnd (iterative_allocate (slot_index sz) sz (Suc (Suc n))) (\<lambda>data. if data \<noteq> 0 then ret data
      else next_allocate (slot_index sz) sz)" using serve_large[of sz] False sz(3) by auto
    have "grows f (slot_index sz) sz" "um_limit s < um_brk s + pgup sz"
      using no in_limit False by (auto simp: growth_def split: if_splits)
    then show ?thesis unfolding n using False sz iterative_allocate_inv(1)[OF inv lt, of sz n]
      by (intro probe_refused[OF inv]) simp_all
  qed
qed

text \<open>Requests that the slots cannot serve: the last slot has none above it, and there is none for larger sizes.\<close>

lemma malloc_too_large:
  assumes inv: "um_inv s lo us f cur full"
  shows "61440 < sz \<Longrightarrow> sz \<le> 65536 \<Longrightarrow> f < sz \<Longrightarrow> serve sz s = Inl ShiftOverflow"
    and "65536 < sz \<Longrightarrow> sz < 2 ^ 32 \<Longrightarrow> serve sz s = Inl OutOfBounds"
proof -
  assume sz: "61440 < sz" "sz \<le> 65536" "f < sz"
  have i: "slot_index sz = 63" using sz slot_index_63 by simp
  obtain n where n: "serve sz = bnd (iterative_allocate (slot_index sz) sz (Suc (Suc n))) (\<lambda>data. if data \<noteq> 0 then ret data
    else next_allocate (slot_index sz) sz)" using serve_large[of sz] sz by auto
  have "iterative_allocate 63 sz (Suc (Suc n)) s = Inr (0, s)" using sz by (intro iterative_allocate_inv(1)[OF inv]) simp_all
  then show "serve sz s = Inl ShiftOverflow"
    unfolding n by (simp add: i bnd_def next_allocate_def next_free_def run_simps)
next
  assume sz: "65536 < sz" "sz < 2 ^ 32"
  obtain n where n: "serve sz = bnd (iterative_allocate (slot_index sz) sz (Suc (Suc n))) (\<lambda>data. if data \<noteq> 0 then ret data
    else next_allocate (slot_index sz) sz)" using serve_large[of sz] sz by auto
  have "\<not> slot_index sz < 64"
    using slot_index_mono[of 65537 sz] sz by (simp add: slot_index_def)
  then show "serve sz s = Inl OutOfBounds"
    unfolding n by (simp add: bnd_def iterative_allocate_def slot_ref_def run_simps)
qed

end
