(* ===== verification/Um_Pages.thy ===== *)
theory Um_Pages
  imports Um_Requests
begin

text \<open>
  Pages of 32-byte chunks: \<^verbatim>\<open>fast_bin_reserve\<close> makes a page out of a large chunk,
  \<^verbatim>\<open>fast_allocate\<close> takes the highest free chunk of the current page and moves the
  page to the list of full ones when it was the last.
\<close>

section \<open>Frames of the parts of the invariant\<close>

lemma page_free_bits:
  "agree m m' (q + 32) (q + 48) \<Longrightarrow> page_free m' q = page_free m q"
  using agree_load(2)[of m m' "q + 32" "q + 48"]
  by (simp add: page_free_def page_bit_def)

lemma hdrs_cong:
  "\<forall>(p, u, k) \<in> set (starts lo us). agree m m' p (p + 8) \<Longrightarrow> hdrs m prv lo us \<Longrightarrow> hdrs m' prv lo us"
proof (induction m prv lo us rule: hdrs.induct)
  case (2 m prv p u k us)
  then have "agree m m' p (p + 8)" by simp
  from agree_load(1)[OF this, of p] agree_load(1)[OF this, of "p + 4"] 2 show ?case by auto
qed simp

lemma free_ok_agree:
  assumes fr: "free_ok s lo us f"
    and same: "um_slots s' = um_slots s" "um_limit s' = um_limit s" "um_base s' = um_base s"
      "um_brk s' = um_brk s" "um_bitmap s' = um_bitmap s"
    and high: "agree (um_mem s) (um_mem s') (lo + extent us) (um_brk s)"
    and slots: "\<And>i. i < 64 \<Longrightarrow> i \<noteq> 1 \<Longrightarrow> agree (um_mem s) (um_mem s') (slot s i) (slot s i + 16)"
  shows "free_ok s' lo us f"
proof -
  note F = free_okD[OF fr]
  have sl: "slot s' i = slot s i" for i using same by (simp add: slot_def)
  have ld: "load32 (um_mem s') a = load32 (um_mem s) a" if "lo + extent us \<le> a" "a + 4 \<le> um_brk s" for a
    using high that by (rule agree_load(1))
  have R: "ring (um_mem s') (slot s i) (if f \<noteq> 0 \<and> i = slot_index f then [lo + extent us + 8] else [])"
    if "i < 64" "i \<noteq> 1" for i
    using F(2) free_ok_chunkD(2)[OF fr]
    by (intro ring_agree[OF F(5)[OF that] slots[OF that]]) (auto intro!: agree_sub[OF high])
  have "load32 (um_mem s') (lo + extent us) = load32 (um_mem s) (lo + extent us)"
    "load32 (um_mem s') (lo + extent us + 4) = load32 (um_mem s) (lo + extent us + 4)"
    "load32 (um_mem s') (lo + extent us + f) = load32 (um_mem s) (lo + extent us + f)"
    "load32 (um_mem s') (lo + extent us + f + 4) = load32 (um_mem s) (lo + extent us + f + 4)"
    using F(2) by (auto intro!: ld)
  with fr[unfolded free_ok_def Let_def] R show ?thesis
    unfolding free_ok_def Let_def same sl by (elim conjE, intro conjI) (simp_all only:, blast)
qed

section \<open>Choosing a chunk of the page\<close>

lemma page_free_finite [simp]: "finite (page_free m q)"
  by (simp add: page_free_def)

lemma page_free_card: "card (page_free m q) \<le> 128"
  using card_mono[of "{..<128::nat}" "page_free m q"] by (auto simp: page_free_def)

lemma bit_clear: "bit (x AND NOT (push_bit i 1) :: 64 word) j \<longleftrightarrow> bit x j \<and> j \<noteq> i"
proof (cases "j < 64")
  case True
  then show ?thesis by (auto simp: bit_and_iff bit_not_iff bit_push_bit_iff possible_bit_def bit_1_iff bit_exp_iff)
next
  case False
  then show ?thesis using bit_imp_le_length[of x j] bit_imp_le_length[of "x AND NOT (push_bit i 1)" j] by auto
qed

lemma page_free_clear:
  assumes "i < 64"
  shows "page_free (store64 m (q + 32) (load64 m (q + 32) AND NOT (push_bit i 1))) q = page_free m q - {i}"
    "page_free (store64 m (q + 40) (load64 m (q + 40) AND NOT (push_bit i 1))) q = page_free m q - {i + 64}"
proof -
  have "page_bit (store64 m (q + 32) (load64 m (q + 32) AND NOT (push_bit i 1))) q j \<longleftrightarrow> page_bit m q j \<and> j \<noteq> i" for j
    unfolding page_bit_def using assms by (cases "j < 64") (auto simp only: load64_store64 bit_clear if_True if_False load64_store64_lo[of "q + 32" "q + 40", simplified])
  then show "page_free (store64 m (q + 32) (load64 m (q + 32) AND NOT (push_bit i 1))) q = page_free m q - {i}"
    unfolding page_free_def by blast
  have "page_bit (store64 m (q + 40) (load64 m (q + 40) AND NOT (push_bit i 1))) q j \<longleftrightarrow> page_bit m q j \<and> j \<noteq> i + 64" for j
  proof (cases "j < 64")
    case True
    then show ?thesis using assms load64_store64_hi[of "q + 32" "q + 40"] by (simp add: page_bit_def)
  next
    case False
    then have "j - 64 \<noteq> i \<longleftrightarrow> j \<noteq> i + 64" by arith
    then show ?thesis using False by (simp only: page_bit_def load64_store64 bit_clear if_False)
  qed
  then show "page_free (store64 m (q + 40) (load64 m (q + 40) AND NOT (push_bit i 1))) q = page_free m q - {i + 64}"
    unfolding page_free_def by blast
qed

lemma fast_index_run:
  assumes brk: "q + 48 \<le> um_brk s" and some: "page_free (um_mem s) q \<noteq> {}"
  obtains i m' where "fast_index (q + 24) s = Inr (i, s\<lparr>um_mem := m'\<rparr>)" "i \<in> page_free (um_mem s) q"
    "page_free m' q = page_free (um_mem s) q - {i}"
    "\<And>a b. b \<le> q + 32 \<or> q + 48 \<le> a \<Longrightarrow> agree (um_mem s) m' a b"
proof -
  define x where "x = load64 (um_mem s) (q + 32)"
  define y where "y = load64 (um_mem s) (q + 40)"
  show thesis
  proof (cases "x = 0")
    case False
    let ?i = "log2_floor64 x"
    have b: "bit x ?i" "?i < 64" using log2_floor64_bit(1)[OF False] log2_floor64_less[OF False] by auto
    have r: "fast_index (q + 24) s = Inr (?i, s\<lparr>um_mem := store64 (um_mem s) (q + 32) (x AND NOT (push_bit ?i 1))\<rparr>)"
      using brk False by (simp add: fast_index_def run_simps Let_def x_def)
    show thesis
    proof (rule that[OF r])
      show "?i \<in> page_free (um_mem s) q" using b by (simp add: page_free_def page_bit_def x_def)
      show "page_free (store64 (um_mem s) (q + 32) (x AND NOT (push_bit ?i 1))) q = page_free (um_mem s) q - {?i}"
        using page_free_clear(1)[OF b(2)] by (simp add: x_def)
    qed (auto simp: mem_simps)
  next
    case True
    let ?i = "log2_floor64 y"
    have "y \<noteq> 0"
      using some True by (auto simp: page_free_def page_bit_def x_def y_def split: if_splits)
    have b: "bit y ?i" "?i < 64" using log2_floor64_bit(1)[OF \<open>y \<noteq> 0\<close>] log2_floor64_less[OF \<open>y \<noteq> 0\<close>] by auto
    have r: "fast_index (q + 24) s = Inr (?i + 64, s\<lparr>um_mem := store64 (um_mem s) (q + 40) (y AND NOT (push_bit ?i 1))\<rparr>)"
      using brk True \<open>y \<noteq> 0\<close> by (simp add: fast_index_def run_simps Let_def x_def y_def)
    show thesis
    proof (rule that[OF r])
      show "?i + 64 \<in> page_free (um_mem s) q" using b by (simp add: page_free_def page_bit_def y_def)
      show "page_free (store64 (um_mem s) (q + 40) (y AND NOT (push_bit ?i 1))) q = page_free (um_mem s) q - {?i + 64}"
        using page_free_clear(2)[OF b(2)] by (simp add: y_def)
    qed (auto simp: mem_simps)
  qed
qed

section \<open>Taking a chunk from the current page\<close>

definition page_take :: "um \<Rightarrow> nat \<Rightarrow> memory" where
  "page_take s q = (let m = um_mem s; m1 = store64 m (q + 24) (load64 m (q + 24) - 1) in
     if load64 m (q + 24) = 1 then push_mem (unlink_mem m1 (slot s 1)) (um_fast_full s) (q + 8) else m1)"

lemma page_bounds:
  assumes inv: "um_inv s lo us f cur full" and q: "q \<in> set (cur @ full)"
  shows "lo \<le> q" "q + 4144 \<le> lo + extent us" "q \<in> page_set lo us"
proof -
  note I = um_inv_free[OF inv]
  have P: "pages_ok s lo us cur full" and sz: "sizes_ok us" using I(5) by (simp_all add: used_ok_def)
  from pages_in_chunks[OF P sz q] show "lo \<le> q" "q + 4144 \<le> lo + extent us"
    by (force elim: order.trans[rotated])+
  show "q \<in> page_set lo us" using pages_okD(3)[OF P] q by auto
qed

lemma pages_apart:
  assumes "sizes_ok us" "p \<in> page_set lo us" "q \<in> page_set lo us" "p \<noteq> q"
  shows "p + 4144 \<le> q \<or> q + 4144 \<le> p"
proof -
  obtain u v where uv: "(p, u, True) \<in> set (starts lo us)" "(q, v, True) \<in> set (starts lo us)"
    using assms by (auto simp: page_set_def)
  have "4144 \<le> u" "4144 \<le> v"
    using assms(1) starts_bounds[OF uv(1)] starts_bounds[OF uv(2)] by (auto simp: sizes_ok_def)
  with starts_disjoint[OF uv] assms(4) show ?thesis by auto
qed

lemma full_head:
  assumes inv: "um_inv s lo us f cur full"
  shows "loadp (um_mem s) (um_fast_full s + 8) =
    (case full of [] \<Rightarrow> um_fast_full s | p # _ \<Rightarrow> p + 8)"
  using pages_okD(5)[of s lo us cur full] um_inv_free(5)[OF inv] by (auto simp: used_ok_def split: list.splits)

lemma cur_head:
  assumes inv: "um_inv s lo us f [q] full"
  shows "loadp (um_mem s) (slot s 1 + 8) = q + 8" "loadp (um_mem s) (q + 16) = slot s 1"
    "page_free (um_mem s) q \<noteq> {}" "load64 (um_mem s) (q + 24) = of_nat (card (page_free (um_mem s) q))"
  using pages_okD(4,6)[of s lo us "[q]" full] um_inv_free(5)[OF inv] by (auto simp: used_ok_def page_ok_def)

lemma fast_allocate_steps:
  assumes inv: "um_inv s lo us f [q] full"
  shows "fast_allocate s = bnd (fast_index (q + 24)) (\<lambda>index.
     let next = w64 (q + 48 + index * 32) in
     sq (pack_set_prev next (of_nat index)) (sq (pack_set_info next 32 BOTH_INUSE) (ret (pack_data next))))
     (s\<lparr>um_mem := page_take s q\<rparr>)"
proof -
  note I = um_inv_free[OF inv]
  note B = used_ok_bounds[OF I(5)] slot_bounds[OF I(5), of 1]
  note Q = page_bounds[OF inv, of q, simplified]
  note C = cur_head[OF inv]
  define h where "h = slot s 1"
  define g where "g = um_fast_full s"
  define c where "c = load64 (um_mem s) (q + 24)"
  define b where "b = um_brk s"
  have h: "h + 16 \<le> q" "g + 16 \<le> q" "h + 16 \<le> g \<or> g + 16 \<le> h" "q + 4144 < 2 ^ 64" "q + 4144 \<le> b"
    using B Q I(7,8) by (auto simp: h_def g_def b_def slot_def)
  have r: "loadp (um_mem s) (h + 8) = q + 8" "loadp (um_mem s) (q + 16) = h"
    using C by (simp_all add: h_def)
  have x: "loadp (um_mem s) (g + 8) + 8 \<le> b"
    using full_head[OF inv] page_bounds[OF inv, of "hd full"] h(2,5) I(7) unfolding g_def b_def
    by (cases full) auto
  have "c \<noteq> 0"
  proof -
    have "0 < card (page_free (um_mem s) q)" using C(3) by (simp add: card_gt_0_iff)
    moreover have "card (page_free (um_mem s) q) \<le> 128" by (rule page_free_card)
    moreover have "unat c = card (page_free (um_mem s) q)"
      unfolding c_def C(4) using page_free_card[of "um_mem s" q] by simp
    ultimately show ?thesis by auto
  qed
  define t where "t = s\<lparr>um_mem := store64 (um_mem s) (q + 24) (c - 1)\<rparr>"
  have m: "um_mem t = store64 (um_mem s) (q + 24) (c - 1)" "um_brk t = b" "um_fast_full t = g" "um_fast_full s = g"
    by (simp_all add: t_def b_def g_def)
  have pop: "list_pop h t = Inr (q + 8, t\<lparr>um_mem := unlink_mem (um_mem t) h\<rparr>)"
    using h r m by (simp add: list_pop_def node_link_def run_simps mem_simps unlink_mem_def)
  have "loadp (unlink_mem (um_mem t) h) (g + 8) = loadp (um_mem s) (g + 8)"
    using h by (auto simp: m unlink_mem_def mem_simps)
  then have push: "list_push g (q + 8) (t\<lparr>um_mem := unlink_mem (um_mem t) h\<rparr>) =
      Inr ((), t\<lparr>um_mem := push_mem (unlink_mem (um_mem t) h) g (q + 8)\<rparr>)"
    using h m x by (subst list_push_run) simp_all
  have e: "slot_ref 1 s = Inr (h, s)" "list_empty h s = Inr (False, s)" "ldp (h + 8) s = Inr (q + 8, s)"
    "ld64 (q + 24) s = Inr (c, s)" "st64 (q + 24) (c - 1) s = Inr ((), t)"
    using h r by (simp_all add: run_simps list_empty_def h_def slot_def t_def c_def flip: b_def)
  have f: "(if c - 1 = 0 then bnd (list_pop h) (\<lambda>n. bnd (gets um_fast_full) (\<lambda>full. list_push full n))
      else ret ()) t = Inr ((), s\<lparr>um_mem := page_take s q\<rparr>)"
  proof (cases "c = 1")
    case True
    then have "s\<lparr>um_mem := page_take s q\<rparr> = t\<lparr>um_mem := push_mem (unlink_mem (um_mem t) h) g (q + 8)\<rparr>"
      by (simp add: page_take_def Let_def t_def c_def h_def g_def)
    with True pop push m(3) show ?thesis by (simp add: bnd_def gets_def)
  next
    case False
    then have "s\<lparr>um_mem := page_take s q\<rparr> = t" by (simp add: page_take_def Let_def t_def c_def)
    with False show ?thesis by (simp add: ret_def)
  qed
  have a: "w64 (pack_data (list_pack (q + 8)) + 16) = q + 24" "w64 (q + 24 + 24) = q + 48" using h by simp_all
  show ?thesis
    unfolding fast_allocate_def
    apply (rule bnd_eq, rule e(1), rule bnd_eq, rule e(2), simp only: if_False, rule bnd_eq, rule e(3))
    apply (simp only: Let_def a, rule bnd_eq, rule e(4), rule sq_eq)
     apply (use \<open>c \<noteq> 0\<close> in \<open>simp add: IMPOSSIBLE_def guard_def\<close>)
    apply (rule sq_eq, rule e(5), rule sq_eq, rule f, rule refl)
    done
qed

definition next_pages :: "um \<Rightarrow> nat \<Rightarrow> nat list \<Rightarrow> nat list \<times> nat list" where
  "next_pages s q full = (if card (page_free (um_mem s) q) = 1 then ([], q # full) else ([q], full))"

lemma cur_count:
  assumes inv: "um_inv s lo us f [q] full"
  shows "load64 (um_mem s) (q + 24) = 1 \<longleftrightarrow> card (page_free (um_mem s) q) = 1"
    "load64 (um_mem s) (q + 24) - 1 = of_nat (card (page_free (um_mem s) q) - 1)"
proof -
  let ?n = "card (page_free (um_mem s) q)"
  have n: "0 < ?n" "?n \<le> 128" using cur_head(3)[OF inv] page_free_card by (auto simp: card_gt_0_iff)
  have "unat (of_nat ?n :: 64 word) = ?n" using n by simp
  moreover have "unat (1 :: 64 word) = 1" by simp
  ultimately show "load64 (um_mem s) (q + 24) = 1 \<longleftrightarrow> ?n = 1"
    unfolding cur_head(4)[OF inv] by (metis of_nat_1)
  show "load64 (um_mem s) (q + 24) - 1 = of_nat (?n - 1)"
    unfolding cur_head(4)[OF inv] using n by (simp add: of_nat_diff)
qed

lemma page_take_cases:
  defines "m1 s q \<equiv> store64 (um_mem s) (q + 24) (load64 (um_mem s) (q + 24) - 1)"
  shows "page_take s q = m1 s q \<or>
    page_take s q = push_mem (unlink_mem (m1 s q) (slot s 1)) (um_fast_full s) (q + 8)"
  unfolding page_take_def Let_def m1_def by metis

lemma page_take_agree:
  assumes inv: "um_inv s lo us f [q] full"
    and "b \<le> q + 8 \<or> q + 32 \<le> a" "b \<le> slot s 1 \<or> slot s 1 + 16 \<le> a"
    "b \<le> um_fast_full s \<or> um_fast_full s + 16 \<le> a" "\<forall>p \<in> set full. b \<le> p + 8 \<or> p + 16 \<le> a"
  shows "agree (um_mem s) (page_take s q) a b"
proof -
  note B = used_ok_bounds[OF um_inv_free(5)[OF inv]] slot_bounds[OF um_inv_free(5)[OF inv], of 1]
    page_bounds[OF inv, of q, simplified]
  define m1 where "m1 = unlink_mem (store64 (um_mem s) (q + 24) (load64 (um_mem s) (q + 24) - 1)) (slot s 1)"
  have 1: "agree (um_mem s) (store64 (um_mem s) (q + 24) v) a b" for v
    using assms(2) by (auto simp: mem_simps)
  then have 2: "agree (um_mem s) m1 a b"
    unfolding m1_def using assms(3) by (simp add: mem_simps)
  have "loadp m1 (um_fast_full s + 8) = (case full of [] \<Rightarrow> um_fast_full s | p # _ \<Rightarrow> p + 8)"
    using full_head[OF inv] B by (auto simp: m1_def unlink_mem_def mem_simps slot_def)
  then have "b \<le> loadp m1 (um_fast_full s + 8) \<or> loadp m1 (um_fast_full s + 8) + 8 \<le> a"
    using assms(4,5) by (cases full) auto
  then have "agree (um_mem s) (push_mem m1 (um_fast_full s) (q + 8)) a b"
    using assms(2,4) by (intro agree_push[OF 2]) auto
  with 1 page_take_cases[of s q] show ?thesis by (auto simp only: m1_def)
qed

lemma page_take_count:
  assumes inv: "um_inv s lo us f [q] full"
  shows "load64 (page_take s q) (q + 24) = of_nat (card (page_free (um_mem s) q) - 1)"
proof -
  note B = used_ok_bounds[OF um_inv_free(5)[OF inv]] slot_bounds[OF um_inv_free(5)[OF inv], of 1]
    page_bounds[OF inv, of q, simplified]
  define m1 where "m1 = store64 (um_mem s) (q + 24) (load64 (um_mem s) (q + 24) - 1)"
  have l: "loadp (unlink_mem m1 (slot s 1)) (um_fast_full s + 8) = (case full of [] \<Rightarrow> um_fast_full s | p # _ \<Rightarrow> p + 8)"
    using full_head[OF inv] B by (auto simp: m1_def unlink_mem_def mem_simps slot_def)
  have "p + 16 \<le> q + 24 \<or> q + 32 \<le> p + 8" if "full = p # ps" for p ps
  proof -
    have "p \<noteq> q" "sizes_ok us"
      using pages_okD(2)[of s lo us "[q]" full] um_inv_free(5)[OF inv] that by (auto simp: used_ok_def)
    then show ?thesis
      using pages_apart[of us p lo q] page_bounds(3)[OF inv, of p] page_bounds(3)[OF inv, of q] that by auto
  qed
  then have sep: "loadp (unlink_mem m1 (slot s 1)) (um_fast_full s + 8) + 8 \<le> q + 24 \<or>
      q + 32 \<le> loadp (unlink_mem m1 (slot s 1)) (um_fast_full s + 8)"
    using l B by (cases full) auto
  have "agree m1 (unlink_mem m1 (slot s 1)) (q + 24) (q + 32)" using B by (simp add: mem_simps)
  then have "agree m1 (push_mem (unlink_mem m1 (slot s 1)) (um_fast_full s) (q + 8)) (q + 24) (q + 32)"
    using B sep by (intro agree_push) auto
  from agree_load(2)[OF this, of "q + 24"]
  have "load64 (push_mem (unlink_mem m1 (slot s 1)) (um_fast_full s) (q + 8)) (q + 24) =
      load64 (um_mem s) (q + 24) - 1" by (simp add: m1_def)
  then have "load64 (page_take s q) (q + 24) = load64 (um_mem s) (q + 24) - 1"
    using page_take_cases[of s q] by (auto simp only: m1_def load64_store64)
  then show ?thesis using cur_count(2)[OF inv] by simp
qed

lemma page_nodes_apart:
  assumes inv: "um_inv s lo us f cur full" and x: "x \<in> set (cur @ full)" and y: "y \<in> set (cur @ full)" "x \<noteq> y"
  shows "x + 4144 \<le> y \<or> y + 4144 \<le> x"
proof -
  have "sizes_ok us" using um_inv_free(5)[OF inv] by (simp add: used_ok_def)
  from pages_apart[OF this page_bounds(3)[OF inv x] page_bounds(3)[OF inv y(1)] y(2)] show ?thesis .
qed

lemma page_take_rings:
  assumes inv: "um_inv s lo us f [q] full" and np: "next_pages s q full = (cur', full')"
  shows "ring (page_take s q) (slot s 1) (map (\<lambda>p. p + 8) cur')"
    "ring (page_take s q) (um_fast_full s) (map (\<lambda>p. p + 8) full')"
proof -
  note I = um_inv_free[OF inv]
  note B = used_ok_bounds[OF I(5)] slot_bounds[OF I(5), of 1]
  have P: "pages_ok s lo us [q] full" using I(5) by (simp add: used_ok_def)
  have Q: "lo \<le> p" "p + 4144 < 2 ^ 64" if "p \<in> set (q # full)" for p
    using page_bounds(1,2)[OF inv, of p] that I(8) by auto
  define m1 where "m1 = store64 (um_mem s) (q + 24) (load64 (um_mem s) (q + 24) - 1)"
  define m2 where "m2 = unlink_mem m1 (slot s 1)"
  have ap: "p + 4144 \<le> q \<or> q + 4144 \<le> p" if "p \<in> set full" for p
    using page_nodes_apart[OF inv, of p q] pages_okD(2)[OF P] that by auto
  have s1: "slot s 1 + 16 \<le> lo" "um_fast_full s + 16 \<le> lo"
    "slot s 1 + 16 \<le> um_fast_full s \<or> um_fast_full s + 16 \<le> slot s 1"
    using B by (auto simp: slot_def)
  have "agree (um_mem s) m1 a b" if "b \<le> q + 24 \<or> q + 32 \<le> a" for a b
    using that by (auto simp: m1_def mem_simps)
  then have ag1: "agree (um_mem s) m1 (slot s 1) (slot s 1 + 16)" "agree (um_mem s) m1 (um_fast_full s) (um_fast_full s + 16)"
    "agree (um_mem s) m1 (p + 8) (p + 24)" if "p \<in> set (q # full)" for p
    using s1 Q(1)[of q] that ap[of p] by auto
  have ring1: "ring m1 (slot s 1) [q + 8]" "ring m1 (um_fast_full s) (map (\<lambda>p. p + 8) full)"
    using pages_okD(4,5)[OF P] ag1 by (auto intro!: ring_agree[of "um_mem s" _ _ m1] simp del: chain.simps)
  have "ring (page_take s q) (slot s 1) (map (\<lambda>p. p + 8) cur') \<and>
    ring (page_take s q) (um_fast_full s) (map (\<lambda>p. p + 8) full')"
  proof (cases "card (page_free (um_mem s) q) = 1")
    case False
    then have "page_take s q = m1" "cur' = [q]" "full' = full"
      using np cur_count(1)[OF inv] by (simp_all add: page_take_def Let_def m1_def next_pages_def)
    then show ?thesis using ring1 by simp
  next
    case True
    then have pt: "page_take s q = push_mem m2 (um_fast_full s) (q + 8)" "cur' = []" "full' = q # full"
      using np cur_count(1)[OF inv] by (simp_all add: page_take_def Let_def m1_def m2_def next_pages_def)
    have "ring m2 (slot s 1) []" unfolding m2_def using B(6) Q[of q] by (intro unlink_ring) simp
    moreover have "loadp m2 (um_fast_full s + 8) = (case full of [] \<Rightarrow> um_fast_full s | p # _ \<Rightarrow> p + 8)"
      using full_head[OF inv] s1 Q(1)[of q] by (auto simp: m1_def m2_def unlink_mem_def mem_simps)
    then have "agree m2 (page_take s q) (slot s 1) (slot s 1 + 16)"
      unfolding pt using s1 Q(1)[of q] Q(1)[of "hd full"] by (cases full) (auto intro!: agree_push)
    ultimately have r1: "ring (page_take s q) (slot s 1) []" by (rule ring_agree) simp
    have rm2: "ring m2 (um_fast_full s) (map (\<lambda>p. p + 8) full)"
    proof (rule ring_agree[OF ring1(2)])
      show "agree m1 m2 (um_fast_full s) (um_fast_full s + 16)" unfolding m2_def using s1(3) by (subst unlink_agree) auto
      have "agree m1 m2 (p + 8) (p + 24)" if "p \<in> set full" for p
        unfolding m2_def using s1(1) Q(1)[of p] that by (subst unlink_agree) auto
      then show "\<forall>n \<in> set (map (\<lambda>p. p + 8) full). agree m1 m2 n (n + 16)" by auto
    qed
    have lowp: "lo \<le> p" and smallp: "p < 2 ^ 64 - 8" if "p \<in> set full" for p
      using Q[of p] that by simp_all
    have app: "x + 24 \<le> y + 8 \<or> y + 24 \<le> x + 8" if "x \<in> set full" "y \<in> set full" "x \<noteq> y" for x y
      using page_nodes_apart[OF inv, of x y] that by auto
    from rm2 have "ring (page_take s q) (um_fast_full s) ((q + 8) # map (\<lambda>p. p + 8) full)"
      unfolding pt
    proof (rule ring_push)
      show "\<forall>x \<in> set (um_fast_full s # map (\<lambda>p. p + 8) full). q + 8 + 16 \<le> x \<or> x + 16 \<le> q + 8"
        using s1 Q(1)[of q] ap by (auto dest: ap)
      show "\<forall>x \<in> set (map (\<lambda>p. p + 8) full). um_fast_full s + 16 \<le> x \<or> x + 16 \<le> um_fast_full s"
        using s1(2) by (auto dest!: lowp)
      show "\<forall>x \<in> set (map (\<lambda>p. p + 8) full). \<forall>y \<in> set (map (\<lambda>p. p + 8) full). x \<noteq> y \<longrightarrow> x + 16 \<le> y \<or> y + 16 \<le> x"
        by (auto dest: app)
      show "distinct (map (\<lambda>p. p + 8) full)" using pages_okD(2)[OF P] by (simp add: distinct_map inj_on_def)
      show "\<forall>x \<in> set ((q + 8) # um_fast_full s # map (\<lambda>p. p + 8) full). x < 2 ^ 64"
        using s1 Q(1,2)[of q] by (auto dest!: smallp)
    qed
    with r1 show ?thesis by (simp add: pt)
  qed
  then show "ring (page_take s q) (slot s 1) (map (\<lambda>p. p + 8) cur')"
    "ring (page_take s q) (um_fast_full s) (map (\<lambda>p. p + 8) full')" by simp_all
qed

end
