(* ===== verification/Um_Fast.thy ===== *)
theory Um_Fast
  imports Um_Pages
begin

text \<open>
  The allocation of a 32-byte chunk as a whole: what \<^verbatim>\<open>fast_allocate\<close> and
  \<^verbatim>\<open>fast_bin_reserve\<close> do to the invariant, and which bytes they leave alone.
\<close>

section \<open>Taking a chunk of the current page\<close>

lemma chunk_page_apart:
  assumes "sizes_ok us" "(p, u, k) \<in> set (starts lo us)" "q \<in> page_set lo us" "p \<noteq> q"
  shows "p + u \<le> q \<or> q + 4144 \<le> p"
proof -
  obtain v where v: "(q, v, True) \<in> set (starts lo us)" using assms(3) by (auto simp: page_set_def)
  have "4144 \<le> v" using assms(1) starts_bounds[OF v] by (auto simp: sizes_ok_def)
  with starts_disjoint[OF assms(2) v] assms(4) show ?thesis by auto
qed

text \<open>What an allocation from a page leaves alone: everything but the page records.\<close>

definition pages_frame :: "memory \<Rightarrow> memory \<Rightarrow> um \<Rightarrow> nat \<Rightarrow> chunks \<Rightarrow> nat \<Rightarrow> nat \<Rightarrow> bool" where
  "pages_frame m m' s lo us q i \<longleftrightarrow>
     (\<forall>a b. (b \<le> slot s 1 \<or> slot s 1 + 16 \<le> a) \<and> (b \<le> um_fast_full s \<or> um_fast_full s + 16 \<le> a) \<and>
        (\<forall>p \<in> page_set lo us. b \<le> p + 8 \<or> p + 48 \<le> a) \<and> (b \<le> q + 48 + 32 * i \<or> q + 56 + 32 * i \<le> a) \<longrightarrow>
        agree m m' a b)"

lemma pages_step:
  assumes inv: "um_inv s lo us f [q] full" and np: "next_pages s q full = (cur', full')"
    and i: "i \<in> page_free (um_mem s) q" "page_free m4 q = page_free (um_mem s) q - {i}"
    and count: "load64 m4 (q + 24) = of_nat (card (page_free (um_mem s) q) - 1)"
    and rings: "ring m4 (slot s 1) (map (\<lambda>p. p + 8) cur')" "ring m4 (um_fast_full s) (map (\<lambda>p. p + 8) full')"
    and others: "\<And>p. p \<in> set full \<Longrightarrow> page_free m4 p = page_free (um_mem s) p"
    and frame: "pages_frame (um_mem s) m4 s lo us q i"
  shows "um_inv (s\<lparr>um_mem := m4\<rparr>) lo us f cur' full'"
proof -
  note I = um_inv_free[OF inv]
  note B = used_ok_bounds[OF I(5)] slot_bounds[OF I(5)]
  have P: "pages_ok s lo us [q] full" and sz: "sizes_ok us" using I(5) by (simp_all add: used_ok_def)
  have ps: "page_set lo us = set (q # full)" using pages_okD(3)[OF P] by simp
  let ?s = "s\<lparr>um_mem := m4\<rparr>"
  have i128: "i < 128" using i(1) by (simp add: page_free_def)
  have pb: "lo \<le> p" "p + 4144 \<le> lo + extent us" if "p \<in> page_set lo us" for p
    using page_bounds[OF inv, of p] that by (auto simp: ps)
  have fr: "agree (um_mem s) m4 a b" if "b \<le> slot s 1 \<or> slot s 1 + 16 \<le> a"
      "b \<le> um_fast_full s \<or> um_fast_full s + 16 \<le> a"
      "\<forall>p \<in> page_set lo us. b \<le> p + 8 \<or> p + 48 \<le> a" "b \<le> q + 48 + 32 * i \<or> q + 56 + 32 * i \<le> a" for a b
    using frame that unfolding pages_frame_def by blast
  have "hdrs m4 HEAD lo us"
  proof (rule hdrs_cong)
    show "hdrs (um_mem s) HEAD lo us" using I(5) by (simp add: used_ok_def)
    have "agree (um_mem s) m4 p (p + 8)" if p: "(p, u, k) \<in> set (starts lo us)" for p u k
    proof (rule fr)
      have lop: "lo \<le> p" "8 \<le> u" using starts_bounds[OF p] sz by (auto simp: sizes_ok_def)
      have apart: "p + 8 \<le> r \<or> r + 4144 \<le> p" if "r \<in> page_set lo us" "p \<noteq> r" for r
        using chunk_page_apart[OF sz p that] lop(2) by auto
      show "p + 8 \<le> slot s 1 \<or> slot s 1 + 16 \<le> p" "p + 8 \<le> um_fast_full s \<or> um_fast_full s + 16 \<le> p"
        using lop(1) B(2) B(6)[of 1] by auto
      show "\<forall>r \<in> page_set lo us. p + 8 \<le> r + 8 \<or> r + 48 \<le> p" using apart by fastforce
      show "p + 8 \<le> q + 48 + 32 * i \<or> q + 56 + 32 * i \<le> p"
        using apart[of q] i128 ps by (cases "p = q") auto
    qed
    then show "\<forall>(p, u, k) \<in> set (starts lo us). agree (um_mem s) m4 p (p + 8)" by auto
  qed
  moreover have "pages_ok ?s lo us cur' full'"
  proof -
    let ?c = "card (page_free (um_mem s) q)"
    have card: "card (page_free m4 q) = ?c - 1" using i by (simp add: card_Diff_singleton)
    have ring': "ring (um_mem ?s) (slot ?s 1) (map (\<lambda>p. p + 8) cur')"
      "ring (um_mem ?s) (um_fast_full ?s) (map (\<lambda>p. p + 8) full')" using rings by (simp_all add: slot_def)
    have full: "page_free m4 p = {}" if "p \<in> set full" for p using others[OF that] pages_okD(7)[OF P that] by simp
    show ?thesis
    proof (cases "?c = 1")
      case True
      then have "page_free m4 q = {}" using card by simp
      moreover have c: "cur' = []" "full' = q # full" using np True by (simp_all add: next_pages_def)
      ultimately show ?thesis
        using full ring' ps pages_okD(2)[OF P] unfolding pages_ok_def c by simp
    next
      case False
      moreover have "0 < ?c" using i(1) page_free_finite by (simp only: card_gt_0_iff) blast
      ultimately have "card (page_free m4 q) \<noteq> 0" using card by linarith
      then have "page_free m4 q \<noteq> {}" by auto
      moreover have "page_ok m4 q" using count card by (simp add: page_ok_def)
      moreover have c: "cur' = [q]" "full' = full" using np False by (simp_all add: next_pages_def)
      ultimately show ?thesis
        using full ring' ps pages_okD(2)[OF P] unfolding pages_ok_def c by simp
    qed
  qed
  ultimately have "used_ok ?s lo us cur' full'"
    using sz I(5) by (simp add: used_ok_def globals_ok_def)
  moreover have "free_ok ?s lo us f"
  proof (rule free_ok_agree[OF I(6)])
    have "b \<le> p + 8 \<or> p + 48 \<le> lo + extent us" if "p \<in> page_set lo us" for p b using pb[OF that] by auto
    then show "agree (um_mem s) (um_mem ?s) (lo + extent us) (um_brk s)"
      using B(2) B(6)[of 1] pb[of q] ps i128 by (simp, intro fr) auto
    fix j :: nat assume j: "j < 64" "j \<noteq> 1"
    have "agree (um_mem s) m4 (slot s j) (slot s j + 16)"
    proof (rule fr)
      show "slot s j + 16 \<le> slot s 1 \<or> slot s 1 + 16 \<le> slot s j" using slot_sep[OF j(2)] by auto
      show "slot s j + 16 \<le> um_fast_full s \<or> um_fast_full s + 16 \<le> slot s j"
        using B(4) j by (auto simp: slot_def)
      show "\<forall>p \<in> page_set lo us. slot s j + 16 \<le> p + 8 \<or> p + 48 \<le> slot s j"
        using B(6)[OF j(1)] pb by fastforce
      show "slot s j + 16 \<le> q + 48 + 32 * i \<or> q + 56 + 32 * i \<le> slot s j"
        using B(6)[OF j(1)] pb[of q] ps by simp
    qed
    then show "agree (um_mem s) (um_mem ?s) (slot s j) (slot s j + 16)" by simp
  qed simp_all
  ultimately show ?thesis by (simp add: um_inv_def)
qed

lemma fast_allocate_inv:
  assumes inv: "um_inv s lo us f [q] full"
  obtains i s' cur' full' where "fast_allocate s = Inr (q + 56 + 32 * i, s')"
    "i \<in> page_free (um_mem s) q" "same_env s s'" "um_inv s' lo us f cur' full'"
    "page_free (um_mem s') q = page_free (um_mem s) q - {i}"
    "\<And>p. p \<in> page_set lo us \<Longrightarrow> p \<noteq> q \<Longrightarrow> page_free (um_mem s') p = page_free (um_mem s) p"
    "pages_frame (um_mem s) (um_mem s') s lo us q i" "load32 (um_mem s') (q + 52 + 32 * i) = 35"
proof -
  note I = um_inv_free[OF inv]
  note B = used_ok_bounds[OF I(5)] slot_bounds[OF I(5), of 1]
  have P: "pages_ok s lo us [q] full" and sz: "sizes_ok us" using I(5) by (simp_all add: used_ok_def)
  have ps: "page_set lo us = set (q # full)" using pages_okD(3)[OF P] by simp
  note PB = page_bounds[OF inv, simplified]
  obtain cur' full' where np: "next_pages s q full = (cur', full')" by fastforce
  define m where "m = um_mem s"
  define m2 where "m2 = page_take s q"
  define t where "t = s\<lparr>um_mem := m2\<rparr>"
  have q: "lo \<le> q" "q + 4144 \<le> lo + extent us" using PB[of q] by auto
  have qf: "page_free m2 q = page_free m q"
    unfolding m2_def m_def
  proof (intro page_free_bits page_take_agree[OF inv])
    have "p + 4144 \<le> q \<or> q + 4144 \<le> p" if "p \<in> set full" for p
      using page_nodes_apart[OF inv, of p q] pages_okD(2)[OF P] that by auto
    then show "\<forall>p \<in> set full. q + 48 \<le> p + 8 \<or> p + 16 \<le> q + 32" by fastforce
  qed (use q B in auto)
  obtain i m3 where f: "fast_index (q + 24) t = Inr (i, t\<lparr>um_mem := m3\<rparr>)" "i \<in> page_free m q"
    "page_free m3 q = page_free m q - {i}" "\<And>a b. b \<le> q + 32 \<or> q + 48 \<le> a \<Longrightarrow> agree m2 m3 a b"
    using fast_index_run[of q t] q I(7) cur_head(3)[OF inv] qf by (auto simp: t_def m_def)
  have i: "i < 128" using f(2) by (simp add: page_free_def)
  define n where "n = q + 48 + 32 * i"
  have n: "q + 48 \<le> n" "n + 8 \<le> q + 4144" using i by (simp_all add: n_def)
  define m4 where "m4 = store32 (store32 m3 n (of_nat i)) (n + 4) (32 OR 3)"
  define s' where "s' = s\<lparr>um_mem := m4\<rparr>"
  have run: "fast_allocate s = Inr (q + 56 + 32 * i, s')"
  proof -
    have w: "w64 (q + 48 + i * 32) = n" "pack_data n = q + 56 + 32 * i" "(32 :: 32 word) AND 7 = 0"
      using n q I(8) by (simp_all add: n_def)
    show ?thesis
      unfolding fast_allocate_steps[OF inv]
      by (rule bnd_eq, rule f(1)[unfolded t_def m2_def])
        (use n q I(7) in \<open>simp add: w Let_def run_simps s'_def m4_def\<close>)
  qed
  have ag: "agree m m4 a b" if "b \<le> q + 8 \<or> q + 48 \<le> a" "b \<le> slot s 1 \<or> slot s 1 + 16 \<le> a"
    "b \<le> um_fast_full s \<or> um_fast_full s + 16 \<le> a" "\<forall>p \<in> set full. b \<le> p + 8 \<or> p + 16 \<le> a"
    "b \<le> n \<or> n + 8 \<le> a" for a b
  proof -
    have "agree m m2 a b" unfolding m_def m2_def using that by (intro page_take_agree[OF inv]) auto
    moreover have "agree m2 m3 a b" using that by (intro f(4)) auto
    moreover have "agree m3 m4 a b" using that by (auto simp: m4_def mem_simps)
    ultimately show ?thesis by (simp add: agree_def)
  qed
  have ag2: "agree m2 m4 a b" if "b \<le> q + 32 \<or> q + 48 \<le> a" "b \<le> n \<or> n + 8 \<le> a" for a b
  proof -
    have "agree m2 m3 a b" using that by (intro f(4)) auto
    moreover have "agree m3 m4 a b" using that by (auto simp: m4_def mem_simps)
    ultimately show ?thesis by (simp add: agree_def)
  qed
  have fr4: "page_free m4 q = page_free m q - {i}"
    using page_free_bits[of m3 m4 q] n f(3) by (simp add: m4_def mem_simps)
  have p4: "page_free m4 p = page_free m p" if "p \<in> page_set lo us" "p \<noteq> q" for p
  proof (rule page_free_bits, rule ag)
    have "p + 4144 \<le> q \<or> q + 4144 \<le> p" using pages_apart[OF sz that(1) _ that(2)] ps by simp
    then show "p + 48 \<le> q + 8 \<or> q + 48 \<le> p + 32" "p + 48 \<le> n \<or> n + 8 \<le> p + 32" using n by auto
    have "r = p \<or> p + 4144 \<le> r \<or> r + 4144 \<le> p" if "r \<in> set full" for r
      using pages_apart[OF sz \<open>p \<in> page_set lo us\<close>, of r] that ps by auto
    then show "\<forall>r \<in> set full. p + 48 \<le> r + 8 \<or> r + 16 \<le> p + 32" by fastforce
    have "lo \<le> p" using page_bounds(1)[OF inv, of p] that(1) ps by simp
    then show "p + 48 \<le> slot s 1 \<or> slot s 1 + 16 \<le> p + 32" "p + 48 \<le> um_fast_full s \<or> um_fast_full s + 16 \<le> p + 32"
      using B by auto
  qed
  have fra: "pages_frame m m4 s lo us q i"
    unfolding pages_frame_def
  proof (intro allI impI, elim conjE)
    fix a b
    assume pm: "\<forall>p \<in> page_set lo us. b \<le> p + 8 \<or> p + 48 \<le> a" and "b \<le> slot s 1 \<or> slot s 1 + 16 \<le> a"
      "b \<le> um_fast_full s \<or> um_fast_full s + 16 \<le> a" "b \<le> q + 48 + 32 * i \<or> q + 56 + 32 * i \<le> a"
    moreover have "b \<le> q + 8 \<or> q + 48 \<le> a" using pm ps by simp
    moreover have "b \<le> p + 8 \<or> p + 16 \<le> a" if "p \<in> set full" for p using pm ps that by force
    ultimately show "agree m m4 a b" by (intro ag) (auto simp: n_def)
  qed
  note R = page_take_rings[OF inv np, folded m2_def]
  have low: "agree m2 m4 (slot s 1) (slot s 1 + 16)" "agree m2 m4 (um_fast_full s) (um_fast_full s + 16)"
    using q B n by (auto intro!: ag2)
  have nodes: "agree m2 m4 (p + 8) (p + 24)" if "p \<in> page_set lo us" for p
    using pages_apart[OF sz that, of q] ps n by (cases "p = q") (auto intro!: ag2)
  have sub: "set cur' \<subseteq> page_set lo us" "set full' \<subseteq> page_set lo us"
    unfolding ps using np by (auto simp: next_pages_def split: if_splits)
  have inv': "um_inv s' lo us f cur' full'"
    unfolding s'_def
  proof (rule pages_step[OF inv np f(2)[unfolded m_def] fr4[unfolded m_def] _ _ _ _ fra[unfolded m_def]])
    show "load64 m4 (q + 24) = of_nat (card (page_free (um_mem s) q) - 1)"
      using page_take_count[OF inv, folded m2_def] agree_load(2)[OF ag2[of "q + 32" "q + 24"], of "q + 24"] n by simp
    have nodes': "\<forall>n \<in> set (map (\<lambda>p. p + 8) ns). agree m2 m4 n (n + 16)" if "set ns \<subseteq> page_set lo us" for ns
      using nodes that by (auto simp del: One_nat_def)
    show "ring m4 (slot s 1) (map (\<lambda>p. p + 8) cur')" by (rule ring_agree[OF R(1) low(1) nodes'[OF sub(1)]])
    show "ring m4 (um_fast_full s) (map (\<lambda>p. p + 8) full')" by (rule ring_agree[OF R(2) low(2) nodes'[OF sub(2)]])
    show "page_free m4 p = page_free (um_mem s) p" if "p \<in> set full" for p
      using p4[of p] that ps pages_okD(2)[OF P] by (auto simp: m_def)
  qed
  have "load32 m4 (n + 4) = 32 OR 3" unfolding m4_def by (rule load32_store32)
  moreover have "n + 4 = q + 52 + 32 * i" by (simp add: n_def)
  ultimately have "load32 m4 (q + 52 + 32 * i) = 35" by simp
  with inv' show thesis using run f(2) fr4 p4 fra
    by (intro that[of i s' cur' full']) (simp_all add: s'_def m_def same_env_def)
qed

section \<open>Turning a large chunk into a page\<close>

definition page_init :: "memory \<Rightarrow> nat \<Rightarrow> nat \<Rightarrow> memory" where
  "page_init m h e = store64 (store64 (store64 (push_mem m h (e + 8)) (e + 24) 128) (e + 32) (- 1)) (e + 40) (- 1)"

lemma page_init_agree:
  assumes "ring m h []" "b \<le> h \<or> h + 16 \<le> a" "b \<le> e + 8 \<or> e + 48 \<le> a"
  shows "agree m (page_init m h e) a b"
proof -
  have "agree m (push_mem m h (e + 8)) a b"
    using assms by (intro agree_push) auto
  then show ?thesis using assms(3) by (auto simp: page_init_def mem_simps)
qed

lemma page_init_page:
  "page_free (page_init m h e) e = {..<128}" "page_ok (page_init m h e) e"
proof -
  show f: "page_free (page_init m h e) e = {..<128}"
    by (auto simp: page_free_def page_bit_def page_init_def mem_simps)
  show "page_ok (page_init m h e) e"
    unfolding page_ok_def f by (simp add: page_init_def mem_simps)
qed

lemma page_init_ring:
  assumes "ring m h []" "h + 16 \<le> e" "e + 8 < 2 ^ 64"
  shows "ring (page_init m h e) h [e + 8]"
proof -
  have "ring (push_mem m h (e + 8)) h [e + 8]"
    using assms by (intro ring_push[OF assms(1)]) auto
  then show ?thesis
    by (rule ring_agree) (use assms in \<open>auto simp: page_init_def mem_simps\<close>)
qed

lemma free_ok_flag:
  "free_ok s lo (us @ [(c, k)]) f = free_ok s lo (us @ [(c, k')]) f"
  by (simp add: free_ok_def)

lemma page_set_page: "page_set lo (us @ [(c, True)]) = insert (lo + extent us) (page_set lo us)"
  by (auto simp: page_set_def starts_append)

lemma reserve_page:
  assumes inv: "um_inv s lo (us @ [(c, False)]) f [] full" and c: "4144 \<le> c"
  defines "s' \<equiv> s\<lparr>um_mem := page_init (um_mem s) (slot s 1) (lo + extent us)\<rparr>"
  shows "um_inv s' lo (us @ [(c, True)]) f [lo + extent us] full"
proof -
  note I = um_inv_free[OF inv]
  note B = used_ok_bounds[OF I(5)] slot_bounds[OF I(5)]
  have P: "pages_ok s lo (us @ [(c, False)]) [] full" and sz: "sizes_ok (us @ [(c, False)])"
    and hd: "hdrs (um_mem s) HEAD lo (us @ [(c, False)])" using I(5) by (simp_all add: used_ok_def)
  define e where "e = lo + extent us"
  define h where "h = slot s 1"
  define m where "m = um_mem s"
  let ?m = "page_init m h e"
  have s': "s' = s\<lparr>um_mem := ?m\<rparr>" by (simp add: s'_def m_def h_def e_def)
  have r: "ring m h []" using pages_okD(4)[OF P] by (simp add: m_def h_def)
  have h: "h + 16 \<le> lo" "lo \<le> e" using B(6)[of 1] by (simp_all add: h_def e_def)
  note ag = page_init_agree[OF r, of _ _ e]
  have ps: "page_set lo us = set full" using pages_okD(3)[OF P] by (auto simp: page_set_snoc)
  have pe: "p + 4144 \<le> e" "lo \<le> p" if p: "p \<in> set full" for p
  proof -
    obtain u where u: "(p, u, True) \<in> set (starts lo us)" using p unfolding ps[symmetric] by (auto simp: page_set_def)
    then show "p + 4144 \<le> e" "lo \<le> p" using starts_bounds[OF u] sz by (auto simp: e_def sizes_ok_def)
  qed
  have low: "agree m ?m lo (e + 8)" using h by (intro ag) auto
  have "hdrs m HEAD lo us" "load32 m e = prev_tag HEAD us" "load32 m (e + 4) = of_nat c OR 3"
    using hd by (simp_all add: hdrs_append e_def m_def)
  moreover have "load32 ?m e = load32 m e" "load32 ?m (e + 4) = load32 m (e + 4)"
    using h by (auto intro!: agree_load(1)[OF low])
  moreover have "agree m ?m lo (lo + extent us)" by (rule agree_sub[OF low]) (simp_all add: e_def)
  moreover have "\<forall>(u, k) \<in> set us. 8 \<le> u" using sz by (auto simp: sizes_ok_def)
  ultimately have "hdrs ?m HEAD lo (us @ [(c, True)])"
    using hdrs_agree[of m ?m lo us HEAD] by (simp add: hdrs_append flip: e_def)
  moreover have "ring ?m (um_fast_full s) (map (\<lambda>q. q + 8) full)"
  proof (rule ring_agree)
    show "ring m (um_fast_full s) (map (\<lambda>q. q + 8) full)" using pages_okD(5)[OF P] by (simp add: m_def)
    show "agree m ?m (um_fast_full s) (um_fast_full s + 16)"
      using h B(1,2,4) by (intro ag) (auto simp: h_def slot_def)
    have "agree m ?m (p + 8) (p + 24)" if "p \<in> set full" for p using pe[OF that] h by (intro ag) auto
    then show "\<forall>n \<in> set (map (\<lambda>q. q + 8) full). agree m ?m n (n + 16)" by auto
  qed
  moreover have "page_free ?m p = {}" if "p \<in> set full" for p
    using page_free_bits[of m ?m p] ag[of "p + 48" "p + 32"] pe[OF that] h pages_okD(7)[OF P that] by (simp add: m_def)
  moreover have "e \<notin> set full" using pe by fastforce
  moreover have "ring ?m h [e + 8]" using page_init_ring[OF r] h I(8) by (simp add: e_def)
  moreover have "sizes_ok (us @ [(c, True)])" using sz c by (auto simp: sizes_ok_def)
  moreover have "0 \<in> page_free ?m e" by (simp add: page_init_page)
  then have "page_free ?m e \<noteq> {}" by blast
  moreover have "distinct full" using pages_okD(2)[OF P] by simp
  ultimately have "used_ok s' lo (us @ [(c, True)]) [e] full"
    using I(5) page_init_page(2)[of m h e] unfolding used_ok_def pages_ok_def s'
    by (simp add: page_set_page globals_ok_def ps slot_def h_def del: chain.simps flip: e_def)
  moreover have "free_ok s lo (us @ [(c, True)]) f" using I(6) free_ok_flag by blast
  then have "free_ok s' lo (us @ [(c, True)]) f"
  proof (rule free_ok_agree)
    show "agree (um_mem s) (um_mem s') (lo + extent (us @ [(c, True)])) (um_brk s)"
      using ag[of "um_brk s" "e + c"] h c by (simp add: s' m_def e_def add.assoc)
    show "agree (um_mem s) (um_mem s') (slot s i) (slot s i + 16)" if "i < 64" "i \<noteq> 1" for i
      using ag[of "slot s i + 16" "slot s i"] slot_sep[OF that(2), of s] B(6)[OF that(1)] h
      by (simp add: s' m_def h_def)
  qed (simp_all add: s')
  ultimately show ?thesis by (simp add: um_inv_def e_def)
qed

lemma abs_request_shape:
  assumes r: "abs_request (us, f) sz = (us', f')" and sz: "8 dvd sz" "32 < sz" "8 dvd f"
  obtains c where "us' = us @ [(c, False)]" "sz \<le> c \<or> sz \<le> 512 \<and> sz = c + 8 \<and> f = c \<and> f' = 0"
proof -
  have carve: "\<exists>c. carve us g need = (us @ [(c, False)], h) \<and> need \<le> c" if "carve us g need = (vs, h)" "need \<le> g"
    for g need vs h using that by (auto simp: carve_def split: if_splits)
  have nxt: "\<exists>c. us' = us @ [(c, False)] \<and> need \<le> c"
    if "abs_next (us, f) (slot_index need) need = (us', f')" for need
  proof (cases "f \<noteq> 0 \<and> slot_index need < slot_index f")
    case True
    then have "need \<le> f" using slot_index_mono[of f need] by linarith
    with True that show ?thesis by (auto simp: abs_next_def carve_def split: if_splits)
  next
    case False
    with that pgup_bounds(1)[of need] show ?thesis by (auto simp: abs_next_def carve_def split: if_splits)
  qed
  show thesis
  proof (cases "sz \<le> 512")
    case True
    note N = tiny_need[OF sz(2) True sz(1)]
    show thesis
    proof (cases "f \<noteq> 0 \<and> slot_index f = slot_index sz")
      case hit: True
      then have u: "us' = us @ [(f, False)]" "f' = 0" using r True by (simp_all add: abs_request_def abs_alloc_def)
      have "f \<le> 512"
      proof (rule ccontr)
        assume "\<not> f \<le> 512"
        then have "slot_index 513 \<le> slot_index f" by (intro slot_index_mono) simp
        moreover have "slot_index 513 = 32" by (simp add: slot_index_def)
        ultimately show False using hit slot_index_regions(1)[OF True] by linarith
      qed
      then have "(f - 1) div 16 = (sz - 1) div 16" using hit True by (simp add: slot_index_tiny)
      moreover have "16 * ((f - 1) div 16) \<le> f - 1" by (rule times_div_less_eq_dividend)
      moreover have "sz - 1 < 16 * ((sz - 1) div 16) + 16"
        using mod_less_divisor[of 16 "sz - 1"] mult_div_mod_eq[of 16 "sz - 1"] by linarith
      moreover obtain a b where "f = 8 * a" "sz = 8 * b" using sz by (auto elim!: dvdE)
      ultimately obtain k where "16 * k \<le> 8 * a - 1" "8 * b - 1 < 16 * k + 16" "a \<noteq> 0" using hit by auto
      then have "2 * k < a" "b < 2 * k + 3" by linarith+
      then have "sz \<le> f \<or> sz = f + 8" unfolding \<open>f = 8 * a\<close> \<open>sz = 8 * b\<close> by auto
      with u True show thesis by (intro that) auto
    next
      case False
      then have "abs_next (us, f) (slot_index (tiny_need sz)) (tiny_need sz) = (us', f')"
        using r True N(5) by (auto simp: abs_request_def abs_alloc_def)
      from nxt[OF this] N(1) show thesis by (auto intro: that)
    qed
  next
    case False
    then show thesis
      using r nxt[of sz] by (auto simp: abs_request_def abs_alloc_def split: if_splits intro: that)
  qed
qed

lemma fast_bin_reserve_inv:
  assumes inv: "um_inv s lo us f [] full" and room: "um_brk s + growth f 4144 \<le> um_limit s"
  obtains s' c f' where "fast_bin_reserve s = Inr ((), s')" "4144 \<le> c"
    "um_inv s' lo (us @ [(c, True)]) f' [lo + extent us] full" "same_env s s'"
    "agree (um_mem s) (um_mem s') lo (lo + extent us)" "page_free (um_mem s') (lo + extent us) = {..<128}"
    "abs_request (us, f) 4144 = (us @ [(c, False)], f')"
proof -
  note I = um_inv_free[OF inv]
  have f8: "8 dvd f" using free_ok_chunkD(1)[OF I(6)] by (cases "f = 0") auto
  obtain s1 us1 f1 where m: "malloc_huge 4144 s = Inr (lo + extent us + 8, s1)"
    "abs_request (us, f) 4144 = (us1, f1)" "um_inv s1 lo us1 f1 [] full" "keeps s s1 lo (lo + extent us)"
    using malloc_large_inv[OF inv, of 4144] room by auto
  obtain c where c: "us1 = us @ [(c, False)]" "4144 \<le> c"
    using abs_request_shape[OF m(2) _ _ f8] by auto
  note J = um_inv_free[OF m(3)[unfolded c(1)]]
  define e where "e = lo + extent us"
  define h where "h = slot s1 1"
  have env: "same_env s s1" "slot s 1 = h"
    using m(4) by (simp_all add: keeps_def same_env_def h_def slot_def)
  have P: "pages_ok s1 lo (us @ [(c, False)]) [] full" using J(5) by (simp add: used_ok_def)
  have r: "ring (um_mem s1) h []" using pages_okD(4)[OF P] by (simp add: h_def)
  have hb: "h + 16 \<le> lo" "lo \<le> e" "e + 4144 \<le> um_brk s1" "e + 4144 < 2 ^ 64"
    using slot_bounds(2)[OF J(5), of 1] J(7,8) c(2) by (simp_all add: e_def h_def)
  let ?s = "s1\<lparr>um_mem := page_init (um_mem s1) h e\<rparr>"
  have h0: "loadp (um_mem s) (h + 8) = h" "h + 16 \<le> um_brk s"
    using pages_okD(4)[of s lo us "[]" full] I(5,7) env(2) hb(1) by (simp_all add: used_ok_def)
  have run: "fast_bin_reserve s = Inr ((), ?s)"
  proof -
    have 1: "slot_ref 1 s = Inr (h, s)" "list_empty h s = Inr (True, s)"
      using env(2) h0 by (simp_all add: slot_ref_run slot_def list_empty_def run_simps)
    show ?thesis
      unfolding fast_bin_reserve_def
      apply (rule bnd_eq, rule 1(1), rule bnd_eq, rule 1(2), simp only: not_True_eq_False if_False)
      apply (rule bnd_eq, simp, rule m(1)[folded e_def])
      using hb r by (simp add: run_simps page_init_def)
  qed
  have ag: "agree (um_mem s1) (page_init (um_mem s1) h e) lo e"
    using hb by (intro page_init_agree[OF r]) auto
  show thesis
  proof (rule that[OF run c(2)])
    show "um_inv ?s lo (us @ [(c, True)]) f1 [lo + extent us] full"
      using reserve_page[OF m(3)[unfolded c(1)] c(2)] by (simp add: h_def e_def)
    show "same_env s ?s" using env by (simp add: same_env_def)
    show "agree (um_mem s) (um_mem ?s) lo (lo + extent us)"
      using ag m(4) by (simp add: keeps_def agree_def e_def)
    show "page_free (um_mem ?s) (lo + extent us) = {..<128}" by (simp add: page_init_page e_def)
    show "abs_request (us, f) 4144 = (us @ [(c, False)], f1)" using m(2) c(1) by simp
  qed
qed

lemma list_empty_slot1: "um_inv s lo us f [] full \<Longrightarrow> slot_ref 1 s = Inr (slot s 1, s) \<and> list_empty (slot s 1) s = Inr (True, s)"
proof -
  assume inv: "um_inv s lo us f [] full"
  note I = um_inv_free[OF inv]
  have "loadp (um_mem s) (slot s 1 + 8) = slot s 1" using pages_okD(4)[of s lo us "[]" full] I(5) by (simp add: used_ok_def)
  moreover have "slot s 1 + 16 \<le> um_brk s" using slot_bounds(2)[OF I(5), of 1] I(7) by simp
  ultimately show ?thesis by (simp add: slot_ref_run slot_def list_empty_def run_simps)
qed

lemma malloc_fast_refused:
  assumes inv: "um_inv s lo us f [] full" and no: "um_limit s < um_brk s + growth f 4144" and m: "malloc_fast s = Inr (p, s')"
  shows "um_brk s' < um_base s'"
proof -
  obtain t where t: "malloc_huge 4144 s = Inr (0, t)" "um_brk t < um_base t"
    using malloc_large_refused[OF inv _ _ _ no] by auto
  note e = list_empty_slot1[OF inv]
  obtain k where k: "steady k" "fast_bin_reserve s = k t"
  proof
    let ?map = "w64 (pack_data (list_pack 0) + 16)"
    let ?k = "sq (list_push (slot s 1) 0) (sq (st64 ?map (64 + 64)) (sq (st64 (?map + 8) (- 1)) (st64 (?map + 16) (- 1))))"
    show "steady ?k" by (intro steady_rules)
    show "fast_bin_reserve s = ?k t"
      unfolding fast_bin_reserve_def
      by (rule bnd_eq, rule e[THEN conjunct1], rule bnd_eq, rule e[THEN conjunct2], simp only: not_True_eq_False if_False, rule bnd_eq, simp, rule t(1))
        (simp only: Let_def)
  qed
  obtain u where "k t = Inr ((), u)" "fast_allocate u = Inr (p, s')"
    using m unfolding malloc_fast_def sq_def by (elim bnd_InrE) (auto simp: k(2))
  then show ?thesis using steadyD[OF k(1)] steadyD[OF steady_fast(2)] t(2) by metis
qed

text \<open>The abstract allocator on a request of at most 24 bytes: nothing, or a new page.\<close>

definition abs_fast :: "chunks \<times> nat \<Rightarrow> bool \<Rightarrow> chunks \<times> nat" where
  "abs_fast h page = (if page then h else
     case abs_request h 4144 of (us, f) \<Rightarrow> (butlast us @ [(fst (last us), True)], f))"

end
