(* ===== verification/Um_Init.thy ===== *)
theory Um_Init
  imports Um_Fast
begin

text \<open>
  \<^verbatim>\<open>mm_init\<close>: the empty rings of the slots, the first page of the heap, and the
  invariant they establish.
\<close>

lemma list_init_run [run_simps]:
  "h + 16 \<le> um_brk s \<Longrightarrow> list_init h s =
     Inr ((), s\<lparr>um_mem := store64 (store64 (um_mem s) h (of_nat h)) (h + 8) (of_nat h)\<rparr>)"
  by (simp add: list_init_def run_simps)

lemma init_slots_run:
  assumes "k \<le> 64" "um_slots s + 1024 \<le> um_brk s" "um_slots s + 1024 < 2 ^ 64"
  obtains m' where "init_slots k s = Inr ((), s\<lparr>um_mem := m'\<rparr>)"
    "\<And>i. i < k \<Longrightarrow> ring m' (slot s i) []"
proof -
  have "\<exists>m'. init_slots k s = Inr ((), s\<lparr>um_mem := m'\<rparr>) \<and> (\<forall>i < k. ring m' (slot s i) [])"
    using assms(1)
  proof (induction k)
    case 0
    then show ?case by (auto simp: run_simps intro!: exI[of _ "um_mem s"])
  next
    case (Suc k)
    then obtain m' where m': "init_slots k s = Inr ((), s\<lparr>um_mem := m'\<rparr>)" "\<forall>i < k. ring m' (slot s i) []"
      by auto
    let ?h = "slot s k"
    let ?m = "store64 (store64 m' ?h (of_nat ?h)) (?h + 8) (of_nat ?h)"
    have h: "um_slots s + 16 * k = ?h" "?h + 16 \<le> um_brk s" "?h < 2 ^ 64"
      using assms Suc.prems by (simp_all add: slot_def)
    have "init_slots (Suc k) s = Inr ((), s\<lparr>um_mem := ?m\<rparr>)"
      using m'(1) Suc.prems h by (simp add: run_simps)
    moreover have "ring ?m (slot s i) []" if "i < Suc k" for i
    proof (cases "i = k")
      case True
      then show ?thesis using h(3) by (simp add: mem_simps)
    next
      case False
      then have "slot s i + 16 \<le> ?h" using that by (simp add: slot_def)
      then show ?thesis using m'(2) that False by (simp add: mem_simps)
    qed
    ultimately show ?case by blast
  qed
  then show thesis using that by blast
qed

lemma mm_list_init_run:
  assumes g: "um_slots s + 1024 \<le> um_brk s" "um_fast_full s + 16 \<le> um_brk s" "um_brk s < 2 ^ 64"
    and sep: "um_slots s + 1024 \<le> um_fast_full s \<or> um_fast_full s + 16 \<le> um_slots s"
  obtains m' where "mm_list_init s = Inr ((), s\<lparr>um_mem := m'\<rparr>)"
    "\<And>i. i < 64 \<Longrightarrow> ring m' (slot s i) []" "ring m' (um_fast_full s) []"
proof -
  obtain m where m: "init_slots 64 s = Inr ((), s\<lparr>um_mem := m\<rparr>)" "\<And>i. i < 64 \<Longrightarrow> ring m (slot s i) []"
    using init_slots_run[of 64 s] g by auto
  let ?f = "um_fast_full s"
  let ?m = "store64 (store64 m ?f (of_nat ?f)) (?f + 8) (of_nat ?f)"
  show thesis
  proof (rule that[of ?m])
    show "mm_list_init s = Inr ((), s\<lparr>um_mem := ?m\<rparr>)"
      using m(1) g by (simp add: mm_list_init_def run_simps)
    show "ring ?m ?f []" using g by (simp add: mem_simps)
    fix i :: nat assume i: "i < 64"
    then have "slot s i + 16 \<le> ?f \<or> ?f + 16 \<le> slot s i" using sep by (auto simp: slot_def)
    then have "agree m ?m (slot s i) (slot s i + 16)" by (auto simp: mem_simps)
    with m(2)[OF i] show "ring ?m (slot s i) []" by (rule ring_agree) simp
  qed
qed

section \<open>The first page\<close>

definition init_top :: "nat \<Rightarrow> nat" where
  "init_top heap = (if heap mod 4096 = 0 then heap + 4096 else heap + 4096 + (4096 - heap mod 4096))"

lemma init_top_bounds:
  "heap + 4096 \<le> init_top heap" "init_top heap < heap + 8192" "4096 dvd init_top heap"
proof -
  have r: "heap mod 4096 < 4096" by simp
  then show "heap + 4096 \<le> init_top heap" "init_top heap < heap + 8192" by (auto simp: init_top_def)
  show "4096 dvd init_top heap"
  proof (cases "heap mod 4096 = 0")
    case False
    have "heap = 4096 * (heap div 4096) + heap mod 4096" by simp
    moreover have "init_top heap = heap + 4096 + (4096 - heap mod 4096)" using False by (simp add: init_top_def)
    ultimately have "init_top heap = 4096 * (heap div 4096) + 8192" using r by linarith
    then show ?thesis by (simp add: dvd_add)
  qed (auto simp: init_top_def intro: dvd_add)
qed

lemma ALIGN_bounds:
  assumes "n < 2 ^ 63"
  shows "n \<le> ALIGN n" "ALIGN n < n + 8" "8 dvd ALIGN n"
proof -
  have e: "ALIGN n = n + 7 - (n + 7) mod 8" using assms by (simp add: ALIGN_def minus_mod_eq_div_mult)
  have "(n + 7) mod 8 \<le> 7" using mod_less_divisor[of 8 "n + 7"] by linarith
  then show "n \<le> ALIGN n" "ALIGN n < n + 8" unfolding e by linarith+
  show "8 dvd ALIGN n" by (simp add: ALIGN_def)
qed

lemma mm_align_init_inv:
  assumes g: "um_slots s + 1024 \<le> um_brk s" "um_fast_full s + 16 \<le> um_brk s"
    and sep: "um_slots s + 1024 \<le> um_fast_full s \<or> um_fast_full s + 16 \<le> um_slots s"
    and lim: "init_top (um_brk s) \<le> um_limit s" "um_limit s \<le> 2 ^ 38" and bm: "um_bitmap s = 0"
    and rings: "\<And>i. i < 64 \<Longrightarrow> ring (um_mem s) (slot s i) []" "ring (um_mem s) (um_fast_full s) []"
  defines "lo \<equiv> ALIGN (um_brk s)" and "tp \<equiv> init_top (um_brk s)"
  obtains s' where "mm_align_init s = Inr ((), s')" "um_inv s' lo [] (tp - lo - 8) [] []" "um_base s' = tp"
    "same_env s s'"
proof -
  have top: "um_brk s + 4096 \<le> um_limit s" "um_brk s < 2 ^ 38" using lim init_top_bounds(1)[of "um_brk s"] by simp_all
  have lo: "um_brk s \<le> lo" "lo < um_brk s + 8" "8 dvd lo" using ALIGN_bounds[of "um_brk s"] top by (simp_all add: lo_def)
  have tl: "tp \<le> um_limit s" using lim(1) by (simp add: tp_def)
  have tp: "um_brk s + 4096 \<le> tp" "tp < um_brk s + 8192" "8 dvd tp"
    using init_top_bounds[of "um_brk s"] dvd_trans[of 8 4096 tp] by (simp_all add: tp_def)
  define f where "f = tp - lo - 8"
  have f: "tp = lo + f + 8" "8 dvd f" "48 \<le> f" "f \<le> 65536"
    using lo tp by (auto simp: f_def intro!: dvd_diff_nat)
  define m where "m = store32 (store32 (store32 (store32 (um_mem s) lo HEAD) (lo + 4) (of_nat f OR 1))
     (lo + f) (of_nat f)) (lo + f + 4) 2"
  define s1 where "s1 = s\<lparr>um_brk := tp, um_base := tp, um_mem := m\<rparr>"
  have ag: "agree (um_mem s) m a b" if "b \<le> lo" for a b using that by (auto simp: m_def mem_simps)
  have sl: "slot s i + 16 \<le> lo" if "i < 64" for i using that g lo by (simp add: slot_def)
  have r: "ring m (slot s i) []" if "i < 64" for i
    using sl[OF that] by (intro ring_agree[OF rings(1)[OF that]]) (auto intro!: ag)
  have rf: "ring m (um_fast_full s) []"
    using g lo by (intro ring_agree[OF rings(2)]) (auto intro!: ag)
  have u: "used_ok s1 lo [] [] []"
    using r[of 1] rf g lo lim sep by (simp add: used_ok_def globals_ok_def sizes_ok_def pages_ok_def page_set_def s1_def slot_def)
  have "detached s1 lo [] f"
    using r f tp tl bm by (simp add: detached_def Let_def s1_def slot_def m_def mem_simps)
  then obtain s' where s': "free_chunk lo s1 = Inr ((), s')" "um_inv s' lo [] f [] []" "keeps s1 s' lo lo"
    using free_chunk_inv[OF u] by auto
  have "mm_align_init s = Inr ((), s')"
  proof -
    define t where "t = s\<lparr>um_brk := tp\<rparr>"
    have sb: "sbrk 4096 s = Inr (um_brk s, s\<lparr>um_brk := um_brk s + 4096\<rparr>)" using top by (simp add: sbrk_def)
    have sz: "(if um_brk s mod 4096 \<noteq> 0 then bnd (sbrk (4096 - um_brk s mod 4096)) (\<lambda>_. ret (4096 + (4096 - um_brk s mod 4096)))
        else ret 4096) (s\<lparr>um_brk := um_brk s + 4096\<rparr>) = Inr (tp - um_brk s, t)"
      using lim(1) mod_less_divisor[of 4096 "um_brk s"] by (cases "um_brk s mod 4096 = 0") (simp_all add: sbrk_def bnd_def ret_def t_def tp_def init_top_def)
    have a: "w64 (um_brk s + (tp - um_brk s)) = tp" "w64 (lo + 8) = lo + 8" "sub64 tp (lo + 8) = f"
      "list_pack (lo + 8) = lo" "list_pack tp = lo + f"
      using tp lo top f by simp_all
    have h: "(of_nat f :: 32 word) AND 7 = 0" using f(2) by (rule of_nat_and_7)
    show ?thesis
      unfolding mm_align_init_def Let_def
      apply (rule bnd_eq, rule sb)
      apply (rule bnd_eq, rule sz)
      unfolding lo_def[symmetric] a
      using s'(1) f h by (simp add: run_simps t_def HEAD_def TAIL_def s1_def m_def)
  qed
  moreover have "um_base s' = tp" using um_inv_free(6)[OF s'(2)] f(1) by (simp add: free_okD(1))
  moreover have "same_env s s'" using s'(3) by (simp add: keeps_def same_env_def s1_def)
  ultimately show thesis using s'(2) by (intro that[of s']) (simp_all add: f_def)
qed

lemma mm_init_inv:
  assumes g: "um_slots s + 1024 \<le> um_brk s" "um_fast_full s + 16 \<le> um_brk s"
    and sep: "um_slots s + 1024 \<le> um_fast_full s \<or> um_fast_full s + 16 \<le> um_slots s"
    and lim: "init_top (um_brk s) \<le> um_limit s" "um_limit s \<le> 2 ^ 38" and bm: "um_bitmap s = 0"
  obtains s' where "mm_init s = Inr (0, s')" "same_env s s'"
    "um_inv s' (ALIGN (um_brk s)) [] (init_top (um_brk s) - ALIGN (um_brk s) - 8) [] []"
proof -
  obtain m where m: "mm_list_init s = Inr ((), s\<lparr>um_mem := m\<rparr>)"
    "\<And>i. i < 64 \<Longrightarrow> ring m (slot s i) []" "ring m (um_fast_full s) []"
    using mm_list_init_run[OF g _ sep] lim init_top_bounds(1)[of "um_brk s"] by auto
  define t where "t = s\<lparr>um_mem := m\<rparr>"
  have "slot t i = slot s i" for i by (simp add: t_def slot_def)
  then obtain s' where s': "mm_align_init t = Inr ((), s')"
    "um_inv s' (ALIGN (um_brk s)) [] (init_top (um_brk s) - ALIGN (um_brk s) - 8) [] []"
    "um_base s' = init_top (um_brk s)" "same_env t s'"
    using mm_align_init_inv[of t] g sep lim bm m by (auto simp: t_def)
  have "um_base s' \<noteq> 0" using s'(3) init_top_bounds(1)[of "um_brk s"] by simp
  then have "mm_init s = Inr (0, s')"
    using m(1) s'(1) by (simp add: mm_init_def run_simps t_def)
  then show thesis using s'(2,4) by (intro that[of s']) (simp_all add: same_env_def t_def)
qed

text \<open>\<^verbatim>\<open>mm_init\<close> tests \<^verbatim>\<open>base\<close>, which it has just set to the top of the first page, also when the kernel has refused that page.\<close>

lemma mm_init_never_fails:
  assumes "um_brk s \<le> 2 ^ 38" "mm_init s = Inr (r, s')"
  shows "r = 0"
proof -
  have sb: "steady mm_list_init"
  proof -
    have "steady (init_slots n)" for n by (induction n) (auto simp: list_init_def intro!: steady_rules)
    then show ?thesis unfolding mm_list_init_def list_init_def by (intro steady_rules)
  qed
  obtain s1 s2 where s1: "mm_list_init s = Inr ((), s1)" "mm_align_init s1 = Inr ((), s2)" "r = (if um_base s2 = 0 then - 1 else 0)"
    using assms(2) unfolding mm_init_def sq_def by (elim bnd_InrE) (auto simp: run_simps)
  have b: "um_brk s1 \<le> 2 ^ 38" using steadyD[OF sb s1(1)] assms(1) by simp
  obtain heap t where h: "sbrk 4096 s1 = Inr (heap, t)" "heap = um_brk s1 \<or> heap = 2 ^ 64 - 1" 
    by (cases "um_brk s1 + 4096 \<le> um_limit s1") (auto simp: sbrk_def)
  obtain u where u: "(if heap mod 4096 \<noteq> 0 then bnd (sbrk (4096 - heap mod 4096)) (\<lambda>_. ret (4096 + (4096 - heap mod 4096))) else ret 4096) t =
      Inr (init_top heap - heap, u)"
    by (cases "heap mod 4096 \<noteq> 0"; cases "um_brk t + (4096 - heap mod 4096) \<le> um_limit t") (auto simp: sbrk_def bnd_def ret_def init_top_def)
  define size where "size = init_top heap - heap"
  have z: "mm_align_init s1 = (let top = w64 (heap + size); low = w64 (ALIGN heap + 8) in
     sq (upd (\<lambda>s. s\<lparr>um_base := top\<rparr>))
     (let size' = sub64 top low; pack = list_pack low in
     sq (pack_set_prev pack HEAD)
     (sq (pack_set_info pack (of_nat size') PREV_INUSE)
     (let next = list_pack top in
     sq (pack_set_prev next (of_nat size'))
     (sq (pack_set_info next TAIL THIS_INUSE)
     (free_chunk pack)))))) u"
    unfolding mm_align_init_def Let_def by (rule bnd_eq, rule h(1), rule bnd_eq, rule u[folded size_def], rule refl)
  have "um_base s2 = w64 (heap + size)"
  proof -
    let ?top = "w64 (heap + size)" let ?low = "w64 (ALIGN heap + 8)" let ?size' = "sub64 ?top ?low"
    let ?k = "sq (pack_set_prev (list_pack ?low) HEAD) (sq (pack_set_info (list_pack ?low) (of_nat ?size') PREV_INUSE)
      (sq (pack_set_prev (list_pack ?top) (of_nat ?size')) (sq (pack_set_info (list_pack ?top) TAIL THIS_INUSE) (free_chunk (list_pack ?low)))))"
    have "?k (u\<lparr>um_base := ?top\<rparr>) = Inr ((), s2)" using s1(2) unfolding z by (simp add: Let_def run_simps)
    moreover have "steady ?k" by (intro steady_rules)
    ultimately show ?thesis using steadyD by fastforce
  qed
  moreover have "w64 (heap + size) \<noteq> 0"
    using h(2)
  proof
    assume e: "heap = um_brk s1"
    then have "heap + size < 2 ^ 64" "4096 \<le> heap + size" using b init_top_bounds(1,2)[of heap] by (simp_all add: size_def)
    then show ?thesis by (simp only: w64_id)
  next
    assume "heap = 2 ^ 64 - 1"
    then show ?thesis by (simp add: size_def init_top_def w64_def)
  qed
  ultimately show ?thesis using s1(3) by simp
qed

end
