(* ===== verification/Um_Live.thy ===== *)
theory Um_Live
  imports Um_Init
begin

text \<open>
  What the allocator promises its client: the blocks it has handed out are aligned,
  lie inside the heap, do not overlap, and keep their contents across later calls;
  and what the client writes into its own blocks does not disturb the allocator.
\<close>

section \<open>The size of a request\<close>

lemma and_not_7: "(w :: 32 word) AND NOT 7 = push_bit 3 (drop_bit 3 w)"
  by (rule bit_word_eqI) (auto simp: bit_simps bit_7_iff)

lemma request_size_small:
  assumes "unat sz + 16 \<le> 2 ^ 32"
  shows "request_size sz = (unat sz + 7) div 8 * 8 + 8"
proof -
  have a: "unat (sz + 7) = unat sz + 7"
    using assms by (subst unat_add_lem[THEN iffD1]) simp_all
  have b: "unat ((sz + 7) AND NOT 7) = (unat sz + 7) div 8 * 8"
  proof -
    have "unat (drop_bit 3 (sz + 7)) = (unat sz + 7) div 8"
      unfolding unsigned_drop_bit_eq using assms by (simp add: a drop_bit_eq_div take_bit_nat_eq_self)
    moreover have "(unat sz + 7) div 8 * 8 < 2 ^ 32"
      using assms by (simp add: minus_mod_eq_div_mult[symmetric])
    ultimately show ?thesis
      unfolding and_not_7 unsigned_push_bit_eq by (simp add: push_bit_eq_mult take_bit_nat_eq_self)
  qed
  have "(unat sz + 7) div 8 * 8 + 8 < 2 ^ 32"
    using assms by (simp add: minus_mod_eq_div_mult[symmetric])
  then show ?thesis
    unfolding request_size_def using b by (subst unat_add_lem[THEN iffD1]) simp_all
qed

lemma request_size_bounds:
  assumes "unat sz + 16 \<le> 2 ^ 32"
  shows "unat sz + 8 \<le> request_size sz" "request_size sz < unat sz + 16" "8 dvd request_size sz"
proof -
  have "(unat sz + 7) div 8 * 8 = unat sz + 7 - (unat sz + 7) mod 8" by (simp add: minus_mod_eq_div_mult)
  moreover have "(unat sz + 7) mod 8 \<le> 7" using mod_less_divisor[of 8 "unat sz + 7"] by linarith
  ultimately show "unat sz + 8 \<le> request_size sz" "request_size sz < unat sz + 16"
    unfolding request_size_small[OF assms] by linarith+
  show "8 dvd request_size sz" unfolding request_size_small[OF assms] by simp
qed

lemma request_size_wrapped:
  assumes "2 ^ 32 < unat sz + 16"
  shows "request_size sz = (if 2 ^ 32 \<le> unat sz + 7 then 8 else 0)"
proof -
  have u: "unat sz < 2 ^ 32" using unsigned_less[of sz, where 'a = nat] by simp
  have a: "unat (sz + 7) = (if 2 ^ 32 \<le> unat sz + 7 then unat sz + 7 - 2 ^ 32 else unat sz + 7)"
    using u by (simp add: unat_word_ariths mod_if)
  have "(unat sz + 7) div 8 = 2 ^ 29 - 1" if "\<not> 2 ^ 32 \<le> unat sz + 7"
    using that assms by (intro div_nat_eqI) simp_all
  then have d: "unat (drop_bit 3 (sz + 7)) = (if 2 ^ 32 \<le> unat sz + 7 then 0 else 2 ^ 29 - 1)"
    using assms u by (simp add: unat_drop_bit a)
  have "drop_bit 3 (sz + 7) = (if 2 ^ 32 \<le> unat sz + 7 then 0 else 2 ^ 29 - 1)"
    using d by (simp add: word_eq_iff_unsigned[where 'a = nat] unat_eq_zero word_unat_eq_iff split: if_splits)
  then show ?thesis unfolding request_size_def and_not_7 by simp
qed

lemma request_size_large:
  assumes "32 < request_size sz"
  shows "unat sz + 16 \<le> 2 ^ 32" "24 < unat sz"
proof -
  show a: "unat sz + 16 \<le> 2 ^ 32" using request_size_wrapped[of sz] assms by (cases "unat sz + 16 \<le> 2 ^ 32") (auto split: if_splits)
  show "24 < unat sz"
  proof (rule ccontr)
    assume "\<not> 24 < unat sz"
    then have "(unat sz + 7) div 8 * 8 \<le> 24" using div_le_mono[of "unat sz + 7" 31 8] by simp
    then show False using assms by (simp add: request_size_small[OF a])
  qed
qed

lemma request_size_fast: "request_size sz \<le> 32 \<longleftrightarrow> unat sz \<le> 24 \<or> 2 ^ 32 < unat sz + 16"
proof -
  have "request_size sz \<le> 32" if "unat sz \<le> 24"
    using that div_le_mono[of "unat sz + 7" 31 8] by (simp add: request_size_small)
  moreover have "request_size sz \<le> 32" if "2 ^ 32 < unat sz + 16" using request_size_wrapped[OF that] by simp
  moreover have "unat sz \<le> 24" if "request_size sz \<le> 32" "\<not> 2 ^ 32 < unat sz + 16"
    using request_size_bounds(1)[of sz] that by simp
  ultimately show ?thesis by blast
qed

section \<open>Live blocks\<close>

definition live :: "memory \<Rightarrow> nat \<Rightarrow> chunks \<Rightarrow> (nat \<times> nat) set" where
  "live m lo us = {(q + 8, u - 8) | q u. (q, u, False) \<in> set (starts lo us)} \<union>
     {(q + 56 + 32 * i, 24) | q i. q \<in> page_set lo us \<and> i < 128 \<and> i \<notin> page_free m q}"

lemma live_cases:
  assumes "(a, n) \<in> live m lo us"
  obtains (chunk) q u where "(q, u, False) \<in> set (starts lo us)" "a = q + 8" "n = u - 8"
  | (page) q i where "q \<in> page_set lo us" "i < 128" "i \<notin> page_free m q" "a = q + 56 + 32 * i" "n = 24"
  using assms by (auto simp: live_def)

definition apart :: "nat \<times> nat \<Rightarrow> nat \<times> nat \<Rightarrow> bool" where
  "apart = (\<lambda>(a, n) (b, k). a + n \<le> b \<or> b + k \<le> a)"

lemma chunk_not_page:
  assumes sz: "sizes_ok us" and "(q, u, False) \<in> set (starts lo us)" "q' \<in> page_set lo us"
  shows "q \<noteq> q'"
proof
  assume "q = q'"
  then obtain v where v: "(q, v, True) \<in> set (starts lo us)" using assms(3) by (auto simp: page_set_def)
  have "0 < u" "0 < v" using starts_bounds[OF assms(2)] starts_bounds[OF v] sz by (auto simp: sizes_ok_def)
  from starts_unique(2)[OF assms(2) v this] show False by simp
qed

lemma live_apart:
  assumes sz: "sizes_ok us" and x: "x \<in> live m lo us" and y: "y \<in> live m lo us" "x \<noteq> y"
  shows "apart x y"
proof -
  obtain a n b k where xy: "x = (a, n)" "y = (b, k)" by fastforce
  have s8: "48 \<le> u" if "(q, u, k') \<in> set (starts lo us)" for q u k'
    using starts_bounds[OF that] sz by (auto simp: sizes_ok_def)
  show ?thesis
    using x[unfolded xy]
  proof (cases rule: live_cases)
    case (chunk q u)
    note c = chunk
    show ?thesis
      using y(1)[unfolded xy]
    proof (cases rule: live_cases)
      case (chunk q' u')
      have "(q, u, False) \<noteq> (q', u', False)" using c chunk y(2) xy by auto
      from starts_disjoint[OF c(1) chunk(1) this] show ?thesis
        using c chunk s8[OF c(1)] s8[OF chunk(1)] by (auto simp: xy apart_def)
    next
      case (page q' i)
      from chunk_page_apart[OF sz c(1) page(1) chunk_not_page[OF sz c(1) page(1)]] show ?thesis
        using c page s8[OF c(1)] by (auto simp: xy apart_def)
    qed
  next
    case (page q i)
    note p = page
    show ?thesis
      using y(1)[unfolded xy]
    proof (cases rule: live_cases)
      case (chunk q' u')
      from chunk_page_apart[OF sz chunk(1) p(1) chunk_not_page[OF sz chunk(1) p(1)]] show ?thesis
        using p chunk s8[OF chunk(1)] by (auto simp: xy apart_def)
    next
      case (page q' j)
      show ?thesis
      proof (cases "q = q'")
        case True
        then have "i \<noteq> j" using p page y(2) xy by auto
        then show ?thesis using True p page by (auto simp: xy apart_def)
      next
        case False
        from pages_apart[OF sz p(1) page(1) False] show ?thesis using p page by (auto simp: xy apart_def)
      qed
    qed
  qed
qed

lemma page_set_bounds:
  assumes "sizes_ok us" "q \<in> page_set lo us"
  shows "lo \<le> q" "q + 4144 \<le> lo + extent us"
proof -
  obtain u where u: "(q, u, True) \<in> set (starts lo us)" using assms(2) by (auto simp: page_set_def)
  have "4144 \<le> u" using starts_bounds[OF u] assms(1) by (auto simp: sizes_ok_def)
  then show "lo \<le> q" "q + 4144 \<le> lo + extent us" using starts_bounds[OF u] by auto
qed

lemma starts_aligned: "8 dvd lo \<Longrightarrow> sizes_ok us \<Longrightarrow> (q, u, k) \<in> set (starts lo us) \<Longrightarrow> 8 dvd q"
  by (induction lo us rule: starts.induct) (auto simp: sizes_ok_def intro: dvd_add)

lemma live_bounds:
  assumes sz: "sizes_ok us" and x: "(a, n) \<in> live m lo us"
  shows "lo + 8 \<le> a" "a + n \<le> lo + extent us" "24 \<le> n" "8 dvd lo \<Longrightarrow> 8 dvd a"
proof -
  have "lo + 8 \<le> a \<and> a + n \<le> lo + extent us \<and> 24 \<le> n \<and> (8 dvd lo \<longrightarrow> 8 dvd a)"
    using x
  proof (cases rule: live_cases)
    case (chunk q u)
    have "48 \<le> u" using starts_bounds[OF chunk(1)] sz by (auto simp: sizes_ok_def)
    then show ?thesis using chunk starts_bounds[OF chunk(1)] starts_aligned[OF _ sz chunk(1)] by (auto intro: dvd_add)
  next
    case (page q i)
    then obtain u where u: "(q, u, True) \<in> set (starts lo us)" by (auto simp: page_set_def)
    show ?thesis using page page_set_bounds[OF sz page(1)] starts_aligned[OF _ sz u] by (auto intro!: dvd_add)
  qed
  then show "lo + 8 \<le> a" "a + n \<le> lo + extent us" "24 \<le> n" "8 dvd lo \<Longrightarrow> 8 dvd a" by simp_all
qed

lemma live_agree:
  assumes sz: "sizes_ok us" and ag: "agree m m' lo (lo + extent us)"
  shows "live m' lo us = live m lo us"
proof -
  have "page_free m' q = page_free m q" if "q \<in> page_set lo us" for q
    using page_set_bounds[OF sz that] by (intro page_free_bits agree_sub[OF ag]) auto
  then show ?thesis unfolding live_def by auto
qed

lemma live_snoc:
  "live m lo (us @ [(c, False)]) = insert (lo + extent us + 8, c - 8) (live m lo us)"
  by (auto simp: live_def page_set_snoc starts_append)

lemma live_new_page:
  assumes "page_free m (lo + extent us) = {..<128}"
  shows "live m lo (us @ [(c, True)]) = live m lo us"
  using assms by (auto simp: live_def page_set_page starts_append)

text \<open>The two kinds of allocation, seen by the client.\<close>

lemma large_live:
  assumes inv: "um_inv s lo us f cur full" and sz: "8 dvd sz" "32 < sz" "sz \<le> 61440 \<or> sz \<le> f"
    and room: "um_brk s + growth f sz \<le> um_limit s"
  obtains p n s' us' f' where
    "(if sz \<le> 512 then malloc_tiny sz else if sz > 4096 then malloc_huge sz else malloc_middle sz) s = Inr (p, s')"
    "um_inv s' lo us' f' cur full" "same_env s s'" "(p, n) \<notin> live (um_mem s) lo us"
    "live (um_mem s') lo us' = insert (p, n) (live (um_mem s) lo us)"
    "\<And>a k. (a, k) \<in> live (um_mem s) lo us \<Longrightarrow> agree (um_mem s) (um_mem s') a (a + k)"
    "sz \<le> n + 8 \<or> sz \<le> 512 \<and> sz = n + 16 \<and> f = n + 8 \<and> f' = 0" "abs_request (us, f) sz = (us', f')"
    "p = lo + extent us + 8"
proof -
  note I = um_inv_free[OF inv]
  have szo: "sizes_ok us" using I(5) by (simp add: used_ok_def)
  have f8: "8 dvd f" using free_ok_chunkD(1)[OF I(6)] by (cases "f = 0") auto
  obtain s' us' f' where m: "(if sz \<le> 512 then malloc_tiny sz else if sz > 4096 then malloc_huge sz else malloc_middle sz) s =
      Inr (lo + extent us + 8, s')"
    "abs_request (us, f) sz = (us', f')" "um_inv s' lo us' f' cur full"
    "keeps s s' lo (lo + extent us)"
    by (rule malloc_large_inv[OF inv sz room])
  obtain c where c: "us' = us @ [(c, False)]" "sz \<le> c \<or> sz \<le> 512 \<and> sz = c + 8 \<and> f = c \<and> f' = 0"
    using abs_request_shape[OF m(2) sz(1,2) f8] by blast
  have ag: "agree (um_mem s) (um_mem s') lo (lo + extent us)" using m(4) by (simp add: keeps_def)
  have c48: "48 \<le> c" using um_inv_free(5)[OF m(3)] c(1) by (simp add: used_ok_def sizes_ok_def)
  show thesis
  proof (rule that[OF m(1) m(3) _ _ _ _ _ m(2) refl])
    show "same_env s s'" using m(4) by (simp add: keeps_def)
    show "(lo + extent us + 8, c - 8) \<notin> live (um_mem s) lo us" using live_bounds(2)[OF szo] by fastforce
    show "live (um_mem s') lo us' = insert (lo + extent us + 8, c - 8) (live (um_mem s) lo us)"
      unfolding c(1) live_snoc live_agree[OF szo ag] ..
    show "agree (um_mem s) (um_mem s') a (a + k)" if "(a, k) \<in> live (um_mem s) lo us" for a k
      using live_bounds(1,2)[OF szo that] by (intro agree_sub[OF ag]) auto
    show "sz \<le> c - 8 + 8 \<or> sz \<le> 512 \<and> sz = c - 8 + 16 \<and> f = c - 8 + 8 \<and> f' = 0" using c(2) c48 by auto
  qed
qed

lemma pages_frame_live:
  assumes inv: "um_inv s lo us f cur full" and q: "q \<in> page_set lo us" "i \<in> page_free m q"
    and fr: "pages_frame m m' s lo us q i" and x: "(a, k) \<in> live m lo us"
  shows "agree m m' a (a + k)"
proof -
  note I = um_inv_free[OF inv]
  have sz: "sizes_ok us" using I(5) by (simp add: used_ok_def)
  note L = live_bounds[OF sz x]
  have i: "i < 128" using q(2) by (simp add: page_free_def)
  have low: "slot s 1 + 16 \<le> a" "um_fast_full s + 16 \<le> a"
    using L(1) used_ok_bounds(2)[OF I(5)] slot_bounds(2)[OF I(5), of 1] by simp_all
  have "(\<forall>p \<in> page_set lo us. a + k \<le> p + 8 \<or> p + 48 \<le> a) \<and>
    (a + k \<le> q + 48 + 32 * i \<or> q + 56 + 32 * i \<le> a)"
    using x
  proof (cases rule: live_cases)
    case (chunk r u)
    have "r + u \<le> p \<or> p + 4144 \<le> r" if "p \<in> page_set lo us" for p
      by (rule chunk_page_apart[OF sz chunk(1) that chunk_not_page[OF sz chunk(1) that]])
    then have "a + k \<le> p \<or> p + 4144 \<le> a" if "p \<in> page_set lo us" for p
      using chunk(2,3) that L(3) by fastforce
    then show ?thesis using q(1) i by fastforce
  next
    case (page r j)
    have "r = p \<or> r + 4144 \<le> p \<or> p + 4144 \<le> r" if "p \<in> page_set lo us" for p
      using pages_apart[OF sz page(1) that] by blast
    then have ap: "r = p \<or> a + k \<le> p \<or> p + 4144 \<le> a" if "p \<in> page_set lo us" for p
      using page(2,4,5) that by fastforce
    have "a + k \<le> q + 48 + 32 * i \<or> q + 56 + 32 * i \<le> a"
    proof (cases "r = q")
      case True
      then have "j \<noteq> i" using q(2) page(3) by auto
      then show ?thesis using True page(4,5) by auto
    qed (use ap[OF q(1)] i in auto)
    then show ?thesis using ap page(4) by fastforce
  qed
  then show ?thesis using fr low unfolding pages_frame_def by auto
qed

lemma fast_allocate_live:
  assumes inv: "um_inv s lo us f [q] full"
  obtains p s' cur' full' where "fast_allocate s = Inr (p, s')" "um_inv s' lo us f cur' full'" "same_env s s'"
    "(p, 24) \<notin> live (um_mem s) lo us" "live (um_mem s') lo us = insert (p, 24) (live (um_mem s) lo us)"
    "\<And>a k. (a, k) \<in> live (um_mem s) lo us \<Longrightarrow> agree (um_mem s) (um_mem s') a (a + k)"
    "load32 (um_mem s') (p - 4) = 35"
proof -
  have sz: "sizes_ok us" using um_inv_free(5)[OF inv] by (simp add: used_ok_def)
  have q: "q \<in> page_set lo us" using page_bounds(3)[OF inv] by simp
  obtain i s' cur' full' where a: "fast_allocate s = Inr (q + 56 + 32 * i, s')"
    "i \<in> page_free (um_mem s) q" "same_env s s'" "um_inv s' lo us f cur' full'"
    "page_free (um_mem s') q = page_free (um_mem s) q - {i}"
    "\<And>p. p \<in> page_set lo us \<Longrightarrow> p \<noteq> q \<Longrightarrow> page_free (um_mem s') p = page_free (um_mem s) p"
    "pages_frame (um_mem s) (um_mem s') s lo us q i" "load32 (um_mem s') (q + 52 + 32 * i) = 35"
    using fast_allocate_inv[OF inv] by blast
  have i: "i < 128" using a(2) by (simp add: page_free_def)
  have new: "live (um_mem s') lo us = insert (q + 56 + 32 * i, 24) (live (um_mem s) lo us)"
  proof -
    have "r \<in> page_set lo us \<and> j < 128 \<and> j \<notin> page_free (um_mem s') r \<longleftrightarrow>
      r \<in> page_set lo us \<and> j < 128 \<and> j \<notin> page_free (um_mem s) r \<or> r = q \<and> j = i" for r j
      using a(5,6) q i by (cases "r = q") auto
    then show ?thesis unfolding live_def by auto
  qed
  moreover have "(q + 56 + 32 * i, 24) \<notin> live (um_mem s) lo us"
  proof
    assume "(q + 56 + 32 * i, 24) \<in> live (um_mem s) lo us"
    then show False
    proof (cases rule: live_cases)
      case (chunk r u)
      from chunk_page_apart[OF sz chunk(1) q chunk_not_page[OF sz chunk(1) q]] chunk(2,3) i show False by auto
    next
      case (page r j)
      show False
      proof (cases "r = q")
        case True then show False using page(3,4) a(2) by auto
      next
        case False from pages_apart[OF sz page(1) q False] page(2,4) i show False by auto
      qed
    qed
  qed
  moreover have "load32 (um_mem s') (q + 56 + 32 * i - 4) = 35"
  proof -
    have "q + 56 + 32 * i - 4 = q + 52 + 32 * i" by simp
    with a(8) show ?thesis by (simp only:)
  qed
  ultimately show thesis using a(1,3,4) pages_frame_live[OF inv q a(2) a(7)] by (intro that) auto
qed

lemma malloc_fast_live:
  assumes inv: "um_inv s lo us f cur full" and room: "cur = [] \<Longrightarrow> um_brk s + growth f 4144 \<le> um_limit s"
  obtains p s' us' f' cur' full' where "malloc_fast s = Inr (p, s')" "um_inv s' lo us' f' cur' full'" "same_env s s'"
    "(p, 24) \<notin> live (um_mem s) lo us" "live (um_mem s') lo us' = insert (p, 24) (live (um_mem s) lo us)"
    "\<And>a k. (a, k) \<in> live (um_mem s) lo us \<Longrightarrow> agree (um_mem s) (um_mem s') a (a + k)"
    "load32 (um_mem s') (p - 4) = 35" "abs_fast (us, f) (cur \<noteq> []) = (us', f')"
proof -
  note I = um_inv_free[OF inv]
  have P: "pages_ok s lo us cur full" and sz: "sizes_ok us" using I(5) by (simp_all add: used_ok_def)
  consider "cur = []" | q where "cur = [q]" using pages_okD(1)[OF P] by (cases cur) auto
  then show thesis
  proof cases
    case 1
    obtain t c g where t: "fast_bin_reserve s = Inr ((), t)" "4144 \<le> c"
      "um_inv t lo (us @ [(c, True)]) g [lo + extent us] full" "same_env s t"
      "agree (um_mem s) (um_mem t) lo (lo + extent us)" "page_free (um_mem t) (lo + extent us) = {..<128}"
      "abs_request (us, f) 4144 = (us @ [(c, False)], g)"
      using fast_bin_reserve_inv[OF inv[unfolded 1] room[OF 1]] by blast
    have l: "live (um_mem t) lo (us @ [(c, True)]) = live (um_mem s) lo us"
      using live_new_page[OF t(6)] live_agree[OF sz t(5)] by simp
    have k: "agree (um_mem s) (um_mem t) a (a + k)" if "(a, k) \<in> live (um_mem s) lo us" for a k
      using live_bounds(1,2)[OF sz that] by (intro agree_sub[OF t(5)]) auto
    from fast_allocate_live[OF t(3), unfolded l]
    obtain p s' cur' full' where a: "fast_allocate t = Inr (p, s')" "um_inv s' lo (us @ [(c, True)]) g cur' full'"
      "same_env t s'" "(p, 24) \<notin> live (um_mem s) lo us"
      "live (um_mem s') lo (us @ [(c, True)]) = insert (p, 24) (live (um_mem s) lo us)"
      "\<And>a k. (a, k) \<in> live (um_mem s) lo us \<Longrightarrow> agree (um_mem t) (um_mem s') a (a + k)"
      "load32 (um_mem s') (p - 4) = 35" by blast
    have "malloc_fast s = Inr (p, s')" using t(1) a(1) by (simp add: malloc_fast_def run_simps)
    moreover have "abs_fast (us, f) (cur \<noteq> []) = (us @ [(c, True)], g)" using t(7) 1 by (simp add: abs_fast_def)
    ultimately show thesis
      by (intro that[OF _ a(2) _ a(4,5)]) (use t(4) a(3,6,7) k in \<open>auto simp: same_env_def agree_def\<close>)
  next
    case (2 q)
    define h where "h = slot s 1"
    have h: "loadp (um_mem s) (h + 8) = q + 8" "h + 16 \<le> lo" "lo \<le> q"
      using cur_head(1)[OF inv[unfolded 2]] slot_bounds(2)[OF I(5), of 1] page_bounds(1)[OF inv, of q] 2
      by (simp_all add: h_def)
    have e: "slot_ref 1 s = Inr (h, s)" "list_empty h s = Inr (False, s)"
      using h I(7) by (simp_all add: slot_ref_run h_def[unfolded slot_def] list_empty_def run_simps)
    have "fast_bin_reserve s = Inr ((), s)"
      unfolding fast_bin_reserve_def
      by (rule bnd_eq, rule e(1), rule bnd_eq, rule e(2)) (simp add: run_simps)
    then have "malloc_fast s = fast_allocate s" by (simp add: malloc_fast_def run_simps)
    moreover have "abs_fast (us, f) (cur \<noteq> []) = (us, f)" using 2 by (simp add: abs_fast_def)
    ultimately show thesis using fast_allocate_live[OF inv[unfolded 2]] by (metis that)
  qed
qed

section \<open>Writes of the client\<close>

lemma used_ok_frame:
  assumes u: "used_ok s lo us cur full"
    and hd: "\<forall>(p, u, k) \<in> set (starts lo us). agree (um_mem s) m' p (p + 8)"
    and pg: "\<And>p. p \<in> page_set lo us \<Longrightarrow> agree (um_mem s) m' (p + 8) (p + 48)"
    and s1: "agree (um_mem s) m' (slot s 1) (slot s 1 + 16)"
    and ff: "agree (um_mem s) m' (um_fast_full s) (um_fast_full s + 16)"
  shows "used_ok (s\<lparr>um_mem := m'\<rparr>) lo us cur full"
proof -
  let ?s = "s\<lparr>um_mem := m'\<rparr>"
  have P: "pages_ok s lo us cur full" using u by (simp add: used_ok_def)
  have ps: "set cur \<subseteq> page_set lo us" "set full \<subseteq> page_set lo us" using pages_okD(3)[OF P] by auto
  have nodes: "\<forall>n \<in> set (map (\<lambda>p. p + 8) ns). agree (um_mem s) m' n (n + 16)" if "set ns \<subseteq> page_set lo us" for ns
    using that pg by (auto intro!: agree_sub[OF pg])
  have pf: "page_free m' p = page_free (um_mem s) p" "page_ok m' p = page_ok (um_mem s) p"
    if "p \<in> page_set lo us" for p
    using agree_sub[OF pg[OF that], of "p + 24" "p + 48"] page_free_agree page_ok_agree by auto
  have "ring (um_mem ?s) (slot ?s 1) (map (\<lambda>p. p + 8) cur)"
    using ring_agree[OF pages_okD(4)[OF P] s1 nodes[OF ps(1)]] by (simp add: slot_def)
  moreover have "ring (um_mem ?s) (um_fast_full ?s) (map (\<lambda>p. p + 8) full)"
    using ring_agree[OF pages_okD(5)[OF P] ff nodes[OF ps(2)]] by simp
  moreover have "page_ok m' p \<and> page_free m' p \<noteq> {}" if "p \<in> set cur" for p
    using pages_okD(6)[OF P that] pf[of p] ps that by auto
  moreover have "page_free m' p = {}" if "p \<in> set full" for p
    using pages_okD(7)[OF P that] pf[of p] ps that by auto
  ultimately have "pages_ok ?s lo us cur full"
    unfolding pages_ok_def using pages_okD(1,2,3)[OF P] by simp
  moreover have "hdrs m' HEAD lo us" using hdrs_cong[OF hd] u by (simp add: used_ok_def)
  ultimately show ?thesis using u by (simp add: used_ok_def globals_ok_def)
qed

lemma write_live:
  fixes v :: byte
  assumes inv: "um_inv s lo us f cur full" and b: "(a, n) \<in> live (um_mem s) lo us" "a \<le> x" "x < a + n"
  defines "s' \<equiv> s\<lparr>um_mem := (um_mem s)(x := v)\<rparr>"
  shows "um_inv s' lo us f cur full" "live (um_mem s') lo us = live (um_mem s) lo us"
proof -
  note I = um_inv_free[OF inv]
  have sz: "sizes_ok us" using I(5) by (simp add: used_ok_def)
  note L = live_bounds[OF sz b(1)]
  let ?m = "(um_mem s)(x := v)"
  have ag: "agree (um_mem s) ?m c d" if "d \<le> x \<or> x < c" for c d using that by (auto simp: agree_def)
  have hd: "p + 8 \<le> x \<or> x < p" if p: "(p, u, k) \<in> set (starts lo us)" for p u k
    using b(1)
  proof (cases rule: live_cases)
    case (chunk q w)
    show ?thesis
    proof (cases "(p, u, k) = (q, w, False)")
      case True
      then show ?thesis using chunk b(2) by simp
    next
      case False
      moreover have "8 \<le> u" using starts_bounds[OF p] sz by (auto simp: sizes_ok_def)
      ultimately show ?thesis using starts_disjoint[OF p chunk(1)] chunk(2,3) b(2,3) L(3) by auto
    qed
  next
    case (page q i)
    have "8 \<le> u" using starts_bounds[OF p] sz by (auto simp: sizes_ok_def)
    then show ?thesis
      using chunk_page_apart[OF sz p page(1)] page(2,4,5) b(2,3) by (cases "p = q") auto
  qed
  have pg: "p + 48 \<le> x \<or> x < p + 8" if p: "p \<in> page_set lo us" for p
    using b(1)
  proof (cases rule: live_cases)
    case (chunk q w)
    show ?thesis
      using chunk_page_apart[OF sz chunk(1) p chunk_not_page[OF sz chunk(1) p]] chunk(2,3) b(2,3) L(3) by auto
  next
    case (page q i)
    then show ?thesis using pages_apart[OF sz p page(1)] b(2,3) by (cases "p = q") auto
  qed
  have lo: "lo \<le> x" using L(1) b(2) by simp
  have low: "d \<le> lo \<Longrightarrow> agree (um_mem s) ?m c d" for c d using lo by (intro ag) simp
  have "used_ok s' lo us cur full"
    unfolding s'_def
  proof (rule used_ok_frame[OF I(5)])
    have "agree (um_mem s) ?m p (p + 8)" if "(p, u, k) \<in> set (starts lo us)" for p u k using hd[OF that] by (intro ag) auto
    then show "\<forall>(p, u, k) \<in> set (starts lo us). agree (um_mem s) ?m p (p + 8)" by auto
    show "agree (um_mem s) ?m (p + 8) (p + 48)" if "p \<in> page_set lo us" for p using pg[OF that] by (intro ag) auto
  qed (use slot_bounds(2)[OF I(5), of 1] used_ok_bounds(2)[OF I(5)] in \<open>auto intro!: low\<close>)
  moreover have "free_ok s' lo us f"
  proof (rule free_ok_agree[OF I(6)])
    show "agree (um_mem s) (um_mem s') (lo + extent us) (um_brk s)"
      unfolding s'_def using b(3) L(2) by (auto intro!: ag)
    show "agree (um_mem s) (um_mem s') (slot s i) (slot s i + 16)" if "i < 64" for i
      unfolding s'_def using slot_bounds(2)[OF I(5) that] by (auto intro!: low)
  qed (simp_all add: s'_def)
  ultimately show "um_inv s' lo us f cur full" by (simp add: um_inv_def)
  have "page_free ?m p = page_free (um_mem s) p" if "p \<in> page_set lo us" for p
    using pg[OF that] by (intro page_free_bits ag) auto
  then show "live (um_mem s') lo us = live (um_mem s) lo us" by (auto simp: live_def s'_def)
qed

end
