(* ===== verification/Um_Client.thy ===== *)
theory Um_Client
  imports Um_Live
begin

text \<open>
  The allocator as its client sees it: the program starts with \<^verbatim>\<open>mm_init\<close>, calls
  \<^verbatim>\<open>mm_malloc\<close>, \<^verbatim>\<open>mm_free\<close> and \<^verbatim>\<open>mm_realloc\<close>, and writes into the blocks it holds.
  The properties of the allocator are invariants of this machine.
\<close>

section \<open>One call of \<^verbatim>\<open>mm_malloc\<close>\<close>

definition usable :: "um \<Rightarrow> nat \<Rightarrow> nat" where
  "usable s p = unat (load32 (um_mem s) (p - 4) AND NOT FULL_MASK) - 8"

definition room :: "um \<Rightarrow> bool" where
  "room s \<longleftrightarrow> um_brk s + 65536 \<le> um_limit s"

definition max_request :: nat where
  "max_request = 61432"

lemma last_header:
  assumes "um_inv s lo (us @ [(c, False)]) f cur full"
  shows "usable s (lo + extent us + 8) = c - 8"
proof -
  note I = um_inv_free[OF assms]
  have "load32 (um_mem s) (lo + extent us + 4) = of_nat c OR 3" "8 dvd c" "c < 2 ^ 31"
    using I(5) by (simp_all add: used_ok_def hdrs_append sizes_ok_def)
  moreover have "lo + extent us + 8 - 4 = lo + extent us + 4" by simp
  ultimately show ?thesis unfolding usable_def by (simp only: hdr_word) simp
qed

text \<open>A request of more than 24 bytes, served from the free chunk or from the chunk that a grown heap ends with.\<close>

lemma mm_malloc_chunk:
  assumes inv: "um_inv s lo us f cur full" and sz: "32 < request_size sz" "request_size sz \<le> 61440 \<or> request_size sz \<le> f"
    and room: "um_brk s + growth f (request_size sz) \<le> um_limit s"
  obtains s' us' f' where "mm_malloc sz s = Inr (lo + extent us + 8, s')"
    "um_inv s' lo us' f' cur full" "same_env s s'"
    "live (um_mem s') lo us' = insert (lo + extent us + 8, usable s' (lo + extent us + 8)) (live (um_mem s) lo us)"
    "\<And>a k. (a, k) \<in> live (um_mem s) lo us \<Longrightarrow> agree (um_mem s) (um_mem s') a (a + k)"
    "unat sz \<le> usable s' (lo + extent us + 8) \<or> unat sz \<le> 504 \<and> request_size sz = f + 8 \<and>
       usable s' (lo + extent us + 8) + 8 = f \<and> f' = 0"
    "abs_request (us, f) (request_size sz) = (us', f')"
proof -
  note R = request_size_bounds[OF request_size_large(1)[OF sz(1)]]
  obtain p n s' us' f' where m: "serve (request_size sz) s = Inr (p, s')"
    "um_inv s' lo us' f' cur full" "same_env s s'" "(p, n) \<notin> live (um_mem s) lo us"
    "live (um_mem s') lo us' = insert (p, n) (live (um_mem s) lo us)"
    "\<And>a k. (a, k) \<in> live (um_mem s) lo us \<Longrightarrow> agree (um_mem s) (um_mem s') a (a + k)"
    "request_size sz \<le> n + 8 \<or> request_size sz \<le> 512 \<and> request_size sz = n + 16 \<and> f = n + 8 \<and> f' = 0"
    "abs_request (us, f) (request_size sz) = (us', f')"
    "p = lo + extent us + 8"
    by (rule large_live[OF inv R(3) sz room]) (rule that)
  have f8: "8 dvd f" using free_ok_chunkD(1)[OF um_inv_free(6)[OF inv]] by (cases "f = 0") auto
  obtain c where c: "us' = us @ [(c, False)]" using abs_request_shape[OF m(8) R(3) sz(1) f8] by blast
  have us: "usable s' p = c - 8" using last_header[OF m(2)[unfolded c]] m(9) by simp
  have "n = c - 8"
  proof -
    have sz': "sizes_ok us'" using um_inv_free(5)[OF m(2)] by (simp add: used_ok_def)
    have "(p, c - 8) \<in> live (um_mem s') lo us'" unfolding c live_snoc m(9) by simp
    moreover have "(p, n) \<in> live (um_mem s') lo us'" using m(5) by simp
    ultimately have "(p, n) = (p, c - 8) \<or> apart (p, n) (p, c - 8)" using live_apart[OF sz'] by blast
    then show ?thesis using live_bounds(3)[OF sz' \<open>(p, n) \<in> live (um_mem s') lo us'\<close>]
      live_bounds(3)[OF sz' \<open>(p, c - 8) \<in> live (um_mem s') lo us'\<close>] by (auto simp: apart_def)
  qed
  have run: "mm_malloc sz s = Inr (lo + extent us + 8, s')"
    using m(1,9) by (simp add: mm_malloc_def Let_def)
  show thesis
    by (rule that[OF run m(2,3) _ m(6) _ m(8)]) (use m(5,7,9) us \<open>n = c - 8\<close> R(1,2) in auto)
qed

text \<open>
  When a request is served: the slots have an answer for its size, and the break can move by what the heap has
  to grow. A request of at most 24 bytes needs memory only when there is no page with a free chunk.
\<close>

definition served :: "um \<Rightarrow> nat \<Rightarrow> nat list \<Rightarrow> nat \<Rightarrow> bool" where
  "served s f cur r \<longleftrightarrow> (if r \<le> 32 then cur = [] \<longrightarrow> um_brk s + growth f 4144 \<le> um_limit s
     else (r \<le> 61440 \<or> r \<le> f) \<and> um_brk s + growth f r \<le> um_limit s)"

definition abs_malloc :: "chunks \<times> nat \<Rightarrow> bool \<Rightarrow> nat \<Rightarrow> um_error + chunks \<times> nat" where
  "abs_malloc h page r = (if r \<le> 32 then Inr (abs_fast h page)
     else if 65536 < r then Inl OutOfBounds
     else if 61440 < r \<and> snd h < r then Inl ShiftOverflow
     else Inr (abs_request h r))"

lemma fast_run: "request_size sz \<le> 32 \<Longrightarrow> mm_malloc sz = malloc_fast"
  by (simp add: mm_malloc_def Let_def malloc_tiny_def)

lemma mm_malloc_served:
  assumes inv: "um_inv s lo us f cur full" and ok: "served s f cur (request_size sz)"
  obtains p s' us' f' cur' full' where "mm_malloc sz s = Inr (p, s')" "um_inv s' lo us' f' cur' full'"
    "same_env s s'" "live (um_mem s') lo us' = insert (p, usable s' p) (live (um_mem s) lo us)"
    "(p, usable s' p) \<notin> live (um_mem s) lo us"
    "\<And>a k. (a, k) \<in> live (um_mem s) lo us \<Longrightarrow> agree (um_mem s) (um_mem s') a (a + k)"
    "unat sz \<le> usable s' p \<or> 24 < unat sz \<and> unat sz \<le> 504 \<and> unat sz \<le> usable s' p + 8 \<or> 2 ^ 32 < unat sz + 16 \<and> usable s' p = 24"
    "abs_malloc (us, f) (cur \<noteq> []) (request_size sz) = Inr (us', f')"
    "32 < request_size sz \<longrightarrow> p = lo + extent us + 8 \<and> cur' = cur \<and> full' = full"
proof (cases "request_size sz \<le> 32")
  case True
  have rm: "cur = [] \<Longrightarrow> um_brk s + growth f 4144 \<le> um_limit s" using ok True by (simp add: served_def)
  obtain p s' us' f' cur' full' where m: "malloc_fast s = Inr (p, s')" "um_inv s' lo us' f' cur' full'" "same_env s s'"
    "(p, 24) \<notin> live (um_mem s) lo us" "live (um_mem s') lo us' = insert (p, 24) (live (um_mem s) lo us)"
    "\<And>a k. (a, k) \<in> live (um_mem s) lo us \<Longrightarrow> agree (um_mem s) (um_mem s') a (a + k)"
    "load32 (um_mem s') (p - 4) = 35" "abs_fast (us, f) (cur \<noteq> []) = (us', f')"
    by (rule malloc_fast_live[OF inv]) (erule rm, rule that)
  have u: "usable s' p = 24" by (simp add: usable_def m(7))
  have "unat sz \<le> 24 \<or> 2 ^ 32 < unat sz + 16" using True by (simp only: request_size_fast)
  then show thesis
    by (intro that[OF m(1)[folded fast_run[OF True]] m(2,3) _ _ m(6)]) (use m(4,5,8) True in \<open>auto simp: u abs_malloc_def\<close>)
next
  case False
  then have sz: "32 < request_size sz" "request_size sz \<le> 61440 \<or> request_size sz \<le> f"
    "um_brk s + growth f (request_size sz) \<le> um_limit s" using ok by (auto simp: served_def)
  let ?p = "lo + extent us + 8"
  obtain s' us' f' where m: "mm_malloc sz s = Inr (?p, s')" "um_inv s' lo us' f' cur full" "same_env s s'"
    "live (um_mem s') lo us' = insert (?p, usable s' ?p) (live (um_mem s) lo us)"
    "\<And>a k. (a, k) \<in> live (um_mem s) lo us \<Longrightarrow> agree (um_mem s) (um_mem s') a (a + k)"
    "unat sz \<le> usable s' ?p \<or> unat sz \<le> 504 \<and> request_size sz = f + 8 \<and> usable s' ?p + 8 = f \<and> f' = 0"
    "abs_request (us, f) (request_size sz) = (us', f')"
    by (rule mm_malloc_chunk[OF inv sz]) (rule that)
  have "sizes_ok us" using um_inv_free(5)[OF inv] by (simp add: used_ok_def)
  then have n: "(?p, usable s' ?p) \<notin> live (um_mem s) lo us" using live_bounds(2) by fastforce
  have top: "request_size sz \<le> 65536" using sz(2) um_inv_free(2)[OF inv] by auto
  note R = request_size_large[OF sz(1)]
  have "unat sz + 8 \<le> request_size sz" using R(1) by (rule request_size_bounds)
  then have z: "unat sz \<le> usable s' ?p \<or> 24 < unat sz \<and> unat sz \<le> 504 \<and> unat sz \<le> usable s' ?p + 8 \<or>
    2 ^ 32 < unat sz + 16 \<and> usable s' ?p = 24" using m(6) R(2) by auto
  have "abs_malloc (us, f) (cur \<noteq> []) (request_size sz) = Inr (us', f')" using m(7) sz(1,2) top by (auto simp: abs_malloc_def)
  then show thesis by (intro that[OF m(1-4) n m(5) z]) auto
qed

lemma growth_0: "61440 < sz \<Longrightarrow> sz \<le> f \<Longrightarrow> f \<le> 65536 \<Longrightarrow> growth f sz = 0"
  using slot_index_63[of sz] slot_index_63[of f] by (auto simp: growth_def grows_def)

text \<open>Otherwise the call does not return, or the kernel has refused memory and the base is beyond the break.\<close>

lemma mm_malloc_not_served:
  assumes inv: "um_inv s lo us f cur full" and no: "\<not> served s f cur (request_size sz)"
  shows "\<And>p s'. mm_malloc sz s = Inr (p, s') \<Longrightarrow> um_brk s' < um_base s'"
    and "32 < request_size sz \<Longrightarrow> request_size sz \<le> 61440 \<Longrightarrow> \<exists>s'. mm_malloc sz s = Inr (0, s')"
    and "61440 < request_size sz \<Longrightarrow> mm_malloc sz s = Inl (if 65536 < request_size sz then OutOfBounds else ShiftOverflow)"
proof -
  have mm: "mm_malloc sz s = serve (request_size sz) s" by (simp add: mm_malloc_def Let_def)
  have lim: "um_brk s \<le> um_limit s" using free_okD(3)[OF um_inv_free(6)[OF inv]] um_inv_free(7)[OF inv] by simp
  have r32: "request_size sz < 2 ^ 32" using unsigned_less[where 'a = nat and 'b = 32] by (simp add: request_size_def)
  show big: "mm_malloc sz s = Inl (if 65536 < request_size sz then OutOfBounds else ShiftOverflow)" if r: "61440 < request_size sz"
  proof (cases "65536 < request_size sz")
    case True
    then show ?thesis using malloc_too_large(2)[OF inv _ r32] mm by simp
  next
    case False
    have "f < request_size sz"
      using growth_0[OF r _ um_inv_free(2)[OF inv]] no r lim by (fastforce simp: served_def)
    then show ?thesis using malloc_too_large(1)[OF inv r] False mm by simp
  qed
  have mid: "\<exists>s'. mm_malloc sz s = Inr (0, s') \<and> um_brk s' < um_base s'" if r: "32 < request_size sz" "request_size sz \<le> 61440"
  proof -
    have "8 dvd request_size sz" using request_size_large(1)[OF r(1)] by (rule request_size_bounds)
    moreover have "um_limit s < um_brk s + growth f (request_size sz)" using no r by (auto simp: served_def)
    ultimately show ?thesis using malloc_large_refused[OF inv _ r] mm by simp
  qed
  then show "\<exists>s'. mm_malloc sz s = Inr (0, s')" if "32 < request_size sz" "request_size sz \<le> 61440" using that by blast
  show "um_brk s' < um_base s'" if m: "mm_malloc sz s = Inr (p, s')" for p s'
  proof (cases "request_size sz \<le> 32")
    case True
    then have "cur = []" "um_limit s < um_brk s + growth f 4144" using no by (auto simp: served_def)
    then show ?thesis using malloc_fast_refused[of s lo us f full p s'] inv m fast_run[OF True] by simp
  next
    case False
    then show ?thesis using mid big m by (cases "request_size sz \<le> 61440") auto
  qed
qed

text \<open>With room for the largest request, every size up to 61432 bytes is served.\<close>

lemma room_served:
  assumes "room s" "unat sz \<le> max_request"
  shows "served s f cur (request_size sz)" "request_size sz \<le> 61440"
proof -
  have u: "unat sz + 16 \<le> 2 ^ 32" using assms(2) by (simp add: max_request_def)
  show r: "request_size sz \<le> 61440"
    using assms(2) unfolding request_size_small[OF u] max_request_def by (simp add: div_le_mono[of _ 61439 8, simplified])
  have g: "growth f n \<le> 65536" if "32 < n" "n \<le> 61440" "8 dvd n" for n
    using tiny_need(2)[OF that(1) _ that(3)] pgup_le[of n 15] pgup_le[of "tiny_need n" 1] that(2) by (auto simp: growth_def)
  have "growth f 4144 \<le> 65536" by (rule g) simp_all
  moreover have "32 < request_size sz \<Longrightarrow> growth f (request_size sz) \<le> 65536" using g r request_size_bounds(3)[OF u] by blast
  ultimately show "served s f cur (request_size sz)" using assms(1) r by (auto simp: served_def room_def)
qed

lemma mm_malloc_large:
  assumes inv: "um_inv s lo us f cur full" and room: "room s" and sz: "24 < unat sz" "unat sz \<le> max_request"
  obtains s' us' f' where "mm_malloc sz s = Inr (lo + extent us + 8, s')"
    "um_inv s' lo us' f' cur full" "same_env s s'"
    "abs_request (us, f) (request_size sz) = (us', f')"
proof -
  note S = room_served(1)[OF room sz(2), of f cur] room_served(2)[OF room sz(2)]
  have r: "32 < request_size sz" "request_size sz \<le> 61440 \<or> request_size sz \<le> f" "um_brk s + growth f (request_size sz) \<le> um_limit s"
    using request_size_fast[of sz] sz S by (auto simp: max_request_def served_def split: if_splits)
  show thesis by (rule mm_malloc_chunk[OF inv r]) (rule that)
qed

lemma mm_malloc_live:
  assumes inv: "um_inv s lo us f cur full" and m: "mm_malloc sz s = Inr (p, s')" and g: "um_base s' = um_brk s'"
  obtains us' f' cur' full' where "um_inv s' lo us' f' cur' full'"
    "same_env s s'" "live (um_mem s') lo us' = insert (p, usable s' p) (live (um_mem s) lo us)"
    "(p, usable s' p) \<notin> live (um_mem s) lo us"
    "\<And>a k. (a, k) \<in> live (um_mem s) lo us \<Longrightarrow> agree (um_mem s) (um_mem s') a (a + k)"
    "unat sz \<le> usable s' p \<or> 24 < unat sz \<and> unat sz \<le> 504 \<and> unat sz \<le> usable s' p + 8 \<or> 2 ^ 32 < unat sz + 16 \<and> usable s' p = 24"
proof -
  have "served s f cur (request_size sz)" using mm_malloc_not_served(1)[OF inv _ m] g by fastforce
  then obtain q t us' f' cur' full' where *: "mm_malloc sz s = Inr (q, t)" "um_inv t lo us' f' cur' full'"
    "same_env s t" "live (um_mem t) lo us' = insert (q, usable t q) (live (um_mem s) lo us)"
    "(q, usable t q) \<notin> live (um_mem s) lo us"
    "\<And>a k. (a, k) \<in> live (um_mem s) lo us \<Longrightarrow> agree (um_mem s) (um_mem t) a (a + k)"
    "unat sz \<le> usable t q \<or> 24 < unat sz \<and> unat sz \<le> 504 \<and> unat sz \<le> usable t q + 8 \<or> 2 ^ 32 < unat sz + 16 \<and> usable t q = 24"
    by (rule mm_malloc_served[OF inv]) (rule that)
  have "q = p" "t = s'" using *(1) m by simp_all
  then show thesis using * by (intro that) auto
qed

lemma mm_malloc_runs:
  assumes "um_inv s lo us f cur full" "room s" "unat sz \<le> max_request"
  obtains p s' where "mm_malloc sz s = Inr (p, s')" "um_base s' = um_brk s'"
  using mm_malloc_served[OF assms(1) room_served(1)[OF assms(2,3)]] free_okD(1,2)[OF um_inv_free(6)] by metis

section \<open>The client's machine\<close>

text \<open>
  The state in which \<^verbatim>\<open>mm_init\<close> is called: the globals lie below the break and are zero; and that the kernel
  grants the memory up to the end of the first page after the next page boundary.
\<close>

definition loaded :: "um \<Rightarrow> bool" where
  "loaded s \<longleftrightarrow> um_slots s + 1024 \<le> um_brk s \<and> um_fast_full s + 16 \<le> um_brk s \<and>
     (um_slots s + 1024 \<le> um_fast_full s \<or> um_fast_full s + 16 \<le> um_slots s) \<and>
     um_brk s \<le> um_limit s \<and> um_limit s \<le> 2 ^ 38 \<and> um_bitmap s = 0"

definition boot_ok :: "um \<Rightarrow> bool" where
  "boot_ok s \<longleftrightarrow> loaded s \<and> init_top (um_brk s) \<le> um_limit s"

text \<open>
  The second component is the set of blocks the client holds, each with the number of
  bytes its header promises, which are those the client writes. Requests may have any size. The machine stops where a call
  does not return, or where the kernel has refused to move the break: then \<^verbatim>\<open>base\<close> is beyond the break.
\<close>

inductive um_reach :: "um \<Rightarrow> (nat \<times> nat) set \<Rightarrow> bool" where
  init: "boot_ok s \<Longrightarrow> mm_init s = Inr (r, s') \<Longrightarrow> um_reach s' {}"
| malloc: "um_reach s L \<Longrightarrow> mm_malloc sz s = Inr (p, s') \<Longrightarrow> um_base s' = um_brk s' \<Longrightarrow>
    um_reach s' (insert (p, usable s' p) L)"
| free: "um_reach s L \<Longrightarrow> mm_free p s = Inr ((), s') \<Longrightarrow> um_reach s' {b \<in> L. fst b \<noteq> p}"
| realloc: "um_reach s L \<Longrightarrow> mm_realloc ptr sz s = Inr (r, s') \<Longrightarrow> um_base s' = um_brk s' \<Longrightarrow>
    um_reach s' (if r = 0 then L else insert (r, usable s' r) L)"
| store: "um_reach s L \<Longrightarrow> (a, n) \<in> L \<Longrightarrow> a \<le> x \<Longrightarrow> x < a + n \<Longrightarrow>
    um_reach (s\<lparr>um_mem := (um_mem s)(x := v)\<rparr>) L"

definition heap_ok :: "um \<Rightarrow> (nat \<times> nat) set \<Rightarrow> bool" where
  "heap_ok s L \<longleftrightarrow> (\<exists>lo us f cur full. um_inv s lo us f cur full \<and> L \<subseteq> live (um_mem s) lo us)"

lemma boot_inv:
  assumes "boot_ok s"
  obtains s' where "mm_init s = Inr (0, s')" "same_env s s'"
    "um_inv s' (ALIGN (um_brk s)) [] (init_top (um_brk s) - ALIGN (um_brk s) - 8) [] []"
  using mm_init_inv[of s] assms unfolding boot_ok_def loaded_def by metis

lemma heap_ok_malloc:
  assumes "heap_ok s L" "mm_malloc sz s = Inr (p, s')" "um_base s' = um_brk s'"
  shows "heap_ok s' (insert (p, usable s' p) L)" "p \<noteq> 0"
proof -
  obtain lo us f cur full where inv: "um_inv s lo us f cur full" "L \<subseteq> live (um_mem s) lo us"
    using assms(1) by (auto simp: heap_ok_def)
  obtain us' f' cur' full' where m: "um_inv s' lo us' f' cur' full'"
    "live (um_mem s') lo us' = insert (p, usable s' p) (live (um_mem s) lo us)"
    by (rule mm_malloc_live[OF inv(1) assms(2,3)]) (rule that)
  then show "heap_ok s' (insert (p, usable s' p) L)" using inv(2) unfolding heap_ok_def by blast
  have "(p, usable s' p) \<in> live (um_mem s') lo us'" using m(2) by simp
  moreover have "sizes_ok us'" using um_inv_free(5)[OF m(1)] by (simp add: used_ok_def)
  ultimately have "lo + 8 \<le> p" by (intro live_bounds(1))
  then show "p \<noteq> 0" by simp
qed

lemma um_reach_heap_ok: "um_reach s L \<Longrightarrow> heap_ok s L"
proof (induction rule: um_reach.induct)
  case (init s r s')
  obtain t where "mm_init s = Inr (0, t)" "um_inv t (ALIGN (um_brk s)) [] (init_top (um_brk s) - ALIGN (um_brk s) - 8) [] []"
    by (rule boot_inv[OF init(1)])
  moreover then have "heap_ok t {}" unfolding heap_ok_def by blast
  ultimately show ?case using init(2) by simp
next
  case (malloc s L sz p s')
  then show ?case by (intro heap_ok_malloc)
next
  case (free s L p s')
  then have "s' = s" by (simp add: mm_free_def run_simps)
  with free(3) show ?case unfolding heap_ok_def by blast
next
  case (realloc s L ptr sz r s')
  show ?case
  proof (cases "sz \<noteq> 0 \<and> ptr = 0")
    case True
    then have m: "mm_malloc sz s = Inr (r, s')" using realloc(2) by (simp add: mm_realloc_def)
    show ?thesis using heap_ok_malloc[OF realloc(4) m realloc(3)] by simp
  next
    case False
    then have "r = 0" "s' = s" using realloc(2) by (auto simp: mm_realloc_def mm_free_def run_simps split: if_splits)
    then show ?thesis using realloc(4) by simp
  qed
next
  case (store s L a n x v)
  then obtain lo us f cur full where "um_inv s lo us f cur full" "L \<subseteq> live (um_mem s) lo us"
    by (auto simp: heap_ok_def)
  with store(2-4) write_live[of s lo us f cur full a n x v] show ?case unfolding heap_ok_def by fastforce
qed

lemma heap_okE:
  assumes "heap_ok s L"
  obtains lo us f cur full where "um_inv s lo us f cur full" "L \<subseteq> live (um_mem s) lo us" "sizes_ok us"
    "8 dvd lo" "lo + extent us + 8 \<le> um_base s" "um_slots s + 1024 \<le> lo" "um_fast_full s + 16 \<le> lo"
proof -
  from assms obtain lo us f cur full where i: "um_inv s lo us f cur full" "L \<subseteq> live (um_mem s) lo us"
    by (auto simp: heap_ok_def)
  note I = um_inv_free[OF i(1)]
  show thesis
    using I(5) free_okD(1)[OF I(6)] by (intro that[OF i]) (auto simp: used_ok_def globals_ok_def)
qed

section \<open>A concrete program run\<close>

text \<open>The globals at 4096 and 5120, the break at 8192, one megabyte of address space.\<close>

definition boot_state :: um where
  "boot_state = \<lparr>um_mem = (\<lambda>_. 0), um_base = 0, um_bitmap = 0, um_slots = 4096, um_fast_full = 5120,
     um_brk = 8192, um_limit = 1048576\<rparr>"

lemma boot_state_ok: "boot_ok boot_state"
  by (simp add: boot_ok_def loaded_def boot_state_def init_top_def)

lemma boot_run:
  obtains s where "mm_init boot_state = Inr (0, s)" "um_reach s {}" "um_inv s 8192 [] 4088 [] []" "um_limit s = 1048576"
proof -
  have e: "ALIGN 8192 = 8192" "init_top 8192 = 12288" by (simp_all add: ALIGN_def init_top_def)
  obtain s where s: "mm_init boot_state = Inr (0, s)" "same_env boot_state s" "um_inv s 8192 [] 4088 [] []"
    using boot_inv[OF boot_state_ok] by (auto simp: boot_state_def e)
  show thesis
    by (rule that[OF s(1) um_reach.init[OF boot_state_ok s(1)] s(3)]) (use s(2) in \<open>simp add: same_env_def boot_state_def\<close>)
qed

lemma boot_room: "um_inv s 8192 us f cur full \<Longrightarrow> um_limit s = 1048576 \<Longrightarrow> extent us + f \<le> 900000 \<Longrightarrow> room s"
  using um_inv_free(7)[of s 8192 us f cur full] by (simp add: room_def)

text \<open>Calling \<^verbatim>\<open>mm_malloc\<close> with the same size \<open>n\<close> times.\<close>

primrec malloc_n :: "nat \<Rightarrow> 32 word \<Rightarrow> unit um_prog" where
  "malloc_n 0 sz = ret ()"
| "malloc_n (Suc n) sz = sq (malloc_n n sz) (bnd (mm_malloc sz) (\<lambda>_. ret ()))"

lemma abs_request_48:
  assumes "96 \<le> f" "8 dvd f"
  shows "abs_request (us, f) 48 = (us @ [(48, False)], f - 48)"
proof -
  have "slot_index 48 = 2" "tiny_need 48 = 48" by (simp_all add: slot_index_def tiny_need_def)
  moreover have "3 \<le> slot_index f" using slot_index_mono[of 64 f] slot_index_mono[OF assms(1)] by (simp add: slot_index_def)
  moreover have "48 \<le> f - 48" using assms(1) by simp
  ultimately show ?thesis using assms by (simp add: abs_request_def abs_alloc_def abs_next_def carve_def)
qed

lemma malloc_40_run:
  assumes "k \<le> 84" and init: "um_inv s 8192 [] 4088 [] []" "um_limit s = 1048576" "um_reach s {}"
  shows "\<exists>t L. malloc_n k 40 s = Inr ((), t) \<and> um_reach t L \<and> um_limit t = 1048576 \<and>
    um_inv t 8192 (replicate k (48, False)) (4088 - 48 * k) [] []"
  using assms(1)
proof (induction k)
  case 0
  then show ?case using init by (auto simp: run_simps)
next
  case (Suc k)
  then obtain t L where t: "malloc_n k 40 s = Inr ((), t)" "um_reach t L" "um_limit t = 1048576"
    "um_inv t 8192 (replicate k (48, False)) (4088 - 48 * k) [] []" by auto
  have ex: "extent (replicate k (48, False)) = 48 * k" by (simp add: extent_def sum_list_replicate)
  have rm: "room t" using boot_room[OF t(4,3)] Suc.prems by (simp add: ex)
  have rs: "request_size 40 = 48" by (simp add: request_size_def)
  obtain s' us' f' where m: "mm_malloc 40 t = Inr (8192 + extent (replicate k (48, False)) + 8, s')"
    "um_inv s' 8192 us' f' [] []" "same_env t s'" "abs_request (replicate k (48, False), 4088 - 48 * k) (request_size 40) = (us', f')"
    by (rule mm_malloc_large[OF t(4) rm, of 40]) (simp, simp add: max_request_def, rule that)
  have "8 dvd (4088 - 48 * k)" by (intro dvd_diff_nat) auto
  then have "abs_request (replicate k (48, False), 4088 - 48 * k) 48 = (replicate k (48, False) @ [(48, False)], 4088 - 48 * k - 48)"
    using Suc.prems by (intro abs_request_48) auto
  then have "us' = replicate (Suc k) (48, False)" "f' = 4088 - 48 * Suc k"
    using m(4) by (auto simp: rs replicate_append_same)
  moreover have "malloc_n (Suc k) 40 s = Inr ((), s')" using t(1) m(1) by (simp add: run_simps)
  moreover have "um_reach s' (insert (8192 + extent (replicate k (48, False)) + 8, usable s' (8192 + extent (replicate k (48, False)) + 8)) L)"
    by (rule um_reach.malloc[OF t(2) m(1)]) (simp add: free_okD(1,2)[OF um_inv_free(6)[OF m(2)]])
  ultimately show ?case using m(2,3) t(3) by (auto simp: same_env_def)
qed

lemma boot_malloc_40:
  assumes "um_inv s 8192 us f [] []" "um_limit s = 1048576" "um_reach s L" "96 \<le> f" "f \<le> 4088" "extent us \<le> 4088"
  obtains s' where "mm_malloc 40 s = Inr (8192 + extent us + 8, s')" "um_inv s' 8192 (us @ [(48, False)]) (f - 48) [] []"
    "um_limit s' = 1048576" "um_reach s' (insert (8192 + extent us + 8, 40) L)" "room s"
proof -
  have rm: "room s" using boot_room[OF assms(1,2)] assms(5,6) by simp
  have f8: "8 dvd f" using free_ok_chunkD(1)[OF um_inv_free(6)[OF assms(1)]] assms(4) by simp
  obtain s' us' f' where m: "mm_malloc 40 s = Inr (8192 + extent us + 8, s')"
    "um_inv s' 8192 us' f' [] []" "same_env s s'" "abs_request (us, f) (request_size 40) = (us', f')"
    by (rule mm_malloc_large[OF assms(1) rm, of 40]) (simp, simp add: max_request_def, rule that)
  have u: "us' = us @ [(48, False)]" "f' = f - 48"
    using m(4) abs_request_48[OF assms(4) f8] by (simp_all add: request_size_def)
  have "usable s' (8192 + extent us + 8) = 40" using last_header[OF m(2)[unfolded u]] by simp
  moreover have "um_reach s' (insert (8192 + extent us + 8, usable s' (8192 + extent us + 8)) L)"
    by (rule um_reach.malloc[OF assms(3) m(1)]) (simp add: free_okD(1,2)[OF um_inv_free(6)[OF m(2)]])
  ultimately show thesis
    using that[OF m(1) m(2)[unfolded u]] m(3) assms(2) rm by (simp add: same_env_def)
qed

lemma boot_two_blocks:
  obtains s where "um_reach s {(8200, 40), (8248, 40)}" "um_inv s 8192 [(48, False), (48, False)] 3992 [] []"
    "um_limit s = 1048576" "room s"
proof -
  obtain s0 where s0: "mm_init boot_state = Inr (0, s0)" "um_reach s0 {}" "um_inv s0 8192 [] 4088 [] []" "um_limit s0 = 1048576"
    by (rule boot_run)
  obtain s1 where s1: "um_inv s1 8192 [(48, False)] 4040 [] []" "um_limit s1 = 1048576" "um_reach s1 {(8200, 40)}"
    by (rule boot_malloc_40[OF s0(3,4,2)]) simp_all
  obtain s2 where s2: "um_inv s2 8192 [(48, False), (48, False)] 3992 [] []" "um_limit s2 = 1048576"
    "um_reach s2 {(8248, 40), (8200, 40)}"
    by (rule boot_malloc_40[OF s1]) simp_all
  have "room s2" using boot_room[OF s2(1,2)] by simp
  then show thesis using that[OF _ s2(1,2)] s2(3) by (simp add: insert_commute)
qed

section \<open>Properties\<close>



text \<open>
  C14. While the break can still move, every request up to 61432 bytes returns: a non-null
  pointer, eight-byte aligned, to a block that overlaps none of those the client holds.
\<close>

theorem mm_malloc_fresh:
  assumes r: "um_reach s L" and rm: "room s" and sz: "unat sz \<le> max_request"
  shows "\<exists>p s'. mm_malloc sz s = Inr (p, s') \<and> p \<noteq> 0 \<and> 8 dvd p \<and> 24 \<le> usable s' p \<and>
    p + usable s' p + 8 \<le> um_base s' \<and> (\<forall>b \<in> L. apart (p, usable s' p) b)"
proof -
  obtain lo us f cur full where h: "um_inv s lo us f cur full" "L \<subseteq> live (um_mem s) lo us" "sizes_ok us" "8 dvd lo"
    by (rule heap_okE[OF um_reach_heap_ok[OF r]])
  obtain p s' where run: "mm_malloc sz s = Inr (p, s')" "um_base s' = um_brk s'" by (rule mm_malloc_runs[OF h(1) rm sz])
  obtain us' f' cur' full' where m: "um_inv s' lo us' f' cur' full'"
    "live (um_mem s') lo us' = insert (p, usable s' p) (live (um_mem s) lo us)" "(p, usable s' p) \<notin> live (um_mem s) lo us"
    by (rule mm_malloc_live[OF h(1) run]) (rule that)
  note I = um_inv_free[OF m(1)]
  have sz': "sizes_ok us'" using I(5) by (simp add: used_ok_def)
  have l: "(p, usable s' p) \<in> live (um_mem s') lo us'" using m(2) by simp
  have "apart (p, usable s' p) b" if "b \<in> L" for b
    using that h(2) m(2,3) by (intro live_apart[OF sz' l]) auto
  then show ?thesis
    using live_bounds[OF sz' l] h(4) run(1) free_okD(1)[OF I(6)] by (intro exI[of _ p] exI[of _ s']) auto
qed

theorem mm_malloc_fresh_witness:
  "\<exists>s p s'. um_reach s {(8200, 40), (8248, 40)} \<and> mm_malloc 20 s = Inr (p, s') \<and> apart (p, usable s' p) (8200, 40)"
proof -
  obtain s where s: "um_reach s {(8200, 40), (8248, 40)}" "room s" by (rule boot_two_blocks)
  from mm_malloc_fresh[OF s, of 20] s(1) show ?thesis by (auto simp: max_request_def)
qed

text \<open>
  C20. A call of \<^verbatim>\<open>mm_malloc\<close>, with any size, that the kernel does not refuse memory leaves the contents of every block the client
  holds as they were.
\<close>

theorem mm_malloc_keeps_contents:
  assumes r: "um_reach s L" and m: "mm_malloc sz s = Inr (p, s')" "um_base s' = um_brk s'" and b: "(a, n) \<in> L"
  shows "load_bytes (um_mem s') a n = load_bytes (um_mem s) a n"
proof -
  obtain lo us f cur full where h: "um_inv s lo us f cur full" "L \<subseteq> live (um_mem s) lo us"
    by (rule heap_okE[OF um_reach_heap_ok[OF r]])
  have "agree (um_mem s) (um_mem s') a (a + n)" by (rule mm_malloc_live[OF h(1) m]) (use b h(2) in blast)
  then show ?thesis by (simp add: load_bytes_def agree_def)
qed

theorem mm_malloc_keeps_contents_witness:
  "\<exists>s p s'. um_reach s {(8200, 40), (8248, 40)} \<and> mm_malloc 40 s = Inr (p, s') \<and>
     load_bytes (um_mem s') 8200 40 = load_bytes (um_mem s) 8200 40"
proof -
  obtain s where s: "um_reach s {(8200, 40), (8248, 40)}" "um_inv s 8192 [(48, False), (48, False)] 3992 [] []"
    "um_limit s = 1048576" "room s" by (rule boot_two_blocks)
  obtain p s' where m: "mm_malloc 40 s = Inr (p, s')" "um_base s' = um_brk s'"
    by (rule mm_malloc_runs[OF s(2,4), of 40]) (simp add: max_request_def, rule that)
  from mm_malloc_keeps_contents[OF s(1) m, of 8200 40] s(1) m show ?thesis by auto
qed

text \<open>
  C21. The block that a call returns, when the kernel does not refuse memory, is at least as long as the request, with two exceptions: for
  25 to 504 bytes it can be up to eight bytes short, and for \<open>2 ^ 32 - 15\<close> bytes and more, where the size wraps around, it has 24 bytes.
\<close>

theorem mm_malloc_size:
  assumes r: "um_reach s L" and m: "mm_malloc sz s = Inr (p, s')" "um_base s' = um_brk s'"
  shows "unat sz \<le> usable s' p \<or> 24 < unat sz \<and> unat sz \<le> 504 \<and> unat sz \<le> usable s' p + 8 \<or>
    2 ^ 32 - 15 \<le> unat sz \<and> usable s' p = 24"
proof -
  obtain lo us f cur full where h: "um_inv s lo us f cur full"
    by (rule heap_okE[OF um_reach_heap_ok[OF r]])
  show ?thesis by (rule mm_malloc_live[OF h m]) auto
qed

theorem mm_malloc_size_witness:
  "\<exists>s p s'. um_reach s {(8200, 40), (8248, 40)} \<and> mm_malloc 1000 s = Inr (p, s') \<and> 1000 \<le> usable s' p"
proof -
  obtain s where s: "um_reach s {(8200, 40), (8248, 40)}" "um_inv s 8192 [(48, False), (48, False)] 3992 [] []"
    "um_limit s = 1048576" "room s" by (rule boot_two_blocks)
  obtain p s' where m: "mm_malloc 1000 s = Inr (p, s')" "um_base s' = um_brk s'"
    by (rule mm_malloc_runs[OF s(2,4), of 1000]) (simp add: max_request_def, rule that)
  from mm_malloc_size[OF s(1) m] s(1) m show ?thesis by auto
qed

text \<open>
  C22. The eight bytes can really be missing: after 84 requests of 40 bytes the free chunk
  has 56 bytes, a request of 56 bytes is served from its slot without a look at its size,
  and the client's 56 bytes reach into the sentinel header below the break.
\<close>

theorem tiny_slot_short:
  "\<exists>s0 s1 s2 L p. mm_init boot_state = Inr (0, s0) \<and> malloc_n 84 40 s0 = Inr ((), s1) \<and> um_reach s1 L \<and>
     mm_malloc 56 s1 = Inr (p, s2) \<and> usable s2 p = 48 \<and> um_base s2 - 8 < p + 56"
proof -
  obtain s0 where s0: "mm_init boot_state = Inr (0, s0)" "um_reach s0 {}" "um_inv s0 8192 [] 4088 [] []" "um_limit s0 = 1048576"
    by (rule boot_run)
  let ?us = "replicate 84 (48, False) :: chunks"
  obtain s1 L where s1: "malloc_n 84 40 s0 = Inr ((), s1)" "um_reach s1 L" "um_limit s1 = 1048576"
    "um_inv s1 8192 ?us 56 [] []"
    using malloc_40_run[OF order.refl s0(3,4,2)] by auto
  have ex: "extent ?us = 4032" by (simp add: extent_def sum_list_replicate)
  have rm: "room s1" using boot_room[OF s1(4,3)] by (simp add: ex)
  obtain s2 us' f' where m: "mm_malloc 56 s1 = Inr (8192 + extent ?us + 8, s2)"
    "um_inv s2 8192 us' f' [] []" "abs_request (?us, 56) (request_size 56) = (us', f')"
    by (rule mm_malloc_large[OF s1(4) rm, of 56]) (simp, simp add: max_request_def, rule that)
  have "abs_request (?us, 56) 64 = (?us @ [(56, False)], 0)"
    by (simp add: abs_request_def abs_alloc_def slot_index_def)
  then have u: "us' = ?us @ [(56, False)]" "f' = 0" using m(3) by (simp_all add: request_size_def)
  have "usable s2 (8192 + extent ?us + 8) = 48" using last_header[OF m(2)[unfolded u]] by simp
  moreover have "um_base s2 = 8192 + extent ?us + 56 + 8"
    using free_okD(1)[OF um_inv_free(6)[OF m(2)[unfolded u]]] by simp
  moreover have "um_base s2 - 8 < 8192 + extent ?us + 8 + 56" using calculation(2) by linarith
  ultimately show ?thesis using s0(1) s1(1,2) m(1) by blast
qed

lemma abs_malloc_extent:
  assumes "abs_malloc (us, f) (cur \<noteq> []) (request_size sz) = Inr (us', f')" and inv: "um_inv s lo us f cur full"
  shows "served s f cur (request_size sz) \<longleftrightarrow> lo + extent us' + f' + 8 \<le> um_limit s"
proof -
  have b: "um_brk s = lo + extent us + f + 8" "um_brk s \<le> um_limit s"
    using um_inv_free(7)[OF inv] free_okD(3)[OF um_inv_free(6)[OF inv]] by simp_all
  show ?thesis
  proof (cases "request_size sz \<le> 32")
    case fast: True
    show ?thesis
    proof (cases "cur = []")
      case True
      obtain vs g where v: "abs_request (us, f) 4144 = (vs, g)" by fastforce
      have f8: "8 dvd f" using free_ok_chunkD(1)[OF um_inv_free(6)[OF inv]] by (cases "f = 0") auto
      obtain c where c: "vs = us @ [(c, False)]" using abs_request_shape[OF v _ _ f8] by auto
      have "us' = us @ [(c, True)]" "f' = g" using assms(1) fast True v c by (simp_all add: abs_malloc_def abs_fast_def)
      moreover have "extent vs + g = extent us + f + growth f 4144" using abs_request_growth[OF v] by simp
      ultimately have "lo + extent us' + f' + 8 = um_brk s + growth f 4144" using b(1) c by simp
      then show ?thesis using fast True by (simp add: served_def)
    next
      case False
      then have "us' = us" "f' = f" using assms(1) fast by (simp_all add: abs_malloc_def abs_fast_def)
      then show ?thesis using fast False b by (simp add: served_def)
    qed
  next
    case False
    have r: "32 < request_size sz" using False by simp
    have ok: "request_size sz \<le> 61440 \<or> request_size sz \<le> f" "abs_request (us, f) (request_size sz) = (us', f')"
      using assms(1) False by (auto simp: abs_malloc_def split: if_splits)
    have "extent us' + f' = extent us + f + growth f (request_size sz)"
      using abs_request_growth[OF ok(2) _ r] request_size_bounds(3)[OF request_size_large(1)[OF r]] by simp
    then have "lo + extent us' + f' + 8 = um_brk s + growth f (request_size sz)" using b(1) by simp
    then show ?thesis using False ok(1) by (simp add: served_def)
  qed
qed

text \<open>
  C6. \<^verbatim>\<open>mm_malloc\<close> refines the abstract allocator on the list of chunk sizes, for requests of every size. Where \<open>abs_malloc\<close> has
  an answer and the heap it describes fits below the limit of the process, the call returns a non-null pointer and the bytes in memory
  represent that heap; a request of more than 24 bytes is placed after the chunks in use. If the heap does not fit, the kernel has
  refused memory after the call: above 24 bytes it returns NULL, and in any case \<^verbatim>\<open>base\<close> is beyond the break. Where \<open>abs_malloc\<close>
  has no answer, which is for chunks of more than 61440 bytes that the free chunk cannot serve, the call runs into a shift by 64
  (up to 65536 bytes) or an index beyond \<^verbatim>\<open>slots\<close>.
\<close>

theorem mm_malloc_refines:
  assumes inv: "um_inv s lo us f cur full"
  shows "case abs_malloc (us, f) (cur \<noteq> []) (request_size sz) of
      Inl e \<Rightarrow> mm_malloc sz s = Inl e
    | Inr (us', f') \<Rightarrow> if lo + extent us' + f' + 8 \<le> um_limit s
        then \<exists>p s' cur' full'. mm_malloc sz s = Inr (p, s') \<and> p \<noteq> 0 \<and> um_inv s' lo us' f' cur' full' \<and>
          (32 < request_size sz \<longrightarrow> p = lo + extent us + 8 \<and> cur' = cur \<and> full' = full)
        else (\<forall>p s'. mm_malloc sz s = Inr (p, s') \<longrightarrow> um_brk s' < um_base s') \<and>
          (32 < request_size sz \<longrightarrow> (\<exists>s'. mm_malloc sz s = Inr (0, s')))"
proof (cases "abs_malloc (us, f) (cur \<noteq> []) (request_size sz)")
  case (Inl e)
  then have r: "61440 < request_size sz" "request_size sz \<le> 65536 \<Longrightarrow> f < request_size sz"
    "e = (if 65536 < request_size sz then OutOfBounds else ShiftOverflow)" by (auto simp: abs_malloc_def split: if_splits)
  moreover have "\<not> served s f cur (request_size sz)" using r(1,2) um_inv_free(2)[OF inv] by (auto simp: served_def)
  ultimately show ?thesis using mm_malloc_not_served(3)[OF inv] Inl by simp
next
  case (Inr h)
  obtain us' f' where h: "h = (us', f')" by fastforce
  note E = abs_malloc_extent[OF Inr[unfolded h] inv]
  show ?thesis
  proof (cases "served s f cur (request_size sz)")
    case True
    obtain p s' vs g cur' full' where m: "mm_malloc sz s = Inr (p, s')" "um_inv s' lo vs g cur' full'"
      "live (um_mem s') lo vs = insert (p, usable s' p) (live (um_mem s) lo us)"
      "abs_malloc (us, f) (cur \<noteq> []) (request_size sz) = Inr (vs, g)"
      "32 < request_size sz \<longrightarrow> p = lo + extent us + 8 \<and> cur' = cur \<and> full' = full"
      by (rule mm_malloc_served[OF inv True]) (rule that)
    have "vs = us'" "g = f'" using m(4) Inr h by simp_all
    moreover have "sizes_ok vs" using um_inv_free(5)[OF m(2)] by (simp add: used_ok_def)
    then have "lo + 8 \<le> p" using m(3) by (intro live_bounds(1)[where n = "usable s' p"]) auto
    ultimately show ?thesis using m(1,2,5) True E Inr h by auto
  next
    case False
    have "request_size sz \<le> 61440" if "32 < request_size sz"
    proof (rule ccontr)
      assume r: "\<not> request_size sz \<le> 61440"
      then have "request_size sz \<le> f" using Inr that by (auto simp: abs_malloc_def split: if_splits)
      then show False using False r growth_0[of "request_size sz" f] um_inv_free(2)[OF inv] free_okD(3)[OF um_inv_free(6)[OF inv]]
        by (simp add: served_def)
    qed
    then show ?thesis using mm_malloc_not_served(1,2)[OF inv False] False E Inr h by auto
  qed
qed

theorem mm_malloc_refines_witness:
  "\<exists>s s' us' f'. um_inv s 8192 [(48, False), (48, False)] 3992 [] [] \<and> mm_malloc 100 s = Inr (8296, s') \<and>
     abs_malloc ([(48, False), (48, False)], 3992) False (request_size 100) = Inr (us', f') \<and> um_inv s' 8192 us' f' [] [] \<and>
     mm_malloc 65000 s = Inl ShiftOverflow \<and> mm_malloc 70000 s = Inl OutOfBounds"
proof -
  obtain s where s: "um_inv s 8192 [(48, False), (48, False)] 3992 [] []" "um_limit s = 1048576" by (rule boot_two_blocks)
  let ?h = "([(48, False), (48, False)], 3992)"
  have r: "request_size 100 = 112" "request_size 65000 = 65008" "request_size 70000 = 70008" by (simp_all add: request_size_small)
  have t: "tiny_need 112 = 112" "slot_index 112 = 6" "slot_index 3992 = 47" by (simp_all add: tiny_need_def slot_index_def)
  have a: "abs_malloc ?h False 112 = Inr ([(48, False), (48, False), (112, False)], 3880)"
    by (simp add: abs_malloc_def abs_request_def abs_alloc_def abs_next_def carve_def t)
  have e: "abs_malloc ?h False 65008 = Inl ShiftOverflow" "abs_malloc ?h False 70008 = Inl OutOfBounds" by (simp_all add: abs_malloc_def)
  from mm_malloc_refines[OF s(1), of 100] obtain s' where "mm_malloc 100 s = Inr (8296, s')"
    "um_inv s' 8192 [(48, False), (48, False), (112, False)] 3880 [] []" by (auto simp: r a s(2))
  moreover from mm_malloc_refines[OF s(1), of 65000] mm_malloc_refines[OF s(1), of 70000]
  have "mm_malloc 65000 s = Inl ShiftOverflow" "mm_malloc 70000 s = Inl OutOfBounds" by (simp_all add: r e)
  ultimately show ?thesis using s(1) a unfolding r(1) by blast
qed

text \<open>
  C23. \<^verbatim>\<open>mm_init\<close>, called with the zeroed globals below the break. When the kernel grants the memory up to the end of the page after the
  next page boundary, it returns 0 and establishes the invariant: one free chunk from the aligned break up to the sentinel, no block in use. In
  no case does it return -1, so that a refusal goes unnoticed.
\<close>

theorem mm_init_establishes:
  assumes "loaded s"
  shows "(init_top (um_brk s) \<le> um_limit s \<longrightarrow> (\<exists>s'. mm_init s = Inr (0, s') \<and> um_brk s' = init_top (um_brk s) \<and>
      um_inv s' (ALIGN (um_brk s)) [] (init_top (um_brk s) - ALIGN (um_brk s) - 8) [] [])) \<and>
    (\<forall>r s'. mm_init s = Inr (r, s') \<longrightarrow> r = 0)"
proof (intro conjI impI)
  have b: "um_brk s < 2 ^ 63" "um_brk s \<le> 2 ^ 38" using assms by (simp_all add: loaded_def)
  show "\<forall>r s'. mm_init s = Inr (r, s') \<longrightarrow> r = 0" using mm_init_never_fails[OF b(2)] by blast
  assume "init_top (um_brk s) \<le> um_limit s"
  with assms have "boot_ok s" by (simp add: boot_ok_def)
  then obtain s' where s': "mm_init s = Inr (0, s')"
    "um_inv s' (ALIGN (um_brk s)) [] (init_top (um_brk s) - ALIGN (um_brk s) - 8) [] []" by (rule boot_inv)
  moreover have "um_brk s' = init_top (um_brk s)"
    using um_inv_free(7)[OF s'(2)] init_top_bounds(1)[of "um_brk s"] ALIGN_bounds(2)[OF b(1)] by simp
  ultimately show "\<exists>s'. mm_init s = Inr (0, s') \<and> um_brk s' = init_top (um_brk s) \<and>
    um_inv s' (ALIGN (um_brk s)) [] (init_top (um_brk s) - ALIGN (um_brk s) - 8) [] []" by blast
qed

theorem mm_init_establishes_witness:
  "loaded boot_state \<and> (\<exists>s'. mm_init boot_state = Inr (0, s') \<and> um_inv s' 8192 [] 4088 [] [])"
proof -
  have l: "loaded boot_state" "init_top (um_brk boot_state) \<le> um_limit boot_state" using boot_state_ok by (simp_all add: boot_ok_def)
  from mm_init_establishes[OF l(1)] l show ?thesis by (auto simp: boot_state_def ALIGN_def init_top_def)
qed

end
