(* ===== verification/Um_Props.thy ===== *)
theory Um_Props
  imports Um_Client
begin

text \<open>
  Properties of single operations of the user-level allocator: the allocation from a
  page of 32-byte chunks, running out of memory, the logarithms, the search in the slot
  bitmap, and the arithmetic of the request size.
\<close>

text \<open>
  C28. With a current page, a request of at most 24 bytes takes one free 32-byte chunk of
  that page: the count of the page and its bitmap stay in step, exactly one bit is
  cleared, the other pages keep theirs, and a page whose last chunk is taken is moved
  to the list of full pages.
\<close>

theorem fast_allocate_takes_one:
  assumes "um_inv s lo us f [q] full"
  shows "\<exists>i s' cur' full'. fast_allocate s = Inr (q + 56 + 32 * i, s') \<and> i \<in> page_free (um_mem s) q \<and>
    page_free (um_mem s') q = page_free (um_mem s) q - {i} \<and>
    (\<forall>p \<in> page_set lo us - {q}. page_free (um_mem s') p = page_free (um_mem s) p) \<and>
    um_inv s' lo us f cur' full' \<and>
    (if page_free (um_mem s) q = {i} then cur' = [] \<and> set full' = insert q (set full) else cur' = [q] \<and> set full' = set full)"
proof -
  obtain i s' cur' full' where a: "fast_allocate s = Inr (q + 56 + 32 * i, s')"
    "i \<in> page_free (um_mem s) q" "um_inv s' lo us f cur' full'"
    "page_free (um_mem s') q = page_free (um_mem s) q - {i}"
    "\<And>p. p \<in> page_set lo us \<Longrightarrow> p \<noteq> q \<Longrightarrow> page_free (um_mem s') p = page_free (um_mem s) p"
    by (rule fast_allocate_inv[OF assms]) (rule that)
  have P: "pages_ok s lo us [q] full" "pages_ok s' lo us cur' full'"
    using um_inv_free(5)[OF assms] um_inv_free(5)[OF a(3)] by (simp_all add: used_ok_def)
  have ps: "set cur' \<union> set full' = insert q (set full)" using pages_okD(3)[OF P(1)] pages_okD(3)[OF P(2)] by auto
  have nf: "p \<notin> set cur'" if "p \<in> set full" for p
  proof
    assume p: "p \<in> set cur'"
    have "p \<noteq> q" using pages_okD(2)[OF P(1)] that by auto
    moreover have "p \<in> page_set lo us" using pages_okD(3)[OF P(1)] that by auto
    ultimately show False using a(5)[of p] pages_okD(7)[OF P(1) that] pages_okD(6)[OF P(2) p] by simp
  qed
  have c: "set cur' \<subseteq> {q}" using ps nf by auto
  have d: "distinct (cur' @ full')" "length cur' \<le> 1" using pages_okD(1,2)[OF P(2)] by simp_all
  have q: "q \<in> set cur' \<longleftrightarrow> page_free (um_mem s') q \<noteq> {}"
    using pages_okD(6)[OF P(2), of q] pages_okD(7)[OF P(2), of q] ps by auto
  have "if page_free (um_mem s) q = {i} then cur' = [] \<and> set full' = insert q (set full) else cur' = [q] \<and> set full' = set full"
  proof (cases "page_free (um_mem s) q = {i}")
    case True
    then have "cur' = []" using q a(4) c by (cases cur') auto
    then show ?thesis using True ps by simp
  next
    case False
    then have "q \<in> set cur'" using q a(2,4) by auto
    then have "cur' = [q]" using c d(2) by (cases cur') auto
    moreover have "q \<notin> set full" using pages_okD(2)[OF P(1)] by simp
    ultimately show ?thesis using False ps d(1) by auto
  qed
  then show ?thesis using a by blast
qed

lemma boot_page:
  obtains s c f where "um_inv s 8192 [(48, False), (48, False), (c, True)] f [8288] []"
proof -
  obtain s where s: "um_inv s 8192 [(48, False), (48, False)] 3992 [] []" "room s" by (rule boot_two_blocks)
  obtain t c f where "um_inv t 8192 ([(48, False), (48, False)] @ [(c, True)]) f [8192 + extent [(48, False), (48, False)]] []"
    by (rule fast_bin_reserve_inv[OF s(1)]) (use room_served(1)[OF s(2), of 20 3992 "[]"] request_size_fast[of 20] in \<open>simp add: served_def max_request_def\<close>, rule that)
  then show thesis using that by simp
qed

theorem fast_allocate_takes_one_witness:
  "\<exists>s c f i s'. um_inv s 8192 [(48, False), (48, False), (c, True)] f [8288] [] \<and>
     fast_allocate s = Inr (8288 + 56 + 32 * i, s') \<and> i \<in> page_free (um_mem s) 8288"
proof -
  obtain s c f where s: "um_inv s 8192 [(48, False), (48, False), (c, True)] f [8288] []" by (rule boot_page)
  from fast_allocate_takes_one[OF s] s show ?thesis by blast
qed

text \<open>
  C29. When the kernel refuses to move the break, \<^verbatim>\<open>malloc_brk\<close> returns NULL, but \<^verbatim>\<open>base\<close> has
  been moved already: from then on it lies beyond the break, and the next call of
  \<^verbatim>\<open>malloc_brk\<close> accesses memory the process does not have.
\<close>

theorem malloc_brk_refused:
  assumes inv: "um_inv s lo us f cur full" and need: "48 \<le> need" "need \<le> 61440"
    and no: "um_limit s < um_brk s + pgup need"
  shows "\<exists>s'. malloc_brk need s = Inr (0, s') \<and> um_brk s' = um_brk s \<and> um_base s' = um_base s + pgup need \<and>
    malloc_brk need' s' = Inl Fault"
proof -
  obtain s' where s': "malloc_brk need s = Inr (0, s')" "um_brk s' = um_brk s" "um_base s' = um_brk s + pgup need"
    by (rule malloc_brk_no_room[OF inv need no])
  note I = um_inv_free[OF inv]
  have b: "um_base s = um_brk s" "8 \<le> um_brk s" "um_brk s \<le> 2 ^ 38" "pgup need \<le> 65536"
    using free_okD(1-3)[OF I(6)] used_ok_bounds(3)[OF I(5)] pgup_le[of need 15] need(2) by simp_all
  have n: "48 \<le> pgup need" using pgup_bounds(1)[of need] need(1) by simp
  let ?v = "w64 (w64 (need' + 4095) div 4096 * 4096)"
  have "(8::nat) dvd ?v" unfolding w64_def by (intro dvd_mod) (auto intro: dvd_trans[of 8 4096] dvd_mult)
  moreover have "list_pack (um_base s') = um_base s' - 8" using s'(3) b n by (intro list_pack_small) simp_all
  ultimately have "pack_set_size (list_pack (um_base s')) (of_nat ?v) s' = Inl Fault"
    using s' b n by (simp add: pack_set_size_def IMPOSSIBLE_def ld32_def run_simps of_nat_and_7)
  then have "malloc_brk need' s' = Inl Fault" by (simp add: malloc_brk_def Let_def run_simps)
  then show ?thesis using s' b(1) by auto
qed

theorem malloc_brk_refused_witness:
  "\<exists>s s'. um_inv s 8192 [] 4088 [] [] \<and> um_limit s < um_brk s + pgup 4104 \<and>
     malloc_brk 4104 s = Inr (0, s') \<and> um_base s' = um_brk s' + 8192 \<and> malloc_brk 48 s' = Inl Fault"
proof -
  let ?s = "boot_state\<lparr>um_limit := 16384\<rparr>"
  have e: "ALIGN 8192 = 8192" "init_top 8192 = 12288" "pgup 4104 = 8192"
    by (simp_all add: ALIGN_def init_top_def pgup_def)
  obtain s where s: "um_inv s 8192 [] 4088 [] []" "um_limit s = 16384"
    using mm_init_inv[of ?s] by (auto simp: boot_state_def e same_env_def)
  have b: "um_brk s = 12288" "um_base s = 12288"
    using um_inv_free(7)[OF s(1)] free_okD(1)[OF um_inv_free(6)[OF s(1)]] by simp_all
  from malloc_brk_refused[OF s(1), of 4104 48] s b e show ?thesis by auto
qed

text \<open>
  C38. The branch-free logarithms are right on every 64-bit word: \<^verbatim>\<open>log2_floor64\<close> is the
  position of the highest set bit, \<^verbatim>\<open>log2_ceil64\<close> the exponent of the least power of two
  that is not below the argument.
\<close>

theorem log2_correct:
  assumes "x \<noteq> 0"
  shows "bit x (log2_floor64 x) \<and> (\<forall>j > log2_floor64 x. \<not> bit x j) \<and>
    unat x \<le> 2 ^ log2_ceil64 x \<and> (\<forall>k. unat x \<le> 2 ^ k \<longrightarrow> log2_ceil64 x \<le> k)"
proof -
  have u: "unat (x - 1) = unat x - 1" using assms by (simp add: unat_minus_one)
  have pos: "0 < unat x" using assms by (simp add: unat_gt_0)
  have "unat x \<le> 2 ^ log2_ceil64 x" using bitlen_upper[of "unat x - 1"] by (simp add: log2_ceil64_bitlen u)
  moreover have "log2_ceil64 x \<le> k" if k: "unat x \<le> 2 ^ k" for k
  proof (rule ccontr)
    assume "\<not> log2_ceil64 x \<le> k"
    then have lt: "k < bitlen (unat x - 1)" by (simp add: log2_ceil64_bitlen u)
    then have nz: "unat x - 1 \<noteq> 0" by (intro notI) simp
    have "(2::nat) ^ k \<le> 2 ^ (bitlen (unat x - 1) - 1)" using lt by (intro power_increasing) auto
    also have "\<dots> \<le> unat x - 1" using bitlen_lower[OF nz] .
    finally show False using k pos by linarith
  qed
  ultimately show ?thesis using log2_floor64_bit[OF assms] by blast
qed

theorem log2_correct_witness:
  "(40 :: 64 word) \<noteq> 0 \<and> bit (40 :: 64 word) (log2_floor64 40) \<and> unat (40 :: 64 word) \<le> 2 ^ log2_ceil64 40"
  using log2_correct[of 40] by simp

text \<open>
  C37. \<^verbatim>\<open>next_free\<close> of a slot below the last one finds the first non-empty slot above it: the result is the
  single bit of the least such slot, or 0 when there is none. For slot 63, the last one, it shifts a 64-bit word by 64, which
  C leaves undefined.
\<close>

theorem next_free_least:
  "if index < 63
   then \<exists>r. next_free index s = Inr (r, s) \<and>
     (if \<exists>i. index < i \<and> bit (um_bitmap s) i
      then r = push_bit (LEAST i. index < i \<and> bit (um_bitmap s) i) 1 else r = 0)
   else next_free index s = Inl ShiftOverflow"
proof (cases "index < 63")
  case lt: True
  define x where "x = um_bitmap s AND push_bit (index + 1) (- 1)"
  have bits: "bit x i \<longleftrightarrow> index < i \<and> bit (um_bitmap s) i" for i
    using bit_imp_le_length[of "um_bitmap s" i] by (auto simp: x_def bit_simps)
  have r: "next_free index s = Inr (x AND (- x), s)"
    using next_free_run[OF lt, of s] by (simp add: x_def Let_def)
  have "\<exists>r. next_free index s = Inr (r, s) \<and>
     (if \<exists>i. index < i \<and> bit (um_bitmap s) i
      then r = push_bit (LEAST i. index < i \<and> bit (um_bitmap s) i) 1 else r = 0)"
  proof (cases "\<exists>i. index < i \<and> bit (um_bitmap s) i")
    case True
    then have "bit x (LEAST i. index < i \<and> bit (um_bitmap s) i)" unfolding bits by (rule LeastI_ex)
    moreover have "\<not> bit x j" if "j < (LEAST i. index < i \<and> bit (um_bitmap s) i)" for j
      using not_less_Least[OF that] by (simp add: bits)
    ultimately have "x AND (- x) = push_bit (LEAST i. index < i \<and> bit (um_bitmap s) i) 1" by (rule lowbit)
    then show ?thesis using True r by (intro exI[of _ "x AND - x"]) (simp only: if_True simp_thms)
  next
    case False
    then have "x = 0" by (intro bit_word_eqI) (auto simp: bits)
    then show ?thesis using False r by auto
  qed
  then show ?thesis using lt by simp
qed (simp add: next_free_def run_simps)

theorem next_free_least_witness:
  "\<exists>r. next_free 3 (boot_state\<lparr>um_bitmap := 2 ^ 10\<rparr>) = Inr (r, boot_state\<lparr>um_bitmap := 2 ^ 10\<rparr>) \<and> r = push_bit 10 1"
proof -
  have b: "bit ((2 :: 64 word) ^ 10) i \<longleftrightarrow> i = 10" for i by (auto simp only: bit_exp_iff possible_bit_def) simp_all
  have e: "\<exists>i>3. i = (10::nat)" by (rule exI[of _ 10]) simp
  have l: "(LEAST i. 3 < i \<and> i = (10::nat)) = 10" by (rule Least_equality) auto
  have m: "um_bitmap (boot_state\<lparr>um_bitmap := 2 ^ 10\<rparr>) = 2 ^ 10" by simp
  show ?thesis
    using next_free_least[of 3 "boot_state\<lparr>um_bitmap := 2 ^ 10\<rparr>"] unfolding m b using e l by auto
qed

text \<open>
  C40. The request size is computed in 32 bits. Up to \<open>2 ^ 32 - 16\<close> it is the request rounded up to eight plus the header; for the next
  eight sizes it wraps around to 0, and for the seven largest to 8, so that these fifteen requests are served as requests of at most 24 bytes.
\<close>

theorem request_size_wraps:
  "request_size sz = (if unat sz \<le> 2 ^ 32 - 16 then (unat sz + 7) div 8 * 8 + 8 else if unat sz \<le> 2 ^ 32 - 8 then 0 else 8) \<and>
   (2 ^ 32 - 16 < unat sz \<longrightarrow> mm_malloc sz = malloc_fast)"
proof -
  have "mm_malloc sz = malloc_fast" if "2 ^ 32 - 16 < unat sz" using that request_size_fast[of sz] by (intro fast_run) simp
  then show ?thesis using request_size_small[of sz] request_size_wrapped[of sz] by simp
qed

theorem request_size_wraps_witness:
  "request_size 100 = 112 \<and> request_size 4294967288 = 0 \<and> mm_malloc 4294967295 = malloc_fast"
  using request_size_wraps[of 100] request_size_wraps[of 4294967288] request_size_wraps[of 4294967295] by simp

end
