(* ===== verification/Str.thy ===== *)
theory Str
  imports Xv6_Base
begin

text \<open>
  The memory and string routines: \<^verbatim>\<open>kernel/string.c\<close> and their counterparts of the user
  library, \<^verbatim>\<open>user/ulib.c\<close>. Each C loop is a recursive function with the loop's variables
  as its arguments; \<^verbatim>\<open>char\<close> is unsigned, as it is on RISC-V. The loops that run to the
  terminating NUL are partial: without a NUL they do not return.
\<close>

section \<open>\<^verbatim>\<open>kernel/string.c\<close>\<close>

function memset_loop :: "memory \<Rightarrow> nat \<Rightarrow> byte \<Rightarrow> nat \<Rightarrow> nat \<Rightarrow> memory" where
  "memset_loop m dst c n i = (if i < n then memset_loop (m(dst + i := c)) dst c n (i + 1) else m)"
  by auto

termination memset_loop
  by (relation "measure (\<lambda>(m, dst, c, n, i). n - i)") auto

declare memset_loop.simps [simp del]

definition memset :: "memory \<Rightarrow> nat \<Rightarrow> 32 word \<Rightarrow> nat \<Rightarrow> memory" where
  "memset m dst c n = memset_loop m dst (ucast c) n 0"

fun memcmp :: "memory \<Rightarrow> nat \<Rightarrow> nat \<Rightarrow> nat \<Rightarrow> int" where
  "memcmp m s1 s2 0 = 0"
| "memcmp m s1 s2 (Suc n) =
     (if m s1 \<noteq> m s2 then uint (m s1) - uint (m s2) else memcmp m (s1 + 1) (s2 + 1) n)"

fun copy_up :: "memory \<Rightarrow> nat \<Rightarrow> nat \<Rightarrow> nat \<Rightarrow> memory" where
  "copy_up m d s 0 = m"
| "copy_up m d s (Suc n) = copy_up (m(d := m s)) (d + 1) (s + 1) n"

fun copy_down :: "memory \<Rightarrow> nat \<Rightarrow> nat \<Rightarrow> nat \<Rightarrow> memory" where
  "copy_down m d s 0 = m"
| "copy_down m d s (Suc n) = copy_down (m(d - 1 := m (s - 1))) (d - 1) (s - 1) n"

definition memmove :: "memory \<Rightarrow> nat \<Rightarrow> nat \<Rightarrow> nat \<Rightarrow> memory" where
  "memmove m dst src n =
     (if n = 0 then m
      else if src < dst \<and> src + n > dst then copy_down m (dst + n) (src + n) n
      else copy_up m dst src n)"

definition memcpy :: "memory \<Rightarrow> nat \<Rightarrow> nat \<Rightarrow> nat \<Rightarrow> memory" where
  "memcpy m dst src n = memmove m dst src n"

fun strncmp :: "memory \<Rightarrow> nat \<Rightarrow> nat \<Rightarrow> nat \<Rightarrow> int" where
  "strncmp m p q 0 = 0"
| "strncmp m p q (Suc n) =
     (if m p \<noteq> 0 \<and> m p = m q then strncmp m (p + 1) (q + 1) n else uint (m p) - uint (m q))"

fun fill_zero :: "memory \<Rightarrow> nat \<Rightarrow> nat \<Rightarrow> memory" where
  "fill_zero m s 0 = m"
| "fill_zero m s (Suc n) = fill_zero (m(s := 0)) (s + 1) n"

fun strncpy_loop :: "memory \<Rightarrow> nat \<Rightarrow> nat \<Rightarrow> nat \<Rightarrow> memory" where
  "strncpy_loop m s t 0 = m"
| "strncpy_loop m s t (Suc n) = (let m' = m(s := m t) in
     if m t \<noteq> 0 then strncpy_loop m' (s + 1) (t + 1) n else fill_zero m' (s + 1) n)"

definition strncpy :: "memory \<Rightarrow> nat \<Rightarrow> nat \<Rightarrow> int \<Rightarrow> memory" where
  "strncpy m s t n = strncpy_loop m s t (nat n)"

text \<open>The last argument is \<open>n\<close> after the decrement that the loop condition does.\<close>

fun safestrcpy_loop :: "memory \<Rightarrow> nat \<Rightarrow> nat \<Rightarrow> nat \<Rightarrow> memory" where
  "safestrcpy_loop m s t 0 = m(s := 0)"
| "safestrcpy_loop m s t (Suc n) = (let m' = m(s := m t) in
     if m t \<noteq> 0 then safestrcpy_loop m' (s + 1) (t + 1) n else m'(s + 1 := 0))"

definition safestrcpy :: "memory \<Rightarrow> nat \<Rightarrow> nat \<Rightarrow> int \<Rightarrow> memory" where
  "safestrcpy m s t n = (if n \<le> 0 then m else safestrcpy_loop m s t (nat (n - 1)))"

partial_function (option) strlen_loop :: "memory \<Rightarrow> nat \<Rightarrow> nat \<Rightarrow> nat option" where
  "strlen_loop m s n = (if m (s + n) \<noteq> 0 then strlen_loop m s (n + 1) else Some n)"

definition strlen :: "memory \<Rightarrow> nat \<Rightarrow> nat option" where
  "strlen m s = strlen_loop m s 0"

section \<open>\<^verbatim>\<open>user/ulib.c\<close>\<close>

partial_function (option) strcpy :: "memory \<Rightarrow> nat \<Rightarrow> nat \<Rightarrow> memory option" where
  "strcpy m s t = (let m' = m(s := m t) in
     if m t \<noteq> 0 then strcpy m' (s + 1) (t + 1) else Some m')"

partial_function (option) strcmp :: "memory \<Rightarrow> nat \<Rightarrow> nat \<Rightarrow> int option" where
  "strcmp m p q = (if m p \<noteq> 0 \<and> m p = m q then strcmp m (p + 1) (q + 1)
     else Some (uint (m p) - uint (m q)))"

partial_function (option) strchr :: "memory \<Rightarrow> nat \<Rightarrow> byte \<Rightarrow> nat option" where
  "strchr m s c = (if m s = 0 then Some 0 else if m s = c then Some s else strchr m (s + 1) c)"

text \<open>
  \<^verbatim>\<open>gets\<close>: the input is what the successive one-byte reads deliver; when it is used up
  \<^verbatim>\<open>read\<close> returns less than 1.
\<close>

fun gets_loop :: "memory \<Rightarrow> nat \<Rightarrow> nat \<Rightarrow> nat \<Rightarrow> byte list \<Rightarrow> memory \<times> byte list" where
  "gets_loop m buf mx i [] = (m(buf + i := 0), [])"
| "gets_loop m buf mx i (c # inp) =
     (if i + 1 < mx then
        let m' = m(buf + i := c) in
        if c = 10 \<or> c = 13 then (m'(buf + (i + 1) := 0), inp) else gets_loop m' buf mx (i + 1) inp
      else (m(buf + i := 0), c # inp))"

definition ugets :: "memory \<Rightarrow> nat \<Rightarrow> nat \<Rightarrow> byte list \<Rightarrow> memory \<times> byte list" where
  "ugets m buf mx inp = gets_loop m buf mx 0 inp"

text \<open>
  The number in \<^verbatim>\<open>atoi\<close> is an \<^verbatim>\<open>int\<close>. The loop adds the character before it subtracts \<^verbatim>\<open>'0'\<close>; where that sum is not an \<^verbatim>\<open>int\<close>
  the behaviour is undefined.
\<close>

partial_function (option) atoi_loop :: "memory \<Rightarrow> nat \<Rightarrow> int \<Rightarrow> (string + int) option" where
  "atoi_loop m s n = (if 48 \<le> m s \<and> m s \<le> 57 then
       if n * 10 + uint (m s) < 2 ^ 31 then atoi_loop m (s + 1) (n * 10 + uint (m s) - 48) else Some (Inl ''overflow'')
     else Some (Inr n))"

definition atoi :: "memory \<Rightarrow> nat \<Rightarrow> (string + int) option" where
  "atoi m s = atoi_loop m s 0"

definition umemmove :: "memory \<Rightarrow> nat \<Rightarrow> nat \<Rightarrow> nat \<Rightarrow> memory" where
  "umemmove m dst src n =
     (if src > dst then copy_up m dst src n else copy_down m (dst + n) (src + n) n)"

fun umemcmp :: "memory \<Rightarrow> nat \<Rightarrow> nat \<Rightarrow> nat \<Rightarrow> int" where
  "umemcmp m p1 p2 0 = 0"
| "umemcmp m p1 p2 (Suc n) =
     (if m p1 \<noteq> m p2 then uint (m p1) - uint (m p2) else umemcmp m (p1 + 1) (p2 + 1) n)"

section \<open>C strings in memory\<close>

definition cstring :: "memory \<Rightarrow> nat \<Rightarrow> byte list \<Rightarrow> bool" where
  "cstring m s bs \<longleftrightarrow> 0 \<notin> set bs \<and> load_bytes m s (length bs) = bs \<and> m (s + length bs) = 0"

lemma load_bytes_Suc: "load_bytes m a (Suc n) = m a # load_bytes m (a + 1) n"
  by (simp add: load_bytes_def upt_conv_Cons map_Suc_upt[symmetric] del: upt_Suc)

lemma load_bytes_0 [simp]: "load_bytes m a 0 = []"
  by (simp add: load_bytes_def)

lemma nth_load_bytes [simp]: "i < n \<Longrightarrow> load_bytes m a n ! i = m (a + i)"
  by (simp add: load_bytes_def)

lemma cstring_Nil: "cstring m s [] \<longleftrightarrow> m s = 0"
  by (simp add: cstring_def)

lemma cstring_Cons: "cstring m s (b # bs) \<longleftrightarrow> b \<noteq> 0 \<and> m s = b \<and> cstring m (s + 1) bs"
  by (auto simp: cstring_def load_bytes_Suc)

section \<open>What the block operations do\<close>

lemma store_bytes_Cons: "store_bytes m a (b # bs) = store_bytes (m(a := b)) (a + 1) bs"
proof (rule ext)
  fix x
  show "store_bytes m a (b # bs) x = store_bytes (m(a := b)) (a + 1) bs x"
    by (auto simp: store_bytes_def nth_Cons')
qed

lemma store_bytes_snoc: "store_bytes m a (bs @ [b]) = (store_bytes m a bs)(a + length bs := b)"
  by (rule ext) (auto simp: store_bytes_def nth_append)

lemma store_bytes_Nil [simp]: "store_bytes m a [] = m"
  by (rule ext) (auto simp: store_bytes_def)

lemma load_bytes_upd: "x < a \<or> a + n \<le> x \<Longrightarrow> load_bytes (m(x := v)) a n = load_bytes m a n"
  by (auto simp: load_bytes_def)

lemma memset_loop_run:
  "i \<le> n \<Longrightarrow> memset_loop m dst c n i = store_bytes m (dst + i) (replicate (n - i) c)"
proof (induction m dst c n i rule: memset_loop.induct)
  case (1 m dst c n i)
  show ?case
  proof (cases "i < n")
    case True
    then have "replicate (n - i) c = c # replicate (n - (i + 1)) c"
      by (metis Suc_diff_Suc Suc_eq_plus1 replicate_Suc)
    moreover have "memset_loop (m(dst + i := c)) dst c n (i + 1) =
        store_bytes (m(dst + i := c)) (dst + i + 1) (replicate (n - (i + 1)) c)"
      using 1(1)[OF True] True by (simp only: add.assoc)
    ultimately show ?thesis using True by (subst memset_loop.simps) (simp add: store_bytes_Cons)
  qed (use 1 in \<open>simp add: memset_loop.simps\<close>)
qed

lemma copy_up_run:
  "src \<ge> dst \<or> src + n \<le> dst \<Longrightarrow> copy_up m dst src n = store_bytes m dst (load_bytes m src n)"
proof (induction n arbitrary: m dst src)
  case (Suc n)
  show ?case
  proof (cases "src = dst")
    case True
    have "copy_up m dst src (Suc n) = store_bytes m (dst + 1) (load_bytes m (src + 1) n)"
      using Suc.IH[of "dst + 1" "src + 1" m] True by simp
    then show ?thesis using True by (simp add: load_bytes_Suc store_bytes_Cons)
  next
    case False
    then have "load_bytes (m(dst := m src)) (src + 1) n = load_bytes m (src + 1) n"
      using Suc.prems by (intro load_bytes_upd) auto
    moreover have "copy_up (m(dst := m src)) (dst + 1) (src + 1) n =
        store_bytes (m(dst := m src)) (dst + 1) (load_bytes (m(dst := m src)) (src + 1) n)"
      by (rule Suc.IH) (use Suc.prems False in auto)
    ultimately show ?thesis by (simp add: load_bytes_Suc store_bytes_Cons)
  qed
qed simp

lemma load_bytes_snoc: "load_bytes m a (Suc n) = load_bytes m a n @ [m (a + n)]"
  by (simp add: load_bytes_def)

lemma store_bytes_upd_outside:
  "x < a \<or> a + length bs \<le> x \<Longrightarrow> store_bytes (m(x := v)) a bs = (store_bytes m a bs)(x := v)"
  by (rule ext) (auto simp: store_bytes_def)

lemma copy_down_run:
  "src \<le> dst \<or> dst + n \<le> src \<Longrightarrow> copy_down m (dst + n) (src + n) n = store_bytes m dst (load_bytes m src n)"
proof (induction n arbitrary: m)
  case (Suc n)
  let ?m = "m(dst + n := m (src + n))"
  have "load_bytes ?m src n = load_bytes m src n"
    using Suc.prems by (cases "src = dst") (auto intro!: load_bytes_upd)
  moreover have "copy_down m (dst + Suc n) (src + Suc n) (Suc n) = copy_down ?m (dst + n) (src + n) n"
    by simp
  moreover have "copy_down ?m (dst + n) (src + n) n = store_bytes ?m dst (load_bytes ?m src n)"
    by (rule Suc.IH) (use Suc.prems in auto)
  ultimately have "copy_down m (dst + Suc n) (src + Suc n) (Suc n) = store_bytes ?m dst (load_bytes m src n)"
    by (simp only:)
  then show ?case
    by (simp add: load_bytes_snoc store_bytes_snoc store_bytes_upd_outside)
qed simp

lemma memmove_run: "memmove m dst src n = store_bytes m dst (load_bytes m src n)"
  by (auto simp: memmove_def copy_down_run copy_up_run)

lemma umemmove_run: "umemmove m dst src n = store_bytes m dst (load_bytes m src n)"
  by (auto simp: umemmove_def copy_down_run copy_up_run)

lemma memset_run: "memset m dst c n = store_bytes m dst (replicate n (ucast c))"
  by (simp add: memset_def memset_loop_run)

lemma memcmp_run:
  "memcmp m a b n = (if load_bytes m a n = load_bytes m b n then 0
     else let i = (LEAST i. m (a + i) \<noteq> m (b + i)) in uint (m (a + i)) - uint (m (b + i)))"
proof (induction n arbitrary: a b)
  case (Suc n)
  show ?case
  proof (cases "m a = m b")
    case True
    have "(LEAST i. m (a + i) \<noteq> m (b + i)) = Suc (LEAST i. m (a + 1 + i) \<noteq> m (b + 1 + i))"
      if ne: "load_bytes m (a + 1) n \<noteq> load_bytes m (b + 1) n"
    proof -
      have "\<exists>i. m (a + 1 + i) \<noteq> m (b + 1 + i)"
        using ne by (auto simp: list_eq_iff_nth_eq)
      then have "\<exists>i. m (a + Suc i) \<noteq> m (b + Suc i)" by simp
      then obtain i where "m (a + Suc i) \<noteq> m (b + Suc i)" ..
      then show ?thesis using True Least_Suc[of "\<lambda>i. m (a + i) \<noteq> m (b + i)" "Suc i"] by simp
    qed
    then show ?thesis using True Suc.IH[of "a + 1" "b + 1"] by (auto simp: load_bytes_Suc Let_def)
  next
    case False
    then have "(LEAST i. m (a + i) \<noteq> m (b + i)) = 0" by (intro Least_equality) auto
    then show ?thesis using False by (simp add: load_bytes_Suc)
  qed
qed simp

lemma umemcmp_memcmp: "umemcmp m a b n = memcmp m a b n"
  by (induction n arbitrary: a b) simp_all

section \<open>What the string operations do\<close>

lemma cstring_upd: "cstring m t bs \<Longrightarrow> x < t \<or> t + length bs < x \<Longrightarrow> cstring (m(x := v)) t bs"
  by (auto simp: cstring_def load_bytes_upd)

lemma fill_zero_run: "fill_zero m s n = store_bytes m s (replicate n 0)"
  by (induction n arbitrary: m s) (simp_all add: store_bytes_Cons)

lemma strncpy_loop_run:
  "cstring m t bs \<Longrightarrow> s + n \<le> t \<or> t + length bs < s \<Longrightarrow>
   strncpy_loop m s t n = store_bytes m s (take n (bs @ replicate n 0))"
proof (induction n arbitrary: m s t bs)
  case (Suc n)
  show ?case
  proof (cases bs)
    case Nil
    then show ?thesis using Suc.prems by (simp add: cstring_Nil fill_zero_run store_bytes_Cons)
  next
    case (Cons b cs)
    let ?m = "m(s := m t)"
    have "cstring ?m (t + 1) cs"
      using Suc.prems Cons by (intro cstring_upd) (auto simp: cstring_Cons)
    then have "strncpy_loop ?m (s + 1) (t + 1) n = store_bytes ?m (s + 1) (take n (cs @ replicate n 0))"
      by (rule Suc.IH) (use Suc.prems Cons in auto)
    moreover have "take n (cs @ replicate n 0) = take n (cs @ replicate (Suc n) (0 :: byte))"
      by (simp add: take_append del: replicate_Suc)
    ultimately show ?thesis using Suc.prems Cons by (simp add: cstring_Cons store_bytes_Cons)
  qed
qed simp

lemma safestrcpy_loop_run:
  "cstring m t bs \<Longrightarrow> s + n < t \<or> t + length bs < s \<Longrightarrow>
   (\<forall>x. x < s \<or> s + n < x \<longrightarrow> safestrcpy_loop m s t n x = m x) \<and> cstring (safestrcpy_loop m s t n) s (take n bs)"
proof (induction n arbitrary: m s t bs)
  case 0
  then show ?case by (simp add: cstring_Nil)
next
  case (Suc n)
  show ?case
  proof (cases bs)
    case Nil
    then show ?thesis using Suc.prems by (simp add: cstring_Nil)
  next
    case (Cons b cs)
    let ?m = "m(s := m t)"
    have "cstring ?m (t + 1) cs"
      using Suc.prems Cons by (intro cstring_upd) (auto simp: cstring_Cons)
    then have r: "(\<forall>x. x < s + 1 \<or> s + 1 + n < x \<longrightarrow> safestrcpy_loop ?m (s + 1) (t + 1) n x = ?m x) \<and>
        cstring (safestrcpy_loop ?m (s + 1) (t + 1) n) (s + 1) (take n cs)"
      by (rule Suc.IH) (use Suc.prems Cons in auto)
    then have "safestrcpy_loop ?m (s + 1) (t + 1) n s = m t" by simp
    with r show ?thesis using Suc.prems Cons by (simp add: cstring_Cons)
  qed
qed

lemma strncmp_eq_0:
  "strncmp m p q n = 0 \<longleftrightarrow> takeWhile (\<lambda>b. b \<noteq> 0) (load_bytes m p n) = takeWhile (\<lambda>b. b \<noteq> 0) (load_bytes m q n)"
proof (induction n arbitrary: p q)
  case (Suc n)
  have "uint (m p) - uint (m q) = 0 \<longleftrightarrow> m p = m q" by (simp add: uint_0_iff word_uint_eq_iff)
  then show ?case using Suc.IH[of "p + 1" "q + 1"] by (auto simp: load_bytes_Suc)
qed simp

lemma strlen_loop_run: "cstring m (s + n) bs \<Longrightarrow> strlen_loop m s n = Some (n + length bs)"
proof (induction bs arbitrary: n)
  case Nil
  then show ?case by (subst strlen_loop.simps) (simp add: cstring_Nil)
next
  case (Cons b bs)
  then show ?case by (subst strlen_loop.simps) (simp add: cstring_Cons)
qed

lemma strlen_run: "cstring m s bs \<Longrightarrow> strlen m s = Some (length bs)"
  using strlen_loop_run[of m s 0 bs] by (simp add: strlen_def)

lemma strcmp_run:
  "cstring m p bs \<Longrightarrow> cstring m q cs \<Longrightarrow> \<exists>r. strcmp m p q = Some r \<and> (r = 0 \<longleftrightarrow> bs = cs)"
proof (induction bs arbitrary: p q cs)
  case Nil
  then show ?case by (cases cs) (auto simp: strcmp.simps cstring_Nil cstring_Cons uint_0_iff)
next
  case (Cons b bs)
  show ?case
  proof (cases "m p = m q")
    case True
    then obtain ds where ds: "cs = b # ds" using Cons.prems by (cases cs) (auto simp: cstring_Nil cstring_Cons)
    then have "cstring m (p + 1) bs" "cstring m (q + 1) ds" using Cons.prems by (auto simp: cstring_Cons)
    from Cons.IH[OF this] show ?thesis using True Cons.prems ds by (subst strcmp.simps) (auto simp: cstring_Cons)
  next
    case False
    then have "uint (m p) - uint (m q) \<noteq> 0" by (simp add: word_uint_eq_iff)
    then show ?thesis
      using False Cons.prems by (subst strcmp.simps) (cases cs; auto simp: cstring_Nil cstring_Cons)
  qed
qed

lemma strchr_run:
  "cstring m s bs \<Longrightarrow> strchr m s c = Some (if c \<in> set bs then s + length (takeWhile (\<lambda>b. b \<noteq> c) bs) else 0)"
proof (induction bs arbitrary: s)
  case Nil
  then show ?case by (subst strchr.simps) (simp add: cstring_Nil)
next
  case (Cons b bs)
  then show ?case by (subst strchr.simps) (auto simp: cstring_Cons)
qed

section \<open>Properties\<close>

text \<open>
  C33. Both versions of \<^verbatim>\<open>memmove\<close> copy the bytes the source held before the call, however
  the two ranges overlap; the kernel's and the user library's agree although they choose
  the direction of the copy by different tests.
\<close>

theorem memmove_overlap:
  "memmove m dst src n = store_bytes m dst (load_bytes m src n) \<and> umemmove m dst src n = memmove m dst src n"
  by (simp add: memmove_run umemmove_run)

text \<open>
  C35. \<^verbatim>\<open>safestrcpy\<close> with a positive bound leaves a terminated string: the first \<open>n - 1\<close>
  characters of the source, and it writes no byte outside the \<open>n\<close> bytes of the target.
\<close>

theorem safestrcpy_terminates_string:
  assumes "cstring m t bs" "0 < n" "s + nat n \<le> t \<or> t + length bs < s"
  shows "cstring (safestrcpy m s t n) s (take (nat (n - 1)) bs) \<and>
    (\<forall>x. x < s \<or> s + nat n \<le> x \<longrightarrow> safestrcpy m s t n x = m x)"
proof -
  have e: "nat n = Suc (nat (n - 1))" using assms(2) by simp
  have "(\<forall>x. x < s \<or> s + nat (n - 1) < x \<longrightarrow> safestrcpy_loop m s t (nat (n - 1)) x = m x) \<and>
    cstring (safestrcpy_loop m s t (nat (n - 1))) s (take (nat (n - 1)) bs)"
    by (rule safestrcpy_loop_run[OF assms(1)]) (use assms(3) e in auto)
  then show ?thesis using assms(2) e by (auto simp: safestrcpy_def)
qed

definition sample_mem :: memory where
  "sample_mem = store_bytes (\<lambda>_. 7) 100 [104, 105, 106, 107, 0]"

lemma sample_string: "cstring sample_mem 100 [104, 105, 106, 107]"
  by (simp add: sample_mem_def cstring_def load_bytes_def store_bytes_def upt_rec)

theorem safestrcpy_terminates_string_witness:
  "cstring (safestrcpy sample_mem 200 100 3) 200 [104, 105]"
  using safestrcpy_terminates_string[OF sample_string, of 3 200] by simp

text \<open>
  \<^verbatim>\<open>strncpy\<close> fills the whole field of \<open>n\<close> bytes: the characters of the source, cut off
  at \<open>n\<close>, then zeros; and \<^verbatim>\<open>strncmp\<close> finds two such fields equal exactly when the names
  in them are.
\<close>

theorem strncpy_field:
  assumes "cstring m t bs" "s + nat n \<le> t \<or> t + length bs < s"
  shows "strncpy m s t n = store_bytes m s (take (nat n) (bs @ replicate (nat n) 0)) \<and>
    (strncmp (strncpy m s t n) s q (nat n) = 0 \<longleftrightarrow>
       take (nat n) bs = takeWhile (\<lambda>b. b \<noteq> 0) (load_bytes (strncpy m s t n) q (nat n)))"
proof -
  let ?f = "take (nat n) (bs @ replicate (nat n) 0)"
  have r: "strncpy m s t n = store_bytes m s ?f"
    using strncpy_loop_run[OF assms(1), of s "nat n"] assms(2) by (simp add: strncpy_def)
  have len: "length ?f = nat n" by simp
  have "load_bytes (strncpy m s t n) s (nat n) = ?f"
    unfolding r using load_store_bytes[of m s ?f] len by simp
  moreover have "takeWhile (\<lambda>b. b \<noteq> 0) ?f = take (nat n) bs"
  proof -
    have "0 \<notin> set bs" using assms(1) by (simp add: cstring_def)
    then have "takeWhile (\<lambda>b. b \<noteq> 0) (take (nat n) bs @ zs) = take (nat n) bs @ takeWhile (\<lambda>b. b \<noteq> 0) zs" for zs
      by (intro takeWhile_append2) (auto dest: in_set_takeD)
    from this[of "replicate (nat n - length bs) 0"] this[of "[]"] show ?thesis
      by (cases "nat n - length bs") (simp_all add: take_append)
  qed
  ultimately show ?thesis using r strncmp_eq_0[of "strncpy m s t n" s q "nat n"] by simp
qed

theorem strncpy_field_witness:
  "strncpy sample_mem 200 100 6 = store_bytes sample_mem 200 [104, 105, 106, 107, 0, 0]"
  using strncpy_field[OF sample_string, of 200 6] by (simp add: eval_nat_numeral)

text \<open>
  C34. On a terminated string the scanning loops return: \<^verbatim>\<open>strlen\<close> its length, \<^verbatim>\<open>strcmp\<close> zero
  exactly for equal strings, \<^verbatim>\<open>strchr\<close> the first occurrence or NULL, and \<^verbatim>\<open>memcmp\<close> zero
  exactly when the two ranges hold the same bytes.
\<close>

theorem string_scans_return:
  assumes "cstring m p bs" "cstring m q cs"
  shows "strlen m p = Some (length bs) \<and> (\<exists>r. strcmp m p q = Some r \<and> (r = 0 \<longleftrightarrow> bs = cs)) \<and>
    strchr m p c = Some (if c \<in> set bs then p + length (takeWhile (\<lambda>b. b \<noteq> c) bs) else 0) \<and>
    (memcmp m p q n = 0 \<longleftrightarrow> load_bytes m p n = load_bytes m q n)"
proof -
  have "memcmp m p q n = 0 \<longleftrightarrow> load_bytes m p n = load_bytes m q n"
  proof (cases "load_bytes m p n = load_bytes m q n")
    case False
    then obtain i where "m (p + i) \<noteq> m (q + i)" by (auto simp: list_eq_iff_nth_eq)
    then have "m (p + (LEAST i. m (p + i) \<noteq> m (q + i))) \<noteq> m (q + (LEAST i. m (p + i) \<noteq> m (q + i)))"
      by (rule LeastI)
    then show ?thesis using False by (simp add: memcmp_run Let_def word_uint_eq_iff)
  qed (simp add: memcmp_run)
  then show ?thesis using strlen_run[OF assms(1)] strcmp_run[OF assms] strchr_run[OF assms(1)] by blast
qed

theorem string_scans_return_witness:
  "strlen sample_mem 100 = Some 4 \<and> strchr sample_mem 100 106 = Some 102 \<and> strcmp sample_mem 100 100 = Some 0"
  using string_scans_return[OF sample_string sample_string, of 106 0] by auto

end
