(* ===== verification/Kalloc.thy ===== *)
theory Kalloc
  imports Str
begin

text \<open>
  The physical page allocator, \<^verbatim>\<open>kernel/kalloc.c\<close>: a free list threaded through the first
  eight bytes of the free pages. The state is the physical memory, the head of the list
  and the address \<^verbatim>\<open>end\<close> that the linker gives. A critical section under \<^verbatim>\<open>kmem.lock\<close> is one
  step. Kernel operations end in a panic, or have to wait for another process; both are
  values of \<open>kerr\<close>.
\<close>

datatype kerr =
    Panic string
  | Sleeps string        \<comment> \<open>the process sleeps on a channel until it is woken up\<close>
  | NoFuel               \<comment> \<open>a recursion deeper than the model follows\<close>
  | Undef string         \<comment> \<open>an access outside an array, which C leaves undefined\<close>

record phys =
  pm :: memory
  freelist :: nat
  kend :: nat

type_synonym ('z, 'a) kprog = "('z phys_scheme, kerr, 'a) comp"

definition PGSIZE :: nat where
  "PGSIZE = 4096"

definition KERNBASE :: nat where
  "KERNBASE = 0x80000000"

definition PHYSTOP :: nat where
  "PHYSTOP = KERNBASE + 128 * 1024 * 1024"

definition PGROUNDUP :: "nat \<Rightarrow> nat" where
  "PGROUNDUP sz = w64 (sz + 4095) div 4096 * 4096"

definition PGROUNDDOWN :: "nat \<Rightarrow> nat" where
  "PGROUNDDOWN a = a div 4096 * 4096"

definition panic :: "string \<Rightarrow> ('s, kerr, 'a) comp" where
  "panic s = fail (Panic s)"

definition mem_upd :: "(memory \<Rightarrow> memory) \<Rightarrow> ('z, unit) kprog" where
  "mem_upd f = upd (\<lambda>s. s\<lparr>pm := f (pm s)\<rparr>)"

definition kfree :: "nat \<Rightarrow> ('z, unit) kprog" where
  "kfree pa = bnd (gets kend) (\<lambda>e.
     if pa mod PGSIZE \<noteq> 0 \<or> pa < e \<or> pa \<ge> PHYSTOP then panic ''kfree'' else
     sq (mem_upd (\<lambda>m. memset m pa 1 PGSIZE))
     (bnd (gets freelist) (\<lambda>fl.
     sq (mem_upd (\<lambda>m. store64 m pa (of_nat fl)))
     (upd (\<lambda>s. s\<lparr>freelist := pa\<rparr>)))))"

definition kalloc :: "('z, nat) kprog" where
  "kalloc = bnd (gets freelist) (\<lambda>r.
     if r = 0 then ret 0 else
     sq (upd (\<lambda>s. s\<lparr>freelist := unat (load64 (pm s) r)\<rparr>))
     (sq (mem_upd (\<lambda>m. memset m r 5 PGSIZE))
     (ret r)))"

text \<open>The loop of \<^verbatim>\<open>freerange\<close>; the count is the number of whole pages up to \<open>pa_end\<close>.\<close>

primrec freerange_loop :: "nat \<Rightarrow> nat \<Rightarrow> ('z, unit) kprog" where
  "freerange_loop 0 p = ret ()"
| "freerange_loop (Suc n) p = sq (kfree p) (freerange_loop n (p + PGSIZE))"

definition freerange :: "nat \<Rightarrow> nat \<Rightarrow> ('z, unit) kprog" where
  "freerange pa_start pa_end = (let p = PGROUNDUP pa_start in
     freerange_loop ((pa_end - p) div PGSIZE) p)"

definition kinit :: "('z, unit) kprog" where
  "kinit = bnd (gets kend) (\<lambda>e. freerange e PHYSTOP)"

section \<open>The free list as a list of pages\<close>

fun page_chain :: "memory \<Rightarrow> nat \<Rightarrow> nat list \<Rightarrow> bool" where
  "page_chain m r [] \<longleftrightarrow> r = 0"
| "page_chain m r (p # ps) \<longleftrightarrow> r = p \<and> page_chain m (unat (load64 m p)) ps"

definition page_addr :: "nat \<Rightarrow> nat \<Rightarrow> bool" where
  "page_addr e p \<longleftrightarrow> p mod PGSIZE = 0 \<and> e \<le> p \<and> p < PHYSTOP \<and> p \<noteq> 0"

definition kmem_inv :: "'z phys_scheme \<Rightarrow> nat list \<Rightarrow> bool" where
  "kmem_inv s ps \<longleftrightarrow> page_chain (pm s) (freelist s) ps \<and> distinct ps \<and> (\<forall>p \<in> set ps. page_addr (kend s) p)"

lemma pages_apart_4096: "p mod 4096 = 0 \<Longrightarrow> q mod 4096 = 0 \<Longrightarrow> p \<noteq> q \<Longrightarrow> p + 4096 \<le> q \<or> q + 4096 \<le> (p :: nat)"
proof -
  assume "p mod 4096 = 0" "q mod 4096 = 0" "p \<noteq> q"
  then obtain a b where "p = 4096 * a" "q = 4096 * b" "a \<noteq> b" by (auto elim!: dvdE simp: mod_eq_0_iff_dvd)
  then show ?thesis by (cases "a < b") auto
qed

lemma page_apart: "page_addr e p \<Longrightarrow> page_addr e' q \<Longrightarrow> p \<noteq> q \<Longrightarrow> p + PGSIZE \<le> q \<or> q + PGSIZE \<le> p"
  using pages_apart_4096[of p q] by (simp add: page_addr_def PGSIZE_def)

lemma page_chain_frame:
  assumes "page_chain m r ps" "\<And>p x. p \<in> set ps \<Longrightarrow> p \<le> x \<Longrightarrow> x < p + 8 \<Longrightarrow> m' x = m x"
  shows "page_chain m' r ps"
  using assms
proof (induction m r ps rule: page_chain.induct)
  case (2 m r p ps)
  have "load64 m' p = load64 m p" by (rule load64_cong) (simp add: "2.prems"(2)[of p])
  moreover have "page_chain m' (unat (load64 m p)) ps"
    by (rule "2.IH") (use "2.prems" in auto)
  ultimately show ?case using "2.prems"(1) by simp
qed simp

lemma memset_other: "x < a \<or> a + n \<le> x \<Longrightarrow> memset m a c n x = m x"
  by (simp add: memset_run store_bytes_other)

lemma memset_same: "a \<le> x \<Longrightarrow> x < a + n \<Longrightarrow> memset m a c n x = ucast c"
  by (auto simp: memset_run store_bytes_def)

lemma kfree_run:
  assumes "page_addr (kend s) pa"
  shows "kfree pa s = Inr ((), s\<lparr>pm := store64 (memset (pm s) pa 1 PGSIZE) pa (of_nat (freelist s)), freelist := pa\<rparr>)"
  using assms by (simp add: kfree_def page_addr_def run_simps mem_upd_def)

lemma kfree_panics: "\<not> page_addr (kend s) pa \<Longrightarrow> pa \<noteq> 0 \<or> 0 < kend s \<Longrightarrow> kfree pa s = Inl (Panic ''kfree'')"
  by (auto simp: kfree_def page_addr_def run_simps panic_def)

lemma kalloc_run:
  "freelist s \<noteq> 0 \<Longrightarrow> kalloc s = Inr (freelist s,
     s\<lparr>freelist := unat (load64 (pm s) (freelist s)), pm := memset (pm s) (freelist s) 5 PGSIZE\<rparr>)"
  "freelist s = 0 \<Longrightarrow> kalloc s = Inr (0, s)"
  by (simp_all add: kalloc_def run_simps mem_upd_def)

lemma PHYSTOP_val: "PHYSTOP = 2281701376"
  by (simp add: PHYSTOP_def KERNBASE_def)

lemma kfree_inv:
  assumes inv: "kmem_inv s ps" and pa: "page_addr (kend s) pa" "pa \<notin> set ps"
  obtains s' where "kfree pa s = Inr ((), s')" "kmem_inv s' (pa # ps)" "kend s' = kend s"
    "\<And>x. x < pa \<or> pa + PGSIZE \<le> x \<Longrightarrow> pm s' x = pm s x"
proof -
  let ?m = "store64 (memset (pm s) pa 1 PGSIZE) pa (of_nat (freelist s))"
  let ?s = "s\<lparr>pm := ?m, freelist := pa\<rparr>"
  have fl: "freelist s < 2 ^ 64"
    using inv by (cases ps) (auto simp: kmem_inv_def page_addr_def PHYSTOP_val)
  have out: "?m x = pm s x" if "x < pa \<or> pa + PGSIZE \<le> x" for x
    using that by (auto simp: store64_other memset_other PGSIZE_def)
  have "page_chain ?m (freelist s) ps"
  proof (rule page_chain_frame)
    show "page_chain (pm s) (freelist s) ps" using inv by (simp add: kmem_inv_def)
    fix p x assume "p \<in> set ps" "p \<le> x" "x < p + 8"
    moreover from this have "p + PGSIZE \<le> pa \<or> pa + PGSIZE \<le> p"
      using inv pa by (intro page_apart[of "kend s"]) (auto simp: kmem_inv_def)
    ultimately show "?m x = pm s x" by (intro out) (auto simp: PGSIZE_def)
  qed
  then have "kmem_inv ?s (pa # ps)" using inv pa fl by (simp add: kmem_inv_def)
  then show thesis using that[of ?s] kfree_run[OF pa(1)] out by simp
qed

lemma kalloc_inv:
  assumes inv: "kmem_inv s (p # ps)"
  obtains s' where "kalloc s = Inr (p, s')" "kmem_inv s' ps" "kend s' = kend s"
    "\<And>x. x < p \<or> p + PGSIZE \<le> x \<Longrightarrow> pm s' x = pm s x"
proof -
  let ?m = "memset (pm s) p 5 PGSIZE"
  let ?s = "s\<lparr>freelist := unat (load64 (pm s) p), pm := ?m\<rparr>"
  have fl: "freelist s = p" "p \<noteq> 0" using inv by (auto simp: kmem_inv_def page_addr_def)
  have "page_chain ?m (unat (load64 (pm s) p)) ps"
  proof (rule page_chain_frame)
    show "page_chain (pm s) (unat (load64 (pm s) p)) ps" using inv by (simp add: kmem_inv_def)
    fix q x assume "q \<in> set ps" "q \<le> x" "x < q + 8"
    moreover from this have "q + PGSIZE \<le> p \<or> p + PGSIZE \<le> q"
      using inv by (intro page_apart[of "kend s"]) (auto simp: kmem_inv_def)
    ultimately show "?m x = pm s x" by (intro memset_other) (auto simp: PGSIZE_def)
  qed
  then have "kmem_inv ?s ps" using inv by (simp add: kmem_inv_def)
  then show thesis using that[of ?s] kalloc_run(1)[of s] fl by (simp add: memset_other)
qed

section \<open>The interface of a page allocator\<close>

primrec take_pages :: "('s, 'e, nat) comp \<Rightarrow> nat \<Rightarrow> ('s, 'e, nat list) comp" where
  "take_pages alloc 0 = ret []"
| "take_pages alloc (Suc n) = bnd alloc (\<lambda>p. bnd (take_pages alloc n) (\<lambda>ps. ret (p # ps)))"

primrec give_pages :: "(nat \<Rightarrow> ('s, 'e, unit) comp) \<Rightarrow> nat list \<Rightarrow> ('s, 'e, unit) comp" where
  "give_pages free [] = ret ()"
| "give_pages free (p # ps) = sq (free p) (give_pages free ps)"

locale page_allocator =
  fixes alloc :: "('s, 'e, nat) comp" and free :: "nat \<Rightarrow> ('s, 'e, unit) comp"
    and avail :: "'s \<Rightarrow> nat list \<Rightarrow> bool" and valid :: "nat \<Rightarrow> bool"
  assumes alloc_some: "avail s (p # ps) \<Longrightarrow> \<exists>s'. alloc s = Inr (p, s') \<and> avail s' ps"
    and alloc_none: "avail s [] \<Longrightarrow> alloc s = Inr (0, s)"
    and free_page: "avail s ps \<Longrightarrow> valid p \<Longrightarrow> p \<notin> set ps \<Longrightarrow> \<exists>s'. free p s = Inr ((), s') \<and> avail s' (p # ps)"
    and avail_distinct: "avail s ps \<Longrightarrow> distinct ps"
    and avail_valid: "avail s ps \<Longrightarrow> p \<in> set ps \<Longrightarrow> valid p \<and> p \<noteq> 0"
begin

lemma take_pages_run:
  "avail s ps \<Longrightarrow> n \<le> length ps \<Longrightarrow> \<exists>s'. take_pages alloc n s = Inr (take n ps, s') \<and> avail s' (drop n ps)"
proof (induction n arbitrary: s ps)
  case (Suc n)
  then obtain p qs where ps: "ps = p # qs" by (cases ps) auto
  then obtain t where t: "alloc s = Inr (p, t)" "avail t qs" using alloc_some Suc.prems by blast
  from Suc.IH[OF t(2)] Suc.prems(2) ps t show ?case by (auto simp: run_simps)
qed (auto simp: run_simps)

lemma give_pages_run:
  "avail s qs \<Longrightarrow> distinct (ps @ qs) \<Longrightarrow> \<forall>p \<in> set ps. valid p \<Longrightarrow>
   \<exists>s'. give_pages free ps s = Inr ((), s') \<and> avail s' (rev ps @ qs)"
proof (induction ps arbitrary: s qs)
  case (Cons p ps)
  then obtain t where t: "free p s = Inr ((), t)" "avail t (p # qs)" using free_page[of s qs p] by auto
  have "distinct (ps @ p # qs)" "\<forall>p \<in> set ps. valid p" using Cons.prems by auto
  from Cons.IH[OF t(2) this] show ?case using t by (auto simp: run_simps)
qed (auto simp: run_simps)

lemma take_give:
  assumes "avail s ps" "n \<le> length ps"
  shows "\<exists>s1 s2. take_pages alloc n s = Inr (take n ps, s1) \<and> distinct (take n ps) \<and>
    give_pages free (take n ps) s1 = Inr ((), s2) \<and> avail s2 (rev (take n ps) @ drop n ps)"
proof -
  obtain s1 where s1: "take_pages alloc n s = Inr (take n ps, s1)" "avail s1 (drop n ps)"
    using take_pages_run[OF assms] by blast
  have d: "distinct (take n ps @ drop n ps)" using avail_distinct[OF assms(1)] by simp
  have "\<forall>p \<in> set (take n ps). valid p" using avail_valid[OF assms(1)] by (auto dest: in_set_takeD)
  from give_pages_run[OF s1(2) d this] s1(1) avail_distinct[OF assms(1)] show ?thesis by (auto intro: distinct_take)
qed

end

interpretation kmem: page_allocator kalloc kfree "\<lambda>s ps. kmem_inv s ps \<and> kend s = e" "page_addr e" for e
proof unfold_locales
  fix s :: "'a phys_scheme" and p :: nat and ps
  show "kmem_inv s (p # ps) \<and> kend s = e \<Longrightarrow> \<exists>s'. kalloc s = Inr (p, s') \<and> kmem_inv s' ps \<and> kend s' = e"
    by (elim conjE kalloc_inv) auto
  show "kmem_inv s [] \<and> kend s = e \<Longrightarrow> kalloc s = Inr (0, s)"
    by (simp add: kmem_inv_def kalloc_run)
  show "kmem_inv s ps \<and> kend s = e \<Longrightarrow> page_addr e p \<Longrightarrow> p \<notin> set ps \<Longrightarrow>
      \<exists>s'. kfree p s = Inr ((), s') \<and> kmem_inv s' (p # ps) \<and> kend s' = e"
    using kfree_inv[of s ps p] by (metis (no_types))
  show "kmem_inv s ps \<and> kend s = e \<Longrightarrow> distinct ps" by (simp add: kmem_inv_def)
  show "kmem_inv s ps \<and> kend s = e \<Longrightarrow> p \<in> set ps \<Longrightarrow> page_addr e p \<and> p \<noteq> 0"
    by (auto simp: kmem_inv_def page_addr_def)
qed

section \<open>Start-up\<close>

lemma freerange_loop_run:
  assumes "kmem_inv s ps" "\<forall>q \<in> set ps. q < p" "p mod PGSIZE = 0" "kend s \<le> p" "p + n * PGSIZE \<le> PHYSTOP" "p \<noteq> 0"
  shows "\<exists>s'. freerange_loop n p s = Inr ((), s') \<and> kmem_inv s' (rev (map (\<lambda>i. p + i * PGSIZE) [0..<n]) @ ps) \<and> kend s' = kend s"
  using assms
proof (induction n arbitrary: s ps p)
  case (Suc n)
  have pa: "page_addr (kend s) p" "p \<notin> set ps" using Suc.prems by (auto simp: page_addr_def PGSIZE_def)
  obtain t where t: "kfree p s = Inr ((), t)" "kmem_inv t (p # ps)" "kend t = kend s"
    by (rule kfree_inv[OF Suc.prems(1) pa]) (rule that)
  have "\<exists>s'. freerange_loop n (p + PGSIZE) t = Inr ((), s') \<and>
      kmem_inv s' (rev (map (\<lambda>i. p + PGSIZE + i * PGSIZE) [0..<n]) @ p # ps) \<and> kend s' = kend t"
    by (rule Suc.IH[OF t(2)]) (use Suc.prems t(3) in \<open>auto simp: PGSIZE_def\<close>)
  moreover have "map (\<lambda>i. p + i * PGSIZE) [0..<Suc n] = p # map (\<lambda>i. p + PGSIZE + i * PGSIZE) [0..<n]"
    by (simp add: upt_conv_Cons map_Suc_upt[symmetric] add.assoc del: upt_Suc)
  ultimately show ?case using t by (auto simp: run_simps)
qed (auto simp: run_simps)

section \<open>Properties\<close>

text \<open>
  C24. Starting from the empty list, \<^verbatim>\<open>kinit\<close> puts exactly the whole pages between \<^verbatim>\<open>end\<close> and
  \<^verbatim>\<open>PHYSTOP\<close> on the free list, each once.
\<close>

theorem kinit_frees_all:
  assumes "freelist s = 0" "0 < kend s" "kend s \<le> PHYSTOP"
  shows "\<exists>s' ps. kinit s = Inr ((), s') \<and> kmem_inv s' ps \<and>
    set ps = {p. p mod PGSIZE = 0 \<and> kend s \<le> p \<and> p + PGSIZE \<le> PHYSTOP}"
proof -
  define p where "p = PGROUNDUP (kend s)"
  define n where "n = (PHYSTOP - p) div PGSIZE"
  have lt: "kend s + 4095 < 2 ^ 64" using assms(3) by (simp add: PHYSTOP_val)
  have p0: "p = (kend s + 4095) div 4096 * 4096" using lt by (simp add: p_def PGROUNDUP_def)
  have m: "(kend s + 4095) mod 4096 \<le> 4095" using mod_less_divisor[of 4096 "kend s + 4095"] by linarith
  have p1: "p = kend s + 4095 - (kend s + 4095) mod 4096" unfolding p0 by (simp add: minus_mod_eq_div_mult)
  have p: "kend s \<le> p" "p < kend s + 4096" "p mod PGSIZE = 0" "p \<noteq> 0"
    using p1 m assms(2) by (auto simp: p0 PGSIZE_def)
  have ple: "p \<le> PHYSTOP"
  proof -
    have "(kend s + 4095) div 4096 \<le> (PHYSTOP + 4095) div 4096" using assms(3) by (intro div_le_mono) simp
    then show ?thesis unfolding p0 by (simp add: PHYSTOP_val)
  qed
  have top: "PHYSTOP = p + n * PGSIZE"
  proof -
    have "PGSIZE dvd PHYSTOP - p" using p(3) ple by (intro dvd_diff_nat) (auto simp: PHYSTOP_val PGSIZE_def mod_eq_0_iff_dvd)
    then show ?thesis using ple by (simp add: n_def)
  qed
  obtain s' where s': "freerange_loop n p s = Inr ((), s')"
    "kmem_inv s' (rev (map (\<lambda>i. p + i * PGSIZE) [0..<n]) @ [])"
    using freerange_loop_run[of s "[]" p n] assms(1) p top by (auto simp: kmem_inv_def)
  have "set (rev (map (\<lambda>i. p + i * PGSIZE) [0..<n])) = {q. q mod PGSIZE = 0 \<and> kend s \<le> q \<and> q + PGSIZE \<le> PHYSTOP}"
  proof (intro set_eqI iffI)
    fix q assume "q \<in> set (rev (map (\<lambda>i. p + i * PGSIZE) [0..<n]))"
    then obtain i where i: "i < n" "q = p + i * PGSIZE" by auto
    have "(i + 1) * PGSIZE \<le> n * PGSIZE" using i(1) by (intro mult_le_mono1) simp
    then show "q \<in> {q. q mod PGSIZE = 0 \<and> kend s \<le> q \<and> q + PGSIZE \<le> PHYSTOP}"
      using i p top by (simp add: mod_add_eq[symmetric])
  next
    fix q assume "q \<in> {q. q mod PGSIZE = 0 \<and> kend s \<le> q \<and> q + PGSIZE \<le> PHYSTOP}"
    then have q: "q mod PGSIZE = 0" "kend s \<le> q" "q + PGSIZE \<le> PHYSTOP" by auto
    have "p \<le> q" using pages_apart_4096[of p q] p(2,3) q(1,2) by (cases "p = q") (auto simp: PGSIZE_def)
    moreover obtain a b where ab: "p = PGSIZE * a" "q = PGSIZE * b" using p(3) q(1) by (auto elim!: dvdE simp: mod_eq_0_iff_dvd)
    ultimately have "a \<le> b" by (simp add: PGSIZE_def)
    then have e: "q = p + (b - a) * PGSIZE" using ab by (simp add: algebra_simps diff_mult_distrib2)
    have "b - a < n"
    proof (rule ccontr)
      assume "\<not> b - a < n"
      then have "n * PGSIZE \<le> (b - a) * PGSIZE" by (intro mult_le_mono1) simp
      then show False using e q(3) top by (simp add: PGSIZE_def)
    qed
    then show "q \<in> set (rev (map (\<lambda>i. p + i * PGSIZE) [0..<n]))" using e by auto
  qed
  moreover have "kinit s = Inr ((), s')"
    using s'(1) by (simp add: kinit_def freerange_def Let_def run_simps p_def n_def)
  ultimately show ?thesis using s'(2) by auto
qed

definition two_page_ram :: phys where
  "two_page_ram = \<lparr>pm = (\<lambda>_. 0), freelist = 0, kend = 2281693184\<rparr>"

theorem kinit_frees_all_witness:
  "\<exists>s' ps. kinit two_page_ram = Inr ((), s') \<and> kmem_inv s' ps \<and> 2281693184 \<in> set ps"
proof -
  have "freelist two_page_ram = 0" "0 < kend two_page_ram" "kend two_page_ram \<le> PHYSTOP"
    by (simp_all add: two_page_ram_def PHYSTOP_val)
  from kinit_frees_all[OF this] obtain s' ps where k: "kinit two_page_ram = Inr ((), s')" "kmem_inv s' ps"
    "set ps = {p. p mod PGSIZE = 0 \<and> kend two_page_ram \<le> p \<and> p + PGSIZE \<le> PHYSTOP}" by blast
  have "2281693184 \<in> set ps" unfolding k(3) by (simp add: two_page_ram_def PHYSTOP_val PGSIZE_def)
  with k show ?thesis by blast
qed

text \<open>
  C25. Successive calls of \<^verbatim>\<open>kalloc\<close> return different pages, the first ones of the free list, and
  giving them back with \<^verbatim>\<open>kfree\<close> restores the set of free pages.
\<close>

theorem kalloc_kfree_roundtrip:
  assumes "kmem_inv s ps" "n \<le> length ps"
  shows "\<exists>s1 s2. take_pages kalloc n s = Inr (take n ps, s1) \<and> distinct (take n ps) \<and>
    give_pages kfree (take n ps) s1 = Inr ((), s2) \<and> kmem_inv s2 (rev (take n ps) @ drop n ps)"
  using kmem.take_give[of s ps "kend s" n] assms by auto

lemma two_page_ram_inv:
  obtains s where "kmem_inv (s :: phys) [2281697280, 2281693184]"
proof -
  have "\<exists>s'. freerange_loop 2 2281693184 two_page_ram = Inr ((), s') \<and>
      kmem_inv s' (rev (map (\<lambda>i. 2281693184 + i * PGSIZE) [0..<2]) @ []) \<and> kend s' = kend two_page_ram"
    by (rule freerange_loop_run) (simp_all add: kmem_inv_def two_page_ram_def PGSIZE_def PHYSTOP_val)
  then show thesis using that by (auto simp: upt_rec PGSIZE_def)
qed

theorem kalloc_kfree_roundtrip_witness:
  "\<exists>s s1 s2. kmem_inv (s :: phys) [2281697280, 2281693184] \<and> take_pages kalloc 2 s = Inr ([2281697280, 2281693184], s1) \<and>
     give_pages kfree [2281697280, 2281693184] s1 = Inr ((), s2) \<and> kmem_inv s2 [2281693184, 2281697280]"
proof -
  obtain s where s: "kmem_inv (s :: phys) [2281697280, 2281693184]" by (rule two_page_ram_inv)
  from kalloc_kfree_roundtrip[OF s, of 2] s show ?thesis by auto
qed

end
