(* ===== verification/Vm.thy ===== *)
theory Vm
  imports Kalloc
begin

text \<open>
  Virtual memory: the page-table code of \<^verbatim>\<open>kernel/vm.c\<close> on physical memory, with the
  macros of \<^verbatim>\<open>kernel/riscv.h\<close> and \<^verbatim>\<open>kernel/memlayout.h\<close>. Page-table entries are 64-bit words,
  addresses are natural numbers. Kernel-side buffers are lists of bytes: \<^verbatim>\<open>copyout\<close> takes
  the bytes that lie at its source, \<^verbatim>\<open>copyin\<close> and \<^verbatim>\<open>copyinstr\<close> return the bytes they wrote.
\<close>

section \<open>Entries and indices\<close>

type_synonym pte = "64 word"

definition PTE_V :: pte where "PTE_V = 1"
definition PTE_R :: pte where "PTE_R = 2"
definition PTE_W :: pte where "PTE_W = 4"
definition PTE_X :: pte where "PTE_X = 8"
definition PTE_U :: pte where "PTE_U = 16"

definition PA2PTE :: "nat \<Rightarrow> pte" where
  "PA2PTE pa = push_bit 10 (drop_bit 12 (of_nat pa))"

definition PTE2PA :: "pte \<Rightarrow> nat" where
  "PTE2PA e = unat (push_bit 12 (drop_bit 10 e))"

definition PTE_FLAGS :: "pte \<Rightarrow> pte" where
  "PTE_FLAGS e = e AND 0x3FF"

definition PX :: "nat \<Rightarrow> nat \<Rightarrow> nat" where
  "PX level va = va div 2 ^ (12 + 9 * level) mod 512"

definition MAXVA :: nat where
  "MAXVA = 2 ^ 38"

definition TRAMPOLINE :: nat where
  "TRAMPOLINE = MAXVA - PGSIZE"

definition TRAPFRAME :: nat where
  "TRAPFRAME = TRAMPOLINE - PGSIZE"

definition KSTACK :: "nat \<Rightarrow> nat" where
  "KSTACK p = TRAMPOLINE - (p + 1) * 2 * PGSIZE"

definition ldpte :: "nat \<Rightarrow> ('z, pte) kprog" where
  "ldpte a = gets (\<lambda>s. load64 (pm s) a)"

definition stpte :: "nat \<Rightarrow> pte \<Rightarrow> ('z, unit) kprog" where
  "stpte a e = mem_upd (\<lambda>m. store64 m a e)"

definition zero_page :: "nat \<Rightarrow> ('z, unit) kprog" where
  "zero_page p = mem_upd (\<lambda>m. memset m p 0 PGSIZE)"

section \<open>Walking and mapping\<close>

text \<open>The loop of \<^verbatim>\<open>walk\<close>, by the level.\<close>

primrec walk_loop :: "nat \<Rightarrow> bool \<Rightarrow> nat \<Rightarrow> nat \<Rightarrow> ('z, nat) kprog" where
  "walk_loop va alloc 0 pagetable = ret (pagetable + 8 * PX 0 va)"
| "walk_loop va alloc (Suc level) pagetable = (let pte = pagetable + 8 * PX (Suc level) va in
     bnd (ldpte pte) (\<lambda>e.
     if e AND PTE_V \<noteq> 0 then walk_loop va alloc level (PTE2PA e)
     else if \<not> alloc then ret 0
     else bnd kalloc (\<lambda>pt. if pt = 0 then ret 0 else
       sq (zero_page pt) (sq (stpte pte (PA2PTE pt OR PTE_V)) (walk_loop va alloc level pt)))))"

definition walk :: "nat \<Rightarrow> nat \<Rightarrow> bool \<Rightarrow> ('z, nat) kprog" where
  "walk pagetable va alloc =
     (if va \<ge> MAXVA then panic ''walk'' else walk_loop va alloc 2 pagetable)"

definition walkaddr :: "nat \<Rightarrow> nat \<Rightarrow> ('z, nat) kprog" where
  "walkaddr pagetable va =
     (if va \<ge> MAXVA then ret 0 else
      bnd (walk pagetable va False) (\<lambda>pte. if pte = 0 then ret 0 else
      bnd (ldpte pte) (\<lambda>e.
      if e AND PTE_V = 0 then ret 0 else if e AND PTE_U = 0 then ret 0 else ret (PTE2PA e))))"

text \<open>
  The loop of \<^verbatim>\<open>mappages\<close>. It ends at \<open>lst\<close>, on an error, or when \<^verbatim>\<open>walk\<close> panics at
  \<^verbatim>\<open>MAXVA\<close>, so one more round than there are pages below \<^verbatim>\<open>MAXVA\<close> is enough fuel.
\<close>

primrec map_loop :: "nat \<Rightarrow> nat \<Rightarrow> pte \<Rightarrow> nat \<Rightarrow> nat \<Rightarrow> nat \<Rightarrow> ('z, int) kprog" where
  "map_loop pagetable lst perm 0 a pa = fail NoFuel"
| "map_loop pagetable lst perm (Suc n) a pa =
     bnd (walk pagetable a True) (\<lambda>pte. if pte = 0 then ret (- 1) else
     bnd (ldpte pte) (\<lambda>e. if e AND PTE_V \<noteq> 0 then panic ''mappages: remap'' else
     sq (stpte pte (PA2PTE pa OR perm OR PTE_V))
     (if a = lst then ret 0 else map_loop pagetable lst perm n (a + PGSIZE) (pa + PGSIZE))))"

definition mappages :: "nat \<Rightarrow> nat \<Rightarrow> nat \<Rightarrow> nat \<Rightarrow> pte \<Rightarrow> ('z, int) kprog" where
  "mappages pagetable va sz pa perm =
     (if sz = 0 then panic ''mappages: size'' else
      map_loop pagetable (PGROUNDDOWN (w64 (va + sz - 1))) perm (MAXVA div PGSIZE + 1) (PGROUNDDOWN va) pa)"

definition kvmmap :: "nat \<Rightarrow> nat \<Rightarrow> nat \<Rightarrow> nat \<Rightarrow> pte \<Rightarrow> ('z, unit) kprog" where
  "kvmmap kpgtbl va pa sz perm =
     bnd (mappages kpgtbl va sz pa perm) (\<lambda>r. if r \<noteq> 0 then panic ''kvmmap'' else ret ())"

text \<open>\<^verbatim>\<open>proc_mapstacks\<close> of \<^verbatim>\<open>kernel/proc.c\<close>: a kernel stack for each of the first \<open>n\<close> processes.\<close>

primrec proc_mapstacks :: "nat \<Rightarrow> nat \<Rightarrow> ('z, unit) kprog" where
  "proc_mapstacks kpgtbl 0 = ret ()"
| "proc_mapstacks kpgtbl (Suc p) = sq (proc_mapstacks kpgtbl p)
     (bnd kalloc (\<lambda>pa. if pa = 0 then panic ''kalloc'' else
      kvmmap kpgtbl (KSTACK p) pa PGSIZE (PTE_R OR PTE_W)))"

definition kvmmake :: "nat \<Rightarrow> nat \<Rightarrow> ('z, nat) kprog" where
  "kvmmake etext trampoline =
     bnd kalloc (\<lambda>kpgtbl.
     sq (zero_page kpgtbl)
     (sq (kvmmap kpgtbl 0x10000000 0x10000000 PGSIZE (PTE_R OR PTE_W))
     (sq (kvmmap kpgtbl 0x10001000 0x10001000 PGSIZE (PTE_R OR PTE_W))
     (sq (kvmmap kpgtbl 0x0c000000 0x0c000000 0x400000 (PTE_R OR PTE_W))
     (sq (kvmmap kpgtbl 0x2000000 0x2000000 0xBFF8 (PTE_R OR PTE_W))
     (sq (kvmmap kpgtbl KERNBASE KERNBASE (sub64 etext KERNBASE) (PTE_R OR PTE_X))
     (sq (kvmmap kpgtbl etext etext (sub64 PHYSTOP etext) (PTE_R OR PTE_W))
     (sq (kvmmap kpgtbl TRAMPOLINE trampoline PGSIZE (PTE_R OR PTE_X))
     (sq (proc_mapstacks kpgtbl 64)
     (ret kpgtbl))))))))))"

section \<open>User memory\<close>

primrec unmap_loop :: "nat \<Rightarrow> bool \<Rightarrow> nat \<Rightarrow> nat \<Rightarrow> ('z, unit) kprog" where
  "unmap_loop pagetable do_free 0 a = ret ()"
| "unmap_loop pagetable do_free (Suc n) a =
     bnd (walk pagetable a False) (\<lambda>pte. if pte = 0 then panic ''uvmunmap: walk'' else
     bnd (ldpte pte) (\<lambda>e.
     if e AND PTE_V = 0 then panic ''uvmunmap: not mapped''
     else if PTE_FLAGS e = PTE_V then panic ''uvmunmap: not a leaf''
     else sq (if do_free then kfree (PTE2PA e) else ret ())
       (sq (stpte pte 0) (unmap_loop pagetable do_free n (a + PGSIZE)))))"

definition uvmunmap :: "nat \<Rightarrow> nat \<Rightarrow> nat \<Rightarrow> bool \<Rightarrow> ('z, unit) kprog" where
  "uvmunmap pagetable va npages do_free =
     (if va mod PGSIZE \<noteq> 0 then panic ''uvmunmap: not aligned''
      else unmap_loop pagetable do_free npages va)"

definition uvmcreate :: "('z, nat) kprog" where
  "uvmcreate = bnd kalloc (\<lambda>pt. if pt = 0 then ret 0 else sq (zero_page pt) (ret pt))"

definition uvmfirst :: "nat \<Rightarrow> byte list \<Rightarrow> ('z, unit) kprog" where
  "uvmfirst pagetable src =
     (if length src \<ge> PGSIZE then panic ''uvmfirst: more than a page'' else
      bnd kalloc (\<lambda>mem. sq (zero_page mem)
      (bnd (mappages pagetable 0 PGSIZE mem (PTE_W OR PTE_R OR PTE_X OR PTE_U)) (\<lambda>_.
      mem_upd (\<lambda>m. store_bytes m mem src)))))"

definition uvmdealloc :: "nat \<Rightarrow> nat \<Rightarrow> nat \<Rightarrow> ('z, nat) kprog" where
  "uvmdealloc pagetable oldsz newsz =
     (if newsz \<ge> oldsz then ret oldsz else
      sq (if PGROUNDUP newsz < PGROUNDUP oldsz
          then uvmunmap pagetable (PGROUNDUP newsz) ((PGROUNDUP oldsz - PGROUNDUP newsz) div PGSIZE) True
          else ret ())
      (ret newsz))"

text \<open>The loop of \<^verbatim>\<open>uvmalloc\<close>; the count is the number of pages from \<open>a\<close> up to \<open>newsz\<close>.\<close>

primrec uvmalloc_loop :: "nat \<Rightarrow> nat \<Rightarrow> nat \<Rightarrow> pte \<Rightarrow> nat \<Rightarrow> nat \<Rightarrow> ('z, nat) kprog" where
  "uvmalloc_loop pagetable oldsz newsz xperm 0 a = ret newsz"
| "uvmalloc_loop pagetable oldsz newsz xperm (Suc n) a =
     bnd kalloc (\<lambda>mem. if mem = 0 then bnd (uvmdealloc pagetable a oldsz) (\<lambda>_. ret 0) else
     sq (zero_page mem)
     (bnd (mappages pagetable a PGSIZE mem (PTE_R OR PTE_U OR xperm)) (\<lambda>r.
     if r \<noteq> 0 then sq (kfree mem) (bnd (uvmdealloc pagetable a oldsz) (\<lambda>_. ret 0))
     else uvmalloc_loop pagetable oldsz newsz xperm n (a + PGSIZE))))"

definition uvmalloc :: "nat \<Rightarrow> nat \<Rightarrow> nat \<Rightarrow> pte \<Rightarrow> ('z, nat) kprog" where
  "uvmalloc pagetable oldsz newsz xperm =
     (if newsz < oldsz then ret oldsz else
      let a = PGROUNDUP oldsz in
      uvmalloc_loop pagetable a newsz xperm ((newsz - a + (PGSIZE - 1)) div PGSIZE) a)"

text \<open>One page of page-table entries, in the order of the loop of \<^verbatim>\<open>freewalk\<close>.\<close>

primrec free_entries :: "(nat \<Rightarrow> ('z, unit) kprog) \<Rightarrow> nat \<Rightarrow> nat \<Rightarrow> ('z, unit) kprog" where
  "free_entries rec pagetable 0 = ret ()"
| "free_entries rec pagetable (Suc i) = sq (free_entries rec pagetable i)
     (bnd (ldpte (pagetable + 8 * i)) (\<lambda>e.
      if e AND PTE_V \<noteq> 0 \<and> e AND (PTE_R OR PTE_W OR PTE_X) = 0
      then sq (rec (PTE2PA e)) (stpte (pagetable + 8 * i) 0)
      else if e AND PTE_V \<noteq> 0 then panic ''freewalk: leaf'' else ret ()))"

text \<open>The recursion of \<^verbatim>\<open>freewalk\<close> is followed to the given depth.\<close>

primrec freewalk :: "nat \<Rightarrow> nat \<Rightarrow> ('z, unit) kprog" where
  "freewalk 0 pagetable = fail NoFuel"
| "freewalk (Suc d) pagetable = sq (free_entries (freewalk d) pagetable 512) (kfree pagetable)"

definition uvmfree :: "nat \<Rightarrow> nat \<Rightarrow> ('z, unit) kprog" where
  "uvmfree pagetable sz =
     sq (if sz > 0 then uvmunmap pagetable 0 (PGROUNDUP sz div PGSIZE) True else ret ())
     (freewalk 3 pagetable)"

definition uvmcopy_err :: "nat \<Rightarrow> nat \<Rightarrow> ('z, int) kprog" where
  "uvmcopy_err new i = sq (uvmunmap new 0 (i div PGSIZE) True) (ret (- 1))"

primrec uvmcopy_loop :: "nat \<Rightarrow> nat \<Rightarrow> nat \<Rightarrow> nat \<Rightarrow> ('z, int) kprog" where
  "uvmcopy_loop old new 0 i = ret 0"
| "uvmcopy_loop old new (Suc n) i =
     bnd (walk old i False) (\<lambda>pte. if pte = 0 then panic ''uvmcopy: pte should exist'' else
     bnd (ldpte pte) (\<lambda>e. if e AND PTE_V = 0 then panic ''uvmcopy: page not present'' else
     bnd kalloc (\<lambda>mem. if mem = 0 then uvmcopy_err new i else
     sq (mem_upd (\<lambda>m. memmove m mem (PTE2PA e) PGSIZE))
     (bnd (mappages new i PGSIZE mem (PTE_FLAGS e)) (\<lambda>r.
     if r \<noteq> 0 then sq (kfree mem) (uvmcopy_err new i)
     else uvmcopy_loop old new n (i + PGSIZE))))))"

definition uvmcopy :: "nat \<Rightarrow> nat \<Rightarrow> nat \<Rightarrow> ('z, int) kprog" where
  "uvmcopy old new sz = uvmcopy_loop old new ((sz + (PGSIZE - 1)) div PGSIZE) 0"

definition uvmclear :: "nat \<Rightarrow> nat \<Rightarrow> ('z, unit) kprog" where
  "uvmclear pagetable va = bnd (walk pagetable va False) (\<lambda>pte. if pte = 0 then panic ''uvmclear'' else
     bnd (ldpte pte) (\<lambda>e. stpte pte (e AND NOT PTE_U)))"

section \<open>Copying between kernel and user\<close>

definition page_room :: "nat \<Rightarrow> nat" where
  "page_room va = PGSIZE - (va - PGROUNDDOWN va)"

lemma page_room_pos: "0 < page_room va"
proof -
  have "va - va div 4096 * 4096 = va mod 4096" by (simp add: minus_div_mult_eq_mod)
  moreover have "va mod 4096 < 4096" by simp
  ultimately show ?thesis unfolding page_room_def PGROUNDDOWN_def PGSIZE_def by linarith
qed

function copyout :: "nat \<Rightarrow> nat \<Rightarrow> byte list \<Rightarrow> ('z, int) kprog" where
  "copyout pagetable dstva src s =
     (if src = [] then Inr (0, s) else
      let va0 = PGROUNDDOWN dstva in
      case walkaddr pagetable va0 s of Inl e \<Rightarrow> Inl e | Inr (pa0, s1) \<Rightarrow>
      if pa0 = 0 then Inr (- 1, s1) else
      let n = min (page_room dstva) (length src) in
      copyout pagetable (va0 + PGSIZE) (drop n src)
        (s1\<lparr>pm := store_bytes (pm s1) (pa0 + (dstva - va0)) (take n src)\<rparr>))"
  by auto

termination copyout
  by (relation "measure (\<lambda>(pt, va, src, s). length src)") (auto simp: page_room_pos)

function copyin :: "nat \<Rightarrow> nat \<Rightarrow> nat \<Rightarrow> ('z, int \<times> byte list) kprog" where
  "copyin pagetable srcva len s =
     (if len = 0 then Inr ((0, []), s) else
      let va0 = PGROUNDDOWN srcva in
      case walkaddr pagetable va0 s of Inl e \<Rightarrow> Inl e | Inr (pa0, s1) \<Rightarrow>
      if pa0 = 0 then Inr ((- 1, []), s1) else
      let n = min (page_room srcva) len; bs = load_bytes (pm s1) (pa0 + (srcva - va0)) n in
      case copyin pagetable (va0 + PGSIZE) (len - n) s1 of Inl e \<Rightarrow> Inl e
      | Inr ((r, cs), s2) \<Rightarrow> Inr ((r, bs @ cs), s2))"
  by auto

termination copyin
  by (relation "measure (\<lambda>(pt, va, len, s). len)") (auto simp: page_room_pos)

text \<open>The inner loop of \<^verbatim>\<open>copyinstr\<close>: the bytes up to a NUL, which is included, at most \<open>n\<close>.\<close>

fun str_chunk :: "memory \<Rightarrow> nat \<Rightarrow> nat \<Rightarrow> byte list \<times> bool" where
  "str_chunk m p 0 = ([], False)"
| "str_chunk m p (Suc n) = (if m p = 0 then ([0], True)
     else let (bs, got_null) = str_chunk m (p + 1) n in (m p # bs, got_null))"

function copyinstr :: "nat \<Rightarrow> nat \<Rightarrow> nat \<Rightarrow> ('z, int \<times> byte list) kprog" where
  "copyinstr pagetable srcva mx s =
     (if mx = 0 then Inr ((- 1, []), s) else
      let va0 = PGROUNDDOWN srcva in
      case walkaddr pagetable va0 s of Inl e \<Rightarrow> Inl e | Inr (pa0, s1) \<Rightarrow>
      if pa0 = 0 then Inr ((- 1, []), s1) else
      let n = min (page_room srcva) mx; (bs, got_null) = str_chunk (pm s1) (pa0 + (srcva - va0)) n in
      if got_null then Inr ((0, bs), s1) else
      case copyinstr pagetable (va0 + PGSIZE) (mx - n) s1 of Inl e \<Rightarrow> Inl e
      | Inr ((r, cs), s2) \<Rightarrow> Inr ((r, bs @ cs), s2))"
  by auto

termination copyinstr
  by (relation "measure (\<lambda>(pt, va, mx, s). mx)") (auto simp: page_room_pos)

declare copyout.simps [simp del] copyin.simps [simp del] copyinstr.simps [simp del]

end
