(* ===== verification/Vm_Map.thy ===== *)
theory Vm_Map
  imports Vm
begin

text \<open>
  What a page table means: the table page that serves an address at each depth, the leaf
  entry of an address, and the invariant that the table pages form a tree of pages that are
  not free. \<^verbatim>\<open>walk\<close>, \<^verbatim>\<open>mappages\<close> and \<^verbatim>\<open>uvmunmap\<close> are shown to change exactly the leaf entries
  they are asked to change.
\<close>

primrec pt_table :: "memory \<Rightarrow> nat \<Rightarrow> nat \<Rightarrow> nat \<Rightarrow> nat option" where
  "pt_table m pt va 0 = Some pt"
| "pt_table m pt va (Suc d) = (case pt_table m pt va d of None \<Rightarrow> None | Some t \<Rightarrow>
     let e = load64 m (t + 8 * PX (2 - d) va) in if e AND PTE_V \<noteq> 0 then Some (PTE2PA e) else None)"

definition leaf :: "memory \<Rightarrow> nat \<Rightarrow> nat \<Rightarrow> pte" where
  "leaf m pt va = (case pt_table m pt va 2 of None \<Rightarrow> 0 | Some t \<Rightarrow> load64 m (t + 8 * PX 0 va))"

definition reg :: "nat \<Rightarrow> nat \<Rightarrow> nat" where
  "reg d va = va div 2 ^ (39 - 9 * d)"

definition tables :: "memory \<Rightarrow> nat \<Rightarrow> nat set" where
  "tables m pt = {t. \<exists>va d. va < MAXVA \<and> d \<le> 2 \<and> pt_table m pt va d = Some t}"

definition pt_tree :: "memory \<Rightarrow> nat \<Rightarrow> bool" where
  "pt_tree m pt \<longleftrightarrow> (\<forall>va vb d d' t. va < MAXVA \<longrightarrow> vb < MAXVA \<longrightarrow> d \<le> 2 \<longrightarrow> d' \<le> 2 \<longrightarrow>
     pt_table m pt va d = Some t \<longrightarrow> pt_table m pt vb d' = Some t \<longrightarrow> d = d' \<and> reg d va = reg d vb)"

definition pt_inv :: "'z phys_scheme \<Rightarrow> nat \<Rightarrow> nat list \<Rightarrow> bool" where
  "pt_inv s pt ps \<longleftrightarrow> kmem_inv s ps \<and> pt_tree (pm s) pt \<and>
     (\<forall>t \<in> tables (pm s) pt. page_addr (kend s) t \<and> t \<notin> set ps)"

section \<open>Regions and indices\<close>

lemma reg_Suc: "d \<le> 2 \<Longrightarrow> reg d va = reg (Suc d) va div 512 \<and> PX (2 - d) va = reg (Suc d) va mod 512"
proof -
  assume d: "d \<le> 2"
  then consider "d = 0" | "d = 1" | "d = 2" by linarith
  then show ?thesis
    by cases (simp_all add: reg_def PX_def div_mult2_eq[symmetric])
qed

lemma reg_Suc_iff:
  assumes "d \<le> 2"
  shows "reg (Suc d) va = reg (Suc d) vb \<longleftrightarrow> reg d va = reg d vb \<and> PX (2 - d) va = PX (2 - d) vb"
  using reg_Suc[OF assms, of va] reg_Suc[OF assms, of vb] by (metis div_mult_mod_eq)

lemma reg_0: "va < MAXVA \<Longrightarrow> reg 0 va = 0"
  by (simp add: reg_def MAXVA_def)

lemma PX_less: "PX l va < 512"
  by (simp add: PX_def)

lemma slot_in_page: "8 * PX l va + 8 \<le> PGSIZE"
  using PX_less[of l va] by (simp add: PGSIZE_def)

lemma reg_mono: "reg (Suc d) va = reg (Suc d) vb \<Longrightarrow> d \<le> 2 \<Longrightarrow> reg d va = reg d vb"
  by (simp add: reg_Suc_iff)

lemma reg_le: "reg d va = reg d vb \<Longrightarrow> d' \<le> d \<Longrightarrow> d \<le> 3 \<Longrightarrow> reg d' va = reg d' vb"
proof (induction d)
  case (Suc d)
  then show ?case using reg_mono[of d va vb] by (cases "d' = Suc d") auto
qed simp

lemma pt_table_cong: "reg d va = reg d vb \<Longrightarrow> d \<le> 3 \<Longrightarrow> pt_table m pt va d = pt_table m pt vb d"
proof (induction d)
  case (Suc d)
  then have "d \<le> 2" by simp
  then have "PX (2 - d) va = PX (2 - d) vb" "reg d va = reg d vb" using Suc.prems reg_Suc_iff by blast+
  then show ?case using Suc by (simp split: option.splits)
qed simp

lemma pt_table_mono: "pt_table m pt va d \<noteq> None \<Longrightarrow> d' \<le> d \<Longrightarrow> pt_table m pt va d' \<noteq> None"
proof (induction d)
  case (Suc d)
  then show ?case by (cases "d' = Suc d") (auto split: option.splits)
qed simp

lemma pt_table_None: "pt_table m pt va d' = None \<Longrightarrow> d' \<le> d \<Longrightarrow> pt_table m pt va d = None"
  using pt_table_mono by blast

lemma tablesI: "pt_table m pt va d = Some t \<Longrightarrow> va < MAXVA \<Longrightarrow> d \<le> 2 \<Longrightarrow> t \<in> tables m pt"
  by (auto simp: tables_def)

lemma pt_treeD:
  "pt_tree m pt \<Longrightarrow> pt_table m pt va d = Some t \<Longrightarrow> pt_table m pt vb d' = Some t \<Longrightarrow>
   va < MAXVA \<Longrightarrow> vb < MAXVA \<Longrightarrow> d \<le> 2 \<Longrightarrow> d' \<le> 2 \<Longrightarrow> d = d' \<and> reg d va = reg d vb"
  unfolding pt_tree_def by blast

section \<open>Writes that do not touch the tables\<close>

lemma pt_table_frame:
  assumes "\<And>t x. t \<in> tables m pt \<Longrightarrow> t \<le> x \<Longrightarrow> x < t + PGSIZE \<Longrightarrow> m' x = m x" "va < MAXVA"
  shows "d \<le> 3 \<Longrightarrow> pt_table m' pt va d = pt_table m pt va d"
proof (induction d)
  case (Suc d)
  show ?case
  proof (cases "pt_table m pt va d")
    case (Some t)
    have "load64 m' (t + 8 * PX (2 - d) va) = load64 m (t + 8 * PX (2 - d) va)"
      by (rule load64_cong, rule assms(1)[OF tablesI[OF Some assms(2)]])
        (use Suc.prems slot_in_page[of "2 - d" va] in auto)
    then show ?thesis using Suc Some by simp
  qed (use Suc in simp)
qed simp

lemma leaf_frame:
  assumes "\<And>t x. t \<in> tables m pt \<Longrightarrow> t \<le> x \<Longrightarrow> x < t + PGSIZE \<Longrightarrow> m' x = m x" "va < MAXVA"
  shows "leaf m' pt va = leaf m pt va"
proof -
  have t: "pt_table m' pt va 2 = pt_table m pt va 2" by (rule pt_table_frame[OF assms]) simp_all
  show ?thesis
  proof (cases "pt_table m pt va 2")
    case (Some t)
    have "load64 m' (t + 8 * PX 0 va) = load64 m (t + 8 * PX 0 va)"
      by (rule load64_cong, rule assms(1)[OF tablesI[OF Some assms(2)]])
        (use slot_in_page[of 0 va] in auto)
    then show ?thesis using \<open>pt_table m' pt va 2 = _\<close> Some by (simp add: leaf_def)
  qed (use t in \<open>simp add: leaf_def\<close>)
qed

lemma tables_eqI:
  assumes "\<And>va d. va < MAXVA \<Longrightarrow> d \<le> 2 \<Longrightarrow> pt_table m' pt va d = pt_table m pt va d"
  shows "tables m' pt = tables m pt" "pt_tree m pt \<Longrightarrow> pt_tree m' pt"
  by (auto simp: tables_def assms cong: conj_cong) (simp add: pt_tree_def assms)

lemma tables_frame:
  assumes "\<And>t x. t \<in> tables m pt \<Longrightarrow> t \<le> x \<Longrightarrow> x < t + PGSIZE \<Longrightarrow> m' x = m x"
  shows "tables m' pt = tables m pt" "pt_tree m pt \<Longrightarrow> pt_tree m' pt"
proof -
  have e: "pt_table m' pt va d = pt_table m pt va d" if "va < MAXVA" "d \<le> 2" for va d
    by (rule pt_table_frame[OF assms that(1)]) (use that in simp_all)
  from tables_eqI[OF e] show "tables m' pt = tables m pt" "pt_tree m pt \<Longrightarrow> pt_tree m' pt" by blast+
qed

section \<open>A write to one entry\<close>

lemma slots_apart:
  assumes "p \<noteq> q \<or> i \<noteq> j" "p mod 4096 = 0" "q mod 4096 = 0" "i < 512" "j < 512"
  shows "p + 8 * i + 8 \<le> q + 8 * j \<or> q + 8 * j + 8 \<le> p + 8 * (i::nat)"
  using pages_apart_4096[OF assms(2,3)] assms(1,4,5) by (cases "p = q") auto

text \<open>
  The entry of \<open>va\<close> at depth \<open>d\<close> is in the table \<open>t\<close>. A write to it keeps the tables up to
  depth \<open>d\<close> and every table and leaf of an address of another region.
\<close>

definition entry_at :: "memory \<Rightarrow> nat \<Rightarrow> nat \<Rightarrow> nat \<Rightarrow> nat \<Rightarrow> nat \<Rightarrow> bool" where
  "entry_at m pt e0 va d t \<longleftrightarrow> pt_tree m pt \<and> (\<forall>t \<in> tables m pt. page_addr e0 t) \<and>
     va < MAXVA \<and> d \<le> 2 \<and> pt_table m pt va d = Some t"

abbreviation entry_store :: "memory \<Rightarrow> nat \<Rightarrow> nat \<Rightarrow> nat \<Rightarrow> pte \<Rightarrow> memory" where
  "entry_store m va d t e \<equiv> store64 m (t + 8 * PX (2 - d) va) e"

lemma slot_other:
  assumes E: "entry_at m pt e0 va d t"
    and "pt_table m pt vb d' = Some t'" "vb < MAXVA" "d' \<le> 2" "d' \<noteq> d \<or> reg (Suc d) va \<noteq> reg (Suc d) vb"
  shows "load64 (entry_store m va d t e) (t' + 8 * PX (2 - d') vb) = load64 m (t' + 8 * PX (2 - d') vb)"
proof -
  have tree: "pt_tree m pt" and pages: "\<forall>t \<in> tables m pt. page_addr e0 t" and va: "va < MAXVA"
    and d: "d \<le> 2" and t: "pt_table m pt va d = Some t" using E by (auto simp: entry_at_def)
  have "t \<noteq> t' \<or> PX (2 - d) va \<noteq> PX (2 - d') vb"
    using pt_treeD[OF tree t _ va assms(3) d assms(4)] assms(2,5) reg_Suc_iff[OF d] by blast
  moreover have "t mod 4096 = 0" "t' mod 4096 = 0"
    using pages tablesI[OF t va d] tablesI[OF assms(2-4)] by (auto simp: page_addr_def PGSIZE_def)
  ultimately have "t + 8 * PX (2 - d) va + 8 \<le> t' + 8 * PX (2 - d') vb \<or>
      t' + 8 * PX (2 - d') vb + 8 \<le> t + 8 * PX (2 - d) va"
    by (rule slots_apart) (simp_all add: PX_less)
  then show ?thesis by (auto simp: mem_simps)
qed

lemma table_upto:
  assumes E: "entry_at m pt e0 va d t" and "vb < MAXVA"
  shows "d' \<le> d \<Longrightarrow> pt_table (entry_store m va d t e) pt vb d' = pt_table m pt vb d'"
proof (induction d')
  case (Suc d')
  have "d \<le> 2" using E by (simp add: entry_at_def)
  then show ?case using Suc slot_other[OF E, of vb d'] assms by (cases "pt_table m pt vb d'") simp_all
qed simp

lemma table_other:
  assumes E: "entry_at m pt e0 va d t" and "vb < MAXVA" "reg (Suc d) va \<noteq> reg (Suc d) vb"
  shows "d' \<le> 3 \<Longrightarrow> pt_table (entry_store m va d t e) pt vb d' = pt_table m pt vb d'"
proof (induction d')
  case (Suc d')
  then show ?case using slot_other[OF E, of vb d'] assms by (cases "pt_table m pt vb d'") simp_all
qed simp

lemma leaf_other:
  assumes E: "entry_at m pt e0 va d t" and "vb < MAXVA" "reg (Suc d) va \<noteq> reg (Suc d) vb"
  shows "leaf (entry_store m va d t e) pt vb = leaf m pt vb"
proof (cases "pt_table m pt vb 2")
  case None
  then show ?thesis using table_other[OF assms, of 2] by (simp add: leaf_def)
next
  case (Some t')
  then show ?thesis using table_other[OF assms, of 2] slot_other[OF E Some] assms by (simp add: leaf_def)
qed

lemma entry_same:
  assumes E: "entry_at m pt e0 va d t" and "reg (Suc d) va = reg (Suc d) vb" "vb < MAXVA"
  shows "pt_table (entry_store m va d t e) pt vb d = Some t"
    "load64 (entry_store m va d t e) (t + 8 * PX (2 - d) vb) = e"
proof -
  have t: "pt_table m pt va d = Some t" and d: "d \<le> 2" using E by (auto simp: entry_at_def)
  have "pt_table m pt vb d = Some t"
    using pt_table_cong[of d va vb m pt] reg_mono[OF assms(2) d] t d by simp
  then show "pt_table (entry_store m va d t e) pt vb d = Some t" using table_upto[OF E assms(3), of d] by simp
  show "load64 (entry_store m va d t e) (t + 8 * PX (2 - d) vb) = e" using assms(2) reg_Suc_iff[OF d] by simp
qed

lemma leaf_None: "pt_table m pt va 2 = None \<Longrightarrow> leaf m pt va = 0"
  by (simp add: leaf_def)

lemma reg_3: "reg 3 va = va div 4096"
  by (simp add: reg_def)

lemma store_leaf:
  assumes E: "entry_at m pt e0 va 2 t"
  shows "vb < MAXVA \<Longrightarrow> leaf (entry_store m va 2 t e) pt vb = (if vb div 4096 = va div 4096 then e else leaf m pt vb)"
    "vb < MAXVA \<Longrightarrow> d \<le> 2 \<Longrightarrow> pt_table (entry_store m va 2 t e) pt vb d = pt_table m pt vb d"
    "tables (entry_store m va 2 t e) pt = tables m pt" "pt_tree (entry_store m va 2 t e) pt"
proof -
  have T: "pt_table (entry_store m va 2 t e) pt vb d = pt_table m pt vb d" if "vb < MAXVA" "d \<le> 2" for vb d
    by (rule table_upto[OF E that])
  show "vb < MAXVA \<Longrightarrow> d \<le> 2 \<Longrightarrow> pt_table (entry_store m va 2 t e) pt vb d = pt_table m pt vb d" by (rule T)
  have "pt_tree m pt" using E by (simp add: entry_at_def)
  with tables_eqI[OF T] show "tables (entry_store m va 2 t e) pt = tables m pt" "pt_tree (entry_store m va 2 t e) pt"
    by blast+
  assume vb: "vb < MAXVA"
  show "leaf (entry_store m va 2 t e) pt vb = (if vb div 4096 = va div 4096 then e else leaf m pt vb)"
  proof (cases "reg (Suc 2) va = reg (Suc 2) vb")
    case True
    from entry_same[OF E True vb, of e] True show ?thesis by (simp add: leaf_def reg_def)
  next
    case False
    from leaf_other[OF E vb False, of e] False show ?thesis by (auto simp: reg_def)
  qed
qed

section \<open>Entries\<close>

lemma bit_flags: "PTE_FLAGS f = f \<Longrightarrow> bit f n \<Longrightarrow> n < 10"
proof -
  assume f: "PTE_FLAGS f = f" and b: "bit f n"
  have "bit (f AND 0x3FF) n" using f b by (simp add: PTE_FLAGS_def)
  moreover have "(0x3FF :: pte) = mask 10" by (simp add: mask_eq_exp_minus_1)
  ultimately show ?thesis by (simp add: bit_simps)
qed

lemma PTE2PA_PA2PTE:
  assumes "pa mod 4096 = 0" "pa < 2 ^ 64" "PTE_FLAGS f = f"
  shows "PTE2PA (PA2PTE pa OR f) = pa"
proof -
  have low: "\<not> bit (of_nat pa :: pte) n" if "n < 12" for n
  proof -
    have "(2::nat) ^ 12 dvd pa" using assms(1) by (simp add: mod_eq_0_iff_dvd)
    then have "take_bit 12 pa = 0" by (simp add: take_bit_eq_mod)
    then have "\<not> bit (take_bit 12 pa) n" by simp
    then show ?thesis using that by (simp add: bit_of_nat_word bit_simps)
  qed
  have "push_bit 12 (drop_bit 10 (PA2PTE pa OR f)) = (of_nat pa :: pte)"
  proof (rule bit_word_eqI)
    fix n assume n: "n < LENGTH(64)"
    show "bit (push_bit 12 (drop_bit 10 (PA2PTE pa OR f))) n = bit (of_nat pa :: pte) n"
      using n low[of n] bit_flags[OF assms(3), of "n - 2"] by (cases "n < 12") (auto simp: PA2PTE_def bit_simps)
  qed
  then show ?thesis using assms(2) by (simp add: PTE2PA_def)
qed

lemma flags_V: "PTE_FLAGS PTE_V = PTE_V"
  by (simp add: PTE_FLAGS_def PTE_V_def)

lemma flags_or: "PTE_FLAGS (a OR b) = PTE_FLAGS a OR PTE_FLAGS b"
  by (simp add: PTE_FLAGS_def bit.conj_disj_distrib2)

lemma V_valid: "(x OR PTE_V) AND PTE_V \<noteq> 0"
proof
  assume "(x OR PTE_V) AND PTE_V = 0"
  then have "bit ((x OR PTE_V) AND PTE_V) 0 = bit (0 :: pte) 0" by simp
  then show False by (simp add: bit_simps PTE_V_def)
qed

lemma load64_zero_page: "p \<le> a \<Longrightarrow> a + 8 \<le> p + n \<Longrightarrow> load64 (memset m p 0 n) a = 0"
proof -
  assume a: "p \<le> a" "a + 8 \<le> p + n"
  have "load64 (memset m p 0 n) a = load64 (\<lambda>_. 0) a"
    by (rule load64_cong) (use a in \<open>simp add: memset_same\<close>)
  also have "\<dots> = 0" by (simp add: load64_def load32_def)
  finally show ?thesis .
qed

section \<open>A new table page\<close>

lemma new_table:
  assumes E: "entry_at m pt e0 va d t" and d: "d < 2"
    and inval: "load64 m (t + 8 * PX (2 - d) va) AND PTE_V = 0"
    and p: "page_addr e0 p" "p \<notin> tables m pt" "\<And>i. i < 512 \<Longrightarrow> load64 m (p + 8 * i) = 0"
  defines "m' \<equiv> entry_store m va d t (PA2PTE p OR PTE_V)"
  shows "vb < MAXVA \<Longrightarrow> d' \<le> 2 \<Longrightarrow> pt_table m' pt vb d' =
      (if d' = Suc d \<and> reg (Suc d) vb = reg (Suc d) va then Some p else pt_table m pt vb d')" (is "_ \<Longrightarrow> _ \<Longrightarrow> ?T vb d'")
    and "vb < MAXVA \<Longrightarrow> leaf m' pt vb = leaf m pt vb"
proof -
  have t: "page_addr e0 t" "t \<noteq> p" "pt_table m pt va d = Some t"
    using E p(2) tablesI[of m pt va d t] d by (auto simp: entry_at_def)
  have dec: "PTE2PA (PA2PTE p OR PTE_V) = p"
    using p(1) by (intro PTE2PA_PA2PTE) (auto simp: page_addr_def PGSIZE_def PHYSTOP_val flags_V)
  have z: "load64 m' (p + 8 * PX l vb) = 0" for l vb
  proof -
    have "t + 8 * PX (2 - d) va + 8 \<le> p + 8 * PX l vb \<or> p + 8 * PX l vb + 8 \<le> t + 8 * PX (2 - d) va"
      using t p(1) by (intro slots_apart) (auto simp: PX_less page_addr_def PGSIZE_def)
    then show ?thesis using p(3)[OF PX_less, of l vb] by (auto simp: m'_def mem_simps)
  qed
  have T: "?T vb d'" if vb: "vb < MAXVA" "d' \<le> 2" for vb d'
  proof (cases "reg (Suc d) va = reg (Suc d) vb")
    case False
    then show ?thesis using table_other[OF E vb(1) False, of d'] vb(2) by (simp add: m'_def)
  next
    case True
    have old: "pt_table m pt vb (Suc d) = None"
      using pt_table_cong[OF True, of m pt] t(3) inval d by simp
    have new: "pt_table m' pt vb (Suc d) = Some p"
      using entry_same[OF E True vb(1), of "PA2PTE p OR PTE_V"] V_valid dec by (simp add: m'_def)
    consider "d' \<le> d" | "d' = Suc d" | "d' = Suc (Suc d)" using vb(2) d by linarith
    then show ?thesis
    proof cases
      case 1
      then show ?thesis using table_upto[OF E vb(1) 1] by (simp add: m'_def)
    next
      case 2
      then show ?thesis using new True by simp
    next
      case 3
      have "pt_table m' pt vb (Suc (Suc d)) = None"
        unfolding pt_table.simps(2)[of m' pt vb "Suc d"] new by (simp add: z Let_def)
      moreover have "pt_table m pt vb (Suc (Suc d)) = None"
        unfolding pt_table.simps(2)[of m pt vb "Suc d"] old by simp
      ultimately show ?thesis using 3 by simp
    qed
  qed
  show "vb < MAXVA \<Longrightarrow> d' \<le> 2 \<Longrightarrow> ?T vb d'" by (rule T)
  assume vb: "vb < MAXVA"
  show "leaf m' pt vb = leaf m pt vb"
  proof (cases "reg (Suc d) va = reg (Suc d) vb")
    case False
    then show ?thesis using leaf_other[OF E vb False] by (simp add: m'_def)
  next
    case True
    have "pt_table m pt vb (Suc d) = None"
      using pt_table_cong[OF True, of m pt] t(3) inval d by simp
    then have "pt_table m pt vb 2 = None" by (rule pt_table_None) (use d in simp)
    then show ?thesis using T[OF vb, of 2] True z[of 0 vb] by (auto simp: leaf_def split: if_splits)
  qed
qed

lemma new_table_tables:
  assumes N: "\<And>vb d'. vb < MAXVA \<Longrightarrow> d' \<le> 2 \<Longrightarrow> pt_table m' pt vb d' =
      (if d' = Suc d \<and> reg (Suc d) vb = reg (Suc d) va then Some p else pt_table m pt vb d')"
  shows "va < MAXVA \<Longrightarrow> d < 2 \<Longrightarrow> pt_table m pt va (Suc d) = None \<Longrightarrow> tables m' pt = insert p (tables m pt)"
    "p \<notin> tables m pt \<Longrightarrow> pt_tree m pt \<Longrightarrow> d < 2 \<Longrightarrow> pt_tree m' pt"
proof -
  assume a: "va < MAXVA" "d < 2" "pt_table m pt va (Suc d) = None"
  show "tables m' pt = insert p (tables m pt)"
  proof (intro set_eqI iffI)
    fix x assume "x \<in> tables m' pt"
    then obtain vb d' where "vb < MAXVA" "d' \<le> 2" "pt_table m' pt vb d' = Some x" by (auto simp: tables_def)
    then show "x \<in> insert p (tables m pt)" using N[of vb d'] by (auto intro: tablesI split: if_splits)
  next
    fix x assume x: "x \<in> insert p (tables m pt)"
    show "x \<in> tables m' pt"
    proof (cases "x = p")
      case True
      then show ?thesis using N[OF a(1), of "Suc d"] a(2) tablesI[of m' pt va "Suc d" p] a(1) by simp
    next
      case False
      then obtain vb d' where v: "vb < MAXVA" "d' \<le> 2" "pt_table m pt vb d' = Some x" using x by (auto simp: tables_def)
      have "\<not> (d' = Suc d \<and> reg (Suc d) vb = reg (Suc d) va)"
        using v(3) a(2,3) pt_table_cong[of "Suc d" vb va m pt] by auto
      then have "pt_table m' pt vb d' = Some x" using N[OF v(1,2)] v(3) by auto
      then show ?thesis using tablesI v by blast
    qed
  qed
next
  assume a: "p \<notin> tables m pt" "pt_tree m pt" "d < 2"
  show "pt_tree m' pt"
    unfolding pt_tree_def
  proof (intro allI impI)
    fix va' vb d1 d2 t
    assume v: "va' < MAXVA" "vb < MAXVA" "d1 \<le> 2" "d2 \<le> 2"
      and t: "pt_table m' pt va' d1 = Some t" "pt_table m' pt vb d2 = Some t"
    have "t = p \<and> d1 = Suc d \<and> reg (Suc d) va' = reg (Suc d) va \<or> pt_table m pt va' d1 = Some t \<and> t \<noteq> p"
      using t(1) N[OF v(1,3)] tablesI[OF _ v(1,3)] a(1) by (auto split: if_splits)
    moreover have "t = p \<and> d2 = Suc d \<and> reg (Suc d) vb = reg (Suc d) va \<or> pt_table m pt vb d2 = Some t \<and> t \<noteq> p"
      using t(2) N[OF v(2,4)] tablesI[OF _ v(2,4)] a(1) by (auto split: if_splits)
    ultimately show "d1 = d2 \<and> reg d1 va' = reg d1 vb" using pt_treeD[OF a(2) _ _ v] by auto
  qed
qed

section \<open>Growing a page table\<close>

definition in_page :: "nat \<Rightarrow> nat \<Rightarrow> bool" where
  "in_page p x \<longleftrightarrow> p \<le> x \<and> x < p + PGSIZE"

text \<open>
  The page table of \<open>s'\<close> has the tables of \<open>s\<close> and some of the free pages; the memory outside
  the tables is the same. \<open>pt_grown\<close>: every leaf entry is the same, too.
\<close>

definition pt_ext :: "nat \<Rightarrow> 'z phys_scheme \<Rightarrow> nat list \<Rightarrow> 'z phys_scheme \<Rightarrow> nat list \<Rightarrow> bool" where
  "pt_ext pt s ps s' ps' \<longleftrightarrow> pt_inv s' pt ps' \<and> kend s' = kend s \<and> (\<exists>qs. ps = qs @ ps' \<and>
     tables (pm s') pt = set qs \<union> tables (pm s) pt) \<and>
     (\<forall>x. (\<forall>t \<in> tables (pm s') pt. \<not> in_page t x) \<longrightarrow> pm s' x = pm s x)"

definition pt_grown :: "nat \<Rightarrow> 'z phys_scheme \<Rightarrow> nat list \<Rightarrow> 'z phys_scheme \<Rightarrow> nat list \<Rightarrow> bool" where
  "pt_grown pt s ps s' ps' \<longleftrightarrow> pt_ext pt s ps s' ps' \<and> (\<forall>vb < MAXVA. leaf (pm s') pt vb = leaf (pm s) pt vb)"

lemma pt_ext_refl: "pt_inv s pt ps \<Longrightarrow> pt_ext pt s ps s ps"
  by (simp add: pt_ext_def)

lemma pt_ext_trans:
  assumes "pt_ext pt s ps s1 ps1" "pt_ext pt s1 ps1 s2 ps2"
  shows "pt_ext pt s ps s2 ps2"
proof -
  from assms(1) obtain qs where q: "ps = qs @ ps1" "tables (pm s1) pt = set qs \<union> tables (pm s) pt"
    unfolding pt_ext_def by blast
  from assms(2) obtain rs where r: "ps1 = rs @ ps2" "tables (pm s2) pt = set rs \<union> tables (pm s1) pt"
    unfolding pt_ext_def by blast
  have "ps = (qs @ rs) @ ps2" "tables (pm s2) pt = set (qs @ rs) \<union> tables (pm s) pt" using q r by auto
  then have "\<exists>qs. ps = qs @ ps2 \<and> tables (pm s2) pt = set qs \<union> tables (pm s) pt" by blast
  moreover have "pm s2 x = pm s x" if "\<forall>t \<in> tables (pm s2) pt. \<not> in_page t x" for x
    using assms that r(2) by (simp add: pt_ext_def)
  ultimately show ?thesis using assms by (simp add: pt_ext_def)
qed

lemma pt_grown_refl: "pt_inv s pt ps \<Longrightarrow> pt_grown pt s ps s ps"
  by (simp add: pt_grown_def pt_ext_refl)

lemma pt_grown_trans: "pt_grown pt s ps s1 ps1 \<Longrightarrow> pt_grown pt s1 ps1 s2 ps2 \<Longrightarrow> pt_grown pt s ps s2 ps2"
  by (auto simp: pt_grown_def intro: pt_ext_trans)

lemma pt_extD: "pt_ext pt s ps s' ps' \<Longrightarrow> pt_inv s' pt ps' \<and> kend s' = kend s"
  by (simp add: pt_ext_def)

lemma entry_at_inv:
  "pt_inv s pt ps \<Longrightarrow> pt_table (pm s) pt va d = Some t \<Longrightarrow> va < MAXVA \<Longrightarrow> d \<le> 2 \<Longrightarrow> entry_at (pm s) pt (kend s) va d t"
  by (simp add: entry_at_def pt_inv_def)

lemma in_page_apart: "page_addr e p \<Longrightarrow> page_addr e' q \<Longrightarrow> p \<noteq> q \<Longrightarrow> in_page p x \<Longrightarrow> \<not> in_page q x"
  using page_apart[of e p e' q] by (auto simp: in_page_def)

lemma kmem_inv_frame:
  assumes "kmem_inv s ps" "\<And>p x. p \<in> set ps \<Longrightarrow> in_page p x \<Longrightarrow> m x = pm s x"
  shows "kmem_inv (s\<lparr>pm := m\<rparr>) ps"
proof -
  have "page_chain m (freelist s) ps"
    by (rule page_chain_frame[of "pm s"]) (use assms in \<open>auto simp: kmem_inv_def in_page_def PGSIZE_def\<close>)
  then show ?thesis using assms(1) by (simp add: kmem_inv_def)
qed

lemma slot_in_table: "i < 8 \<Longrightarrow> in_page t (t + 8 * PX l va + i)"
  using slot_in_page[of l va] by (simp add: in_page_def)

lemma entry_store_out: "\<not> in_page t x \<Longrightarrow> entry_store m va d t e x = m x"
  using slot_in_page[of "2 - d" va] by (auto simp: in_page_def intro!: store64_other)

lemma add_table:
  assumes inv: "pt_inv s pt (p # ps)" and t: "pt_table (pm s) pt va d = Some t" and d: "d < 2" and va: "va < MAXVA"
    and inval: "load64 (pm s) (t + 8 * PX (2 - d) va) AND PTE_V = 0"
  obtains s1 s2 where "kalloc s = Inr (p, s1)" "s2 = s1\<lparr>pm := entry_store (memset (pm s1) p 0 PGSIZE) va d t (PA2PTE p OR PTE_V)\<rparr>"
    "pt_grown pt s (p # ps) s2 ps" "pt_table (pm s2) pt va (Suc d) = Some p"
proof -
  let ?m = "pm s"
  have k: "kmem_inv s (p # ps)" and pg: "\<And>t. t \<in> tables ?m pt \<Longrightarrow> page_addr (kend s) t \<and> t \<notin> set (p # ps)"
    using inv by (auto simp: pt_inv_def)
  have p: "page_addr (kend s) p" "p \<notin> set ps" using k by (auto simp: kmem_inv_def)
  obtain s1 where s1: "kalloc s = Inr (p, s1)" "kmem_inv s1 ps" "kend s1 = kend s"
    "\<And>x. x < p \<or> p + PGSIZE \<le> x \<Longrightarrow> pm s1 x = pm s x" by (rule kalloc_inv[OF k]) (rule that)
  define m1 where "m1 = memset (pm s1) p 0 PGSIZE"
  define m2 where "m2 = entry_store m1 va d t (PA2PTE p OR PTE_V)"
  have out1: "m1 x = ?m x" if "\<not> in_page p x" for x
    using that s1(4)[of x] by (auto simp: m1_def memset_other in_page_def)
  have fr: "m1 x = ?m x" if "t \<in> tables ?m pt" "t \<le> x" "x < t + PGSIZE" for t x
  proof -
    have "page_addr (kend s) t" "t \<noteq> p" using pg[OF that(1)] by auto
    from in_page_apart[OF this(1) p(1) this(2), of x] that(2,3) show ?thesis by (intro out1) (simp add: in_page_def)
  qed
  have T1: "tables m1 pt = tables ?m pt" by (rule tables_frame(1)[OF fr])
  have tr: "pt_tree m1 pt" by (rule tables_frame(2)[OF fr]) (use inv in \<open>auto simp: pt_inv_def\<close>)
  have t1: "pt_table m1 pt va d = Some t" using pt_table_frame[where d = d, OF fr va] t d by simp
  have E: "entry_at m1 pt (kend s) va d t" using tr T1 pg va d t1 by (simp add: entry_at_def)
  have "load64 m1 (t + 8 * PX (2 - d) va) = load64 ?m (t + 8 * PX (2 - d) va)"
    by (rule load64_cong, rule fr[OF tablesI[OF t va]]) (use d slot_in_table[of _ t "2 - d" va] in \<open>auto simp: in_page_def\<close>)
  then have i1: "load64 m1 (t + 8 * PX (2 - d) va) AND PTE_V = 0" using inval by simp
  have pn: "p \<notin> tables m1 pt" using T1 pg by auto
  have z: "load64 m1 (p + 8 * i) = 0" if "i < 512" for i
    unfolding m1_def by (rule load64_zero_page) (use that in \<open>simp_all add: PGSIZE_def\<close>)
  have N: "pt_table m2 pt vb d' = (if d' = Suc d \<and> reg (Suc d) vb = reg (Suc d) va then Some p else pt_table m1 pt vb d')"
    if "vb < MAXVA" "d' \<le> 2" for vb d'
    unfolding m2_def by (rule new_table(1)[OF E d i1 p(1) pn z that])
  have L: "leaf m2 pt vb = leaf ?m pt vb" if "vb < MAXVA" for vb
    by (rule trans[OF new_table(2)[OF E d i1 p(1) pn z that, folded m2_def] leaf_frame[OF fr that]])
  have T2: "tables m2 pt = insert p (tables ?m pt)"
    using new_table_tables(1)[OF N va d] t1 i1 T1 by simp
  have tr2: "pt_tree m2 pt" by (rule new_table_tables(2)[OF N pn tr d])
  have out2: "m2 x = ?m x" if "\<not> in_page p x" "\<not> in_page t x" for x
    unfolding m2_def using entry_store_out[OF that(2)] out1[OF that(1)] by simp
  let ?s2 = "s1\<lparr>pm := m2\<rparr>"
  have tt: "t \<in> tables ?m pt" using tablesI[OF t va] d by simp
  have k2: "kmem_inv ?s2 ps"
  proof (rule kmem_inv_frame[OF s1(2)])
    fix q x assume q: "q \<in> set ps" "in_page q x"
    have pq: "page_addr (kend s) q" "q \<noteq> p" "q \<noteq> t" using k q(1) p(2) pg[OF tt] by (auto simp: kmem_inv_def)
    have "\<not> in_page p x" "\<not> in_page t x"
      using in_page_apart[OF pq(1) p(1) pq(2) q(2)] in_page_apart[OF pq(1) _ pq(3) q(2)] pg[OF tt] by auto
    then show "m2 x = pm s1 x" using out2 s1(4)[of x] by (auto simp: in_page_def)
  qed
  have "pt_inv ?s2 pt ps" using k2 tr2 T2 pg p s1(3) by (auto simp: pt_inv_def)
  then have "pt_grown pt s (p # ps) ?s2 ps"
    unfolding pt_grown_def pt_ext_def using T2 L out2 tt s1(3) by (auto intro!: exI[of _ "[p]"])
  moreover have "pt_table m2 pt va (Suc d) = Some p" using N[OF va, of "Suc d"] d by simp
  ultimately show thesis using that[of s1 ?s2] s1(1) by (simp add: m2_def m1_def)
qed

section \<open>\<^verbatim>\<open>walk\<close>\<close>

lemma walk_loop_find:
  "l \<le> 2 \<Longrightarrow> pt_table (pm s) pt va (2 - l) = Some t \<Longrightarrow>
   walk_loop va False l t s = Inr ((case pt_table (pm s) pt va 2 of None \<Rightarrow> 0 | Some t \<Rightarrow> t + 8 * PX 0 va), s)"
proof (induction l arbitrary: t)
  case (Suc l)
  let ?e = "load64 (pm s) (t + 8 * PX (Suc l) va)"
  have d: "2 - l = Suc (2 - Suc l)" "2 - (2 - Suc l) = Suc l" using Suc.prems(1) by auto
  have n: "pt_table (pm s) pt va (2 - l) = (if ?e AND PTE_V \<noteq> 0 then Some (PTE2PA ?e) else None)"
    unfolding d(1) pt_table.simps Suc.prems(2) by (simp only: d(2) option.case Let_def)
  show ?case
  proof (cases "?e AND PTE_V \<noteq> 0")
    case True
    from Suc.IH[of "PTE2PA ?e"] n True Suc.prems(1) show ?thesis
      by (simp add: ldpte_def run_simps Let_def)
  next
    case False
    then have "pt_table (pm s) pt va 2 = None"
      using n pt_table_None[of "pm s" pt va "2 - l" 2] by simp
    then show ?thesis using False by (simp add: ldpte_def run_simps Let_def)
  qed
qed (simp add: run_simps)

lemma walk_find: "va < MAXVA \<Longrightarrow> walk pt va False s =
   Inr ((case pt_table (pm s) pt va 2 of None \<Rightarrow> 0 | Some t \<Rightarrow> t + 8 * PX 0 va), s)"
  using walk_loop_find[of 2 s pt va pt] by (simp add: walk_def)

lemma walk_loop_alloc:
  "pt_inv s pt ps \<Longrightarrow> va < MAXVA \<Longrightarrow> l \<le> 2 \<Longrightarrow> pt_table (pm s) pt va (2 - l) = Some t \<Longrightarrow>
   \<exists>r s' ps'. walk_loop va True l t s = Inr (r, s') \<and> pt_grown pt s ps s' ps' \<and> length ps \<le> length ps' + l \<and>
     (r = 0 \<and> ps' = [] \<and> length ps < l \<or> (\<exists>t'. pt_table (pm s') pt va 2 = Some t' \<and> r = t' + 8 * PX 0 va))"
proof (induction l arbitrary: t s ps)
  case 0
  then show ?case by (auto simp: run_simps intro: pt_grown_refl)
next
  case (Suc l)
  let ?e = "load64 (pm s) (t + 8 * PX (Suc l) va)"
  have d: "2 - l = Suc (2 - Suc l)" "2 - (2 - Suc l) = Suc l" "2 - Suc l < 2" using Suc.prems(3) by auto
  have n: "pt_table (pm s) pt va (2 - l) = (if ?e AND PTE_V \<noteq> 0 then Some (PTE2PA ?e) else None)"
    unfolding d(1) pt_table.simps Suc.prems(4) by (simp only: d(2) option.case Let_def)
  consider "?e AND PTE_V \<noteq> 0" | "?e AND PTE_V = 0" "ps = []" | p ps0 where "?e AND PTE_V = 0" "ps = p # ps0"
    by (cases ps) auto
  then show ?case
  proof cases
    case 1
    from Suc.IH[of s ps "PTE2PA ?e"] n 1 Suc.prems obtain r s' ps' where
      "walk_loop va True l (PTE2PA ?e) s = Inr (r, s')" "pt_grown pt s ps s' ps'" "length ps \<le> length ps' + l"
      "r = 0 \<and> ps' = [] \<and> length ps < l \<or> (\<exists>t'. pt_table (pm s') pt va 2 = Some t' \<and> r = t' + 8 * PX 0 va)" by auto
    then show ?thesis using 1 by (intro exI[of _ r] exI[of _ s'] exI[of _ ps']) (auto simp: ldpte_def run_simps Let_def)
  next
    case 2
    then have "kalloc s = Inr (0, s)" using Suc.prems(1) by (simp add: pt_inv_def kmem_inv_def kalloc_run)
    then show ?thesis using 2 Suc.prems(1) by (auto simp: ldpte_def run_simps Let_def intro: pt_grown_refl)
  next
    case 3
    have i: "load64 (pm s) (t + 8 * PX (2 - (2 - Suc l)) va) AND PTE_V = 0" using 3(1) d(2) by simp
    obtain s1 s2 where s: "kalloc s = Inr (p, s1)"
      "s2 = s1\<lparr>pm := entry_store (memset (pm s1) p 0 PGSIZE) va (2 - Suc l) t (PA2PTE p OR PTE_V)\<rparr>"
      "pt_grown pt s (p # ps0) s2 ps0" "pt_table (pm s2) pt va (Suc (2 - Suc l)) = Some p"
      by (rule add_table[OF Suc.prems(1)[unfolded 3(2)] Suc.prems(4) d(3) Suc.prems(2) i]) (rule that)
    have p0: "p \<noteq> 0" using Suc.prems(1) 3(2) by (simp add: pt_inv_def kmem_inv_def page_addr_def)
    have "walk_loop va True (Suc l) t s = walk_loop va True l p s2"
      using 3(1) s(1,2) p0 d(2) by (simp add: ldpte_def zero_page_def stpte_def mem_upd_def run_simps Let_def)
    moreover have "pt_inv s2 pt ps0" using s(3) by (simp add: pt_grown_def pt_ext_def)
    moreover have "l \<le> 2" "pt_table (pm s2) pt va (2 - l) = Some p" using s(4) Suc.prems(3) by (auto simp only: d(1))
    ultimately obtain r s' ps' where ih: "walk_loop va True (Suc l) t s = Inr (r, s')" "pt_grown pt s2 ps0 s' ps'"
      "length ps0 \<le> length ps' + l"
      "r = 0 \<and> ps' = [] \<and> length ps0 < l \<or> (\<exists>t'. pt_table (pm s') pt va 2 = Some t' \<and> r = t' + 8 * PX 0 va)"
      using Suc.IH[of s2 ps0 p] Suc.prems(2) by auto
    show ?thesis using ih pt_grown_trans[OF s(3) ih(2)] 3(2)
      by (intro exI[of _ r] exI[of _ s'] exI[of _ ps']) auto
  qed
qed

lemma walk_alloc:
  assumes "pt_inv s pt ps" "va < MAXVA"
  obtains s' where "walk pt va True s = Inr (0, s')" "pt_grown pt s ps s' []" "length ps < 2"
  | s' ps' t where "walk pt va True s = Inr (t + 8 * PX 0 va, s')" "t + 8 * PX 0 va \<noteq> 0" "pt_grown pt s ps s' ps'"
    "pt_table (pm s') pt va 2 = Some t" "length ps \<le> length ps' + 2"
proof -
  from walk_loop_alloc[OF assms, of 2 pt] obtain r s' ps' where w: "walk_loop va True 2 pt s = Inr (r, s')"
    "pt_grown pt s ps s' ps'" "length ps \<le> length ps' + 2"
    "r = 0 \<and> ps' = [] \<and> length ps < 2 \<or> (\<exists>t'. pt_table (pm s') pt va 2 = Some t' \<and> r = t' + 8 * PX 0 va)"
    by auto
  have "walk pt va True s = Inr (r, s')" using w(1) assms(2) by (simp add: walk_def)
  moreover have "t' \<noteq> 0" if "pt_table (pm s') pt va 2 = Some t'" for t'
    using w(2) tablesI[OF that assms(2)] by (auto simp: pt_grown_def pt_ext_def pt_inv_def page_addr_def)
  ultimately show thesis using w(2,3,4) that by auto
qed

section \<open>\<^verbatim>\<open>mappages\<close> and \<^verbatim>\<open>uvmunmap\<close>\<close>

lemma set_leaf:
  assumes inv: "pt_inv s pt ps" and va: "va < MAXVA" and t: "pt_table (pm s) pt va 2 = Some t"
  obtains s' where "stpte (t + 8 * PX 0 va) e s = Inr ((), s')" "pt_ext pt s ps s' ps"
    "\<And>vb. vb < MAXVA \<Longrightarrow> leaf (pm s') pt vb = (if vb div 4096 = va div 4096 then e else leaf (pm s) pt vb)"
proof -
  define m where "m = entry_store (pm s) va 2 t e"
  let ?s = "s\<lparr>pm := m\<rparr>"
  have E: "entry_at (pm s) pt (kend s) va 2 t" by (rule entry_at_inv[OF inv t va]) simp
  have T: "tables m pt = tables (pm s) pt" "pt_tree m pt" unfolding m_def by (rule store_leaf(3,4)[OF E])+
  have tt: "t \<in> tables (pm s) pt" using tablesI[OF t va] by simp
  have out: "m x = pm s x" if "\<not> in_page t x" for x unfolding m_def by (rule entry_store_out[OF that])
  have "kmem_inv ?s ps"
  proof (rule kmem_inv_frame)
    show "kmem_inv s ps" using inv by (simp add: pt_inv_def)
    fix p x assume "p \<in> set ps" "in_page p x"
    then show "m x = pm s x" using inv tt by (intro out in_page_apart[of "kend s" p "kend s"]) (auto simp: pt_inv_def kmem_inv_def)
  qed
  then have "pt_inv ?s pt ps" using T inv by (simp add: pt_inv_def)
  then have x: "pt_ext pt s ps ?s ps" using T out tt by (simp add: pt_ext_def)
  have "stpte (t + 8 * PX 0 va) e s = Inr ((), ?s)"
    by (simp add: stpte_def mem_upd_def run_simps m_def)
  moreover have "leaf (pm ?s) pt vb = (if vb div 4096 = va div 4096 then e else leaf (pm s) pt vb)" if "vb < MAXVA" for vb
    using store_leaf(1)[OF E that] by (simp add: m_def)
  ultimately show thesis using that x by blast
qed

definition mapped_leaf :: "(nat \<Rightarrow> pte) \<Rightarrow> nat \<Rightarrow> nat \<Rightarrow> nat \<Rightarrow> pte \<Rightarrow> nat \<Rightarrow> pte" where
  "mapped_leaf f a k pa perm vb = (if a \<le> vb \<and> vb < a + k * PGSIZE
     then PA2PTE (pa + (vb - a) div PGSIZE * PGSIZE) OR perm OR PTE_V else f vb)"

lemma page_cases: "a mod 4096 = 0 \<Longrightarrow> vb div 4096 = a div 4096 \<longleftrightarrow> a \<le> vb \<and> vb < a + (4096::nat)"
proof -
  assume "a mod 4096 = 0"
  then obtain k where "a = 4096 * k" by (auto elim!: dvdE simp: mod_eq_0_iff_dvd)
  then show ?thesis by (auto simp: div_nat_eqI)
qed

lemma mapped_leaf_0: "mapped_leaf f a 0 pa perm = f"
  by (auto simp: mapped_leaf_def fun_eq_iff)

lemma mapped_leaf_Suc:
  assumes "a mod 4096 = 0"
  shows "mapped_leaf (\<lambda>vb. if vb div 4096 = a div 4096 then PA2PTE pa OR perm OR PTE_V else f vb) (a + PGSIZE) k (pa + PGSIZE) perm vb
    = mapped_leaf f a (Suc k) pa perm vb"
proof -
  have *: "(vb - a) div 4096 = Suc ((vb - (a + 4096)) div 4096)" if "a + 4096 \<le> vb"
    using that le_div_geq[of 4096 "vb - a"] by simp
  show ?thesis
    using * by (auto simp: mapped_leaf_def PGSIZE_def page_cases[OF assms] add.assoc)
qed

lemma mapped_leaf_cong: "(\<And>vb. vb < MAXVA \<Longrightarrow> f vb = g vb) \<Longrightarrow> vb < MAXVA \<Longrightarrow> mapped_leaf f a k pa perm vb = mapped_leaf g a k pa perm vb"
  by (simp add: mapped_leaf_def)

lemma map_step:
  assumes inv: "pt_inv s pt ps" and a: "a < MAXVA" and free: "leaf (pm s) pt a AND PTE_V = 0"
  obtains s' where "\<And>n. map_loop pt lst perm (Suc n) a pa s = Inr (- 1, s')" "pt_ext pt s ps s' []" "length ps < 2"
    "\<And>vb. vb < MAXVA \<Longrightarrow> leaf (pm s') pt vb = leaf (pm s) pt vb"
  | s' ps' where "\<And>n. map_loop pt lst perm (Suc n) a pa s =
      (if a = lst then Inr (0, s') else map_loop pt lst perm n (a + PGSIZE) (pa + PGSIZE) s')" "pt_ext pt s ps s' ps'" "length ps \<le> length ps' + 2"
    "\<And>vb. vb < MAXVA \<Longrightarrow> leaf (pm s') pt vb =
       (if vb div 4096 = a div 4096 then PA2PTE pa OR perm OR PTE_V else leaf (pm s) pt vb)"
proof (rule walk_alloc[OF inv a])
  fix s' assume "walk pt a True s = Inr (0, s')" "pt_grown pt s ps s' []" "length ps < 2"
  then show thesis by (intro that(1)[of s']) (auto simp: run_simps pt_grown_def)
next
  fix s1 ps1 t
  assume w: "walk pt a True s = Inr (t + 8 * PX 0 a, s1)" "t + 8 * PX 0 a \<noteq> 0" "pt_grown pt s ps s1 ps1"
    "pt_table (pm s1) pt a 2 = Some t" "length ps \<le> length ps1 + 2"
  have g: "pt_ext pt s ps s1 ps1" "\<And>vb. vb < MAXVA \<Longrightarrow> leaf (pm s1) pt vb = leaf (pm s) pt vb"
    using w(3) by (auto simp: pt_grown_def)
  have inv1: "pt_inv s1 pt ps1" using g(1) by (simp add: pt_ext_def)
  obtain s2 where s2: "stpte (t + 8 * PX 0 a) (PA2PTE pa OR perm OR PTE_V) s1 = Inr ((), s2)" "pt_ext pt s1 ps1 s2 ps1"
    "\<And>vb. vb < MAXVA \<Longrightarrow> leaf (pm s2) pt vb = (if vb div 4096 = a div 4096 then PA2PTE pa OR perm OR PTE_V else leaf (pm s1) pt vb)"
    by (rule set_leaf[OF inv1 a w(4)]) (rule that)
  have e: "load64 (pm s1) (t + 8 * PX 0 a) AND PTE_V = 0" using free g(2)[OF a] w(4) by (simp add: leaf_def)
  obtain q where q: "q = t + 8 * PX 0 a" by blast
  show thesis
  proof (rule that(2)[of s2 ps1])
    show "map_loop pt lst perm (Suc n) a pa s =
      (if a = lst then Inr (0, s2) else map_loop pt lst perm n (a + PGSIZE) (pa + PGSIZE) s2)" for n
      using w(1,2) s2(1) e unfolding q[symmetric] by (simp add: run_simps ldpte_def)
    show "pt_ext pt s ps s2 ps1" by (rule pt_ext_trans[OF g(1) s2(2)])
    show "length ps \<le> length ps1 + 2" by (rule w(5))
  qed (simp add: s2(3) g(2))
qed

lemma map_loop_run:
  assumes "pt_inv s pt ps" "a mod 4096 = 0" "a + Suc n * PGSIZE \<le> MAXVA" "n < fuel"
    "\<And>vb. a \<le> vb \<Longrightarrow> vb < a + Suc n * PGSIZE \<Longrightarrow> leaf (pm s) pt vb AND PTE_V = 0"
  shows "\<exists>r s' ps' k. map_loop pt (a + n * PGSIZE) perm fuel a pa s = Inr (r, s') \<and> pt_ext pt s ps s' ps' \<and>
    (r = 0 \<and> k = Suc n \<or> r = - 1 \<and> k \<le> n \<and> ps' = [] \<and> length ps < 2 * Suc n) \<and>
    (\<forall>vb < MAXVA. leaf (pm s') pt vb = mapped_leaf (leaf (pm s) pt) a k pa perm vb)"
  using assms
proof (induction n arbitrary: s ps a pa fuel)
  case 0
  obtain f where f: "fuel = Suc f" using 0(4) by (cases fuel) auto
  have lt: "a < MAXVA" using 0(3) by (simp add: PGSIZE_def)
  have fr: "leaf (pm s) pt a AND PTE_V = 0" using 0(5)[of a] by (simp add: PGSIZE_def)
  show ?case
  proof (rule map_step[OF 0(1) lt fr, where lst = a and perm = perm and pa = pa])
    fix s' assume "\<And>n. map_loop pt a perm (Suc n) a pa s = Inr (- 1, s')" "pt_ext pt s ps s' []" "length ps < 2"
      "\<And>vb. vb < MAXVA \<Longrightarrow> leaf (pm s') pt vb = leaf (pm s) pt vb"
    then show ?thesis by (intro exI[of _ "- 1"] exI[of _ s'] exI[of _ "[]"] exI[of _ 0]) (simp add: f mapped_leaf_0)
  next
    fix s' ps' assume m: "\<And>n. map_loop pt a perm (Suc n) a pa s =
      (if a = a then Inr (0, s') else map_loop pt a perm n (a + PGSIZE) (pa + PGSIZE) s')" "pt_ext pt s ps s' ps'" "length ps \<le> length ps' + 2"
      "\<And>vb. vb < MAXVA \<Longrightarrow> leaf (pm s') pt vb =
         (if vb div 4096 = a div 4096 then PA2PTE pa OR perm OR PTE_V else leaf (pm s) pt vb)"
    have "\<forall>vb < MAXVA. leaf (pm s') pt vb = mapped_leaf (leaf (pm s) pt) a (Suc 0) pa perm vb"
      using m(4) mapped_leaf_Suc[OF 0(2), of pa perm "leaf (pm s) pt" 0] by (simp add: mapped_leaf_0)
    then show ?thesis using m(1)[of f] m(2) by (intro exI[of _ 0] exI[of _ s'] exI[of _ ps'] exI[of _ "Suc 0"]) (simp add: f)
  qed
next
  case (Suc n)
  obtain f where f: "fuel = Suc f" "n < f" using Suc.prems(4) by (cases fuel) auto
  have lt: "a < MAXVA" using Suc.prems(3) by (simp add: PGSIZE_def)
  have fr: "leaf (pm s) pt a AND PTE_V = 0" using Suc.prems(5)[of a] by (simp add: PGSIZE_def)
  have lst: "a + Suc n * PGSIZE = a + PGSIZE + n * PGSIZE" "a \<noteq> a + Suc n * PGSIZE" by (simp_all add: PGSIZE_def)
  show ?case
  proof (rule map_step[OF Suc.prems(1) lt fr, where lst = "a + Suc n * PGSIZE" and perm = perm and pa = pa])
    fix s' assume "\<And>k. map_loop pt (a + Suc n * PGSIZE) perm (Suc k) a pa s = Inr (- 1, s')" "pt_ext pt s ps s' []" "length ps < 2"
      "\<And>vb. vb < MAXVA \<Longrightarrow> leaf (pm s') pt vb = leaf (pm s) pt vb"
    then show ?thesis by (intro exI[of _ "- 1"] exI[of _ s'] exI[of _ "[]"] exI[of _ 0]) (simp add: f mapped_leaf_0)
  next
    fix s1 ps1 assume m: "\<And>k. map_loop pt (a + Suc n * PGSIZE) perm (Suc k) a pa s = (if a = a + Suc n * PGSIZE then Inr (0, s1)
       else map_loop pt (a + Suc n * PGSIZE) perm k (a + PGSIZE) (pa + PGSIZE) s1)" "pt_ext pt s ps s1 ps1" "length ps \<le> length ps1 + 2"
      and L: "\<And>vb. vb < MAXVA \<Longrightarrow> leaf (pm s1) pt vb =
         (if vb div 4096 = a div 4096 then PA2PTE pa OR perm OR PTE_V else leaf (pm s) pt vb)"
    have i1: "pt_inv s1 pt ps1" using m(2) by (simp add: pt_ext_def)
    have free: "leaf (pm s1) pt vb AND PTE_V = 0" if "a + PGSIZE \<le> vb" "vb < a + PGSIZE + Suc n * PGSIZE" for vb
      using that Suc.prems(3) Suc.prems(5)[of vb] L[of vb] page_cases[OF Suc.prems(2), of vb] by (simp add: PGSIZE_def)
    have b: "(a + PGSIZE) mod 4096 = 0" "a + PGSIZE + Suc n * PGSIZE \<le> MAXVA"
      using Suc.prems(2,3) by (simp_all add: PGSIZE_def)
    from Suc.IH[OF i1 b f(2) free, of "pa + PGSIZE"] obtain r s' ps' k where
      ih: "map_loop pt (a + PGSIZE + n * PGSIZE) perm f (a + PGSIZE) (pa + PGSIZE) s1 = Inr (r, s')"
        "pt_ext pt s1 ps1 s' ps'" "r = 0 \<and> k = Suc n \<or> r = - 1 \<and> k \<le> n \<and> ps' = [] \<and> length ps1 < 2 * Suc n"
        "\<And>vb. vb < MAXVA \<Longrightarrow> leaf (pm s') pt vb = mapped_leaf (leaf (pm s1) pt) (a + PGSIZE) k (pa + PGSIZE) perm vb"
      by blast
    have "map_loop pt (a + Suc n * PGSIZE) perm fuel a pa s = Inr (r, s')"
      using m(1)[of f, unfolded if_not_P[OF lst(2)]] ih(1) unfolding f(1) lst(1) by simp
    moreover have "leaf (pm s') pt vb = mapped_leaf (leaf (pm s) pt) a (Suc k) pa perm vb" if "vb < MAXVA" for vb
      unfolding ih(4)[OF that] mapped_leaf_Suc[OF Suc.prems(2), symmetric] by (rule mapped_leaf_cong[OF L that])
    ultimately show ?thesis using ih(3) m(3) pt_ext_trans[OF m(2) ih(2)]
      by (intro exI[of _ r] exI[of _ s'] exI[of _ ps'] exI[of _ "Suc k"]) auto
  qed
qed

lemma pgrounddown_split: "PGROUNDDOWN x + (y div 4096 - x div 4096) * PGSIZE = PGROUNDDOWN y" if "x \<le> y"
  using div_le_mono[OF that, of 4096] by (simp add: PGROUNDDOWN_def PGSIZE_def flip: add_mult_distrib)

lemma pgrounddown_bounds: "PGROUNDDOWN x \<le> x" "x < PGROUNDDOWN x + PGSIZE" "PGROUNDDOWN x mod 4096 = 0"
  using div_mult_mod_eq[of x 4096] mod_less_divisor[of 4096 x] by (simp_all add: PGROUNDDOWN_def PGSIZE_def)

lemma mappages_run:
  assumes inv: "pt_inv s pt ps" and sz: "0 < sz" "va + sz \<le> MAXVA"
    and free: "\<And>vb. PGROUNDDOWN va \<le> vb \<Longrightarrow> vb < PGROUNDDOWN (va + sz - 1) + PGSIZE \<Longrightarrow> leaf (pm s) pt vb AND PTE_V = 0"
  shows "\<exists>r s' ps' k. mappages pt va sz pa perm s = Inr (r, s') \<and> pt_ext pt s ps s' ps' \<and>
    (r = 0 \<and> PGROUNDDOWN va + k * PGSIZE = PGROUNDDOWN (va + sz - 1) + PGSIZE \<or> r = - 1 \<and> ps' = [] \<and>
       PGROUNDDOWN va + k * PGSIZE \<le> PGROUNDDOWN (va + sz - 1) \<and>
       length ps < 2 * Suc ((va + sz - 1) div 4096 - va div 4096)) \<and>
    (\<forall>vb < MAXVA. leaf (pm s') pt vb = mapped_leaf (leaf (pm s) pt) (PGROUNDDOWN va) k pa perm vb)"
proof -
  define a where "a = PGROUNDDOWN va"
  define n where "n = (va + sz - 1) div 4096 - va div 4096"
  have l: "PGROUNDDOWN (va + sz - 1) = a + n * PGSIZE"
    using pgrounddown_split[of va "va + sz - 1"] sz(1) by (simp add: a_def n_def)
  have am: "a mod 4096 = 0" by (simp add: a_def pgrounddown_bounds)
  have top: "a + Suc n * PGSIZE \<le> MAXVA"
  proof -
    have "(va + sz - 1) div 4096 < MAXVA div 4096" using sz by (intro less_mult_imp_div_less) (simp add: MAXVA_def)
    then have "((va + sz - 1) div 4096 + 1) * 4096 \<le> MAXVA div 4096 * 4096" by (intro mult_le_mono1) simp
    moreover have "a + Suc n * PGSIZE = ((va + sz - 1) div 4096 + 1) * 4096"
      using l by (simp add: PGROUNDDOWN_def PGSIZE_def)
    ultimately show ?thesis by (simp add: MAXVA_def)
  qed
  then have fuel: "n < MAXVA div PGSIZE + 1" by (simp add: MAXVA_def PGSIZE_def)
  have "va + sz - 1 < 2 ^ 64" using sz by (simp add: MAXVA_def)
  then have m: "mappages pt va sz pa perm = map_loop pt (a + n * PGSIZE) perm (MAXVA div PGSIZE + 1) a pa"
    using sz(1) l by (simp add: mappages_def a_def)
  have fr: "leaf (pm s) pt vb AND PTE_V = 0" if "a \<le> vb" "vb < a + Suc n * PGSIZE" for vb
    using free[of vb] that l by (simp add: a_def)
  from map_loop_run[OF inv am top fuel fr, of perm pa] obtain r s' ps' k where
    "map_loop pt (a + n * PGSIZE) perm (MAXVA div PGSIZE + 1) a pa s = Inr (r, s')" "pt_ext pt s ps s' ps'"
    "r = 0 \<and> k = Suc n \<or> r = - 1 \<and> k \<le> n \<and> ps' = [] \<and> length ps < 2 * Suc n"
    "\<forall>vb < MAXVA. leaf (pm s') pt vb = mapped_leaf (leaf (pm s) pt) a k pa perm vb" by blast
  then show ?thesis unfolding m l by (intro exI[of _ r] exI[of _ s'] exI[of _ ps'] exI[of _ k]) (auto simp: a_def n_def)
qed

lemma kfree_pt:
  assumes inv: "pt_inv s pt ps" and q: "page_addr (kend s) q" "q \<notin> set ps" "q \<notin> tables (pm s) pt"
  obtains s' where "kfree q s = Inr ((), s')" "pt_inv s' pt (q # ps)" "kend s' = kend s"
    "tables (pm s') pt = tables (pm s) pt" "\<And>vb d. vb < MAXVA \<Longrightarrow> d \<le> 2 \<Longrightarrow> pt_table (pm s') pt vb d = pt_table (pm s) pt vb d"
    "\<And>vb. vb < MAXVA \<Longrightarrow> leaf (pm s') pt vb = leaf (pm s) pt vb" "\<And>x. \<not> in_page q x \<Longrightarrow> pm s' x = pm s x"
proof -
  have "kmem_inv s ps" using inv by (simp add: pt_inv_def)
  from kfree_inv[OF this q(1,2)] obtain s' where s': "kfree q s = Inr ((), s')" "kmem_inv s' (q # ps)" "kend s' = kend s"
    and out: "\<And>x. x < q \<or> q + PGSIZE \<le> x \<Longrightarrow> pm s' x = pm s x" by blast
  have fr: "pm s' x = pm s x" if "t \<in> tables (pm s) pt" "t \<le> x" "x < t + PGSIZE" for t x
  proof (rule out)
    have "page_addr (kend s) t" "t \<noteq> q" using inv that(1) q(3) by (auto simp: pt_inv_def)
    then show "x < q \<or> q + PGSIZE \<le> x" using page_apart[OF _ q(1)] that by fastforce
  qed
  have T: "tables (pm s') pt = tables (pm s) pt" by (rule tables_frame(1)[OF fr])
  have tr: "pt_tree (pm s') pt" by (rule tables_frame(2)[OF fr]) (use inv in \<open>auto simp: pt_inv_def\<close>)
  have i: "pt_inv s' pt (q # ps)" using s'(2,3) T tr inv q(3) by (auto simp: pt_inv_def)
  have d: "pt_table (pm s') pt vb d = pt_table (pm s) pt vb d" if "vb < MAXVA" "d \<le> 2" for vb d
    using pt_table_frame[where d = d, OF fr that(1)] that(2) by simp
  have L: "leaf (pm s') pt vb = leaf (pm s) pt vb" if "vb < MAXVA" for vb by (rule leaf_frame[OF fr that])
  show thesis by (rule that[OF s'(1) i s'(3) T d L]) (use out in \<open>auto simp: in_page_def\<close>)
qed

lemma unmap_step:
  assumes inv: "pt_inv s pt ps" and a: "a < MAXVA"
    and e: "leaf (pm s) pt a AND PTE_V \<noteq> 0" "PTE_FLAGS (leaf (pm s) pt a) \<noteq> PTE_V"
    and q: "b \<Longrightarrow> page_addr (kend s) (PTE2PA (leaf (pm s) pt a)) \<and> PTE2PA (leaf (pm s) pt a) \<notin> set ps \<and>
      PTE2PA (leaf (pm s) pt a) \<notin> tables (pm s) pt"
  obtains s' where "\<And>n. unmap_loop pt b (Suc n) a s = unmap_loop pt b n (a + PGSIZE) s'"
    "pt_inv s' pt (if b then PTE2PA (leaf (pm s) pt a) # ps else ps)" "kend s' = kend s" "tables (pm s') pt = tables (pm s) pt"
    "\<And>vb. vb < MAXVA \<Longrightarrow> leaf (pm s') pt vb = (if vb div 4096 = a div 4096 then 0 else leaf (pm s) pt vb)"
    "\<And>x. (\<forall>t \<in> tables (pm s) pt. \<not> in_page t x) \<Longrightarrow> \<not> (b \<and> in_page (PTE2PA (leaf (pm s) pt a)) x) \<Longrightarrow> pm s' x = pm s x"
proof -
  let ?e = "leaf (pm s) pt a" let ?ps = "if b then PTE2PA ?e # ps else ps"
  obtain t where t: "pt_table (pm s) pt a 2 = Some t" using e(1) by (cases "pt_table (pm s) pt a 2") (auto simp: leaf_def)
  then have le: "load64 (pm s) (t + 8 * PX 0 a) = ?e" by (simp add: leaf_def)
  have t0: "t + 8 * PX 0 a \<noteq> 0" using inv tablesI[OF t a] by (auto simp: pt_inv_def page_addr_def)
  obtain s1 where s1: "(if b then kfree (PTE2PA ?e) else ret ()) s = Inr ((), s1)" "pt_inv s1 pt ?ps" "kend s1 = kend s"
    "tables (pm s1) pt = tables (pm s) pt" "\<And>vb d. vb < MAXVA \<Longrightarrow> d \<le> 2 \<Longrightarrow> pt_table (pm s1) pt vb d = pt_table (pm s) pt vb d"
    "\<And>vb. vb < MAXVA \<Longrightarrow> leaf (pm s1) pt vb = leaf (pm s) pt vb" "\<And>x. \<not> (b \<and> in_page (PTE2PA ?e) x) \<Longrightarrow> pm s1 x = pm s x"
  proof (cases b)
    case True
    have q': "page_addr (kend s) (PTE2PA ?e)" "PTE2PA ?e \<notin> set ps" "PTE2PA ?e \<notin> tables (pm s) pt" using q[OF True] by auto
    show thesis
    proof (rule kfree_pt[OF inv q'])
      fix s' assume s': "kfree (PTE2PA ?e) s = Inr ((), s')" "pt_inv s' pt (PTE2PA ?e # ps)" "kend s' = kend s"
        "tables (pm s') pt = tables (pm s) pt" "\<And>vb d. vb < MAXVA \<Longrightarrow> d \<le> 2 \<Longrightarrow> pt_table (pm s') pt vb d = pt_table (pm s) pt vb d"
        "\<And>vb. vb < MAXVA \<Longrightarrow> leaf (pm s') pt vb = leaf (pm s) pt vb" "\<And>x. \<not> in_page (PTE2PA ?e) x \<Longrightarrow> pm s' x = pm s x"
      show thesis by (rule that[of s']) (use True s' in simp_all)
    qed
  next
    case False
    then show thesis using that[of s] inv by (simp add: run_simps)
  qed
  have t1: "pt_table (pm s1) pt a 2 = Some t" using s1(5)[OF a, of 2] t by simp
  obtain s2 where s2: "stpte (t + 8 * PX 0 a) 0 s1 = Inr ((), s2)" "pt_ext pt s1 ?ps s2 ?ps"
    "\<And>vb. vb < MAXVA \<Longrightarrow> leaf (pm s2) pt vb = (if vb div 4096 = a div 4096 then 0 else leaf (pm s1) pt vb)"
    by (rule set_leaf[OF s1(2) a t1]) (rule that)
  have w: "walk pt a False s = Inr (t + 8 * PX 0 a, s)" using walk_find[OF a, of pt s] t by simp
  obtain r where r: "r = t + 8 * PX 0 a" by blast
  have "unmap_loop pt b (Suc n) a s = unmap_loop pt b n (a + PGSIZE) s2" for n
    using w t0 le e s1(1) s2(1) unfolding r[symmetric] by (simp add: run_simps ldpte_def)
  moreover have "tables (pm s2) pt = tables (pm s) pt" "pt_inv s2 pt ?ps" "kend s2 = kend s"
    using s2(2) s1(3,4) by (auto simp: pt_ext_def)
  moreover have "pm s2 x = pm s x" if "\<forall>t \<in> tables (pm s) pt. \<not> in_page t x" "\<not> (b \<and> in_page (PTE2PA ?e) x)" for x
    using s2(2) s1(7)[OF that(2)] that(1) \<open>tables (pm s2) pt = _\<close> by (simp add: pt_ext_def)
  moreover have "leaf (pm s2) pt vb = (if vb div 4096 = a div 4096 then 0 else leaf (pm s) pt vb)" if "vb < MAXVA" for vb
    using s2(3)[OF that] s1(6)[OF that] by simp
  ultimately show thesis using that[of s2] by blast
qed

definition cleared_leaf :: "(nat \<Rightarrow> pte) \<Rightarrow> nat \<Rightarrow> nat \<Rightarrow> nat \<Rightarrow> pte" where
  "cleared_leaf f a n vb = (if a \<le> vb \<and> vb < a + n * PGSIZE then 0 else f vb)"

definition page_list :: "(nat \<Rightarrow> pte) \<Rightarrow> nat \<Rightarrow> nat \<Rightarrow> nat list" where
  "page_list f a n = map (\<lambda>i. PTE2PA (f (a + i * PGSIZE))) [0..<n]"

lemma page_list_Suc: "page_list f a (Suc n) = PTE2PA (f a) # page_list f (a + PGSIZE) n"
  by (simp add: page_list_def upt_conv_Cons map_Suc_upt[symmetric] add.assoc del: upt_Suc)

lemma page_list_cong: "(\<And>vb. a \<le> vb \<Longrightarrow> vb < a + n * PGSIZE \<Longrightarrow> f vb = g vb) \<Longrightarrow> page_list f a n = page_list g a n"
  by (simp add: page_list_def PGSIZE_def)

lemma cleared_leaf_Suc:
  "a mod 4096 = 0 \<Longrightarrow> cleared_leaf (\<lambda>vb. if vb div 4096 = a div 4096 then 0 else f vb) (a + PGSIZE) n vb = cleared_leaf f a (Suc n) vb"
  by (auto simp: cleared_leaf_def PGSIZE_def page_cases)

lemma unmap_loop_run:
  assumes "pt_inv s pt ps" "a mod 4096 = 0" "a + n * PGSIZE \<le> MAXVA"
    "\<And>i. i < n \<Longrightarrow> leaf (pm s) pt (a + i * PGSIZE) AND PTE_V \<noteq> 0 \<and> PTE_FLAGS (leaf (pm s) pt (a + i * PGSIZE)) \<noteq> PTE_V"
    "b \<Longrightarrow> distinct (page_list (leaf (pm s) pt) a n)"
    "\<And>q. b \<Longrightarrow> q \<in> set (page_list (leaf (pm s) pt) a n) \<Longrightarrow> page_addr (kend s) q \<and> q \<notin> set ps \<and> q \<notin> tables (pm s) pt"
  shows "\<exists>s'. unmap_loop pt b n a s = Inr ((), s') \<and> pt_inv s' pt (if b then rev (page_list (leaf (pm s) pt) a n) @ ps else ps) \<and>
    kend s' = kend s \<and> tables (pm s') pt = tables (pm s) pt \<and>
    (\<forall>vb < MAXVA. leaf (pm s') pt vb = cleared_leaf (leaf (pm s) pt) a n vb) \<and>
    (\<forall>x. (\<forall>t \<in> tables (pm s) pt. \<not> in_page t x) \<longrightarrow>
       \<not> (b \<and> (\<exists>q \<in> set (page_list (leaf (pm s) pt) a n). in_page q x)) \<longrightarrow> pm s' x = pm s x)"
  using assms
proof (induction n arbitrary: s ps a)
  case 0
  then show ?case by (auto simp: run_simps cleared_leaf_def page_list_def)
next
  case (Suc n)
  let ?f = "leaf (pm s) pt"
  let ?q = "PTE2PA (?f a)" let ?qs = "page_list ?f (a + PGSIZE) n"
  have a: "a < MAXVA" using Suc.prems(3) by (simp add: PGSIZE_def)
  have e: "?f a AND PTE_V \<noteq> 0" "PTE_FLAGS (?f a) \<noteq> PTE_V" using Suc.prems(4)[of 0] by auto
  have q: "page_addr (kend s) ?q \<and> ?q \<notin> set ps \<and> ?q \<notin> tables (pm s) pt" if b
    using Suc.prems(6)[OF that, of ?q] by (simp add: page_list_Suc)
  obtain s1 where s1: "\<And>k. unmap_loop pt b (Suc k) a s = unmap_loop pt b k (a + PGSIZE) s1"
    "pt_inv s1 pt (if b then ?q # ps else ps)" "kend s1 = kend s" "tables (pm s1) pt = tables (pm s) pt"
    "\<And>vb. vb < MAXVA \<Longrightarrow> leaf (pm s1) pt vb = (if vb div 4096 = a div 4096 then 0 else ?f vb)"
    "\<And>x. (\<forall>t \<in> tables (pm s) pt. \<not> in_page t x) \<Longrightarrow> \<not> (b \<and> in_page ?q x) \<Longrightarrow> pm s1 x = pm s x"
    by (rule unmap_step[OF Suc.prems(1) a e q]) (assumption, rule that)
  have L: "leaf (pm s1) pt vb = ?f vb" if "a + PGSIZE \<le> vb" "vb < a + PGSIZE + n * PGSIZE" for vb
    using s1(5)[of vb] that Suc.prems(3) page_cases[OF Suc.prems(2), of vb] by (simp add: PGSIZE_def)
  have pl: "page_list (leaf (pm s1) pt) (a + PGSIZE) n = ?qs" by (rule page_list_cong[OF L])
  have "\<exists>s'. unmap_loop pt b n (a + PGSIZE) s1 = Inr ((), s') \<and>
    pt_inv s' pt (if b then rev (page_list (leaf (pm s1) pt) (a + PGSIZE) n) @ (if b then ?q # ps else ps) else (if b then ?q # ps else ps)) \<and>
    kend s' = kend s1 \<and> tables (pm s') pt = tables (pm s1) pt \<and>
    (\<forall>vb < MAXVA. leaf (pm s') pt vb = cleared_leaf (leaf (pm s1) pt) (a + PGSIZE) n vb) \<and>
    (\<forall>x. (\<forall>t \<in> tables (pm s1) pt. \<not> in_page t x) \<longrightarrow>
       \<not> (b \<and> (\<exists>q \<in> set (page_list (leaf (pm s1) pt) (a + PGSIZE) n). in_page q x)) \<longrightarrow> pm s' x = pm s1 x)"
  proof (rule Suc.IH[OF s1(2)])
    show "(a + PGSIZE) mod 4096 = 0" "a + PGSIZE + n * PGSIZE \<le> MAXVA" using Suc.prems(2,3) by (simp_all add: PGSIZE_def)
    show "leaf (pm s1) pt (a + PGSIZE + i * PGSIZE) AND PTE_V \<noteq> 0 \<and> PTE_FLAGS (leaf (pm s1) pt (a + PGSIZE + i * PGSIZE)) \<noteq> PTE_V"
      if "i < n" for i
      using Suc.prems(4)[of "Suc i"] L[of "a + PGSIZE + i * PGSIZE"] that by (simp add: PGSIZE_def add.assoc)
    show "distinct (page_list (leaf (pm s1) pt) (a + PGSIZE) n)" if b
      unfolding pl using Suc.prems(5)[OF that] by (simp add: page_list_Suc)
    show "page_addr (kend s1) q \<and> q \<notin> set (if b then ?q # ps else ps) \<and> q \<notin> tables (pm s1) pt"
      if b "q \<in> set (page_list (leaf (pm s1) pt) (a + PGSIZE) n)" for q
      using that(2)[unfolded pl] Suc.prems(5)[OF that(1)] Suc.prems(6)[OF that(1), of q] s1(3,4) by (auto simp: page_list_Suc)
  qed
  then obtain s' where s': "unmap_loop pt b n (a + PGSIZE) s1 = Inr ((), s')"
    "pt_inv s' pt (if b then rev ?qs @ ?q # ps else ps)" "kend s' = kend s1" "tables (pm s') pt = tables (pm s1) pt"
    "\<And>vb. vb < MAXVA \<Longrightarrow> leaf (pm s') pt vb = cleared_leaf (leaf (pm s1) pt) (a + PGSIZE) n vb"
    "\<And>x. (\<forall>t \<in> tables (pm s1) pt. \<not> in_page t x) \<Longrightarrow> \<not> (b \<and> (\<exists>q \<in> set ?qs. in_page q x)) \<Longrightarrow> pm s' x = pm s1 x"
    unfolding pl by (auto split: if_splits)
  have "leaf (pm s') pt vb = cleared_leaf ?f a (Suc n) vb" if "vb < MAXVA" for vb
    unfolding s'(5)[OF that] cleared_leaf_Suc[OF Suc.prems(2), symmetric] using s1(5)[OF that] by (simp add: cleared_leaf_def)
  moreover have "pm s' x = pm s x" if "\<forall>t \<in> tables (pm s) pt. \<not> in_page t x" "\<not> (b \<and> (\<exists>q \<in> set (page_list ?f a (Suc n)). in_page q x))" for x
  proof -
    have "\<not> (b \<and> in_page ?q x)" "\<not> (b \<and> (\<exists>q \<in> set ?qs. in_page q x))" using that(2) by (auto simp: page_list_Suc)
    then show ?thesis using s'(6)[of x] s1(4) s1(6)[of x] that(1) by simp
  qed
  ultimately show ?case using s1(1,3,4) s'(1-4) by (intro exI[of _ s']) (auto simp: page_list_Suc)
qed

end
