(* ===== verification/Vm_User.thy ===== *)
theory Vm_User
  imports Vm_Map
begin

text \<open>
  User address spaces: growing one by \<^verbatim>\<open>uvmalloc\<close> is all or nothing, and the copies between
  kernel and user move exactly the bytes that the page table assigns to the user addresses.
\<close>

section \<open>Writes outside the tables\<close>

lemma write_pt:
  assumes inv: "pt_inv s pt ps"
    and out: "\<And>x. (\<exists>t \<in> tables (pm s) pt \<union> set ps. in_page t x) \<Longrightarrow> m x = pm s x"
  shows "pt_inv (s\<lparr>pm := m\<rparr>) pt ps" "tables m pt = tables (pm s) pt"
    "\<And>vb. vb < MAXVA \<Longrightarrow> leaf m pt vb = leaf (pm s) pt vb"
    "\<And>vb d. vb < MAXVA \<Longrightarrow> d \<le> 2 \<Longrightarrow> pt_table m pt vb d = pt_table (pm s) pt vb d"
proof -
  have fr: "m x = pm s x" if "t \<in> tables (pm s) pt" "t \<le> x" "x < t + PGSIZE" for t x
    using out[of x] that by (auto simp: in_page_def)
  show T: "tables m pt = tables (pm s) pt" by (rule tables_frame(1)[OF fr])
  have tr: "pt_tree m pt" by (rule tables_frame(2)[OF fr]) (use inv in \<open>auto simp: pt_inv_def\<close>)
  have "kmem_inv (s\<lparr>pm := m\<rparr>) ps" by (rule kmem_inv_frame) (use inv out in \<open>auto simp: pt_inv_def\<close>)
  then show "pt_inv (s\<lparr>pm := m\<rparr>) pt ps" using T tr inv by (simp add: pt_inv_def)
  show "leaf m pt vb = leaf (pm s) pt vb" if "vb < MAXVA" for vb by (rule leaf_frame[OF fr that])
  show "pt_table m pt vb d = pt_table (pm s) pt vb d" if "vb < MAXVA" "d \<le> 2" for vb d
    using pt_table_frame[where d = d, OF fr that(1)] that(2) by simp
qed

lemma kalloc_pt:
  assumes inv: "pt_inv s pt (p # ps)"
  obtains s' where "kalloc s = Inr (p, s')" "pt_inv s' pt ps" "kend s' = kend s" "tables (pm s') pt = tables (pm s) pt"
    "\<And>vb. vb < MAXVA \<Longrightarrow> leaf (pm s') pt vb = leaf (pm s) pt vb" "\<And>x. \<not> in_page p x \<Longrightarrow> pm s' x = pm s x"
proof -
  have k: "kmem_inv s (p # ps)" using inv by (simp add: pt_inv_def)
  obtain s' where s': "kalloc s = Inr (p, s')" "kmem_inv s' ps" "kend s' = kend s"
    and out: "\<And>x. x < p \<or> p + PGSIZE \<le> x \<Longrightarrow> pm s' x = pm s x" by (rule kalloc_inv[OF k]) (rule that)
  have p: "page_addr (kend s) p" using k by (simp add: kmem_inv_def)
  have fr: "pm s' x = pm s x" if "t \<in> tables (pm s) pt" "t \<le> x" "x < t + PGSIZE" for t x
  proof (rule out)
    have "page_addr (kend s) t" "t \<noteq> p" using inv that(1) by (auto simp: pt_inv_def)
    then show "x < p \<or> p + PGSIZE \<le> x" using page_apart[OF _ p] that by fastforce
  qed
  have T: "tables (pm s') pt = tables (pm s) pt" by (rule tables_frame(1)[OF fr])
  have tr: "pt_tree (pm s') pt" by (rule tables_frame(2)[OF fr]) (use inv in \<open>auto simp: pt_inv_def\<close>)
  have i: "pt_inv s' pt ps" using s'(2,3) T tr inv by (auto simp: pt_inv_def)
  have L: "leaf (pm s') pt vb = leaf (pm s) pt vb" if "vb < MAXVA" for vb by (rule leaf_frame[OF fr that])
  show thesis by (rule that[OF s'(1) i s'(3) T L]) (use out in \<open>auto simp: in_page_def\<close>)
qed

lemma memset_out: "\<not> in_page p x \<Longrightarrow> memset m p c PGSIZE x = m x"
  by (auto simp: in_page_def memset_other)

text \<open>A page is taken from the free list and cleared.\<close>

lemma fresh_page:
  assumes inv: "pt_inv s pt (p # ps)"
  obtains s' where "\<And>A B. bnd kalloc (\<lambda>mem. if mem = 0 then A else sq (zero_page mem) (B mem)) s = B p s'"
    "p \<noteq> 0" "page_addr (kend s) p" "p \<notin> set ps" "p \<notin> tables (pm s) pt"
    "pt_inv s' pt ps" "kend s' = kend s" "tables (pm s') pt = tables (pm s) pt"
    "\<And>vb. vb < MAXVA \<Longrightarrow> leaf (pm s') pt vb = leaf (pm s) pt vb" "\<And>x. \<not> in_page p x \<Longrightarrow> pm s' x = pm s x"
    "\<And>x. in_page p x \<Longrightarrow> pm s' x = 0"
proof -
  have p: "p \<noteq> 0" "page_addr (kend s) p" "p \<notin> set ps" "p \<notin> tables (pm s) pt"
    using inv by (auto simp: pt_inv_def kmem_inv_def page_addr_def)
  obtain s1 where s1: "kalloc s = Inr (p, s1)" "pt_inv s1 pt ps" "kend s1 = kend s" "tables (pm s1) pt = tables (pm s) pt"
    "\<And>vb. vb < MAXVA \<Longrightarrow> leaf (pm s1) pt vb = leaf (pm s) pt vb" "\<And>x. \<not> in_page p x \<Longrightarrow> pm s1 x = pm s x"
    by (rule kalloc_pt[OF inv]) (rule that)
  have out: "memset (pm s1) p 0 PGSIZE x = pm s1 x" if "\<exists>t \<in> tables (pm s1) pt \<union> set ps. in_page t x" for x
  proof -
    from that obtain t where t: "t \<in> tables (pm s1) pt \<union> set ps" "in_page t x" by blast
    then have "page_addr (kend s) t" "t \<noteq> p" using s1(2,3,4) p by (auto simp: pt_inv_def kmem_inv_def)
    from in_page_apart[OF this(1) p(2) this(2) t(2)] show ?thesis by (rule memset_out)
  qed
  note w = write_pt[OF s1(2) out]
  show thesis
  proof (rule that[OF _ p, of "s1\<lparr>pm := memset (pm s1) p 0 PGSIZE\<rparr>"])
    show "bnd kalloc (\<lambda>mem. if mem = 0 then A else sq (zero_page mem) (B mem)) s = B p (s1\<lparr>pm := memset (pm s1) p 0 PGSIZE\<rparr>)"
      for A and B :: "nat \<Rightarrow> ('a, 'b) kprog"
      using s1(1) p(1) by (simp add: run_simps zero_page_def mem_upd_def)
  qed (use w s1 memset_out memset_same in \<open>auto simp: in_page_def\<close>)
qed

section \<open>\<^verbatim>\<open>uvmalloc\<close>\<close>

text \<open>
  \<open>k\<close> pages from \<open>old\<close> on have been added to the address space \<open>f0\<close>, out of the pages \<open>P\<close>:
  they are different, cleared, and neither tables nor free.
\<close>

definition grown_by :: "'z phys_scheme \<Rightarrow> nat \<Rightarrow> nat list \<Rightarrow> (nat \<Rightarrow> pte) \<Rightarrow> nat set \<Rightarrow> nat \<Rightarrow> nat \<Rightarrow> pte \<Rightarrow> bool" where
  "grown_by s pt ps f0 P old k perm \<longleftrightarrow> pt_inv s pt ps \<and>
     (\<forall>vb < MAXVA. \<not> (old \<le> vb \<and> vb < old + k * PGSIZE) \<longrightarrow> leaf (pm s) pt vb = f0 vb) \<and>
     (\<exists>qs. length qs = k \<and> distinct qs \<and> (\<forall>q \<in> set qs. page_addr (kend s) q \<and> q \<notin> set ps \<and> q \<notin> tables (pm s) pt \<and>
         (\<forall>x. in_page q x \<longrightarrow> pm s x = 0)) \<and>
       P = set ps \<union> tables (pm s) pt \<union> set qs \<and>
       (\<forall>i < k. \<forall>vb < MAXVA. vb div 4096 = (old + i * PGSIZE) div 4096 \<longrightarrow> leaf (pm s) pt vb = PA2PTE (qs ! i) OR perm OR PTE_V))"

lemma leaf_page: "vb div 4096 = va div 4096 \<Longrightarrow> leaf m pt vb = leaf m pt va"
proof -
  assume e: "vb div 4096 = va div 4096"
  then have "reg (Suc 2) vb = reg (Suc 2) va" by (simp add: reg_def)
  then have "reg 2 vb = reg 2 va" "PX 0 vb = PX 0 va" using reg_Suc_iff[of 2 vb va] by simp_all
  then show ?thesis using pt_table_cong[of 2 vb va m pt] by (simp add: leaf_def split: option.splits)
qed

lemma aligned_rounds:
  assumes "x mod 4096 = 0" "i < (4096::nat)"
  shows "(x + i) div 4096 * 4096 = x"
proof -
  have "(x + i) div 4096 = x div 4096" using assms by (subst page_cases) auto
  then show ?thesis using assms(1) by (auto simp: mod_eq_0_iff_dvd)
qed

lemma PGROUNDUP_aligned: "x mod 4096 = 0 \<Longrightarrow> x \<le> MAXVA \<Longrightarrow> PGROUNDUP x = x"
  using aligned_rounds[of x 4095] by (simp add: PGROUNDUP_def MAXVA_def)

lemma PGROUNDDOWN_aligned: "x mod 4096 = 0 \<Longrightarrow> i < 4096 \<Longrightarrow> PGROUNDDOWN (x + i) = x"
  by (simp add: PGROUNDDOWN_def aligned_rounds)

lemma map_one:
  assumes inv: "pt_inv s pt ps" and a: "a mod 4096 = 0" "a + PGSIZE \<le> MAXVA" and free: "leaf (pm s) pt a = 0"
  obtains s' where "mappages pt a PGSIZE pa perm s = Inr (- 1, s')" "pt_ext pt s ps s' []" "length ps < 2"
    "\<And>vb. vb < MAXVA \<Longrightarrow> leaf (pm s') pt vb = leaf (pm s) pt vb"
  | s' ps' where "mappages pt a PGSIZE pa perm s = Inr (0, s')" "pt_ext pt s ps s' ps'"
    "\<And>vb. vb < MAXVA \<Longrightarrow> leaf (pm s') pt vb = (if vb div 4096 = a div 4096 then PA2PTE pa OR perm OR PTE_V else leaf (pm s) pt vb)"
proof -
  have d: "PGROUNDDOWN a = a" using PGROUNDDOWN_aligned[OF a(1), of 0] by simp
  have dd: "PGROUNDDOWN (a + PGSIZE - 1) = a" using PGROUNDDOWN_aligned[OF a(1), of 4095] by (simp add: PGSIZE_def add.commute)
  have fr: "leaf (pm s) pt vb AND PTE_V = 0" if "a \<le> vb" "vb < a + PGSIZE" for vb
    using leaf_page[of vb a "pm s" pt] page_cases[OF a(1), of vb] that free by (simp add: PGSIZE_def)
  have "0 < PGSIZE" by (simp add: PGSIZE_def)
  from mappages_run[OF inv this a(2), unfolded d dd, OF fr, of pa perm] obtain r s' ps' k where
    m: "mappages pt a PGSIZE pa perm s = Inr (r, s')" "pt_ext pt s ps s' ps'"
      "r = 0 \<and> a + k * PGSIZE = a + PGSIZE \<or> r = - 1 \<and> ps' = [] \<and> a + k * PGSIZE \<le> a \<and>
         length ps < 2 * Suc ((a + PGSIZE - 1) div 4096 - a div 4096)"
      "\<And>vb. vb < MAXVA \<Longrightarrow> leaf (pm s') pt vb = mapped_leaf (leaf (pm s) pt) a k pa perm vb" by blast
  have "(a + PGSIZE - 1) div 4096 = a div 4096" using dd d by (simp add: PGROUNDDOWN_def)
  with m(3) consider "r = 0" "k = Suc 0" | "r = - 1" "ps' = []" "k = 0" "length ps < 2" by (auto simp: PGSIZE_def)
  then show thesis
  proof cases
    case 1
    show thesis by (rule that(2)[of s' ps'])
      (use m 1 mapped_leaf_Suc[OF a(1), of pa perm "leaf (pm s) pt" 0] in \<open>simp_all add: mapped_leaf_0\<close>)
  next
    case 2
    show thesis by (rule that(1)[of s']) (use m 2 in \<open>simp_all add: mapped_leaf_0\<close>)
  qed
qed

lemma PTE_FLAGS_pte:
  assumes "PTE_FLAGS f = f"
  shows "PTE_FLAGS (PA2PTE pa OR f) = f"
proof (rule bit_word_eqI)
  fix n assume "n < LENGTH(64)"
  have m: "(0x3FF :: pte) = mask 10" by (simp add: mask_eq_exp_minus_1)
  have "n < 10 \<Longrightarrow> \<not> bit (PA2PTE pa) n" by (simp add: PA2PTE_def bit_simps)
  then show "bit (PTE_FLAGS (PA2PTE pa OR f)) n = bit f n"
    using bit_flags[OF assms, of n] by (auto simp: PTE_FLAGS_def m bit_simps)
qed

lemma uvmdealloc_undo:
  assumes g: "grown_by s pt ps f0 P old k perm" and old: "old mod 4096 = 0" "old + k * PGSIZE \<le> MAXVA"
    and z: "\<And>vb. old \<le> vb \<Longrightarrow> vb < old + k * PGSIZE \<Longrightarrow> f0 vb = 0"
    and perm: "PTE_FLAGS perm = perm" "perm OR PTE_V \<noteq> PTE_V"
  shows "\<exists>s' ps'. bnd (uvmdealloc pt (old + k * PGSIZE) old) (\<lambda>_. ret (0::nat)) s = Inr (0, s') \<and> grown_by s' pt ps' f0 P old 0 perm"
proof -
  let ?f = "leaf (pm s) pt"
  from g obtain qs where inv: "pt_inv s pt ps" and L: "\<And>vb. vb < MAXVA \<Longrightarrow> \<not> (old \<le> vb \<and> vb < old + k * PGSIZE) \<Longrightarrow> ?f vb = f0 vb"
    and qs: "length qs = k" "distinct qs" "\<And>q. q \<in> set qs \<Longrightarrow> page_addr (kend s) q \<and> q \<notin> set ps \<and> q \<notin> tables (pm s) pt"
      "P = set ps \<union> tables (pm s) pt \<union> set qs"
    and E: "\<And>i vb. i < k \<Longrightarrow> vb < MAXVA \<Longrightarrow> vb div 4096 = (old + i * PGSIZE) div 4096 \<Longrightarrow> ?f vb = PA2PTE (qs ! i) OR perm OR PTE_V"
    unfolding grown_by_def by (elim conjE exE) (rule that, auto)
  have f: "PTE_FLAGS (perm OR PTE_V) = perm OR PTE_V" using perm(1) by (simp add: flags_or flags_V)
  have e: "?f (old + i * PGSIZE) = PA2PTE (qs ! i) OR (perm OR PTE_V)" if "i < k" for i
  proof -
    have "old + i * PGSIZE < MAXVA" using that old(2) by (simp add: PGSIZE_def)
    from E[OF that this refl] show ?thesis by (simp add: or.assoc)
  qed
  have pl: "page_list ?f old k = qs"
  proof (rule nth_equalityI)
    show "length (page_list ?f old k) = length qs" by (simp add: page_list_def qs(1))
    fix i assume "i < length (page_list ?f old k)"
    then have i: "i < k" by (simp add: page_list_def)
    have "page_addr (kend s) (qs ! i)" using qs(1,3) i by simp
    then have "PTE2PA (PA2PTE (qs ! i) OR (perm OR PTE_V)) = qs ! i"
      by (intro PTE2PA_PA2PTE f) (auto simp: page_addr_def PGSIZE_def PHYSTOP_val)
    then show "page_list ?f old k ! i = qs ! i" using i e[OF i] by (simp add: page_list_def)
  qed
  have ev: "?f (old + i * PGSIZE) AND PTE_V \<noteq> 0 \<and> PTE_FLAGS (?f (old + i * PGSIZE)) \<noteq> PTE_V" if "i < k" for i
    unfolding e[OF that] PTE_FLAGS_pte[OF f] using perm(2) V_valid[of "PA2PTE (qs ! i) OR perm"] by (simp add: or.assoc)
  from unmap_loop_run[where b = True, OF inv old ev, unfolded pl, OF _ qs(2) qs(3)] obtain s' where
    s': "unmap_loop pt True k old s = Inr ((), s')" "pt_inv s' pt (rev qs @ ps)" "tables (pm s') pt = tables (pm s) pt"
      "\<And>vb. vb < MAXVA \<Longrightarrow> leaf (pm s') pt vb = cleared_leaf ?f old k vb"
    by (simp split: if_splits) blast
  have "bnd (uvmdealloc pt (old + k * PGSIZE) old) (\<lambda>_. ret (0::nat)) s = Inr (0, s')"
  proof (cases k)
    case 0
    then show ?thesis using s'(1) by (simp add: uvmdealloc_def run_simps)
  next
    case (Suc n)
    have "PGROUNDUP old = old" "PGROUNDUP (old + k * PGSIZE) = old + k * PGSIZE"
      using old by (auto intro!: PGROUNDUP_aligned simp: PGSIZE_def)
    moreover have "\<not> old + k * PGSIZE \<le> old" "old < old + k * PGSIZE" "(old + k * PGSIZE - old) div PGSIZE = k"
      using Suc by (simp_all add: PGSIZE_def)
    ultimately show ?thesis using s'(1) old(1) by (simp add: uvmdealloc_def uvmunmap_def run_simps PGSIZE_def)
  qed
  moreover have "leaf (pm s') pt vb = f0 vb" if "vb < MAXVA" for vb
    using s'(4)[OF that] L[OF that] z[of vb] by (auto simp: cleared_leaf_def)
  then have "grown_by s' pt (rev qs @ ps) f0 P old 0 perm"
    using s'(2,3) qs(4) by (auto simp: grown_by_def)
  ultimately show ?thesis by blast
qed

lemma ext_conserve: "pt_ext pt s ps s' ps' \<Longrightarrow> set ps' \<union> tables (pm s') pt = set ps \<union> tables (pm s) pt"
  by (auto simp: pt_ext_def)

lemma ext_keep:
  assumes e: "pt_ext pt s ps s' ps'" and q: "page_addr (kend s) q" "q \<notin> set ps" "q \<notin> tables (pm s) pt"
  shows "page_addr (kend s') q" "q \<notin> set ps'" "q \<notin> tables (pm s') pt" "\<And>x. in_page q x \<Longrightarrow> pm s' x = pm s x"
proof -
  show q': "page_addr (kend s') q" using e q(1) by (simp add: pt_ext_def)
  show "q \<notin> set ps'" and nt: "q \<notin> tables (pm s') pt" using ext_conserve[OF e] q by auto
  show "pm s' x = pm s x" if "in_page q x" for x
  proof -
    have "\<not> in_page t x" if "t \<in> tables (pm s') pt" for t
      using in_page_apart[OF q' _ _ \<open>in_page q x\<close>] that nt e by (auto simp: pt_ext_def pt_inv_def)
    then show ?thesis using e by (simp add: pt_ext_def)
  qed
qed

lemma uvmalloc_step:
  fixes s :: "'z phys_scheme"
  assumes g: "grown_by s pt ps f0 P old k (PTE_R OR PTE_U OR xperm)" and old: "old mod 4096 = 0" "old + Suc k * PGSIZE \<le> MAXVA"
    and z: "f0 (old + k * PGSIZE) = 0"
  obtains s' ps' where "\<And>n. uvmalloc_loop pt old newsz xperm (Suc n) (old + k * PGSIZE) s =
      bnd (uvmdealloc pt (old + k * PGSIZE) old) (\<lambda>_. ret 0) s'" "grown_by s' pt ps' f0 P old k (PTE_R OR PTE_U OR xperm)"
  | s' ps' where "\<And>n. uvmalloc_loop pt old newsz xperm (Suc n) (old + k * PGSIZE) s = uvmalloc_loop pt old newsz xperm n (old + Suc k * PGSIZE) s'"
      "grown_by s' pt ps' f0 P old (Suc k) (PTE_R OR PTE_U OR xperm)"
proof -
  let ?f = "leaf (pm s) pt" let ?a = "old + k * PGSIZE" let ?perm = "PTE_R OR PTE_U OR xperm"
  from g obtain qs where inv: "pt_inv s pt ps" and L: "\<And>vb. vb < MAXVA \<Longrightarrow> \<not> (old \<le> vb \<and> vb < ?a) \<Longrightarrow> ?f vb = f0 vb"
    and qs: "length qs = k" "distinct qs" "\<And>q. q \<in> set qs \<Longrightarrow> page_addr (kend s) q \<and> q \<notin> set ps \<and> q \<notin> tables (pm s) pt"
      "\<And>q x. q \<in> set qs \<Longrightarrow> in_page q x \<Longrightarrow> pm s x = 0" "P = set ps \<union> tables (pm s) pt \<union> set qs"
    and E: "\<And>i vb. i < k \<Longrightarrow> vb < MAXVA \<Longrightarrow> vb div 4096 = (old + i * PGSIZE) div 4096 \<Longrightarrow> ?f vb = PA2PTE (qs ! i) OR ?perm OR PTE_V"
    unfolding grown_by_def by (elim conjE exE) (rule that, auto)
  have a: "?a mod 4096 = 0" "?a + PGSIZE \<le> MAXVA" "?a < MAXVA" using old by (auto simp: PGSIZE_def)
  show thesis
  proof (cases ps)
    case Nil
    then have "kalloc s = Inr (0, s)" using inv by (simp add: pt_inv_def kmem_inv_def kalloc_run)
    then show thesis by (intro that(1)[of s ps] g) (simp add: run_simps)
  next
    case (Cons p ps0)
    obtain s1 where s1: "\<And>A (B :: nat \<Rightarrow> ('z, nat) kprog). bnd kalloc (\<lambda>mem. if mem = 0 then A else sq (zero_page mem) (B mem)) s = B p s1"
      "p \<noteq> 0" "page_addr (kend s) p" "p \<notin> set ps0" "p \<notin> tables (pm s) pt"
      "pt_inv s1 pt ps0" "kend s1 = kend s" "tables (pm s1) pt = tables (pm s) pt"
      "\<And>vb. vb < MAXVA \<Longrightarrow> leaf (pm s1) pt vb = ?f vb" "\<And>x. \<not> in_page p x \<Longrightarrow> pm s1 x = pm s x"
      "\<And>x. in_page p x \<Longrightarrow> pm s1 x = 0"
      by (rule fresh_page[OF inv[unfolded Cons]]) (rule that)
    have pq: "p \<notin> set qs" using qs(3)[of p] Cons by auto
    have z1: "leaf (pm s1) pt ?a = 0" using s1(9)[OF a(3)] L[OF a(3)] z by simp
    have zq: "pm s1 x = 0" if "q \<in> set (qs @ [p])" "in_page q x" for q x
    proof (cases "q = p")
      case False
      then have "q \<in> set qs" using that(1) by simp
      with in_page_apart[OF _ s1(3) False that(2)] qs(3,4) that(2) s1(10) show ?thesis by metis
    qed (use s1(11) that in simp)
    have own: "page_addr (kend s) q \<and> q \<notin> set ps0 \<and> q \<notin> tables (pm s) pt" if "q \<in> set (qs @ [p])" for q
      using that qs(3)[of q] s1(3-5) Cons by auto
    have run: "uvmalloc_loop pt old newsz xperm (Suc n) ?a s = bnd (mappages pt ?a PGSIZE p ?perm) (\<lambda>r.
       if r \<noteq> 0 then sq (kfree p) (bnd (uvmdealloc pt ?a old) (\<lambda>_. ret 0))
       else uvmalloc_loop pt old newsz xperm n (?a + PGSIZE)) s1" for n
      unfolding uvmalloc_loop.simps by (rule s1(1))
    have own1: "page_addr (kend s1) q" "q \<notin> set ps0" "q \<notin> tables (pm s1) pt" if "q \<in> set (qs @ [p])" for q
      using own[OF that] s1(7,8) by auto
    have P: "P = set ps0 \<union> tables (pm s1) pt \<union> set (qs @ [p])" using qs(5) Cons s1(8) by auto
    have ap: "\<not> (old \<le> vb \<and> vb < old + k * PGSIZE)" if "vb div 4096 = ?a div 4096" for vb
      using that page_cases[OF a(1), of vb] by auto
    show thesis
    proof (rule map_one[OF s1(6) a(1,2) z1, where pa = p and perm = ?perm])
      fix s2 assume m: "mappages pt ?a PGSIZE p ?perm s1 = Inr (- 1, s2)" "pt_ext pt s1 ps0 s2 []" "length ps0 < 2"
        and L2: "\<And>vb. vb < MAXVA \<Longrightarrow> leaf (pm s2) pt vb = leaf (pm s1) pt vb"
      have p2: "page_addr (kend s2) p" "p \<notin> set []" "p \<notin> tables (pm s2) pt" by (rule ext_keep[OF m(2) own1]; simp)+
      have i2: "pt_inv s2 pt []" using m(2) by (simp add: pt_ext_def)
      obtain s3 where s3: "kfree p s2 = Inr ((), s3)" "pt_inv s3 pt [p]" "kend s3 = kend s2" "tables (pm s3) pt = tables (pm s2) pt"
        "\<And>vb. vb < MAXVA \<Longrightarrow> leaf (pm s3) pt vb = leaf (pm s2) pt vb" "\<And>x. \<not> in_page p x \<Longrightarrow> pm s3 x = pm s2 x"
        by (rule kfree_pt[OF i2 p2]) (rule that)
      have L3: "leaf (pm s3) pt vb = ?f vb" if "vb < MAXVA" for vb using s3(5) L2 s1(9) that by simp
      have own3: "page_addr (kend s3) q \<and> q \<notin> set [p] \<and> q \<notin> tables (pm s3) pt \<and> (\<forall>x. in_page q x \<longrightarrow> pm s3 x = 0)" if q: "q \<in> set qs" for q
      proof -
        have q1: "q \<in> set (qs @ [p])" "q \<noteq> p" using q pq by auto
        have q2: "page_addr (kend s2) q" "q \<notin> tables (pm s2) pt" "\<And>x. in_page q x \<Longrightarrow> pm s2 x = pm s1 x"
          by (rule ext_keep[OF m(2) own1[OF q1(1)]]; assumption?)+
        have "pm s3 x = 0" if "in_page q x" for x
          using s3(6)[OF in_page_apart[OF q2(1) p2(1) q1(2) that]] q2(3)[OF that] zq[OF q1(1) that] by simp
        then show ?thesis using q1(2) q2 s3(3,4) by simp
      qed
      have "P = set [p] \<union> tables (pm s3) pt \<union> set qs" using P ext_conserve[OF m(2)] s3(4) by auto
      then have "grown_by s3 pt [p] f0 P old k ?perm"
        unfolding grown_by_def using s3(2) L3 L E qs(1,2) own3 by (intro conjI exI[of _ qs]) auto
      then show thesis by (intro that(1)[of s3 "[p]"]) (simp_all add: run m(1) s3(1) bnd_Inr sq_Inr del: uvmalloc_loop.simps)
    next
      fix s2 ps2 assume m: "mappages pt ?a PGSIZE p ?perm s1 = Inr (0, s2)" "pt_ext pt s1 ps0 s2 ps2"
        and L2: "\<And>vb. vb < MAXVA \<Longrightarrow> leaf (pm s2) pt vb = (if vb div 4096 = ?a div 4096 then PA2PTE p OR ?perm OR PTE_V else leaf (pm s1) pt vb)"
      have i2: "pt_inv s2 pt ps2" using m(2) by (simp add: pt_ext_def)
      have out: "leaf (pm s2) pt vb = f0 vb" if "vb < MAXVA" "\<not> (old \<le> vb \<and> vb < old + Suc k * PGSIZE)" for vb
        using L2[OF that(1)] that s1(9)[OF that(1)] L[OF that(1)] page_cases[OF a(1), of vb] by (auto simp: PGSIZE_def)
      have own2: "page_addr (kend s2) q \<and> q \<notin> set ps2 \<and> q \<notin> tables (pm s2) pt \<and> (\<forall>x. in_page q x \<longrightarrow> pm s2 x = 0)"
        if q: "q \<in> set (qs @ [p])" for q
        using ext_keep[OF m(2) own1[OF q]] zq[OF q] by simp
      have E2: "leaf (pm s2) pt vb = PA2PTE ((qs @ [p]) ! i) OR ?perm OR PTE_V"
        if "i < Suc k" "vb < MAXVA" "vb div 4096 = (old + i * PGSIZE) div 4096" for i vb
      proof (cases "i = k")
        case True
        then show ?thesis using L2[OF that(2)] that(3) qs(1) by (simp add: nth_append)
      next
        case False
        then have "i < k" using that(1) by simp
        moreover from this have "vb div 4096 \<noteq> ?a div 4096" using that(3) old(1) by (simp add: PGSIZE_def div_add1_eq)
        ultimately show ?thesis using L2[OF that(2)] s1(9)[OF that(2)] E[OF _ that(2,3)] qs(1) by (simp add: nth_append)
      qed
      have "P = set ps2 \<union> tables (pm s2) pt \<union> set (qs @ [p])" using P ext_conserve[OF m(2)] by auto
      then have "grown_by s2 pt ps2 f0 P old (Suc k) ?perm"
        unfolding grown_by_def using i2 out own2 E2 qs(1,2) pq by (intro conjI exI[of _ "qs @ [p]"]) auto
      moreover have "?a + PGSIZE = old + Suc k * PGSIZE" by simp
      ultimately show thesis by (intro that(2)[of s2 ps2]) (simp_all add: run m(1) bnd_Inr add.assoc del: uvmalloc_loop.simps mult_Suc)
    qed
  qed
qed

lemma uvmalloc_loop_run:
  assumes "grown_by s pt ps f0 P old k (PTE_R OR PTE_U OR xperm)" "old mod 4096 = 0" "old + (k + n) * PGSIZE \<le> MAXVA"
    "\<And>vb. old \<le> vb \<Longrightarrow> vb < old + (k + n) * PGSIZE \<Longrightarrow> f0 vb = 0" "PTE_FLAGS xperm = xperm"
  shows "\<exists>r s' ps' k'. uvmalloc_loop pt old newsz xperm n (old + k * PGSIZE) s = Inr (r, s') \<and>
     grown_by s' pt ps' f0 P old k' (PTE_R OR PTE_U OR xperm) \<and> (r = newsz \<and> k' = k + n \<or> r = 0 \<and> k' = 0)"
  using assms
proof (induction n arbitrary: s ps k)
  case 0
  then show ?case by (auto simp: run_simps)
next
  case (Suc n)
  let ?perm = "PTE_R OR PTE_U OR xperm"
  have b: "old + Suc k * PGSIZE \<le> MAXVA" "f0 (old + k * PGSIZE) = 0"
    using Suc.prems(3,4) by (auto simp: PGSIZE_def)
  have perm: "PTE_FLAGS ?perm = ?perm" "?perm OR PTE_V \<noteq> PTE_V"
  proof -
    show "PTE_FLAGS ?perm = ?perm" using Suc.prems(5) by (simp add: PTE_FLAGS_def PTE_R_def PTE_U_def bit.conj_disj_distrib2)
    show "?perm OR PTE_V \<noteq> PTE_V"
    proof
      assume "?perm OR PTE_V = PTE_V"
      then have "bit (?perm OR PTE_V) 1 = bit PTE_V 1" by simp
      then show False by (simp add: PTE_R_def PTE_V_def bit_simps)
    qed
  qed
  show ?case
  proof (rule uvmalloc_step[OF Suc.prems(1,2) b, where newsz = newsz])
    fix s' ps' assume s': "\<And>n. uvmalloc_loop pt old newsz xperm (Suc n) (old + k * PGSIZE) s =
      bnd (uvmdealloc pt (old + k * PGSIZE) old) (\<lambda>_. ret 0) s'" "grown_by s' pt ps' f0 P old k ?perm"
    have "old + k * PGSIZE \<le> MAXVA" using b(1) by simp
    moreover have "f0 vb = 0" if "old \<le> vb" "vb < old + k * PGSIZE" for vb
      using Suc.prems(4)[OF that(1)] that(2) by (simp add: PGSIZE_def)
    ultimately show ?thesis using uvmdealloc_undo[OF s'(2) Suc.prems(2) _ _ perm] unfolding s'(1) by blast
  next
    fix s' ps' assume s': "\<And>n. uvmalloc_loop pt old newsz xperm (Suc n) (old + k * PGSIZE) s = uvmalloc_loop pt old newsz xperm n (old + Suc k * PGSIZE) s'"
      "grown_by s' pt ps' f0 P old (Suc k) ?perm"
    have "old + (Suc k + n) * PGSIZE \<le> MAXVA" using Suc.prems(3) by simp
    moreover have "f0 vb = 0" if "old \<le> vb" "vb < old + (Suc k + n) * PGSIZE" for vb using Suc.prems(4)[of vb] that by simp
    ultimately show ?thesis using Suc.IH[OF s'(2) Suc.prems(2) _ _ Suc.prems(5)] unfolding s'(1) by simp
  qed
qed

text \<open>
  C11. \<^verbatim>\<open>uvmalloc\<close> is all or nothing: it returns the new size, with every page of the growth
  mapped readable and user-accessible to a cleared page of its own, or it returns 0 with the
  address space as before and no page lost (each page is free again or a page-table page).
\<close>

theorem uvmalloc_all_or_nothing:
  assumes "pt_inv s pt ps" "oldsz \<le> newsz" "newsz \<le> MAXVA" "PTE_FLAGS xperm = xperm"
    "\<forall>vb. PGROUNDUP oldsz \<le> vb \<and> vb < PGROUNDUP newsz \<longrightarrow> leaf (pm s) pt vb = 0"
  shows "\<exists>r s' ps' k. uvmalloc pt oldsz newsz xperm s = Inr (r, s') \<and>
    grown_by s' pt ps' (leaf (pm s) pt) (set ps \<union> tables (pm s) pt) (PGROUNDUP oldsz) k (PTE_R OR PTE_U OR xperm) \<and>
    (r = newsz \<and> PGROUNDUP oldsz + k * PGSIZE = PGROUNDUP newsz \<or> r = 0 \<and> k = 0)"
proof -
  define old where "old = PGROUNDUP oldsz"
  define n where "n = (newsz - old + 4095) div 4096"
  have small: "oldsz + 4095 < 2 ^ 64" "newsz + 4095 < 2 ^ 64" using assms(2,3) by (simp_all add: MAXVA_def)
  have o: "old = (oldsz + 4095) div 4096 * 4096" "PGROUNDUP newsz = (newsz + 4095) div 4096 * 4096"
    using small by (simp_all add: old_def PGROUNDUP_def)
  have al: "old mod 4096 = 0" by (simp add: o)
  have le: "old \<le> PGROUNDUP newsz" using assms(2) by (simp add: o div_le_mono)
  have top: "old + n * PGSIZE = PGROUNDUP newsz"
  proof (cases "old \<le> newsz")
    case True
    obtain c where c: "old = 4096 * c" using al by (auto elim!: dvdE simp: mod_eq_0_iff_dvd)
    have "newsz + 4095 = (newsz - old + 4095) + c * 4096" using True c by simp
    then have "(newsz + 4095) div 4096 = (newsz - old + 4095) div 4096 + c" by (simp only: div_mult_self1)
    then show ?thesis using c o(2) by (simp add: n_def PGSIZE_def)
  next
    case False
    have "(newsz + 4095) div 4096 \<le> (oldsz + 4095) div 4096"
    proof (rule ccontr)
      assume "\<not> ?thesis"
      then have "((oldsz + 4095) div 4096 + 1) * 4096 \<le> (newsz + 4095) div 4096 * 4096" by (intro mult_le_mono1) simp
      moreover have "(newsz + 4095) div 4096 * 4096 \<le> newsz + 4095" by simp
      ultimately show False using False o(1) by simp
    qed
    then have "PGROUNDUP newsz = old" using le o by simp
    then show ?thesis using False by (simp add: n_def)
  qed
  have "PGROUNDUP newsz \<le> MAXVA"
  proof -
    have "(newsz + 4095) div 4096 \<le> (MAXVA + 4095) div 4096" using assms(3) by (intro div_le_mono) simp
    then show ?thesis unfolding o(2) by (simp add: MAXVA_def)
  qed
  then have b: "old + (0 + n) * PGSIZE \<le> MAXVA" using top by simp
  have g: "grown_by s pt ps (leaf (pm s) pt) (set ps \<union> tables (pm s) pt) old 0 (PTE_R OR PTE_U OR xperm)"
    using assms(1) by (simp add: grown_by_def)
  have z: "leaf (pm s) pt vb = 0" if "old \<le> vb" "vb < old + (0 + n) * PGSIZE" for vb
    using assms(5) that top by (simp add: old_def)
  have "uvmalloc pt oldsz newsz xperm s = uvmalloc_loop pt old newsz xperm n (old + 0 * PGSIZE) s"
    using assms(2) by (simp add: uvmalloc_def old_def n_def Let_def PGSIZE_def)
  with uvmalloc_loop_run[OF g al b z assms(4), of newsz] show ?thesis
    unfolding old_def[symmetric] using top by auto
qed

section \<open>\<^verbatim>\<open>uvmcreate\<close>\<close>

lemma empty_table:
  assumes k: "kmem_inv s ps" and p: "page_addr (kend s) p" "p \<notin> set ps" and z: "\<And>x. in_page p x \<Longrightarrow> pm s x = 0"
  shows "pt_inv s p ps" "leaf (pm s) p va = 0" "tables (pm s) p = {p}"
proof -
  have l: "load64 (pm s) (p + 8 * PX i va) = 0" for i va
  proof -
    have "load64 (pm s) (p + 8 * PX i va) = load64 (\<lambda>_. 0) (p + 8 * PX i va)"
      by (rule load64_cong) (use z slot_in_table in simp)
    then show ?thesis by (simp add: load64_def load32_def)
  qed
  have N: "pt_table (pm s) p va (Suc d) = None" for d va
    by (induction d) (simp_all add: l Let_def)
  have T: "pt_table (pm s) p va d = Some t \<Longrightarrow> d = 0 \<and> t = p" for va d t
    using N by (cases d) auto
  have "0 < MAXVA" by (simp add: MAXVA_def)
  then show "tables (pm s) p = {p}" using T by (force simp: tables_def)
  moreover have "pt_tree (pm s) p" unfolding pt_tree_def using T reg_0 by metis
  ultimately show "pt_inv s p ps" using k p by (simp add: pt_inv_def)
  show "leaf (pm s) p va = 0" using N[of va 1] by (simp add: leaf_def numeral_2_eq_2)
qed

lemma uvmcreate_run:
  assumes k: "kmem_inv s (p # ps)"
  obtains s' where "uvmcreate s = Inr (p, s')" "pt_inv s' p ps" "kend s' = kend s" "\<And>va. leaf (pm s') p va = 0" "tables (pm s') p = {p}"
proof -
  obtain s1 where s1: "kalloc s = Inr (p, s1)" "kmem_inv s1 ps" "kend s1 = kend s" by (rule kalloc_inv[OF k]) (rule that)
  let ?m = "memset (pm s1) p 0 PGSIZE"
  have p: "page_addr (kend s1) p" "p \<notin> set ps" "p \<noteq> 0" using k s1(3) by (auto simp: kmem_inv_def page_addr_def)
  have "kmem_inv (s1\<lparr>pm := ?m\<rparr>) ps"
    by (rule kmem_inv_frame[OF s1(2)], rule memset_out)
      (use in_page_apart[of "kend s1" _ "kend s1" p] s1(2) p in \<open>auto simp: kmem_inv_def\<close>)
  from empty_table[OF this] p have "pt_inv (s1\<lparr>pm := ?m\<rparr>) p ps" "\<And>va. leaf ?m p va = 0" "tables ?m p = {p}"
    by (auto simp: in_page_def memset_same)
  moreover have "uvmcreate s = Inr (p, s1\<lparr>pm := ?m\<rparr>)"
    using s1(1) p(3) by (simp add: uvmcreate_def run_simps zero_page_def mem_upd_def)
  ultimately show thesis using that s1(3) by simp
qed

definition four_page_ram :: phys where
  "four_page_ram = \<lparr>pm = (\<lambda>_. 0), freelist = 0, kend = 2281684992\<rparr>"

lemma four_page_table:
  obtains s where "pt_inv (s :: phys) 2281697280 [2281693184, 2281689088, 2281684992]" "\<And>va. leaf (pm s) 2281697280 va = 0"
proof -
  have "\<exists>s'. freerange_loop 4 2281684992 four_page_ram = Inr ((), s') \<and>
      kmem_inv s' (rev (map (\<lambda>i. 2281684992 + i * PGSIZE) [0..<4]) @ []) \<and> kend s' = kend four_page_ram"
    by (rule freerange_loop_run) (simp_all add: kmem_inv_def four_page_ram_def PGSIZE_def PHYSTOP_val)
  then obtain s :: phys where "kmem_inv s (2281697280 # [2281693184, 2281689088, 2281684992])"
    by (auto simp: upt_rec PGSIZE_def)
  from uvmcreate_run[OF this] show thesis using that by metis
qed

theorem uvmalloc_all_or_nothing_witness:
  "\<exists>s r s' ps' k. pt_inv (s :: phys) 2281697280 [2281693184, 2281689088, 2281684992] \<and>
    uvmalloc 2281697280 0 4000 PTE_W s = Inr (r, s') \<and>
    grown_by s' 2281697280 ps' (leaf (pm s) 2281697280) ({2281693184, 2281689088, 2281684992} \<union> tables (pm s) 2281697280)
      0 k (PTE_R OR PTE_U OR PTE_W) \<and> (r = 4000 \<and> k = 1 \<or> r = 0 \<and> k = 0)"
proof -
  obtain s :: phys where s: "pt_inv s 2281697280 [2281693184, 2281689088, 2281684992]" "\<And>va. leaf (pm s) 2281697280 va = 0"
    by (rule four_page_table) (rule that)
  have r: "PGROUNDUP 0 = 0" "PGROUNDUP 4000 = 4096" by (simp_all add: PGROUNDUP_def)
  from uvmalloc_all_or_nothing[OF s(1), of 0 4000 PTE_W] s(2) show ?thesis
    unfolding r by (intro exI[of _ s]) (auto simp: MAXVA_def PTE_FLAGS_def PTE_W_def PGSIZE_def s(1))
qed

section \<open>Copies between kernel and user\<close>

text \<open>The physical address that a user address stands for, if it is mapped for the user.\<close>

definition uaddr :: "memory \<Rightarrow> nat \<Rightarrow> nat \<Rightarrow> nat option" where
  "uaddr m pt va = (let e = leaf m pt va in
     if va < MAXVA \<and> e AND PTE_V \<noteq> 0 \<and> e AND PTE_U \<noteq> 0 \<and> PTE2PA e \<noteq> 0
     then Some (PTE2PA e + va mod 4096) else None)"

definition ubytes :: "memory \<Rightarrow> nat \<Rightarrow> nat \<Rightarrow> nat \<Rightarrow> byte list" where
  "ubytes m pt va n = map (\<lambda>i. m (the (uaddr m pt (va + i)))) [0..<n]"

definition user_range :: "memory \<Rightarrow> nat \<Rightarrow> nat \<Rightarrow> nat \<Rightarrow> bool" where
  "user_range m pt va n \<longleftrightarrow> (\<forall>i < n. uaddr m pt (va + i) \<noteq> None)"

lemma walkaddr_run:
  assumes "pt_inv s pt ps"
  shows "walkaddr pt (PGROUNDDOWN va) s = Inr (case uaddr (pm s) pt va of None \<Rightarrow> 0 | Some p \<Rightarrow> p - va mod 4096, s)"
proof -
  define a where "a = PGROUNDDOWN va"
  have e: "a div 4096 = va div 4096" by (simp add: a_def PGROUNDDOWN_def)
  have lf: "leaf (pm s) pt va = leaf (pm s) pt a" by (rule leaf_page) (simp add: e)
  have lt: "a < MAXVA \<longleftrightarrow> va < MAXVA"
  proof -
    have m: "MAXVA = 67108864 * 4096" by (simp add: MAXVA_def)
    have "x < MAXVA \<longleftrightarrow> x div 4096 < 67108864" for x unfolding m by (simp add: div_less_iff_less_mult)
    then show ?thesis using e by simp
  qed
  show ?thesis
  proof (cases "va < MAXVA")
    case True
    then have a: "a < MAXVA" using lt by simp
    show ?thesis
    proof (cases "pt_table (pm s) pt a 2")
      case None
      then show ?thesis using walk_find[OF a, of pt s] a lf leaf_None[OF None]
        by (simp add: walkaddr_def run_simps uaddr_def a_def[symmetric])
    next
      case (Some t)
      obtain q where q: "q = t + 8 * PX 0 a" by blast
      have "t \<noteq> 0" using assms tablesI[OF Some a] by (auto simp: pt_inv_def page_addr_def)
      then have "q \<noteq> 0" using q by simp
      moreover have "leaf (pm s) pt a = load64 (pm s) q" using Some q by (simp add: leaf_def)
      moreover have "walk pt a False s = Inr (q, s)" using walk_find[OF a, of pt s] Some q by simp
      ultimately show ?thesis using a lf True
        by (simp add: walkaddr_def run_simps uaddr_def a_def[symmetric] ldpte_def Let_def)
    qed
  next
    case False
    then show ?thesis using lt by (simp add: walkaddr_def run_simps uaddr_def a_def[symmetric])
  qed
qed

lemma uaddr_same_page:
  assumes "uaddr m pt va = Some p" "va mod 4096 + i < 4096"
  shows "uaddr m pt (va + i) = Some (p + i)"
proof -
  have d: "(va + i) div 4096 = va div 4096" "(va + i) mod 4096 = va mod 4096 + i"
  proof -
    have *: "va + i = (va mod 4096 + i) + va div 4096 * 4096" using div_mult_mod_eq[of va 4096] by linarith
    have "(va + i) div 4096 = ((va mod 4096 + i) + va div 4096 * 4096) div 4096" by (simp only: *[symmetric])
    also have "\<dots> = va div 4096" using assms(2) by (subst div_mult_self1) simp_all
    finally show "(va + i) div 4096 = va div 4096" .
    have "(va + i) mod 4096 = ((va mod 4096 + i) + va div 4096 * 4096) mod 4096" by (simp only: *[symmetric])
    also have "\<dots> = va mod 4096 + i" using assms(2) by (subst mod_mult_self1) simp
    finally show "(va + i) mod 4096 = va mod 4096 + i" .
  qed
  have "va < MAXVA" using assms(1) by (auto simp: uaddr_def Let_def split: if_splits)
  moreover have m: "MAXVA = 67108864 * 4096" by (simp add: MAXVA_def)
  ultimately have "va + i < MAXVA" using d(1) unfolding m by (metis div_less_iff_less_mult zero_less_numeral)
  then show ?thesis using assms(1) leaf_page[OF d(1), of m pt] d(2)
    by (auto simp: uaddr_def Let_def split: if_splits)
qed

lemma page_room_eq: "page_room va = 4096 - va mod 4096" "va - PGROUNDDOWN va = va mod 4096"
  by (simp_all add: page_room_def PGROUNDDOWN_def PGSIZE_def minus_div_mult_eq_mod)

lemma next_page: "va mod 4096 + n = 4096 \<Longrightarrow> PGROUNDDOWN va + PGSIZE = va + n"
  using div_mult_mod_eq[of va 4096] unfolding PGROUNDDOWN_def PGSIZE_def by linarith

lemma chunk_addr:
  assumes "user_range m pt va len" "i < min (page_room va) len"
  shows "uaddr m pt (va + i) = Some (the (uaddr m pt va) + i)"
proof -
  obtain p where "uaddr m pt va = Some p" using assms by (cases "uaddr m pt va") (auto simp: user_range_def dest: spec[of _ 0])
  moreover have "va mod 4096 + i < 4096" using assms(2) unfolding page_room_eq by linarith
  ultimately show ?thesis using uaddr_same_page by simp
qed

lemma user_range_rest:
  "user_range m pt va len \<Longrightarrow> n \<le> len \<Longrightarrow> user_range m pt (va + n) (len - n)"
  by (auto simp: user_range_def add.assoc)

lemma rest_addr: "n = min (page_room va) len \<Longrightarrow> n < len \<Longrightarrow> PGROUNDDOWN va + PGSIZE = va + n"
  by (rule next_page) (simp add: page_room_eq min_def split: if_splits)

lemma ubytes_append: "n \<le> len \<Longrightarrow> ubytes m pt va len = ubytes m pt va n @ ubytes m pt (va + n) (len - n)"
proof -
  assume "n \<le> len"
  then have "[0..<len] = [0..<n] @ map (\<lambda>i. n + i) [0..<len - n]" by (intro nth_equalityI) (auto simp: nth_append)
  then show ?thesis by (simp add: ubytes_def add.assoc)
qed

lemma uaddr_mod: "uaddr m pt va = Some p \<Longrightarrow> va mod 4096 < p"
  by (auto simp: uaddr_def Let_def split: if_splits)

lemma copyin_run:
  "pt_inv s pt ps \<Longrightarrow> user_range (pm s) pt va len \<Longrightarrow> copyin pt va len s = Inr ((0, ubytes (pm s) pt va len), s)"
proof (induction len arbitrary: va rule: less_induct)
  case (less len)
  show ?case
  proof (cases "len = 0")
    case True
    then show ?thesis by (simp add: copyin.simps ubytes_def)
  next
    case False
    define n where "n = min (page_room va) len"
    have n: "0 < n" "n \<le> len" using page_room_pos False by (auto simp: n_def)
    obtain p where p: "uaddr (pm s) pt va = Some p" using less.prems(2) False by (cases "uaddr (pm s) pt va") (auto simp: user_range_def dest: spec[of _ 0])
    have w: "walkaddr pt (PGROUNDDOWN va) s = Inr (p - va mod 4096, s)" using walkaddr_run[OF less.prems(1), of va] p by simp
    have pm: "va mod 4096 < p" by (rule uaddr_mod[OF p])
    have b: "load_bytes (pm s) p n = ubytes (pm s) pt va n"
      unfolding load_bytes_def ubytes_def
      by (rule map_cong[OF refl]) (use chunk_addr[OF less.prems(2)] p in \<open>auto simp: n_def\<close>)
    have r: "copyin pt (PGROUNDDOWN va + PGSIZE) (len - n) s = Inr ((0, ubytes (pm s) pt (va + n) (len - n)), s)"
    proof (cases "n < len")
      case True
      have ad: "PGROUNDDOWN va + PGSIZE = va + n" by (rule rest_addr[OF n_def True])
      show ?thesis unfolding ad by (rule less.IH[OF _ less.prems(1) user_range_rest[OF less.prems(2) n(2)]]) (use n False in simp)
    qed (use n in \<open>simp add: copyin.simps ubytes_def\<close>)
    show ?thesis
      unfolding copyin.simps[of pt va len] using False w pm r b ubytes_append[OF n(2), of "pm s" pt va]
      by (simp add: Let_def page_room_eq(2) n_def[symmetric])
  qed
qed

text \<open>User bytes have addresses of their own, outside the page tables and the free pages.\<close>

definition user_sep :: "memory \<Rightarrow> nat \<Rightarrow> nat list \<Rightarrow> bool" where
  "user_sep m pt ps \<longleftrightarrow> (\<forall>va vb p. uaddr m pt va = Some p \<longrightarrow> uaddr m pt vb = Some p \<longrightarrow> va = vb) \<and>
     (\<forall>va p. uaddr m pt va = Some p \<longrightarrow> (\<forall>t \<in> tables m pt \<union> set ps. \<not> in_page t p))"

lemma user_sep_cong: "tables m' pt = tables m pt \<Longrightarrow> uaddr m' pt = uaddr m pt \<Longrightarrow> user_sep m' pt ps = user_sep m pt ps"
  by (simp add: user_sep_def)

lemma store_user:
  assumes inv: "pt_inv s pt ps" and sep: "user_sep (pm s) pt ps"
    and bs: "\<And>i. i < length bs \<Longrightarrow> uaddr (pm s) pt (va + i) = Some (p + i)"
  defines "m \<equiv> store_bytes (pm s) p bs"
  shows "pt_inv (s\<lparr>pm := m\<rparr>) pt ps" "user_sep m pt ps" "uaddr m pt = uaddr (pm s) pt"
proof -
  have out: "m x = pm s x" if "\<exists>t \<in> tables (pm s) pt \<union> set ps. in_page t x" for x
  proof (cases "p \<le> x \<and> x < p + length bs")
    case True
    then obtain i where "x = p + i" "i < length bs" by (metis le_add_diff_inverse nat_add_left_cancel_less)
    then have "uaddr (pm s) pt (va + i) = Some x" using bs by simp
    with sep that have False unfolding user_sep_def by blast
    then show ?thesis ..
  qed (auto simp: m_def intro!: store_bytes_other)
  note w = write_pt[OF inv out]
  show "pt_inv (s\<lparr>pm := m\<rparr>) pt ps" by (rule w(1))
  show u: "uaddr m pt = uaddr (pm s) pt"
  proof
    fix vb show "uaddr m pt vb = uaddr (pm s) pt vb"
      using w(3)[of vb] by (cases "vb < MAXVA") (simp_all add: uaddr_def)
  qed
  show "user_sep m pt ps" using sep user_sep_cong[OF w(2) u] by simp
qed

lemma uaddr_first: "user_range m pt va len \<Longrightarrow> len \<noteq> 0 \<Longrightarrow> \<exists>p. uaddr m pt va = Some p"
  by (auto simp: user_range_def dest: spec[of _ 0])

lemma user_range_cong: "uaddr m' pt = uaddr m pt \<Longrightarrow> user_range m' pt va n = user_range m pt va n"
  by (simp add: user_range_def)

lemma ubytes_nth: "i < n \<Longrightarrow> ubytes m pt va n ! i = m (the (uaddr m pt (va + i)))"
  by (simp add: ubytes_def)

lemma copyout_run:
  "pt_inv s pt ps \<Longrightarrow> user_sep (pm s) pt ps \<Longrightarrow> user_range (pm s) pt va (length src) \<Longrightarrow>
   \<exists>m. copyout pt va src s = Inr (0, s\<lparr>pm := m\<rparr>) \<and> pt_inv (s\<lparr>pm := m\<rparr>) pt ps \<and> uaddr m pt = uaddr (pm s) pt \<and>
     (\<forall>i < length src. m (the (uaddr (pm s) pt (va + i))) = src ! i) \<and>
     (\<forall>x. (\<forall>i < length src. uaddr (pm s) pt (va + i) \<noteq> Some x) \<longrightarrow> m x = pm s x)"
proof (induction "length src" arbitrary: va src s rule: less_induct)
  case less
  show ?case
  proof (cases "src = []")
    case True
    then show ?thesis using less.prems(1) by (intro exI[of _ "pm s"]) (simp add: copyout.simps)
  next
    case False
    let ?u = "uaddr (pm s) pt"
    define n where "n = min (page_room va) (length src)"
    have n: "0 < n" "n \<le> length src" using page_room_pos False by (auto simp: n_def)
    obtain p where p: "?u va = Some p" using uaddr_first[OF less.prems(3)] False by auto
    have c: "?u (va + i) = Some (p + i)" if "i < n" for i
      using chunk_addr[OF less.prems(3), of i] p that by (simp add: n_def)
    define s1 where "s1 = s\<lparr>pm := store_bytes (pm s) p (take n src)\<rparr>"
    have st: "pt_inv s1 pt ps" "user_sep (pm s1) pt ps" "uaddr (pm s1) pt = ?u"
      using store_user[OF less.prems(1,2), of "take n src" va p] c n(2) by (auto simp: s1_def)
    have w: "walkaddr pt (PGROUNDDOWN va) s = Inr (p - va mod 4096, s)" using walkaddr_run[OF less.prems(1), of va] p by simp
    have pm: "va mod 4096 < p" by (rule uaddr_mod[OF p])
    have run: "copyout pt va src s = copyout pt (PGROUNDDOWN va + PGSIZE) (drop n src) s1"
      unfolding copyout.simps[of pt va src] using False w pm
      by (simp add: Let_def page_room_eq(2) n_def[symmetric] s1_def)
    have ih: "\<exists>m. copyout pt (PGROUNDDOWN va + PGSIZE) (drop n src) s1 = Inr (0, s1\<lparr>pm := m\<rparr>) \<and>
      pt_inv (s1\<lparr>pm := m\<rparr>) pt ps \<and> uaddr m pt = ?u \<and>
      (\<forall>i < length src - n. m (the (?u (va + n + i))) = src ! (n + i)) \<and>
      (\<forall>x. (\<forall>i < length src - n. ?u (va + n + i) \<noteq> Some x) \<longrightarrow> m x = pm s1 x)"
    proof (cases "n < length src")
      case True
      have ad: "PGROUNDDOWN va + PGSIZE = va + n" by (rule rest_addr[OF n_def True])
      have "user_range (pm s1) pt (va + n) (length (drop n src))"
        using user_range_rest[OF less.prems(3) n(2)] user_range_cong[OF st(3)] by simp
      from less.hyps[OF _ st(1,2) this] n show ?thesis unfolding ad st(3) by simp
    next
      case False
      then show ?thesis using st n by (intro exI[of _ "pm s1"]) (simp add: copyout.simps)
    qed
    then obtain m where m: "copyout pt (PGROUNDDOWN va + PGSIZE) (drop n src) s1 = Inr (0, s1\<lparr>pm := m\<rparr>)"
      "pt_inv (s1\<lparr>pm := m\<rparr>) pt ps" "uaddr m pt = ?u" "\<And>i. i < length src - n \<Longrightarrow> m (the (?u (va + n + i))) = src ! (n + i)"
      "\<And>x. (\<forall>i < length src - n. ?u (va + n + i) \<noteq> Some x) \<Longrightarrow> m x = pm s1 x" by blast
    have inj: "va' = vb" if "?u va' = Some q" "?u vb = Some q" for va' vb q
      using less.prems(2) that unfolding user_sep_def by blast
    have "m (the (?u (va + i))) = src ! i" if i: "i < length src" for i
    proof (cases "i < n")
      case True
      have "m (p + i) = pm s1 (p + i)"
        by (rule m(5)) (use inj[OF c[OF True]] True in fastforce)
      then show ?thesis using c[OF True] True n(2) by (simp add: s1_def store_bytes_def)
    next
      case False
      then show ?thesis using m(4)[of "i - n"] i by simp
    qed
    moreover have "m x = pm s x" if x: "\<forall>i < length src. ?u (va + i) \<noteq> Some x" for x
    proof -
      have "?u (va + n + i) \<noteq> Some x" if "i < length src - n" for i using x[rule_format, of "n + i"] that by (simp add: add.assoc)
      then have "m x = pm s1 x" using m(5) by blast
      moreover have "\<not> (p \<le> x \<and> x < p + n)"
      proof
        assume "p \<le> x \<and> x < p + n"
        then obtain i where "x = p + i" "i < n" by (metis le_add_diff_inverse nat_add_left_cancel_less)
        then show False using x[rule_format, of i] c[of i] n(2) by simp
      qed
      ultimately show ?thesis using n(2) by (auto simp: s1_def intro!: store_bytes_other)
    qed
    ultimately show ?thesis using m(1-3) run by (intro exI[of _ m]) (simp add: s1_def)
  qed
qed

section \<open>Properties\<close>

text \<open>
  C26. \<^verbatim>\<open>mappages\<close> on a well-formed page table and an unmapped range maps the pages of the range in
  order to the pages from \<open>pa\<close> on, with the permissions asked for, and changes no other leaf
  entry and no memory outside page-table pages. It fails only when the free list is empty,
  having found fewer than two free pages for each page of the range.
\<close>

theorem mappages_translates:
  assumes "pt_inv s pt ps" "0 < sz" "va + sz \<le> MAXVA"
    "\<forall>vb. PGROUNDDOWN va \<le> vb \<and> vb < PGROUNDDOWN (va + sz - 1) + PGSIZE \<longrightarrow> leaf (pm s) pt vb AND PTE_V = 0"
  shows "\<exists>r s' ps' k. mappages pt va sz pa perm s = Inr (r, s') \<and> pt_inv s' pt ps' \<and>
    (r = 0 \<and> PGROUNDDOWN va + k * PGSIZE = PGROUNDDOWN (va + sz - 1) + PGSIZE \<or>
     r = - 1 \<and> ps' = [] \<and> length ps < 2 * Suc ((va + sz - 1) div 4096 - va div 4096)) \<and>
    (\<forall>vb < MAXVA. leaf (pm s') pt vb =
       (if PGROUNDDOWN va \<le> vb \<and> vb < PGROUNDDOWN va + k * PGSIZE
        then PA2PTE (pa + (vb - PGROUNDDOWN va) div PGSIZE * PGSIZE) OR perm OR PTE_V else leaf (pm s) pt vb)) \<and>
    (\<forall>x. (\<forall>t \<in> tables (pm s') pt. \<not> in_page t x) \<longrightarrow> pm s' x = pm s x)"
  using mappages_run[where pa = pa and perm = perm, OF assms(1-3)] assms(4) unfolding pt_ext_def mapped_leaf_def by blast

theorem mappages_translates_witness:
  "\<exists>s r s' ps' k. pt_inv (s :: phys) 2281697280 [2281693184, 2281689088, 2281684992] \<and>
    mappages 2281697280 5000 10 0x10000000 (PTE_R OR PTE_W) s = Inr (r, s') \<and> pt_inv s' 2281697280 ps' \<and>
    (r = 0 \<and> 4096 + k * PGSIZE = 8192 \<or> r = - 1 \<and> ps' = [] \<and> length [2281693184, 2281689088, 2281684992 :: nat] < 2)"
proof -
  obtain s :: phys where s: "pt_inv s 2281697280 [2281693184, 2281689088, 2281684992]" "\<And>va. leaf (pm s) 2281697280 va = 0"
    by (rule four_page_table) (rule that)
  have d: "PGROUNDDOWN 5000 = 4096" "PGROUNDDOWN (5000 + 10 - 1) = 4096" by (simp_all add: PGROUNDDOWN_def)
  have b: "(0::nat) < 10" "5000 + 10 \<le> MAXVA" by (simp_all add: MAXVA_def)
  have "\<forall>vb. PGROUNDDOWN 5000 \<le> vb \<and> vb < PGROUNDDOWN (5000 + 10 - 1) + PGSIZE \<longrightarrow> leaf (pm s) 2281697280 vb AND PTE_V = 0"
    using s(2) by simp
  from mappages_translates[where pa = "0x10000000" and perm = "PTE_R OR PTE_W", OF s(1) b this] obtain r s' ps' k where
    "mappages 2281697280 5000 10 0x10000000 (PTE_R OR PTE_W) s = Inr (r, s')" "pt_inv s' 2281697280 ps'"
    "r = 0 \<and> PGROUNDDOWN 5000 + k * PGSIZE = PGROUNDDOWN (5000 + 10 - 1) + PGSIZE \<or>
     r = - 1 \<and> ps' = [] \<and> length [2281693184, 2281689088, 2281684992 :: nat] < 2 * Suc ((5000 + 10 - 1) div 4096 - 5000 div 4096)"
    by blast
  with s(1) show ?thesis unfolding d by (intro exI[of _ s] exI[of _ r] exI[of _ s'] exI[of _ ps'] exI[of _ k]) (auto simp: PGSIZE_def)
qed

text \<open>
  C27. Unmapping with \<^verbatim>\<open>uvmunmap\<close> what \<^verbatim>\<open>mappages\<close> mapped restores every leaf entry of the address
  space; with two free pages for each page mapped neither operation fails or panics.
\<close>

theorem mappages_uvmunmap:
  assumes "pt_inv s pt ps" "a mod PGSIZE = 0" "0 < n" "a + n * PGSIZE \<le> MAXVA" "2 * n \<le> length ps"
    "\<forall>vb. a \<le> vb \<and> vb < a + n * PGSIZE \<longrightarrow> leaf (pm s) pt vb = 0" "PTE_FLAGS perm = perm" "perm OR PTE_V \<noteq> PTE_V"
  shows "\<exists>s1 s2. mappages pt a (n * PGSIZE) pa perm s = Inr (0, s1) \<and> uvmunmap pt a n False s1 = Inr ((), s2) \<and>
    (\<forall>i < n. leaf (pm s1) pt (a + i * PGSIZE) = PA2PTE (pa + i * PGSIZE) OR perm OR PTE_V) \<and>
    (\<forall>vb < MAXVA. leaf (pm s2) pt vb = leaf (pm s) pt vb)"
proof -
  have am: "a mod 4096 = 0" using assms(2) by (simp add: PGSIZE_def)
  have d: "PGROUNDDOWN a = a" using PGROUNDDOWN_aligned[OF am, of 0] by simp
  obtain k where k: "n = Suc k" using assms(3) by (cases n) auto
  have am': "(a + k * PGSIZE) mod 4096 = 0" using am by (simp add: PGSIZE_def)
  have sp: "a + n * PGSIZE - 1 = (a + k * PGSIZE) + 4095" by (simp add: k PGSIZE_def)
  have dd: "PGROUNDDOWN (a + n * PGSIZE - 1) = a + k * PGSIZE" unfolding sp by (rule PGROUNDDOWN_aligned[OF am']) simp
  have cnt: "Suc ((a + n * PGSIZE - 1) div 4096 - a div 4096) = n"
    using arg_cong[OF dd, of "\<lambda>x. x div 4096"] k by (simp add: PGROUNDDOWN_def PGSIZE_def)
  have sz: "0 < n * PGSIZE" using assms(3) by (simp add: PGSIZE_def)
  have fr: "leaf (pm s) pt vb AND PTE_V = 0" if "PGROUNDDOWN a \<le> vb" "vb < PGROUNDDOWN (a + n * PGSIZE - 1) + PGSIZE" for vb
    using assms(6) that d dd k by simp
  from mappages_run[where pa = pa and perm = perm, OF assms(1) sz assms(4) fr] assms(5) cnt d dd k obtain s1 ps1 j where
    m: "mappages pt a (n * PGSIZE) pa perm s = Inr (0, s1)" "pt_ext pt s ps s1 ps1" "a + j * PGSIZE = a + k * PGSIZE + PGSIZE"
      "\<And>vb. vb < MAXVA \<Longrightarrow> leaf (pm s1) pt vb = mapped_leaf (leaf (pm s) pt) a j pa perm vb" by auto
  have j: "j = n" using m(3) k by (simp add: PGSIZE_def)
  have lf: "leaf (pm s1) pt (a + i * PGSIZE) = PA2PTE (pa + i * PGSIZE) OR (perm OR PTE_V)" if "i < n" for i
  proof -
    have "a + i * PGSIZE < MAXVA" using that assms(4) by (simp add: PGSIZE_def)
    from m(4)[OF this] that j show ?thesis by (simp add: mapped_leaf_def PGSIZE_def or.assoc)
  qed
  have f: "PTE_FLAGS (perm OR PTE_V) = perm OR PTE_V" using assms(7) by (simp add: flags_or flags_V)
  have ev: "leaf (pm s1) pt (a + i * PGSIZE) AND PTE_V \<noteq> 0 \<and> PTE_FLAGS (leaf (pm s1) pt (a + i * PGSIZE)) \<noteq> PTE_V" if "i < n" for i
    unfolding lf[OF that] PTE_FLAGS_pte[OF f] using assms(8) V_valid[of "PA2PTE (pa + i * PGSIZE) OR perm"] by (simp add: or.assoc)
  have inv1: "pt_inv s1 pt ps1" using m(2) by (simp add: pt_ext_def)
  from unmap_loop_run[where b = False, OF inv1 am assms(4) ev] obtain s2 where
    s2: "unmap_loop pt False n a s1 = Inr ((), s2)" "\<And>vb. vb < MAXVA \<Longrightarrow> leaf (pm s2) pt vb = cleared_leaf (leaf (pm s1) pt) a n vb"
    by auto
  have "leaf (pm s2) pt vb = leaf (pm s) pt vb" if "vb < MAXVA" for vb
    using s2(2)[OF that] m(4)[OF that] assms(6) j by (auto simp: cleared_leaf_def mapped_leaf_def)
  moreover have "uvmunmap pt a n False s1 = Inr ((), s2)" using assms(2) s2(1) by (simp add: uvmunmap_def)
  ultimately show ?thesis using m(1) lf by (intro exI[of _ s1] exI[of _ s2]) (simp add: or.assoc)
qed

theorem mappages_uvmunmap_witness:
  "\<exists>s s1 s2. pt_inv (s :: phys) 2281697280 [2281693184, 2281689088, 2281684992] \<and>
    mappages 2281697280 8192 (1 * PGSIZE) 0x10000000 (PTE_R OR PTE_W) s = Inr (0, s1) \<and>
    uvmunmap 2281697280 8192 1 False s1 = Inr ((), s2) \<and> leaf (pm s2) 2281697280 8192 = 0"
proof -
  obtain s :: phys where s: "pt_inv s 2281697280 [2281693184, 2281689088, 2281684992]" "\<And>va. leaf (pm s) 2281697280 va = 0"
    by (rule four_page_table) (rule that)
  have "(8192 :: nat) mod PGSIZE = 0" "(0 :: nat) < 1" "8192 + 1 * PGSIZE \<le> MAXVA" "2 * 1 \<le> length [2281693184, 2281689088, 2281684992 :: nat]"
    "\<forall>vb. 8192 \<le> vb \<and> vb < 8192 + 1 * PGSIZE \<longrightarrow> leaf (pm s) 2281697280 vb = 0"
    "PTE_FLAGS (PTE_R OR PTE_W) = PTE_R OR PTE_W" "(PTE_R OR PTE_W) OR PTE_V \<noteq> PTE_V"
    using s(2) by (simp_all add: PGSIZE_def MAXVA_def PTE_FLAGS_def PTE_R_def PTE_W_def PTE_V_def)
  from mappages_uvmunmap[where pa = "0x10000000", OF s(1) this] s show ?thesis by (auto simp: MAXVA_def)
qed

text \<open>
  C13. Bytes that \<^verbatim>\<open>copyout\<close> writes to a mapped user range are the bytes that \<^verbatim>\<open>copyin\<close> reads back from
  it, across page boundaries; no other user byte changes, and the page table stays the same.
\<close>

theorem copyout_copyin:
  assumes "pt_inv s pt ps" "user_sep (pm s) pt ps" "user_range (pm s) pt va (length src)"
  shows "\<exists>s'. copyout pt va src s = Inr (0, s') \<and> copyin pt va (length src) s' = Inr ((0, src), s') \<and>
    uaddr (pm s') pt = uaddr (pm s) pt \<and>
    (\<forall>vb p. uaddr (pm s) pt vb = Some p \<and> \<not> (va \<le> vb \<and> vb < va + length src) \<longrightarrow> pm s' p = pm s p)"
proof -
  let ?u = "uaddr (pm s) pt"
  obtain m where m: "copyout pt va src s = Inr (0, s\<lparr>pm := m\<rparr>)" "pt_inv (s\<lparr>pm := m\<rparr>) pt ps" "uaddr m pt = ?u"
    "\<And>i. i < length src \<Longrightarrow> m (the (?u (va + i))) = src ! i"
    "\<And>x. (\<forall>i < length src. ?u (va + i) \<noteq> Some x) \<Longrightarrow> m x = pm s x" using copyout_run[OF assms] by blast
  have "user_range m pt va (length src)" using assms(3) user_range_cong[OF m(3)] by simp
  then have c: "copyin pt va (length src) (s\<lparr>pm := m\<rparr>) = Inr ((0, ubytes m pt va (length src)), s\<lparr>pm := m\<rparr>)"
    using copyin_run[OF m(2)] by simp
  have "ubytes m pt va (length src) = src"
    by (rule nth_equalityI) (simp_all add: ubytes_nth m(3,4) ubytes_def)
  moreover have "m p = pm s p" if "?u vb = Some p" "\<not> (va \<le> vb \<and> vb < va + length src)" for vb p
  proof (rule m(5), intro allI impI notI)
    fix i assume "i < length src" "?u (va + i) = Some p"
    then show False using assms(2) that unfolding user_sep_def by fastforce
  qed
  ultimately show ?thesis using m(1,3) c by auto
qed

lemma one_page_space:
  obtains s :: phys and ps where "pt_inv s 2281697280 ps" "user_sep (pm s) 2281697280 ps"
    "\<And>va. uaddr (pm s) 2281697280 va = (if va < 4096 then Some (2281693184 + va) else None)"
proof -
  let ?pt = "2281697280 :: nat" let ?p = "2281693184 :: nat"
  obtain s :: phys where s: "pt_inv s ?pt [?p, 2281689088, 2281684992]" "\<And>va. leaf (pm s) ?pt va = 0"
    by (rule four_page_table) (rule that)
  obtain s1 :: phys where s1: "page_addr (kend s) ?p" "?p \<notin> set [2281689088, 2281684992]" "?p \<notin> tables (pm s) ?pt"
    "pt_inv s1 ?pt [2281689088, 2281684992]" "kend s1 = kend s" "tables (pm s1) ?pt = tables (pm s) ?pt"
    "\<And>vb. vb < MAXVA \<Longrightarrow> leaf (pm s1) ?pt vb = 0"
  proof (rule fresh_page[OF s(1)])
    fix s' :: phys assume "page_addr (kend s) ?p" "?p \<notin> set [2281689088, 2281684992]" "?p \<notin> tables (pm s) ?pt"
      "pt_inv s' ?pt [2281689088, 2281684992]" "kend s' = kend s" "tables (pm s') ?pt = tables (pm s) ?pt"
      "\<And>vb. vb < MAXVA \<Longrightarrow> leaf (pm s') ?pt vb = leaf (pm s) ?pt vb"
    then show thesis by (intro that[of s']) (simp_all add: s(2))
  qed
  have q1: "page_addr (kend s1) ?p" "?p \<notin> tables (pm s1) ?pt" using s1 by simp_all
  have z: "leaf (pm s1) ?pt 0 = 0" using s1(7)[of 0] by (simp add: MAXVA_def)
  let ?perm = "PTE_R OR PTE_W OR PTE_U"
  obtain s2 :: phys and ps2 where s2: "pt_ext ?pt s1 [2281689088, 2281684992] s2 ps2"
    "\<And>vb. vb < MAXVA \<Longrightarrow> leaf (pm s2) ?pt vb = (if vb div 4096 = 0 then PA2PTE ?p OR ?perm OR PTE_V else leaf (pm s1) ?pt vb)"
    by (rule map_one[OF s1(4) _ _ z, where pa = ?p and perm = ?perm]) (auto simp: MAXVA_def PGSIZE_def intro: that)
  have dec: "PTE2PA (PA2PTE ?p OR (?perm OR PTE_V)) = ?p"
    by (rule PTE2PA_PA2PTE) (simp_all add: PTE_FLAGS_def PTE_R_def PTE_W_def PTE_U_def PTE_V_def)
  have bits: "(PA2PTE ?p OR ?perm OR PTE_V) AND PTE_V \<noteq> 0" "(PA2PTE ?p OR ?perm OR PTE_V) AND PTE_U \<noteq> 0"
    by (simp_all add: PA2PTE_def PTE_R_def PTE_W_def PTE_U_def PTE_V_def)
  have u: "uaddr (pm s2) ?pt va = (if va < 4096 then Some (?p + va) else None)" for va
    using s2(2)[of va] s1(7)[of va] bits dec
    by (cases "va < 4096") (auto simp: uaddr_def Let_def or.assoc MAXVA_def div_eq_0_iff)
  have k: "page_addr (kend s2) ?p" "?p \<notin> set ps2" "?p \<notin> tables (pm s2) ?pt"
    by (rule ext_keep[OF s2(1) q1(1) s1(2) q1(2)])+
  have i2: "pt_inv s2 ?pt ps2" using s2(1) by (simp add: pt_ext_def)
  have "\<not> in_page t (?p + va)" if "t \<in> tables (pm s2) ?pt \<union> set ps2" "va < 4096" for t va
    using in_page_apart[OF k(1), of "kend s2" t "?p + va"] that i2 k(2,3) by (auto simp: in_page_def PGSIZE_def pt_inv_def kmem_inv_def)
  then have "user_sep (pm s2) ?pt ps2" by (auto simp: user_sep_def u split: if_splits)
  then show thesis using that i2 u by blast
qed

theorem copyout_copyin_witness:
  "\<exists>s s'. copyout 2281697280 100 [1, 2, 3] (s :: phys) = Inr (0, s') \<and> copyin 2281697280 100 3 s' = Inr ((0, [1, 2, 3]), s')"
proof -
  obtain s :: phys and ps where s: "pt_inv s 2281697280 ps" "user_sep (pm s) 2281697280 ps"
    "\<And>va. uaddr (pm s) 2281697280 va = (if va < 4096 then Some (2281693184 + va) else None)"
    by (rule one_page_space) (rule that)
  have "user_range (pm s) 2281697280 100 (length [1, 2, 3 :: byte])" by (simp add: user_range_def s(3))
  moreover have l: "length [1, 2, 3 :: byte] = 3" by simp
  ultimately show ?thesis using copyout_copyin[OF s(1,2), of 100 "[1, 2, 3]"] unfolding l by blast
qed

end
