(* ===== verification/Spinlock.thy ===== *)
theory Spinlock
  imports Kalloc
begin

text \<open>
  Spin locks, \<^verbatim>\<open>kernel/spinlock.c\<close>. The operations run on the state of the processors (the
  nesting depth of \<^verbatim>\<open>push_off\<close> and the interrupt flags) and on one lock; a lock that another
  processor holds makes \<^verbatim>\<open>acquire\<close> spin, a value of the error type. The step relation
  \<open>spin_step\<close> runs the atomic steps of \<^verbatim>\<open>acquire\<close> and \<^verbatim>\<open>release\<close> of all processors in any order.
\<close>

record cpu =
  noff :: int
  intena :: bool
  sie :: bool         \<comment> \<open>the supervisor interrupt-enable bit that \<^verbatim>\<open>intr_get\<close> reads\<close>

record spinlock =
  locked :: "32 word"
  lkcpu :: "nat option"

record locking =
  cpus :: "nat \<Rightarrow> cpu"
  lck :: spinlock

type_synonym 'a lprog = "(locking, kerr, 'a) comp"

definition mycpu :: "nat \<Rightarrow> (cpu \<Rightarrow> 'a) \<Rightarrow> 'a lprog" where
  "mycpu c f = gets (\<lambda>s. f (cpus s c))"

definition cpu_upd :: "nat \<Rightarrow> (cpu \<Rightarrow> cpu) \<Rightarrow> unit lprog" where
  "cpu_upd c f = upd (\<lambda>s. s\<lparr>cpus := (cpus s)(c := f (cpus s c))\<rparr>)"

definition lock_upd :: "(spinlock \<Rightarrow> spinlock) \<Rightarrow> unit lprog" where
  "lock_upd f = upd (\<lambda>s. s\<lparr>lck := f (lck s)\<rparr>)"

definition initlock :: "unit lprog" where
  "initlock = lock_upd (\<lambda>l. l\<lparr>locked := 0, lkcpu := None\<rparr>)"

definition intr_off :: "nat \<Rightarrow> unit lprog" where
  "intr_off c = cpu_upd c (\<lambda>p. p\<lparr>sie := False\<rparr>)"

definition intr_on :: "nat \<Rightarrow> unit lprog" where
  "intr_on c = cpu_upd c (\<lambda>p. p\<lparr>sie := True\<rparr>)"

definition push_off :: "nat \<Rightarrow> unit lprog" where
  "push_off c = bnd (mycpu c sie) (\<lambda>old.
     sq (intr_off c)
     (bnd (mycpu c noff) (\<lambda>n.
     sq (if n = 0 then cpu_upd c (\<lambda>p. p\<lparr>intena := old\<rparr>) else ret ())
     (cpu_upd c (\<lambda>p. p\<lparr>noff := noff p + 1\<rparr>)))))"

definition pop_off :: "nat \<Rightarrow> unit lprog" where
  "pop_off c = bnd (mycpu c sie) (\<lambda>i. if i then panic ''pop_off - interruptible'' else
     bnd (mycpu c noff) (\<lambda>n. if n < 1 then panic ''pop_off'' else
     sq (cpu_upd c (\<lambda>p. p\<lparr>noff := noff p - 1\<rparr>))
     (bnd (mycpu c intena) (\<lambda>e. if n - 1 = 0 \<and> e then intr_on c else ret ()))))"

definition holding :: "nat \<Rightarrow> bool lprog" where
  "holding c = gets (\<lambda>s. locked (lck s) \<noteq> 0 \<and> lkcpu (lck s) = Some c)"

text \<open>The atomic swap of \<^verbatim>\<open>__sync_lock_test_and_set\<close>.\<close>

definition test_and_set :: "32 word lprog" where
  "test_and_set = bnd (gets (\<lambda>s. locked (lck s))) (\<lambda>old. sq (lock_upd (\<lambda>l. l\<lparr>locked := 1\<rparr>)) (ret old))"

definition acquire :: "nat \<Rightarrow> unit lprog" where
  "acquire c = sq (push_off c)
     (bnd (holding c) (\<lambda>h. if h then panic ''acquire'' else
     bnd test_and_set (\<lambda>old. if old \<noteq> 0 then fail (Sleeps ''spin'') else
     lock_upd (\<lambda>l. l\<lparr>lkcpu := Some c\<rparr>))))"

definition release :: "nat \<Rightarrow> unit lprog" where
  "release c = bnd (holding c) (\<lambda>h. if \<not> h then panic ''release'' else
     sq (lock_upd (\<lambda>l. l\<lparr>lkcpu := None\<rparr>))
     (sq (lock_upd (\<lambda>l. l\<lparr>locked := 0\<rparr>))
     (pop_off c)))"

section \<open>Sequential behaviour\<close>

text \<open>The nesting discipline that \<^verbatim>\<open>push_off\<close> and \<^verbatim>\<open>pop_off\<close> keep.\<close>

definition cpu_ok :: "cpu \<Rightarrow> bool" where
  "cpu_ok p \<longleftrightarrow> 0 \<le> noff p \<and> (0 < noff p \<longrightarrow> \<not> sie p)"

definition pushed :: "cpu \<Rightarrow> cpu" where
  "pushed p = p\<lparr>sie := False, intena := (if noff p = 0 then sie p else intena p), noff := noff p + 1\<rparr>"

definition popped :: "cpu \<Rightarrow> cpu" where
  "popped p = p\<lparr>noff := noff p - 1, sie := (noff p = 1 \<and> intena p)\<rparr>"

lemma push_off_run: "push_off c s = Inr ((), s\<lparr>cpus := (cpus s)(c := pushed (cpus s c))\<rparr>)"
  by (simp add: push_off_def run_simps mycpu_def intr_off_def cpu_upd_def pushed_def)

lemma pop_off_run:
  "cpu_ok (cpus s c) \<Longrightarrow> 0 < noff (cpus s c) \<Longrightarrow> pop_off c s = Inr ((), s\<lparr>cpus := (cpus s)(c := popped (cpus s c))\<rparr>)"
  by (cases "cpus s c") (auto simp: pop_off_def run_simps mycpu_def intr_on_def cpu_upd_def popped_def cpu_ok_def)

lemma pushed_ok: "cpu_ok p \<Longrightarrow> cpu_ok (pushed p) \<and> 0 < noff (pushed p) \<and> \<not> sie (pushed p)"
  by (simp add: cpu_ok_def pushed_def)

lemma popped_ok: "cpu_ok p \<Longrightarrow> 0 < noff p \<Longrightarrow> cpu_ok (popped p)"
  by (simp add: cpu_ok_def popped_def)

lemma popped_pushed: "cpu_ok p \<Longrightarrow> popped (pushed p) = p\<lparr>intena := (if noff p = 0 then sie p else intena p)\<rparr>"
  by (cases p) (auto simp: popped_def pushed_def cpu_ok_def)

section \<open>Interleaving\<close>

text \<open>
  Where a processor is: outside, spinning in \<^verbatim>\<open>acquire\<close>, past the atomic swap, in its critical
  section, and in \<^verbatim>\<open>release\<close> before and after the lock is given up.
\<close>

datatype lpc = Out | Spin | Got | Crit | Rel | Popping

inductive spin_step :: "(nat \<Rightarrow> lpc) \<times> locking \<Rightarrow> (nat \<Rightarrow> lpc) \<times> locking \<Rightarrow> bool" where
  enter: "pc c = Out \<Longrightarrow> push_off c s = Inr ((), s') \<Longrightarrow> holding c s' = Inr (False, s') \<Longrightarrow>
    spin_step (pc, s) (pc(c := Spin), s')"
| spin: "pc c = Spin \<Longrightarrow> test_and_set s = Inr (old, s') \<Longrightarrow> old \<noteq> 0 \<Longrightarrow> spin_step (pc, s) (pc, s')"
| got: "pc c = Spin \<Longrightarrow> test_and_set s = Inr (old, s') \<Longrightarrow> old = 0 \<Longrightarrow> spin_step (pc, s) (pc(c := Got), s')"
| record_cpu: "pc c = Got \<Longrightarrow> lock_upd (\<lambda>l. l\<lparr>lkcpu := Some c\<rparr>) s = Inr ((), s') \<Longrightarrow> spin_step (pc, s) (pc(c := Crit), s')"
| clear_cpu: "pc c = Crit \<Longrightarrow> holding c s = Inr (True, s) \<Longrightarrow> lock_upd (\<lambda>l. l\<lparr>lkcpu := None\<rparr>) s = Inr ((), s') \<Longrightarrow>
    spin_step (pc, s) (pc(c := Rel), s')"
| unlock: "pc c = Rel \<Longrightarrow> lock_upd (\<lambda>l. l\<lparr>locked := 0\<rparr>) s = Inr ((), s') \<Longrightarrow> spin_step (pc, s) (pc(c := Popping), s')"
| pop: "pc c = Popping \<Longrightarrow> pop_off c s = Inr ((), s') \<Longrightarrow> spin_step (pc, s) (pc(c := Out), s')"

fun owns :: "lpc \<Rightarrow> bool" where
  "owns Got = True" | "owns Crit = True" | "owns Rel = True" | "owns _ = False"

text \<open>The invariant, with the processor \<open>ow\<close> that has the lock.\<close>

definition spin_inv :: "nat option \<Rightarrow> (nat \<Rightarrow> lpc) \<times> locking \<Rightarrow> bool" where
  "spin_inv ow x \<longleftrightarrow> (case x of (pc, s) \<Rightarrow>
     (\<forall>c. owns (pc c) \<longleftrightarrow> ow = Some c) \<and> (locked (lck s) \<noteq> 0 \<longleftrightarrow> ow \<noteq> None) \<and>
     (\<forall>c. lkcpu (lck s) = Some c \<longleftrightarrow> pc c = Crit) \<and>
     (\<forall>c. cpu_ok (cpus s c)) \<and> (\<forall>c. pc c \<noteq> Out \<longrightarrow> 0 < noff (cpus s c)))"

lemma spin_step_inv: "spin_step x y \<Longrightarrow> spin_inv ow x \<Longrightarrow> \<exists>ow'. spin_inv ow' y"
proof (induction rule: spin_step.induct)
  case (enter pc c s s')
  then have s': "s' = s\<lparr>cpus := (cpus s)(c := pushed (cpus s c))\<rparr>" by (simp add: push_off_run)
  have "ow \<noteq> Some c" using enter.prems enter.hyps(1) by (auto simp: spin_inv_def dest: spec[of _ c])
  then have "spin_inv ow (pc(c := Spin), s')"
    using enter.prems enter.hyps(1) pushed_ok[of "cpus s c"] by (auto simp: spin_inv_def s')
  then show ?case ..
next
  case (spin pc c s old s')
  then have "s' = s\<lparr>lck := (lck s)\<lparr>locked := 1\<rparr>\<rparr>" "locked (lck s) \<noteq> 0"
    by (auto simp: test_and_set_def run_simps lock_upd_def)
  then have "spin_inv ow (pc, s')" using spin.prems by (auto simp: spin_inv_def)
  then show ?case ..
next
  case (got pc c s old s')
  then have s': "s' = s\<lparr>lck := (lck s)\<lparr>locked := 1\<rparr>\<rparr>" "ow = None"
    by (auto simp: test_and_set_def run_simps lock_upd_def spin_inv_def)
  then have "spin_inv (Some c) (pc(c := Got), s')"
    using got.prems got.hyps(1) by (auto simp: spin_inv_def)
  then show ?case ..
next
  case (record_cpu pc c s s')
  then have s': "s' = s\<lparr>lck := (lck s)\<lparr>lkcpu := Some c\<rparr>\<rparr>" by (simp add: run_simps lock_upd_def)
  have o: "ow = Some c" using record_cpu by (auto simp: spin_inv_def dest: spec[of _ c])
  then have "pc d \<noteq> Crit" if "d \<noteq> c" for d using record_cpu.prems that by (auto simp: spin_inv_def dest: spec[of _ d])
  then have "spin_inv ow (pc(c := Crit), s')" using record_cpu.prems record_cpu.hyps(1) o by (auto simp: spin_inv_def s')
  then show ?case ..
next
  case (clear_cpu pc c s s')
  then have s': "s' = s\<lparr>lck := (lck s)\<lparr>lkcpu := None\<rparr>\<rparr>" by (simp add: run_simps lock_upd_def)
  have o: "ow = Some c" using clear_cpu by (auto simp: spin_inv_def dest: spec[of _ c])
  then have "pc d \<noteq> Crit" if "d \<noteq> c" for d using clear_cpu.prems that by (auto simp: spin_inv_def dest: spec[of _ d])
  then have "spin_inv ow (pc(c := Rel), s')" using clear_cpu.prems clear_cpu.hyps(1) o by (auto simp: spin_inv_def s')
  then show ?case ..
next
  case (unlock pc c s s')
  then have s': "s' = s\<lparr>lck := (lck s)\<lparr>locked := 0\<rparr>\<rparr>" by (simp add: run_simps lock_upd_def)
  have "ow = Some c" using unlock by (auto simp: spin_inv_def dest: spec[of _ c])
  then have "spin_inv None (pc(c := Popping), s')" using unlock.prems unlock.hyps(1) by (auto simp: spin_inv_def s')
  then show ?case ..
next
  case (pop pc c s s')
  have ok: "cpu_ok (cpus s c)" "0 < noff (cpus s c)" using pop by (auto simp: spin_inv_def)
  then have s': "s' = s\<lparr>cpus := (cpus s)(c := popped (cpus s c))\<rparr>" using pop pop_off_run by simp
  have "ow \<noteq> Some c" using pop.prems pop.hyps(1) by (auto simp: spin_inv_def dest: spec[of _ c])
  then have "spin_inv ow (pc(c := Out), s')"
    using pop.prems pop.hyps(1) popped_ok[OF ok] by (auto simp: spin_inv_def s')
  then show ?case ..
qed

definition spin_init :: "locking \<Rightarrow> bool" where
  "spin_init s \<longleftrightarrow> locked (lck s) = 0 \<and> lkcpu (lck s) = None \<and> (\<forall>c. cpu_ok (cpus s c))"

lemma spin_reach:
  assumes "spin_init s" "spin_step\<^sup>*\<^sup>* (\<lambda>_. Out, s) x"
  shows "\<exists>ow. spin_inv ow x"
  using assms(2)
proof (induction rule: rtranclp_induct)
  case base
  have "spin_inv None (\<lambda>_. Out, s)" using assms(1) by (simp add: spin_inv_def spin_init_def)
  then show ?case ..
next
  case (step y z)
  then show ?case using spin_step_inv by blast
qed

text \<open>
  C15. However the processors interleave, at most one of them is between the atomic swap of
  \<^verbatim>\<open>acquire\<close> and the store of \<^verbatim>\<open>release\<close> that frees the lock; that processor has interrupts off,
  and \<^verbatim>\<open>holding\<close> is true exactly on the processor that is in its critical section.
\<close>

theorem spin_mutex:
  assumes "spin_init s" "spin_step\<^sup>*\<^sup>* (\<lambda>_. Out, s) (pc, t)"
  shows "(\<forall>c d. owns (pc c) \<and> owns (pc d) \<longrightarrow> c = d) \<and> (\<forall>c. owns (pc c) \<longrightarrow> \<not> sie (cpus t c)) \<and>
    (\<forall>c. holding c t = Inr (pc c = Crit, t))"
proof -
  obtain ow where i: "spin_inv ow (pc, t)" using spin_reach[OF assms] by blast
  have "holding c t = Inr (pc c = Crit, t)" for c
  proof -
    have "pc c = Crit \<Longrightarrow> locked (lck t) \<noteq> 0" using i by (auto simp: spin_inv_def dest: spec[of _ c])
    then show ?thesis using i by (auto simp: holding_def run_simps spin_inv_def)
  qed
  moreover have "\<not> sie (cpus t c)" if "owns (pc c)" for c
  proof -
    have "pc c \<noteq> Out" using that by auto
    then show ?thesis using i by (auto simp: spin_inv_def cpu_ok_def)
  qed
  moreover have "c = d" if "owns (pc c) \<and> owns (pc d)" for c d
    using i that by (auto simp: spin_inv_def)
  ultimately show ?thesis by blast
qed

definition idle_cpus :: locking where
  "idle_cpus = \<lparr>cpus = (\<lambda>_. \<lparr>noff = 0, intena = False, sie = True\<rparr>), lck = \<lparr>locked = 0, lkcpu = None\<rparr>\<rparr>"

theorem spin_mutex_witness:
  "\<exists>pc t. spin_step\<^sup>*\<^sup>* (\<lambda>_. Out, idle_cpus) (pc, t) \<and> pc 1 = Spin \<and> (\<forall>c. holding c t = Inr (pc c = Crit, t))"
proof -
  have i: "spin_init idle_cpus" by (simp add: spin_init_def idle_cpus_def cpu_ok_def)
  define t where "t = idle_cpus\<lparr>cpus := (cpus idle_cpus)(1 := pushed (cpus idle_cpus 1))\<rparr>"
  have "spin_step (\<lambda>_. Out, idle_cpus) ((\<lambda>_. Out)(1 := Spin), t)"
    by (rule spin_step.enter) (simp_all add: push_off_run t_def holding_def run_simps idle_cpus_def)
  then have r: "spin_step\<^sup>*\<^sup>* (\<lambda>_. Out, idle_cpus) ((\<lambda>_. Out)(1 := Spin), t)" by blast
  have "((\<lambda>_. Out)(1 := Spin)) (1 :: nat) = Spin" by simp
  with spin_mutex[OF i r] r show ?thesis by blast
qed

text \<open>
  C32. \<^verbatim>\<open>acquire\<close> of a free lock succeeds and \<^verbatim>\<open>release\<close> then restores the lock, the nesting depth and the
  interrupt flag of the processor; \<^verbatim>\<open>acquire\<close> of a lock the processor holds and \<^verbatim>\<open>release\<close> of one
  it does not hold panic.
\<close>

theorem acquire_release:
  assumes "cpu_ok (cpus s c)"
  shows "(locked (lck s) = 0 \<longrightarrow> (\<exists>t u. acquire c s = Inr ((), t) \<and> holding c t = Inr (True, t) \<and> \<not> sie (cpus t c) \<and>
      release c t = Inr ((), u) \<and> lck u = (lck s)\<lparr>locked := 0, lkcpu := None\<rparr> \<and>
      noff (cpus u c) = noff (cpus s c) \<and> sie (cpus u c) = sie (cpus s c) \<and> (\<forall>d. d \<noteq> c \<longrightarrow> cpus u d = cpus s d))) \<and>
    (locked (lck s) \<noteq> 0 \<and> lkcpu (lck s) = Some c \<longrightarrow> acquire c s = Inl (Panic ''acquire'')) \<and>
    (\<not> (locked (lck s) \<noteq> 0 \<and> lkcpu (lck s) = Some c) \<longrightarrow> release c s = Inl (Panic ''release''))"
proof (intro conjI impI)
  assume l: "locked (lck s) = 0"
  let ?t = "s\<lparr>cpus := (cpus s)(c := pushed (cpus s c)), lck := (lck s)\<lparr>locked := 1, lkcpu := Some c\<rparr>\<rparr>"
  let ?u = "s\<lparr>cpus := (cpus s)(c := popped (pushed (cpus s c))), lck := (lck s)\<lparr>locked := 0, lkcpu := None\<rparr>\<rparr>"
  have p: "cpu_ok (pushed (cpus s c))" "0 < noff (pushed (cpus s c))" "\<not> sie (pushed (cpus s c))" using pushed_ok[OF assms] by auto
  have "acquire c s = Inr ((), ?t)"
    using l by (simp add: acquire_def bnd_def sq_def gets_def upd_def ret_def push_off_run holding_def test_and_set_def lock_upd_def)
  moreover have "release c ?t = Inr ((), ?u)"
    using p by (simp add: release_def run_simps holding_def lock_upd_def pop_off_run)
  moreover have "sie (popped (pushed (cpus s c))) = sie (cpus s c)"
    using assms by (auto simp: popped_def pushed_def cpu_ok_def)
  ultimately show "\<exists>t u. acquire c s = Inr ((), t) \<and> holding c t = Inr (True, t) \<and> \<not> sie (cpus t c) \<and>
      release c t = Inr ((), u) \<and> lck u = (lck s)\<lparr>locked := 0, lkcpu := None\<rparr> \<and>
      noff (cpus u c) = noff (cpus s c) \<and> sie (cpus u c) = sie (cpus s c) \<and> (\<forall>d. d \<noteq> c \<longrightarrow> cpus u d = cpus s d)"
    using p(3) by (intro exI[of _ ?t] exI[of _ ?u]) (simp add: holding_def run_simps popped_pushed[OF assms])
next
  assume "locked (lck s) \<noteq> 0 \<and> lkcpu (lck s) = Some c"
  then show "acquire c s = Inl (Panic ''acquire'')"
    by (simp add: acquire_def run_simps push_off_run holding_def panic_def)
next
  assume "\<not> (locked (lck s) \<noteq> 0 \<and> lkcpu (lck s) = Some c)"
  then show "release c s = Inl (Panic ''release'')"
    by (auto simp: release_def run_simps holding_def panic_def)
qed

theorem acquire_release_witness:
  "\<exists>t u. acquire 3 idle_cpus = Inr ((), t) \<and> holding 3 t = Inr (True, t) \<and> release 3 t = Inr ((), u) \<and> sie (cpus u 3)"
  using acquire_release[of idle_cpus 3] by (auto simp: idle_cpus_def cpu_ok_def)

section \<open>Sleep locks\<close>

text \<open>
  \<^verbatim>\<open>kernel/sleeplock.c\<close>: the spin lock inside a sleep lock makes each operation one step. A
  process that finds the lock taken goes to sleep on it.
\<close>

record sleeplock =
  slocked :: bool
  spid :: int

definition initsleeplock :: sleeplock where
  "initsleeplock = \<lparr>slocked = False, spid = 0\<rparr>"

definition acquiresleep :: "int \<Rightarrow> (sleeplock, kerr, unit) comp" where
  "acquiresleep pid = bnd (gets slocked) (\<lambda>l. if l then fail (Sleeps ''sleeplock'')
     else upd (\<lambda>k. k\<lparr>slocked := True, spid := pid\<rparr>))"

definition releasesleep :: "(sleeplock, kerr, unit) comp" where
  "releasesleep = upd (\<lambda>k. k\<lparr>slocked := False, spid := 0\<rparr>)"

definition holdingsleep :: "int \<Rightarrow> (sleeplock, kerr, bool) comp" where
  "holdingsleep pid = gets (\<lambda>k. slocked k \<and> spid k = pid)"

lemma sleeplock_exclusive:
  "acquiresleep p k = Inr ((), k') \<Longrightarrow> holdingsleep p k' = Inr (True, k') \<and>
   (\<forall>q. acquiresleep q k' = Inl (Sleeps ''sleeplock'')) \<and> (\<forall>q. q \<noteq> p \<longrightarrow> holdingsleep q k' = Inr (False, k'))"
  by (auto simp: acquiresleep_def holdingsleep_def run_simps bnd_def split: if_splits)

end
