(* ===== verification/Grep.thy ===== *)
theory Grep
  imports Xv6_Base
begin

text \<open>
  \<^verbatim>\<open>user/grep.c\<close>. Patterns and lines are lists of characters without the terminating NUL. The
  system call \<^verbatim>\<open>read\<close> is a parameter: \<open>rd k\<close> is the number of bytes that call number \<open>k\<close> would like to
  return; it returns at least one byte as long as there is input and room for it.
\<close>

section \<open>The matcher\<close>

function matchhere :: "byte list \<Rightarrow> byte list \<Rightarrow> bool" and matchstar :: "byte \<Rightarrow> byte list \<Rightarrow> byte list \<Rightarrow> bool" where
  "matchhere re tx = (case re of [] \<Rightarrow> True | c # re1 \<Rightarrow>
     if re1 \<noteq> [] \<and> hd re1 = 42 then matchstar c (tl re1) tx
     else if c = 36 \<and> re1 = [] then tx = []
     else if tx \<noteq> [] \<and> (c = 46 \<or> c = hd tx) then matchhere re1 (tl tx)
     else False)"
| "matchstar c re tx = (if matchhere re tx then True
     else if tx \<noteq> [] \<and> (hd tx = c \<or> c = 46) then matchstar c re (tl tx) else False)"
  by pat_completeness auto

termination
  by (relation "measure (case_sum (\<lambda>(re, tx). 2 * (length re + length tx)) (\<lambda>(c, re, tx). 2 * (length re + length tx) + 1))")
    (auto simp: neq_Nil_conv)

declare matchhere.simps [simp del] matchstar.simps [simp del]

primrec match_loop :: "byte list \<Rightarrow> byte list \<Rightarrow> bool" where
  "match_loop re [] = matchhere re []"
| "match_loop re (t # tx) = (if matchhere re (t # tx) then True else match_loop re tx)"

definition match :: "byte list \<Rightarrow> byte list \<Rightarrow> bool" where
  "match re tx = (if re \<noteq> [] \<and> hd re = 94 then matchhere (tl re) tx else match_loop re tx)"

section \<open>The loop over the lines\<close>

text \<open>\<^verbatim>\<open>strchr(p, '\\n')\<close> in the NUL-terminated buffer: the characters before the newline.\<close>

definition find_nl :: "byte list \<Rightarrow> byte list option" where
  "find_nl p = (let l = takeWhile (\<lambda>c. c \<noteq> 10 \<and> c \<noteq> 0) p in
     if length l < length p \<and> p ! length l = 10 then Some l else None)"

lemma find_nl_shorter: "find_nl p = Some l \<Longrightarrow> length (drop (length l + 1) p) < length p"
  by (auto simp: find_nl_def Let_def split: if_splits)

text \<open>The inner loop: what is written, and the rest of the buffer.\<close>

function scan :: "byte list \<Rightarrow> byte list \<Rightarrow> byte list \<times> byte list" where
  "scan pattern p = (case find_nl p of None \<Rightarrow> ([], p) | Some l \<Rightarrow>
     let (out, rest) = scan pattern (drop (length l + 1) p) in
     (if match pattern l then l @ [10] @ out else out, rest))"
  by auto

termination
  by (relation "measure (\<lambda>(pattern, p). length p)") (auto simp: find_nl_def Let_def split: if_splits)

declare scan.simps [simp del]

definition BUFSIZE :: nat where "BUFSIZE = 1024"

text \<open>The outer loop: \<open>buf\<close> holds the \<^verbatim>\<open>m\<close> bytes left over, \<open>inp\<close> is the rest of the file.\<close>

function grep :: "byte list \<Rightarrow> (nat \<Rightarrow> nat) \<Rightarrow> nat \<Rightarrow> byte list \<Rightarrow> byte list \<Rightarrow> byte list" where
  "grep pattern rd k buf inp = (let n = min (rd k) (min (BUFSIZE - length buf - 1) (length inp)) in
     if n = 0 then []
     else let (out, rest) = scan pattern (buf @ take n inp) in out @ grep pattern rd (k + 1) rest (drop n inp))"
  by auto

termination
  by (relation "measure (\<lambda>(pattern, rd, k, buf, inp). length inp)") auto

declare grep.simps [simp del]

section \<open>What patterns mean\<close>

text \<open>A pattern is a sequence of items, each one character or a repetition, and may be anchored at the end.\<close>

datatype item = One byte | Many byte

fun pattern_items :: "byte list \<Rightarrow> item list \<times> bool" where
  "pattern_items [] = ([], False)"
| "pattern_items (c # re) = (if re \<noteq> [] \<and> hd re = 42 then (let (its, e) = pattern_items (tl re) in (Many c # its, e))
     else if c = 36 \<and> re = [] then ([], True)
     else (let (its, e) = pattern_items re in (One c # its, e)))"

definition fits :: "byte \<Rightarrow> byte \<Rightarrow> bool" where
  "fits c t \<longleftrightarrow> c = 46 \<or> c = t"

fun lang :: "item list \<Rightarrow> byte list set" where
  "lang [] = {[]}"
| "lang (One c # its) = {t # w | t w. fits c t \<and> w \<in> lang its}"
| "lang (Many c # its) = {u @ w | u w. (\<forall>t \<in> set u. fits c t) \<and> w \<in> lang its}"

definition prefix_match :: "item list \<times> bool \<Rightarrow> byte list \<Rightarrow> bool" where
  "prefix_match ie tx \<longleftrightarrow> (\<exists>w v. tx = w @ v \<and> w \<in> lang (fst ie) \<and> (snd ie \<longrightarrow> v = []))"

lemma prefix_one: "prefix_match (One c # its, e) tx \<longleftrightarrow> (tx \<noteq> [] \<and> fits c (hd tx) \<and> prefix_match (its, e) (tl tx))"
  by (cases tx) (auto simp: prefix_match_def Cons_eq_append_conv)

lemma prefix_many: "prefix_match (Many c # its, e) tx \<longleftrightarrow> (\<exists>u v. tx = u @ v \<and> (\<forall>t \<in> set u. fits c t) \<and> prefix_match (its, e) v)"
proof
  assume "prefix_match (Many c # its, e) tx"
  then obtain x v where x: "tx = x @ v" "x \<in> lang (Many c # its)" "e \<longrightarrow> v = []" by (auto simp: prefix_match_def)
  then obtain u w where h: "tx = (u @ w) @ v" "\<forall>t \<in> set u. fits c t" "w \<in> lang its" "e \<longrightarrow> v = []" by auto
  have "prefix_match (its, e) (w @ v)" using h(3,4) by (auto simp: prefix_match_def)
  then show "\<exists>u v. tx = u @ v \<and> (\<forall>t \<in> set u. fits c t) \<and> prefix_match (its, e) v" using h(1,2) by (intro exI[of _ u] exI[of _ "w @ v"]) simp
next
  assume "\<exists>u v. tx = u @ v \<and> (\<forall>t \<in> set u. fits c t) \<and> prefix_match (its, e) v"
  then obtain u w v where h: "tx = u @ w @ v" "\<forall>t \<in> set u. fits c t" "w \<in> lang its" "e \<longrightarrow> v = []" by (auto simp: prefix_match_def)
  then have "u @ w \<in> lang (Many c # its)" by auto
  then show "prefix_match (Many c # its, e) tx" unfolding prefix_match_def using h(1,4) by (intro exI[of _ "u @ w"] exI[of _ v]) simp
qed

lemma many_unfold:
  "(\<exists>u v. tx = u @ v \<and> (\<forall>t \<in> set u. fits c t) \<and> Q v) \<longleftrightarrow>
   Q tx \<or> (tx \<noteq> [] \<and> fits c (hd tx) \<and> (\<exists>u v. tl tx = u @ v \<and> (\<forall>t \<in> set u. fits c t) \<and> Q v))" (is "?l tx \<longleftrightarrow> ?r")
proof
  assume "?l tx"
  then obtain u v where h: "tx = u @ v" "\<forall>t \<in> set u. fits c t" "Q v" by blast
  show ?r
  proof (cases u)
    case (Cons x xs)
    then show ?thesis using h by auto
  qed (use h in simp)
next
  assume ?r
  then show "?l tx"
  proof
    assume "Q tx"
    then show ?thesis by (intro exI[of _ "[]"] exI[of _ tx]) simp
  next
    assume "tx \<noteq> [] \<and> fits c (hd tx) \<and> (\<exists>u v. tl tx = u @ v \<and> (\<forall>t \<in> set u. fits c t) \<and> Q v)"
    then obtain t ts u v where "tx = t # ts" "fits c t" "ts = u @ v" "\<forall>t \<in> set u. fits c t" "Q v" by (cases tx) auto
    then show ?thesis by (intro exI[of _ "t # u"] exI[of _ v]) simp
  qed
qed

lemma match_prefix:
  "matchhere re tx \<longleftrightarrow> prefix_match (pattern_items re) tx"
  "matchstar c re tx \<longleftrightarrow> (\<exists>u v. tx = u @ v \<and> (\<forall>t \<in> set u. fits c t) \<and> prefix_match (pattern_items re) v)"
proof (induction re tx and c re tx rule: matchhere_matchstar.induct)
  case (1 re tx)
  show ?case
  proof (cases re)
    case Nil
    then show ?thesis by (subst matchhere.simps) (simp add: prefix_match_def)
  next
    case (Cons c re1)
    consider "re1 \<noteq> [] \<and> hd re1 = 42" | "\<not> (re1 \<noteq> [] \<and> hd re1 = 42)" "c = 36 \<and> re1 = []" | "\<not> (re1 \<noteq> [] \<and> hd re1 = 42)" "\<not> (c = 36 \<and> re1 = [])" by blast
    then show ?thesis
    proof cases
      case 1
      obtain its e where p: "pattern_items (tl re1) = (its, e)" by fastforce
      have "matchhere re tx = matchstar c (tl re1) tx" using Cons 1 by (subst matchhere.simps) simp
      then show ?thesis using "1.IH"(1)[OF Cons 1] Cons 1 p by (simp add: prefix_many)
    next
      case 2
      then show ?thesis using Cons by (subst matchhere.simps) (auto simp: prefix_match_def)
    next
      case 3
      obtain its e where p: "pattern_items re1 = (its, e)" by fastforce
      have "matchhere re tx = (tx \<noteq> [] \<and> fits c (hd tx) \<and> matchhere re1 (tl tx))"
        using Cons 3 by (subst matchhere.simps) (auto simp: fits_def)
      then show ?thesis using "1.IH"(2)[OF Cons 3] Cons 3 p by (auto simp: prefix_one fits_def)
    qed
  qed
next
  case (2 c re tx)
  have u: "matchstar c re tx = (matchhere re tx \<or> (tx \<noteq> [] \<and> fits c (hd tx) \<and> matchstar c re (tl tx)))"
    by (subst matchstar.simps) (auto simp: fits_def)
  show ?case
  proof (cases "matchhere re tx")
    case True
    then show ?thesis using "2.IH"(1) u by (subst many_unfold) simp
  next
    case False
    then show ?thesis using "2.IH" u by (subst many_unfold) (auto simp: fits_def)
  qed
qed

lemma match_loop_any: "match_loop re tx \<longleftrightarrow> (\<exists>p q. tx = p @ q \<and> matchhere re q)"
proof (induction tx)
  case (Cons t tx)
  show ?case by (auto simp: Cons Cons_eq_append_conv)
qed simp

definition in_text :: "byte list \<Rightarrow> byte list \<Rightarrow> bool" where
  "in_text re tx = (let anchored = (re \<noteq> [] \<and> hd re = 94); (its, at_end) = pattern_items (if anchored then tl re else re) in
     \<exists>p w q. tx = p @ w @ q \<and> w \<in> lang its \<and> (anchored \<longrightarrow> p = []) \<and> (at_end \<longrightarrow> q = []))"

lemma match_in_text: "match re tx \<longleftrightarrow> in_text re tx"
proof -
  define re' where "re' = (if re \<noteq> [] \<and> hd re = 94 then tl re else re)"
  obtain its e where p: "pattern_items re' = (its, e)" by fastforce
  show ?thesis
  proof (cases "re \<noteq> [] \<and> hd re = 94")
    case True
    then show ?thesis using p unfolding in_text_def re'_def by (auto simp: match_def match_prefix prefix_match_def)
  next
    case False
    then have q: "pattern_items re = (its, e)" using p unfolding re'_def by (simp only: if_False)
    have "match re tx = match_loop re tx" using False by (auto simp: match_def)
    also have "\<dots> = (\<exists>p q. tx = p @ q \<and> prefix_match (its, e) q)" by (simp add: match_loop_any match_prefix q)
    finally have "match re tx = (\<exists>p q. tx = p @ q \<and> prefix_match (its, e) q)" .
    then show ?thesis using False p unfolding in_text_def re'_def prefix_match_def by auto
  qed
qed

section \<open>Lines\<close>

definition unlines :: "byte list list \<Rightarrow> byte list" where
  "unlines ls = concat (map (\<lambda>l. l @ [10]) ls)"

lemma unlines_simps [simp]: "unlines [] = []" "unlines (l # ls) = l @ 10 # unlines ls" "unlines (ls @ ms) = unlines ls @ unlines ms"
  by (simp_all add: unlines_def)

lemma find_nl_line: "10 \<notin> set l \<Longrightarrow> 0 \<notin> set l \<Longrightarrow> find_nl (l @ 10 # r) = Some l"
proof -
  assume "10 \<notin> set l" "0 \<notin> set l"
  then have "takeWhile (\<lambda>c. c \<noteq> 10 \<and> c \<noteq> 0) (l @ 10 # r) = l" by (subst takeWhile_append2) auto
  then show ?thesis by (simp add: find_nl_def)
qed

lemma find_nl_none: "10 \<notin> set r \<Longrightarrow> find_nl r = None"
proof -
  assume "10 \<notin> set r"
  then have "n < length r \<Longrightarrow> r ! n \<noteq> 10" for n using nth_mem by metis
  then show ?thesis by (simp add: find_nl_def Let_def)
qed

lemma scan_lines:
  assumes "\<forall>l \<in> set ls. 10 \<notin> set l \<and> 0 \<notin> set l" "10 \<notin> set r"
  shows "scan pat (unlines ls @ r) = (unlines (filter (match pat) ls), r)"
  using assms(1)
proof (induction ls)
  case Nil
  then show ?case using find_nl_none[OF assms(2)] by (subst scan.simps) simp
next
  case (Cons l ls)
  have "scan pat (l @ 10 # unlines ls @ r) = (let (out, rest) = scan pat (unlines ls @ r) in (if match pat l then l @ [10] @ out else out, rest))"
    using find_nl_line[of l "unlines ls @ r"] Cons.prems by (subst scan.simps) simp
  then show ?case using Cons by simp
qed

text \<open>A prefix of a text ends in the middle of a line.\<close>

lemma prefix_lines:
  assumes "b @ c = unlines ls @ tl1" "10 \<notin> set tl1" "\<forall>l \<in> set ls. 10 \<notin> set l"
  shows "\<exists>ls1 ls2 r. ls = ls1 @ ls2 \<and> b = unlines ls1 @ r \<and> 10 \<notin> set r \<and> r @ c = unlines ls2 @ tl1"
  using assms
proof (induction ls arbitrary: b)
  case Nil
  then have "10 \<notin> set b" by (metis Un_iff append_Nil set_append unlines_simps(1))
  then show ?case using Nil by (intro exI[of _ "[]"] exI[of _ b]) simp
next
  case (Cons l ls)
  show ?case
  proof (cases "length b \<le> length l")
    case True
    have "b = take (length b) (l @ 10 # unlines ls @ tl1)" using Cons.prems(1) by (metis append.assoc append_Cons append_eq_conv_conj unlines_simps(2))
    then have "b = take (length b) l" using True by simp
    then have "10 \<notin> set b" using Cons.prems(3) by (metis in_set_takeD list.set_intros(1))
    then show ?thesis using Cons.prems by (intro exI[of _ "[]"] exI[of _ "l # ls"] exI[of _ b]) simp
  next
    case False
    have "b = take (length b) (l @ 10 # unlines ls @ tl1)" using Cons.prems(1) by (metis append.assoc append_Cons append_eq_conv_conj unlines_simps(2))
    then obtain b' where b: "b = l @ 10 # b'" using False by (cases "length b - length l") auto
    then have "b' @ c = unlines ls @ tl1" using Cons.prems(1) by simp
    from Cons.IH[OF this Cons.prems(2)] Cons.prems(3) obtain ls1 ls2 r where
      h: "ls = ls1 @ ls2" "b' = unlines ls1 @ r" "10 \<notin> set r" "r @ c = unlines ls2 @ tl1" by auto
    then show ?thesis using b by (intro exI[of _ "l # ls1"] exI[of _ ls2] exI[of _ r]) simp
  qed
qed

lemma grep_lines:
  assumes "buf @ inp = unlines ls @ tl1" "10 \<notin> set buf" "10 \<notin> set tl1" "\<forall>l \<in> set ls. 10 \<notin> set l \<and> 0 \<notin> set l \<and> length l + 1 < BUFSIZE" "\<And>k. 1 \<le> rd k"
  shows "grep pat rd k buf inp = unlines (filter (match pat) ls)"
  using assms(1,2,4,5)
proof (induction pat rd k buf inp arbitrary: ls rule: grep.induct)
  case (1 pat rd k buf inp)
  define n where "n = min (rd k) (min (BUFSIZE - length buf - 1) (length inp))"
  show ?case
  proof (cases "n = 0")
    case True
    have "ls = []"
    proof (cases ls)
      case (Cons l ls')
      have "rd k \<noteq> 0" using 1(5)[of k] by simp
      then have "BUFSIZE \<le> length buf + 1 \<or> inp = []" using True by (auto simp: n_def min_def split: if_splits)
      then have "length l < length buf"
      proof
        assume "inp = []"
        then show ?thesis using 1(2) Cons by simp
      qed (use 1(4) Cons in auto)
      moreover have "take (length buf) (l @ 10 # unlines ls' @ tl1) = buf" using 1(2) Cons by (metis append.assoc append_Cons append_eq_conv_conj unlines_simps(2))
      ultimately have "10 \<in> set buf"
        by (metis (no_types, lifting) in_set_conv_nth length_take min.absorb2 nat_le_linear nth_append_length nth_take order.strict_iff_not take_all)
      then show ?thesis using 1(3) by simp
    qed simp
    then show ?thesis using True by (subst grep.simps, unfold n_def[symmetric]) (simp add: Let_def)
  next
    case False
    have "(buf @ take n inp) @ drop n inp = unlines ls @ tl1" using 1(2) by simp
    from prefix_lines[OF this assms(3)] 1(4) obtain ls1 ls2 r where
      h: "ls = ls1 @ ls2" "buf @ take n inp = unlines ls1 @ r" "10 \<notin> set r" "r @ drop n inp = unlines ls2 @ tl1" by auto
    have sc: "scan pat (buf @ take n inp) = (unlines (filter (match pat) ls1), r)"
      unfolding h(2) by (rule scan_lines) (use h 1(4) in auto)
    have "grep pat rd (k + 1) r (drop n inp) = unlines (filter (match pat) ls2)"
      by (rule 1(1)[OF n_def False sc[symmetric] refl h(4,3)]) (use h(1) 1(4,5) in auto)
    then have "grep pat rd k buf inp = unlines (filter (match pat) ls1) @ unlines (filter (match pat) ls2)"
      using False sc by (subst grep.simps, unfold n_def[symmetric]) (simp add: Let_def)
    then show ?thesis using h(1) by simp
  qed
qed

section \<open>The property\<close>

text \<open>
  C18. However the input arrives in pieces, \<^verbatim>\<open>grep\<close> prints exactly the lines that match, in order, each with
  its newline, provided the lines have no NUL bytes and none fills the buffer: a line matches when some part of
  it is in the language of the pattern, a sequence of characters, dots and starred items, which
  \<^verbatim>\<open>^\<close> ties to the start and \<^verbatim>\<open>$\<close> to the end of the line. A last line without newline is not
  printed.
\<close>

theorem grep_prints_matches:
  assumes "\<forall>l \<in> set ls. 10 \<notin> set l \<and> 0 \<notin> set l \<and> length l + 1 < BUFSIZE" "10 \<notin> set rest" "\<And>k. 1 \<le> rd k"
  shows "grep pattern rd 0 [] (unlines ls @ rest) = unlines (filter (in_text pattern) ls)"
proof -
  have "match pattern = in_text pattern" using match_in_text by blast
  then show ?thesis using grep_lines[of "[]" "unlines ls @ rest" ls rest rd pattern 0] assms by simp
qed

theorem grep_prints_matches_witness:
  "grep [97, 42, 98] (\<lambda>_. 2) 0 [] (unlines [[97, 97, 98], [99], [98]] @ [97]) = unlines (filter (in_text [97, 42, 98]) [[97, 97, 98], [99], [98]])"
  by (rule grep_prints_matches) (simp_all add: BUFSIZE_def)

end
