(* ===== verification/Ring.thy ===== *)
theory Ring
  imports Str
begin

text \<open>
  Ring buffers with free-running counters, as the pipe, the console and the serial line use
  them: a byte array of size \<open>N\<close>, a read and a write counter that are never reduced modulo
  \<open>N\<close> and wrap around at the width of their type.
\<close>

definition ring_content :: "nat \<Rightarrow> (nat \<Rightarrow> byte) \<Rightarrow> 'c::len word \<Rightarrow> 'c word \<Rightarrow> byte list" where
  "ring_content N buf r w = map (\<lambda>i. buf ((unat r + i) mod N)) [0..<unat (w - r)]"

locale ring =
  fixes N :: nat and ty :: "'c::len itself"
  assumes pos: "0 < N" and fits: "N < 2 ^ LENGTH('c)" and divides: "N dvd 2 ^ LENGTH('c)"
begin

lemma unat_add_mod: "(unat (a + b :: 'c word) + i) mod N = (unat a + unat b + i) mod N"
proof -
  have "unat (a + b) mod N = (unat a + unat b) mod N"
    using divides by (simp add: unat_word_ariths mod_mod_cancel)
  then show ?thesis by (metis mod_add_left_eq)
qed

lemma length_content: "length (ring_content N buf r (w :: 'c word)) = unat (w - r)"
  by (simp add: ring_content_def)

lemma empty_iff: "ring_content N buf r (w :: 'c word) = [] \<longleftrightarrow> r = w"
  by (auto simp: ring_content_def unat_eq_0)

lemma full_iff: "(w :: 'c word) = r + of_nat N \<longleftrightarrow> unat (w - r) = N"
proof
  assume "w = r + of_nat N"
  then show "unat (w - r) = N" using fits by simp
next
  assume "unat (w - r) = N"
  moreover have "of_nat (unat (w - r)) = w - r" by simp
  ultimately show "w = r + of_nat N" by (metis add.commute diff_add_cancel)
qed

lemma write_slot: "unat (w :: 'c word) mod N = (unat r + unat (w - r)) mod N"
  using unat_add_mod[of r "w - r" 0] by simp

lemma room_Suc: "unat (w - r :: 'c word) < N \<Longrightarrow> unat (w + 1 - r) = Suc (unat (w - r))"
proof -
  assume "unat (w - r) < N"
  then have "Suc (unat (w - r)) < 2 ^ LENGTH('c)" using fits by simp
  then have "unat ((w - r) + 1) = Suc (unat (w - r))" using unat_word_ariths(1)[of "w - r" 1] by simp
  moreover have "w + 1 - r = (w - r) + 1" by simp
  ultimately show ?thesis by (simp only:)
qed

lemma slots_differ: "i < n \<Longrightarrow> n < N \<Longrightarrow> (a + i) mod N \<noteq> (a + n) mod (N :: nat)"
proof
  assume a: "i < n" "n < N" "(a + i) mod N = (a + n) mod N"
  then have "N dvd (a + n) - (a + i)" by (metis add_le_cancel_left less_imp_le mod_eq_dvd_iff_nat)
  then have "N dvd n - i" by simp
  then show False using a by (meson dvd_imp_le le_less_trans less_imp_diff_less not_less zero_less_diff)
qed

lemma put:
  assumes "unat (w - r :: 'c word) < N"
  shows "ring_content N (buf(unat w mod N := x)) r (w + 1) = ring_content N buf r w @ [x]"
proof -
  have "map (\<lambda>i. (buf(unat w mod N := x)) ((unat r + i) mod N)) [0..<unat (w - r)] = map (\<lambda>i. buf ((unat r + i) mod N)) [0..<unat (w - r)]"
    using assms write_slot[of w r] slots_differ[of _ "unat (w - r)" "unat r"] by auto
  then show ?thesis using room_Suc[OF assms] write_slot[of w r] by (simp add: ring_content_def)
qed

lemma minus_one_unat: "r \<noteq> (w :: 'c word) \<Longrightarrow> unat (w - (r + 1)) = unat (w - r) - 1"
proof -
  assume "r \<noteq> w"
  then have "w - r \<noteq> 0" by simp
  then have "unat ((w - r) - 1) = unat (w - r) - 1" by (rule unat_minus_one)
  moreover have "w - (r + 1) = (w - r) - 1" by simp
  ultimately show ?thesis by (simp only:)
qed

lemma take_one:
  assumes "r \<noteq> (w :: 'c word)"
  shows "ring_content N buf r w = buf (unat r mod N) # ring_content N buf (r + 1) w"
proof -
  obtain n where n: "unat (w - r) = Suc n" using assms by (cases "unat (w - r)") (auto simp: unat_eq_0)
  have n': "unat (w - (r + 1)) = n" using n minus_one_unat[OF assms] by simp
  have "map (\<lambda>i. buf ((unat r + i) mod N)) [0..<Suc n] = buf (unat r mod N) # map (\<lambda>i. buf ((unat r + Suc i) mod N)) [0..<n]"
    by (simp add: upt_conv_Cons map_Suc_upt[symmetric] del: upt_Suc)
  moreover have "(unat (r + 1) + i) mod N = (unat r + Suc i) mod N" for i using unat_add_mod[of r 1 i] by simp
  ultimately show ?thesis by (simp add: ring_content_def n n')
qed

lemma drop_last:
  assumes "r \<noteq> (w :: 'c word)"
  shows "ring_content N buf r (w - 1) = butlast (ring_content N buf r w)"
proof -
  obtain n where n: "unat (w - r) = Suc n" using assms by (cases "unat (w - r)") (auto simp: unat_eq_0)
  have "w - 1 - r = w - (r + 1)" by simp
  then have "unat (w - 1 - r) = n" using n minus_one_unat[OF assms] by (simp only:)
  then show ?thesis by (simp add: ring_content_def n butlast_append)
qed

lemma sum_room:
  assumes "unat (w - r :: 'c word) + unat (e - w) \<le> N"
  shows "unat (e - r) = unat (w - r) + unat (e - w)"
proof -
  have "e - r = (w - r) + (e - w)" by simp
  moreover have "unat ((w - r) + (e - w)) = unat (w - r) + unat (e - w)"
    using assms fits unat_word_ariths(1)[of "w - r" "e - w"] by simp
  ultimately show ?thesis by (simp only:)
qed

lemma put_other:
  assumes "unat (w - r :: 'c word) + unat (e - w) < N"
  shows "ring_content N (buf(unat e mod N := x)) r w = ring_content N buf r w"
proof -
  have e: "unat (e - r) = unat (w - r) + unat (e - w)" by (rule sum_room) (use assms in simp)
  show ?thesis unfolding ring_content_def
    using slots_differ[of _ "unat (e - r)" "unat r"] write_slot[of e r] e assms by auto
qed

lemma split_content:
  assumes "unat (w - r :: 'c word) + unat (e - w) \<le> N"
  shows "ring_content N buf r e = ring_content N buf r w @ ring_content N buf w e"
proof -
  have s: "(unat r + (unat (w - r) + i)) mod N = (unat w + i) mod N" for i
    using unat_add_mod[of r "w - r" i] by (simp add: add.assoc)
  have l: "[0..<unat (w - r) + unat (e - w)] = [0..<unat (w - r)] @ map (\<lambda>i. unat (w - r) + i) [0..<unat (e - w)]"
    by (rule nth_equalityI) (auto simp: nth_append)
  show ?thesis unfolding ring_content_def sum_room[OF assms] l by (simp add: s)
qed

lemma last_content:
  assumes "r \<noteq> (w :: 'c word)"
  shows "last (ring_content N buf r w) = buf (unat (w - 1) mod N)"
proof -
  obtain n where n: "unat (w - r) = Suc n" using assms by (cases "unat (w - r)") (auto simp: unat_eq_0)
  have "w - 1 - r = w - (r + 1)" by simp
  then have "unat (w - 1 - r) = n" using n minus_one_unat[OF assms] by (simp only:)
  then have "unat (w - 1) mod N = (unat r + n) mod N" using write_slot[of "w - 1" r] by simp
  then show ?thesis by (simp add: ring_content_def n)
qed

end

interpretation pipe_ring: ring 512 "TYPE(32)" by unfold_locales (simp_all add: dvd_def)

interpretation cons_ring: ring 128 "TYPE(32)" by unfold_locales (simp_all add: dvd_def)

interpretation uart_ring: ring 32 "TYPE(64)" by unfold_locales (simp_all add: dvd_def)

end
