(* ===== verification/Pipe.thy ===== *)
theory Pipe
  imports Vm_User Ring
begin

text \<open>
  Pipes, \<^verbatim>\<open>kernel/pipe.c\<close>. A pipe is named by the address of the page that holds it. An
  operation runs, under the pipe's lock, until it returns or goes to sleep; it is resumed from
  there. \<^verbatim>\<open>killed(pr)\<close> is polled by the code, so its values are an argument. The channels that
  \<^verbatim>\<open>wakeup\<close> is called for are recorded in the state.
\<close>

record pipe =
  data :: "nat \<Rightarrow> byte"
  nread :: "32 word"
  nwrite :: "32 word"
  readopen :: bool
  writeopen :: bool

datatype chan = NRead nat | NWrite nat

record piped = phys +
  pipe_at :: "nat \<Rightarrow> pipe"
  wakes :: "chan list"

type_synonym ('z, 'a) pprog = "('z piped_scheme, kerr, 'a) comp"

definition PIPESIZE :: nat where
  "PIPESIZE = 512"

definition wake :: "chan \<Rightarrow> 'z piped_scheme \<Rightarrow> 'z piped_scheme" where
  "wake ch s = s\<lparr>wakes := wakes s @ [ch]\<rparr>"

definition pipe_upd :: "nat \<Rightarrow> (pipe \<Rightarrow> pipe) \<Rightarrow> 'z piped_scheme \<Rightarrow> 'z piped_scheme" where
  "pipe_upd pi f s = s\<lparr>pipe_at := (pipe_at s)(pi := f (pipe_at s pi))\<rparr>"

definition pipe_put :: "byte \<Rightarrow> pipe \<Rightarrow> pipe" where
  "pipe_put ch p = p\<lparr>data := (data p)(unat (nwrite p) mod PIPESIZE := ch), nwrite := nwrite p + 1\<rparr>"

definition new_pipe :: "pipe \<Rightarrow> pipe" where
  "new_pipe p = p\<lparr>readopen := True, writeopen := True, nwrite := 0, nread := 0\<rparr>"

definition pipeclose :: "nat \<Rightarrow> bool \<Rightarrow> ('z, unit) pprog" where
  "pipeclose pi writable =
     sq (if writable
         then sq (upd (pipe_upd pi (\<lambda>p. p\<lparr>writeopen := False\<rparr>))) (upd (wake (NRead pi)))
         else sq (upd (pipe_upd pi (\<lambda>p. p\<lparr>readopen := False\<rparr>))) (upd (wake (NWrite pi))))
     (bnd (gets (\<lambda>s. \<not> readopen (pipe_at s pi) \<and> \<not> writeopen (pipe_at s pi))) (\<lambda>closed.
      if closed then kfree pi else ret ()))"

text \<open>The result of a run: the value returned, or asleep after \<open>i\<close> bytes.\<close>

datatype seg = Returns int | Asleep nat

function pipewrite :: "nat \<Rightarrow> (nat \<Rightarrow> bool) \<Rightarrow> nat \<Rightarrow> nat \<Rightarrow> int \<Rightarrow> nat \<Rightarrow> ('z, seg) pprog" where
  "pipewrite pagetable killed pi addr n i s =
     (if int i < n then
        let p = pipe_at s pi in
        if \<not> readopen p \<or> killed i then Inr (Returns (- 1), s)
        else if nwrite p = nread p + of_nat PIPESIZE then Inr (Asleep i, wake (NRead pi) s)
        else case copyin pagetable (addr + i) 1 s of Inl e \<Rightarrow> Inl e | Inr ((r, bs), s1) \<Rightarrow>
          if r = - 1 then Inr (Returns (int i), wake (NRead pi) s1)
          else pipewrite pagetable killed pi addr n (Suc i) (pipe_upd pi (pipe_put (hd bs)) s1)
      else Inr (Returns (int i), wake (NRead pi) s))"
  by auto

termination pipewrite
  by (relation "measure (\<lambda>(pt, k, pi, addr, n, i, s). nat (n - int i))") auto

function piperead_loop :: "nat \<Rightarrow> nat \<Rightarrow> nat \<Rightarrow> int \<Rightarrow> nat \<Rightarrow> ('z, int) pprog" where
  "piperead_loop pagetable pi addr n i s =
     (if int i < n then
        let p = pipe_at s pi in
        if nread p = nwrite p then Inr (int i, s)
        else let ch = data p (unat (nread p) mod PIPESIZE); s1 = pipe_upd pi (\<lambda>p. p\<lparr>nread := nread p + 1\<rparr>) s in
        case copyout pagetable (addr + i) [ch] s1 of Inl e \<Rightarrow> Inl e | Inr (r, s2) \<Rightarrow>
          if r = - 1 then Inr (int i, s2) else piperead_loop pagetable pi addr n (Suc i) s2
      else Inr (int i, s))"
  by auto

termination piperead_loop
  by (relation "measure (\<lambda>(pt, pi, addr, n, i, s). nat (n - int i))") auto

definition piperead :: "nat \<Rightarrow> bool \<Rightarrow> nat \<Rightarrow> nat \<Rightarrow> int \<Rightarrow> ('z, seg) pprog" where
  "piperead pagetable killed pi addr n = bnd (gets (\<lambda>s. pipe_at s pi)) (\<lambda>p.
     if nread p = nwrite p \<and> writeopen p then (if killed then ret (Returns (- 1)) else ret (Asleep 0))
     else bnd (piperead_loop pagetable pi addr n 0) (\<lambda>i. sq (upd (wake (NWrite pi))) (ret (Returns i))))"

declare pipewrite.simps [simp del] piperead_loop.simps [simp del]

section \<open>The pipe as a queue\<close>

definition queue :: "'z piped_scheme \<Rightarrow> nat \<Rightarrow> byte list" where
  "queue s pi = ring_content PIPESIZE (data (pipe_at s pi)) (nread (pipe_at s pi)) (nwrite (pipe_at s pi))"

definition pipe_inv :: "'z piped_scheme \<Rightarrow> nat \<Rightarrow> bool" where
  "pipe_inv s pi \<longleftrightarrow> length (queue s pi) \<le> PIPESIZE"

lemma queue_length: "length (queue s pi) = unat (nwrite (pipe_at s pi) - nread (pipe_at s pi))"
  by (simp add: queue_def pipe_ring.length_content PIPESIZE_def)

lemma queue_full: "nwrite (pipe_at s pi) = nread (pipe_at s pi) + of_nat PIPESIZE \<longleftrightarrow> length (queue s pi) = PIPESIZE"
  using pipe_ring.full_iff[of "nwrite (pipe_at s pi)" "nread (pipe_at s pi)"] by (simp add: queue_length PIPESIZE_def)

lemma queue_empty: "nread (pipe_at s pi) = nwrite (pipe_at s pi) \<longleftrightarrow> queue s pi = []"
  using pipe_ring.empty_iff by (auto simp: queue_def PIPESIZE_def)

lemma queue_put:
  assumes "length (queue s pi) < PIPESIZE"
  shows "queue (pipe_upd pi (pipe_put ch) s) pi = queue s pi @ [ch]"
  using pipe_ring.put[of "nwrite (pipe_at s pi)" "nread (pipe_at s pi)"] assms
  by (simp add: queue_def pipe_upd_def pipe_put_def PIPESIZE_def queue_length pipe_ring.length_content)

lemma queue_take:
  assumes "queue s pi \<noteq> []"
  shows "queue s pi = data (pipe_at s pi) (unat (nread (pipe_at s pi)) mod PIPESIZE) #
    queue (pipe_upd pi (\<lambda>p. p\<lparr>nread := nread p + 1\<rparr>) s) pi"
  using pipe_ring.take_one[of "nread (pipe_at s pi)" "nwrite (pipe_at s pi)"] assms queue_empty[of s pi]
  by (simp add: queue_def pipe_upd_def PIPESIZE_def)

lemma queue_wake [simp]: "queue (wake c s) pi = queue s pi" "pm (wake c s) = pm s"
  by (simp_all add: queue_def wake_def)

lemma wake_phys [simp]: "kend (wake c s) = kend s" "freelist (wake c s) = freelist s"
  by (simp_all add: wake_def)

lemma pipe_upd_pm [simp]: "pm (pipe_upd pi f s) = pm s" "kend (pipe_upd pi f s) = kend s" "freelist (pipe_upd pi f s) = freelist s"
  by (simp_all add: pipe_upd_def)

lemma pipe_upd_inv [simp]: "pt_inv (pipe_upd pi f s) pt ps = pt_inv s pt ps"
  by (simp add: pt_inv_def kmem_inv_def)

section \<open>Writing\<close>

lemma user_range_one: "user_range m pt va n \<Longrightarrow> i < n \<Longrightarrow> user_range m pt (va + i) 1"
  by (simp add: user_range_def)

lemma ubytes_one: "ubytes m pt va 1 = [m (the (uaddr m pt va))]"
  by (simp add: ubytes_def)

text \<open>
  A run of \<^verbatim>\<open>pipewrite\<close> appends the next \<open>k\<close> bytes of the user's buffer and then returns because it
  is done, sleeps because the pipe is full, or gives up.
\<close>

lemma pipewrite_run:
  assumes "pt_inv s pt ps" "user_range (pm s) pt addr n" "pipe_inv s pi" "i \<le> n"
  shows "\<exists>k r s'. pipewrite pt killed pi addr (int n) i s = Inr (r, s') \<and>
    (pm s' = pm s \<and> kend s' = kend s \<and> freelist s' = freelist s) \<and> i + k \<le> n \<and>
    queue s' pi = queue s pi @ ubytes (pm s) pt (addr + i) k \<and> pipe_inv s' pi \<and> (\<forall>q. q \<noteq> pi \<longrightarrow> pipe_at s' q = pipe_at s q) \<and>
    readopen (pipe_at s' pi) = readopen (pipe_at s pi) \<and> writeopen (pipe_at s' pi) = writeopen (pipe_at s pi) \<and>
    (r = Returns (int n) \<and> i + k = n \<and> wakes s' = wakes s @ [NRead pi] \<or>
     r = Asleep (i + k) \<and> i + k < n \<and> length (queue s' pi) = PIPESIZE \<and> wakes s' = wakes s @ [NRead pi] \<or>
     r = Returns (- 1) \<and> i + k < n \<and> (\<not> readopen (pipe_at s pi) \<or> killed (i + k)) \<and> wakes s' = wakes s)"
  using assms
proof (induction "n - i" arbitrary: i s)
  case 0
  then show ?case by (auto simp: pipewrite.simps ubytes_def wake_def pipe_inv_def queue_def intro!: exI[of _ 0])
next
  case (Suc m)
  have i: "i < n" using Suc.hyps(2) by simp
  consider "\<not> readopen (pipe_at s pi) \<or> killed i" | "readopen (pipe_at s pi)" "\<not> killed i" "length (queue s pi) = PIPESIZE"
    | "readopen (pipe_at s pi)" "\<not> killed i" "length (queue s pi) < PIPESIZE"
    using Suc.prems(3) unfolding pipe_inv_def le_less by blast
  then show ?case
  proof cases
    case 1
    then show ?thesis using i Suc.prems(3) by (intro exI[of _ 0]) (simp add: pipewrite.simps ubytes_def)
  next
    case 2
    then show ?thesis using i Suc.prems(3) queue_full[of s pi]
      by (intro exI[of _ 0]) (simp add: pipewrite.simps ubytes_def pipe_inv_def wake_def queue_def)
  next
    case 3
    let ?ch = "pm s (the (uaddr (pm s) pt (addr + i)))" let ?s = "pipe_upd pi (pipe_put ?ch) s"
    have c: "copyin pt (addr + i) 1 s = Inr ((0, [?ch]), s)"
      using copyin_run[OF Suc.prems(1) user_range_one[OF Suc.prems(2) i]] by (simp only: ubytes_one)
    have st: "pipewrite pt killed pi addr (int n) i s = pipewrite pt killed pi addr (int n) (Suc i) ?s"
      using 3 i queue_full[of s pi] c by (subst pipewrite.simps) simp
    have q: "queue ?s pi = queue s pi @ [?ch]" by (rule queue_put[OF 3(3)])
    have m: "m = n - Suc i" "Suc i \<le> n" using Suc.hyps(2) by auto
    have p: "pt_inv ?s pt ps" "user_range (pm ?s) pt addr n" "pipe_inv ?s pi" using Suc.prems 3(3) q by (simp_all add: pipe_inv_def)
    have o: "\<And>q. q \<noteq> pi \<Longrightarrow> pipe_at ?s q = pipe_at s q" "readopen (pipe_at ?s pi) = readopen (pipe_at s pi)"
      "writeopen (pipe_at ?s pi) = writeopen (pipe_at s pi)" "wakes ?s = wakes s" by (simp_all add: pipe_upd_def pipe_put_def)
    obtain k r s' where ih: "pipewrite pt killed pi addr (int n) (Suc i) ?s = Inr (r, s')" "pm s' = pm s \<and> kend s' = kend s \<and> freelist s' = freelist s" "Suc i + k \<le> n"
      "queue s' pi = queue ?s pi @ ubytes (pm s) pt (addr + Suc i) k" "pipe_inv s' pi" "\<forall>q. q \<noteq> pi \<longrightarrow> pipe_at s' q = pipe_at ?s q"
      "readopen (pipe_at s' pi) = readopen (pipe_at ?s pi)" "writeopen (pipe_at s' pi) = writeopen (pipe_at ?s pi)"
      "r = Returns (int n) \<and> Suc i + k = n \<and> wakes s' = wakes ?s @ [NRead pi] \<or>
       r = Asleep (Suc i + k) \<and> Suc i + k < n \<and> length (queue s' pi) = PIPESIZE \<and> wakes s' = wakes ?s @ [NRead pi] \<or>
       r = Returns (- 1) \<and> Suc i + k < n \<and> (\<not> readopen (pipe_at ?s pi) \<or> killed (Suc i + k)) \<and> wakes s' = wakes ?s"
      using Suc.hyps(1)[OF m(1) p m(2)] unfolding pipe_upd_pm by blast
    have "ubytes (pm s) pt (addr + i) (Suc k) = ?ch # ubytes (pm s) pt (addr + Suc i) k"
      using ubytes_append[of 1 "Suc k" "pm s" pt "addr + i"] ubytes_one[of "pm s" pt "addr + i"] by simp
    then show ?thesis using ih q o by (intro exI[of _ "Suc k"] exI[of _ r] exI[of _ s']) (auto simp: st)
  qed
qed

section \<open>Reading\<close>

text \<open>
  \<^verbatim>\<open>piperead\<close> takes bytes from the front of the queue, as many as asked for and present, and
  stores them in the user's buffer in order.
\<close>

lemma piperead_loop_run:
  assumes "pt_inv s pt ps" "user_sep (pm s) pt ps" "user_range (pm s) pt addr n" "i \<le> n"
  shows "\<exists>k m s'. piperead_loop pt pi addr (int n) i s = Inr (int (i + k), s') \<and> k = min (n - i) (length (queue s pi)) \<and>
    queue s' pi = drop k (queue s pi) \<and> pm s' = m \<and> uaddr m pt = uaddr (pm s) pt \<and> pt_inv s' pt ps \<and>
    ubytes m pt (addr + i) k = take k (queue s pi) \<and> (\<forall>x. (\<forall>j < k. uaddr (pm s) pt (addr + i + j) \<noteq> Some x) \<longrightarrow> m x = pm s x) \<and>
    (\<forall>q. q \<noteq> pi \<longrightarrow> pipe_at s' q = pipe_at s q) \<and> wakes s' = wakes s"
  using assms
proof (induction "n - i" arbitrary: i s)
  case 0
  then show ?case by (auto simp: piperead_loop.simps ubytes_def)
next
  case (Suc m)
  have i: "i < n" using Suc.hyps(2) by simp
  show ?case
  proof (cases "queue s pi")
    case Nil
    then show ?thesis using i Suc.prems queue_empty[of s pi] by (simp add: piperead_loop.simps ubytes_def)
  next
    case (Cons ch q)
    let ?u = "uaddr (pm s) pt"
    let ?s1 = "pipe_upd pi (\<lambda>p. p\<lparr>nread := nread p + 1\<rparr>) s"
    have h: "data (pipe_at s pi) (unat (nread (pipe_at s pi)) mod PIPESIZE) = ch" "queue ?s1 pi = q"
      using queue_take[of s pi] Cons by auto
    have p1: "pt_inv ?s1 pt ps" "user_sep (pm ?s1) pt ps" using Suc.prems by simp_all
    have r1: "user_range (pm ?s1) pt (addr + i) (length [ch])" using user_range_one[OF Suc.prems(3) i] by simp
    from copyout_run[OF p1 r1] obtain m1 where m1: "copyout pt (addr + i) [ch] ?s1 = Inr (0, ?s1\<lparr>pm := m1\<rparr>)"
      "pt_inv (?s1\<lparr>pm := m1\<rparr>) pt ps" "uaddr m1 pt = ?u" "m1 (the (?u (addr + i))) = ch"
      "\<And>x. ?u (addr + i) \<noteq> Some x \<Longrightarrow> m1 x = pm s x" by auto
    let ?s2 = "?s1\<lparr>pm := m1\<rparr>"
    have st: "piperead_loop pt pi addr (int n) i s = piperead_loop pt pi addr (int n) (Suc i) ?s2"
      using i Cons queue_empty[of s pi] h(1) m1(1) by (subst piperead_loop.simps) simp
    have q2: "queue ?s2 pi = q" using h(2) by (simp add: queue_def)
    have sep2: "user_sep (pm ?s2) pt ps"
    proof -
      have inj: "\<not> (\<exists>t \<in> tables (pm s) pt \<union> set ps. in_page t x)" if "?u (addr + i) = Some x" for x
        using Suc.prems(2) that unfolding user_sep_def by blast
      have "tables m1 pt = tables (pm s) pt"
        by (rule write_pt(2)[OF Suc.prems(1)]) (use m1(5) inj in blast)
      then show ?thesis using user_sep_cong[of m1 pt "pm s"] m1(3) Suc.prems(2) by simp
    qed
    have rg: "user_range (pm ?s2) pt addr n" using Suc.prems(3) user_range_cong[of m1 pt "pm s"] m1(3) by simp
    have mm: "m = n - Suc i" "Suc i \<le> n" using Suc.hyps(2) by auto
    obtain k m' s' where ih: "piperead_loop pt pi addr (int n) (Suc i) ?s2 = Inr (int (Suc i + k), s')" "k = min (n - Suc i) (length q)"
      "queue s' pi = drop k q" "pm s' = m'" "uaddr m' pt = ?u" "pt_inv s' pt ps" "ubytes m' pt (addr + Suc i) k = take k q"
      "\<And>x. (\<forall>j < k. ?u (addr + Suc i + j) \<noteq> Some x) \<Longrightarrow> m' x = m1 x"
      "\<forall>q. q \<noteq> pi \<longrightarrow> pipe_at s' q = pipe_at ?s2 q" "wakes s' = wakes ?s2"
      using Suc.hyps(1)[OF mm(1) m1(2) sep2 rg mm(2)] unfolding q2 by (auto simp: m1(3))
    obtain x where x: "?u (addr + i) = Some x" using uaddr_first[OF r1] by auto
    have keep: "m' x = ch"
    proof -
      have "?u (addr + Suc i + j) \<noteq> Some x" for j
      proof
        assume "?u (addr + Suc i + j) = Some x"
        then have "addr + Suc i + j = addr + i" using Suc.prems(2) x unfolding user_sep_def by blast
        then show False by simp
      qed
      then show ?thesis using ih(8)[of x] m1(4) x by simp
    qed
    have ub: "ubytes m' pt (addr + i) (Suc k) = ch # take k q"
      using ubytes_append[of 1 "Suc k" m' pt "addr + i"] ubytes_one[of m' pt "addr + i"] ih(5,7) x keep by simp
    have fr: "m' y = pm s y" if y: "\<forall>j < Suc k. ?u (addr + i + j) \<noteq> Some y" for y
    proof -
      have "?u (addr + Suc i + j) \<noteq> Some y" if "j < k" for j using y[rule_format, of "Suc j"] that by simp
      moreover have "?u (addr + i) \<noteq> Some y" using y[rule_format, of 0] by simp
      ultimately show ?thesis using ih(8)[of y] m1(5)[of y] by simp
    qed
    have o: "\<And>q. q \<noteq> pi \<Longrightarrow> pipe_at ?s2 q = pipe_at s q" "wakes ?s2 = wakes s" by (simp_all add: pipe_upd_def)
    show ?thesis
      using ih(1-6,9,10) ub fr o Cons i by (intro exI[of _ "Suc k"] exI[of _ m'] exI[of _ s']) (auto simp: st min_def)
  qed
qed

section \<open>Properties\<close>

text \<open>
  C30. A run of \<^verbatim>\<open>pipewrite\<close> appends to the pipe exactly the next bytes of the user's buffer, never
  more than the pipe has room for. It returns the length when all bytes are in, and it sleeps
  only when the pipe is full; in both cases it has woken up the readers. When the reader is gone
  or the process is killed it returns -1, and then no reader is woken up, even if bytes were
  appended.
\<close>

theorem pipewrite_appends:
  assumes "pt_inv s pt ps" "user_range (pm s) pt addr n" "pipe_inv s pi" "i \<le> n"
  shows "\<exists>k r s'. pipewrite pt killed pi addr (int n) i s = Inr (r, s') \<and> pm s' = pm s \<and> i + k \<le> n \<and>
    queue s' pi = queue s pi @ ubytes (pm s) pt (addr + i) k \<and> length (queue s' pi) \<le> PIPESIZE \<and>
    (r = Returns (int n) \<and> i + k = n \<and> wakes s' = wakes s @ [NRead pi] \<or>
     r = Asleep (i + k) \<and> length (queue s' pi) = PIPESIZE \<and> wakes s' = wakes s @ [NRead pi] \<or>
     r = Returns (- 1) \<and> (\<not> readopen (pipe_at s pi) \<or> killed (i + k)) \<and> wakes s' = wakes s)"
  using pipewrite_run[OF assms, of killed] unfolding pipe_inv_def by blast

lemma extended_space:
  obtains s :: piped and ps where "pt_inv s 2281697280 ps" "user_sep (pm s) 2281697280 ps"
    "\<And>va. uaddr (pm s) 2281697280 va = (if va < 4096 then Some (2281693184 + va) else None)"
    "pipe_at s 7 = \<lparr>data = (\<lambda>_. 0), nread = 4294967290, nwrite = 4294967290, readopen = True, writeopen = True\<rparr>" "wakes s = []"
proof -
  obtain s :: phys and ps where s: "pt_inv s 2281697280 ps" "user_sep (pm s) 2281697280 ps"
    "\<And>va. uaddr (pm s) 2281697280 va = (if va < 4096 then Some (2281693184 + va) else None)"
    by (rule one_page_space) (rule that)
  let ?t = "\<lparr>pm = pm s, freelist = freelist s, kend = kend s,
    pipe_at = (\<lambda>_. \<lparr>data = (\<lambda>_. 0), nread = 4294967290, nwrite = 4294967290, readopen = True, writeopen = True\<rparr>), wakes = []\<rparr>"
  have "pt_inv ?t 2281697280 ps" using s(1) by (simp add: pt_inv_def kmem_inv_def)
  then show thesis using s(2,3) by (intro that[of ?t ps]) simp_all
qed

theorem pipewrite_appends_witness:
  "\<exists>s :: piped. \<exists>k r s'. pipewrite 2281697280 (\<lambda>i. i = 20) 7 0 (int 100) 0 s = Inr (r, s') \<and>
    queue s' 7 = queue s 7 @ ubytes (pm s) 2281697280 (0 + 0) k \<and> length (queue s' 7) \<le> PIPESIZE"
proof -
  obtain s :: piped and ps where s: "pt_inv s 2281697280 ps"
    "\<And>va. uaddr (pm s) 2281697280 va = (if va < 4096 then Some (2281693184 + va) else None)"
    "pipe_at s 7 = \<lparr>data = (\<lambda>_. 0), nread = 4294967290, nwrite = 4294967290, readopen = True, writeopen = True\<rparr>"
    by (rule extended_space) (rule that)
  have "user_range (pm s) 2281697280 0 100" by (simp add: user_range_def s(2))
  moreover have "pipe_inv s 7" by (simp add: pipe_inv_def queue_length s(3) PIPESIZE_def)
  ultimately show ?thesis using pipewrite_appends[OF s(1), of 0 100 7 0 "\<lambda>i. i = 20"] by blast
qed

text \<open>
  C16. What one process writes to a pipe with room is what another reads from it, in order: the
  reader's buffer gets the oldest bytes of the pipe followed by those written, and the rest
  stays in the pipe.
\<close>

theorem pipe_transfer:
  assumes "pt_inv s pt1 ps1" "user_range (pm s) pt1 a1 n" "readopen (pipe_at s pi)" "0 < n"
    "length (queue s pi) + n \<le> PIPESIZE"
    "pt_inv s pt2 ps2" "user_sep (pm s) pt2 ps2" "user_range (pm s) pt2 a2 m"
  shows "\<exists>k s1 s2. pipewrite pt1 (\<lambda>_. False) pi a1 (int n) 0 s = Inr (Returns (int n), s1) \<and>
    piperead pt2 False pi a2 (int m) s1 = Inr (Returns (int k), s2) \<and> k = min m (length (queue s pi) + n) \<and>
    ubytes (pm s2) pt2 a2 k = take k (queue s pi @ ubytes (pm s) pt1 a1 n) \<and>
    queue s2 pi = drop k (queue s pi @ ubytes (pm s) pt1 a1 n)"
proof -
  let ?q = "queue s pi @ ubytes (pm s) pt1 a1 n"
  have inv: "pipe_inv s pi" using assms(5) by (simp add: pipe_inv_def)
  have lu: "length (ubytes (pm s) pt1 a1 j) = j" for j by (simp add: ubytes_def)
  obtain k r s1 where w: "pipewrite pt1 (\<lambda>_. False) pi a1 (int n) 0 s = Inr (r, s1)" "pm s1 = pm s \<and> kend s1 = kend s \<and> freelist s1 = freelist s"
    "queue s1 pi = queue s pi @ ubytes (pm s) pt1 (a1 + 0) k" "0 + k \<le> n"
    "r = Returns (int n) \<and> 0 + k = n \<or> r = Asleep (0 + k) \<and> 0 + k < n \<and> length (queue s1 pi) = PIPESIZE"
    using pipewrite_run[OF assms(1,2) inv le0, of "\<lambda>_. False"] assms(3) by blast
  have k: "k = n" "r = Returns (int n)" using w(3-5) assms(5) by (auto simp: lu)
  have q1: "queue s1 pi = ?q" using w(3) k by simp
  have ne: "nread (pipe_at s1 pi) \<noteq> nwrite (pipe_at s1 pi)" using queue_empty[of s1 pi] q1 assms(4) lu[of n] by fastforce
  have "pt_inv s1 pt2 ps2" using assms(6) w(2) by (simp add: pt_inv_def kmem_inv_def)
  from piperead_loop_run[OF this, of a2 m 0 pi] assms(7,8) w(2) obtain s2 where
    r: "piperead_loop pt2 pi a2 (int m) 0 s1 = Inr (int (min m (length ?q)), s2)"
      "queue s2 pi = drop (min m (length ?q)) ?q" "ubytes (pm s2) pt2 a2 (min m (length ?q)) = take (min m (length ?q)) ?q"
    unfolding q1 by auto
  have "piperead pt2 False pi a2 (int m) s1 = Inr (Returns (int (min m (length ?q))), wake (NWrite pi) s2)"
    using ne r(1) by (simp add: piperead_def run_simps)
  then show ?thesis using w(1) k r(2,3) by (simp add: lu)
qed

theorem pipe_transfer_witness:
  "\<exists>s :: piped. \<exists>k s1 s2. pipewrite 2281697280 (\<lambda>_. False) 7 0 (int 100) 0 s = Inr (Returns (int 100), s1) \<and>
    piperead 2281697280 False 7 200 (int 300) s1 = Inr (Returns (int k), s2) \<and> k = min 300 (length (queue s 7) + 100) \<and>
    ubytes (pm s2) 2281697280 200 k = take k (queue s 7 @ ubytes (pm s) 2281697280 0 100)"
proof -
  obtain s :: piped and ps where s: "pt_inv s 2281697280 ps" "user_sep (pm s) 2281697280 ps"
    "\<And>va. uaddr (pm s) 2281697280 va = (if va < 4096 then Some (2281693184 + va) else None)"
    "pipe_at s 7 = \<lparr>data = (\<lambda>_. 0), nread = 4294967290, nwrite = 4294967290, readopen = True, writeopen = True\<rparr>"
    by (rule extended_space) (rule that)
  have "user_range (pm s) 2281697280 0 100" "user_range (pm s) 2281697280 200 300" by (simp_all add: user_range_def s(3))
  moreover have "readopen (pipe_at s 7)" "(0 :: nat) < 100" "length (queue s 7) + 100 \<le> PIPESIZE"
    by (simp_all add: queue_length s(4) PIPESIZE_def)
  ultimately show ?thesis using pipe_transfer[OF s(1) _ _ _ _ s(1,2), of 0 100 7 200 300] by blast
qed

end
