(* ===== verification/Printf.thy ===== *)
theory Printf
  imports Str
begin

text \<open>
  Formatted output: \<^verbatim>\<open>kernel/printf.c\<close> and \<^verbatim>\<open>user/printf.c\<close>. The functions return the bytes that
  the code passes to \<^verbatim>\<open>consputc\<close> or \<^verbatim>\<open>putc\<close>, in order. Arguments are tagged with their C type; a
  format that asks for an argument that is missing or of another type has no defined result
  (None). Strings are lists of bytes without the final NUL.
\<close>

datatype parg = AInt "32 word" | ALong "64 word" | AStr "byte list option"

definition hex_lower :: "nat \<Rightarrow> byte" where
  "hex_lower d = (if d < 10 then of_nat (48 + d) else of_nat (87 + d))"

definition hex_upper :: "nat \<Rightarrow> byte" where
  "hex_upper d = (if d < 10 then of_nat (48 + d) else of_nat (55 + d))"

text \<open>The digits in the order in which the loop stores them: the lowest first.\<close>

function rev_digits :: "nat \<Rightarrow> nat \<Rightarrow> nat list" where
  "rev_digits base x = x mod base # (if x div base = 0 \<or> base < 2 then [] else rev_digits base (x div base))"
  by auto

termination rev_digits
  by (relation "measure snd") (auto simp: div_eq_0_iff intro!: div_less_dividend gr0I)

declare rev_digits.simps [simp del]

definition printint :: "32 word \<Rightarrow> nat \<Rightarrow> bool \<Rightarrow> byte list" where
  "printint xx base sign =
     (let neg = (sign \<and> xx <s 0); x = (if neg then - xx else xx)
      in (if neg then [45] else []) @ map hex_lower (rev (rev_digits base (unat x))))"

definition uprintint :: "32 word \<Rightarrow> nat \<Rightarrow> bool \<Rightarrow> byte list" where
  "uprintint xx base sg =
     (let neg = (sg \<and> xx <s 0); x = (if neg then - xx else xx)
      in (if neg then [45] else []) @ map hex_upper (rev (rev_digits base (unat x))))"

primrec ptr_loop :: "(nat \<Rightarrow> byte) \<Rightarrow> nat \<Rightarrow> 64 word \<Rightarrow> byte list" where
  "ptr_loop digits 0 x = []"
| "ptr_loop digits (Suc n) x = digits (unat (drop_bit 60 x)) # ptr_loop digits n (push_bit 4 x)"

definition printptr :: "64 word \<Rightarrow> byte list" where
  "printptr x = [48, 120] @ ptr_loop hex_lower 16 x"

definition uprintptr :: "64 word \<Rightarrow> byte list" where
  "uprintptr x = [48, 120] @ ptr_loop hex_upper 16 x"

definition null_str :: "byte list" where
  "null_str = [40, 110, 117, 108, 108, 41]"

definition out :: "byte list \<Rightarrow> byte list option \<Rightarrow> byte list option" where
  "out bs r = map_option (\<lambda>cs. bs @ cs) r"

text \<open>\<^verbatim>\<open>printf\<close> of the kernel; 37 is the percent sign.\<close>

function kprintf :: "byte list \<Rightarrow> parg list \<Rightarrow> byte list option" where
  "kprintf fmt ap = (case fmt of [] \<Rightarrow> Some [] | c # cs \<Rightarrow>
     if c \<noteq> 37 then out [c] (kprintf cs ap)
     else (case cs of [] \<Rightarrow> Some [] | d # ds \<Rightarrow>
       if d = 100 then (case ap of AInt x # ap' \<Rightarrow> out (printint x 10 True) (kprintf ds ap') | _ \<Rightarrow> None)
       else if d = 120 then (case ap of AInt x # ap' \<Rightarrow> out (printint x 16 True) (kprintf ds ap') | _ \<Rightarrow> None)
       else if d = 112 then (case ap of ALong x # ap' \<Rightarrow> out (printptr x) (kprintf ds ap') | _ \<Rightarrow> None)
       else if d = 115 then (case ap of AStr s # ap' \<Rightarrow>
         out (case s of None \<Rightarrow> null_str | Some bs \<Rightarrow> bs) (kprintf ds ap') | _ \<Rightarrow> None)
       else if d = 37 then out [37] (kprintf ds ap)
       else out [37, d] (kprintf ds ap)))"
  by pat_completeness auto

termination kprintf
  by (relation "measure (length \<circ> fst)") auto

declare kprintf.simps [simp del]

text \<open>
  \<^verbatim>\<open>vprintf\<close> of the user library: a state machine whose state says whether a percent sign has
  been seen.
\<close>

fun vprintf :: "bool \<Rightarrow> byte list \<Rightarrow> parg list \<Rightarrow> byte list option" where
  "vprintf state [] ap = Some []"
| "vprintf False (c # cs) ap = (if c = 37 then vprintf True cs ap else out [c] (vprintf False cs ap))"
| "vprintf True (c # cs) ap =
     (if c = 100 then (case ap of AInt x # ap' \<Rightarrow> out (uprintint x 10 True) (vprintf False cs ap') | _ \<Rightarrow> None)
      else if c = 108 then (case ap of ALong x # ap' \<Rightarrow> out (uprintint (ucast x) 10 False) (vprintf False cs ap') | _ \<Rightarrow> None)
      else if c = 120 then (case ap of AInt x # ap' \<Rightarrow> out (uprintint x 16 False) (vprintf False cs ap') | _ \<Rightarrow> None)
      else if c = 112 then (case ap of ALong x # ap' \<Rightarrow> out (uprintptr x) (vprintf False cs ap') | _ \<Rightarrow> None)
      else if c = 115 then (case ap of AStr s # ap' \<Rightarrow>
        out (case s of None \<Rightarrow> null_str | Some bs \<Rightarrow> bs) (vprintf False cs ap') | _ \<Rightarrow> None)
      else if c = 99 then (case ap of AInt x # ap' \<Rightarrow> out [ucast x] (vprintf False cs ap') | _ \<Rightarrow> None)
      else if c = 37 then out [c] (vprintf False cs ap)
      else out [37, c] (vprintf False cs ap))"

definition uprintf :: "byte list \<Rightarrow> parg list \<Rightarrow> byte list option" where
  "uprintf fmt ap = vprintf False fmt ap"

section \<open>Numbers\<close>

definition num_val :: "nat \<Rightarrow> nat list \<Rightarrow> nat" where
  "num_val base ds = foldl (\<lambda>v d. v * base + d) 0 ds"

lemma num_val_snoc: "num_val base (ds @ [d]) = num_val base ds * base + d"
  by (simp add: num_val_def)

lemma rev_digits_val: "2 \<le> base \<Longrightarrow> num_val base (rev (rev_digits base x)) = x"
proof (induction base x rule: rev_digits.induct)
  case (1 base x)
  show ?case
  proof (cases "x div base = 0")
    case True
    then have "x < base" using 1(2) by (simp add: div_eq_0_iff)
    then show ?thesis using True by (subst rev_digits.simps) (simp add: num_val_def)
  next
    case False
    then have "rev_digits base x = x mod base # rev_digits base (x div base)" using 1(2) by (subst rev_digits.simps) simp
    then show ?thesis using 1(1)[OF _ 1(2)] False 1(2) by (simp add: num_val_snoc)
  qed
qed

lemma rev_digits_less: "2 \<le> base \<Longrightarrow> d \<in> set (rev_digits base x) \<Longrightarrow> d < base"
proof (induction base x rule: rev_digits.induct)
  case (1 base x)
  then show ?case by (subst (asm) (2) rev_digits.simps) (auto split: if_splits)
qed

lemma rev_digits_not_Nil: "rev_digits base x \<noteq> []"
  by (subst rev_digits.simps) simp

lemma unat_digit: "d < 10 \<Longrightarrow> unat (hex_upper d) = 48 + d" "d < 10 \<Longrightarrow> unat (hex_lower d) = 48 + d"
  by (simp_all add: hex_upper_def hex_lower_def del: of_nat_add)

lemma foldl_digits_ge: "(v :: nat) \<le> foldl (\<lambda>v d. v * 10 + d) v ds"
proof (induction ds arbitrary: v)
  case (Cons d ds)
  have "v \<le> v * 10 + d" by simp
  also have "\<dots> \<le> foldl (\<lambda>v d. v * 10 + d) v (d # ds)" using Cons.IH[of "v * 10 + d"] by simp
  finally show ?case .
qed simp

text \<open>What \<^verbatim>\<open>atoi\<close> makes of a string of decimal digits.\<close>

lemma atoi_loop_digits:
  assumes "\<forall>d \<in> set ds. d < 10" "load_bytes m s (length ds) = map hex_upper ds" "m (s + length ds) = 0"
  defines "val n \<equiv> foldl (\<lambda>v d. v * 10 + d) n ds"
  shows "atoi_loop m s (int n) = Some (if ds = [] \<or> val n + 48 < 2 ^ 31 then Inr (int (val n)) else Inl ''overflow'')"
  using assms(1-3) unfolding val_def
proof (induction ds arbitrary: s n)
  case Nil
  then show ?case by (subst atoi_loop.simps) simp
next
  case (Cons d ds)
  have ms: "m s = hex_upper d" "load_bytes m (s + 1) (length ds) = map hex_upper ds"
    using Cons.prems(2) by (simp_all add: load_bytes_Suc)
  have d: "d < 10" using Cons.prems(1) by simp
  have r: "48 \<le> m s \<and> m s \<le> 57" using unat_digit(1)[OF d] d by (simp add: ms word_le_nat_alt)
  have u: "uint (m s) = int (48 + d)" unfolding ms(1) using unat_digit(1)[OF d] by (metis of_nat_unat)
  have v: "int n * 10 + uint (m s) - 48 = int (n * 10 + d)" "int n * 10 + uint (m s) = int (n * 10 + d + 48)" using u by simp_all
  show ?case
  proof (cases "n * 10 + d + 48 < 2 ^ 31")
    case True
    then have "int n * 10 + uint (m s) < 2 ^ 31" unfolding v(2) by (metis of_nat_less_iff of_nat_numeral of_nat_power)
    then have "atoi_loop m s (int n) = atoi_loop m (s + 1) (int (n * 10 + d))"
      using r by (subst atoi_loop.simps) (simp only: if_True simp_thms v(1))
    also have "\<dots> = Some (if ds = [] \<or> foldl (\<lambda>v d. v * 10 + d) (n * 10 + d) ds + 48 < 2 ^ 31
      then Inr (int (foldl (\<lambda>v d. v * 10 + d) (n * 10 + d) ds)) else Inl ''overflow'')"
      by (rule Cons.IH) (use Cons.prems ms in auto)
    finally show ?thesis using True by auto
  next
    case False
    then have "\<not> int n * 10 + uint (m s) < 2 ^ 31" unfolding v(2) by (metis of_nat_less_iff of_nat_numeral of_nat_power)
    then have "atoi_loop m s (int n) = Some (Inl ''overflow'')" using r by (subst atoi_loop.simps) simp
    moreover have "\<not> foldl (\<lambda>v d. v * 10 + d) n (d # ds) + 48 < 2 ^ 31"
      using False foldl_digits_ge[of "n * 10 + d" ds] by simp
    ultimately show ?thesis by simp
  qed
qed

lemma rev_digits_length: "2 \<le> base \<Longrightarrow> x < base ^ Suc n \<Longrightarrow> length (rev_digits base x) \<le> Suc n"
proof (induction n arbitrary: x)
  case 0
  then show ?case by (subst rev_digits.simps) (simp add: div_eq_0_iff)
next
  case (Suc n)
  have "x div base < base ^ Suc n" using Suc.prems by (intro less_mult_imp_div_less) (simp add: mult.commute)
  then show ?case using Suc by (subst rev_digits.simps) simp
qed

lemma uint_mod: "uint (x :: 32 word) = sint x mod 2 ^ 32"
  by (simp add: uint_sint take_bit_eq_mod)

lemma neg_abs: "x <s 0 \<Longrightarrow> unat (- x) = nat \<bar>sint (x :: 32 word)\<bar>"
proof -
  assume "x <s 0"
  then have neg: "sint x < 0" by (simp add: word_sless_alt)
  have lo: "- (2 ^ 31) \<le> sint x" using sint_ge[of x] by simp
  have "uint (- x) = (- (sint x mod 2 ^ 32)) mod 2 ^ 32" using uint_word_ariths(4)[of x] uint_mod[of x] by simp
  also have "\<dots> = (- sint x) mod 2 ^ 32" by (rule mod_minus_eq)
  also have "\<dots> = - sint x" using neg lo by (intro mod_pos_pos_trivial) auto
  finally show ?thesis using neg nat_uint_eq[of "- x"] by simp
qed

lemma nonneg_abs: "\<not> x <s 0 \<Longrightarrow> unat x = nat \<bar>sint (x :: 32 word)\<bar>"
proof -
  assume "\<not> x <s 0"
  then have nn: "0 \<le> sint x" by (simp add: word_sless_alt)
  have "sint x < 2 ^ 31" using sint_lt[of x] by simp
  have "uint x = sint x mod 2 ^ 32" by (rule uint_mod)
  also have "\<dots> = sint x" using nn \<open>sint x < 2 ^ 31\<close> by (intro mod_pos_pos_trivial) auto
  finally show ?thesis using nn nat_uint_eq[of x] by simp
qed

section \<open>Properties\<close>

text \<open>
  \<^verbatim>\<open>printint\<close> prints the value of its argument: an optional minus sign and the digits of the
  absolute value in the base, also for the smallest integer, and never more than eleven
  characters, which fit into its 16-byte buffer.
\<close>

theorem printint_value:
  assumes "base = 10 \<or> base = 16"
  shows "\<exists>ds. printint x base sign = (if sign \<and> sint x < 0 then [45] else []) @ map hex_lower ds \<and> (\<forall>d \<in> set ds. d < base) \<and>
    num_val base ds = (if sign then nat \<bar>sint x\<bar> else unat x) \<and> length (printint x base sign) \<le> 11"
proof -
  let ?n = "sign \<and> x <s 0" let ?y = "unat (if ?n then - x else x)" let ?ds = "rev (rev_digits base ?y)"
  have b: "2 \<le> base" using assms by auto
  have neg: "x <s 0 \<longleftrightarrow> sint x < 0" by (simp add: word_sless_alt)
  have p: "printint x base sign = (if sign \<and> sint x < 0 then [45] else []) @ map hex_lower ?ds"
    by (simp add: printint_def Let_def neg)
  have v: "num_val base ?ds = (if sign then nat \<bar>sint x\<bar> else unat x)"
    unfolding rev_digits_val[OF b] using neg_abs[of x] nonneg_abs[of x] by auto
  have "?y < 2 ^ 32" using unsigned_less[of "if ?n then - x else x"] by simp
  moreover have "(2::nat) ^ 32 \<le> base ^ Suc 9" using assms by auto
  ultimately have "length ?ds \<le> 10" using rev_digits_length[OF b, of ?y 9] by simp
  then have "length (printint x base sign) \<le> 11" unfolding p length_append length_map by (auto split: if_splits)
  moreover have "\<forall>d \<in> set ?ds. d < base" using rev_digits_less[OF b] by auto
  ultimately show ?thesis using p v by (intro exI[of _ ?ds]) simp
qed

theorem printint_value_witness:
  "\<exists>ds. printint 0x80000000 10 True = [45] @ map hex_lower ds \<and> num_val 10 ds = 2147483648"
  using printint_value[of 10 "0x80000000" True] by auto

text \<open>
  C39. Reading back what \<^verbatim>\<open>printf\<close> of the user library prints for \<^verbatim>\<open>%d\<close>, for every \<^verbatim>\<open>int\<close> but the smallest, which \<^verbatim>\<open>printf\<close> cannot
  negate: \<^verbatim>\<open>atoi\<close> returns the number if it is at least 0 and below 2147483600. It returns 0 for a negative number, as it does not know
  the minus sign, and it overflows for the 48 largest ones, since it adds the last character before it subtracts \<^verbatim>\<open>'0'\<close>.
\<close>

theorem printf_atoi:
  assumes "uprintf [37, 100] [AInt x] = Some bs" "cstring m s bs" "- (2 ^ 31) < sint x"
  shows "atoi m s = Some (if sint x < 0 then Inr 0 else if sint x < 2147483600 then Inr (sint x) else Inl ''overflow'')"
proof (cases "sint x < 0")
  case True
  have "bs = 45 # map hex_upper (rev (rev_digits 10 (unat (- x))))"
    using assms(1) True by (auto simp: uprintf_def out_def uprintint_def word_sless_alt)
  then have "m s = 45" using assms(2) by (simp add: cstring_def load_bytes_Suc)
  then show ?thesis using True unfolding atoi_def by (subst atoi_loop.simps) simp
next
  case False
  let ?ds = "rev (rev_digits 10 (unat x))"
  have p: "bs = map hex_upper ?ds" using assms(1) False by (auto simp: uprintf_def out_def uprintint_def word_sless_alt)
  have x: "int (unat x) = sint x" using nonneg_abs[of x] False by (simp add: word_sless_alt)
  have d: "\<forall>d \<in> set ?ds. d < 10" using rev_digits_less[of 10] by auto
  have l: "load_bytes m s (length ?ds) = map hex_upper ?ds" "m (s + length ?ds) = 0"
    using assms(2) unfolding cstring_def p by auto
  have "foldl (\<lambda>v d. v * 10 + d) 0 ?ds = unat x" using rev_digits_val[of 10 "unat x"] by (simp add: num_val_def)
  then have "atoi m s = Some (if unat x + 48 < 2 ^ 31 then Inr (int (unat x)) else Inl ''overflow'')"
    using atoi_loop_digits[OF d l, of 0] rev_digits_not_Nil[of 10 "unat x"] by (simp add: atoi_def)
  moreover have "unat x + 48 < 2 ^ 31 \<longleftrightarrow> sint x < 2147483600" using x by (simp flip: of_nat_less_iff[where 'a = int])
  ultimately show ?thesis using False by (simp only: x if_False)
qed

theorem printf_atoi_witness: "atoi (store_bytes (\<lambda>_. 0) 100 [52, 50]) 100 = Some (Inr 42)"
proof -
  have "rev_digits 10 42 = [2, 4]" by (simp add: rev_digits.simps)
  then have "uprintf [37, 100] [AInt 42] = Some [52, 50]" by (simp add: uprintf_def out_def uprintint_def hex_upper_def word_sless_alt)
  moreover have "cstring (store_bytes (\<lambda>_. 0) 100 [52, 50]) 100 [52, 50]"
    by (simp add: cstring_def load_bytes_def store_bytes_def)
  ultimately show ?thesis using printf_atoi[of 42 "[52, 50]" _ 100] by simp
qed

text \<open>\<^verbatim>\<open>%l\<close> of the user library prints the low 32 bits of its 64-bit argument only.\<close>

lemma vprintf_l_truncates: "uprintf [37, 108] [ALong 0x100000001] = Some [49]"
  by (simp add: uprintf_def out_def uprintint_def rev_digits.simps hex_upper_def)

end
