(* ===== verification/Console.thy ===== *)
theory Console
  imports Pipe Printf
begin

text \<open>
  The console and the serial line, \<^verbatim>\<open>kernel/console.c\<close>, \<^verbatim>\<open>kernel/uart.c\<close> and the output side of
  \<^verbatim>\<open>kernel/printf.c\<close>. The device is seen through its registers: the bytes that wait to be
  received, the successive readings of the transmitter-idle bit (when none is left the
  transmitter is not idle), and the bytes written to the transmit register. Spinning on the
  device and sleeping are values of the error type.
\<close>

record ttyd = piped +
  rx :: "byte list"
  tx_idle :: "bool list"
  sent :: "byte list"
  uart_tx_buf :: "nat \<Rightarrow> byte"
  uart_tx_w :: "64 word"
  uart_tx_r :: "64 word"
  cons_buf :: "nat \<Rightarrow> byte"
  cons_r :: "32 word"
  cons_w :: "32 word"
  cons_e :: "32 word"
  chan_wakes :: "string list"
  panicked :: bool

type_synonym ('z, 'a) tprog = "('z ttyd_scheme, kerr, 'a) comp"

definition UART_TX_BUF_SIZE :: nat where
  "UART_TX_BUF_SIZE = 32"

definition INPUT_BUF_SIZE :: nat where
  "INPUT_BUF_SIZE = 128"

section \<open>The serial line\<close>

definition lsr_tx_idle :: "('z, bool) tprog" where
  "lsr_tx_idle = bnd (gets tx_idle) (\<lambda>l. case l of [] \<Rightarrow> ret False | b # bs \<Rightarrow> sq (upd (\<lambda>s. s\<lparr>tx_idle := bs\<rparr>)) (ret b))"

definition write_thr :: "byte \<Rightarrow> ('z, unit) tprog" where
  "write_thr c = upd (\<lambda>s. s\<lparr>sent := sent s @ [c]\<rparr>)"

definition wakeup_chan :: "string \<Rightarrow> ('z, unit) tprog" where
  "wakeup_chan ch = upd (\<lambda>s. s\<lparr>chan_wakes := chan_wakes s @ [ch]\<rparr>)"

text \<open>Each round of the loop of \<^verbatim>\<open>uartstart\<close> reads the line status once.\<close>

function uartstart :: "('z, unit) tprog" where
  "uartstart s =
     (if uart_tx_w s = uart_tx_r s then Inr ((), s)
      else case tx_idle s of [] \<Rightarrow> Inr ((), s) | b # bs \<Rightarrow>
        let s1 = s\<lparr>tx_idle := bs\<rparr> in
        if \<not> b then Inr ((), s1)
        else let c = uart_tx_buf s1 (unat (uart_tx_r s1) mod UART_TX_BUF_SIZE) in
        uartstart (s1\<lparr>uart_tx_r := uart_tx_r s1 + 1, chan_wakes := chan_wakes s1 @ [''uart_tx_r''], sent := sent s1 @ [c]\<rparr>))"
  by auto

termination uartstart
  by (relation "measure (\<lambda>s. length (tx_idle s))") (auto simp: Let_def)

declare uartstart.simps [simp del]

definition uartputc :: "byte \<Rightarrow> ('z, unit) tprog" where
  "uartputc c = bnd (gets panicked) (\<lambda>p. if p then fail (Sleeps ''panicked'') else
     bnd (gets (\<lambda>s. uart_tx_w s = uart_tx_r s + of_nat UART_TX_BUF_SIZE)) (\<lambda>full.
     if full then fail (Sleeps ''uart_tx_r'') else
     sq (upd (\<lambda>s. s\<lparr>uart_tx_buf := (uart_tx_buf s)(unat (uart_tx_w s) mod UART_TX_BUF_SIZE := c), uart_tx_w := uart_tx_w s + 1\<rparr>))
     uartstart))"

text \<open>\<^verbatim>\<open>uartputc_sync\<close> spins on the line status until the transmitter is idle.\<close>

primrec spin_idle :: "bool list \<Rightarrow> bool list option" where
  "spin_idle [] = None"
| "spin_idle (b # bs) = (if b then Some bs else spin_idle bs)"

definition uartputc_sync :: "byte \<Rightarrow> ('z, unit) tprog" where
  "uartputc_sync c = bnd (gets panicked) (\<lambda>p. if p then fail (Sleeps ''panicked'') else
     bnd (gets (\<lambda>s. spin_idle (tx_idle s))) (\<lambda>l. case l of None \<Rightarrow> fail (Sleeps ''LSR'')
     | Some bs \<Rightarrow> sq (upd (\<lambda>s. s\<lparr>tx_idle := bs\<rparr>)) (write_thr c)))"

definition uartgetc :: "('z, int) tprog" where
  "uartgetc = bnd (gets rx) (\<lambda>l. case l of [] \<Rightarrow> ret (- 1) | c # cs \<Rightarrow> sq (upd (\<lambda>s. s\<lparr>rx := cs\<rparr>)) (ret (uint c)))"

section \<open>The console\<close>

definition BACKSPACE :: int where
  "BACKSPACE = 0x100"

definition consputc :: "int \<Rightarrow> ('z, unit) tprog" where
  "consputc c = (if c = BACKSPACE then sq (uartputc_sync 8) (sq (uartputc_sync 32) (uartputc_sync 8))
     else uartputc_sync (word_of_int c))"

definition either_copyout :: "nat \<Rightarrow> bool \<Rightarrow> nat \<Rightarrow> byte list \<Rightarrow> ('z, int) kprog" where
  "either_copyout pagetable user_dst dst src = (if user_dst then copyout pagetable dst src
     else sq (mem_upd (\<lambda>m. store_bytes m dst src)) (ret 0))"

definition either_copyin :: "nat \<Rightarrow> bool \<Rightarrow> nat \<Rightarrow> nat \<Rightarrow> ('z, int \<times> byte list) kprog" where
  "either_copyin pagetable user_src src len = (if user_src then copyin pagetable src len
     else gets (\<lambda>s. (0, load_bytes (pm s) src len)))"

text \<open>\<^verbatim>\<open>consolewrite\<close>, the loop by the number of bytes left; \<open>i\<close> bytes are done.\<close>

primrec consolewrite_loop :: "nat \<Rightarrow> bool \<Rightarrow> nat \<Rightarrow> nat \<Rightarrow> nat \<Rightarrow> ('z, int) tprog" where
  "consolewrite_loop pagetable user_src src 0 i = ret (int i)"
| "consolewrite_loop pagetable user_src src (Suc n) i =
     bnd (either_copyin pagetable user_src (src + i) 1) (\<lambda>(r, bs). if r = - 1 then ret (int i) else
     sq (uartputc (hd bs)) (consolewrite_loop pagetable user_src src n (Suc i)))"

definition consolewrite :: "nat \<Rightarrow> bool \<Rightarrow> nat \<Rightarrow> int \<Rightarrow> ('z, int) tprog" where
  "consolewrite pagetable user_src src n = consolewrite_loop pagetable user_src src (nat n) 0"

text \<open>
  \<^verbatim>\<open>consoleread\<close> with \<open>i\<close> bytes copied so far out of \<open>target\<close>; it runs until it returns or goes to
  sleep for more input.
\<close>

function consoleread :: "nat \<Rightarrow> (nat \<Rightarrow> bool) \<Rightarrow> bool \<Rightarrow> nat \<Rightarrow> int \<Rightarrow> nat \<Rightarrow> ('z, seg) tprog" where
  "consoleread pagetable killed user_dst dst target i s =
     (if int i < target then
        if cons_r s = cons_w s then (if killed i then Inr (Returns (- 1), s) else Inr (Asleep i, s))
        else let c = cons_buf s (unat (cons_r s) mod INPUT_BUF_SIZE); s1 = s\<lparr>cons_r := cons_r s + 1\<rparr> in
        if c = 4 then Inr (Returns (int i), if i > 0 then s1\<lparr>cons_r := cons_r s1 - 1\<rparr> else s1)
        else case either_copyout pagetable user_dst (dst + i) [c] s1 of Inl e \<Rightarrow> Inl e | Inr (r, s2) \<Rightarrow>
          if r = - 1 then Inr (Returns (int i), s2)
          else if c = 10 then Inr (Returns (int i + 1), s2)
          else consoleread pagetable killed user_dst dst target (Suc i) s2
      else Inr (Returns (int i), s))"
  by auto

termination consoleread
  by (relation "measure (\<lambda>(pt, k, u, d, n, i, s). nat (n - int i))") auto

declare consoleread.simps [simp del]

text \<open>The loop of the kill-line character; it erases at most the unfinished line.\<close>

function kill_line :: "('z, unit) tprog" where
  "kill_line s = (if cons_e s \<noteq> cons_w s \<and> cons_buf s (unat (cons_e s - 1) mod INPUT_BUF_SIZE) \<noteq> 10
     then case consputc BACKSPACE (s\<lparr>cons_e := cons_e s - 1\<rparr>) of Inl e \<Rightarrow> Inl e | Inr (u, s1) \<Rightarrow> kill_line s1
     else Inr ((), s))"
  by auto

definition echo :: "int \<Rightarrow> byte list" where
  "echo c = (if c = BACKSPACE then [8, 32, 8] else [word_of_int c])"

lemma spin_idle_len: "spin_idle l = Some bs \<Longrightarrow> length bs < length l"
  by (induction l) (auto split: if_splits)

lemma uartputc_sync_len: "uartputc_sync c s = Inr (u, s') \<Longrightarrow>
    \<exists>bs. length bs < length (tx_idle s) \<and> s' = s\<lparr>tx_idle := bs, sent := sent s @ [c]\<rparr>"
  by (auto simp: uartputc_sync_def run_simps write_thr_def bnd_def split: if_splits option.splits) (use spin_idle_len in blast)

lemma consputc_len: "consputc c s = Inr (u, s') \<Longrightarrow>
    \<exists>bs. length bs < length (tx_idle s) \<and> s' = s\<lparr>tx_idle := bs, sent := sent s @ echo c\<rparr>"
proof (cases "c = BACKSPACE")
  case True
  assume "consputc c s = Inr (u, s')"
  then obtain s1 s2 where r: "uartputc_sync 8 s = Inr ((), s1)" "uartputc_sync 32 s1 = Inr ((), s2)" "uartputc_sync 8 s2 = Inr (u, s')"
    using True by (auto simp: consputc_def sq_def bnd_def split: sum.splits prod.splits)
  obtain b1 b2 b3 where "length b1 < length (tx_idle s)" "s1 = s\<lparr>tx_idle := b1, sent := sent s @ [8]\<rparr>"
    "length b2 < length (tx_idle s1)" "s2 = s1\<lparr>tx_idle := b2, sent := sent s1 @ [32]\<rparr>"
    "length b3 < length (tx_idle s2)" "s' = s2\<lparr>tx_idle := b3, sent := sent s2 @ [8]\<rparr>"
    using r[THEN uartputc_sync_len] by blast
  then show ?thesis using True by (intro exI[of _ b3]) (simp add: echo_def)
next
  case False
  assume "consputc c s = Inr (u, s')"
  then have "uartputc_sync (word_of_int c) s = Inr (u, s')" using False by (simp add: consputc_def)
  from uartputc_sync_len[OF this] show ?thesis using False by (simp add: echo_def)
qed

termination kill_line
  by (relation "measure (\<lambda>s. length (tx_idle s))") (auto dest!: consputc_len)

declare kill_line.simps [simp del]

text \<open>The interrupt handler for one input character; \<^verbatim>\<open>procdump\<close> only prints.\<close>

definition consoleintr :: "('z, unit) tprog \<Rightarrow> int \<Rightarrow> ('z, unit) tprog" where
  "consoleintr procdump c =
     (if c = 16 then procdump
      else if c = 21 then kill_line
      else if c = 8 \<or> c = 127 then
        bnd (gets (\<lambda>s. cons_e s \<noteq> cons_w s)) (\<lambda>b.
        if b then sq (upd (\<lambda>s. s\<lparr>cons_e := cons_e s - 1\<rparr>)) (consputc BACKSPACE) else ret ())
      else bnd (gets (\<lambda>s. unat (cons_e s - cons_r s) < INPUT_BUF_SIZE)) (\<lambda>room.
        if c \<noteq> 0 \<and> room then
          let c = (if c = 13 then 10 else c) in
          sq (consputc c)
          (sq (upd (\<lambda>s. s\<lparr>cons_buf := (cons_buf s)(unat (cons_e s) mod INPUT_BUF_SIZE := word_of_int c), cons_e := cons_e s + 1\<rparr>))
          (bnd (gets (\<lambda>s. unat (cons_e s - cons_r s) = INPUT_BUF_SIZE)) (\<lambda>full.
           if c = 10 \<or> c = 4 \<or> full
           then sq (upd (\<lambda>s. s\<lparr>cons_w := cons_e s\<rparr>)) (wakeup_chan ''cons.r'') else ret ())))
        else ret ()))"

text \<open>\<^verbatim>\<open>uartintr\<close>: all input that has arrived, then the output that waits.\<close>

primrec uart_input :: "('z, unit) tprog \<Rightarrow> byte list \<Rightarrow> ('z, unit) tprog" where
  "uart_input procdump [] = ret ()"
| "uart_input procdump (c # cs) = sq (upd (\<lambda>s. s\<lparr>rx := cs\<rparr>)) (sq (consoleintr procdump (uint c)) (uart_input procdump cs))"

definition uartintr :: "('z, unit) tprog \<Rightarrow> ('z, unit) tprog" where
  "uartintr procdump = bnd (gets rx) (\<lambda>cs. sq (uart_input procdump cs) uartstart)"

primrec consputs :: "byte list \<Rightarrow> ('z, unit) tprog" where
  "consputs [] = ret ()"
| "consputs (c # cs) = sq (consputc (uint c)) (consputs cs)"

text \<open>\<^verbatim>\<open>printf\<close> to the console and \<^verbatim>\<open>panic\<close>, which never returns.\<close>

definition console_printf :: "byte list option \<Rightarrow> parg list \<Rightarrow> ('z, unit) tprog" where
  "console_printf fmt ap = (case fmt of None \<Rightarrow> panic ''null fmt'' | Some f \<Rightarrow>
     (case kprintf f ap of None \<Rightarrow> fail NoFuel | Some bs \<Rightarrow> consputs bs))"

section \<open>Output order\<close>

definition txq :: "'z ttyd_scheme \<Rightarrow> byte list" where
  "txq s = ring_content UART_TX_BUF_SIZE (uart_tx_buf s) (uart_tx_r s) (uart_tx_w s)"

lemma txq_length: "length (txq s) = unat (uart_tx_w s - uart_tx_r s)"
  by (simp add: txq_def uart_ring.length_content UART_TX_BUF_SIZE_def)

lemma txq_full: "uart_tx_w s = uart_tx_r s + of_nat UART_TX_BUF_SIZE \<longleftrightarrow> length (txq s) = UART_TX_BUF_SIZE"
  using uart_ring.full_iff[of "uart_tx_w s" "uart_tx_r s"] by (simp add: txq_length UART_TX_BUF_SIZE_def)

lemma txq_empty: "uart_tx_w s = uart_tx_r s \<longleftrightarrow> txq s = []"
  using uart_ring.empty_iff by (auto simp: txq_def UART_TX_BUF_SIZE_def)

text \<open>\<^verbatim>\<open>uartstart\<close> sends from the front of the queue, and only stops early on a busy transmitter.\<close>

lemma uartstart_run:
  "\<exists>s' k. uartstart s = Inr ((), s') \<and> k \<le> length (txq s) \<and> sent s' = sent s @ take k (txq s) \<and> txq s' = drop k (txq s) \<and>
    (txq s' = [] \<or> k \<le> length (tx_idle s) \<and> (k = length (tx_idle s) \<or> \<not> tx_idle s ! k))"
proof (induction s rule: uartstart.induct)
  case (1 s)
  show ?case
  proof (cases "txq s")
    case Nil
    then show ?thesis using txq_empty[of s] by (subst uartstart.simps) auto
  next
    case (Cons c q)
    have ne: "uart_tx_w s \<noteq> uart_tx_r s" using txq_empty[of s] Cons by simp
    show ?thesis
    proof (cases "tx_idle s")
      case Nil
      then show ?thesis using ne by (subst uartstart.simps) (auto intro!: exI[of _ 0])
    next
      case idle: (Cons b bs)
      show ?thesis
      proof (cases b)
        case False
        then show ?thesis using ne idle by (subst uartstart.simps) (auto intro!: exI[of _ 0] simp: txq_def)
      next
        case True
        let ?c = "uart_tx_buf s (unat (uart_tx_r s) mod UART_TX_BUF_SIZE)"
        let ?s = "s\<lparr>tx_idle := bs, uart_tx_r := uart_tx_r s + 1, chan_wakes := chan_wakes s @ [''uart_tx_r''], sent := sent s @ [?c]\<rparr>"
        have q: "txq s = ?c # txq ?s"
          using uart_ring.take_one[of "uart_tx_r s" "uart_tx_w s"] ne by (simp add: txq_def UART_TX_BUF_SIZE_def)
        have st: "uartstart s = uartstart ?s" using ne idle True by (subst uartstart.simps) (simp add: Let_def)
        have "\<exists>s' k. uartstart ?s = Inr ((), s') \<and> k \<le> length (txq ?s) \<and> sent s' = sent ?s @ take k (txq ?s) \<and> txq s' = drop k (txq ?s) \<and>
            (txq s' = [] \<or> k \<le> length bs \<and> (k = length bs \<or> \<not> bs ! k))"
          using "1.IH"[OF ne idle refl _ refl] True by simp
        then obtain s' k where "uartstart ?s = Inr ((), s')" "k \<le> length (txq ?s)" "sent s' = sent ?s @ take k (txq ?s)"
          "txq s' = drop k (txq ?s)" "txq s' = [] \<or> k \<le> length bs \<and> (k = length bs \<or> \<not> bs ! k)" by blast
        then show ?thesis using q st idle by (intro exI[of _ s'] exI[of _ "Suc k"]) auto
      qed
    qed
  qed
qed

text \<open>
  C31. Characters leave the serial line in the order in which \<^verbatim>\<open>uartputc\<close> was called: what has been
  sent followed by what waits in the transmit buffer is the sequence of characters accepted.
  The caller sleeps exactly when the buffer is full, and the buffer never overflows.
\<close>

theorem uartputc_fifo:
  assumes "\<not> panicked s" "length (txq s) \<le> UART_TX_BUF_SIZE"
  shows "(length (txq s) = UART_TX_BUF_SIZE \<longrightarrow> uartputc c s = Inl (Sleeps ''uart_tx_r'')) \<and>
    (length (txq s) < UART_TX_BUF_SIZE \<longrightarrow> (\<exists>s'. uartputc c s = Inr ((), s') \<and> sent s' @ txq s' = sent s @ txq s @ [c] \<and>
       length (txq s') \<le> UART_TX_BUF_SIZE))"
proof (intro conjI impI)
  assume "length (txq s) = UART_TX_BUF_SIZE"
  then show "uartputc c s = Inl (Sleeps ''uart_tx_r'')"
    using assms(1) txq_full[of s] by (simp add: uartputc_def run_simps)
next
  assume l: "length (txq s) < UART_TX_BUF_SIZE"
  let ?s = "s\<lparr>uart_tx_buf := (uart_tx_buf s)(unat (uart_tx_w s) mod UART_TX_BUF_SIZE := c), uart_tx_w := uart_tx_w s + 1\<rparr>"
  have q: "txq ?s = txq s @ [c]"
    using uart_ring.put[of "uart_tx_w s" "uart_tx_r s" "uart_tx_buf s" c] l by (simp add: txq_def UART_TX_BUF_SIZE_def txq_length uart_ring.length_content)
  have "uartputc c s = uartstart ?s" using assms(1) l txq_full[of s] by (simp add: uartputc_def run_simps)
  moreover obtain s' k where u: "uartstart ?s = Inr ((), s')" "sent s' = sent s @ take k (txq s @ [c])" "txq s' = drop k (txq s @ [c])"
    using uartstart_run[of ?s] q by auto
  have "sent s' @ txq s' = sent s @ txq s @ [c]" unfolding u(2,3) append.assoc append_take_drop_id ..
  moreover have "length (txq s') \<le> UART_TX_BUF_SIZE" using u(3) l by simp
  ultimately show "\<exists>s'. uartputc c s = Inr ((), s') \<and> sent s' @ txq s' = sent s @ txq s @ [c] \<and> length (txq s') \<le> UART_TX_BUF_SIZE"
    using u(1) by auto
qed

definition blank_tty :: ttyd where
  "blank_tty = \<lparr>pm = (\<lambda>_. 0), freelist = 0, kend = 0, pipe_at = undefined, wakes = [], rx = [], tx_idle = replicate 400 True, sent = [],
     uart_tx_buf = (\<lambda>_. 0), uart_tx_w = 0, uart_tx_r = 0, cons_buf = (\<lambda>_. 0), cons_r = 0, cons_w = 0, cons_e = 0,
     chan_wakes = [], panicked = False\<rparr>"

theorem uartputc_fifo_witness:
  "\<exists>s'. uartputc 65 blank_tty = Inr ((), s') \<and> sent s' @ txq s' = [65]"
proof -
  have "\<not> panicked blank_tty" "length (txq blank_tty) = 0" "txq blank_tty = []" "sent blank_tty = []"
    by (simp_all add: blank_tty_def txq_length txq_def ring_content_def)
  then show ?thesis using uartputc_fifo[of blank_tty 65] by (auto simp: UART_TX_BUF_SIZE_def)
qed

section \<open>Line editing\<close>

text \<open>What a reader can get, and the line that is being typed.\<close>

definition committed :: "'z ttyd_scheme \<Rightarrow> byte list" where
  "committed s = ring_content INPUT_BUF_SIZE (cons_buf s) (cons_r s) (cons_w s)"

definition pending :: "'z ttyd_scheme \<Rightarrow> byte list" where
  "pending s = ring_content INPUT_BUF_SIZE (cons_buf s) (cons_w s) (cons_e s)"

definition cons_inv :: "'z ttyd_scheme \<Rightarrow> bool" where
  "cons_inv s \<longleftrightarrow> length (committed s) + length (pending s) \<le> INPUT_BUF_SIZE \<and> 10 \<notin> set (pending s)"

text \<open>The line editor that the handler implements, on the two lists.\<close>

definition edit :: "int \<Rightarrow> byte list \<times> byte list \<Rightarrow> byte list \<times> byte list" where
  "edit c = (\<lambda>(cm, pd).
     if c = 16 then (cm, pd)
     else if c = 21 then (cm, [])
     else if c = 8 \<or> c = 127 then (cm, butlast pd)
     else if c \<noteq> 0 \<and> length cm + length pd < INPUT_BUF_SIZE then
       let c = (if c = 13 then 10 else c); pd' = pd @ [word_of_int c] in
       if c = 10 \<or> c = 4 \<or> length cm + length pd' = INPUT_BUF_SIZE then (cm @ pd', []) else (cm, pd')
     else (cm, pd))"

lemma cons_lengths: "length (committed s) = unat (cons_w s - cons_r s)" "length (pending s) = unat (cons_e s - cons_w s)"
  by (simp_all add: committed_def pending_def cons_ring.length_content INPUT_BUF_SIZE_def)

lemma cons_room:
  assumes "cons_inv s"
  shows "unat (cons_w s - cons_r s) + unat (cons_e s - cons_w s) \<le> 128"
    "unat (cons_e s - cons_r s) = length (committed s) + length (pending s)"
  using assms cons_ring.sum_room[of "cons_w s" "cons_r s" "cons_e s"] by (auto simp: cons_inv_def cons_lengths INPUT_BUF_SIZE_def)

lemma uartputc_sync_idle:
  "\<not> panicked s \<Longrightarrow> tx_idle s = True # bs \<Longrightarrow> uartputc_sync c s = Inr ((), s\<lparr>tx_idle := bs, sent := sent s @ [c]\<rparr>)"
  by (simp add: uartputc_sync_def run_simps write_thr_def)

lemma consputc_idle:
  assumes "\<not> panicked s" "tx_idle s = replicate n True" "3 \<le> n"
  obtains m where "n \<le> m + 3" "consputc c s = Inr ((), s\<lparr>tx_idle := replicate m True, sent := sent s @ echo c\<rparr>)"
proof -
  obtain k where k: "n = Suc (Suc (Suc k))" using assms(3) by (metis add_2_eq_Suc le_Suc_ex numeral_3_eq_3 plus_nat.simps(2) add_Suc)
  show thesis
  proof (cases "c = BACKSPACE")
    case True
    have "consputc c s = Inr ((), s\<lparr>tx_idle := replicate k True, sent := sent s @ echo c\<rparr>)"
      using True assms(1,2) k by (simp add: consputc_def echo_def sq_def bnd_def uartputc_sync_idle)
    then show thesis using that[of k] k by simp
  next
    case False
    have "consputc c s = Inr ((), s\<lparr>tx_idle := replicate (Suc (Suc k)) True, sent := sent s @ echo c\<rparr>)"
      using False assms(1,2) k by (simp add: consputc_def echo_def uartputc_sync_idle)
    then show thesis using that[of "Suc (Suc k)"] k by simp
  qed
qed

text \<open>The kill-line character erases the whole pending line.\<close>

lemma kill_line_run:
  assumes "cons_inv s" "\<not> panicked s" "tx_idle s = replicate n True" "3 * length (pending s) \<le> n"
  shows "\<exists>s'. kill_line s = Inr ((), s') \<and> cons_inv s' \<and> committed s' = committed s \<and> pending s' = []"
  using assms
proof (induction "length (pending s)" arbitrary: s n)
  case 0
  then have "cons_e s = cons_w s" by (simp add: cons_lengths unat_eq_0)
  then show ?case using 0 by (subst kill_line.simps) auto
next
  case (Suc l)
  have ne: "cons_w s \<noteq> cons_e s" using Suc.hyps(2) by (auto simp: cons_lengths)
  have last: "cons_buf s (unat (cons_e s - 1) mod INPUT_BUF_SIZE) = last (pending s)"
    using cons_ring.last_content[OF ne, of "cons_buf s"] by (simp add: pending_def INPUT_BUF_SIZE_def)
  have "pending s \<noteq> []" using Suc.hyps(2) by auto
  then have l10: "last (pending s) \<noteq> 10" using Suc.prems(1) last_in_set by (fastforce simp: cons_inv_def)
  let ?s = "s\<lparr>cons_e := cons_e s - 1\<rparr>"
  have n3: "3 \<le> n" using Suc.prems(4) Suc.hyps(2) by simp
  obtain m where m: "n \<le> m + 3" "consputc BACKSPACE ?s = Inr ((), ?s\<lparr>tx_idle := replicate m True, sent := sent ?s @ echo BACKSPACE\<rparr>)"
    by (rule consputc_idle[of ?s n BACKSPACE]) (use Suc.prems n3 in simp_all)
  let ?t = "?s\<lparr>tx_idle := replicate m True, sent := sent ?s @ echo BACKSPACE\<rparr>"
  have pd: "pending ?t = butlast (pending s)" "committed ?t = committed s"
    using cons_ring.drop_last[OF ne, of "cons_buf s"] by (simp_all add: pending_def committed_def INPUT_BUF_SIZE_def)
  have inv: "cons_inv ?t" using Suc.prems(1) pd by (auto simp: cons_inv_def dest: in_set_butlastD)
  have st: "kill_line s = kill_line ?t" using ne last l10 m(2) by (subst kill_line.simps) simp
  have "3 * l \<le> m" using Suc.prems(4) Suc.hyps(2)[symmetric] m(1) by linarith
  then have "\<exists>s'. kill_line ?t = Inr ((), s') \<and> cons_inv s' \<and> committed s' = committed ?t \<and> pending s' = []"
    by (intro Suc.hyps(1)[OF _ inv]) (use Suc.hyps(2)[symmetric] Suc.prems pd(1) in simp_all)
  then show ?case using st pd(2) by simp
qed

lemma type_char:
  assumes inv: "cons_inv s" and room: "length (committed s) + length (pending s) < INPUT_BUF_SIZE" and c: "0 \<le> c" "c < 256"
  defines "t \<equiv> s\<lparr>cons_buf := (cons_buf s)(unat (cons_e s) mod INPUT_BUF_SIZE := word_of_int c), cons_e := cons_e s + 1\<rparr>"
  shows "committed t = committed s" "pending t = pending s @ [word_of_int c]" "unat (cons_e t - cons_r t) = Suc (length (committed s) + length (pending s))"
    "committed (t\<lparr>cons_w := cons_e t\<rparr>) = committed s @ pending s @ [word_of_int c]" "pending (t\<lparr>cons_w := cons_e t\<rparr>) = []"
proof -
  have r: "unat (cons_w s - cons_r s) + unat (cons_e s - cons_w s) < 128" using room by (simp add: cons_lengths INPUT_BUF_SIZE_def)
  show 1: "committed t = committed s"
    using cons_ring.put_other[OF r, of "cons_buf s"] by (simp add: committed_def t_def INPUT_BUF_SIZE_def)
  show 2: "pending t = pending s @ [word_of_int c]"
    using cons_ring.put[of "cons_e s" "cons_w s" "cons_buf s"] r by (simp add: pending_def t_def INPUT_BUF_SIZE_def)
  have r': "unat (cons_w t - cons_r t) + unat (cons_e t - cons_w t) \<le> 128"
    using 1 2 room by (simp add: cons_lengths[symmetric] INPUT_BUF_SIZE_def)
  show "unat (cons_e t - cons_r t) = Suc (length (committed s) + length (pending s))"
    using cons_ring.sum_room[OF r'] 1 2 by (simp add: cons_lengths[symmetric])
  show "committed (t\<lparr>cons_w := cons_e t\<rparr>) = committed s @ pending s @ [word_of_int c]"
    using cons_ring.split_content[OF r', of "cons_buf t"] 1 2 by (simp add: committed_def pending_def INPUT_BUF_SIZE_def)
  show "pending (t\<lparr>cons_w := cons_e t\<rparr>) = []" by (simp add: pending_def ring_content_def)
qed

text \<open>
  C17. The console interrupt handler implements a line editor: erase and kill change only the line
  being typed, a character is appended as long as there is room, and a newline, an end-of-file
  or a full buffer hands the line over to the readers. With a transmitter that is idle the
  handler always returns, and it keeps its buffer within bounds.
\<close>

theorem consoleintr_edits:
  assumes "cons_inv s" "\<not> panicked s" "tx_idle s = replicate n True" "384 \<le> n" "0 \<le> c" "c < 256" "c \<noteq> 16"
  shows "\<exists>s'. consoleintr procdump c s = Inr ((), s') \<and> cons_inv s' \<and>
    (committed s', pending s') = edit c (committed s, pending s)"
proof -
  have len: "length (committed s) + length (pending s) \<le> 128" using assms(1) by (simp add: cons_inv_def INPUT_BUF_SIZE_def)
  consider "c = 21" | "c = 8 \<or> c = 127" | "c \<noteq> 21" "\<not> (c = 8 \<or> c = 127)" "c = 0 \<or> \<not> length (committed s) + length (pending s) < INPUT_BUF_SIZE"
    | "c \<noteq> 21" "\<not> (c = 8 \<or> c = 127)" "c \<noteq> 0" "length (committed s) + length (pending s) < INPUT_BUF_SIZE" by blast
  then show ?thesis
  proof cases
    case 1
    have "3 * length (pending s) \<le> n" using len assms(4) by simp
    from kill_line_run[OF assms(1-3) this] show ?thesis using 1 by (auto simp: consoleintr_def edit_def)
  next
    case 2
    show ?thesis
    proof (cases "cons_e s = cons_w s")
      case True
      then have "pending s = []" by (simp add: pending_def ring_content_def)
      then show ?thesis using 2 True assms(1) by (auto simp: consoleintr_def run_simps edit_def)
    next
      case False
      let ?s = "s\<lparr>cons_e := cons_e s - 1\<rparr>"
      obtain m where m: "consputc BACKSPACE ?s = Inr ((), ?s\<lparr>tx_idle := replicate m True, sent := sent ?s @ echo BACKSPACE\<rparr>)"
        by (rule consputc_idle[of ?s n BACKSPACE]) (use assms in simp_all)
      let ?t = "?s\<lparr>tx_idle := replicate m True, sent := sent ?s @ echo BACKSPACE\<rparr>"
      have pd: "pending ?t = butlast (pending s)" "committed ?t = committed s"
        using cons_ring.drop_last[of "cons_w s" "cons_e s" "cons_buf s"] False by (simp_all add: pending_def committed_def INPUT_BUF_SIZE_def)
      have "cons_inv ?t" using assms(1) pd by (auto simp: cons_inv_def dest: in_set_butlastD)
      moreover have "consoleintr procdump c s = Inr ((), ?t)" using 2 False m assms(7) by (auto simp: consoleintr_def run_simps)
      ultimately show ?thesis using 2 pd assms(7) by (auto simp: edit_def)
    qed
  next
    case 3
    have "consoleintr procdump c s = Inr ((), s)"
      using 3 assms(7) cons_room(2)[OF assms(1)] by (auto simp: consoleintr_def run_simps)
    then show ?thesis using 3 assms(1,7) by (auto simp: edit_def)
  next
    case 4
    define d where "d = (if c = 13 then 10 else c)"
    have d: "0 \<le> d" "d < 256" using assms(5,6) by (auto simp: d_def)
    obtain m where m: "consputc d s = Inr ((), s\<lparr>tx_idle := replicate m True, sent := sent s @ echo d\<rparr>)"
      by (rule consputc_idle[of s n d]) (use assms in simp_all)
    define s1 where "s1 = s\<lparr>tx_idle := replicate m True, sent := sent s @ echo d\<rparr>"
    have s1: "committed s1 = committed s" "pending s1 = pending s" "cons_inv s1" using assms(1)
      by (simp_all add: s1_def committed_def pending_def cons_inv_def)
    define t where "t = s1\<lparr>cons_buf := (cons_buf s1)(unat (cons_e s1) mod INPUT_BUF_SIZE := word_of_int d), cons_e := cons_e s1 + 1\<rparr>"
    note T = type_char[OF s1(3) _ d, folded t_def, unfolded s1, OF 4(4)]
    let ?full = "Suc (length (committed s) + length (pending s)) = INPUT_BUF_SIZE"
    have nl: "word_of_int d = (10 :: byte) \<longleftrightarrow> d = 10"
    proof
      assume "word_of_int d = (10 :: byte)"
      then have "uint (word_of_int d :: byte) = uint (10 :: byte)" by simp
      then show "d = 10" using d by (simp add: uint_word_of_int)
    qed simp
    have run: "consoleintr procdump c s = (if d = 10 \<or> d = 4 \<or> ?full
        then Inr ((), (t\<lparr>cons_w := cons_e t\<rparr>)\<lparr>chan_wakes := chan_wakes t @ [''cons.r'']\<rparr>) else Inr ((), t))"
    proof -
      have u: "upd (\<lambda>s. s\<lparr>cons_buf := (cons_buf s)(unat (cons_e s) mod INPUT_BUF_SIZE := word_of_int d), cons_e := cons_e s + 1\<rparr>) s1 = Inr ((), t)"
        by (simp add: run_simps t_def)
      have "consoleintr procdump c s = sq (consputc d)
          (sq (upd (\<lambda>s. s\<lparr>cons_buf := (cons_buf s)(unat (cons_e s) mod INPUT_BUF_SIZE := word_of_int d), cons_e := cons_e s + 1\<rparr>))
          (bnd (gets (\<lambda>s. unat (cons_e s - cons_r s) = INPUT_BUF_SIZE)) (\<lambda>full.
           if d = 10 \<or> d = 4 \<or> full
           then sq (upd (\<lambda>s. s\<lparr>cons_w := cons_e s\<rparr>)) (wakeup_chan ''cons.r'') else ret ()))) s"
        using 4 assms(7) cons_room(2)[OF assms(1)] by (simp add: consoleintr_def run_simps d_def Let_def)
      also have "\<dots> = bnd (gets (\<lambda>s. unat (cons_e s - cons_r s) = INPUT_BUF_SIZE)) (\<lambda>full.
           if d = 10 \<or> d = 4 \<or> full
           then sq (upd (\<lambda>s. s\<lparr>cons_w := cons_e s\<rparr>)) (wakeup_chan ''cons.r'') else ret ()) t"
        by (rule sq_eq, rule m[folded s1_def], rule sq_eq, rule u, rule refl)
      finally show ?thesis using T(3) by (simp add: run_simps wakeup_chan_def)
    qed
    show ?thesis
    proof (cases "d = 10 \<or> d = 4 \<or> ?full")
      case True
      let ?t = "(t\<lparr>cons_w := cons_e t\<rparr>)\<lparr>chan_wakes := chan_wakes t @ [''cons.r'']\<rparr>"
      have v: "committed ?t = committed s @ pending s @ [word_of_int d]" "pending ?t = []" using T(4,5) by (simp_all add: committed_def pending_def)
      have "cons_inv ?t" using 4(4) by (simp add: cons_inv_def v)
      then show ?thesis using run True v 4 assms(7) by (auto simp: edit_def Let_def d_def[symmetric])
    next
      case False
      have "cons_inv t" using 4(4) False nl s1(3) by (auto simp: cons_inv_def T s1)
      then show ?thesis using run False T 4 assms(7) by (auto simp: edit_def Let_def d_def[symmetric])
    qed
  qed
qed

theorem consoleintr_edits_witness:
  "\<exists>s'. consoleintr (ret ()) 13 blank_tty = Inr ((), s') \<and> cons_inv s' \<and> (committed s', pending s') = ([10], [])"
proof -
  have "committed blank_tty = []" "pending blank_tty = []" "cons_inv blank_tty" "\<not> panicked blank_tty" "tx_idle blank_tty = replicate 400 True"
    by (simp_all add: blank_tty_def committed_def pending_def ring_content_def cons_inv_def)
  then show ?thesis using consoleintr_edits[of blank_tty 400 13 "ret ()"] by (simp add: edit_def INPUT_BUF_SIZE_def Let_def)
qed

end
