(* ===== verification/Bio.thy ===== *)
theory Bio
  imports Console
begin

text \<open>
  The buffer cache, \<^verbatim>\<open>kernel/bio.c\<close> with \<^verbatim>\<open>kernel/buf.h\<close>. Buffers are numbered; the list of least
  recently used buffers is the doubly linked list of the code, with the head as number
  \<^verbatim>\<open>NBUF\<close>. The data of a buffer or a disk block is a function of the offset, of which the first
  \<^verbatim>\<open>BSIZE\<close> bytes count. \<^verbatim>\<open>virtio_disk_rw\<close> transfers a block between a buffer and the disk; the
  state keeps the trace of all disk writes. A buffer locked by another process makes the
  caller sleep.
\<close>

record buf =
  valid :: bool
  bdev :: nat
  blockno :: nat
  refcnt :: int
  blocked :: bool
  bpid :: int
  bdata :: memory

record blkd = ttyd +
  bufs :: "nat \<Rightarrow> buf"
  bnext :: "nat \<Rightarrow> nat"
  bprev :: "nat \<Rightarrow> nat"
  disk :: "nat \<Rightarrow> memory"
  wtrace :: "(nat \<times> memory) list"
  mypid :: int

type_synonym ('z, 'a) bprog = "('z blkd_scheme, kerr, 'a) comp"

definition NBUF :: nat where
  "NBUF = 30"

definition ROOTDEV :: nat where
  "ROOTDEV = 1"

definition BSIZE :: nat where
  "BSIZE = 1024"

definition buf_upd :: "nat \<Rightarrow> (buf \<Rightarrow> buf) \<Rightarrow> ('z, unit) bprog" where
  "buf_upd b f = upd (\<lambda>s. s\<lparr>bufs := (bufs s)(b := f (bufs s b))\<rparr>)"

definition set_next :: "nat \<Rightarrow> nat \<Rightarrow> ('z, unit) bprog" where
  "set_next b x = upd (\<lambda>s. s\<lparr>bnext := (bnext s)(b := x)\<rparr>)"

definition set_prev :: "nat \<Rightarrow> nat \<Rightarrow> ('z, unit) bprog" where
  "set_prev b x = upd (\<lambda>s. s\<lparr>bprev := (bprev s)(b := x)\<rparr>)"

definition disk_rw :: "nat \<Rightarrow> bool \<Rightarrow> ('z, unit) bprog" where
  "disk_rw b wr = bnd (gets (\<lambda>s. (bufs s b, disk s))) (\<lambda>(B, d).
     if wr then upd (\<lambda>s. s\<lparr>disk := d(blockno B := bdata B), wtrace := wtrace s @ [(blockno B, bdata B)]\<rparr>)
     else buf_upd b (\<lambda>B. B\<lparr>bdata := d (blockno B)\<rparr>))"

text \<open>The sleep lock of a buffer.\<close>

definition lock_buf :: "nat \<Rightarrow> ('z, unit) bprog" where
  "lock_buf b = bnd (gets (\<lambda>s. (blocked (bufs s b), mypid s))) (\<lambda>(l, pid).
     if l then fail (Sleeps ''buffer'') else buf_upd b (\<lambda>B. B\<lparr>blocked := True, bpid := pid\<rparr>))"

definition holding_buf :: "nat \<Rightarrow> ('z, bool) bprog" where
  "holding_buf b = gets (\<lambda>s. blocked (bufs s b) \<and> bpid (bufs s b) = mypid s)"

text \<open>Insertion of a buffer after the head of the list.\<close>

definition push_front :: "nat \<Rightarrow> ('z, unit) bprog" where
  "push_front b = bnd (gets (\<lambda>s. bnext s NBUF)) (\<lambda>n.
     sq (set_next b n) (sq (set_prev b NBUF) (sq (set_prev n b) (set_next NBUF b))))"

primrec binit_loop :: "nat \<Rightarrow> ('z, unit) bprog" where
  "binit_loop 0 = ret ()"
| "binit_loop (Suc b) = sq (binit_loop b) (sq (push_front b) (buf_upd b (\<lambda>B. B\<lparr>blocked := False, bpid := 0\<rparr>)))"

definition binit :: "('z, unit) bprog" where
  "binit = sq (set_prev NBUF NBUF) (sq (set_next NBUF NBUF) (binit_loop NBUF))"

text \<open>
  The two searches of \<^verbatim>\<open>bget\<close> follow the list; as it has \<^verbatim>\<open>NBUF\<close> buffers, one more round is enough to
  get back to the head.
\<close>

primrec find_next :: "nat \<Rightarrow> nat \<Rightarrow> nat \<Rightarrow> nat \<Rightarrow> ('z, nat option) bprog" where
  "find_next dev bno 0 b = fail NoFuel"
| "find_next dev bno (Suc n) b = (if b = NBUF then ret None else
     bnd (gets (\<lambda>s. (bufs s b, bnext s b))) (\<lambda>(B, nx).
     if bdev B = dev \<and> blockno B = bno then ret (Some b) else find_next dev bno n nx))"

primrec find_unused :: "nat \<Rightarrow> nat \<Rightarrow> ('z, nat option) bprog" where
  "find_unused 0 b = fail NoFuel"
| "find_unused (Suc n) b = (if b = NBUF then ret None else
     bnd (gets (\<lambda>s. (bufs s b, bprev s b))) (\<lambda>(B, pv).
     if refcnt B = 0 then ret (Some b) else find_unused n pv))"

definition bget :: "nat \<Rightarrow> nat \<Rightarrow> ('z, nat) bprog" where
  "bget dev bno =
     bnd (bnd (gets (\<lambda>s. bnext s NBUF)) (find_next dev bno (NBUF + 1))) (\<lambda>r.
     case r of Some b \<Rightarrow>
       sq (buf_upd b (\<lambda>B. B\<lparr>refcnt := refcnt B + 1\<rparr>)) (sq (lock_buf b) (ret b))
     | None \<Rightarrow>
       bnd (bnd (gets (\<lambda>s. bprev s NBUF)) (find_unused (NBUF + 1))) (\<lambda>r.
       case r of Some b \<Rightarrow>
         sq (buf_upd b (\<lambda>B. B\<lparr>bdev := dev, blockno := bno, valid := False, refcnt := 1\<rparr>)) (sq (lock_buf b) (ret b))
       | None \<Rightarrow> panic ''bget: no buffers''))"

definition bread :: "nat \<Rightarrow> nat \<Rightarrow> ('z, nat) bprog" where
  "bread dev bno = bnd (bget dev bno) (\<lambda>b.
     bnd (gets (\<lambda>s. valid (bufs s b))) (\<lambda>v.
     if v then ret b else sq (disk_rw b False) (sq (buf_upd b (\<lambda>B. B\<lparr>valid := True\<rparr>)) (ret b))))"

definition bwrite :: "nat \<Rightarrow> ('z, unit) bprog" where
  "bwrite b = bnd (holding_buf b) (\<lambda>h. if \<not> h then panic ''bwrite'' else disk_rw b True)"

definition brelse :: "nat \<Rightarrow> ('z, unit) bprog" where
  "brelse b = bnd (holding_buf b) (\<lambda>h. if \<not> h then panic ''brelse'' else
     sq (buf_upd b (\<lambda>B. B\<lparr>blocked := False, bpid := 0\<rparr>))
     (sq (buf_upd b (\<lambda>B. B\<lparr>refcnt := refcnt B - 1\<rparr>))
     (bnd (gets (\<lambda>s. refcnt (bufs s b))) (\<lambda>r. if r \<noteq> 0 then ret () else
      bnd (gets (\<lambda>s. (bnext s b, bprev s b))) (\<lambda>(nx, pv).
      sq (set_prev nx pv) (sq (set_next pv nx) (push_front b)))))))"

definition bpin :: "nat \<Rightarrow> ('z, unit) bprog" where
  "bpin b = buf_upd b (\<lambda>B. B\<lparr>refcnt := refcnt B + 1\<rparr>)"

definition bunpin :: "nat \<Rightarrow> ('z, unit) bprog" where
  "bunpin b = buf_upd b (\<lambda>B. B\<lparr>refcnt := refcnt B - 1\<rparr>)"

section \<open>The list\<close>

definition dll :: "(nat \<Rightarrow> nat) \<Rightarrow> (nat \<Rightarrow> nat) \<Rightarrow> nat list \<Rightarrow> bool" where
  "dll nx pv bs \<longleftrightarrow> successively (\<lambda>x y. nx x = y \<and> pv y = x) (NBUF # bs @ [NBUF]) \<and> distinct bs \<and> set bs = {..<NBUF}"

lemma succ_cong:
  "successively (\<lambda>x y. nx x = y \<and> pv y = x) xs \<Longrightarrow> (\<forall>x \<in> set (butlast xs). nx' x = nx x) \<Longrightarrow> (\<forall>x \<in> set (tl xs). pv' x = pv x) \<Longrightarrow>
   successively (\<lambda>x y. nx' x = y \<and> pv' y = x) xs"
proof (induction xs rule: induct_list012)
  case (3 x y zs)
  have "successively (\<lambda>x y. nx' x = y \<and> pv' y = x) (y # zs)"
    by (rule 3(2)) (use 3(3-5) in \<open>auto split: if_splits\<close>)
  then show ?case using 3(3-5) by (auto split: if_splits)
qed simp_all

abbreviation linked :: "(nat \<Rightarrow> nat) \<Rightarrow> (nat \<Rightarrow> nat) \<Rightarrow> nat list \<Rightarrow> bool" where
  "linked nx pv \<equiv> successively (\<lambda>x y. nx x = y \<and> pv y = x)"

lemma linked_unlink:
  assumes l: "linked nx pv (xs @ b # ys)" and d: "xs \<noteq> []" "ys \<noteq> []" "distinct xs" "distinct ys"
    "last xs \<notin> set (butlast ys)" "hd ys \<notin> set (tl xs)"
  shows "linked (nx(pv b := nx b)) (pv(nx b := pv b)) (xs @ ys)"
proof -
  have j: "linked nx pv xs" "linked nx pv (b # ys)" "nx (last xs) = b" "pv b = last xs"
    using l d by (auto simp: successively_append_iff)
  have y: "linked nx pv ys" "nx b = hd ys" "pv (hd ys) = b" using j(2) d(2) by (cases ys; simp)+
  have "distinct (butlast xs @ [last xs])" using d(1,3) by simp
  then have lb: "last xs \<notin> set (butlast xs)" by simp
  have "linked (nx(pv b := nx b)) (pv(nx b := pv b)) xs"
  proof (rule succ_cong[OF j(1)])
    show "\<forall>x \<in> set (butlast xs). (nx(pv b := nx b)) x = nx x" using lb j(4) by auto
    show "\<forall>x \<in> set (tl xs). (pv(nx b := pv b)) x = pv x" using d(6) y(2) by auto
  qed
  moreover have "linked (nx(pv b := nx b)) (pv(nx b := pv b)) ys"
  proof (rule succ_cong[OF y(1)])
    show "\<forall>x \<in> set (butlast ys). (nx(pv b := nx b)) x = nx x" using d(5) j(4) by auto
    show "\<forall>x \<in> set (tl ys). (pv(nx b := pv b)) x = pv x" using d(2,4) y(2) by (cases ys) auto
  qed
  ultimately show ?thesis using j(4) y(2) d by (auto simp: successively_append_iff)
qed

lemma linked_push:
  assumes l: "linked nx pv (NBUF # ws @ [NBUF])" and d: "distinct ws" "b \<notin> set ws" "b \<noteq> NBUF" "NBUF \<notin> set ws"
  shows "linked (nx(b := nx NBUF, NBUF := b)) ((pv(b := NBUF))(nx NBUF := b)) (NBUF # b # ws @ [NBUF])"
proof -
  have j: "linked nx pv (ws @ [NBUF])" "nx NBUF = hd (ws @ [NBUF])" using l by (cases ws; simp)+
  have h: "nx NBUF \<noteq> b" using j(2) d by (cases ws) auto
  have "linked (nx(b := nx NBUF, NBUF := b)) ((pv(b := NBUF))(nx NBUF := b)) (ws @ [NBUF])"
    by (rule succ_cong[OF j(1)]) (use d j(2) in \<open>cases ws; auto\<close>)+
  then show ?thesis using h j(2) d by (cases ws) auto
qed

lemma dll_move:
  assumes "dll nx pv bs" "b \<in> set bs"
  defines "pv1 \<equiv> pv(nx b := pv b)" and "nx1 \<equiv> nx(pv b := nx b)"
  shows "dll (nx1(b := nx1 NBUF, NBUF := b)) ((pv1(b := NBUF))(nx1 NBUF := b)) (b # removeAll b bs)"
proof -
  obtain us vs where bs: "bs = us @ b # vs" using assms(2) by (meson split_list)
  have d: "distinct bs" "set bs = {..<NBUF}" "NBUF \<notin> set bs" "b \<noteq> NBUF" using assms(1,2) by (auto simp: dll_def)
  have ra: "removeAll b bs = us @ vs" using d(1) bs by simp
  have "linked nx pv ((NBUF # us) @ b # (vs @ [NBUF]))" using assms(1) bs by (simp add: dll_def)
  then have "linked nx1 pv1 ((NBUF # us) @ (vs @ [NBUF]))"
    unfolding nx1_def pv1_def
  proof (rule linked_unlink)
    show "distinct (NBUF # us)" "distinct (vs @ [NBUF])" using d(1,3) bs by auto
    have "last (NBUF # us) \<in> insert NBUF (set us)" using last_in_set[of "NBUF # us"] by simp
    moreover have "set us \<inter> set vs = {}" "NBUF \<notin> set vs" using d(1,3) bs by auto
    ultimately show "last (NBUF # us) \<notin> set (butlast (vs @ [NBUF]))" by auto
    have "hd (vs @ [NBUF]) \<in> insert NBUF (set vs)" by (cases vs) auto
    moreover have "NBUF \<notin> set us" using d(3) bs by simp
    ultimately show "hd (vs @ [NBUF]) \<notin> set (tl (NBUF # us))" using \<open>set us \<inter> set vs = {}\<close> by auto
  qed simp_all
  then have "linked (nx1(b := nx1 NBUF, NBUF := b)) ((pv1(b := NBUF))(nx1 NBUF := b)) (NBUF # b # (us @ vs) @ [NBUF])"
    by (intro linked_push) (use d(1,3,4) bs in simp_all)
  then show ?thesis unfolding dll_def ra using d bs by auto
qed

section \<open>The searches\<close>

lemma find_next_run:
  assumes "linked (bnext s) pv (b # bs @ [NBUF])" "NBUF \<notin> set (b # bs)" "length bs < n"
  shows "find_next dev bno (Suc n) b s = Inr (List.find (\<lambda>b. bdev (bufs s b) = dev \<and> blockno (bufs s b) = bno) (b # bs), s)"
  using assms
proof (induction n arbitrary: b bs)
  case (Suc n)
  show ?case
  proof (cases bs)
    case Nil
    then show ?thesis using Suc.prems by (auto simp: run_simps)
  next
    case (Cons c cs)
    then have "find_next dev bno (Suc n) c s = Inr (List.find (\<lambda>b. bdev (bufs s b) = dev \<and> blockno (bufs s b) = bno) (c # cs), s)"
      by (intro Suc.IH) (use Suc.prems in auto)
    then show ?thesis using Suc.prems Cons by (auto simp: run_simps)
  qed
qed simp

lemma find_unused_run:
  assumes "linked (bprev s) nx (b # bs @ [NBUF])" "NBUF \<notin> set (b # bs)" "length bs < n"
  shows "find_unused (Suc n) b s = Inr (List.find (\<lambda>b. refcnt (bufs s b) = 0) (b # bs), s)"
  using assms
proof (induction n arbitrary: b bs)
  case (Suc n)
  show ?case
  proof (cases bs)
    case Nil
    then show ?thesis using Suc.prems by (auto simp: run_simps)
  next
    case (Cons c cs)
    then have "find_unused (Suc n) c s = Inr (List.find (\<lambda>b. refcnt (bufs s b) = 0) (c # cs), s)"
      by (intro Suc.IH) (use Suc.prems in auto)
    then show ?thesis using Suc.prems Cons by (auto simp: run_simps)
  qed
qed simp

section \<open>The invariant of the cache\<close>

text \<open>
  The list holds every buffer once; no block is cached twice; a buffer that nobody refers to is
  unlocked and, if valid, has the data of the disk.
\<close>

definition holds :: "buf \<Rightarrow> nat \<Rightarrow> nat \<Rightarrow> bool" where
  "holds B dev bno \<longleftrightarrow> bdev B = dev \<and> blockno B = bno"

definition bcache_inv :: "'z blkd_scheme \<Rightarrow> bool" where
  "bcache_inv s \<longleftrightarrow> (\<exists>bs. dll (bnext s) (bprev s) bs) \<and>
     (\<forall>b < NBUF. \<forall>c < NBUF. b \<noteq> c \<longrightarrow> bdev (bufs s b) \<noteq> 0 \<longrightarrow> \<not> holds (bufs s c) (bdev (bufs s b)) (blockno (bufs s b))) \<and>
     (\<forall>b < NBUF. refcnt (bufs s b) = 0 \<longrightarrow> \<not> blocked (bufs s b) \<and>
        (valid (bufs s b) \<and> bdev (bufs s b) = ROOTDEV \<longrightarrow> bdata (bufs s b) = disk s (blockno (bufs s b))))"

text \<open>What the block contains for the file system: the cached copy, if there is one.\<close>

definition cached :: "'z blkd_scheme \<Rightarrow> nat \<Rightarrow> nat option" where
  "cached s bno = List.find (\<lambda>b. bdev (bufs s b) = ROOTDEV \<and> blockno (bufs s b) = bno) [0..<NBUF]"

definition blk :: "'z blkd_scheme \<Rightarrow> nat \<Rightarrow> memory" where
  "blk s bno = (case cached s bno of None \<Rightarrow> disk s bno | Some b \<Rightarrow> if valid (bufs s b) then bdata (bufs s b) else disk s bno)"

lemma find_unique:
  assumes "b \<in> set xs" "P b" "\<And>c. c \<in> set xs \<Longrightarrow> P c \<Longrightarrow> c = b"
  shows "List.find P xs = Some b"
  using assms
proof (induction xs)
  case (Cons x xs)
  show ?case
  proof (cases "P x")
    case True
    then show ?thesis using Cons.prems(3)[of x] by simp
  next
    case False
    then have "b \<in> set xs" using Cons.prems(1,2) by auto
    then have "List.find P xs = Some b" by (rule Cons.IH) (simp_all add: Cons.prems)
    then show ?thesis using False by simp
  qed
qed simp

lemma bcache_unique:
  assumes "bcache_inv s" "b < NBUF" "c < NBUF" "bdev (bufs s b) = ROOTDEV" "bdev (bufs s c) = ROOTDEV" "blockno (bufs s c) = blockno (bufs s b)"
  shows "c = b"
proof (rule ccontr)
  assume "c \<noteq> b"
  have "bdev (bufs s b) \<noteq> 0" using assms(4) by (simp add: ROOTDEV_def)
  have u: "\<forall>b < NBUF. \<forall>c < NBUF. b \<noteq> c \<longrightarrow> bdev (bufs s b) \<noteq> 0 \<longrightarrow> \<not> holds (bufs s c) (bdev (bufs s b)) (blockno (bufs s b))"
    using assms(1) by (simp add: bcache_inv_def)
  have "\<not> holds (bufs s c) (bdev (bufs s b)) (blockno (bufs s b))"
    by (rule u[rule_format]) (use assms(2,3) \<open>c \<noteq> b\<close> \<open>bdev (bufs s b) \<noteq> 0\<close> in auto)
  then show False using assms(4-6) by (simp add: holds_def)
qed

lemma cached_eq:
  assumes "bcache_inv s" "b < NBUF" "bdev (bufs s b) = ROOTDEV" "blockno (bufs s b) = bno"
  shows "cached s bno = Some b"
  unfolding cached_def
proof (rule find_unique)
  show "b \<in> set [0..<NBUF]" using assms(2) by simp
  show "bdev (bufs s b) = ROOTDEV \<and> blockno (bufs s b) = bno" using assms by simp
  show "c = b" if "c \<in> set [0..<NBUF]" "bdev (bufs s c) = ROOTDEV \<and> blockno (bufs s c) = bno" for c
    by (rule bcache_unique[OF assms(1,2)]) (use that assms in auto)
qed

lemma cached_None: "cached s bno = None \<longleftrightarrow> (\<forall>b < NBUF. \<not> (bdev (bufs s b) = ROOTDEV \<and> blockno (bufs s b) = bno))"
  by (auto simp: cached_def find_None_iff)

lemma cached_SomeD: "cached s bno = Some b \<Longrightarrow> b < NBUF \<and> bdev (bufs s b) = ROOTDEV \<and> blockno (bufs s b) = bno"
  by (auto simp: cached_def find_Some_iff)

lemma find_cached:
  assumes "bcache_inv s" "dll (bnext s) (bprev s) bs"
  shows "List.find (\<lambda>b. bdev (bufs s b) = ROOTDEV \<and> blockno (bufs s b) = bno) bs = cached s bno"
proof (cases "cached s bno")
  case None
  then have "\<And>b. b \<in> set bs \<Longrightarrow> \<not> (bdev (bufs s b) = ROOTDEV \<and> blockno (bufs s b) = bno)"
    using assms(2) by (simp add: cached_None dll_def)
  then have "List.find (\<lambda>b. bdev (bufs s b) = ROOTDEV \<and> blockno (bufs s b) = bno) bs = None" by (auto simp: find_None_iff)
  then show ?thesis using None by simp
next
  case (Some b)
  note b = cached_SomeD[OF Some]
  have "List.find (\<lambda>b. bdev (bufs s b) = ROOTDEV \<and> blockno (bufs s b) = bno) bs = Some b"
  proof (rule find_unique)
    show "b \<in> set bs" using assms(2) b by (simp add: dll_def)
    show "bdev (bufs s b) = ROOTDEV \<and> blockno (bufs s b) = bno" using b by simp
    show "c = b" if "c \<in> set bs" "bdev (bufs s c) = ROOTDEV \<and> blockno (bufs s c) = bno" for c
      by (rule bcache_unique[OF assms(1)]) (use that b assms(2) in \<open>auto simp: dll_def\<close>)
  qed
  then show ?thesis using Some by simp
qed

lemma bget_searches:
  assumes inv: "bcache_inv s"
  obtains bs where "dll (bnext s) (bprev s) bs"
    "bnd (gets (\<lambda>s. bnext s NBUF)) (find_next ROOTDEV bno (NBUF + 1)) s = Inr (cached s bno, s)"
    "bnd (gets (\<lambda>s. bprev s NBUF)) (find_unused (NBUF + 1)) s = Inr (List.find (\<lambda>b. refcnt (bufs s b) = 0) (rev bs), s)"
proof -
  obtain bs where d: "dll (bnext s) (bprev s) bs" using inv by (auto simp: bcache_inv_def)
  have len: "length bs = NBUF" using d distinct_card[of bs] by (simp add: dll_def)
  then obtain c cs where bs: "bs = c # cs" by (cases bs) (auto simp: NBUF_def)
  have nb: "NBUF \<notin> set bs" using d by (auto simp: dll_def)
  have l: "linked (bnext s) (bprev s) (NBUF # bs @ [NBUF])" using d by (simp add: dll_def)
  have "find_next ROOTDEV bno (Suc NBUF) c s = Inr (List.find (\<lambda>b. bdev (bufs s b) = ROOTDEV \<and> blockno (bufs s b) = bno) (c # cs), s)"
    by (rule find_next_run[where pv = "bprev s"]) (use l bs nb len in auto)
  moreover have "bnext s NBUF = c" using l bs by simp
  ultimately have 1: "bnd (gets (\<lambda>s. bnext s NBUF)) (find_next ROOTDEV bno (NBUF + 1)) s = Inr (cached s bno, s)"
    using find_cached[OF inv d] bs by (simp add: run_simps del: find_next.simps)
  have lr: "linked (bprev s) (bnext s) (NBUF # rev bs @ [NBUF])"
    using l successively_rev[of "\<lambda>x y. bprev s x = y \<and> bnext s y = x" "NBUF # bs @ [NBUF]"] by (simp add: conj_commute)
  obtain e es where re: "rev bs = e # es" using bs by (cases "rev bs") auto
  have "find_unused (Suc NBUF) e s = Inr (List.find (\<lambda>b. refcnt (bufs s b) = 0) (e # es), s)"
  proof (rule find_unused_run[where nx = "bnext s"])
    show "linked (bprev s) (bnext s) (e # es @ [NBUF])" using lr re by simp
    show "NBUF \<notin> set (e # es)" using nb unfolding re[symmetric] by simp
    show "length es < NBUF" using len arg_cong[OF re, of length] by simp
  qed
  moreover have "bprev s NBUF = e" using lr re by simp
  ultimately have "bnd (gets (\<lambda>s. bprev s NBUF)) (find_unused (NBUF + 1)) s = Inr (List.find (\<lambda>b. refcnt (bufs s b) = 0) (rev bs), s)"
    using re by (simp add: run_simps del: find_unused.simps)
  then show thesis using that d 1 by blast
qed

lemma blk_cached:
  "bcache_inv s \<Longrightarrow> b < NBUF \<Longrightarrow> bdev (bufs s b) = ROOTDEV \<Longrightarrow> blk s (blockno (bufs s b)) =
    (if valid (bufs s b) then bdata (bufs s b) else disk s (blockno (bufs s b)))"
  using cached_eq[of s b] by (simp add: blk_def)

lemma blk_uncached: "cached s bno = None \<Longrightarrow> blk s bno = disk s bno"
  by (simp add: blk_def)

text \<open>
  A change of one buffer that keeps the cache coherent: the buffer comes to hold block \<open>bno\<close>,
  which it held before or nobody did.
\<close>

lemma bcache_upd:
  assumes inv: "bcache_inv s" and b: "b < NBUF" and B: "bdev B = ROOTDEV" "blockno B = bno"
    and c: "cached s bno = Some b \<or> cached s bno = None \<and> refcnt (bufs s b) = 0"
    and clean: "refcnt B = 0 \<longrightarrow> \<not> blocked B \<and> (valid B \<longrightarrow> bdata B = disk s bno)"
  shows "bcache_inv (s\<lparr>bufs := (bufs s)(b := B)\<rparr>)"
    "blk (s\<lparr>bufs := (bufs s)(b := B)\<rparr>) bno = (if valid B then bdata B else disk s bno)"
    "bno' \<noteq> bno \<Longrightarrow> blk (s\<lparr>bufs := (bufs s)(b := B)\<rparr>) bno' = blk s bno'"
proof -
  let ?t = "s\<lparr>bufs := (bufs s)(b := B)\<rparr>"
  have other: "\<not> (bdev (bufs s d) = ROOTDEV \<and> blockno (bufs s d) = bno)" if "d < NBUF" "d \<noteq> b" for d
  proof
    assume "bdev (bufs s d) = ROOTDEV \<and> blockno (bufs s d) = bno"
    then have "cached s bno = Some d" using cached_eq[OF inv that(1)] by simp
    then show False using c that(2) by simp
  qed
  have u: "\<not> holds (bufs ?t d) (bdev (bufs ?t e)) (blockno (bufs ?t e))"
    if "e < NBUF" "d < NBUF" "e \<noteq> d" "bdev (bufs ?t e) \<noteq> 0" for d e
  proof (cases "d = b \<or> e = b")
    case True
    then show ?thesis using other[OF that(1)] other[OF that(2)] that(3) B by (auto simp: holds_def)
  next
    case False
    have uu: "\<forall>b < NBUF. \<forall>c < NBUF. b \<noteq> c \<longrightarrow> bdev (bufs s b) \<noteq> 0 \<longrightarrow> \<not> holds (bufs s c) (bdev (bufs s b)) (blockno (bufs s b))"
      using inv by (simp add: bcache_inv_def)
    show ?thesis using uu[rule_format, of e d] that False by simp
  qed
  have cl: "\<not> blocked (bufs ?t d) \<and> (valid (bufs ?t d) \<and> bdev (bufs ?t d) = ROOTDEV \<longrightarrow> bdata (bufs ?t d) = disk s (blockno (bufs ?t d)))"
    if "d < NBUF" "refcnt (bufs ?t d) = 0" for d
    using inv clean B that by (auto simp: bcache_inv_def)
  obtain bs where "dll (bnext s) (bprev s) bs" using inv by (auto simp: bcache_inv_def)
  then show inv': "bcache_inv ?t" unfolding bcache_inv_def using u cl by auto
  show "blk ?t bno = (if valid B then bdata B else disk s bno)"
    using blk_cached[OF inv' b] B by simp
  assume ne: "bno' \<noteq> bno"
  show "blk ?t bno' = blk s bno'"
  proof (cases "cached s bno'")
    case None
    then have "cached ?t bno' = None" using ne B by (auto simp: cached_None)
    then show ?thesis using None by (simp add: blk_uncached)
  next
    case (Some d)
    note d = cached_SomeD[OF Some]
    show ?thesis
    proof (cases "d = b")
      case False
      then show ?thesis using blk_cached[OF inv', of d] blk_cached[OF inv, of d] d by simp
    next
      case True
      then have e: "cached s bno = None" "refcnt (bufs s b) = 0" using c d ne Some cached_SomeD[of s bno b] by auto
      then have "blk s bno' = disk s bno'"
        using blk_cached[OF inv b] d True inv b by (auto simp: bcache_inv_def)
      moreover have "cached ?t bno' = None"
        unfolding cached_None
      proof (intro allI impI notI)
        fix e assume e: "e < NBUF" "bdev (bufs ?t e) = ROOTDEV \<and> blockno (bufs ?t e) = bno'"
        then have "e \<noteq> b" using ne B by auto
        then have "cached s bno' = Some e" using e cached_eq[OF inv e(1)] by simp
        then show False using Some True \<open>e \<noteq> b\<close> by simp
      qed
      ultimately show ?thesis by (simp add: blk_uncached)
    qed
  qed
qed

lemma bget_run:
  assumes inv: "bcache_inv s" and c: "\<And>b. cached s bno = Some b \<Longrightarrow> \<not> blocked (bufs s b)"
    and f: "cached s bno = None \<Longrightarrow> \<exists>b < NBUF. refcnt (bufs s b) = 0"
  obtains b where "b < NBUF" "cached s bno = Some b \<or> cached s bno = None \<and> refcnt (bufs s b) = 0"
    "bget ROOTDEV bno s = Inr (b, s\<lparr>bufs := (bufs s)(b := (bufs s b)\<lparr>bdev := ROOTDEV, blockno := bno,
       valid := (cached s bno \<noteq> None \<and> valid (bufs s b)), refcnt := refcnt (bufs s b) + 1, blocked := True, bpid := mypid s\<rparr>)\<rparr>)"
proof -
  obtain bs where d: "dll (bnext s) (bprev s) bs"
    and s1: "bnd (gets (\<lambda>s. bnext s NBUF)) (find_next ROOTDEV bno (NBUF + 1)) s = Inr (cached s bno, s)"
    and s2: "bnd (gets (\<lambda>s. bprev s NBUF)) (find_unused (NBUF + 1)) s = Inr (List.find (\<lambda>b. refcnt (bufs s b) = 0) (rev bs), s)"
    by (rule bget_searches[OF inv]) (rule that)
  show thesis
  proof (cases "cached s bno")
    case (Some b)
    note b = cached_SomeD[OF Some]
    have nb: "\<not> blocked (bufs s b)" by (rule c[OF Some])
    have e: "(bufs s b)\<lparr>bdev := ROOTDEV, blockno := bno, valid := valid (bufs s b), refcnt := refcnt (bufs s b) + 1, blocked := True, bpid := mypid s\<rparr> =
      (bufs s b)\<lparr>refcnt := refcnt (bufs s b) + 1, blocked := True, bpid := mypid s\<rparr>" using b by (cases "bufs s b") simp
    have v: "(cached s bno \<noteq> None \<and> valid (bufs s b)) = valid (bufs s b)" using Some by simp
    have run: "bget ROOTDEV bno s = Inr (b, s\<lparr>bufs := (bufs s)(b := (bufs s b)\<lparr>refcnt := refcnt (bufs s b) + 1, blocked := True, bpid := mypid s\<rparr>)\<rparr>)"
      unfolding bget_def bnd_Inr[of "bnd (gets (\<lambda>s. bnext s NBUF)) (find_next ROOTDEV bno (NBUF + 1))", OF s1]
      using Some nb by (simp add: run_simps buf_upd_def lock_buf_def)
    show thesis
    proof (rule that[of b])
      show "b < NBUF" using b by simp
      show "cached s bno = Some b \<or> cached s bno = None \<and> refcnt (bufs s b) = 0" using Some by simp
      show "bget ROOTDEV bno s = Inr (b, s\<lparr>bufs := (bufs s)(b := (bufs s b)\<lparr>bdev := ROOTDEV, blockno := bno,
         valid := (cached s bno \<noteq> None \<and> valid (bufs s b)), refcnt := refcnt (bufs s b) + 1, blocked := True, bpid := mypid s\<rparr>)\<rparr>)"
        unfolding v e by (rule run)
    qed
  next
    case None
    have "\<exists>b \<in> set (rev bs). refcnt (bufs s b) = 0" using f[OF None] d by (auto simp: dll_def)
    then obtain b where fb: "List.find (\<lambda>b. refcnt (bufs s b) = 0) (rev bs) = Some b" by (cases "List.find (\<lambda>b. refcnt (bufs s b) = 0) (rev bs)") (auto simp: find_None_iff)
    then obtain i where i: "i < length (rev bs)" "b = rev bs ! i" "refcnt (bufs s b) = 0" by (auto simp: find_Some_iff)
    then have "b \<in> set (rev bs)" by (simp only: nth_mem)
    then have b: "b < NBUF" "refcnt (bufs s b) = 0" using d i(3) by (auto simp: dll_def)
    have nb: "\<not> blocked (bufs s b)" using inv b by (simp add: bcache_inv_def)
    have "bget ROOTDEV bno s = Inr (b, s\<lparr>bufs := (bufs s)(b := (bufs s b)\<lparr>bdev := ROOTDEV, blockno := bno, valid := False, refcnt := 1, blocked := True, bpid := mypid s\<rparr>)\<rparr>)"
      unfolding bget_def bnd_Inr[of "bnd (gets (\<lambda>s. bnext s NBUF)) (find_next ROOTDEV bno (NBUF + 1))", OF s1] None option.case
        bnd_Inr[of "bnd (gets (\<lambda>s. bprev s NBUF)) (find_unused (NBUF + 1))", OF s2] fb
      using nb by (simp add: run_simps buf_upd_def lock_buf_def)
    then show thesis using that[of b] b None by simp
  qed
qed

lemma bread_run:
  assumes inv: "bcache_inv s" and c: "\<And>b. cached s bno = Some b \<Longrightarrow> \<not> blocked (bufs s b) \<and> 0 \<le> refcnt (bufs s b)"
    and f: "cached s bno = None \<Longrightarrow> \<exists>b < NBUF. refcnt (bufs s b) = 0"
  obtains b where "b < NBUF" "cached s bno = Some b \<or> cached s bno = None \<and> refcnt (bufs s b) = 0"
    "bread ROOTDEV bno s = Inr (b, s\<lparr>bufs := (bufs s)(b := (bufs s b)\<lparr>bdev := ROOTDEV, blockno := bno,
       valid := True, refcnt := refcnt (bufs s b) + 1, blocked := True, bpid := mypid s, bdata := blk s bno\<rparr>)\<rparr>)"
proof -
  obtain b where b: "b < NBUF" "cached s bno = Some b \<or> cached s bno = None \<and> refcnt (bufs s b) = 0"
    and g: "bget ROOTDEV bno s = Inr (b, s\<lparr>bufs := (bufs s)(b := (bufs s b)\<lparr>bdev := ROOTDEV, blockno := bno,
       valid := (cached s bno \<noteq> None \<and> valid (bufs s b)), refcnt := refcnt (bufs s b) + 1, blocked := True, bpid := mypid s\<rparr>)\<rparr>)"
    by (rule bget_run[OF inv]) (use c f in blast)+
  define t where "t = s\<lparr>bufs := (bufs s)(b := (bufs s b)\<lparr>bdev := ROOTDEV, blockno := bno,
       valid := (cached s bno \<noteq> None \<and> valid (bufs s b)), refcnt := refcnt (bufs s b) + 1, blocked := True, bpid := mypid s\<rparr>)\<rparr>"
  let ?B = "(bufs s b)\<lparr>bdev := ROOTDEV, blockno := bno, valid := True, refcnt := refcnt (bufs s b) + 1, blocked := True, bpid := mypid s, bdata := blk s bno\<rparr>"
  have "bread ROOTDEV bno s = Inr (b, s\<lparr>bufs := (bufs s)(b := ?B)\<rparr>)"
  proof (cases "cached s bno \<noteq> None \<and> valid (bufs s b)")
    case True
    then have "blk s bno = bdata (bufs s b)" using b(2) by (auto simp: blk_def)
    then have "t = s\<lparr>bufs := (bufs s)(b := ?B)\<rparr>" unfolding t_def using True by (cases "bufs s b") simp
    moreover have "valid (bufs t b)" using True by (simp add: t_def)
    ultimately show ?thesis unfolding bread_def using g[folded t_def] by (simp add: bnd_def gets_def ret_def)
  next
    case False
    then have "blk s bno = disk s bno" using b(2) by (auto simp: blk_def)
    moreover have "\<not> valid (bufs t b)" using False by (simp add: t_def)
    ultimately show ?thesis unfolding bread_def using g[folded t_def]
      by (simp add: bnd_def gets_def ret_def sq_def upd_def disk_rw_def buf_upd_def) (cases "bufs s b", simp add: t_def)
  qed
  then show thesis using that b by blast
qed

end
