(* ===== verification/Bcache.thy ===== *)
theory Bcache
  imports Bio
begin

text \<open>
  The contract of the buffer cache. \<open>crep s H L D T P\<close> says what a state of the cache stands for:
  the buffers the running process holds with their blocks (\<open>H\<close>), the logical contents of the
  blocks (\<open>L\<close>), the disk (\<open>D\<close>), the trace of writes to it (\<open>T\<close>) and the reference counts of the
  blocks (\<open>P\<close>). The locale states the laws of the operations on these; its clients never look
  at buffers or at the list again.
\<close>

definition set_data :: "nat \<Rightarrow> memory \<Rightarrow> ('z, unit) bprog" where
  "set_data b d = buf_upd b (\<lambda>B. B\<lparr>bdata := d\<rparr>)"

definition pin :: "'z blkd_scheme \<Rightarrow> nat \<Rightarrow> int" where
  "pin s bno = (case cached s bno of None \<Rightarrow> 0 | Some b \<Rightarrow> refcnt (bufs s b))"

definition kept :: "'z blkd_scheme \<Rightarrow> 'z blkd_scheme \<Rightarrow> bool" where
  "kept s s' \<longleftrightarrow> (\<exists>B nx pv d w. s' = s\<lparr>bufs := B, bnext := nx, bprev := pv, disk := d, wtrace := w\<rparr>)"

definition crep :: "'z blkd_scheme \<Rightarrow> (nat \<Rightarrow> nat option) \<Rightarrow> (nat \<Rightarrow> memory) \<Rightarrow> (nat \<Rightarrow> memory) \<Rightarrow> (nat \<times> memory) list \<Rightarrow> (nat \<Rightarrow> int) \<Rightarrow> bool" where
  "crep s H L D T P \<longleftrightarrow> bcache_inv s \<and> blk s = L \<and> disk s = D \<and> wtrace s = T \<and> pin s = P \<and>
     (\<forall>b < NBUF. 0 \<le> refcnt (bufs s b) \<and> (refcnt (bufs s b) \<noteq> 0 \<longrightarrow> bdev (bufs s b) = ROOTDEV) \<and> (blocked (bufs s b) \<longrightarrow> H b \<noteq> None)) \<and>
     (\<forall>b n. H b = Some n \<longrightarrow> b < NBUF \<and> blocked (bufs s b) \<and> bpid (bufs s b) = mypid s \<and> 1 \<le> refcnt (bufs s b) \<and>
        valid (bufs s b) \<and> bdev (bufs s b) = ROOTDEV \<and> blockno (bufs s b) = n)"

lemma keptI: "s' = s\<lparr>bufs := B, bnext := nx, bprev := pv, disk := d, wtrace := w\<rparr> \<Longrightarrow> kept s s'"
  unfolding kept_def by blast

lemma kept_refl: "kept s s"
  by (rule keptI[where B = "bufs s" and nx = "bnext s" and pv = "bprev s" and d = "disk s" and w = "wtrace s"]) simp

lemma kept_bufs: "kept s (s\<lparr>bufs := B\<rparr>)"
  by (rule keptI[where B = B and nx = "bnext s" and pv = "bprev s" and d = "disk s" and w = "wtrace s"]) simp

lemma kept_trans:
  assumes "kept s t" "kept t u"
  shows "kept s u"
proof -
  obtain B nx pv d w where t: "t = s\<lparr>bufs := B, bnext := nx, bprev := pv, disk := d, wtrace := w\<rparr>"
    using assms(1) by (auto simp: kept_def)
  obtain B' nx' pv' d' w' where u: "u = t\<lparr>bufs := B', bnext := nx', bprev := pv', disk := d', wtrace := w'\<rparr>"
    using assms(2) by (auto simp: kept_def)
  show ?thesis by (rule keptI[where B = B' and nx = nx' and pv = pv' and d = d' and w = w']) (simp add: u t)
qed

lemma kept_pid: "kept s t \<Longrightarrow> mypid t = mypid s \<and> blkd.more t = blkd.more s"
  by (auto simp: kept_def)

section \<open>The laws\<close>

lemma crepD:
  assumes "crep s H L D T P"
  shows "bcache_inv s" "blk s = L" "disk s = D" "wtrace s = T" "pin s = P"
    "b < NBUF \<Longrightarrow> 0 \<le> refcnt (bufs s b)" "b < NBUF \<Longrightarrow> refcnt (bufs s b) \<noteq> 0 \<Longrightarrow> bdev (bufs s b) = ROOTDEV"
    "b < NBUF \<Longrightarrow> blocked (bufs s b) \<Longrightarrow> H b \<noteq> None"
    "H b = Some n \<Longrightarrow> b < NBUF \<and> blocked (bufs s b) \<and> bpid (bufs s b) = mypid s \<and> 1 \<le> refcnt (bufs s b) \<and>
        valid (bufs s b) \<and> bdev (bufs s b) = ROOTDEV \<and> blockno (bufs s b) = n"
  using assms by (auto simp: crep_def)

lemma pin_cached: "bcache_inv s \<Longrightarrow> b < NBUF \<Longrightarrow> bdev (bufs s b) = ROOTDEV \<Longrightarrow> pin s (blockno (bufs s b)) = refcnt (bufs s b)"
  using cached_eq[of s b] by (simp add: pin_def)

lemma finite_law:
  assumes c: "crep s H L D T P"
  shows "finite {n. P n \<noteq> 0}"
proof (rule finite_subset)
  show "{n. P n \<noteq> 0} \<subseteq> (\<lambda>b. blockno (bufs s b)) ` {..<NBUF}"
  proof
    fix n assume "n \<in> {n. P n \<noteq> 0}"
    then have "pin s n \<noteq> 0" using crepD(5)[OF c] by simp
    then obtain b where "cached s n = Some b" by (cases "cached s n") (auto simp: pin_def)
    then show "n \<in> (\<lambda>b. blockno (bufs s b)) ` {..<NBUF}" using cached_SomeD[of s n b] by auto
  qed
qed simp

text \<open>With fewer referenced blocks than buffers, some buffer is free.\<close>

lemma free_buffer:
  assumes c: "crep s H L D T P" and f: "card {n. P n \<noteq> 0} < NBUF"
  shows "\<exists>b < NBUF. refcnt (bufs s b) = 0"
proof (rule ccontr)
  assume a: "\<not> ?thesis"
  let ?g = "\<lambda>b. blockno (bufs s b)"
  have dev: "bdev (bufs s b) = ROOTDEV" if "b < NBUF" for b using crepD(7)[OF c that] a that by blast
  have inj: "inj_on ?g {..<NBUF}"
  proof (rule inj_onI)
    fix x y assume "x \<in> {..<NBUF}" "y \<in> {..<NBUF}" "?g x = ?g y"
    then show "x = y" using bcache_unique[OF crepD(1)[OF c], of y x] dev by simp
  qed
  have sub: "?g ` {..<NBUF} \<subseteq> {n. P n \<noteq> 0}"
    using pin_cached[OF crepD(1)[OF c]] dev a crepD(5)[OF c] by fastforce
  have fin: "finite {n. P n \<noteq> 0}" by (rule finite_law[OF c])
  have "NBUF = card (?g ` {..<NBUF})" using card_image[OF inj] by simp
  also have "\<dots> \<le> card {n. P n \<noteq> 0}" by (rule card_mono[OF fin sub])
  finally show False using f by simp
qed

lemma pin_upd:
  assumes inv: "bcache_inv s" and b: "b < NBUF" and B: "bdev B = ROOTDEV" "blockno B = bno"
    and c: "cached s bno = Some b \<or> cached s bno = None \<and> refcnt (bufs s b) = 0"
    and inv': "bcache_inv (s\<lparr>bufs := (bufs s)(b := B)\<rparr>)"
  shows "pin (s\<lparr>bufs := (bufs s)(b := B)\<rparr>) = (pin s)(bno := refcnt B)"
proof
  let ?t = "s\<lparr>bufs := (bufs s)(b := B)\<rparr>"
  fix m show "pin ?t m = ((pin s)(bno := refcnt B)) m"
  proof (cases "m = bno")
    case True
    then show ?thesis using pin_cached[OF inv' b] B by simp
  next
    case ne: False
    show ?thesis
    proof (cases "cached s m")
      case None
      then have "cached ?t m = None" using ne B by (auto simp: cached_None)
      then show ?thesis using None ne by (simp add: pin_def)
    next
      case (Some d)
      note d = cached_SomeD[OF Some]
      show ?thesis
      proof (cases "d = b")
        case False
        then show ?thesis using pin_cached[OF inv', of d] pin_cached[OF inv, of d] d ne by simp
      next
        case True
        then have z: "refcnt (bufs s b) = 0" using c d ne Some cached_SomeD[of s bno b] by auto
        have "cached ?t m = None" unfolding cached_None
        proof (intro allI impI notI)
          fix e assume e: "e < NBUF" "bdev (bufs ?t e) = ROOTDEV \<and> blockno (bufs ?t e) = m"
          then have "e \<noteq> b" using ne B by auto
          then have "cached s m = Some e" using e cached_eq[OF inv e(1)] by simp
          then show False using Some True \<open>e \<noteq> b\<close> by simp
        qed
        then show ?thesis using z ne Some True by (simp add: pin_def)
      qed
    qed
  qed
qed

lemma bread_law:
  assumes c: "crep s H L D T P" and n: "n \<notin> ran H" and f: "P n = 0 \<Longrightarrow> card {m. P m \<noteq> 0} < NBUF"
  shows "\<exists>b s'. bread ROOTDEV n s = Inr (b, s') \<and> H b = None \<and> crep s' (H(b \<mapsto> n)) L D T (P(n := P n + 1)) \<and> kept s s'"
proof -
  note inv = crepD(1)[OF c]
  have nb: "\<not> blocked (bufs s b) \<and> 0 \<le> refcnt (bufs s b)" if "cached s n = Some b" for b
  proof -
    note b = cached_SomeD[OF that]
    have "H b = None"
    proof (cases "H b")
      case (Some m)
      then have "m = n" using crepD(9)[OF c Some] b by simp
      then show ?thesis using Some n by (auto simp: ran_def)
    qed
    then show ?thesis using crepD(6,8)[OF c, of b] b by auto
  qed
  have fr: "\<exists>b < NBUF. refcnt (bufs s b) = 0" if "cached s n = None"
    using free_buffer[OF c f] that crepD(5)[OF c] by (auto simp: pin_def)
  obtain b where b: "b < NBUF" "cached s n = Some b \<or> cached s n = None \<and> refcnt (bufs s b) = 0"
    and r: "bread ROOTDEV n s = Inr (b, s\<lparr>bufs := (bufs s)(b := (bufs s b)\<lparr>bdev := ROOTDEV, blockno := n,
       valid := True, refcnt := refcnt (bufs s b) + 1, blocked := True, bpid := mypid s, bdata := blk s n\<rparr>)\<rparr>)"
    by (rule bread_run[OF inv nb fr]) (auto intro: that)
  define B where "B = (bufs s b)\<lparr>bdev := ROOTDEV, blockno := n,
       valid := True, refcnt := refcnt (bufs s b) + 1, blocked := True, bpid := mypid s, bdata := blk s n\<rparr>"
  let ?t = "s\<lparr>bufs := (bufs s)(b := B)\<rparr>"
  have Hb: "H b = None"
  proof (cases "H b")
    case (Some m)
    note h = crepD(9)[OF c Some]
    then show ?thesis using b(2) nb by auto
  qed
  have B: "bdev B = ROOTDEV" "blockno B = n" "refcnt B = refcnt (bufs s b) + 1" "valid B" "bdata B = blk s n" "blocked B" "bpid B = mypid s"
    by (simp_all add: B_def)
  have r0: "0 \<le> refcnt (bufs s b)" by (rule crepD(6)[OF c b(1)])
  have cl: "refcnt B = 0 \<longrightarrow> \<not> blocked B \<and> (valid B \<longrightarrow> bdata B = disk s n)" using B(3) r0 by simp
  note U = bcache_upd[OF inv b(1) B(1,2) b(2) cl]
  have L: "blk ?t = L"
  proof
    fix m show "blk ?t m = L m" using U(2) U(3)[of m] B(4,5) crepD(2)[OF c] by (cases "m = n") auto
  qed
  have P: "pin ?t = P(n := P n + 1)"
  proof -
    have "P n = refcnt (bufs s b)" using b(2) crepD(5)[OF c] by (auto simp: pin_def)
    then show ?thesis using pin_upd[OF inv b(1) B(1,2) b(2) U(1)] B(3) crepD(5)[OF c] by simp
  qed
  have "crep ?t (H(b \<mapsto> n)) L D T (P(n := P n + 1))"
    unfolding crep_def using U(1) L P B r0 crepD(3,4,6-8)[OF c] crepD(9)[OF c] b(1) by auto
  moreover have "kept s ?t" by (rule kept_bufs)
  ultimately show ?thesis using r[folded B_def] Hb by blast
qed

lemma held_cached: "crep s H L D T P \<Longrightarrow> H b = Some n \<Longrightarrow> cached s n = Some b"
  using crepD(9)[of s H L D T P b n] cached_eq[OF crepD(1), of s H L D T P b n] by blast

lemma held_data: "crep s H L D T P \<Longrightarrow> H b = Some n \<Longrightarrow> bdata (bufs s b) = L n \<and> refcnt (bufs s b) = P n"
  using blk_cached[OF crepD(1), of s H L D T P b] pin_cached[OF crepD(1), of s H L D T P b] crepD(9)[of s H L D T P b n]
    crepD(2)[of s H L D T P] crepD(5)[of s H L D T P] by auto

lemma held_upd:
  assumes c: "crep s H L D T P" and b: "H b = Some n"
    and B: "bdev B = ROOTDEV" "blockno B = n" "valid B" "blocked B" "bpid B = mypid s" "1 \<le> refcnt B"
  shows "crep (s\<lparr>bufs := (bufs s)(b := B)\<rparr>) H (L(n := bdata B)) D T (P(n := refcnt B))"
proof -
  let ?t = "s\<lparr>bufs := (bufs s)(b := B)\<rparr>"
  note inv = crepD(1)[OF c]
  have bn: "b < NBUF" using crepD(9)[OF c b] by simp
  have ca: "cached s n = Some b \<or> cached s n = None \<and> refcnt (bufs s b) = 0" using held_cached[OF c b] by simp
  have cl: "refcnt B = 0 \<longrightarrow> \<not> blocked B \<and> (valid B \<longrightarrow> bdata B = disk s n)" using B(6) by simp
  note U = bcache_upd[OF inv bn B(1,2) ca cl]
  have L: "blk ?t = L(n := bdata B)"
  proof
    fix m show "blk ?t m = (L(n := bdata B)) m" using U(2) U(3)[of m] B(3) crepD(2)[OF c] by (cases "m = n") auto
  qed
  have P: "pin ?t = P(n := refcnt B)" using pin_upd[OF inv bn B(1,2) ca U(1)] crepD(5)[OF c] by simp
  show ?thesis unfolding crep_def using U(1) L P B b bn crepD(3,4,6-8)[OF c] crepD(9)[OF c] by auto
qed

lemma set_data_law:
  assumes c: "crep s H L D T P" and b: "H b = Some n"
  shows "\<exists>s'. set_data b d s = Inr ((), s') \<and> crep s' H (L(n := d)) D T P \<and> kept s s'"
proof -
  let ?B = "(bufs s b)\<lparr>bdata := d\<rparr>"
  note h = crepD(9)[OF c b] held_data[OF c b]
  have "crep (s\<lparr>bufs := (bufs s)(b := ?B)\<rparr>) H (L(n := bdata ?B)) D T (P(n := refcnt ?B))"
    by (rule held_upd[OF c b]) (use h in simp_all)
  moreover have "P(n := refcnt ?B) = P" using h by auto
  ultimately have "crep (s\<lparr>bufs := (bufs s)(b := ?B)\<rparr>) H (L(n := d)) D T P" by simp
  then show ?thesis using kept_bufs by (auto simp: set_data_def buf_upd_def run_simps)
qed

lemma bpin_law:
  assumes c: "crep s H L D T P" and b: "H b = Some n"
  shows "\<exists>s'. bpin b s = Inr ((), s') \<and> crep s' H L D T (P(n := P n + 1)) \<and> kept s s'"
proof -
  let ?B = "(bufs s b)\<lparr>refcnt := refcnt (bufs s b) + 1\<rparr>"
  note h = crepD(9)[OF c b] held_data[OF c b]
  have "crep (s\<lparr>bufs := (bufs s)(b := ?B)\<rparr>) H (L(n := bdata ?B)) D T (P(n := refcnt ?B))"
    by (rule held_upd[OF c b]) (use h in simp_all)
  moreover have "L(n := bdata ?B) = L" "refcnt ?B = P n + 1" using h by auto
  ultimately have "crep (s\<lparr>bufs := (bufs s)(b := ?B)\<rparr>) H L D T (P(n := P n + 1))" by simp
  then show ?thesis using kept_bufs by (auto simp: bpin_def buf_upd_def run_simps)
qed

lemma bunpin_law:
  assumes c: "crep s H L D T P" and b: "H b = Some n" and p: "2 \<le> P n"
  shows "\<exists>s'. bunpin b s = Inr ((), s') \<and> crep s' H L D T (P(n := P n - 1)) \<and> kept s s'"
proof -
  let ?B = "(bufs s b)\<lparr>refcnt := refcnt (bufs s b) - 1\<rparr>"
  note h = crepD(9)[OF c b] held_data[OF c b]
  have "crep (s\<lparr>bufs := (bufs s)(b := ?B)\<rparr>) H (L(n := bdata ?B)) D T (P(n := refcnt ?B))"
    by (rule held_upd[OF c b]) (use h p in simp_all)
  moreover have "L(n := bdata ?B) = L" "refcnt ?B = P n - 1" using h by auto
  ultimately have "crep (s\<lparr>bufs := (bufs s)(b := ?B)\<rparr>) H L D T (P(n := P n - 1))" by simp
  then show ?thesis using kept_bufs by (auto simp: bunpin_def buf_upd_def run_simps)
qed

lemma bwrite_law:
  assumes c: "crep s H L D T P" and b: "H b = Some n"
  shows "\<exists>s'. bwrite b s = Inr ((), s') \<and> crep s' H L (D(n := L n)) (T @ [(n, L n)]) P \<and> kept s s'"
proof -
  note h = crepD(9)[OF c b] held_data[OF c b] and inv = crepD(1)[OF c]
  let ?t = "s\<lparr>disk := (disk s)(n := L n), wtrace := wtrace s @ [(n, L n)]\<rparr>"
  have run: "bwrite b s = Inr ((), ?t)"
    using h by (simp add: bwrite_def holding_buf_def disk_rw_def run_simps)
  have ca: "cached ?t m = cached s m" for m by (simp add: cached_def)
  have own: "e = b" if "e < NBUF" "bdev (bufs s e) = ROOTDEV" "blockno (bufs s e) = n" for e
    using bcache_unique[OF inv, of b e] h that by simp
  have cl: "bdata (bufs s e) = (D(n := L n)) (blockno (bufs s e))"
    if "e < NBUF" "refcnt (bufs s e) = 0" "valid (bufs s e)" "bdev (bufs s e) = ROOTDEV" for e
  proof -
    have "blockno (bufs s e) \<noteq> n" using own[OF that(1,4)] that(2) h by auto
    then show ?thesis using inv that crepD(3)[OF c] by (auto simp: bcache_inv_def)
  qed
  have "bcache_inv ?t" using inv cl crepD(3)[OF c] by (auto simp: bcache_inv_def)
  moreover have "blk ?t = L"
  proof
    fix m show "blk ?t m = L m"
    proof (cases "m = n")
      case True
      then show ?thesis using held_cached[OF c b] h by (simp add: blk_def ca)
    next
      case False
      then show ?thesis using crepD(2)[OF c] by (auto simp: blk_def ca split: option.splits)
    qed
  qed
  moreover have "pin ?t = P"
  proof
    fix m
    have "pin ?t m = pin s m" by (simp add: pin_def ca split: option.splits)
    then show "pin ?t m = P m" using crepD(5)[OF c] by simp
  qed
  ultimately have "crep ?t H L (D(n := L n)) (T @ [(n, L n)]) P"
    unfolding crep_def using crepD(3,4,6-8)[OF c] crepD(9)[OF c] by auto
  moreover have "kept s ?t"
    by (rule keptI[where B = "bufs s" and nx = "bnext s" and pv = "bprev s" and d = "(disk s)(n := L n)" and w = "wtrace s @ [(n, L n)]"]) simp
  ultimately show ?thesis using run by blast
qed

lemma links_upd:
  assumes "bcache_inv s" "dll nx pv bs"
  shows "bcache_inv (s\<lparr>bnext := nx, bprev := pv\<rparr>)" "cached (s\<lparr>bnext := nx, bprev := pv\<rparr>) m = cached s m"
    "blk (s\<lparr>bnext := nx, bprev := pv\<rparr>) = blk s" "pin (s\<lparr>bnext := nx, bprev := pv\<rparr>) = pin s"
proof -
  let ?t = "s\<lparr>bnext := nx, bprev := pv\<rparr>"
  have c: "cached ?t m = cached s m" for m by (simp add: cached_def)
  show "cached ?t m = cached s m" by (rule c)
  show "bcache_inv ?t" using assms by (auto simp: bcache_inv_def)
  show "blk ?t = blk s" by (rule ext) (simp add: blk_def c split: option.splits)
  show "pin ?t = pin s" by (rule ext) (simp add: pin_def c split: option.splits)
qed

lemma brelse_run:
  assumes "blocked (bufs s b)" "bpid (bufs s b) = mypid s"
  defines "t \<equiv> s\<lparr>bufs := (bufs s)(b := (bufs s b)\<lparr>blocked := False, bpid := 0, refcnt := refcnt (bufs s b) - 1\<rparr>)\<rparr>"
  defines "nx1 \<equiv> (bnext s)(bprev s b := bnext s b)" and "pv1 \<equiv> (bprev s)(bnext s b := bprev s b)"
  shows "brelse b s = Inr ((), if refcnt (bufs s b) = 1
    then t\<lparr>bnext := nx1(b := nx1 NBUF, NBUF := b), bprev := (pv1(b := NBUF))(nx1 NBUF := b)\<rparr> else t)"
  using assms(1,2)
  by (simp add: brelse_def holding_buf_def buf_upd_def run_simps push_front_def set_next_def set_prev_def t_def nx1_def pv1_def)

lemma brelse_law:
  assumes c: "crep s H L D T P" and b: "H b = Some n" and p: "P n = 1 \<Longrightarrow> L n = D n"
  shows "\<exists>s'. brelse b s = Inr ((), s') \<and> crep s' (H(b := None)) L D T (P(n := P n - 1)) \<and> kept s s'"
proof -
  note h = crepD(9)[OF c b] held_data[OF c b] and inv = crepD(1)[OF c]
  define B where "B = (bufs s b)\<lparr>blocked := False, bpid := 0, refcnt := refcnt (bufs s b) - 1\<rparr>"
  let ?t = "s\<lparr>bufs := (bufs s)(b := B)\<rparr>"
  have bn: "b < NBUF" using h by simp
  have B: "bdev B = ROOTDEV" "blockno B = n" "valid B" "\<not> blocked B" "refcnt B = P n - 1" "bdata B = L n" using h by (simp_all add: B_def)
  have ca: "cached s n = Some b \<or> cached s n = None \<and> refcnt (bufs s b) = 0" using held_cached[OF c b] by simp
  have cl: "refcnt B = 0 \<longrightarrow> \<not> blocked B \<and> (valid B \<longrightarrow> bdata B = disk s n)" using B p crepD(3)[OF c] by auto
  note U = bcache_upd[OF inv bn B(1,2) ca cl]
  have L: "blk ?t = L"
  proof
    fix m show "blk ?t m = L m" using U(2) U(3)[of m] B(3,6) crepD(2)[OF c] by (cases "m = n") auto
  qed
  have P: "pin ?t = P(n := P n - 1)" using pin_upd[OF inv bn B(1,2) ca U(1)] crepD(5)[OF c] B(5) by simp
  have nn: "H' b' \<noteq> Some m \<or> b' \<noteq> b" if "H' = H(b := None)" for H' b' m using that by simp
  have t: "crep ?t (H(b := None)) L D T (P(n := P n - 1))"
    unfolding crep_def using U(1) L P B h bn crepD(3,4,6-8)[OF c] crepD(9)[OF c] by (auto split: if_splits)
  obtain bs where d: "dll (bnext s) (bprev s) bs" using inv by (auto simp: bcache_inv_def)
  have mem: "b \<in> set bs" using d bn by (simp add: dll_def)
  define nx where "nx = ((bnext s)(bprev s b := bnext s b))(b := ((bnext s)(bprev s b := bnext s b)) NBUF, NBUF := b)"
  define pv where "pv = (((bprev s)(bnext s b := bprev s b))(b := NBUF))(((bnext s)(bprev s b := bnext s b)) NBUF := b)"
  have dm: "dll nx pv (b # removeAll b bs)" unfolding nx_def pv_def by (rule dll_move[OF d mem])
  have lk: "crep (?t\<lparr>bnext := nx, bprev := pv\<rparr>) (H(b := None)) L D T (P(n := P n - 1))"
    unfolding crep_def using links_upd[OF crepD(1)[OF t] dm] crepD(2-8)[OF t] crepD(9)[OF t] by simp
  have run: "brelse b s = Inr ((), if refcnt (bufs s b) = 1 then ?t\<lparr>bnext := nx, bprev := pv\<rparr> else ?t)"
    unfolding nx_def pv_def B_def by (rule brelse_run) (use h in simp_all)
  have k: "kept s (?t\<lparr>bnext := nx, bprev := pv\<rparr>)"
    by (rule keptI[where B = "(bufs s)(b := B)" and nx = nx and pv = pv and d = "disk s" and w = "wtrace s"]) simp
  show ?thesis
  proof (cases "refcnt (bufs s b) = 1")
    case True
    then show ?thesis using run lk k by auto
  next
    case False
    then show ?thesis using run t kept_bufs by auto
  qed
qed

lemma clean_law:
  assumes c: "crep s H L D T P" and p: "P n = 0"
  shows "L n = D n"
proof (cases "cached s n")
  case None
  then show ?thesis using crepD(2,3)[OF c] by (auto simp: blk_def)
next
  case (Some b)
  note b = cached_SomeD[OF Some]
  have "refcnt (bufs s b) = 0" using p crepD(5)[OF c] Some by (auto simp: pin_def)
  then have "blk s n = disk s n" using crepD(1)[OF c] b Some by (auto simp: bcache_inv_def blk_def)
  then show ?thesis using crepD(2,3)[OF c] by simp
qed

section \<open>The interface\<close>

text \<open>
  What a client of the cache may rely on. A block is read into a buffer of its own while the number of
  referenced blocks stays below the number of buffers, and a buffer whose last reference goes must
  agree with the disk.
\<close>

locale block_cache =
  fixes rd :: "nat \<Rightarrow> ('s, 'e, nat) comp" and wr rel pinb unpinb :: "nat \<Rightarrow> ('s, 'e, unit) comp"
    and put :: "nat \<Rightarrow> memory \<Rightarrow> ('s, 'e, unit) comp" and get :: "'s \<Rightarrow> nat \<Rightarrow> memory"
    and rep :: "'s \<Rightarrow> (nat \<Rightarrow> nat option) \<Rightarrow> (nat \<Rightarrow> memory) \<Rightarrow> (nat \<Rightarrow> memory) \<Rightarrow> (nat \<times> memory) list \<Rightarrow> (nat \<Rightarrow> int) \<Rightarrow> bool"
    and same :: "'s \<Rightarrow> 's \<Rightarrow> bool" and N :: nat
  assumes rd: "rep s H L D T P \<Longrightarrow> n \<notin> ran H \<Longrightarrow> (P n = 0 \<Longrightarrow> card {m. P m \<noteq> 0} < N) \<Longrightarrow>
      \<exists>b s'. rd n s = Inr (b, s') \<and> H b = None \<and> rep s' (H(b \<mapsto> n)) L D T (P(n := P n + 1)) \<and> same s s'"
    and wr: "rep s H L D T P \<Longrightarrow> H b = Some n \<Longrightarrow>
      \<exists>s'. wr b s = Inr ((), s') \<and> rep s' H L (D(n := L n)) (T @ [(n, L n)]) P \<and> same s s'"
    and rel: "rep s H L D T P \<Longrightarrow> H b = Some n \<Longrightarrow> (P n = 1 \<Longrightarrow> L n = D n) \<Longrightarrow>
      \<exists>s'. rel b s = Inr ((), s') \<and> rep s' (H(b := None)) L D T (P(n := P n - 1)) \<and> same s s'"
    and pinb: "rep s H L D T P \<Longrightarrow> H b = Some n \<Longrightarrow>
      \<exists>s'. pinb b s = Inr ((), s') \<and> rep s' H L D T (P(n := P n + 1)) \<and> same s s'"
    and unpinb: "rep s H L D T P \<Longrightarrow> H b = Some n \<Longrightarrow> 2 \<le> P n \<Longrightarrow>
      \<exists>s'. unpinb b s = Inr ((), s') \<and> rep s' H L D T (P(n := P n - 1)) \<and> same s s'"
    and put: "rep s H L D T P \<Longrightarrow> H b = Some n \<Longrightarrow>
      \<exists>s'. put b d s = Inr ((), s') \<and> rep s' H (L(n := d)) D T P \<and> same s s'"
    and get: "rep s H L D T P \<Longrightarrow> H b = Some n \<Longrightarrow> get s b = L n"
    and clean: "rep s H L D T P \<Longrightarrow> P n = 0 \<Longrightarrow> L n = D n"
    and finite_pins: "rep s H L D T P \<Longrightarrow> finite {n. P n \<noteq> 0}"
    and same_trans: "same s t \<Longrightarrow> same t u \<Longrightarrow> same s u"
begin

lemma room:
  assumes "rep s H L D T P" "{m. P m \<noteq> 0} \<subseteq> F" "n \<in> F" "finite F" "card F \<le> N" "P n = 0"
  shows "card {m. P m \<noteq> 0} < N"
proof -
  have "{m. P m \<noteq> 0} \<subset> F" using assms by auto
  then show ?thesis using psubset_card_mono[of F "{m. P m \<noteq> 0}"] assms by simp
qed

text \<open>Reading a block and giving the buffer back changes nothing.\<close>

lemma look_at:
  assumes r: "rep s H L D T P" and n: "n \<notin> ran H" and p: "P n = 0 \<Longrightarrow> card {m. P m \<noteq> 0} < N"
  shows "\<exists>s'. bnd (rd n) (\<lambda>b. bnd (gets (\<lambda>s. get s b)) (\<lambda>d. sq (rel b) (ret (f d)))) s = Inr (f (L n), s') \<and> rep s' H L D T P \<and> same s s'"
proof -
  obtain b s1 where 1: "rd n s = Inr (b, s1)" "H b = None" "rep s1 (H(b \<mapsto> n)) L D T (P(n := P n + 1))" "same s s1"
    using rd[OF r n p] by auto
  have g: "get s1 b = L n" by (rule get[OF 1(3)]) simp
  obtain s2 where 2: "rel b s1 = Inr ((), s2)" "rep s2 ((H(b \<mapsto> n))(b := None)) L D T ((P(n := P n + 1))(n := (P(n := P n + 1)) n - 1))" "same s1 s2"
    using rel[OF 1(3), of b n] clean[OF r, of n] by auto
  have e: "(H(b \<mapsto> n))(b := None) = H" "(P(n := P n + 1))(n := (P(n := P n + 1)) n - 1) = P" using 1(2) by (auto simp: fun_eq_iff)
  have "bnd (rd n) (\<lambda>b. bnd (gets (\<lambda>s. get s b)) (\<lambda>d. sq (rel b) (ret (f d)))) s = Inr (f (L n), s2)"
    by (simp add: run_simps 1(1) g 2(1))
  then show ?thesis using 2(2,3) e same_trans[OF 1(4)] by auto
qed

text \<open>A block rewritten in place.\<close>

lemma rewrite:
  assumes r: "rep s H L D T P" and n: "n \<notin> ran H" and p: "P n = 0 \<Longrightarrow> card {m. P m \<noteq> 0} < N"
  shows "\<exists>s'. bnd (rd n) (\<lambda>b. bnd (gets (\<lambda>s. get s b)) (\<lambda>d. sq (put b (f d)) (sq (wr b) (rel b)))) s = Inr ((), s') \<and>
    rep s' H (L(n := f (L n))) (D(n := f (L n))) (T @ [(n, f (L n))]) P \<and> same s s'"
proof -
  let ?L = "L(n := f (L n))"
  obtain b s1 where 1: "rd n s = Inr (b, s1)" "H b = None" "rep s1 (H(b \<mapsto> n)) L D T (P(n := P n + 1))" "same s s1"
    using rd[OF r n p] by auto
  have g: "get s1 b = L n" by (rule get[OF 1(3)]) simp
  obtain s2 where 2: "put b (f (L n)) s1 = Inr ((), s2)" "rep s2 (H(b \<mapsto> n)) ?L D T (P(n := P n + 1))" "same s1 s2"
    using put[OF 1(3), of b n] by auto
  obtain s3 where 3: "wr b s2 = Inr ((), s3)" "rep s3 (H(b \<mapsto> n)) ?L (D(n := f (L n))) (T @ [(n, f (L n))]) (P(n := P n + 1))" "same s2 s3"
    using wr[OF 2(2), of b n] by auto
  obtain s4 where 4: "rel b s3 = Inr ((), s4)" "rep s4 ((H(b \<mapsto> n))(b := None)) ?L (D(n := f (L n))) (T @ [(n, f (L n))]) ((P(n := P n + 1))(n := (P(n := P n + 1)) n - 1))" "same s3 s4"
    using rel[OF 3(2), of b n] by auto
  have e: "(H(b \<mapsto> n))(b := None) = H" "(P(n := P n + 1))(n := (P(n := P n + 1)) n - 1) = P" using 1(2) by (auto simp: fun_eq_iff)
  have "bnd (rd n) (\<lambda>b. bnd (gets (\<lambda>s. get s b)) (\<lambda>d. sq (put b (f d)) (sq (wr b) (rel b)))) s = Inr ((), s4)"
    by (simp add: run_simps 1(1) g 2(1) 3(1) 4(1))
  then show ?thesis using 4(2) e same_trans[OF same_trans[OF same_trans[OF 1(4) 2(3)] 3(3)] 4(3)] by auto
qed

text \<open>Two different blocks read, one after the other.\<close>

lemma two_reads:
  assumes r: "rep s H L D T P" and x: "x \<notin> ran H" and y: "y \<notin> ran H" and ne: "x \<noteq> y"
    and c: "card ({m. P m \<noteq> 0} \<union> {x, y}) \<le> N"
  obtains a b s1 s2 where "rd x s = Inr (a, s1)" "rd y s1 = Inr (b, s2)" "H a = None" "H b = None" "a \<noteq> b"
    "rep s2 (H(a \<mapsto> x, b \<mapsto> y)) L D T (P(x := P x + 1, y := P y + 1))" "same s s2"
proof -
  let ?F = "{m. P m \<noteq> 0} \<union> {x, y}"
  have fin: "finite ?F" using finite_pins[OF r] by simp
  obtain a s1 where 1: "rd x s = Inr (a, s1)" "H a = None" "rep s1 (H(a \<mapsto> x)) L D T (P(x := P x + 1))" "same s s1"
    using rd[OF r x] room[OF r _ _ fin c, of x] by auto
  have y': "y \<notin> ran (H(a \<mapsto> x))" using y ne by (auto simp: ran_def)
  have p: "card {m. (P(x := P x + 1)) m \<noteq> 0} < N" if "(P(x := P x + 1)) y = 0"
    by (rule room[OF 1(3) _ _ fin c that]) auto
  obtain b s2 where 2: "rd y s1 = Inr (b, s2)" "(H(a \<mapsto> x)) b = None" "rep s2 (H(a \<mapsto> x, b \<mapsto> y)) L D T ((P(x := P x + 1))(y := (P(x := P x + 1)) y + 1))" "same s1 s2"
    using rd[OF 1(3) y' p] by blast
  have e: "(P(x := P x + 1))(y := (P(x := P x + 1)) y + 1) = P(x := P x + 1, y := P y + 1)" using ne by simp
  show ?thesis
    by (rule that[OF 1(1) 2(1) 1(2) _ _ 2(3)[unfolded e] same_trans[OF 1(4) 2(4)]]) (use 2(2) in \<open>auto split: if_splits\<close>)
qed

text \<open>The block \<^verbatim>\<open>y\<close> copied over the block \<^verbatim>\<open>x\<close>, both read in this order.\<close>

lemma copy_into:
  assumes r: "rep s H L D T P" and x: "x \<notin> ran H" and y: "y \<notin> ran H" and ne: "x \<noteq> y"
    and c: "card ({m. P m \<noteq> 0} \<union> {x, y}) \<le> N"
  shows "\<exists>s'. bnd (rd x) (\<lambda>a. bnd (rd y) (\<lambda>b. bnd (gets (\<lambda>s. get s b)) (\<lambda>d. sq (put a d) (sq (wr a) (sq (rel b) (rel a)))))) s = Inr ((), s') \<and>
    rep s' H (L(x := L y)) (D(x := L y)) (T @ [(x, L y)]) P \<and> same s s'"
proof -
  obtain a b s1 s2 where rds: "rd x s = Inr (a, s1)" "rd y s1 = Inr (b, s2)" and h: "H a = None" "H b = None" "a \<noteq> b"
    and r2: "rep s2 (H(a \<mapsto> x, b \<mapsto> y)) L D T (P(x := P x + 1, y := P y + 1))" and k2: "same s s2"
    by (rule two_reads[OF assms]) (rule that)
  have g: "get s2 b = L y" by (rule get[OF r2]) simp
  let ?L = "L(x := L y)" and ?D = "D(x := L y)" and ?T = "T @ [(x, L y)]" and ?H = "H(a \<mapsto> x, b \<mapsto> y)" and ?P = "P(x := P x + 1, y := P y + 1)"
  obtain s3 where 3: "put a (L y) s2 = Inr ((), s3)" "rep s3 ?H ?L D T ?P" "same s2 s3" using put[OF r2, of a x "L y"] h by auto
  obtain s4 where 4: "wr a s3 = Inr ((), s4)" "rep s4 ?H ?L ?D ?T ?P" "same s3 s4" using wr[OF 3(2), of a x] h by auto
  obtain s5 where 5: "rel b s4 = Inr ((), s5)" "rep s5 (?H(b := None)) ?L ?D ?T (?P(y := ?P y - 1))" "same s4 s5"
    using rel[OF 4(2), of b y] ne clean[OF r, of y] by auto
  obtain s6 where 6: "rel a s5 = Inr ((), s6)" "rep s6 (?H(b := None, a := None)) ?L ?D ?T (?P(y := ?P y - 1, x := (?P(y := ?P y - 1)) x - 1))" "same s5 s6"
    using rel[OF 5(2), of a x] h by auto
  have e: "?H(b := None, a := None) = H" "?P(y := ?P y - 1, x := (?P(y := ?P y - 1)) x - 1) = P" using h ne by (auto simp: fun_eq_iff)
  have "bnd (rd x) (\<lambda>a. bnd (rd y) (\<lambda>b. bnd (gets (\<lambda>s. get s b)) (\<lambda>d. sq (put a d) (sq (wr a) (sq (rel b) (rel a)))))) s = Inr ((), s6)"
    by (simp add: run_simps rds g 3(1) 4(1) 5(1) 6(1))
  then show ?thesis using 6(2) e same_trans[OF same_trans[OF same_trans[OF same_trans[OF k2 3(3)] 4(3)] 5(3)] 6(3)] by auto
qed

text \<open>The block \<^verbatim>\<open>x\<close> copied over the block \<^verbatim>\<open>y\<close>, which may be unpinned as well.\<close>

lemma copy_from:
  assumes r: "rep s H L D T P" and x: "x \<notin> ran H" and y: "y \<notin> ran H" and ne: "x \<noteq> y"
    and c: "card ({m. P m \<noteq> 0} \<union> {x, y}) \<le> N" and u: "u \<Longrightarrow> 1 \<le> P y"
  shows "\<exists>s'. bnd (rd x) (\<lambda>a. bnd (rd y) (\<lambda>b. bnd (gets (\<lambda>s. get s a)) (\<lambda>d. sq (put b d) (sq (wr b)
      (sq (if u then unpinb b else ret ()) (sq (rel a) (rel b))))))) s = Inr ((), s') \<and>
    rep s' H (L(y := L x)) (D(y := L x)) (T @ [(y, L x)]) (if u then P(y := P y - 1) else P) \<and> same s s'"
proof -
  obtain a b s1 s2 where rds: "rd x s = Inr (a, s1)" "rd y s1 = Inr (b, s2)" and h: "H a = None" "H b = None" "a \<noteq> b"
    and r2: "rep s2 (H(a \<mapsto> x, b \<mapsto> y)) L D T (P(x := P x + 1, y := P y + 1))" and k2: "same s s2"
    by (rule two_reads[OF r x y ne c]) (rule that)
  have g: "get s2 a = L x" by (rule get[OF r2]) (use h in simp)
  let ?L = "L(y := L x)" and ?D = "D(y := L x)" and ?T = "T @ [(y, L x)]" and ?H = "H(a \<mapsto> x, b \<mapsto> y)"
  let ?P = "P(x := P x + 1, y := P y + 1)" and ?Q = "P(x := P x + 1, y := if u then P y else P y + 1)"
  obtain s3 where 3: "put b (L x) s2 = Inr ((), s3)" "rep s3 ?H ?L D T ?P" "same s2 s3" using put[OF r2, of b y "L x"] h by auto
  obtain s4 where 4: "wr b s3 = Inr ((), s4)" "rep s4 ?H ?L ?D ?T ?P" "same s3 s4" using wr[OF 3(2), of b y] h by auto
  have "\<exists>s'. (if u then unpinb b else ret ()) s4 = Inr ((), s') \<and> rep s' ?H ?L ?D ?T ?Q \<and> same s s'"
  proof (cases u)
    case True
    have "2 \<le> ?P y" using u True by simp
    then show ?thesis using unpinb[OF 4(2), of b y] True same_trans[OF same_trans[OF same_trans[OF k2 3(3)] 4(3)]] by auto
  next
    case False
    then show ?thesis using 4(2) same_trans[OF same_trans[OF k2 3(3)] 4(3)] by (auto simp: run_simps)
  qed
  then obtain s5 where 5: "(if u then unpinb b else ret ()) s4 = Inr ((), s5)" "rep s5 ?H ?L ?D ?T ?Q" "same s s5" by blast
  obtain s6 where 6: "rel a s5 = Inr ((), s6)" "rep s6 (?H(a := None)) ?L ?D ?T (?Q(x := ?Q x - 1))" "same s5 s6"
    using rel[OF 5(2), of a x] ne h clean[OF r, of x] by auto
  obtain s7 where 7: "rel b s6 = Inr ((), s7)" "rep s7 (?H(a := None, b := None)) ?L ?D ?T (?Q(x := ?Q x - 1, y := (?Q(x := ?Q x - 1)) y - 1))" "same s6 s7"
    using rel[OF 6(2), of b y] h by auto
  have e: "?H(a := None, b := None) = H" "?Q(x := ?Q x - 1, y := (?Q(x := ?Q x - 1)) y - 1) = (if u then P(y := P y - 1) else P)"
    using h ne by (auto simp: fun_eq_iff)
  have "bnd (rd x) (\<lambda>a. bnd (rd y) (\<lambda>b. bnd (gets (\<lambda>s. get s a)) (\<lambda>d. sq (put b d) (sq (wr b)
      (sq (if u then unpinb b else ret ()) (sq (rel a) (rel b))))))) s = Inr ((), s7)"
    using 5(1) by (simp add: run_simps rds g 3(1) 4(1) 6(1) 7(1) split: if_splits)
  then show ?thesis using 7(2)[unfolded e] same_trans[OF same_trans[OF 5(3) 6(3)] 7(3)] by blast
qed

end

interpretation bc: block_cache "bread ROOTDEV" bwrite brelse bpin bunpin set_data "\<lambda>s b. bdata (bufs s b)" crep kept NBUF
proof (unfold_locales, goal_cases)
  case 1 then show ?case by (rule bread_law)
next
  case 2 then show ?case by (rule bwrite_law)
next
  case 3 then show ?case by (rule brelse_law)
next
  case 4 then show ?case by (rule bpin_law)
next
  case 5 then show ?case by (rule bunpin_law)
next
  case 6 then show ?case by (rule set_data_law)
next
  case 7 then show ?case using held_data by blast
next
  case 8 then show ?case by (rule clean_law)
next
  case 9 then show ?case by (rule finite_law)
next
  case 10 then show ?case by (rule kept_trans)
qed

section \<open>After boot\<close>

lemma binit_loop_run:
  assumes "n \<le> NBUF" "bnext s NBUF = NBUF" "bprev s NBUF = NBUF"
  shows "\<exists>nx pv. binit_loop n s = Inr ((), s\<lparr>bnext := nx, bprev := pv,
      bufs := (\<lambda>b. if b < n then (bufs s b)\<lparr>blocked := False, bpid := 0\<rparr> else bufs s b)\<rparr>) \<and> linked nx pv (NBUF # rev [0..<n] @ [NBUF])"
  using assms(1)
proof (induction n)
  case 0
  show ?case by (rule exI[where x = "bnext s"], rule exI[where x = "bprev s"]) (use assms(2,3) in \<open>simp add: run_simps\<close>)
next
  case (Suc n)
  define B where "B k = (\<lambda>b. if b < k then (bufs s b)\<lparr>blocked := False, bpid := 0\<rparr> else bufs s b)" for k
  obtain nx pv where ih: "binit_loop n s = Inr ((), s\<lparr>bnext := nx, bprev := pv, bufs := B n\<rparr>)"
    and l: "linked nx pv (NBUF # rev [0..<n] @ [NBUF])" using Suc unfolding B_def by auto
  have B: "(B n)(n := (B n n)\<lparr>blocked := False, bpid := 0\<rparr>) = B (Suc n)" by (auto simp: B_def fun_eq_iff less_Suc_eq)
  let ?nx = "nx(n := nx NBUF, NBUF := n)" and ?pv = "(pv(n := NBUF))(nx NBUF := n)"
  have "linked ?nx ?pv (NBUF # n # rev [0..<n] @ [NBUF])" by (rule linked_push[OF l]) (use Suc.prems in auto)
  then have l': "linked ?nx ?pv (NBUF # rev [0..<Suc n] @ [NBUF])" by simp
  have r: "binit_loop (Suc n) s = Inr ((), s\<lparr>bnext := ?nx, bprev := ?pv, bufs := B (Suc n)\<rparr>)"
    by (simp add: run_simps ih push_front_def set_next_def set_prev_def buf_upd_def B)
  show ?case unfolding B_def[symmetric] by (rule exI[where x = ?nx], rule exI[where x = ?pv], rule conjI[OF r l'])
qed

text \<open>Once \<^verbatim>\<open>binit\<close> has linked the zeroed buffers, the cache is empty and stands for the disk.\<close>

lemma binit_law:
  assumes z: "\<And>b. bdev (bufs s b) = 0 \<and> refcnt (bufs s b) = 0"
  shows "\<exists>s'. binit s = Inr ((), s') \<and> crep s' Map.empty (disk s) (disk s) (wtrace s) (\<lambda>_. 0) \<and> kept s s'"
proof -
  define q where "q = s\<lparr>bprev := (bprev s)(NBUF := NBUF), bnext := (bnext s)(NBUF := NBUF)\<rparr>"
  define B where "B = (\<lambda>b. if b < NBUF then (bufs q b)\<lparr>blocked := False, bpid := 0\<rparr> else bufs q b)"
  obtain nx pv where r: "binit_loop NBUF q = Inr ((), q\<lparr>bnext := nx, bprev := pv, bufs := B\<rparr>)" and l: "linked nx pv (NBUF # rev [0..<NBUF] @ [NBUF])"
    unfolding B_def using binit_loop_run[of NBUF q] by (auto simp: q_def)
  let ?t = "q\<lparr>bnext := nx, bprev := pv, bufs := B\<rparr>"
  have B: "bdev (B b) = 0" "refcnt (B b) = 0" for b using z by (simp_all add: B_def q_def)
  have nb: "b < NBUF \<Longrightarrow> \<not> blocked (B b)" for b by (simp add: B_def)
  have "dll nx pv (rev [0..<NBUF])" using l by (auto simp: dll_def)
  then have inv: "bcache_inv ?t" using B nb by (auto simp: bcache_inv_def ROOTDEV_def)
  have c: "cached ?t n = None" for n by (simp add: cached_None B ROOTDEV_def)
  have "blk ?t = disk s" "pin ?t = (\<lambda>_. 0)" by (simp_all add: fun_eq_iff blk_def pin_def c) (simp add: q_def)
  then have "crep ?t Map.empty (disk s) (disk s) (wtrace s) (\<lambda>_. 0)" using inv B nb by (simp add: crep_def q_def)
  moreover have "binit s = Inr ((), ?t)" using r by (simp add: binit_def run_simps set_prev_def set_next_def q_def)
  moreover have "kept s ?t"
    by (rule keptI[where B = B and nx = nx and pv = pv and d = "disk s" and w = "wtrace s"]) (simp add: q_def)
  ultimately show ?thesis by blast
qed

section \<open>The property\<close>

text \<open>
  C12. Reading a block through the cache. In a consistent cache, whichever buffers the process holds,
  \<^verbatim>\<open>bread\<close> of a block it does not hold yet succeeds as long as some buffer is unreferenced. It returns a
  locked buffer with the block's current contents: the cached copy if there is one, even if the disk
  is older, and the disk block otherwise. The recycling of the buffer loses nothing: every other
  block keeps its contents, the disk is not written, no block is cached twice, and
  \<^verbatim>\<open>brelse\<close> of the buffer brings the reference counts back.
\<close>

theorem bread_coherent:
  assumes "crep s H L D T P" "n \<notin> ran H" "card {m. P m \<noteq> 0} < NBUF"
  shows "\<exists>b s' s''. bread ROOTDEV n s = Inr (b, s') \<and> H b = None \<and> bdata (bufs s' b) = L n \<and> blocked (bufs s' b) \<and>
     bpid (bufs s' b) = mypid s \<and> crep s' (H(b \<mapsto> n)) L D T (P(n := P n + 1)) \<and>
     (\<forall>c < NBUF. bdev (bufs s' c) = ROOTDEV \<and> blockno (bufs s' c) = n \<longrightarrow> c = b) \<and>
     brelse b s' = Inr ((), s'') \<and> crep s'' H L D T P"
proof -
  obtain b s' where r: "bread ROOTDEV n s = Inr (b, s')" "H b = None" "crep s' (H(b \<mapsto> n)) L D T (P(n := P n + 1))" "kept s s'"
    using bread_law[OF assms(1,2)] assms(3) by blast
  note h = crepD(9)[OF r(3), of b n, simplified] held_data[OF r(3), of b n, simplified]
  have u: "c = b" if "c < NBUF" "bdev (bufs s' c) = ROOTDEV" "blockno (bufs s' c) = n" for c
    using bcache_unique[OF crepD(1)[OF r(3)], of b c] that h by simp
  obtain s'' where 2: "brelse b s' = Inr ((), s'')" "crep s'' ((H(b \<mapsto> n))(b := None)) L D T ((P(n := P n + 1))(n := (P(n := P n + 1)) n - 1))"
    using brelse_law[OF r(3), of b n] clean_law[OF assms(1), of n] by auto
  have e: "(H(b \<mapsto> n))(b := None) = H" "(P(n := P n + 1))(n := (P(n := P n + 1)) n - 1) = P" using r(2) by (auto simp: fun_eq_iff)
  show ?thesis using r 2[unfolded e] h u kept_pid[OF r(4)] by auto
qed

text \<open>The machine after boot, with the given disk.\<close>

definition boot :: "(nat \<Rightarrow> memory) \<Rightarrow> blkd" where
  "boot d = ttyd.extend blank_tty (blkd.fields
     (\<lambda>_. \<lparr>valid = False, bdev = 0, blockno = 0, refcnt = 0, blocked = False, bpid = 0, bdata = (\<lambda>_. 0)\<rparr>) (\<lambda>_. 0) (\<lambda>_. 0) d [] 1)"

theorem bread_coherent_witness:
  "\<exists>s0 b s'. binit (boot (\<lambda>n _. of_nat n)) = Inr ((), s0) \<and> bread ROOTDEV 7 s0 = Inr (b, s') \<and> bdata (bufs s' b) 3 = 7"
proof -
  obtain s0 where s0: "binit (boot (\<lambda>n _. of_nat n)) = Inr ((), s0)" "crep s0 Map.empty (\<lambda>n _. of_nat n) (\<lambda>n _. of_nat n) [] (\<lambda>_. 0)"
    using binit_law[of "boot (\<lambda>n _. of_nat n)"] by (auto simp: boot_def ttyd.extend_def blkd.fields_def)
  have "(7 :: nat) \<notin> ran Map.empty" "card {m :: nat. (\<lambda>_. 0 :: int) m \<noteq> 0} < NBUF" by (simp_all add: NBUF_def)
  from bread_coherent[OF s0(2) this] obtain b s' where "bread ROOTDEV 7 s0 = Inr (b, s')" "bdata (bufs s' b) = (\<lambda>_. of_nat 7)" by blast
  then show ?thesis using s0(1) by auto
qed

end
