(* ===== verification/Log.thy ===== *)
theory Log
  imports Bcache
begin

text \<open>
  The write-ahead log of the file system, \<^verbatim>\<open>kernel/log.c\<close>. The state adds \<^verbatim>\<open>struct log\<close> to the buffer
  cache. Block numbers, which the header keeps as \<^verbatim>\<open>int\<close> and the cache as \<^verbatim>\<open>uint\<close>, are natural
  numbers throughout; the header block is the bytes of \<^verbatim>\<open>struct logheader\<close>. The process that
  must wait for the log sleeps, and runs \<^verbatim>\<open>begin_op\<close> again when it is woken up.
\<close>

record superblock =
  sb_magic :: nat
  sb_size :: nat
  sb_nblocks :: nat
  sb_ninodes :: nat
  sb_nlog :: nat
  sb_logstart :: nat
  sb_inodestart :: nat
  sb_bmapstart :: nat

record logd = blkd +
  log_start :: nat
  log_size :: nat
  log_outstanding :: int
  log_committing :: bool
  log_dev :: nat
  lh_n :: int
  lh_block :: "nat \<Rightarrow> nat"

type_synonym ('z, 'a) gprog = "('z logd_scheme, kerr, 'a) comp"

definition MAXOPBLOCKS :: nat where
  "MAXOPBLOCKS = 10"

definition LOGSIZE :: nat where
  "LOGSIZE = MAXOPBLOCKS * 3"

definition lh_at :: "nat \<Rightarrow> ('z, nat) gprog" where
  "lh_at i = (if i < LOGSIZE then gets (\<lambda>s. lh_block s i) else fail (Undef ''log.lh.block''))"

definition set_lh_at :: "nat \<Rightarrow> nat \<Rightarrow> ('z, unit) gprog" where
  "set_lh_at i n = (if i < LOGSIZE then upd (\<lambda>s. s\<lparr>lh_block := (lh_block s)(i := n)\<rparr>) else fail (Undef ''log.lh.block''))"

definition buf_data :: "nat \<Rightarrow> ('z, memory) bprog" where
  "buf_data b = gets (\<lambda>s. bdata (bufs s b))"

section \<open>Moving blocks between the log and their places\<close>

definition install_block :: "bool \<Rightarrow> nat \<Rightarrow> ('z, unit) gprog" where
  "install_block recovering tail = bnd (gets (\<lambda>s. (log_dev s, log_start s))) (\<lambda>(dev, start).
     bnd (lh_at tail) (\<lambda>bno.
     bnd (bread dev (start + 1 + tail)) (\<lambda>lbuf.
     bnd (bread dev bno) (\<lambda>dbuf.
     bnd (buf_data lbuf) (\<lambda>d.
     sq (set_data dbuf d)
     (sq (bwrite dbuf)
     (sq (if \<not> recovering then bunpin dbuf else ret ())
     (sq (brelse lbuf)
     (brelse dbuf)))))))))"

primrec install_loop :: "bool \<Rightarrow> nat \<Rightarrow> nat \<Rightarrow> ('z, unit) gprog" where
  "install_loop recovering 0 tail = ret ()"
| "install_loop recovering (Suc k) tail = sq (install_block recovering tail) (install_loop recovering k (tail + 1))"

definition install_trans :: "bool \<Rightarrow> ('z, unit) gprog" where
  "install_trans recovering = bnd (gets lh_n) (\<lambda>n. install_loop recovering (nat n) 0)"

definition log_block :: "nat \<Rightarrow> ('z, unit) gprog" where
  "log_block tail = bnd (gets (\<lambda>s. (log_dev s, log_start s))) (\<lambda>(dev, start).
     bnd (lh_at tail) (\<lambda>bno.
     bnd (bread dev (start + 1 + tail)) (\<lambda>to.
     bnd (bread dev bno) (\<lambda>from.
     bnd (buf_data from) (\<lambda>d.
     sq (set_data to d)
     (sq (bwrite to)
     (sq (brelse from)
     (brelse to))))))))"

primrec write_log_loop :: "nat \<Rightarrow> nat \<Rightarrow> ('z, unit) gprog" where
  "write_log_loop 0 tail = ret ()"
| "write_log_loop (Suc k) tail = sq (log_block tail) (write_log_loop k (tail + 1))"

definition write_log :: "('z, unit) gprog" where
  "write_log = bnd (gets lh_n) (\<lambda>n. write_log_loop (nat n) 0)"

section \<open>The header\<close>

definition head_n :: "memory \<Rightarrow> int" where
  "head_n d = sint (load32 d 0)"

definition head_block :: "memory \<Rightarrow> nat \<Rightarrow> nat" where
  "head_block d i = unat (load32 d (4 + 4 * i))"

primrec read_blocks :: "memory \<Rightarrow> nat \<Rightarrow> nat \<Rightarrow> ('z, unit) gprog" where
  "read_blocks d 0 i = ret ()"
| "read_blocks d (Suc k) i = sq (set_lh_at i (head_block d i)) (read_blocks d k (i + 1))"

definition read_head :: "('z, unit) gprog" where
  "read_head = bnd (gets (\<lambda>s. (log_dev s, log_start s))) (\<lambda>(dev, start).
     bnd (bread dev start) (\<lambda>b.
     bnd (buf_data b) (\<lambda>d.
     sq (upd (\<lambda>s. s\<lparr>lh_n := head_n d\<rparr>))
     (sq (read_blocks d (nat (head_n d)) 0)
     (brelse b)))))"

primrec put_blocks :: "(nat \<Rightarrow> nat) \<Rightarrow> nat \<Rightarrow> memory \<Rightarrow> memory" where
  "put_blocks bl 0 d = d"
| "put_blocks bl (Suc i) d = store32 (put_blocks bl i d) (4 + 4 * i) (of_nat (bl i))"

definition put_head :: "int \<Rightarrow> (nat \<Rightarrow> nat) \<Rightarrow> memory \<Rightarrow> memory" where
  "put_head n bl d = put_blocks bl (nat n) (store32 d 0 (of_int n))"

definition write_head :: "('z, unit) gprog" where
  "write_head = bnd (gets (\<lambda>s. (log_dev s, log_start s, lh_n s, lh_block s))) (\<lambda>(dev, start, n, bl).
     sq (guard (n \<le> int LOGSIZE) (Undef ''log.lh.block''))
     (bnd (bread dev start) (\<lambda>b.
     bnd (buf_data b) (\<lambda>d.
     sq (set_data b (put_head n bl d))
     (sq (bwrite b)
     (brelse b))))))"

section \<open>Transactions\<close>

definition set_lh_n :: "int \<Rightarrow> ('z, unit) gprog" where
  "set_lh_n n = upd (\<lambda>s. s\<lparr>lh_n := n\<rparr>)"

definition recover_from_log :: "('z, unit) gprog" where
  "recover_from_log = sq read_head (sq (install_trans True) (sq (set_lh_n 0) write_head))"

definition initlog :: "nat \<Rightarrow> superblock \<Rightarrow> ('z, unit) gprog" where
  "initlog dev sb = (if BSIZE \<le> 4 + 4 * LOGSIZE then panic ''initlog: too big logheader'' else
     sq (upd (\<lambda>s. s\<lparr>log_start := sb_logstart sb, log_size := sb_nlog sb, log_dev := dev\<rparr>)) recover_from_log)"

definition begin_op :: "('z, unit) gprog" where
  "begin_op = bnd (gets (\<lambda>s. (log_committing s, lh_n s, log_outstanding s))) (\<lambda>(committing, n, outstanding).
     if committing then fail (Sleeps ''log'')
     else if n + (outstanding + 1) * int MAXOPBLOCKS > int LOGSIZE then fail (Sleeps ''log'')
     else upd (\<lambda>s. s\<lparr>log_outstanding := log_outstanding s + 1\<rparr>))"

definition commit :: "('z, unit) gprog" where
  "commit = bnd (gets lh_n) (\<lambda>n. if n > 0 then
     sq write_log (sq write_head (sq (install_trans False) (sq (set_lh_n 0) write_head))) else ret ())"

definition end_op :: "('z, unit) gprog" where
  "end_op = sq (upd (\<lambda>s. s\<lparr>log_outstanding := log_outstanding s - 1\<rparr>))
     (bnd (gets (\<lambda>s. (log_committing s, log_outstanding s))) (\<lambda>(committing, outstanding).
     if committing then panic ''log.committing''
     else if outstanding = 0 then
       sq (upd (\<lambda>s. s\<lparr>log_committing := True\<rparr>))
       (sq commit
       (sq (upd (\<lambda>s. s\<lparr>log_committing := False\<rparr>)) (wakeup_chan ''log'')))
     else wakeup_chan ''log''))"

text \<open>The slot of a block that is in the log already, or the next free one.\<close>

definition log_slot :: "(nat \<Rightarrow> nat) \<Rightarrow> nat \<Rightarrow> nat \<Rightarrow> nat" where
  "log_slot bl n bno = length (takeWhile (\<lambda>i. bl i \<noteq> bno) [0..<n])"

definition log_write :: "nat \<Rightarrow> ('z, unit) gprog" where
  "log_write b = bnd (gets (\<lambda>s. (lh_n s, log_size s, log_outstanding s, lh_block s, blockno (bufs s b)))) (\<lambda>(n, sz, outstanding, bl, bno).
     if n \<ge> int LOGSIZE \<or> n \<ge> int sz - 1 then panic ''too big a transaction''
     else if outstanding < 1 then panic ''log_write outside of trans''
     else let i = log_slot bl (nat n) bno in
       sq (set_lh_at i bno)
       (if int i = n then sq (bpin b) (set_lh_n (n + 1)) else ret ()))"

section \<open>The header block as a list of blocks\<close>

lemma put_blocks_low: "a + 4 \<le> 4 \<Longrightarrow> load32 (put_blocks bl n d) a = load32 d a"
  by (induction n) (auto simp: mem_simps)

lemma put_blocks_at: "i < n \<Longrightarrow> load32 (put_blocks bl n d) (4 + 4 * i) = of_nat (bl i)"
proof (induction n)
  case (Suc n)
  show ?case
  proof (cases "i = n")
    case False
    then have "load32 (store32 (put_blocks bl n d) (4 + 4 * n) (of_nat (bl n))) (4 + 4 * i) = load32 (put_blocks bl n d) (4 + 4 * i)"
      using Suc.prems by (intro load32_store32_hi) simp
    then show ?thesis using Suc False by simp
  qed simp
qed simp

lemma head_put:
  assumes "n \<le> LOGSIZE"
  shows "head_n (put_head (int n) bl d) = int n" "i < n \<Longrightarrow> bl i < 2 ^ 32 \<Longrightarrow> head_block (put_head (int n) bl d) i = bl i"
proof -
  have "sint (of_nat n :: 32 word) = int n"
    using assms by (simp add: sint_uint unsigned_of_nat of_nat_take_bit take_bit_int_eq_self signed_take_bit_int_eq_self LOGSIZE_def MAXOPBLOCKS_def)
  then show "head_n (put_head (int n) bl d) = int n" by (simp add: head_n_def put_head_def put_blocks_low)
  show "head_block (put_head (int n) bl d) i = bl i" if "i < n" "bl i < 2 ^ 32"
    using that by (simp add: head_block_def put_head_def put_blocks_at unsigned_of_nat take_bit_nat_eq_self)
qed

section \<open>Representation\<close>

text \<open>The block numbers that the log in memory lists.\<close>

definition log_rep :: "'z logd_scheme \<Rightarrow> nat \<Rightarrow> nat list \<Rightarrow> bool" where
  "log_rep s S bs \<longleftrightarrow> log_start s = S \<and> log_dev s = ROOTDEV \<and> lh_n s = int (length bs) \<and> length bs \<le> LOGSIZE \<and>
     (\<forall>i < length bs. lh_block s i = bs ! i)"

lemma kept_logd: "kept s t \<Longrightarrow> log_start t = log_start s \<and> log_size t = log_size s \<and> log_outstanding t = log_outstanding s \<and>
    log_committing t = log_committing s \<and> log_dev t = log_dev s \<and> lh_n t = lh_n s \<and> lh_block t = lh_block s \<and> logd.more t = logd.more s"
  by (auto simp: kept_def)

lemma kept_upd:
  assumes "kept s t"
  shows "kept (s\<lparr>lh_n := n\<rparr>) (t\<lparr>lh_n := n\<rparr>)" "kept (s\<lparr>lh_block := f\<rparr>) (t\<lparr>lh_block := f\<rparr>)"
    "kept (s\<lparr>log_outstanding := k\<rparr>) (t\<lparr>log_outstanding := k\<rparr>)" "kept (s\<lparr>log_committing := c\<rparr>) (t\<lparr>log_committing := c\<rparr>)"
proof -
  obtain B nx pv d w where t: "t = s\<lparr>bufs := B, bnext := nx, bprev := pv, disk := d, wtrace := w\<rparr>"
    using assms by (auto simp: kept_def)
  note k = keptI[where B = B and nx = nx and pv = pv and d = d and w = w]
  show "kept (s\<lparr>lh_n := n\<rparr>) (t\<lparr>lh_n := n\<rparr>)" "kept (s\<lparr>lh_block := f\<rparr>) (t\<lparr>lh_block := f\<rparr>)"
    "kept (s\<lparr>log_outstanding := k\<rparr>) (t\<lparr>log_outstanding := k\<rparr>)" "kept (s\<lparr>log_committing := c\<rparr>) (t\<lparr>log_committing := c\<rparr>)"
    by (rule k; simp add: t)+
qed

lemma kept_rep: "kept s t \<Longrightarrow> log_rep t S bs = log_rep s S bs"
  using kept_logd[of s t] by (simp add: log_rep_def)

definition wr_all :: "(nat \<times> memory) list \<Rightarrow> (nat \<Rightarrow> memory) \<Rightarrow> nat \<Rightarrow> memory" where
  "wr_all ws D = fold (\<lambda>(n, d) D. D(n := d)) ws D"

lemma wr_all_simps [simp]: "wr_all [] D = D" "wr_all ((n, d) # ws) D = wr_all ws (D(n := d))"
  by (simp_all add: wr_all_def)

lemma wr_all_append: "wr_all (xs @ ys) D = wr_all ys (wr_all xs D)"
  by (simp add: wr_all_def)

lemma wr_all_other: "n \<notin> fst ` set ws \<Longrightarrow> wr_all ws D n = D n"
  by (induction ws arbitrary: D) auto

lemma wr_all_at: "distinct (map fst ws) \<Longrightarrow> (n, d) \<in> set ws \<Longrightarrow> wr_all ws D n = d"
proof (induction ws arbitrary: D)
  case (Cons w ws)
  obtain m e where w: "w = (m, e)" by (cases w)
  show ?case
  proof (cases "(n, d) = (m, e)")
    case True
    then show ?thesis using Cons.prems w wr_all_other[of m ws "D(m := e)"] by simp
  next
    case False
    then show ?thesis using Cons w by auto
  qed
qed simp

section \<open>What the parts of a transaction do\<close>

lemma lh_at_run: "log_rep s S bs \<Longrightarrow> i < length bs \<Longrightarrow> lh_at i s = Inr (bs ! i, s)"
  by (simp add: log_rep_def lh_at_def run_simps)

lemma log_block_law:
  assumes r: "crep s Map.empty L D T P" and l: "log_rep s S bs" and i: "i < length bs" and ne: "bs ! i \<noteq> S + 1 + i"
    and c: "card ({m. P m \<noteq> 0} \<union> {bs ! i}) < NBUF"
  shows "\<exists>s'. log_block i s = Inr ((), s') \<and> kept s s' \<and>
    crep s' Map.empty (L(S + 1 + i := L (bs ! i))) (D(S + 1 + i := L (bs ! i))) (T @ [(S + 1 + i, L (bs ! i))]) P"
proof -
  have "card ({m. P m \<noteq> 0} \<union> {S + 1 + i, bs ! i}) \<le> NBUF"
    using c card_insert_le_m1[of NBUF "{m. P m \<noteq> 0} \<union> {bs ! i}" "S + 1 + i"] by (simp add: NBUF_def insert_commute)
  with bc.copy_into[OF r, of "S + 1 + i" "bs ! i"] ne obtain s' where
    "bnd (bread ROOTDEV (S + 1 + i)) (\<lambda>a. bnd (bread ROOTDEV (bs ! i)) (\<lambda>b. bnd (gets (\<lambda>s. bdata (bufs s b))) (\<lambda>d.
       sq (set_data a d) (sq (bwrite a) (sq (brelse b) (brelse a)))))) s = Inr ((), s')" "kept s s'"
    "crep s' Map.empty (L(S + 1 + i := L (bs ! i))) (D(S + 1 + i := L (bs ! i))) (T @ [(S + 1 + i, L (bs ! i))]) P"
    by auto
  moreover have "log_dev s = ROOTDEV" "log_start s = S" using l by (simp_all add: log_rep_def)
  ultimately show ?thesis by (simp add: log_block_def run_simps lh_at_run[OF l i] buf_data_def)
qed

lemma install_block_law:
  assumes r: "crep s Map.empty L D T P" and l: "log_rep s S bs" and i: "i < length bs" and ne: "bs ! i \<noteq> S + 1 + i"
    and c: "card ({m. P m \<noteq> 0} \<union> {bs ! i}) < NBUF" and u: "\<not> rec \<Longrightarrow> 1 \<le> P (bs ! i)"
  shows "\<exists>s'. install_block rec i s = Inr ((), s') \<and> kept s s' \<and>
    crep s' Map.empty (L(bs ! i := L (S + 1 + i))) (D(bs ! i := L (S + 1 + i))) (T @ [(bs ! i, L (S + 1 + i))])
      (if \<not> rec then P(bs ! i := P (bs ! i) - 1) else P)"
proof -
  have "card ({m. P m \<noteq> 0} \<union> {S + 1 + i, bs ! i}) \<le> NBUF"
    using c card_insert_le_m1[of NBUF "{m. P m \<noteq> 0} \<union> {bs ! i}" "S + 1 + i"] by (simp add: NBUF_def insert_commute)
  with bc.copy_from[OF r, of "S + 1 + i" "bs ! i" "\<not> rec"] ne u obtain s' where
    "bnd (bread ROOTDEV (S + 1 + i)) (\<lambda>a. bnd (bread ROOTDEV (bs ! i)) (\<lambda>b. bnd (gets (\<lambda>s. bdata (bufs s a))) (\<lambda>d.
       sq (set_data b d) (sq (bwrite b) (sq (if \<not> rec then bunpin b else ret ()) (sq (brelse a) (brelse b))))))) s = Inr ((), s')" "kept s s'"
    "crep s' Map.empty (L(bs ! i := L (S + 1 + i))) (D(bs ! i := L (S + 1 + i))) (T @ [(bs ! i, L (S + 1 + i))])
      (if \<not> rec then P(bs ! i := P (bs ! i) - 1) else P)"
    by auto
  moreover have "log_dev s = ROOTDEV" "log_start s = S" using l by (simp_all add: log_rep_def)
  ultimately show ?thesis by (simp add: install_block_def run_simps lh_at_run[OF l i] buf_data_def)
qed

definition log_copies :: "nat \<Rightarrow> nat list \<Rightarrow> (nat \<Rightarrow> memory) \<Rightarrow> nat \<Rightarrow> nat \<Rightarrow> (nat \<times> memory) list" where
  "log_copies S bs L i k = map (\<lambda>j. (S + 1 + j, L (bs ! j))) [i..<i + k]"

definition home_copies :: "nat \<Rightarrow> nat list \<Rightarrow> (nat \<Rightarrow> memory) \<Rightarrow> nat \<Rightarrow> nat \<Rightarrow> (nat \<times> memory) list" where
  "home_copies S bs L i k = map (\<lambda>j. (bs ! j, L (S + 1 + j))) [i..<i + k]"

definition unpins :: "nat list \<Rightarrow> (nat \<Rightarrow> int) \<Rightarrow> nat \<Rightarrow> int" where
  "unpins bs P n = (if n \<in> set bs then P n - 1 else P n)"

text \<open>The blocks of the transaction lie outside the log, which has a header and room for them.\<close>

definition apart :: "nat \<Rightarrow> nat list \<Rightarrow> bool" where
  "apart S bs \<longleftrightarrow> distinct bs \<and> (\<forall>b \<in> set bs. b < S \<or> S + length bs < b)"

lemma apart_nth: "apart S bs \<Longrightarrow> i < length bs \<Longrightarrow> j \<le> length bs \<Longrightarrow> bs ! i \<noteq> S + j"
  using nth_mem[of i bs] by (fastforce simp: apart_def)

lemma write_log_loop_law:
  assumes "crep s Map.empty L D T P" "log_rep s S bs" "i + k = length bs" "apart S bs"
    and c: "\<forall>b \<in> set bs. card ({m. P m \<noteq> 0} \<union> {b}) < NBUF"
  shows "\<exists>s'. write_log_loop k i s = Inr ((), s') \<and> kept s s' \<and>
    crep s' Map.empty (wr_all (log_copies S bs L i k) L) (wr_all (log_copies S bs L i k) D) (T @ log_copies S bs L i k) P"
  using assms(1-3)
proof (induction k arbitrary: s L D T i)
  case 0
  then show ?case by (simp add: run_simps log_copies_def kept_refl)
next
  case (Suc k)
  have i: "i < length bs" using Suc.prems(3) by simp
  obtain t where t: "log_block i s = Inr ((), t)" "kept s t"
    "crep t Map.empty (L(S + 1 + i := L (bs ! i))) (D(S + 1 + i := L (bs ! i))) (T @ [(S + 1 + i, L (bs ! i))]) P"
    using log_block_law[OF Suc.prems(1,2) i] apart_nth[OF assms(4) i, of "1 + i"] c i by auto
  let ?L = "L(S + 1 + i := L (bs ! i))"
  have e: "log_copies S bs ?L (i + 1) k = log_copies S bs L (i + 1) k"
    unfolding log_copies_def
  proof (rule map_cong[OF refl])
    fix j assume "j \<in> set [i + 1..<i + 1 + k]"
    then have "bs ! j \<noteq> S + (1 + i)" by (intro apart_nth[OF assms(4)]) (use Suc.prems(3) in auto)
    then show "(S + 1 + j, ?L (bs ! j)) = (S + 1 + j, L (bs ! j))" by simp
  qed
  have f: "log_copies S bs L i (Suc k) = (S + 1 + i, L (bs ! i)) # log_copies S bs L (i + 1) k"
    by (simp add: log_copies_def upt_conv_Cons del: upt_Suc)
  have lr: "log_rep t S bs" using Suc.prems(2) kept_rep[OF t(2)] by simp
  have ik: "i + 1 + k = length bs" using Suc.prems(3) by simp
  from Suc.IH[OF t(3) lr ik, unfolded e] obtain s' where "write_log_loop k (i + 1) t = Inr ((), s')" "kept t s'"
    "crep s' Map.empty (wr_all (log_copies S bs L (i + 1) k) ?L) (wr_all (log_copies S bs L (i + 1) k) (D(S + 1 + i := L (bs ! i))))
      ((T @ [(S + 1 + i, L (bs ! i))]) @ log_copies S bs L (i + 1) k) P" by blast
  then show ?case using t(1) kept_trans[OF t(2)] by (auto simp: f run_simps)
qed

lemma install_loop_law:
  assumes "crep s Map.empty L D T P" "log_rep s S bs" "i + k = length bs" "apart S bs"
    and "\<forall>b \<in> set bs. card ({m. P m \<noteq> 0} \<union> {b}) < NBUF" "\<not> rec \<Longrightarrow> \<forall>b \<in> set (drop i bs). 1 \<le> P b"
  shows "\<exists>s'. install_loop rec k i s = Inr ((), s') \<and> kept s s' \<and>
    crep s' Map.empty (wr_all (home_copies S bs L i k) L) (wr_all (home_copies S bs L i k) D) (T @ home_copies S bs L i k)
      (if rec then P else unpins (drop i bs) P)"
  using assms(1-3,5,6)
proof (induction k arbitrary: s L D T i P)
  case 0
  then have "unpins (drop i bs) P = P" by (simp add: unpins_def fun_eq_iff)
  then show ?case using 0 by (simp add: run_simps home_copies_def kept_refl)
next
  case (Suc k)
  have i: "i < length bs" using Suc.prems(3) by simp
  have dr: "drop i bs = bs ! i # drop (i + 1) bs" using i by (simp add: Cons_nth_drop_Suc)
  let ?L = "L(bs ! i := L (S + 1 + i))" and ?D = "D(bs ! i := L (S + 1 + i))" and ?T = "T @ [(bs ! i, L (S + 1 + i))]"
  define Q where "Q = (if \<not> rec then P(bs ! i := P (bs ! i) - 1) else P)"
  have p: "1 \<le> P (bs ! i)" if "\<not> rec" using Suc.prems(5)[OF that] dr by simp
  obtain t where t: "install_block rec i s = Inr ((), t)" "kept s t" "crep t Map.empty ?L ?D ?T Q"
    using install_block_law[OF Suc.prems(1,2) i, of rec] apart_nth[OF assms(4) i, of "1 + i"] Suc.prems(4) i p unfolding Q_def by auto
  have ni: "bs ! i \<notin> set (drop (i + 1) bs)" using assms(4) dr distinct_drop[of bs i] by (simp add: apart_def)
  have e: "home_copies S bs ?L (i + 1) k = home_copies S bs L (i + 1) k"
    unfolding home_copies_def
  proof (rule map_cong[OF refl])
    fix j assume "j \<in> set [i + 1..<i + 1 + k]"
    then have "bs ! i \<noteq> S + (1 + j)" by (intro apart_nth[OF assms(4) i]) (use Suc.prems(3) in auto)
    then show "(bs ! j, ?L (S + 1 + j)) = (bs ! j, L (S + 1 + j))" by simp
  qed
  have f: "home_copies S bs L i (Suc k) = (bs ! i, L (S + 1 + i)) # home_copies S bs L (i + 1) k"
    by (simp add: home_copies_def upt_conv_Cons del: upt_Suc)
  have un: "unpins (drop (i + 1) bs) Q = unpins (drop i bs) P" if "\<not> rec"
    using that ni dr by (auto simp: unpins_def Q_def fun_eq_iff)
  have sub: "{m. Q m \<noteq> 0} \<subseteq> {m. P m \<noteq> 0}" using p by (auto simp: Q_def split: if_splits)
  have c: "\<forall>b \<in> set bs. card ({m. Q m \<noteq> 0} \<union> {b}) < NBUF"
  proof
    fix b assume "b \<in> set bs"
    then have "card ({m. P m \<noteq> 0} \<union> {b}) < NBUF" using Suc.prems(4) by blast
    moreover have "card ({m. Q m \<noteq> 0} \<union> {b}) \<le> card ({m. P m \<noteq> 0} \<union> {b})"
      by (rule card_mono) (use finite_law[OF Suc.prems(1)] sub in auto)
    ultimately show "card ({m. Q m \<noteq> 0} \<union> {b}) < NBUF" by simp
  qed
  have q: "\<forall>b \<in> set (drop (i + 1) bs). 1 \<le> Q b" if "\<not> rec" using Suc.prems(5)[OF that] that ni dr by (auto simp: Q_def)
  have lr: "log_rep t S bs" using Suc.prems(2) kept_rep[OF t(2)] by simp
  have ik: "i + 1 + k = length bs" using Suc.prems(3) by simp
  from Suc.IH[OF t(3) lr ik c q, unfolded e] obtain s' where "install_loop rec k (i + 1) t = Inr ((), s')" "kept t s'"
    "crep s' Map.empty (wr_all (home_copies S bs L (i + 1) k) ?L) (wr_all (home_copies S bs L (i + 1) k) ?D)
      (?T @ home_copies S bs L (i + 1) k) (if rec then Q else unpins (drop (i + 1) bs) Q)" by blast
  then show ?case using t(1) kept_trans[OF t(2)] un by (auto simp: f run_simps Q_def)
qed

text \<open>The cache does not see the fields of the log.\<close>

lemma crep_cong:
  assumes "bufs t = bufs s" "bnext t = bnext s" "bprev t = bprev s" "disk t = disk s" "wtrace t = wtrace s" "mypid t = mypid s"
  shows "crep t = crep s"
proof -
  have c: "cached t = cached s" by (simp add: fun_eq_iff cached_def assms)
  have "blk t = blk s" "pin t = pin s" by (simp_all add: fun_eq_iff blk_def pin_def c assms split: option.split)
  then show ?thesis by (simp add: crep_def bcache_inv_def assms fun_eq_iff)
qed

lemma crep_lh [simp]:
  "crep (s\<lparr>lh_n := n\<rparr>) H L D T P = crep s H L D T P" "crep (s\<lparr>lh_block := f\<rparr>) H L D T P = crep s H L D T P"
  "crep (s\<lparr>log_outstanding := k\<rparr>) H L D T P = crep s H L D T P" "crep (s\<lparr>log_committing := c\<rparr>) H L D T P = crep s H L D T P"
  by (subst crep_cong[of _ s]; simp)+

lemma read_blocks_run:
  "i + k \<le> LOGSIZE \<Longrightarrow> read_blocks d k i s = Inr ((), s\<lparr>lh_block := (\<lambda>j. if i \<le> j \<and> j < i + k then head_block d j else lh_block s j)\<rparr>)"
proof (induction k arbitrary: i s)
  case (Suc k)
  have e: "(\<lambda>j. if i + 1 \<le> j \<and> j < i + 1 + k then head_block d j else ((lh_block s)(i := head_block d i)) j) =
    (\<lambda>j. if i \<le> j \<and> j < i + Suc k then head_block d j else lh_block s j)" by (auto simp: fun_eq_iff)
  let ?t = "s\<lparr>lh_block := (lh_block s)(i := head_block d i)\<rparr>"
  have "read_blocks d (Suc k) i s = read_blocks d k (i + 1) ?t" using Suc.prems by (simp add: set_lh_at_def run_simps)
  also have "\<dots> = Inr ((), ?t\<lparr>lh_block := (\<lambda>j. if i + 1 \<le> j \<and> j < i + 1 + k then head_block d j else lh_block ?t j)\<rparr>)"
    by (rule Suc.IH) (use Suc.prems in simp)
  finally show ?case using e by (simp cong: if_cong)
next
  case 0
  have "(\<lambda>j. if i \<le> j \<and> j < i + 0 then head_block d j else lh_block s j) = lh_block s" by (auto simp: fun_eq_iff)
  then show ?case by (simp add: run_simps)
qed

definition head_list :: "memory \<Rightarrow> nat list" where
  "head_list d = map (head_block d) [0..<nat (head_n d)]"

lemma read_head_law:
  assumes r: "crep s Map.empty L D T P" and l: "log_start s = S" "log_dev s = ROOTDEV" and h: "head_n (L S) \<le> int LOGSIZE" "0 \<le> head_n (L S)"
    and c: "card {m. P m \<noteq> 0} < NBUF"
  shows "\<exists>s' f. read_head s = Inr ((), s') \<and> kept (s\<lparr>lh_n := head_n (L S), lh_block := f\<rparr>) s' \<and> crep s' Map.empty L D T P \<and> log_rep s' S (head_list (L S))"
proof -
  obtain b s1 where 1: "bread ROOTDEV S s = Inr (b, s1)" "crep s1 [b \<mapsto> S] L D T (P(S := P S + 1))" "kept s s1"
    using bread_law[OF r, of S] c by auto
  have d: "bdata (bufs s1 b) = L S" using held_data[OF 1(2), of b S] by simp
  define f where "f = (\<lambda>j. if j < nat (head_n (L S)) then head_block (L S) j else lh_block s1 j)"
  define t where "t = s1\<lparr>lh_n := head_n (L S), lh_block := f\<rparr>"
  have "crep t [b \<mapsto> S] L D T (P(S := P S + 1))" using 1(2) by (simp add: t_def)
  from brelse_law[OF this, of b S] obtain s2 where 2: "brelse b t = Inr ((), s2)" "crep s2 Map.empty L D T P" "kept t s2"
    using clean_law[OF r, of S] by (auto simp: fun_upd_idem)
  have rb: "read_blocks (L S) (nat (head_n (L S))) 0 (s1\<lparr>lh_n := head_n (L S)\<rparr>) = Inr ((), t)"
    using h by (subst read_blocks_run) (simp_all add: t_def f_def cong: if_cong)
  have "read_head s = Inr ((), s2)"
    by (simp add: read_head_def run_simps l 1(1) buf_data_def d rb 2(1))
  moreover have "kept (s\<lparr>lh_n := head_n (L S), lh_block := f\<rparr>) t" unfolding t_def by (rule kept_upd(2)[OF kept_upd(1)[OF 1(3)]])
  moreover have "log_rep t S (head_list (L S))"
    using kept_logd[OF 1(3)] l h by (simp add: log_rep_def head_list_def t_def f_def)
  ultimately show ?thesis using 2(2,3) kept_trans kept_rep[OF 2(3)] by blast
qed

lemma put_head_cong: "(\<And>i. i < nat n \<Longrightarrow> f i = g i) \<Longrightarrow> put_head n f d = put_head n g d"
proof -
  assume "\<And>i. i < nat n \<Longrightarrow> f i = g i"
  then have "put_blocks f k e = put_blocks g k e" if "k \<le> nat n" for k e using that by (induction k) auto
  then show ?thesis by (simp add: put_head_def)
qed

lemma write_head_law:
  assumes r: "crep s Map.empty L D T P" and l: "log_rep s S bs" and c: "card {m. P m \<noteq> 0} < NBUF"
  defines "h \<equiv> put_head (int (length bs)) ((!) bs) (L S)"
  shows "\<exists>s'. write_head s = Inr ((), s') \<and> kept s s' \<and> crep s' Map.empty (L(S := h)) (D(S := h)) (T @ [(S, h)]) P"
proof -
  obtain s' where "bnd (bread ROOTDEV S) (\<lambda>b. bnd (gets (\<lambda>s. bdata (bufs s b))) (\<lambda>d. sq (set_data b (put_head (int (length bs)) (lh_block s) d)) (sq (bwrite b) (brelse b)))) s = Inr ((), s')"
    "kept s s'" "crep s' Map.empty (L(S := put_head (int (length bs)) (lh_block s) (L S))) (D(S := put_head (int (length bs)) (lh_block s) (L S)))
      (T @ [(S, put_head (int (length bs)) (lh_block s) (L S))]) P"
    using bc.rewrite[OF r, of S "put_head (int (length bs)) (lh_block s)"] c by auto
  moreover have "put_head (int (length bs)) (lh_block s) d = put_head (int (length bs)) ((!) bs) d" for d
    by (rule put_head_cong) (use l in \<open>simp add: log_rep_def\<close>)
  ultimately show ?thesis using l by (simp add: write_head_def run_simps log_rep_def buf_data_def h_def)
qed

section \<open>Commit and recovery\<close>

text \<open>The writes of a commit, in their order.\<close>

definition commit_writes :: "nat \<Rightarrow> nat list \<Rightarrow> (nat \<Rightarrow> memory) \<Rightarrow> (nat \<times> memory) list" where
  "commit_writes S bs L = (if bs = [] then [] else
     let h = put_head (int (length bs)) ((!) bs) (L S) in
     map (\<lambda>j. (S + 1 + j, L (bs ! j))) [0..<length bs] @ [(S, h)] @ map (\<lambda>j. (bs ! j, L (bs ! j))) [0..<length bs] @ [(S, put_head 0 ((!) []) h)])"

lemma log_copies_at:
  "j < k \<Longrightarrow> wr_all (log_copies S bs L 0 k) D (S + 1 + j) = L (bs ! j)"
  "n \<le> S \<or> S + k < n \<Longrightarrow> wr_all (log_copies S bs L 0 k) D n = D n"
proof -
  show "wr_all (log_copies S bs L 0 k) D (S + 1 + j) = L (bs ! j)" if "j < k"
    by (rule wr_all_at) (use that in \<open>auto simp: log_copies_def distinct_map inj_on_def\<close>)
  show "wr_all (log_copies S bs L 0 k) D n = D n" if "n \<le> S \<or> S + k < n"
    by (rule wr_all_other) (use that in \<open>auto simp: log_copies_def\<close>)
qed

lemma commit_law:
  assumes r: "crep s Map.empty L D T P" and l: "log_rep s S bs" and a: "apart S bs" and p: "\<forall>b \<in> set bs. 1 \<le> P b"
    and c: "card {m. P m \<noteq> 0} < NBUF"
  defines "W \<equiv> commit_writes S bs L"
  shows "\<exists>s'. commit s = Inr ((), s') \<and> kept (s\<lparr>lh_n := 0\<rparr>) s' \<and> crep s' Map.empty (wr_all W L) (wr_all W D) (T @ W) (unpins bs P)"
proof (cases "bs = []")
  case True
  have "unpins bs P = P" by (simp add: True unpins_def fun_eq_iff)
  moreover have e: "s\<lparr>lh_n := 0\<rparr> = s" using l True by (simp add: log_rep_def)
  have "kept (s\<lparr>lh_n := 0\<rparr>) s" unfolding e by (rule kept_refl)
  ultimately show ?thesis using r l True by (simp add: commit_def run_simps log_rep_def W_def commit_writes_def)
next
  case ne: False
  let ?n = "length bs"
  define W1 where "W1 = log_copies S bs L 0 ?n"
  define L1 where "L1 = wr_all W1 L"
  define h where "h = put_head (int ?n) ((!) bs) (L S)"
  define W2 where "W2 = home_copies S bs (L1(S := h)) 0 ?n"
  have cb: "\<forall>b \<in> set bs. card ({m. P m \<noteq> 0} \<union> {b}) < NBUF" using p c by (auto simp: insert_absorb)
  obtain s1 where 1: "write_log_loop ?n 0 s = Inr ((), s1)" "kept s s1" "crep s1 Map.empty L1 (wr_all W1 D) (T @ W1) P"
    using write_log_loop_law[OF r l _ a cb, of 0 ?n] unfolding W1_def L1_def by auto
  have L1S: "L1 S = L S" by (simp add: L1_def W1_def log_copies_at)
  have l1: "log_rep s1 S bs" using l kept_rep[OF 1(2)] by simp
  obtain s2 where 2: "write_head s1 = Inr ((), s2)" "kept s1 s2" "crep s2 Map.empty (L1(S := h)) ((wr_all W1 D)(S := h)) ((T @ W1) @ [(S, h)]) P"
    using write_head_law[OF 1(3) l1 c] unfolding L1S h_def by auto
  have l2: "log_rep s2 S bs" using l1 kept_rep[OF 2(2)] by simp
  obtain s3 where 3: "install_loop False ?n 0 s2 = Inr ((), s3)" "kept s2 s3"
    "crep s3 Map.empty (wr_all W2 (L1(S := h))) (wr_all W2 ((wr_all W1 D)(S := h))) (((T @ W1) @ [(S, h)]) @ W2) (unpins bs P)"
    using install_loop_law[OF 2(3) l2 _ a cb, of 0 ?n False] p unfolding W2_def by auto
  have W2: "W2 = map (\<lambda>j. (bs ! j, L (bs ! j))) [0..<?n]"
    unfolding W2_def home_copies_def
    by (rule map_cong) (use log_copies_at(1)[where S = S and bs = bs and L = L and D = L and k = ?n] in \<open>auto simp: L1_def W1_def\<close>)
  have L3S: "wr_all W2 (L1(S := h)) S = h"
    by (subst wr_all_other) (use apart_nth[OF a, where j = 0] in \<open>fastforce simp: W2\<close>)+
  let ?s = "s3\<lparr>lh_n := 0\<rparr>"
  have l3: "log_rep ?s S []" using l2 kept_logd[OF 3(2)] by (simp add: log_rep_def)
  have r3: "crep ?s Map.empty (wr_all W2 (L1(S := h))) (wr_all W2 ((wr_all W1 D)(S := h))) (((T @ W1) @ [(S, h)]) @ W2) (unpins bs P)" using 3(3) by simp
  have sub: "{m. unpins bs P m \<noteq> 0} \<subseteq> {m. P m \<noteq> 0}" using p by (auto simp: unpins_def split: if_splits)
  have c3: "card {m. unpins bs P m \<noteq> 0} < NBUF" using card_mono[OF finite_law[OF r] sub] c by simp
  let ?h0 = "put_head 0 ((!) []) h"
  obtain s4 where 4: "write_head ?s = Inr ((), s4)" "kept ?s s4"
    "crep s4 Map.empty ((wr_all W2 (L1(S := h)))(S := ?h0)) ((wr_all W2 ((wr_all W1 D)(S := h)))(S := ?h0)) ((((T @ W1) @ [(S, h)]) @ W2) @ [(S, ?h0)]) (unpins bs P)"
    using write_head_law[OF r3 l3 c3] unfolding L3S by auto
  have W: "W = W1 @ [(S, h)] @ W2 @ [(S, ?h0)]"
    using ne unfolding W_def commit_writes_def Let_def h_def[symmetric] W2[symmetric] by (simp add: W1_def log_copies_def)
  have lhn: "lh_n s = int ?n" "lh_n s1 = int ?n" "lh_n s2 = int ?n" using l l1 l2 by (simp_all add: log_rep_def)
  have run: "commit s = Inr ((), s4)"
    using ne by (simp add: commit_def run_simps lhn write_log_def install_trans_def 1(1) 2(1) 3(1) set_lh_n_def 4(1))
  have "kept (s\<lparr>lh_n := 0\<rparr>) s4"
    using kept_trans[OF kept_upd(1)[OF kept_trans[OF kept_trans[OF 1(2) 2(2)] 3(2)]] 4(2)] .
  then show ?thesis using run 4(3) by (auto simp: W wr_all_append L1_def)
qed

section \<open>Crashes\<close>

text \<open>
  \<open>settles S Z D X\<close>: the header on the disk \<open>D\<close>, whose log has \<open>Z\<close> blocks from \<open>S\<close> on, is one that recovery can
  work with, and outside the log recovery leaves the contents \<open>X\<close>.
\<close>

definition outside :: "nat \<Rightarrow> nat \<Rightarrow> nat \<Rightarrow> bool" where
  "outside S Z b \<longleftrightarrow> b < S \<or> S + Z \<le> b"

definition settles :: "nat \<Rightarrow> nat \<Rightarrow> (nat \<Rightarrow> memory) \<Rightarrow> (nat \<Rightarrow> memory) \<Rightarrow> bool" where
  "settles S Z D X \<longleftrightarrow> 0 \<le> head_n (D S) \<and> head_n (D S) \<le> int LOGSIZE \<and> head_n (D S) < int Z \<and>
     distinct (head_list (D S)) \<and> (\<forall>b \<in> set (head_list (D S)). outside S Z b) \<and>
     (\<forall>b. outside S Z b \<longrightarrow> X b = wr_all (home_copies S (head_list (D S)) D 0 (length (head_list (D S)))) D b)"

lemma outside_apart: "distinct bs \<Longrightarrow> \<forall>b \<in> set bs. outside S Z b \<Longrightarrow> length bs < Z \<Longrightarrow> apart S bs"
  by (fastforce simp: apart_def outside_def)

lemma settles_empty:
  assumes "head_n (D S) = 0" "0 < Z"
  shows "settles S Z D X \<longleftrightarrow> (\<forall>b. outside S Z b \<longrightarrow> X b = D b)"
  using assms by (simp add: settles_def head_list_def home_copies_def)

lemma home_copies_cong: "(\<And>j. j < length bs \<Longrightarrow> D (S + 1 + j) = E (S + 1 + j)) \<Longrightarrow> home_copies S bs D 0 (length bs) = home_copies S bs E 0 (length bs)"
  by (simp add: home_copies_def)

lemma home_copies_map: "map fst (home_copies S bs D 0 (length bs)) = bs"
  by (simp add: home_copies_def comp_def map_nth)

lemma home_copies_at:
  assumes "distinct bs" "i < length bs"
  shows "wr_all (home_copies S bs D 0 (length bs)) E (bs ! i) = D (S + 1 + i)"
proof (rule wr_all_at)
  show "distinct (map fst (home_copies S bs D 0 (length bs)))" using assms(1) by (simp only: home_copies_map)
qed (use assms(2) in \<open>auto simp: home_copies_def\<close>)

lemma home_copies_fst: "fst ` set (home_copies S bs D 0 (length bs)) = set bs"
  using home_copies_map[of S bs D] by (metis set_map)

text \<open>Installing some of the blocks again does not change what the disk settles to.\<close>

lemma settles_install:
  assumes st: "settles S Z D X" and ws: "set ws \<subseteq> set (home_copies S (head_list (D S)) D 0 (length (head_list (D S))))"
  shows "settles S Z (wr_all ws D) X" "wr_all ws D S = D S"
proof -
  let ?bs = "head_list (D S)"
  have st': "distinct ?bs" "\<forall>b \<in> set ?bs. outside S Z b" "length ?bs < Z" "\<And>b. outside S Z b \<Longrightarrow> X b = wr_all (home_copies S ?bs D 0 (length ?bs)) D b"
    using st by (auto simp: settles_def head_list_def)
  have f: "fst ` set ws \<subseteq> set ?bs" using image_mono[OF ws, of fst] home_copies_fst by metis
  have log: "wr_all ws D n = D n" if "\<not> outside S Z n" for n
    by (rule wr_all_other) (use f st'(2) that in blast)
  show hd: "wr_all ws D S = D S" by (rule log) (use st'(3) in \<open>simp add: outside_def\<close>)
  have hc: "home_copies S ?bs (wr_all ws D) 0 (length ?bs) = home_copies S ?bs D 0 (length ?bs)"
    by (rule home_copies_cong, rule log) (use st'(3) in \<open>simp add: outside_def\<close>)
  have "X b = wr_all (home_copies S ?bs D 0 (length ?bs)) (wr_all ws D) b" if o: "outside S Z b" for b
  proof (cases "b \<in> set ?bs")
    case True
    then obtain i where "i < length ?bs" "b = ?bs ! i" by (auto simp: in_set_conv_nth)
    then show ?thesis using st'(4)[OF o] home_copies_at[OF st'(1)] by metis
  next
    case False
    then have "wr_all ws D b = D b" using f by (intro wr_all_other) auto
    then show ?thesis using st'(4)[OF o] wr_all_other False home_copies_fst by metis
  qed
  then show "settles S Z (wr_all ws D) X" using st unfolding settles_def hd hc by blast
qed

text \<open>Recovery gives what the disk settles to, and so does a recovery that is cut short and started again.\<close>

lemma recover_law:
  assumes r: "crep s Map.empty D D T (\<lambda>_. 0)" and l: "log_start s = S" "log_dev s = ROOTDEV" and st: "settles S Z D X"
  shows "\<exists>s' W. recover_from_log s = Inr ((), s') \<and> crep s' Map.empty (wr_all W D) (wr_all W D) (T @ W) (\<lambda>_. 0) \<and>
    (\<forall>b. outside S Z b \<longrightarrow> wr_all W D b = X b) \<and> head_n (wr_all W D S) = 0 \<and> (\<exists>f. kept (s\<lparr>lh_block := f, lh_n := 0\<rparr>) s') \<and> (\<forall>k. settles S Z (wr_all (take k W) D) X)"
proof -
  define bs where "bs = head_list (D S)"
  define W1 where "W1 = home_copies S bs D 0 (length bs)"
  have st': "distinct bs" "\<forall>b \<in> set bs. outside S Z b" "length bs < Z" "\<And>b. outside S Z b \<Longrightarrow> X b = wr_all W1 D b"
    "0 \<le> head_n (D S)" "head_n (D S) \<le> int LOGSIZE"
    using st by (auto simp: settles_def head_list_def bs_def W1_def)
  note a = outside_apart[OF st'(1-3)]
  obtain s1 f where 1: "read_head s = Inr ((), s1)" "kept (s\<lparr>lh_n := head_n (D S), lh_block := f\<rparr>) s1"
    "crep s1 Map.empty D D T (\<lambda>_. 0)" "log_rep s1 S bs"
    using read_head_law[OF r l] st'(5,6) unfolding bs_def by (auto simp: NBUF_def)
  obtain s2 where 2: "install_loop True (length bs) 0 s1 = Inr ((), s2)" "kept s1 s2" "crep s2 Map.empty (wr_all W1 D) (wr_all W1 D) (T @ W1) (\<lambda>_. 0)"
    using install_loop_law[OF 1(3,4) _ a, of 0 "length bs" True] unfolding W1_def by (auto simp: NBUF_def)
  have S: "wr_all W1 D S = D S" using settles_install(2)[OF st, of W1] by (simp add: W1_def bs_def)
  let ?h0 = "put_head 0 ((!) []) (D S)" and ?s = "s2\<lparr>lh_n := 0\<rparr>"
  have l2: "log_rep ?s S []" using 1(4) kept_logd[OF 2(2)] by (simp add: log_rep_def)
  have r2: "crep ?s Map.empty (wr_all W1 D) (wr_all W1 D) (T @ W1) (\<lambda>_. 0)" using 2(3) by simp
  obtain s3 where 3: "write_head ?s = Inr ((), s3)" "kept ?s s3"
    "crep s3 Map.empty ((wr_all W1 D)(S := ?h0)) ((wr_all W1 D)(S := ?h0)) ((T @ W1) @ [(S, ?h0)]) (\<lambda>_. 0)"
    using write_head_law[OF r2 l2] unfolding S by (auto simp: NBUF_def)
  let ?W = "W1 @ [(S, ?h0)]"
  have h0: "head_n ?h0 = 0" using head_put(1)[of 0] by simp
  have run: "recover_from_log s = Inr ((), s3)"
    using 1(4) by (simp add: recover_from_log_def run_simps 1(1) install_trans_def log_rep_def 2(1) set_lh_n_def 3(1))
  have no: "\<not> outside S Z S" using st'(3) by (simp add: outside_def)
  have fin: "settles S Z (wr_all ?W D) X"
    using settles_empty[of "wr_all ?W D" S Z X] h0 st'(3,4) no by (auto simp: wr_all_append)
  have pre: "settles S Z (wr_all (take k ?W) D) X" for k
  proof (cases "k \<le> length W1")
    case True
    then show ?thesis using settles_install(1)[OF st, of "take k W1"] set_take_subset[of k W1] by (simp add: W1_def bs_def)
  next
    case False
    then show ?thesis using fin by simp
  qed
  have o: "wr_all ?W D b = X b" if "outside S Z b" for b using st'(4)[OF that] that no by (auto simp: wr_all_append)
  have "crep s3 Map.empty (wr_all ?W D) (wr_all ?W D) (T @ ?W) (\<lambda>_. 0)" using 3(3) by (simp add: wr_all_append)
  moreover have "kept (s\<lparr>lh_block := f, lh_n := 0\<rparr>) s3"
    using kept_trans[OF kept_upd(1)[OF kept_trans[OF 1(2) 2(2)], of 0] 3(2)] by simp
  moreover have "head_n (wr_all ?W D S) = 0" using h0 by (simp add: wr_all_append)
  ultimately show ?thesis using run pre o by blast
qed

lemma commit_prefix:
  assumes a: "distinct bs" "\<forall>b \<in> set bs. outside S Z b \<and> b < 2 ^ 32" "length bs < Z" "length bs \<le> LOGSIZE"
    and h: "head_n (D S) = 0" and LD: "\<And>b. outside S Z b \<Longrightarrow> b \<notin> set bs \<Longrightarrow> L b = D b"
  shows "settles S Z (wr_all (take k (commit_writes S bs L)) D) (if k \<le> length bs then D else L)"
proof (cases "bs = []")
  case True
  then have "settles S Z (wr_all (take k (commit_writes S bs L)) D) X = (\<forall>b. outside S Z b \<longrightarrow> X b = D b)" for X
    using settles_empty[where D = D and S = S, OF h] a(3) by (simp add: commit_writes_def)
  then show ?thesis using LD True by simp
next
  case ne: False
  let ?n = "length bs"
  define W1 where "W1 = log_copies S bs L 0 ?n"
  define hd1 where "hd1 = put_head (int ?n) ((!) bs) (L S)"
  define W2 where "W2 = map (\<lambda>j. (bs ! j, L (bs ! j))) [0..<?n]"
  define h0 where "h0 = put_head 0 ((!) []) hd1"
  define E where "E = (wr_all W1 D)(S := hd1)"
  have W: "commit_writes S bs L = W1 @ [(S, hd1)] @ W2 @ [(S, h0)]"
    using ne by (simp add: commit_writes_def W1_def log_copies_def hd1_def W2_def h0_def Let_def)
  have len: "length W1 = ?n" "length W2 = ?n" by (simp_all add: W1_def log_copies_def W2_def)
  have inlog: "wr_all (take k W1) D b = D b" if "outside S Z b \<or> b = S" for b k
    by (rule wr_all_other) (use that a(3) in \<open>auto simp: W1_def log_copies_def outside_def dest!: in_set_takeD\<close>)
  have hl: "head_list (E S) = bs" "head_n (E S) = int ?n"
    using head_put[OF a(4), where d = "L S" and bl = "(!) bs"] a(2) by (auto simp: E_def hd1_def head_list_def intro!: nth_equalityI)
  have hc: "home_copies S bs E 0 ?n = W2"
    unfolding home_copies_def W2_def by (rule map_cong) (use log_copies_at(1)[of _ ?n S bs L D] in \<open>auto simp: E_def W1_def\<close>)
  have noS: "\<not> outside S Z S" using a(3) by (simp add: outside_def)
  have Eo: "E b = D b" if "outside S Z b" for b using inlog[of b ?n] that noS len by (auto simp: E_def)
  have new: "L b = wr_all W2 E b" if "outside S Z b" for b
  proof (cases "b \<in> set bs")
    case True
    then obtain i where i: "i < ?n" "b = bs ! i" by (auto simp: in_set_conv_nth)
    have "E (S + 1 + i) = L b" using log_copies_at(1)[of i ?n S bs L D] i by (simp add: E_def W1_def)
    then show ?thesis using home_copies_at[OF a(1) i(1), of S E E] i hc by simp
  next
    case False
    then show ?thesis using wr_all_other[of b W2 E] home_copies_fst[of S bs E] hc LD[OF that] Eo[OF that] by simp
  qed
  have sE: "settles S Z E L" unfolding settles_def hl hc using a new by (auto simp: len)
  consider "k \<le> ?n" | "?n < k" "k \<le> ?n + 1 + ?n" | "?n + 1 + ?n < k" by linarith
  then show ?thesis
  proof cases
    case 1
    then have e: "wr_all (take k (commit_writes S bs L)) D = wr_all (take k W1) D" using len by (simp add: W)
    have "settles S Z (wr_all (take k W1) D) D"
      by (subst settles_empty) (use inlog h a(3) in auto)
    then show ?thesis using e 1 by simp
  next
    case 2
    then obtain j where j: "k = ?n + 1 + j" by (metis Suc_eq_plus1 Suc_leI le_add_diff_inverse)
    have e: "wr_all (take k (commit_writes S bs L)) D = wr_all (take j W2) E" using 2 len by (simp add: W j E_def wr_all_append)
    have "settles S Z (wr_all (take j W2) E) L"
      by (rule settles_install(1)[OF sE]) (use hl hc set_take_subset[of j W2] in simp)
    then show ?thesis using e 2 by simp
  next
    case 3
    have e: "wr_all (take k (commit_writes S bs L)) D = (wr_all W2 E)(S := h0)" using 3 len by (simp add: W E_def wr_all_append)
    have "head_n h0 = 0" using head_put(1)[of 0] by (simp add: h0_def)
    then have "settles S Z ((wr_all W2 E)(S := h0)) L" by (subst settles_empty) (use new noS a(3) in auto)
    then show ?thesis using e 3 by simp
  qed
qed

section \<open>Operations inside a transaction\<close>

definition add_block :: "nat list \<Rightarrow> nat \<Rightarrow> nat list" where
  "add_block bs n = (if n \<in> set bs then bs else bs @ [n])"

lemma log_slot_nth:
  assumes "\<forall>i < length bs. bl i = bs ! i" "distinct bs"
  shows "n \<notin> set bs \<Longrightarrow> log_slot bl (length bs) n = length bs"
    "i < length bs \<Longrightarrow> bs ! i = n \<Longrightarrow> log_slot bl (length bs) n = i"
proof -
  show "log_slot bl (length bs) n = length bs" if "n \<notin> set bs"
  proof -
    have "takeWhile (\<lambda>i. bl i \<noteq> n) [0..<length bs] = [0..<length bs]"
      unfolding takeWhile_eq_all_conv using assms(1) that nth_mem by fastforce
    then have "length (takeWhile (\<lambda>i. bl i \<noteq> n) [0..<length bs]) = length [0..<length bs]" by (simp only:)
    then show ?thesis by (simp add: log_slot_def)
  qed
  show "log_slot bl (length bs) n = i" if i: "i < length bs" "bs ! i = n"
  proof -
    have u: "[0..<length bs] = [0..<i] @ i # [i + 1..<length bs]" using i(1) upt_add_eq_append[of 0 i "length bs - i"] by (simp add: upt_conv_Cons)
    have all: "takeWhile (\<lambda>i. bl i \<noteq> n) [0..<i] = [0..<i]"
      unfolding takeWhile_eq_all_conv using assms i by (auto simp: nth_eq_iff_index_eq)
    have "takeWhile (\<lambda>i. bl i \<noteq> n) ([0..<i] @ i # [i + 1..<length bs]) = [0..<i] @ takeWhile (\<lambda>i. bl i \<noteq> n) (i # [i + 1..<length bs])"
      by (rule takeWhile_append2) (use all in \<open>simp add: takeWhile_eq_all_conv\<close>)
    then show ?thesis using assms(1) i by (simp add: log_slot_def u)
  qed
qed

text \<open>\<^verbatim>\<open>log_write\<close> pins a block that is new to the transaction and absorbs another write of the same block.\<close>

lemma log_write_law:
  assumes r: "crep s H L D T P" and b: "H b = Some n" and l: "log_rep s S bs" "distinct bs" and room: "length bs < LOGSIZE" "int (length bs) < int (log_size s) - 1"
    and o: "1 \<le> log_outstanding s"
  shows "\<exists>s' f. log_write b s = Inr ((), s') \<and> crep s' H L D T (if n \<in> set bs then P else P(n := P n + 1)) \<and>
     log_rep s' S (add_block bs n) \<and> kept (s\<lparr>lh_n := int (length (add_block bs n)), lh_block := f\<rparr>) s'"
proof -
  have bn: "blockno (bufs s b) = n" using crepD(9)[OF r b] by simp
  have l': "lh_n s = int (length bs)" "\<forall>i < length bs. lh_block s i = bs ! i" using l by (auto simp: log_rep_def)
  show ?thesis
  proof (cases "n \<in> set bs")
    case True
    then obtain i where i: "i < length bs" "bs ! i = n" by (auto simp: in_set_conv_nth)
    have sl: "log_slot (lh_block s) (length bs) n = i" by (rule log_slot_nth(2)[OF l'(2) l(2) i])
    have same: "(lh_block s)(i := n) = lh_block s" using l'(2) i by auto
    then have "log_write b s = Inr ((), s)"
      using room o i by (simp add: log_write_def run_simps l'(1) bn sl set_lh_at_def)
    moreover have k: "kept (s\<lparr>lh_n := int (length (add_block bs n)), lh_block := lh_block s\<rparr>) s"
      using kept_refl[of s] l'(1) True by (simp add: add_block_def flip: l'(1))
    moreover have "log_rep s S (add_block bs n)" using l(1) True by (simp add: add_block_def)
    ultimately show ?thesis using r True by (intro exI[of _ s] exI[where x = "lh_block s"]) simp
  next
    case False
    let ?t = "s\<lparr>lh_block := (lh_block s)(length bs := n)\<rparr>"
    have "crep ?t H L D T P" using r by simp
    from bpin_law[OF this b] obtain u where u: "bpin b ?t = Inr ((), u)" "crep u H L D T (P(n := P n + 1))" "kept ?t u" by blast
    have k: "kept (?t\<lparr>lh_n := int (length bs) + 1\<rparr>) (u\<lparr>lh_n := int (length bs) + 1\<rparr>)" by (rule kept_upd(1)[OF u(3)])
    let ?v = "u\<lparr>lh_n := int (length bs) + 1\<rparr>"
    have run: "log_write b s = Inr ((), ?v)"
      using room o log_slot_nth(1)[OF l'(2) l(2) False] by (simp add: log_write_def run_simps l'(1) bn set_lh_at_def u(1) set_lh_n_def Let_def)
    have lr: "log_rep ?v S (add_block bs n)"
      using l kept_logd[OF u(3)] room(1) False by (auto simp: log_rep_def nth_append less_Suc_eq add_block_def)
    have e: "?t\<lparr>lh_n := int (length bs) + 1\<rparr> = s\<lparr>lh_n := int (length (add_block bs n)), lh_block := (lh_block s)(length bs := n)\<rparr>"
      using False by (simp add: add_block_def)
    have "crep ?v H L D T (P(n := P n + 1))" using u(2) by simp
    then show ?thesis unfolding if_not_P[OF False] using run lr k[unfolded e] by blast
  qed
qed

lemma log_write_errors:
  assumes "lh_n s \<ge> int LOGSIZE \<or> lh_n s \<ge> int (log_size s) - 1 \<or> log_outstanding s < 1"
  shows "\<exists>m. log_write b s = Inl (Panic m)"
  using assms by (auto simp: log_write_def run_simps panic_def)

section \<open>The log between operations\<close>

definition pins :: "nat list \<Rightarrow> nat \<Rightarrow> int" where
  "pins bs n = (if n \<in> set bs then 1 else 0)"

definition log_ok :: "'z logd_scheme \<Rightarrow> nat \<Rightarrow> nat \<Rightarrow> nat list \<Rightarrow> (nat \<Rightarrow> memory) \<Rightarrow> bool" where
  "log_ok s S Z bs D \<longleftrightarrow> log_rep s S bs \<and> log_size s = Z \<and> distinct bs \<and> (\<forall>b \<in> set bs. outside S Z b \<and> b < 2 ^ 32) \<and>
     length bs < Z \<and> length bs < NBUF \<and> head_n (D S) = 0"

lemma card_pins: "distinct bs \<Longrightarrow> card {m. pins bs m \<noteq> 0} = length bs"
  by (simp add: pins_def distinct_card)

text \<open>The typical use that the comment on \<^verbatim>\<open>log_write\<close> describes: read a block, modify it, log it, release it.\<close>

definition logged_update :: "nat \<Rightarrow> (memory \<Rightarrow> memory) \<Rightarrow> ('z, unit) gprog" where
  "logged_update n f = bnd (bread ROOTDEV n) (\<lambda>b. bnd (buf_data b) (\<lambda>d. sq (set_data b (f d)) (sq (log_write b) (brelse b))))"

lemma logged_update_law:
  assumes r: "crep s Map.empty L D T (pins bs)" and l: "log_ok s S Z bs D" and room: "length bs + 1 < Z" "length bs + 1 < NBUF"
    and n: "outside S Z n" "n < 2 ^ 32" and o: "1 \<le> log_outstanding s"
  shows "\<exists>s' f'. logged_update n f s = Inr ((), s') \<and> crep s' Map.empty (L(n := f (L n))) D T (pins (add_block bs n)) \<and>
     log_ok s' S Z (add_block bs n) D \<and> kept (s\<lparr>lh_n := int (length (add_block bs n)), lh_block := f'\<rparr>) s'"
proof -
  have lr: "log_rep s S bs" "distinct bs" "log_size s = Z" using l by (simp_all add: log_ok_def)
  obtain b s1 where 1: "bread ROOTDEV n s = Inr (b, s1)" "crep s1 [b \<mapsto> n] L D T ((pins bs)(n := pins bs n + 1))" "kept s s1"
    using bread_law[OF r, of n] card_pins[OF lr(2)] room by auto
  have d: "bdata (bufs s1 b) = L n" using held_data[OF 1(2), of b n] by simp
  obtain s2 where 2: "set_data b (f (L n)) s1 = Inr ((), s2)" "crep s2 [b \<mapsto> n] (L(n := f (L n))) D T ((pins bs)(n := pins bs n + 1))" "kept s1 s2"
    using set_data_law[OF 1(2), of b n "f (L n)"] by auto
  have k2: "kept s s2" by (rule kept_trans[OF 1(3) 2(3)])
  have lr2: "log_rep s2 S bs" using lr kept_rep[OF k2] by simp
  define P3 where "P3 = (pins bs)(n := if n \<in> set bs then pins bs n + 1 else pins bs n + 2)"
  obtain s3 f' where 3: "log_write b s2 = Inr ((), s3)" "crep s3 [b \<mapsto> n] (L(n := f (L n))) D T P3"
     "log_rep s3 S (add_block bs n)" "kept (s2\<lparr>lh_n := int (length (add_block bs n)), lh_block := f'\<rparr>) s3"
  proof -
    have "(if n \<in> set bs then (pins bs)(n := pins bs n + 1) else ((pins bs)(n := pins bs n + 1))(n := ((pins bs)(n := pins bs n + 1)) n + 1)) = P3"
      by (simp add: P3_def fun_eq_iff)
    then show ?thesis using log_write_law[OF 2(2) _ lr2 lr(2), of b n] room o kept_logd[OF k2] lr(3) that by (auto simp: NBUF_def LOGSIZE_def MAXOPBLOCKS_def)
  qed
  have e: "[b \<mapsto> n](b := None) = Map.empty" "P3(n := P3 n - 1) = pins (add_block bs n)"
    by (auto simp: fun_eq_iff pins_def P3_def add_block_def)
  have p3: "P3 n \<noteq> 1" by (simp add: P3_def pins_def)
  obtain s4 where 4: "brelse b s3 = Inr ((), s4)" "crep s4 Map.empty (L(n := f (L n))) D T (pins (add_block bs n))" "kept s3 s4"
    using brelse_law[OF 3(2), of b n] p3 unfolding e by auto
  have k: "kept (s\<lparr>lh_n := int (length (add_block bs n)), lh_block := f'\<rparr>) s4"
    by (rule kept_trans[OF kept_trans[OF kept_upd(2)[OF kept_upd(1)[OF k2]] 3(4)] 4(3)])
  have "log_ok s4 S Z (add_block bs n) D"
    using l 3(3) kept_rep[OF 4(3)] kept_logd[OF k] n room by (auto simp: log_ok_def add_block_def)
  moreover have "logged_update n f s = Inr ((), s4)" by (simp add: logged_update_def run_simps 1(1) buf_data_def d 2(1) 3(1) 4(1))
  ultimately show ?thesis using 4(2) k by blast
qed

section \<open>The properties\<close>

lemma unpins_pins [simp]: "unpins bs (pins bs) = (\<lambda>_. 0)"
  by (simp add: fun_eq_iff unpins_def pins_def)

lemma commit_head: "head_n (D S) = 0 \<Longrightarrow> head_n (wr_all (commit_writes S bs L) D S) = 0"
  using head_put(1)[of 0] by (auto simp: commit_writes_def Let_def wr_all_append)

lemma initlog_recovers:
  assumes "crep t Map.empty D D T (\<lambda>_. 0)" "settles (sb_logstart sb) (sb_nlog sb) D X"
  shows "\<exists>t'. initlog ROOTDEV sb t = Inr ((), t') \<and> (\<forall>b. outside (sb_logstart sb) (sb_nlog sb) b \<longrightarrow> disk t' b = X b) \<and>
    log_ok t' (sb_logstart sb) (sb_nlog sb) [] (disk t')"
proof -
  define S where "S = sb_logstart sb"
  define Z where "Z = sb_nlog sb"
  let ?t = "t\<lparr>log_start := S, log_size := Z, log_dev := ROOTDEV\<rparr>"
  have c: "crep ?t = crep t" by (rule crep_cong) simp_all
  obtain t' W f where r: "recover_from_log ?t = Inr ((), t')" "crep t' Map.empty (wr_all W D) (wr_all W D) (T @ W) (\<lambda>_. 0)"
    "\<forall>b. outside S Z b \<longrightarrow> wr_all W D b = X b" "head_n (wr_all W D S) = 0" "kept (?t\<lparr>lh_block := f, lh_n := 0\<rparr>) t'"
    using recover_law[of ?t D T S Z X] assms unfolding c S_def[symmetric] Z_def[symmetric] by auto
  have "initlog ROOTDEV sb t = Inr ((), t')"
    using r(1) by (simp add: initlog_def run_simps S_def Z_def BSIZE_def LOGSIZE_def MAXOPBLOCKS_def)
  moreover have "0 < Z" using assms(2) by (simp add: settles_def Z_def)
  then have "log_ok t' S Z [] (disk t')" using kept_logd[OF r(5)] crepD(3)[OF r(2)] r(4) by (simp add: log_ok_def log_rep_def NBUF_def)
  ultimately show ?thesis using r(3) crepD(3)[OF r(2)] by (auto simp: S_def Z_def)
qed

lemma end_op_law:
  assumes "crep s Map.empty L D T (pins bs)" "log_ok s (sb_logstart sb) (sb_nlog sb) bs D" "log_outstanding s = 1" "\<not> log_committing s"
  shows "\<exists>s' W. end_op s = Inr ((), s') \<and> wtrace s' = T @ W \<and> log_outstanding s' = 0 \<and> \<not> log_committing s' \<and>
     crep s' Map.empty (disk s') (disk s') (T @ W) (\<lambda>_. 0) \<and> log_ok s' (sb_logstart sb) (sb_nlog sb) [] (disk s') \<and>
     (\<forall>b. outside (sb_logstart sb) (sb_nlog sb) b \<longrightarrow> disk s' b = L b) \<and>
     (\<forall>k (t :: 'z logd_scheme) E. E = wr_all (take k W) D \<longrightarrow> crep t Map.empty E E [] (\<lambda>_. 0) \<longrightarrow>
        (\<exists>t'. initlog ROOTDEV sb t = Inr ((), t') \<and>
           (\<forall>b. outside (sb_logstart sb) (sb_nlog sb) b \<longrightarrow> disk t' b = (if k \<le> length bs then D b else L b))))"
proof -
  define S where "S = sb_logstart sb"
  define Z where "Z = sb_nlog sb"
  define W where "W = commit_writes S bs L"
  let ?s0 = "s\<lparr>log_outstanding := 0, log_committing := True\<rparr>"
  have ok: "log_rep s S bs" "distinct bs" "\<forall>b \<in> set bs. outside S Z b \<and> b < 2 ^ 32" "length bs < Z" "length bs < NBUF" "length bs \<le> LOGSIZE"
    "head_n (D S) = 0" "log_size s = Z"
    using assms(2) by (auto simp: log_ok_def log_rep_def S_def Z_def)
  have a: "apart S bs" by (rule outside_apart[OF ok(2) _ ok(4)]) (use ok(3) in blast)
  have r0: "crep ?s0 Map.empty L D T (pins bs)" and l0: "log_rep ?s0 S bs" using assms(1) ok(1) by (simp_all add: log_rep_def)
  obtain s1 where 1: "commit ?s0 = Inr ((), s1)" "kept (?s0\<lparr>lh_n := 0\<rparr>) s1" "crep s1 Map.empty (wr_all W L) (wr_all W D) (T @ W) (\<lambda>_. 0)"
    using commit_law[OF r0 l0 a] card_pins[OF ok(2)] ok(5) unfolding W_def by (auto simp: pins_def)
  let ?s' = "s1\<lparr>log_committing := False, chan_wakes := chan_wakes s1 @ [''log'']\<rparr>"
  have cs: "crep ?s' = crep s1" by (rule crep_cong) simp_all
  have LD: "wr_all W L = wr_all W D" using clean_law[OF 1(3)] by (simp add: fun_eq_iff)
  have clean: "L b = D b" if "b \<notin> set bs" for b using clean_law[OF assms(1), of b] that by (simp add: pins_def)
  have pre: "settles S Z (wr_all (take k W) D) (if k \<le> length bs then D else L)" for k
    unfolding W_def by (rule commit_prefix[where D = D, OF ok(2,3,4,6,7)]) (use clean in blast)
  have h: "head_n (wr_all W D S) = 0" unfolding W_def by (rule commit_head[where D = D and S = S, OF ok(7)])
  have new: "wr_all W D b = L b" if "outside S Z b" for b
    using pre[of "Suc (length W + length bs)"] settles_empty[where D = "wr_all W D" and S = S, OF h] ok(4) that by simp
  have run: "end_op s = Inr ((), ?s')"
    using assms(3,4) by (simp add: end_op_def run_simps 1(1) wakeup_chan_def)
  have ok': "log_ok ?s' S Z [] (disk ?s')"
    using kept_logd[OF 1(2)] ok(1,4,8) h crepD(3)[OF 1(3)] by (simp add: log_ok_def log_rep_def NBUF_def)
  have rec: "\<exists>t'. initlog ROOTDEV sb t = Inr ((), t') \<and> (\<forall>b. outside S Z b \<longrightarrow> disk t' b = (if k \<le> length bs then D b else L b))"
    if "crep t Map.empty (wr_all (take k W) D) (wr_all (take k W) D) [] (\<lambda>_. 0)" for k and t :: "'z logd_scheme"
    using initlog_recovers[OF that, of sb "if k \<le> length bs then D else L"] pre[of k] unfolding S_def Z_def by auto
  show ?thesis
    using run ok' rec new kept_logd[OF 1(2)] crepD(3,4)[OF 1(3)] 1(3) unfolding S_def[symmetric] Z_def[symmetric]
    by (intro exI[of _ ?s'] exI[of _ W]) (simp add: cs LD)
qed

text \<open>
  C4. Atomicity of transactions across crashes. When the last file system call of a transaction ends,
  \<^verbatim>\<open>end_op\<close> commits: it writes the logged blocks to their places, the log is empty again and the
  buffers are unpinned. If the machine stops after any number of the disk writes of this commit
  and \<^verbatim>\<open>initlog\<close> runs on what is then on the disk, every block outside the log has either the
  contents from before the transaction or all of them have the new contents, the latter exactly
  from the write of the log header on.
\<close>

theorem end_op_crash_safe:
  assumes "crep s Map.empty L D T (pins bs)" "log_ok s (sb_logstart sb) (sb_nlog sb) bs D" "log_outstanding s = 1" "\<not> log_committing s"
  shows "\<exists>s' W. end_op s = Inr ((), s') \<and> wtrace s' = T @ W \<and> log_outstanding s' = 0 \<and> \<not> log_committing s' \<and>
     crep s' Map.empty (disk s') (disk s') (T @ W) (\<lambda>_. 0) \<and> log_ok s' (sb_logstart sb) (sb_nlog sb) [] (disk s') \<and>
     (\<forall>b. outside (sb_logstart sb) (sb_nlog sb) b \<longrightarrow> disk s' b = L b) \<and>
     (\<forall>k (t :: 'z logd_scheme) E. E = wr_all (take k W) D \<longrightarrow> crep t Map.empty E E [] (\<lambda>_. 0) \<longrightarrow>
        (\<exists>t'. initlog ROOTDEV sb t = Inr ((), t') \<and>
           (\<forall>b. outside (sb_logstart sb) (sb_nlog sb) b \<longrightarrow> disk t' b = (if k \<le> length bs then D b else L b))))"
  by (rule end_op_law[OF assms])

text \<open>A machine whose blocks 2 to 31 are an empty log, one operation running, after a write to block 40.\<close>

definition demo_sb :: superblock where
  "demo_sb = \<lparr>sb_magic = 0x10203040, sb_size = 2000, sb_nblocks = 1954, sb_ninodes = 200, sb_nlog = 30, sb_logstart = 2, sb_inodestart = 32, sb_bmapstart = 45\<rparr>"

definition log_boot :: logd where
  "log_boot = blkd.extend (boot (\<lambda>_ _. 0)) (logd.fields 2 30 1 False ROOTDEV 0 (\<lambda>_. 0))"

theorem end_op_crash_safe_witness:
  "\<exists>s0 s1 s' W. binit log_boot = Inr ((), s0) \<and> logged_update 40 (\<lambda>_ _. 7) s0 = Inr ((), s1) \<and> end_op s1 = Inr ((), s') \<and>
     disk s' 40 = (\<lambda>_. 7) \<and> wtrace s' = W \<and>
     (\<forall>k (t :: logd) E. E = wr_all (take k W) (\<lambda>_ _. 0) \<longrightarrow> crep t Map.empty E E [] (\<lambda>_. 0) \<longrightarrow>
        (\<exists>t'. initlog ROOTDEV demo_sb t = Inr ((), t') \<and> disk t' 40 = (\<lambda>_. if k \<le> 1 then 0 else 7)))"
proof -
  have b: "bufs log_boot b = \<lparr>valid = False, bdev = 0, blockno = 0, refcnt = 0, blocked = False, bpid = 0, bdata = (\<lambda>_. 0)\<rparr>"
    "disk log_boot = (\<lambda>_ _. 0)" "wtrace log_boot = []" "log_start log_boot = 2" "log_size log_boot = 30" "log_outstanding log_boot = 1"
    "\<not> log_committing log_boot" "log_dev log_boot = ROOTDEV" "lh_n log_boot = 0" for b
    by (simp_all add: log_boot_def blkd.extend_def logd.fields_def boot_def ttyd.extend_def blkd.fields_def)
  obtain s0 where s0: "binit log_boot = Inr ((), s0)" "crep s0 Map.empty (\<lambda>_ _. 0) (\<lambda>_ _. 0) [] (\<lambda>_. 0)" "kept log_boot s0"
    using binit_law[of log_boot] b by auto
  have p: "pins [] = (\<lambda>_. 0)" by (simp add: fun_eq_iff pins_def)
  have ok0: "log_ok s0 2 30 [] (\<lambda>_ _. 0)"
    using kept_logd[OF s0(3)] b by (simp add: log_ok_def log_rep_def NBUF_def head_n_def load32_def)
  obtain s1 f where s1: "logged_update 40 (\<lambda>_ _. 7) s0 = Inr ((), s1)" "crep s1 Map.empty ((\<lambda>_ _. 0)(40 := \<lambda>_. 7)) (\<lambda>_ _. 0) [] (pins [40])"
     "log_ok s1 2 30 [40] (\<lambda>_ _. 0)" "kept (s0\<lparr>lh_n := 1, lh_block := f\<rparr>) s1"
    using logged_update_law[OF s0(2)[folded p] ok0, of 40 "\<lambda>_ _. 7"] kept_logd[OF s0(3)] b by (auto simp: NBUF_def outside_def add_block_def)
  have "log_outstanding s1 = 1" "\<not> log_committing s1" using kept_logd[OF s1(4)] kept_logd[OF s0(3)] b by auto
  moreover have sb: "sb_logstart demo_sb = 2" "sb_nlog demo_sb = 30" by (simp_all add: demo_sb_def)
  ultimately obtain s' W where e: "end_op s1 = Inr ((), s')" "wtrace s' = [] @ W" "\<forall>b. outside 2 30 b \<longrightarrow> disk s' b = ((\<lambda>_ _. 0)(40 := \<lambda>_. 7)) b"
    "\<forall>k (t :: logd) E. E = wr_all (take k W) (\<lambda>_ _. 0) \<longrightarrow> crep t Map.empty E E [] (\<lambda>_. 0) \<longrightarrow>
        (\<exists>t'. initlog ROOTDEV demo_sb t = Inr ((), t') \<and>
           (\<forall>b. outside 2 30 b \<longrightarrow> disk t' b = (if k \<le> length [40 :: nat] then (\<lambda>_. 0) else ((\<lambda>_ _. 0)(40 := \<lambda>_. 7)) b)))"
    using end_op_crash_safe[OF s1(2), where sb = demo_sb, unfolded sb, OF s1(3)] by blast
  have o: "outside 2 30 40" by (simp add: outside_def)
  have "\<exists>t'. initlog ROOTDEV demo_sb t = Inr ((), t') \<and> disk t' 40 = (\<lambda>_. if k \<le> 1 then 0 else 7)"
    if "E = wr_all (take k W) (\<lambda>_ _. 0)" "crep t Map.empty E E [] (\<lambda>_. 0)" for k E and t :: logd
    using e(4)[rule_format, OF that] o by fastforce
  then show ?thesis using s0(1) s1(1) e(1,2) e(3)[rule_format, OF o] by auto
qed

end
