(* ===== verification/Kstate.thy ===== *)
theory Kstate
  imports Log
begin

text \<open>
  The rest of the kernel's state: the table of in-memory inodes (\<^verbatim>\<open>kernel/file.h\<close>, \<^verbatim>\<open>kernel/fs.c\<close>), the
  table of open files (\<^verbatim>\<open>kernel/file.c\<close>), the process table (\<^verbatim>\<open>kernel/proc.h\<close>, \<^verbatim>\<open>kernel/proc.c\<close>) with the
  process that runs, the clock and the switch of device drivers. Table entries are numbered as in the
  arrays of the code and a pointer to an entry is its number. The supervisor registers of the
  processor, the interrupts that the platform-level controller has pending and the physical
  address of the trampoline page, which the linker decides, are fields as well. A trapframe is a page of physical
  memory, read and written at the offsets of \<^verbatim>\<open>struct trapframe\<close>.
\<close>

record inode =
  idev :: nat
  inum :: nat
  iref :: int
  ilocked :: bool
  ipid :: int
  ivalid :: bool
  itype :: "16 word"
  imajor :: "16 word"
  iminor :: "16 word"
  inlink :: "16 word"
  isize :: nat
  iaddrs :: "nat \<Rightarrow> nat"

datatype ftype = FD_NONE | FD_PIPE | FD_INODE | FD_DEVICE

record kfile =
  ftyp :: ftype
  fref :: int
  freadable :: bool
  fwritable :: bool
  fpipe :: nat
  fip :: nat
  foff :: nat
  fmajor :: "16 word"

datatype procstate = UNUSED | USED | SLEEPING | RUNNABLE | RUNNING | ZOMBIE

text \<open>
  The channels processes sleep on: a process, the clock, an end of a pipe, or another object of
  the kernel.
\<close>

datatype wchan = WProc nat | WTicks | WPipe chan | WObj string

record kcontext =
  ctx_ra :: string
  ctx_sp :: nat

record proc =
  pstate :: procstate
  pchan :: "wchan option"
  pkilled :: bool
  pxstate :: "32 word"
  ppid :: int
  pparent :: "nat option"
  pkstack :: nat
  psz :: nat
  ppagetable :: nat
  ptrapframe :: nat
  pcontext :: kcontext
  pofile :: "nat \<Rightarrow> nat option"
  pcwd :: "nat option"
  pname :: "byte list"

text \<open>Where traps go: the kernel's own handler, or \<^verbatim>\<open>uservec\<close> in the trampoline page.\<close>

datatype tvec = KernelVec | UserVec

datatype driver = NoDriver | ConsoleDriver

record kst = logd +
  sb :: superblock
  itable :: "nat \<Rightarrow> inode"
  ftable :: "nat \<Rightarrow> kfile"
  ptable :: "nat \<Rightarrow> proc"
  curp :: nat
  initproc :: "nat option"
  nextpid :: int
  first_run :: bool
  ticks :: "32 word"
  devsw :: "nat \<Rightarrow> driver"
  tramp :: nat
  scause :: "64 word"
  sepc :: "64 word"
  stval :: "64 word"
  sstatus :: "64 word"
  stvec :: tvec
  satp :: "64 word"
  sip :: "64 word"
  hartid :: nat
  plic :: "nat list"

type_synonym ('z, 'a) sprog = "('z kst_scheme, kerr, 'a) comp"

definition NINODE :: nat where "NINODE = 50"
definition NFILE :: nat where "NFILE = 100"
definition NOFILE :: nat where "NOFILE = 16"
definition NDEV :: nat where "NDEV = 10"
definition NPROC :: nat where "NPROC = 64"
definition MAXARG :: nat where "MAXARG = 32"
definition MAXPATH :: nat where "MAXPATH = 128"
definition CONSOLE :: nat where "CONSOLE = 1"

text \<open>
  The process that runs on this processor, and updates of table entries. \<open>curp\<close> is the process of
  this processor; the number \<^verbatim>\<open>NPROC\<close> stands for the null pointer, when the processor has none.
\<close>

definition myproc :: "('z, nat) sprog" where
  "myproc = gets curp"

definition curproc :: "(proc \<Rightarrow> 'a) \<Rightarrow> ('z, 'a) sprog" where
  "curproc f = gets (\<lambda>s. f (ptable s (curp s)))"

definition proc_upd :: "nat \<Rightarrow> (proc \<Rightarrow> proc) \<Rightarrow> ('z, unit) sprog" where
  "proc_upd p f = upd (\<lambda>s. s\<lparr>ptable := (ptable s)(p := f (ptable s p))\<rparr>)"

definition inode_upd :: "nat \<Rightarrow> (inode \<Rightarrow> inode) \<Rightarrow> ('z, unit) sprog" where
  "inode_upd i f = upd (\<lambda>s. s\<lparr>itable := (itable s)(i := f (itable s i))\<rparr>)"

definition file_upd :: "nat \<Rightarrow> (kfile \<Rightarrow> kfile) \<Rightarrow> ('z, unit) sprog" where
  "file_upd i f = upd (\<lambda>s. s\<lparr>ftable := (ftable s)(i := f (ftable s i))\<rparr>)"

definition ino :: "nat \<Rightarrow> (inode \<Rightarrow> 'a) \<Rightarrow> ('z, 'a) sprog" where
  "ino i f = gets (\<lambda>s. f (itable s i))"

definition fil :: "nat \<Rightarrow> (kfile \<Rightarrow> 'a) \<Rightarrow> ('z, 'a) sprog" where
  "fil i f = gets (\<lambda>s. f (ftable s i))"

section \<open>Going to sleep\<close>

definition sleep :: "wchan \<Rightarrow> ('z, unit) sprog" where
  "sleep ch = bnd myproc (\<lambda>p. proc_upd p (\<lambda>P. P\<lparr>pchan := Some ch, pstate := SLEEPING\<rparr>))"

text \<open>What \<^verbatim>\<open>sleep\<close> does when the process runs again.\<close>

definition awake :: "('z, unit) sprog" where
  "awake = bnd myproc (\<lambda>p. proc_upd p (\<lambda>P. P\<lparr>pchan := None\<rparr>))"

text \<open>The call of \<^verbatim>\<open>sleep\<close> in an operation that runs until it has to wait.\<close>

definition sleep_if :: "wchan \<Rightarrow> seg \<Rightarrow> ('z, seg) sprog" where
  "sleep_if ch r = (case r of Returns v \<Rightarrow> ret r | Asleep i \<Rightarrow> sq (sleep ch) (ret r))"

text \<open>The characters of a string literal, and a line printed on the console.\<close>

definition chars :: "string \<Rightarrow> byte list" where
  "chars str = map of_char str"

definition kputln :: "string \<Rightarrow> ('z, unit) tprog" where
  "kputln str = console_printf (Some (chars str @ [10])) []"

lemmas kst_run = myproc_def curproc_def proc_upd_def inode_upd_def file_upd_def ino_def fil_def

end
