(* ===== verification/Fs.thy ===== *)
theory Fs
  imports Kstate Str
begin

text \<open>
  The file system, \<^verbatim>\<open>kernel/fs.c\<close> with \<^verbatim>\<open>kernel/fs.h\<close>: blocks, inodes, file contents, directories and
  path names. Everything goes through the buffer cache and the log. On-disk structures are the bytes
  of their C layouts. Strings are the lists of their characters before the terminating NUL; the
  kernel-side end of a transfer is a kernel address, a user address, or a variable of the caller,
  whose bytes are passed as a list.
\<close>

definition ROOTINO :: nat where "ROOTINO = 1"
definition FSMAGIC :: nat where "FSMAGIC = 0x10203040"
definition NDIRECT :: nat where "NDIRECT = 12"
definition NINDIRECT :: nat where "NINDIRECT = BSIZE div 4"
definition MAXFILE :: nat where "MAXFILE = NDIRECT + NINDIRECT"
definition IPB :: nat where "IPB = BSIZE div 64"
definition BPB :: nat where "BPB = BSIZE * 8"
definition DIRSIZ :: nat where "DIRSIZ = 14"

definition T_DIR :: "16 word" where "T_DIR = 1"
definition T_FILE :: "16 word" where "T_FILE = 2"
definition T_DEVICE :: "16 word" where "T_DEVICE = 3"

definition IBLOCK :: "nat \<Rightarrow> superblock \<Rightarrow> nat" where
  "IBLOCK i sblk = i div IPB + sb_inodestart sblk"

definition BBLOCK :: "nat \<Rightarrow> superblock \<Rightarrow> nat" where
  "BBLOCK b sblk = b div BPB + sb_bmapstart sblk"

section \<open>The super block\<close>

definition get_sb :: "memory \<Rightarrow> superblock" where
  "get_sb d = \<lparr>sb_magic = unat (load32 d 0), sb_size = unat (load32 d 4), sb_nblocks = unat (load32 d 8), sb_ninodes = unat (load32 d 12),
     sb_nlog = unat (load32 d 16), sb_logstart = unat (load32 d 20), sb_inodestart = unat (load32 d 24), sb_bmapstart = unat (load32 d 28)\<rparr>"

definition readsb :: "nat \<Rightarrow> ('z, superblock) sprog" where
  "readsb dev = bnd (bread dev 1) (\<lambda>bp. bnd (buf_data bp) (\<lambda>d. sq (brelse bp) (ret (get_sb d))))"

definition fsinit :: "nat \<Rightarrow> ('z, unit) sprog" where
  "fsinit dev = bnd (readsb dev) (\<lambda>sblk. sq (upd (\<lambda>s. s\<lparr>sb := sblk\<rparr>))
     (if sb_magic sblk \<noteq> FSMAGIC then panic ''invalid file system'' else initlog dev sblk))"

section \<open>Blocks\<close>

definition bzero :: "nat \<Rightarrow> nat \<Rightarrow> ('z, unit) sprog" where
  "bzero dev bno = bnd (bread dev bno) (\<lambda>bp. bnd (buf_data bp) (\<lambda>d.
     sq (set_data bp (memset d 0 0 BSIZE)) (sq (log_write bp) (brelse bp))))"

text \<open>The bits of a block of the free map.\<close>

definition block_bit :: "memory \<Rightarrow> nat \<Rightarrow> bool" where
  "block_bit d bi = (d (bi div 8) AND push_bit (bi mod 8) 1 \<noteq> 0)"

definition set_bit_at :: "memory \<Rightarrow> nat \<Rightarrow> memory" where
  "set_bit_at d bi = d(bi div 8 := d (bi div 8) OR push_bit (bi mod 8) 1)"

definition clear_bit_at :: "memory \<Rightarrow> nat \<Rightarrow> memory" where
  "clear_bit_at d bi = d(bi div 8 := d (bi div 8) AND NOT (push_bit (bi mod 8) 1))"

text \<open>The inner loop of \<^verbatim>\<open>balloc\<close>: the first clear bit that stands for a block of the file system.\<close>

definition free_bit :: "memory \<Rightarrow> nat \<Rightarrow> nat \<Rightarrow> nat option" where
  "free_bit d b sz = List.find (\<lambda>bi. \<not> block_bit d bi) [0..<min BPB (sz - b)]"

primrec balloc_loop :: "nat \<Rightarrow> nat \<Rightarrow> nat \<Rightarrow> ('z, nat) sprog" where
  "balloc_loop dev 0 b = sq (kputln ''balloc: out of blocks'') (ret 0)"
| "balloc_loop dev (Suc k) b = bnd (gets sb) (\<lambda>sblk.
     bnd (bread dev (BBLOCK b sblk)) (\<lambda>bp.
     bnd (buf_data bp) (\<lambda>d.
     case free_bit d b (sb_size sblk) of
       Some bi \<Rightarrow> sq (set_data bp (set_bit_at d bi)) (sq (log_write bp) (sq (brelse bp)
         (sq (bzero dev (b + bi)) (ret (b + bi)))))
     | None \<Rightarrow> sq (brelse bp) (balloc_loop dev k (b + BPB)))))"

definition balloc :: "nat \<Rightarrow> ('z, nat) sprog" where
  "balloc dev = bnd (gets (\<lambda>s. sb_size (sb s))) (\<lambda>sz. balloc_loop dev ((sz + (BPB - 1)) div BPB) 0)"

definition bfree :: "nat \<Rightarrow> nat \<Rightarrow> ('z, unit) sprog" where
  "bfree dev b = bnd (gets sb) (\<lambda>sblk.
     bnd (bread dev (BBLOCK b sblk)) (\<lambda>bp.
     bnd (buf_data bp) (\<lambda>d.
     if \<not> block_bit d (b mod BPB) then panic ''freeing free block'' else
     sq (set_data bp (clear_bit_at d (b mod BPB))) (sq (log_write bp) (brelse bp)))))"

section \<open>Inodes\<close>

text \<open>\<^verbatim>\<open>struct dinode\<close> at an offset of a block.\<close>

definition load16 :: "memory \<Rightarrow> nat \<Rightarrow> 16 word" where
  "load16 m a = ucast (m a) OR push_bit 8 (ucast (m (a + 1)))"

definition store16 :: "memory \<Rightarrow> nat \<Rightarrow> 16 word \<Rightarrow> memory" where
  "store16 m a w = m(a := ucast w, a + 1 := ucast (drop_bit 8 w))"

primrec put_addrs :: "(nat \<Rightarrow> nat) \<Rightarrow> nat \<Rightarrow> nat \<Rightarrow> memory \<Rightarrow> memory" where
  "put_addrs f a 0 d = d"
| "put_addrs f a (Suc i) d = store32 (put_addrs f a i d) (a + 4 * i) (of_nat (f i))"

definition put_dinode :: "inode \<Rightarrow> nat \<Rightarrow> memory \<Rightarrow> memory" where
  "put_dinode ip a d = put_addrs (iaddrs ip) (a + 12) (NDIRECT + 1)
     (store32 (store16 (store16 (store16 (store16 d a (itype ip)) (a + 2) (imajor ip)) (a + 4) (iminor ip)) (a + 6) (inlink ip))
        (a + 8) (of_nat (isize ip)))"

definition get_dinode :: "memory \<Rightarrow> nat \<Rightarrow> inode \<Rightarrow> inode" where
  "get_dinode d a ip = ip\<lparr>itype := load16 d a, imajor := load16 d (a + 2), iminor := load16 d (a + 4), inlink := load16 d (a + 6),
     isize := unat (load32 d (a + 8)), iaddrs := (\<lambda>i. if i < NDIRECT + 1 then unat (load32 d (a + 12 + 4 * i)) else iaddrs ip i)\<rparr>"

definition dinode_at :: "nat \<Rightarrow> nat" where
  "dinode_at i = (i mod IPB) * 64"

primrec iinit_loop :: "nat \<Rightarrow> ('z, unit) sprog" where
  "iinit_loop 0 = ret ()"
| "iinit_loop (Suc i) = sq (iinit_loop i) (inode_upd i (\<lambda>ip. ip\<lparr>ilocked := False, ipid := 0\<rparr>))"

definition iinit :: "('z, unit) sprog" where
  "iinit = iinit_loop NINODE"

definition iget :: "nat \<Rightarrow> nat \<Rightarrow> ('z, nat) sprog" where
  "iget dev i = bnd (gets itable) (\<lambda>tab.
     case List.find (\<lambda>k. iref (tab k) > 0 \<and> idev (tab k) = dev \<and> inum (tab k) = i) [0..<NINODE] of
       Some k \<Rightarrow> sq (inode_upd k (\<lambda>ip. ip\<lparr>iref := iref ip + 1\<rparr>)) (ret k)
     | None \<Rightarrow> (case List.find (\<lambda>k. iref (tab k) = 0) [0..<NINODE] of
         None \<Rightarrow> panic ''iget: no inodes''
       | Some k \<Rightarrow> sq (inode_upd k (\<lambda>ip. ip\<lparr>idev := dev, inum := i, iref := 1, ivalid := False\<rparr>)) (ret k)))"

text \<open>\<^verbatim>\<open>ialloc\<close>, the loop by the number of inodes left; no inode is the value \<open>None\<close>.\<close>

primrec ialloc_loop :: "nat \<Rightarrow> 16 word \<Rightarrow> nat \<Rightarrow> nat \<Rightarrow> ('z, nat option) sprog" where
  "ialloc_loop dev ty 0 i = sq (kputln ''ialloc: no inodes'') (ret None)"
| "ialloc_loop dev ty (Suc k) i = bnd (gets sb) (\<lambda>sblk.
     bnd (bread dev (IBLOCK i sblk)) (\<lambda>bp.
     bnd (buf_data bp) (\<lambda>d.
     if load16 d (dinode_at i) = 0
     then sq (set_data bp (store16 (memset d (dinode_at i) 0 64) (dinode_at i) ty)) (sq (log_write bp) (sq (brelse bp)
       (bnd (iget dev i) (\<lambda>ip. ret (Some ip)))))
     else sq (brelse bp) (ialloc_loop dev ty k (i + 1)))))"

definition ialloc :: "nat \<Rightarrow> 16 word \<Rightarrow> ('z, nat option) sprog" where
  "ialloc dev ty = bnd (gets (\<lambda>s. sb_ninodes (sb s))) (\<lambda>n. ialloc_loop dev ty (n - 1) 1)"

definition iupdate :: "nat \<Rightarrow> ('z, unit) sprog" where
  "iupdate i = bnd (gets (\<lambda>s. (sb s, itable s i))) (\<lambda>(sblk, ip).
     bnd (bread (idev ip) (IBLOCK (inum ip) sblk)) (\<lambda>bp.
     bnd (buf_data bp) (\<lambda>d.
     sq (set_data bp (put_dinode ip (dinode_at (inum ip)) d)) (sq (log_write bp) (brelse bp)))))"

definition idup :: "nat \<Rightarrow> ('z, nat) sprog" where
  "idup i = sq (inode_upd i (\<lambda>ip. ip\<lparr>iref := iref ip + 1\<rparr>)) (ret i)"

definition lock_inode :: "nat \<Rightarrow> ('z, unit) sprog" where
  "lock_inode i = bnd (gets (\<lambda>s. (ilocked (itable s i), mypid s))) (\<lambda>(l, pid).
     if l then fail (Sleeps ''inode'') else inode_upd i (\<lambda>ip. ip\<lparr>ilocked := True, ipid := pid\<rparr>))"

definition unlock_inode :: "nat \<Rightarrow> ('z, unit) sprog" where
  "unlock_inode i = sq (inode_upd i (\<lambda>ip. ip\<lparr>ilocked := False, ipid := 0\<rparr>)) (wakeup_chan ''inode'')"

definition ilock :: "nat \<Rightarrow> ('z, unit) sprog" where
  "ilock i = bnd (ino i iref) (\<lambda>r. if r < 1 then panic ''ilock'' else
     sq (lock_inode i)
     (bnd (ino i ivalid) (\<lambda>v. if v then ret () else
      bnd (gets (\<lambda>s. (sb s, itable s i))) (\<lambda>(sblk, ip).
      bnd (bread (idev ip) (IBLOCK (inum ip) sblk)) (\<lambda>bp.
      bnd (buf_data bp) (\<lambda>d.
      sq (inode_upd i (get_dinode d (dinode_at (inum ip))))
      (sq (brelse bp)
      (sq (inode_upd i (\<lambda>ip. ip\<lparr>ivalid := True\<rparr>))
      (bnd (ino i itype) (\<lambda>t. if t = 0 then panic ''ilock: no type'' else ret ()))))))))))"

definition iunlock :: "nat \<Rightarrow> ('z, unit) sprog" where
  "iunlock i = bnd (gets (\<lambda>s. (itable s i, mypid s))) (\<lambda>(ip, pid).
     if \<not> (ilocked ip \<and> ipid ip = pid) \<or> iref ip < 1 then panic ''iunlock'' else unlock_inode i)"

section \<open>File contents\<close>

definition set_addr :: "nat \<Rightarrow> nat \<Rightarrow> nat \<Rightarrow> ('z, unit) sprog" where
  "set_addr i bn a = inode_upd i (\<lambda>ip. ip\<lparr>iaddrs := (iaddrs ip)(bn := a)\<rparr>)"

definition bmap :: "nat \<Rightarrow> nat \<Rightarrow> ('z, nat) sprog" where
  "bmap i bn = bnd (gets (\<lambda>s. itable s i)) (\<lambda>ip.
     if bn < NDIRECT then
       (if iaddrs ip bn = 0 then bnd (balloc (idev ip)) (\<lambda>addr.
          if addr = 0 then ret 0 else sq (set_addr i bn addr) (ret addr))
        else ret (iaddrs ip bn))
     else if bn - NDIRECT < NINDIRECT then
       bnd (if iaddrs ip NDIRECT = 0 then bnd (balloc (idev ip)) (\<lambda>addr.
              if addr = 0 then ret 0 else sq (set_addr i NDIRECT addr) (ret addr))
            else ret (iaddrs ip NDIRECT)) (\<lambda>ind.
       if ind = 0 then ret 0 else
       bnd (bread (idev ip) ind) (\<lambda>bp.
       bnd (buf_data bp) (\<lambda>d.
       let off = 4 * (bn - NDIRECT); addr = unat (load32 d off) in
       bnd (if addr = 0 then bnd (balloc (idev ip)) (\<lambda>addr.
              if addr \<noteq> 0 then sq (set_data bp (store32 d off (of_nat addr))) (sq (log_write bp) (ret addr)) else ret 0)
            else ret addr) (\<lambda>addr.
       sq (brelse bp) (ret addr)))))
     else panic ''bmap: out of range'')"

primrec trunc_direct :: "nat \<Rightarrow> nat \<Rightarrow> ('z, unit) sprog" where
  "trunc_direct i 0 = ret ()"
| "trunc_direct i (Suc k) = sq (trunc_direct i k) (bnd (gets (\<lambda>s. itable s i)) (\<lambda>ip.
     if iaddrs ip k \<noteq> 0 then sq (bfree (idev ip) (iaddrs ip k)) (set_addr i k 0) else ret ()))"

primrec trunc_indirect :: "nat \<Rightarrow> memory \<Rightarrow> nat \<Rightarrow> ('z, unit) sprog" where
  "trunc_indirect dev d 0 = ret ()"
| "trunc_indirect dev d (Suc j) = sq (trunc_indirect dev d j)
     (if load32 d (4 * j) \<noteq> 0 then bfree dev (unat (load32 d (4 * j))) else ret ())"

definition itrunc :: "nat \<Rightarrow> ('z, unit) sprog" where
  "itrunc i = sq (trunc_direct i NDIRECT)
     (sq (bnd (gets (\<lambda>s. itable s i)) (\<lambda>ip. if iaddrs ip NDIRECT = 0 then ret () else
        bnd (bread (idev ip) (iaddrs ip NDIRECT)) (\<lambda>bp.
        bnd (buf_data bp) (\<lambda>d.
        sq (trunc_indirect (idev ip) d NINDIRECT)
        (sq (brelse bp)
        (sq (bfree (idev ip) (iaddrs ip NDIRECT))
        (set_addr i NDIRECT 0)))))))
     (sq (inode_upd i (\<lambda>ip. ip\<lparr>isize := 0\<rparr>))
     (iupdate i)))"

definition iput :: "nat \<Rightarrow> ('z, unit) sprog" where
  "iput i = sq (bnd (gets (\<lambda>s. itable s i)) (\<lambda>ip.
       if iref ip = 1 \<and> ivalid ip \<and> inlink ip = 0 then
         sq (lock_inode i)
         (sq (itrunc i)
         (sq (inode_upd i (\<lambda>ip. ip\<lparr>itype := 0\<rparr>))
         (sq (iupdate i)
         (sq (inode_upd i (\<lambda>ip. ip\<lparr>ivalid := False\<rparr>))
         (unlock_inode i)))))
       else ret ()))
     (inode_upd i (\<lambda>ip. ip\<lparr>iref := iref ip - 1\<rparr>))"

definition iunlockput :: "nat \<Rightarrow> ('z, unit) sprog" where
  "iunlockput i = sq (iunlock i) (iput i)"

text \<open>The bytes of \<^verbatim>\<open>struct stat\<close>; its four padding bytes, which the code leaves as they were, are zero.\<close>

definition stati :: "nat \<Rightarrow> ('z, byte list) sprog" where
  "stati i = ino i (\<lambda>ip. load_bytes (store64 (store16 (store16 (store32 (store32 (\<lambda>_. 0) 0 (of_nat (idev ip))) 4 (of_nat (inum ip)))
     8 (itype ip)) 10 (inlink ip)) 16 (of_nat (isize ip))) 0 24)"

text \<open>The other end of a transfer, with the bytes moved so far.\<close>

datatype dest = ToUser nat | ToKernel nat | ToVar

datatype source = FromUser nat | FromKernel nat | FromVar "byte list"

definition copy_to :: "dest \<Rightarrow> nat \<Rightarrow> byte list \<Rightarrow> ('z, int) sprog" where
  "copy_to dst tot bs = (case dst of
     ToUser a \<Rightarrow> bnd (curproc ppagetable) (\<lambda>pt. either_copyout pt True (a + tot) bs)
   | ToKernel a \<Rightarrow> bnd (curproc ppagetable) (\<lambda>pt. either_copyout pt False (a + tot) bs)
   | ToVar \<Rightarrow> ret 0)"

definition copy_from :: "source \<Rightarrow> nat \<Rightarrow> nat \<Rightarrow> ('z, int \<times> byte list) sprog" where
  "copy_from src tot m = (case src of
     FromUser a \<Rightarrow> bnd (curproc ppagetable) (\<lambda>pt. either_copyin pt True (a + tot) m)
   | FromKernel a \<Rightarrow> bnd (curproc ppagetable) (\<lambda>pt. either_copyin pt False (a + tot) m)
   | FromVar bs \<Rightarrow> ret (0, take m (drop tot bs)))"

definition chunk :: "nat \<Rightarrow> nat \<Rightarrow> nat \<Rightarrow> nat" where
  "chunk n tot off = min (n - tot) (BSIZE - off mod BSIZE)"

lemma chunk_pos: "tot < n \<Longrightarrow> 0 < chunk n tot off"
  by (simp add: chunk_def BSIZE_def)

lemma chunk_less: "tot < n \<Longrightarrow> n - (tot + chunk n tot off) < n - tot"
  using chunk_pos[of tot n off] by simp

text \<open>The loop of \<^verbatim>\<open>readi\<close>: the value it returns and the bytes that were read.\<close>

function readi_loop :: "nat \<Rightarrow> dest \<Rightarrow> nat \<Rightarrow> nat \<Rightarrow> nat \<Rightarrow> ('z, int \<times> byte list) sprog" where
  "readi_loop i dst off n tot = (if tot < n then
     bnd (bmap i (off div BSIZE)) (\<lambda>addr. if addr = 0 then ret (int tot, []) else
     bnd (ino i idev) (\<lambda>dev.
     bnd (bread dev addr) (\<lambda>bp.
     bnd (buf_data bp) (\<lambda>d.
     let m = chunk n tot off; bs = load_bytes d (off mod BSIZE) m in
     bnd (copy_to dst tot bs) (\<lambda>r.
     sq (brelse bp)
     (if r = - 1 then ret (- 1, [])
      else bnd (readi_loop i dst (off + m) n (tot + m)) (\<lambda>(r, cs). ret (r, bs @ cs))))))))
     else ret (int tot, []))"
  by auto

termination readi_loop
  by (relation "measure (\<lambda>(i, dst, off, n, tot). n - tot)") (auto intro: chunk_less)

definition readi :: "nat \<Rightarrow> dest \<Rightarrow> nat \<Rightarrow> nat \<Rightarrow> ('z, int \<times> byte list) sprog" where
  "readi i dst off n = bnd (ino i isize) (\<lambda>sz.
     if off > sz \<or> (off + n) mod 2 ^ 32 < off then ret (0, [])
     else readi_loop i dst off (if off + n > sz then sz - off else n) 0)"

text \<open>The loop of \<^verbatim>\<open>writei\<close>: the number of bytes written and the offset reached.\<close>

function writei_loop :: "nat \<Rightarrow> source \<Rightarrow> nat \<Rightarrow> nat \<Rightarrow> nat \<Rightarrow> ('z, nat \<times> nat) sprog" where
  "writei_loop i src off n tot = (if tot < n then
     bnd (bmap i (off div BSIZE)) (\<lambda>addr. if addr = 0 then ret (tot, off) else
     bnd (ino i idev) (\<lambda>dev.
     bnd (bread dev addr) (\<lambda>bp.
     bnd (buf_data bp) (\<lambda>d.
     let m = chunk n tot off in
     bnd (copy_from src tot m) (\<lambda>(r, bs).
     sq (set_data bp (store_bytes d (off mod BSIZE) bs))
     (if r = - 1 then sq (brelse bp) (ret (tot, off))
      else sq (log_write bp) (sq (brelse bp) (writei_loop i src (off + m) n (tot + m)))))))))
     else ret (tot, off))"
  by auto

termination writei_loop
  by (relation "measure (\<lambda>(i, src, off, n, tot). n - tot)") (auto intro: chunk_less)

declare readi_loop.simps [simp del] writei_loop.simps [simp del]

definition writei :: "nat \<Rightarrow> source \<Rightarrow> nat \<Rightarrow> nat \<Rightarrow> ('z, int) sprog" where
  "writei i src off n = bnd (ino i isize) (\<lambda>sz.
     if off > sz \<or> (off + n) mod 2 ^ 32 < off then ret (- 1)
     else if off + n > MAXFILE * BSIZE then ret (- 1)
     else bnd (writei_loop i src off n 0) (\<lambda>(tot, off').
       sq (if off' > sz then inode_upd i (\<lambda>ip. ip\<lparr>isize := off'\<rparr>) else ret ())
       (sq (iupdate i) (ret (int tot)))))"

section \<open>Directories\<close>

text \<open>\<^verbatim>\<open>strncmp\<close> and \<^verbatim>\<open>strncpy\<close> on lists of characters; past its end a list has the NUL.\<close>

definition char0 :: "byte list \<Rightarrow> byte" where
  "char0 p = (case p of [] \<Rightarrow> 0 | c # _ \<Rightarrow> c)"

primrec strncmp_list :: "byte list \<Rightarrow> byte list \<Rightarrow> nat \<Rightarrow> int" where
  "strncmp_list p q 0 = 0"
| "strncmp_list p q (Suc n) = (if char0 p \<noteq> 0 \<and> char0 p = char0 q then strncmp_list (tl p) (tl q) n
     else uint (char0 p) - uint (char0 q))"

definition strncpy_list :: "byte list \<Rightarrow> nat \<Rightarrow> byte list" where
  "strncpy_list t n = take n (takeWhile (\<lambda>c. c \<noteq> 0) t @ replicate n 0)"

definition namecmp :: "byte list \<Rightarrow> byte list \<Rightarrow> int" where
  "namecmp p q = strncmp_list p q DIRSIZ"

text \<open>\<^verbatim>\<open>struct dirent\<close> as its 16 bytes.\<close>

definition DIRENT :: nat where "DIRENT = 2 + DIRSIZ"

definition mk_dirent :: "nat \<Rightarrow> byte list \<Rightarrow> byte list" where
  "mk_dirent i nm = [of_nat i, of_nat (i div 256)] @ nm"

definition de_inum :: "byte list \<Rightarrow> nat" where
  "de_inum de = unat (de ! 0) + 256 * unat (de ! 1)"

definition de_name :: "byte list \<Rightarrow> byte list" where
  "de_name de = drop 2 de"

function dirlookup_loop :: "nat \<Rightarrow> byte list \<Rightarrow> nat \<Rightarrow> nat \<Rightarrow> ('z, (nat \<times> nat) option) sprog" where
  "dirlookup_loop dp name sz off = (if off < sz then
     bnd (readi dp ToVar off DIRENT) (\<lambda>(r, de).
     if r \<noteq> int DIRENT then panic ''dirlookup read''
     else if de_inum de = 0 then dirlookup_loop dp name sz (off + DIRENT)
     else if namecmp name (de_name de) = 0 then
       bnd (ino dp idev) (\<lambda>dev. bnd (iget dev (de_inum de)) (\<lambda>ip. ret (Some (ip, off))))
     else dirlookup_loop dp name sz (off + DIRENT))
     else ret None)"
  by auto

termination dirlookup_loop
  by (relation "measure (\<lambda>(dp, name, sz, off). sz - off)") (auto simp: DIRENT_def)

definition dirlookup :: "nat \<Rightarrow> byte list \<Rightarrow> ('z, (nat \<times> nat) option) sprog" where
  "dirlookup dp name = bnd (gets (\<lambda>s. itable s dp)) (\<lambda>d.
     if itype d \<noteq> T_DIR then panic ''dirlookup not DIR'' else dirlookup_loop dp name (isize d) 0)"

function dirlink_loop :: "nat \<Rightarrow> nat \<Rightarrow> nat \<Rightarrow> ('z, nat) sprog" where
  "dirlink_loop dp sz off = (if off < sz then
     bnd (readi dp ToVar off DIRENT) (\<lambda>(r, de).
     if r \<noteq> int DIRENT then panic ''dirlink read''
     else if de_inum de = 0 then ret off
     else dirlink_loop dp sz (off + DIRENT))
     else ret off)"
  by auto

termination dirlink_loop
  by (relation "measure (\<lambda>(dp, sz, off). sz - off)") (auto simp: DIRENT_def)

declare dirlookup_loop.simps [simp del] dirlink_loop.simps [simp del]

definition dirlink :: "nat \<Rightarrow> byte list \<Rightarrow> nat \<Rightarrow> ('z, int) sprog" where
  "dirlink dp name i = bnd (dirlookup dp name) (\<lambda>r. case r of
       Some (ip, off) \<Rightarrow> sq (iput ip) (ret (- 1))
     | None \<Rightarrow>
       bnd (ino dp isize) (\<lambda>sz.
       bnd (dirlink_loop dp sz 0) (\<lambda>off.
       bnd (writei dp (FromVar (mk_dirent i (strncpy_list name DIRSIZ))) off DIRENT) (\<lambda>r.
       if r \<noteq> int DIRENT then ret (- 1) else ret 0))))"

section \<open>Paths\<close>

definition skipelem :: "byte list \<Rightarrow> (byte list \<times> byte list) option" where
  "skipelem path = (let p = dropWhile (\<lambda>c. c = 47) path in
     if p = [] then None
     else let s = takeWhile (\<lambda>c. c \<noteq> 47) p; r = dropWhile (\<lambda>c. c \<noteq> 47) p in
       Some (take DIRSIZ s, dropWhile (\<lambda>c. c = 47) r))"

lemma skipelem_shorter: "skipelem path = Some (name, rest) \<Longrightarrow> length rest < length path"
proof -
  assume h: "skipelem path = Some (name, rest)"
  let ?p = "dropWhile (\<lambda>c. c = 47) path"
  have p: "?p \<noteq> []" "rest = dropWhile (\<lambda>c. c = 47) (dropWhile (\<lambda>c. c \<noteq> 47) ?p)" using h by (auto simp: skipelem_def Let_def split: if_splits)
  have "hd ?p \<noteq> 47" using hd_dropWhile[OF p(1)] by simp
  then obtain c cs where c: "?p = c # cs" "c \<noteq> 47" using p(1) by (cases ?p) auto
  have "length rest \<le> length cs" unfolding p(2) c(1) using c(2)
    by (simp add: order_trans[OF length_dropWhile_le length_dropWhile_le])
  moreover have "length (c # cs) \<le> length path" unfolding c(1)[symmetric] by (rule length_dropWhile_le)
  ultimately show ?thesis by simp
qed

function namex_loop :: "bool \<Rightarrow> byte list \<Rightarrow> nat \<Rightarrow> ('z, (nat \<times> byte list) option) sprog" where
  "namex_loop parent path ip = (case skipelem path of
       None \<Rightarrow> if parent then sq (iput ip) (ret None) else ret (Some (ip, []))
     | Some (name, rest) \<Rightarrow>
       sq (ilock ip)
       (bnd (ino ip itype) (\<lambda>t.
        if t \<noteq> T_DIR then sq (iunlockput ip) (ret None)
        else if parent \<and> rest = [] then sq (iunlock ip) (ret (Some (ip, name)))
        else bnd (dirlookup ip name) (\<lambda>r. case r of
            None \<Rightarrow> sq (iunlockput ip) (ret None)
          | Some (nx, off) \<Rightarrow> sq (iunlockput ip) (namex_loop parent rest nx)))))"
  by auto

termination namex_loop
  by (relation "measure (\<lambda>(parent, path, ip). length path)") (auto dest: skipelem_shorter)

declare namex_loop.simps [simp del]

definition namex :: "bool \<Rightarrow> byte list \<Rightarrow> ('z, (nat \<times> byte list) option) sprog" where
  "namex parent path =
     bnd (if char0 path = 47 then iget ROOTDEV ROOTINO
          else bnd (curproc pcwd) (\<lambda>c. case c of None \<Rightarrow> fail (Undef ''cwd'') | Some cwd \<Rightarrow> idup cwd)) (\<lambda>ip.
     namex_loop parent path ip)"

definition namei :: "byte list \<Rightarrow> ('z, nat option) sprog" where
  "namei path = bnd (namex False path) (\<lambda>r. ret (map_option fst r))"

definition nameiparent :: "byte list \<Rightarrow> ('z, (nat \<times> byte list) option) sprog" where
  "nameiparent path = namex True path"

end
