(* ===== verification/File.thy ===== *)
theory File
  imports Fs
begin

text \<open>
  Open files, \<^verbatim>\<open>kernel/file.c\<close>, and the creation of pipes of \<^verbatim>\<open>kernel/pipe.c\<close>. A read or write that has to
  wait returns \<open>Asleep\<close> with the number of bytes that are done; whether the process was killed is
  read from its table entry.
\<close>

definition fileinit :: "('z, unit) sprog" where
  "fileinit = ret ()"

definition filealloc :: "('z, nat option) sprog" where
  "filealloc = bnd (gets ftable) (\<lambda>tab. case List.find (\<lambda>f. fref (tab f) = 0) [0..<NFILE] of
     None \<Rightarrow> ret None
   | Some f \<Rightarrow> sq (file_upd f (\<lambda>F. F\<lparr>fref := 1\<rparr>)) (ret (Some f)))"

definition filedup :: "nat \<Rightarrow> ('z, nat) sprog" where
  "filedup f = bnd (fil f fref) (\<lambda>r. if r < 1 then panic ''filedup'' else
     sq (file_upd f (\<lambda>F. F\<lparr>fref := fref F + 1\<rparr>)) (ret f))"

text \<open>The end of \<^verbatim>\<open>fileclose\<close>: the object of a file without references is released.\<close>

definition file_release :: "kfile \<Rightarrow> ('z, unit) sprog" where
  "file_release ff = (case ftyp ff of
       FD_PIPE \<Rightarrow> pipeclose (fpipe ff) (fwritable ff)
     | FD_INODE \<Rightarrow> sq begin_op (sq (iput (fip ff)) end_op)
     | FD_DEVICE \<Rightarrow> sq begin_op (sq (iput (fip ff)) end_op)
     | FD_NONE \<Rightarrow> ret ())"

definition fileclose :: "nat \<Rightarrow> ('z, unit) sprog" where
  "fileclose f = bnd (fil f fref) (\<lambda>r. if r < 1 then panic ''fileclose'' else
     sq (file_upd f (\<lambda>F. F\<lparr>fref := fref F - 1\<rparr>))
     (bnd (gets (\<lambda>s. ftable s f)) (\<lambda>ff. if fref ff > 0 then ret () else
      sq (file_upd f (\<lambda>F. F\<lparr>fref := 0, ftyp := FD_NONE\<rparr>))
      (file_release ff))))"

definition filestat :: "nat \<Rightarrow> nat \<Rightarrow> ('z, int) sprog" where
  "filestat f addr = bnd (gets (\<lambda>s. ftable s f)) (\<lambda>F.
     if ftyp F = FD_INODE \<or> ftyp F = FD_DEVICE then
       sq (ilock (fip F))
       (bnd (stati (fip F)) (\<lambda>st.
        sq (iunlock (fip F))
        (bnd (curproc ppagetable) (\<lambda>pt.
         bnd (copyout pt addr st) (\<lambda>r. if r < 0 then ret (- 1) else ret 0)))))
     else ret (- 1))"

definition u32 :: "int \<Rightarrow> nat" where
  "u32 n = nat (n mod 2 ^ 32)"

definition major_ok :: "16 word \<Rightarrow> bool" where
  "major_ok m \<longleftrightarrow> 0 \<le> sint m \<and> sint m < int NDEV"

text \<open>\<open>i\<close> is the number of bytes that an earlier run of the same call has read before it had to wait.\<close>

definition fileread :: "nat \<Rightarrow> nat \<Rightarrow> int \<Rightarrow> nat \<Rightarrow> ('z, seg) sprog" where
  "fileread f addr n i = bnd (gets (\<lambda>s. ftable s f)) (\<lambda>F.
     if \<not> freadable F then ret (Returns (- 1))
     else bnd (curproc (\<lambda>p. (ppagetable p, pkilled p))) (\<lambda>(pt, k).
       case ftyp F of
         FD_PIPE \<Rightarrow> bnd (piperead pt k (fpipe F) addr n) (sleep_if (WPipe (NRead (fpipe F))))
       | FD_DEVICE \<Rightarrow> bnd (gets devsw) (\<lambda>sw.
           if \<not> major_ok (fmajor F) \<or> sw (nat (sint (fmajor F))) = NoDriver then ret (Returns (- 1))
           else bnd (consoleread pt (\<lambda>_. k) True addr n i) (sleep_if (WObj ''cons.r'')))
       | FD_INODE \<Rightarrow>
           sq (ilock (fip F))
           (bnd (readi (fip F) (ToUser addr) (foff F) (u32 n)) (\<lambda>(r, bs).
            sq (if r > 0 then file_upd f (\<lambda>F. F\<lparr>foff := (foff F + nat r) mod 2 ^ 32\<rparr>) else ret ())
            (sq (iunlock (fip F)) (ret (Returns r)))))
       | FD_NONE \<Rightarrow> panic ''fileread''))"

definition write_max :: int where
  "write_max = int ((MAXOPBLOCKS - 1 - 1 - 2) div 2 * BSIZE)"

lemma write_max_pos: "0 < write_max"
  by (simp add: write_max_def MAXOPBLOCKS_def BSIZE_def)

text \<open>The loop of \<^verbatim>\<open>filewrite\<close>: one transaction for each piece. The result is how far it got.\<close>

function filewrite_loop :: "nat \<Rightarrow> nat \<Rightarrow> nat \<Rightarrow> int \<Rightarrow> int \<Rightarrow> ('z, int) sprog" where
  "filewrite_loop f ip addr n i = (if i < n then
     let n1 = min (n - i) write_max in
     sq begin_op
     (sq (ilock ip)
     (bnd (fil f foff) (\<lambda>off.
      bnd (writei ip (FromUser (addr + nat i)) off (nat n1)) (\<lambda>r.
      sq (if r > 0 then file_upd f (\<lambda>F. F\<lparr>foff := (foff F + nat r) mod 2 ^ 32\<rparr>) else ret ())
      (sq (iunlock ip)
      (sq end_op
      (if r \<noteq> n1 then ret i else filewrite_loop f ip addr n (i + n1))))))))
     else ret i)"
  by auto

termination filewrite_loop
  by (relation "measure (\<lambda>(f, ip, addr, n, i). nat (n - i))") (use write_max_pos in auto)

declare filewrite_loop.simps [simp del]

definition filewrite :: "nat \<Rightarrow> nat \<Rightarrow> int \<Rightarrow> nat \<Rightarrow> ('z, seg) sprog" where
  "filewrite f addr n i = bnd (gets (\<lambda>s. ftable s f)) (\<lambda>F.
     if \<not> fwritable F then ret (Returns (- 1))
     else bnd (curproc (\<lambda>p. (ppagetable p, pkilled p))) (\<lambda>(pt, k).
       case ftyp F of
         FD_PIPE \<Rightarrow> bnd (pipewrite pt (\<lambda>_. k) (fpipe F) addr n i) (sleep_if (WPipe (NWrite (fpipe F))))
       | FD_DEVICE \<Rightarrow> bnd (gets devsw) (\<lambda>sw.
           if \<not> major_ok (fmajor F) \<or> sw (nat (sint (fmajor F))) = NoDriver then ret (Returns (- 1))
           else bnd (consolewrite pt True addr n) (\<lambda>r. ret (Returns r)))
       | FD_INODE \<Rightarrow> bnd (filewrite_loop f (fip F) addr n 0) (\<lambda>i. ret (Returns (if i = n then n else - 1)))
       | FD_NONE \<Rightarrow> panic ''filewrite''))"

section \<open>Pipes\<close>

definition pipe_file :: "bool \<Rightarrow> nat \<Rightarrow> kfile \<Rightarrow> kfile" where
  "pipe_file wr pi F = F\<lparr>ftyp := FD_PIPE, freadable := \<not> wr, fwritable := wr, fpipe := pi\<rparr>"

definition pipealloc :: "('z, (nat \<times> nat) option) sprog" where
  "pipealloc = bnd filealloc (\<lambda>f0. case f0 of None \<Rightarrow> ret None | Some f0 \<Rightarrow>
     bnd filealloc (\<lambda>f1. case f1 of None \<Rightarrow> sq (fileclose f0) (ret None) | Some f1 \<Rightarrow>
     bnd kalloc (\<lambda>pi. if pi = 0 then sq (fileclose f0) (sq (fileclose f1) (ret None)) else
     sq (upd (pipe_upd pi new_pipe))
     (sq (file_upd f0 (pipe_file False pi))
     (sq (file_upd f1 (pipe_file True pi))
     (ret (Some (f0, f1))))))))"

definition consoleinit :: "('z, unit) sprog" where
  "consoleinit = upd (\<lambda>s. s\<lparr>devsw := (devsw s)(CONSOLE := ConsoleDriver)\<rparr>)"

end
