(* ===== verification/Proc.thy ===== *)
theory Proc
  imports File
begin

text \<open>
  Processes, \<^verbatim>\<open>kernel/proc.c\<close>. Every function is run by the current process (\<open>curp\<close>) or, for the
  scheduler, by a processor without one. The locks of the table make each function atomic here;
  a process that goes to sleep is marked so, with its channel, and its function returns
  \<open>Asleep\<close> and is run again once it has been woken up and scheduled. The code at \<^verbatim>\<open>forkret\<close> is the
  symbolic return address of a new process.
\<close>

section \<open>Trapframes\<close>

definition TF_epc :: nat where "TF_epc = 24"
definition TF_sp :: nat where "TF_sp = 48"
definition TF_a0 :: nat where "TF_a0 = 112"
definition TF_a1 :: nat where "TF_a1 = 120"
definition TF_a7 :: nat where "TF_a7 = 168"
definition TF_SIZE :: nat where "TF_SIZE = 288"

definition tf_get :: "nat \<Rightarrow> nat \<Rightarrow> ('z, 64 word) sprog" where
  "tf_get p off = gets (\<lambda>s. load64 (pm s) (ptrapframe (ptable s p) + off))"

definition tf_put :: "nat \<Rightarrow> nat \<Rightarrow> 64 word \<Rightarrow> ('z, unit) sprog" where
  "tf_put p off v = bnd (gets (\<lambda>s. ptrapframe (ptable s p))) (\<lambda>tf. mem_upd (\<lambda>m. store64 m (tf + off) v))"

definition safestr :: "byte list \<Rightarrow> nat \<Rightarrow> byte list" where
  "safestr t n = take (n - 1) (takeWhile (\<lambda>c. c \<noteq> 0) t)"

section \<open>The table\<close>

primrec procinit_loop :: "nat \<Rightarrow> ('z, unit) sprog" where
  "procinit_loop 0 = ret ()"
| "procinit_loop (Suc p) = sq (procinit_loop p) (proc_upd p (\<lambda>P. P\<lparr>pstate := UNUSED, pkstack := KSTACK p\<rparr>))"

definition procinit :: "('z, unit) sprog" where
  "procinit = procinit_loop NPROC"

text \<open>\<^verbatim>\<open>nextpid\<close> is an \<^verbatim>\<open>int\<close>; incrementing its largest value is undefined.\<close>

definition INT_MAX :: int where
  "INT_MAX = 2 ^ 31 - 1"

definition allocpid :: "('z, int) sprog" where
  "allocpid = bnd (gets nextpid) (\<lambda>pid. if pid = INT_MAX then fail (Undef ''nextpid'') else sq (upd (\<lambda>s. s\<lparr>nextpid := nextpid s + 1\<rparr>)) (ret pid))"

definition proc_pagetable :: "nat \<Rightarrow> ('z, nat) sprog" where
  "proc_pagetable p = bnd (gets (\<lambda>s. (tramp s, ptrapframe (ptable s p)))) (\<lambda>(trampoline, tf).
     bnd uvmcreate (\<lambda>pagetable. if pagetable = 0 then ret 0 else
     bnd (mappages pagetable TRAMPOLINE PGSIZE trampoline (PTE_R OR PTE_X)) (\<lambda>r.
     if r < 0 then sq (uvmfree pagetable 0) (ret 0) else
     bnd (mappages pagetable TRAPFRAME PGSIZE tf (PTE_R OR PTE_W)) (\<lambda>r.
     if r < 0 then sq (uvmunmap pagetable TRAMPOLINE 1 False) (sq (uvmfree pagetable 0) (ret 0)) else
     ret pagetable))))"

definition proc_freepagetable :: "nat \<Rightarrow> nat \<Rightarrow> ('z, unit) kprog" where
  "proc_freepagetable pagetable sz =
     sq (uvmunmap pagetable TRAMPOLINE 1 False) (sq (uvmunmap pagetable TRAPFRAME 1 False) (uvmfree pagetable sz))"

definition freeproc :: "nat \<Rightarrow> ('z, unit) sprog" where
  "freeproc p = bnd (gets (\<lambda>s. ptable s p)) (\<lambda>P.
     sq (if ptrapframe P \<noteq> 0 then kfree (ptrapframe P) else ret ())
     (sq (if ppagetable P \<noteq> 0 then proc_freepagetable (ppagetable P) (psz P) else ret ())
     (proc_upd p (\<lambda>P. P\<lparr>ptrapframe := 0, ppagetable := 0, psz := 0, ppid := 0, pparent := None, pname := [], pchan := None,
        pkilled := False, pxstate := 0, pstate := UNUSED\<rparr>))))"

text \<open>\<^verbatim>\<open>allocproc\<close> from its label \<^verbatim>\<open>found\<close> on.\<close>

definition allocproc_found :: "nat \<Rightarrow> ('z, nat option) sprog" where
  "allocproc_found p = bnd allocpid (\<lambda>pid.
     sq (proc_upd p (\<lambda>P. P\<lparr>ppid := pid, pstate := USED\<rparr>))
     (bnd kalloc (\<lambda>tf.
     sq (proc_upd p (\<lambda>P. P\<lparr>ptrapframe := tf\<rparr>))
     (if tf = 0 then sq (freeproc p) (ret None) else
     bnd (proc_pagetable p) (\<lambda>pt.
     sq (proc_upd p (\<lambda>P. P\<lparr>ppagetable := pt\<rparr>))
     (if pt = 0 then sq (freeproc p) (ret None) else
     sq (proc_upd p (\<lambda>P. P\<lparr>pcontext := \<lparr>ctx_ra = ''forkret'', ctx_sp = pkstack P + PGSIZE\<rparr>\<rparr>))
     (ret (Some p))))))))"

definition allocproc :: "('z, nat option) sprog" where
  "allocproc = bnd (gets ptable) (\<lambda>tab. case List.find (\<lambda>p. pstate (tab p) = UNUSED) [0..<NPROC] of
     None \<Rightarrow> ret None
   | Some p \<Rightarrow> allocproc_found p)"

definition initcode :: "byte list" where
  "initcode = [0x17, 0x05, 0x00, 0x00, 0x13, 0x05, 0x45, 0x02,
     0x97, 0x05, 0x00, 0x00, 0x93, 0x85, 0x35, 0x02,
     0x93, 0x08, 0x70, 0x00, 0x73, 0x00, 0x00, 0x00,
     0x93, 0x08, 0x20, 0x00, 0x73, 0x00, 0x00, 0x00,
     0xef, 0xf0, 0x9f, 0xff, 0x2f, 0x69, 0x6e, 0x69,
     0x74, 0x00, 0x00, 0x24, 0x00, 0x00, 0x00, 0x00,
     0x00, 0x00, 0x00, 0x00]"

definition userinit :: "('z, unit) sprog" where
  "userinit = bnd allocproc (\<lambda>r. sq (upd (\<lambda>s. s\<lparr>initproc := r\<rparr>))
     (case r of None \<Rightarrow> fail (Undef ''initproc'') | Some p \<Rightarrow>
      sq (bnd (gets (\<lambda>s. ppagetable (ptable s p))) (\<lambda>pt. uvmfirst pt initcode))
      (sq (proc_upd p (\<lambda>P. P\<lparr>psz := PGSIZE\<rparr>))
      (sq (tf_put p TF_epc 0)
      (sq (tf_put p TF_sp (of_nat PGSIZE))
      (sq (proc_upd p (\<lambda>P. P\<lparr>pname := safestr (chars ''initcode'') 16\<rparr>))
      (bnd (namei (chars ''/'')) (\<lambda>cwd.
      proc_upd p (\<lambda>P. P\<lparr>pcwd := cwd, pstate := RUNNABLE\<rparr>)))))))))"

definition growproc :: "int \<Rightarrow> ('z, int) sprog" where
  "growproc n = bnd myproc (\<lambda>p. bnd (curproc (\<lambda>P. (ppagetable P, psz P))) (\<lambda>(pt, sz).
     bnd (if n > 0 then bnd (uvmalloc pt sz (w64 (sz + nat n)) PTE_W) (\<lambda>sz1. ret (if sz1 = 0 then None else Some sz1))
          else if n < 0 then bnd (uvmdealloc pt sz (nat ((int sz + n) mod 2 ^ 64))) (\<lambda>sz1. ret (Some sz1))
          else ret (Some sz)) (\<lambda>r.
     case r of None \<Rightarrow> ret (- 1) | Some sz1 \<Rightarrow> sq (proc_upd p (\<lambda>P. P\<lparr>psz := sz1\<rparr>)) (ret 0))))"

section \<open>Waking up\<close>

primrec wakeup_loop :: "wchan \<Rightarrow> nat \<Rightarrow> ('z, unit) sprog" where
  "wakeup_loop ch 0 = ret ()"
| "wakeup_loop ch (Suc p) = sq (wakeup_loop ch p) (bnd myproc (\<lambda>me.
     if p = me then ret () else
     bnd (gets (\<lambda>s. ptable s p)) (\<lambda>P.
     if pstate P = SLEEPING \<and> pchan P = Some ch then proc_upd p (\<lambda>P. P\<lparr>pstate := RUNNABLE\<rparr>) else ret ())))"

definition wakeup :: "wchan \<Rightarrow> ('z, unit) sprog" where
  "wakeup ch = wakeup_loop ch NPROC"

definition yield :: "('z, unit) sprog" where
  "yield = bnd myproc (\<lambda>p. proc_upd p (\<lambda>P. P\<lparr>pstate := RUNNABLE\<rparr>))"

definition kill :: "int \<Rightarrow> ('z, int) sprog" where
  "kill pid = bnd (gets ptable) (\<lambda>tab. case List.find (\<lambda>p. ppid (tab p) = pid) [0..<NPROC] of
     None \<Rightarrow> ret (- 1)
   | Some p \<Rightarrow> sq (proc_upd p (\<lambda>P. P\<lparr>pkilled := True, pstate := (if pstate P = SLEEPING then RUNNABLE else pstate P)\<rparr>)) (ret 0))"

definition setkilled :: "nat \<Rightarrow> ('z, unit) sprog" where
  "setkilled p = proc_upd p (\<lambda>P. P\<lparr>pkilled := True\<rparr>)"

definition killed :: "nat \<Rightarrow> ('z, bool) sprog" where
  "killed p = gets (\<lambda>s. pkilled (ptable s p))"

section \<open>Fork, exit and wait\<close>

primrec fork_files :: "nat \<Rightarrow> nat \<Rightarrow> nat \<Rightarrow> ('z, unit) sprog" where
  "fork_files p np 0 = ret ()"
| "fork_files p np (Suc i) = sq (fork_files p np i) (bnd (gets (\<lambda>s. pofile (ptable s p) i)) (\<lambda>f. case f of
     None \<Rightarrow> ret ()
   | Some f \<Rightarrow> bnd (filedup f) (\<lambda>f. proc_upd np (\<lambda>P. P\<lparr>pofile := (pofile P)(i := Some f)\<rparr>))))"

text \<open>\<^verbatim>\<open>fork\<close> of process \<open>p\<close> once the entry \<open>np\<close> has been allocated.\<close>

definition fork_into :: "nat \<Rightarrow> nat \<Rightarrow> ('z, int) sprog" where
  "fork_into p np = bnd (gets (\<lambda>s. (ptable s p, ptable s np))) (\<lambda>(P, NP).
     bnd (uvmcopy (ppagetable P) (ppagetable NP) (psz P)) (\<lambda>c.
     if c < 0 then sq (freeproc np) (ret (- 1)) else
     sq (proc_upd np (\<lambda>Q. Q\<lparr>psz := psz P\<rparr>))
     (sq (mem_upd (\<lambda>m. store_bytes m (ptrapframe NP) (load_bytes m (ptrapframe P) TF_SIZE)))
     (sq (tf_put np TF_a0 0)
     (sq (fork_files p np NOFILE)
     (bnd (case pcwd P of None \<Rightarrow> fail (Undef ''cwd'') | Some c \<Rightarrow> idup c) (\<lambda>cwd.
     sq (proc_upd np (\<lambda>Q. Q\<lparr>pcwd := Some cwd, pname := safestr (pname P) 16\<rparr>))
     (sq (proc_upd np (\<lambda>Q. Q\<lparr>pparent := Some p\<rparr>))
     (sq (proc_upd np (\<lambda>Q. Q\<lparr>pstate := RUNNABLE\<rparr>))
     (ret (ppid NP)))))))))))"

definition fork :: "('z, int) sprog" where
  "fork = bnd myproc (\<lambda>p. bnd allocproc (\<lambda>r. case r of None \<Rightarrow> ret (- 1) | Some np \<Rightarrow> fork_into p np))"

definition wakeup_init :: "('z, unit) sprog" where
  "wakeup_init = bnd (gets initproc) (\<lambda>ip. case ip of None \<Rightarrow> ret () | Some i \<Rightarrow> wakeup (WProc i))"

primrec reparent_loop :: "nat \<Rightarrow> nat \<Rightarrow> ('z, unit) sprog" where
  "reparent_loop p 0 = ret ()"
| "reparent_loop p (Suc pp) = sq (reparent_loop p pp) (bnd (gets (\<lambda>s. (pparent (ptable s pp), initproc s))) (\<lambda>(par, ip).
     if par = Some p then sq (proc_upd pp (\<lambda>P. P\<lparr>pparent := ip\<rparr>)) wakeup_init else ret ()))"

definition reparent :: "nat \<Rightarrow> ('z, unit) sprog" where
  "reparent p = reparent_loop p NPROC"

primrec close_files :: "nat \<Rightarrow> nat \<Rightarrow> ('z, unit) sprog" where
  "close_files p 0 = ret ()"
| "close_files p (Suc fd) = sq (close_files p fd) (bnd (gets (\<lambda>s. pofile (ptable s p) fd)) (\<lambda>f. case f of
     None \<Rightarrow> ret ()
   | Some f \<Rightarrow> sq (fileclose f) (proc_upd p (\<lambda>P. P\<lparr>pofile := (pofile P)(fd := None)\<rparr>))))"

definition kexit :: "32 word \<Rightarrow> ('z, unit) sprog" where
  "kexit status = bnd myproc (\<lambda>p. bnd (gets initproc) (\<lambda>ip. if ip = Some p then panic ''init exiting'' else
     sq (close_files p NOFILE)
     (sq begin_op
     (sq (bnd (curproc pcwd) (\<lambda>c. case c of None \<Rightarrow> fail (Undef ''cwd'') | Some cwd \<Rightarrow> iput cwd))
     (sq end_op
     (sq (proc_upd p (\<lambda>P. P\<lparr>pcwd := None\<rparr>))
     (sq (reparent p)
     (sq (bnd (curproc pparent) (\<lambda>par. case par of None \<Rightarrow> ret () | Some q \<Rightarrow> wakeup (WProc q)))
     (proc_upd p (\<lambda>P. P\<lparr>pxstate := status, pstate := ZOMBIE\<rparr>))))))))))"

text \<open>The scan of \<^verbatim>\<open>wait\<close>: the first exited child, or whether there are children at all.\<close>

datatype waited = Child nat | Kids bool

primrec wait_scan :: "(nat \<Rightarrow> proc) \<Rightarrow> nat \<Rightarrow> nat \<Rightarrow> waited" where
  "wait_scan tab p 0 = Kids False"
| "wait_scan tab p (Suc pp) = (case wait_scan tab p pp of
     Child c \<Rightarrow> Child c
   | Kids h \<Rightarrow> if pparent (tab pp) = Some p then (if pstate (tab pp) = ZOMBIE then Child pp else Kids True) else Kids h)"

definition le32 :: "32 word \<Rightarrow> byte list" where
  "le32 w = load_bytes (store32 (\<lambda>_. 0) 0 w) 0 4"

definition wait :: "nat \<Rightarrow> ('z, seg) sprog" where
  "wait addr = bnd myproc (\<lambda>p. bnd (gets ptable) (\<lambda>tab. case wait_scan tab p NPROC of
     Child pp \<Rightarrow>
       bnd (if addr \<noteq> 0 then copyout (ppagetable (tab p)) addr (le32 (pxstate (tab pp))) else ret 0) (\<lambda>r.
       if r < 0 then ret (Returns (- 1)) else
       sq (freeproc pp) (ret (Returns (ppid (tab pp)))))
   | Kids h \<Rightarrow>
       if \<not> h \<or> pkilled (tab p) then ret (Returns (- 1))
       else sq (sleep (WProc p)) (ret (Asleep 0))))"

section \<open>The scheduler\<close>

text \<open>
  The body of the loop of \<^verbatim>\<open>scheduler\<close> for one entry: whether it switches to the process, which then
  runs until it gives the processor back.
\<close>

definition schedule :: "nat \<Rightarrow> ('z, bool) sprog" where
  "schedule p = bnd (gets (\<lambda>s. ptable s p)) (\<lambda>P.
     if pstate P = RUNNABLE
     then sq (proc_upd p (\<lambda>P. P\<lparr>pstate := RUNNING\<rparr>)) (sq (upd (\<lambda>s. s\<lparr>curp := p, mypid := ppid P\<rparr>)) (ret True))
     else ret False)"

text \<open>When the process has given the processor back.\<close>

definition unschedule :: "('z, unit) sprog" where
  "unschedule = upd (\<lambda>s. s\<lparr>curp := NPROC\<rparr>)"

section \<open>The listing\<close>

definition state_name :: "procstate \<Rightarrow> string" where
  "state_name st = (case st of UNUSED \<Rightarrow> ''unused'' | USED \<Rightarrow> ''used'' | SLEEPING \<Rightarrow> ''sleep '' | RUNNABLE \<Rightarrow> ''runble''
     | RUNNING \<Rightarrow> ''run   '' | ZOMBIE \<Rightarrow> ''zombie'')"

primrec procdump_loop :: "nat \<Rightarrow> ('z, unit) sprog" where
  "procdump_loop 0 = ret ()"
| "procdump_loop (Suc p) = sq (procdump_loop p) (bnd (gets (\<lambda>s. ptable s p)) (\<lambda>P. if pstate P = UNUSED then ret () else
     sq (console_printf (Some (chars ''%d %s %s'')) [AInt (word_of_int (ppid P)), AStr (Some (chars (state_name (pstate P)))), AStr (Some (pname P))])
     (console_printf (Some [10]) [])))"

definition procdump :: "('z, unit) sprog" where
  "procdump = sq (console_printf (Some [10]) []) (procdump_loop NPROC)"

end
