(* ===== verification/Exec.thy ===== *)
theory Exec
  imports Proc
begin

text \<open>
  System-call arguments, \<^verbatim>\<open>kernel/syscall.c\<close>, and the replacement of a process's program,
  \<^verbatim>\<open>kernel/exec.c\<close>. The headers of an executable are read as bytes and taken apart at the offsets
  of \<^verbatim>\<open>kernel/elf.h\<close>.
\<close>

section \<open>Arguments\<close>

definition fetchaddr :: "nat \<Rightarrow> ('z, nat option) sprog" where
  "fetchaddr addr = bnd (curproc (\<lambda>P. (psz P, ppagetable P))) (\<lambda>(sz, pt).
     if addr \<ge> sz \<or> w64 (addr + 8) > sz then ret None else
     bnd (copyin pt addr 8) (\<lambda>(r, bs). if r \<noteq> 0 then ret None else ret (Some (unat (load64 (store_bytes (\<lambda>_. 0) 0 bs) 0)))))"

definition fetchstr :: "nat \<Rightarrow> nat \<Rightarrow> ('z, byte list option) sprog" where
  "fetchstr addr mx = bnd (curproc ppagetable) (\<lambda>pt. bnd (copyinstr pt addr mx) (\<lambda>(r, bs).
     if r < 0 then ret None else ret (Some (takeWhile (\<lambda>c. c \<noteq> 0) bs))))"

definition argraw :: "nat \<Rightarrow> ('z, 64 word) sprog" where
  "argraw n = (if n < 6 then bnd myproc (\<lambda>p. tf_get p (TF_a0 + 8 * n)) else panic ''argraw'')"

definition argint :: "nat \<Rightarrow> ('z, int) sprog" where
  "argint n = bnd (argraw n) (\<lambda>v. ret (sint (ucast v :: 32 word)))"

definition argaddr :: "nat \<Rightarrow> ('z, nat) sprog" where
  "argaddr n = bnd (argraw n) (\<lambda>v. ret (unat v))"

definition argstr :: "nat \<Rightarrow> nat \<Rightarrow> ('z, byte list option) sprog" where
  "argstr n mx = bnd (argaddr n) (\<lambda>a. fetchstr a mx)"

section \<open>Executables\<close>

definition ELF_MAGIC :: "32 word" where "ELF_MAGIC = 0x464C457F"
definition ELF_PROG_LOAD :: "32 word" where "ELF_PROG_LOAD = 1"

record elfhdr =
  elf_magic :: "32 word"
  elf_entry :: "64 word"
  elf_phoff :: "64 word"
  elf_phnum :: nat

record proghdr =
  ph_type :: "32 word"
  ph_flags :: "32 word"
  ph_off :: nat
  ph_vaddr :: nat
  ph_filesz :: nat
  ph_memsz :: nat

definition ELFHDR_SIZE :: nat where "ELFHDR_SIZE = 64"
definition PROGHDR_SIZE :: nat where "PROGHDR_SIZE = 56"

definition get_elfhdr :: "byte list \<Rightarrow> elfhdr" where
  "get_elfhdr bs = (let m = store_bytes (\<lambda>_. 0) 0 bs in
     \<lparr>elf_magic = load32 m 0, elf_entry = load64 m 24, elf_phoff = load64 m 32, elf_phnum = unat (load16 m 56)\<rparr>)"

definition get_proghdr :: "byte list \<Rightarrow> proghdr" where
  "get_proghdr bs = (let m = store_bytes (\<lambda>_. 0) 0 bs in
     \<lparr>ph_type = load32 m 0, ph_flags = load32 m 4, ph_off = unat (load64 m 8), ph_vaddr = unat (load64 m 16),
      ph_filesz = unat (load64 m 32), ph_memsz = unat (load64 m 40)\<rparr>)"

definition flags2perm :: "32 word \<Rightarrow> pte" where
  "flags2perm flags = (let perm = (if flags AND 1 \<noteq> 0 then PTE_X else 0) in
     if flags AND 2 \<noteq> 0 then perm OR PTE_W else perm)"

text \<open>\<^verbatim>\<open>loadseg\<close>; the count is the number of pages from \<open>i\<close> up to \<open>sz\<close>.\<close>

primrec loadseg_loop :: "nat \<Rightarrow> nat \<Rightarrow> nat \<Rightarrow> nat \<Rightarrow> nat \<Rightarrow> nat \<Rightarrow> nat \<Rightarrow> ('z, int) sprog" where
  "loadseg_loop pagetable va ip offset sz 0 i = ret 0"
| "loadseg_loop pagetable va ip offset sz (Suc k) i =
     bnd (walkaddr pagetable (va + i)) (\<lambda>pa. if pa = 0 then panic ''loadseg: address should exist'' else
     let n = (if sz - i < PGSIZE then sz - i else PGSIZE) in
     bnd (readi ip (ToKernel pa) ((offset + i) mod 2 ^ 32) n) (\<lambda>(r, bs).
     if r \<noteq> int n then ret (- 1) else loadseg_loop pagetable va ip offset sz k (i + PGSIZE)))"

definition loadseg :: "nat \<Rightarrow> nat \<Rightarrow> nat \<Rightarrow> nat \<Rightarrow> nat \<Rightarrow> ('z, int) sprog" where
  "loadseg pagetable va ip offset sz = loadseg_loop pagetable va ip offset sz ((sz + (PGSIZE - 1)) div PGSIZE) 0"

text \<open>The loop over the program headers: whether all went well, and the size of memory at the end.\<close>

primrec load_segments :: "nat \<Rightarrow> nat \<Rightarrow> nat \<Rightarrow> nat \<Rightarrow> nat \<Rightarrow> ('z, bool \<times> nat) sprog" where
  "load_segments pagetable ip 0 off sz = ret (True, sz)"
| "load_segments pagetable ip (Suc k) off sz =
     bnd (readi ip ToVar off PROGHDR_SIZE) (\<lambda>(r, bs).
     if r \<noteq> int PROGHDR_SIZE then ret (False, sz) else
     let ph = get_proghdr bs; next = load_segments pagetable ip k ((off + PROGHDR_SIZE) mod 2 ^ 32) in
     if ph_type ph \<noteq> ELF_PROG_LOAD then next sz
     else if ph_memsz ph < ph_filesz ph then ret (False, sz)
     else if w64 (ph_vaddr ph + ph_memsz ph) < ph_vaddr ph then ret (False, sz)
     else if ph_vaddr ph mod PGSIZE \<noteq> 0 then ret (False, sz)
     else bnd (uvmalloc pagetable sz (w64 (ph_vaddr ph + ph_memsz ph)) (flags2perm (ph_flags ph))) (\<lambda>sz1.
       if sz1 = 0 then ret (False, sz) else
       bnd (loadseg pagetable (ph_vaddr ph) ip (ph_off ph mod 2 ^ 32) (ph_filesz ph mod 2 ^ 32)) (\<lambda>r.
       if r < 0 then ret (False, sz1) else next sz1)))"

text \<open>The part of \<^verbatim>\<open>exec\<close> that reads the file: success, the page table if any, the size and the entry point.\<close>

definition exec_load :: "nat \<Rightarrow> ('z, bool \<times> nat \<times> nat \<times> 64 word) sprog" where
  "exec_load ip = bnd myproc (\<lambda>p.
     bnd (readi ip ToVar 0 ELFHDR_SIZE) (\<lambda>(r, bs).
     if r \<noteq> int ELFHDR_SIZE then ret (False, 0, 0, 0) else
     let elf = get_elfhdr bs in
     if elf_magic elf \<noteq> ELF_MAGIC then ret (False, 0, 0, 0) else
     bnd (proc_pagetable p) (\<lambda>pagetable. if pagetable = 0 then ret (False, 0, 0, 0) else
     bnd (load_segments pagetable ip (elf_phnum elf) (unat (elf_phoff elf) mod 2 ^ 32) 0) (\<lambda>(ok, sz).
     ret (ok, pagetable, sz, elf_entry elf)))))"

text \<open>The argument strings on the user stack: the stack pointer and the addresses of the strings.\<close>

primrec push_args :: "nat \<Rightarrow> nat \<Rightarrow> byte list list \<Rightarrow> nat \<Rightarrow> nat list \<Rightarrow> ('z, (nat \<times> nat list) option) sprog" where
  "push_args pagetable stackbase [] sp ustack = ret (Some (sp, ustack))"
| "push_args pagetable stackbase (a # argv) sp ustack =
     (if length ustack \<ge> MAXARG then ret None else
      let sp1 = sub64 sp (length a + 1); sp2 = sp1 - sp1 mod 16 in
      if sp2 < stackbase then ret None else
      bnd (copyout pagetable sp2 (a @ [0])) (\<lambda>r. if r < 0 then ret None else
      push_args pagetable stackbase argv sp2 (ustack @ [sp2])))"

definition le64 :: "nat \<Rightarrow> byte list" where
  "le64 n = load_bytes (store64 (\<lambda>_. 0) 0 (of_nat n)) 0 8"

text \<open>The user stack: the size of memory, and the stack pointer and argument count unless it fails.\<close>

definition exec_stack :: "nat \<Rightarrow> nat \<Rightarrow> byte list list \<Rightarrow> ('z, nat \<times> (nat \<times> nat) option) sprog" where
  "exec_stack pagetable sz0 argv = (let sz = PGROUNDUP sz0 in
     bnd (uvmalloc pagetable sz (w64 (sz + 2 * PGSIZE)) PTE_W) (\<lambda>sz1.
     if sz1 = 0 then ret (sz, None) else
     sq (uvmclear pagetable (sub64 sz1 (2 * PGSIZE)))
     (let stackbase = sub64 sz1 PGSIZE in
     bnd (push_args pagetable stackbase argv sz1 []) (\<lambda>r. case r of None \<Rightarrow> ret (sz1, None) | Some (sp, ustack) \<Rightarrow>
     if length ustack \<ge> MAXARG then fail (Undef ''ustack'') else
     let argc = length ustack; sp1 = sub64 sp ((argc + 1) * 8); sp2 = sp1 - sp1 mod 16 in
     if sp2 < stackbase then ret (sz1, None) else
     bnd (copyout pagetable sp2 (concat (map le64 (ustack @ [0])))) (\<lambda>r.
     if r < 0 then ret (sz1, None) else ret (sz1, Some (sp2, argc)))))))"

definition last_elem :: "byte list \<Rightarrow> byte list" where
  "last_elem path = rev (takeWhile (\<lambda>c. c \<noteq> 47) (rev path))"

definition exec_bad :: "nat \<Rightarrow> nat \<Rightarrow> ('z, unit) sprog" where
  "exec_bad pagetable sz = (if pagetable \<noteq> 0 then proc_freepagetable pagetable sz else ret ())"

definition exec :: "byte list \<Rightarrow> byte list list \<Rightarrow> ('z, int) sprog" where
  "exec path argv = bnd myproc (\<lambda>p.
     sq begin_op
     (bnd (namei path) (\<lambda>r. case r of None \<Rightarrow> sq end_op (ret (- 1)) | Some ip \<Rightarrow>
     sq (ilock ip)
     (bnd (exec_load ip) (\<lambda>(ok, pagetable, sz, entry).
     if \<not> ok then sq (exec_bad pagetable sz) (sq (iunlockput ip) (sq end_op (ret (- 1)))) else
     sq (iunlockput ip)
     (sq end_op
     (bnd (exec_stack pagetable sz argv) (\<lambda>(sz, r). case r of
       None \<Rightarrow> sq (exec_bad pagetable sz) (ret (- 1))
     | Some (sp, argc) \<Rightarrow>
       sq (tf_put p TF_a1 (of_nat sp))
       (sq (proc_upd p (\<lambda>P. P\<lparr>pname := safestr (last_elem path) 16\<rparr>))
       (bnd (curproc (\<lambda>P. (ppagetable P, psz P))) (\<lambda>(oldpagetable, oldsz).
       sq (proc_upd p (\<lambda>P. P\<lparr>ppagetable := pagetable, psz := sz\<rparr>))
       (sq (tf_put p TF_epc entry)
       (sq (tf_put p TF_sp (of_nat sp))
       (sq (proc_freepagetable oldpagetable oldsz)
       (ret (int argc))))))))))))))))"

end
