(* ===== verification/Sysfile.thy ===== *)
theory Sysfile
  imports Exec
begin

text \<open>
  The system calls, \<^verbatim>\<open>kernel/sysfile.c\<close> and \<^verbatim>\<open>kernel/sysproc.c\<close>, and their dispatch, \<^verbatim>\<open>syscall\<close> of
  \<^verbatim>\<open>kernel/syscall.c\<close>. A call yields its value, or waits with what it has to remember, or the
  process is gone.
\<close>

datatype outcome = Value int | Waits nat | Gone

definition result :: "seg \<Rightarrow> outcome" where
  "result r = (case r of Returns v \<Rightarrow> Value v | Asleep i \<Rightarrow> Waits i)"

definition value_of :: "int \<Rightarrow> ('z, outcome) sprog" where
  "value_of v = ret (Value v)"

section \<open>File descriptors\<close>

definition argfd :: "nat \<Rightarrow> ('z, (nat \<times> nat) option) sprog" where
  "argfd n = bnd (argint n) (\<lambda>fd. if fd < 0 \<or> fd \<ge> int NOFILE then ret None else
     bnd (curproc (\<lambda>P. pofile P (nat fd))) (\<lambda>f. ret (map_option (\<lambda>f. (nat fd, f)) f)))"

definition fdalloc :: "nat \<Rightarrow> ('z, nat option) sprog" where
  "fdalloc f = bnd myproc (\<lambda>p. bnd (curproc pofile) (\<lambda>ofile. case List.find (\<lambda>fd. ofile fd = None) [0..<NOFILE] of
     None \<Rightarrow> ret None
   | Some fd \<Rightarrow> sq (proc_upd p (\<lambda>P. P\<lparr>pofile := (pofile P)(fd := Some f)\<rparr>)) (ret (Some fd))))"

definition fd_clear :: "nat \<Rightarrow> ('z, unit) sprog" where
  "fd_clear fd = bnd myproc (\<lambda>p. proc_upd p (\<lambda>P. P\<lparr>pofile := (pofile P)(fd := None)\<rparr>))"

definition sys_dup :: "('z, outcome) sprog" where
  "sys_dup = bnd (argfd 0) (\<lambda>r. case r of None \<Rightarrow> value_of (- 1) | Some (_, f) \<Rightarrow>
     bnd (fdalloc f) (\<lambda>fd. case fd of None \<Rightarrow> value_of (- 1) | Some fd \<Rightarrow>
     bnd (filedup f) (\<lambda>_. value_of (int fd))))"

text \<open>\<open>i\<close> bytes were done when an earlier run of the call had to wait.\<close>

definition sys_read :: "nat \<Rightarrow> ('z, outcome) sprog" where
  "sys_read i = bnd (argaddr 1) (\<lambda>p. bnd (argint 2) (\<lambda>n. bnd (argfd 0) (\<lambda>r. case r of None \<Rightarrow> value_of (- 1) | Some (_, f) \<Rightarrow>
     bnd (fileread f p n i) (\<lambda>r. ret (result r)))))"

definition sys_write :: "nat \<Rightarrow> ('z, outcome) sprog" where
  "sys_write i = bnd (argaddr 1) (\<lambda>p. bnd (argint 2) (\<lambda>n. bnd (argfd 0) (\<lambda>r. case r of None \<Rightarrow> value_of (- 1) | Some (_, f) \<Rightarrow>
     bnd (filewrite f p n i) (\<lambda>r. ret (result r)))))"

definition sys_close :: "('z, outcome) sprog" where
  "sys_close = bnd (argfd 0) (\<lambda>r. case r of None \<Rightarrow> value_of (- 1) | Some (fd, f) \<Rightarrow>
     sq (fd_clear fd) (sq (fileclose f) (value_of 0)))"

definition sys_fstat :: "('z, outcome) sprog" where
  "sys_fstat = bnd (argaddr 1) (\<lambda>st. bnd (argfd 0) (\<lambda>r. case r of None \<Rightarrow> value_of (- 1) | Some (_, f) \<Rightarrow>
     bnd (filestat f st) value_of))"

section \<open>Names\<close>

definition end_with :: "int \<Rightarrow> ('z, outcome) sprog" where
  "end_with v = sq end_op (value_of v)"

definition add_link :: "nat \<Rightarrow> 16 word \<Rightarrow> ('z, unit) sprog" where
  "add_link ip k = sq (inode_upd ip (\<lambda>I. I\<lparr>inlink := inlink I + k\<rparr>)) (iupdate ip)"

definition sys_link :: "('z, outcome) sprog" where
  "sys_link = bnd (argstr 0 MAXPATH) (\<lambda>r. case r of None \<Rightarrow> value_of (- 1) | Some old \<Rightarrow>
     bnd (argstr 1 MAXPATH) (\<lambda>r. case r of None \<Rightarrow> value_of (- 1) | Some new \<Rightarrow>
     sq begin_op
     (bnd (namei old) (\<lambda>r. case r of None \<Rightarrow> end_with (- 1) | Some ip \<Rightarrow>
     sq (ilock ip)
     (bnd (ino ip itype) (\<lambda>t. if t = T_DIR then sq (iunlockput ip) (end_with (- 1)) else
     sq (add_link ip 1)
     (sq (iunlock ip)
     (let bad = sq (ilock ip) (sq (add_link ip (- 1)) (sq (iunlockput ip) (end_with (- 1)))) in
     bnd (nameiparent new) (\<lambda>r. case r of None \<Rightarrow> bad | Some (dp, name) \<Rightarrow>
     sq (ilock dp)
     (bnd (gets (\<lambda>s. (idev (itable s dp), idev (itable s ip), inum (itable s ip)))) (\<lambda>(ddev, dev, i).
     bnd (if ddev \<noteq> dev then ret (- 1) else dirlink dp name i) (\<lambda>r.
     if r < 0 then sq (iunlockput dp) bad else
     sq (iunlockput dp) (sq (iput ip) (end_with 0))))))))))))))"

function isdirempty_loop :: "nat \<Rightarrow> nat \<Rightarrow> nat \<Rightarrow> ('z, bool) sprog" where
  "isdirempty_loop dp sz off = (if off < sz then
     bnd (readi dp ToVar off DIRENT) (\<lambda>(r, de).
     if r \<noteq> int DIRENT then panic ''isdirempty: readi''
     else if de_inum de \<noteq> 0 then ret False
     else isdirempty_loop dp sz (off + DIRENT))
     else ret True)"
  by auto

termination isdirempty_loop
  by (relation "measure (\<lambda>(dp, sz, off). sz - off)") (auto simp: DIRENT_def)

declare isdirempty_loop.simps [simp del]

definition isdirempty :: "nat \<Rightarrow> ('z, bool) sprog" where
  "isdirempty dp = bnd (ino dp isize) (\<lambda>sz. isdirempty_loop dp sz (2 * DIRENT))"

definition sys_unlink :: "('z, outcome) sprog" where
  "sys_unlink = bnd (argstr 0 MAXPATH) (\<lambda>r. case r of None \<Rightarrow> value_of (- 1) | Some path \<Rightarrow>
     sq begin_op
     (bnd (nameiparent path) (\<lambda>r. case r of None \<Rightarrow> end_with (- 1) | Some (dp, name) \<Rightarrow>
     sq (ilock dp)
     (let bad = sq (iunlockput dp) (end_with (- 1)) in
     if namecmp name (chars ''.'') = 0 \<or> namecmp name (chars ''..'') = 0 then bad else
     bnd (dirlookup dp name) (\<lambda>r. case r of None \<Rightarrow> bad | Some (ip, off) \<Rightarrow>
     sq (ilock ip)
     (bnd (gets (\<lambda>s. itable s ip)) (\<lambda>I.
     if inlink I <s 1 then panic ''unlink: nlink < 1'' else
     bnd (if itype I = T_DIR then isdirempty ip else ret True) (\<lambda>e.
     if \<not> e then sq (iunlockput ip) bad else
     bnd (writei dp (FromVar (replicate DIRENT 0)) off DIRENT) (\<lambda>r.
     if r \<noteq> int DIRENT then panic ''unlink: writei'' else
     sq (if itype I = T_DIR then add_link dp (- 1) else ret ())
     (sq (iunlockput dp)
     (sq (add_link ip (- 1))
     (sq (iunlockput ip)
     (end_with 0)))))))))))))"

definition create_fail :: "nat \<Rightarrow> nat \<Rightarrow> ('z, nat option) sprog" where
  "create_fail ip dp = sq (inode_upd ip (\<lambda>I. I\<lparr>inlink := 0\<rparr>)) (sq (iupdate ip) (sq (iunlockput ip) (sq (iunlockput dp) (ret None))))"

definition create :: "byte list \<Rightarrow> 16 word \<Rightarrow> 16 word \<Rightarrow> 16 word \<Rightarrow> ('z, nat option) sprog" where
  "create path ty major minor = bnd (nameiparent path) (\<lambda>r. case r of None \<Rightarrow> ret None | Some (dp, name) \<Rightarrow>
     sq (ilock dp)
     (bnd (dirlookup dp name) (\<lambda>r. case r of
       Some (ip, _) \<Rightarrow>
         sq (iunlockput dp)
         (sq (ilock ip)
         (bnd (ino ip itype) (\<lambda>t.
          if ty = T_FILE \<and> (t = T_FILE \<or> t = T_DEVICE) then ret (Some ip) else
          sq (iunlockput ip) (ret None))))
     | None \<Rightarrow>
       bnd (gets (\<lambda>s. (idev (itable s dp), inum (itable s dp)))) (\<lambda>(dev, dinum).
       bnd (ialloc dev ty) (\<lambda>r. case r of None \<Rightarrow> sq (iunlockput dp) (ret None) | Some ip \<Rightarrow>
       sq (ilock ip)
       (sq (inode_upd ip (\<lambda>I. I\<lparr>imajor := major, iminor := minor, inlink := 1\<rparr>))
       (sq (iupdate ip)
       (bnd (ino ip inum) (\<lambda>i.
       bnd (if ty = T_DIR then
              bnd (dirlink ip (chars ''.'') i) (\<lambda>r. if r < 0 then ret (- 1) else dirlink ip (chars ''..'') dinum)
            else ret 0) (\<lambda>r.
       if r < 0 then create_fail ip dp else
       bnd (dirlink dp name i) (\<lambda>r.
       if r < 0 then create_fail ip dp else
       sq (if ty = T_DIR then add_link dp 1 else ret ())
       (sq (iunlockput dp)
       (ret (Some ip))))))))))))))"

definition O_RDONLY :: "32 word" where "O_RDONLY = 0"
definition O_WRONLY :: "32 word" where "O_WRONLY = 1"
definition O_RDWR :: "32 word" where "O_RDWR = 2"
definition O_CREATE :: "32 word" where "O_CREATE = 0x200"
definition O_TRUNC :: "32 word" where "O_TRUNC = 0x400"

definition open_inode :: "byte list \<Rightarrow> 32 word \<Rightarrow> ('z, nat option) sprog" where
  "open_inode path omode = (if omode AND O_CREATE \<noteq> 0 then create path T_FILE 0 0 else
     bnd (namei path) (\<lambda>r. case r of None \<Rightarrow> ret None | Some ip \<Rightarrow>
     sq (ilock ip)
     (bnd (ino ip itype) (\<lambda>t. if t = T_DIR \<and> omode \<noteq> O_RDONLY then sq (iunlockput ip) (ret None) else ret (Some ip)))))"

definition open_file :: "('z, (nat \<times> nat) option) sprog" where
  "open_file = bnd filealloc (\<lambda>f. case f of None \<Rightarrow> ret None | Some f \<Rightarrow>
     bnd (fdalloc f) (\<lambda>fd. case fd of None \<Rightarrow> sq (fileclose f) (ret None) | Some fd \<Rightarrow> ret (Some (f, fd))))"

definition sys_open :: "('z, outcome) sprog" where
  "sys_open = bnd (argint 1) (\<lambda>om. let omode = word_of_int om in
     bnd (argstr 0 MAXPATH) (\<lambda>r. case r of None \<Rightarrow> value_of (- 1) | Some path \<Rightarrow>
     sq begin_op
     (bnd (open_inode path omode) (\<lambda>r. case r of None \<Rightarrow> end_with (- 1) | Some ip \<Rightarrow>
     bnd (gets (\<lambda>s. itable s ip)) (\<lambda>I.
     if itype I = T_DEVICE \<and> \<not> major_ok (imajor I) then sq (iunlockput ip) (end_with (- 1)) else
     bnd open_file (\<lambda>r. case r of None \<Rightarrow> sq (iunlockput ip) (end_with (- 1)) | Some (f, fd) \<Rightarrow>
     sq (file_upd f (\<lambda>F. if itype I = T_DEVICE then F\<lparr>ftyp := FD_DEVICE, fmajor := imajor I\<rparr> else F\<lparr>ftyp := FD_INODE, foff := 0\<rparr>))
     (sq (file_upd f (\<lambda>F. F\<lparr>fip := ip, freadable := (omode AND O_WRONLY = 0), fwritable := (omode AND O_WRONLY \<noteq> 0 \<or> omode AND O_RDWR \<noteq> 0)\<rparr>))
     (sq (if omode AND O_TRUNC \<noteq> 0 \<and> itype I = T_FILE then itrunc ip else ret ())
     (sq (iunlock ip)
     (end_with (int fd)))))))))))"

definition make_node :: "16 word \<Rightarrow> 16 word \<Rightarrow> 16 word \<Rightarrow> ('z, outcome) sprog" where
  "make_node ty major minor = bnd (argstr 0 MAXPATH) (\<lambda>r. case r of None \<Rightarrow> end_with (- 1) | Some path \<Rightarrow>
     bnd (create path ty major minor) (\<lambda>r. case r of None \<Rightarrow> end_with (- 1) | Some ip \<Rightarrow>
     sq (iunlockput ip) (end_with 0)))"

definition sys_mkdir :: "('z, outcome) sprog" where
  "sys_mkdir = sq begin_op (make_node T_DIR 0 0)"

definition sys_mknod :: "('z, outcome) sprog" where
  "sys_mknod = sq begin_op (bnd (argint 1) (\<lambda>major. bnd (argint 2) (\<lambda>minor.
     make_node T_DEVICE (word_of_int major) (word_of_int minor))))"

definition sys_chdir :: "('z, outcome) sprog" where
  "sys_chdir = bnd myproc (\<lambda>p. sq begin_op
     (bnd (argstr 0 MAXPATH) (\<lambda>r. case r of None \<Rightarrow> end_with (- 1) | Some path \<Rightarrow>
     bnd (namei path) (\<lambda>r. case r of None \<Rightarrow> end_with (- 1) | Some ip \<Rightarrow>
     sq (ilock ip)
     (bnd (ino ip itype) (\<lambda>t. if t \<noteq> T_DIR then sq (iunlockput ip) (end_with (- 1)) else
     sq (iunlock ip)
     (sq (bnd (curproc pcwd) (\<lambda>c. case c of None \<Rightarrow> fail (Undef ''cwd'') | Some cwd \<Rightarrow> iput cwd))
     (sq end_op
     (sq (proc_upd p (\<lambda>P. P\<lparr>pcwd := Some ip\<rparr>))
     (value_of 0))))))))))"

text \<open>The argument strings of \<^verbatim>\<open>exec\<close>, each copied into a page of its own: the pages, and the strings unless something failed.\<close>

primrec exec_args :: "nat \<Rightarrow> nat \<Rightarrow> nat \<Rightarrow> nat list \<Rightarrow> byte list list \<Rightarrow> ('z, nat list \<times> byte list list option) sprog" where
  "exec_args uargv 0 i pages argv = ret (pages, None)"
| "exec_args uargv (Suc k) i pages argv =
     bnd (fetchaddr (w64 (uargv + 8 * i))) (\<lambda>r. case r of None \<Rightarrow> ret (pages, None) | Some uarg \<Rightarrow>
     if uarg = 0 then ret (pages, Some argv) else
     bnd kalloc (\<lambda>pg. if pg = 0 then ret (pages, None) else
     bnd (fetchstr uarg PGSIZE) (\<lambda>r. case r of None \<Rightarrow> ret (pages @ [pg], None) | Some str \<Rightarrow>
     sq (mem_upd (\<lambda>m. store_bytes m pg (str @ [0])))
     (exec_args uargv k (i + 1) (pages @ [pg]) (argv @ [str])))))"

primrec free_args :: "nat list \<Rightarrow> ('z, unit) sprog" where
  "free_args [] = ret ()"
| "free_args (pg # pages) = sq (kfree pg) (free_args pages)"

definition sys_exec :: "('z, outcome) sprog" where
  "sys_exec = bnd (argaddr 1) (\<lambda>uargv. bnd (argstr 0 MAXPATH) (\<lambda>r. case r of None \<Rightarrow> value_of (- 1) | Some path \<Rightarrow>
     bnd (exec_args uargv MAXARG 0 [] []) (\<lambda>(pages, r). case r of
       None \<Rightarrow> sq (free_args pages) (value_of (- 1))
     | Some argv \<Rightarrow> bnd (exec path argv) (\<lambda>v. sq (free_args pages) (value_of v)))))"

definition sys_pipe :: "('z, outcome) sprog" where
  "sys_pipe = bnd (argaddr 0) (\<lambda>fdarray. bnd pipealloc (\<lambda>r. case r of None \<Rightarrow> value_of (- 1) | Some (f0, f1) \<Rightarrow>
     let bad = sq (fileclose f0) (sq (fileclose f1) (value_of (- 1))) in
     bnd (fdalloc f0) (\<lambda>r. case r of None \<Rightarrow> bad | Some fd0 \<Rightarrow>
     bnd (fdalloc f1) (\<lambda>r. case r of None \<Rightarrow> sq (fd_clear fd0) bad | Some fd1 \<Rightarrow>
     bnd (curproc ppagetable) (\<lambda>pt.
     bnd (bnd (copyout pt fdarray (le32 (of_nat fd0))) (\<lambda>r. if r < 0 then ret r else copyout pt (w64 (fdarray + 4)) (le32 (of_nat fd1)))) (\<lambda>r.
     if r < 0 then sq (fd_clear fd0) (sq (fd_clear fd1) bad) else value_of 0))))))"

section \<open>Processes\<close>

definition sys_exit :: "('z, outcome) sprog" where
  "sys_exit = bnd (argint 0) (\<lambda>n. sq (kexit (word_of_int n)) (ret Gone))"

definition sys_getpid :: "('z, outcome) sprog" where
  "sys_getpid = bnd (curproc ppid) value_of"

definition sys_fork :: "('z, outcome) sprog" where
  "sys_fork = bnd fork value_of"

definition sys_wait :: "('z, outcome) sprog" where
  "sys_wait = bnd (argaddr 0) (\<lambda>p. bnd (wait p) (\<lambda>r. ret (result r)))"

definition sys_sbrk :: "('z, outcome) sprog" where
  "sys_sbrk = bnd (argint 0) (\<lambda>n. bnd (curproc psz) (\<lambda>addr. bnd (growproc n) (\<lambda>r.
     if r < 0 then value_of (- 1) else value_of (int addr))))"

text \<open>\<^verbatim>\<open>sys_sleep\<close> from the time when it was called; the comparison of the code is unsigned.\<close>

definition sleep_until :: "32 word \<Rightarrow> int \<Rightarrow> ('z, outcome) sprog" where
  "sleep_until ticks0 n = bnd (gets ticks) (\<lambda>t.
     if unat (t - ticks0) < unat (word_of_int n :: 32 word) then
       bnd (curproc pkilled) (\<lambda>k. if k then value_of (- 1) else sq (sleep WTicks) (ret (Waits (unat ticks0))))
     else value_of 0)"

definition sys_sleep :: "('z, outcome) sprog" where
  "sys_sleep = bnd (argint 0) (\<lambda>n. bnd (gets ticks) (\<lambda>ticks0. sleep_until ticks0 n))"

definition sys_kill :: "('z, outcome) sprog" where
  "sys_kill = bnd (argint 0) (\<lambda>pid. bnd (kill pid) value_of)"

definition sys_uptime :: "('z, outcome) sprog" where
  "sys_uptime = bnd (gets ticks) (\<lambda>t. value_of (uint t))"

definition CLINT_MTIME :: nat where "CLINT_MTIME = 0x200BFF8"

definition sys_getclk :: "('z, outcome) sprog" where
  "sys_getclk = bnd (gets (\<lambda>s. load64 (pm s) CLINT_MTIME)) (\<lambda>v. value_of (uint v))"

section \<open>Dispatch\<close>

definition syscalls :: "('z, outcome) sprog list" where
  "syscalls = [sys_fork, sys_exit, sys_wait, sys_pipe, sys_read 0, sys_kill, sys_exec, sys_fstat, sys_chdir, sys_dup, sys_getpid,
     sys_sbrk, sys_sleep, sys_uptime, sys_open, sys_write 0, sys_mknod, sys_unlink, sys_link, sys_mkdir, sys_close, sys_getclk]"

definition syscall_end :: "nat \<Rightarrow> outcome \<Rightarrow> ('z, outcome) sprog" where
  "syscall_end p r = (case r of
       Value v \<Rightarrow> sq (tf_put p TF_a0 (word_of_int v)) (ret r)
     | Waits i \<Rightarrow> ret r
     | Gone \<Rightarrow> ret r)"

definition syscall :: "('z, outcome) sprog" where
  "syscall = bnd myproc (\<lambda>p. bnd (tf_get p TF_a7) (\<lambda>a7. let num = sint (ucast a7 :: 32 word) in
     if 0 < num \<and> num \<le> int (length (syscalls :: ('z, outcome) sprog list))
     then bnd (syscalls ! (nat num - 1)) (syscall_end p)
     else bnd (curproc (\<lambda>P. (ppid P, pname P))) (\<lambda>(pid, name).
       sq (console_printf (Some (chars ''%d %s: unknown sys call %d'' @ [10])) [AInt (word_of_int pid), AStr (Some name), AInt (word_of_int num)])
       (sq (tf_put p TF_a0 (- 1)) (ret (Value (- 1)))))))"

text \<open>
  The rest of a call that had to wait, once its process runs again: the loop in which it slept goes
  on. The arguments are still in the trapframe, as the process has not returned to user space.
\<close>

definition resume :: "nat \<Rightarrow> ('z, outcome) sprog" where
  "resume i = bnd myproc (\<lambda>p. sq awake (bnd (tf_get p TF_a7) (\<lambda>a7. let num = sint (ucast a7 :: 32 word) in
     bnd (if num = 3 then sys_wait
          else if num = 5 then sys_read i
          else if num = 13 then bnd (argint 0) (sleep_until (of_nat i))
          else if num = 16 then sys_write i
          else fail (Undef ''resume'')) (syscall_end p))))"

end
