(* ===== verification/Trap.thy ===== *)
theory Trap
  imports Sysfile
begin

text \<open>
  Traps, \<^verbatim>\<open>kernel/trap.c\<close>, with the interrupt controller of \<^verbatim>\<open>kernel/plic.c\<close>. The registers are
  fields of the state; the address of \<^verbatim>\<open>usertrap\<close> that a trapframe holds is an argument, as is the
  handler of the disk's interrupt. A trap from user space ends with the return to the user page table, or
  with the process suspended, or gone.
\<close>

definition SSTATUS_SPP :: "64 word" where "SSTATUS_SPP = 0x100"
definition SSTATUS_SPIE :: "64 word" where "SSTATUS_SPIE = 0x20"
definition SSTATUS_SIE :: "64 word" where "SSTATUS_SIE = 2"

definition sie_on :: "('z, unit) sprog" where
  "sie_on = upd (\<lambda>s. s\<lparr>sstatus := sstatus s OR SSTATUS_SIE\<rparr>)"

definition sie_off :: "('z, unit) sprog" where
  "sie_off = upd (\<lambda>s. s\<lparr>sstatus := sstatus s AND NOT SSTATUS_SIE\<rparr>)"

definition MAKE_SATP :: "nat \<Rightarrow> 64 word" where
  "MAKE_SATP pagetable = push_bit 60 8 OR drop_bit 12 (of_nat pagetable)"

definition UART0_IRQ :: nat where "UART0_IRQ = 10"
definition VIRTIO0_IRQ :: nat where "VIRTIO0_IRQ = 1"

text \<open>The controller hands out its pending interrupts in order; 0 means there is none.\<close>

definition plic_claim :: "('z, nat) sprog" where
  "plic_claim = gets (\<lambda>s. case plic s of [] \<Rightarrow> 0 | irq # _ \<Rightarrow> irq)"

definition plic_complete :: "nat \<Rightarrow> ('z, unit) sprog" where
  "plic_complete irq = upd (\<lambda>s. s\<lparr>plic := remove1 irq (plic s)\<rparr>)"

definition clockintr :: "('z, unit) sprog" where
  "clockintr = sq (upd (\<lambda>s. s\<lparr>ticks := ticks s + 1\<rparr>)) (wakeup WTicks)"

definition devintr :: "('z, unit) sprog \<Rightarrow> ('z, nat) sprog" where
  "devintr virtio_disk_intr = bnd (gets scause) (\<lambda>cause.
     if cause AND 0x8000000000000000 \<noteq> 0 \<and> cause AND 0xff = 9 then
       bnd plic_claim (\<lambda>irq.
       sq (if irq = UART0_IRQ then uartintr procdump
           else if irq = VIRTIO0_IRQ then virtio_disk_intr
           else if irq \<noteq> 0 then console_printf (Some (chars ''unexpected interrupt irq=%d'' @ [10])) [AInt (of_nat irq)]
           else ret ())
       (sq (if irq \<noteq> 0 then plic_complete irq else ret ())
       (ret 1)))
     else if cause = 0x8000000000000001 then
       bnd (gets hartid) (\<lambda>h.
       sq (if h = 0 then clockintr else ret ())
       (sq (upd (\<lambda>s. s\<lparr>sip := sip s AND NOT 2\<rparr>))
       (ret 2)))
     else ret 0)"

text \<open>How a trap from user space ends: back in user space, waiting in a system call, interrupted by the clock, or exited.\<close>

datatype trapped = Resumes "64 word" | Suspended nat | Yields | Dead

definition usertrapret :: "64 word \<Rightarrow> ('z, trapped) sprog" where
  "usertrapret usertrap_at = bnd myproc (\<lambda>p.
     sq sie_off
     (sq (upd (\<lambda>s. s\<lparr>stvec := UserVec\<rparr>))
     (bnd (gets (\<lambda>s. (satp s, pkstack (ptable s p), hartid s))) (\<lambda>(kernel_satp, kstack, h).
      sq (tf_put p 0 kernel_satp)
      (sq (tf_put p 8 (of_nat (kstack + PGSIZE)))
      (sq (tf_put p 16 usertrap_at)
      (sq (tf_put p 32 (of_nat h))
      (sq (upd (\<lambda>s. s\<lparr>sstatus := (sstatus s AND NOT SSTATUS_SPP) OR SSTATUS_SPIE\<rparr>))
      (bnd (tf_get p TF_epc) (\<lambda>epc.
      sq (upd (\<lambda>s. s\<lparr>sepc := epc\<rparr>))
      (bnd (curproc ppagetable) (\<lambda>pt. ret (Resumes (MAKE_SATP pt))))))))))))))"

definition die :: "('z, trapped) sprog" where
  "die = sq (kexit (- 1)) (ret Dead)"

text \<open>The end of \<^verbatim>\<open>usertrap\<close>: a killed process exits, a timer interrupt gives up the processor.\<close>

definition trap_end :: "64 word \<Rightarrow> nat \<Rightarrow> ('z, trapped) sprog" where
  "trap_end usertrap_at which_dev = bnd (curproc pkilled) (\<lambda>k. if k then die
     else if which_dev = 2 then sq yield (ret Yields) else usertrapret usertrap_at)"

definition call_end :: "64 word \<Rightarrow> outcome \<Rightarrow> ('z, trapped) sprog" where
  "call_end usertrap_at r = (case r of
       Value v \<Rightarrow> trap_end usertrap_at 0
     | Waits i \<Rightarrow> ret (Suspended i)
     | Gone \<Rightarrow> ret Dead)"

definition usertrap :: "64 word \<Rightarrow> ('z, unit) sprog \<Rightarrow> ('z, trapped) sprog" where
  "usertrap usertrap_at virtio_disk_intr = bnd (gets sstatus) (\<lambda>st.
     if st AND SSTATUS_SPP \<noteq> 0 then panic ''usertrap: not from user mode'' else
     sq (upd (\<lambda>s. s\<lparr>stvec := KernelVec\<rparr>))
     (bnd myproc (\<lambda>p.
     bnd (gets sepc) (\<lambda>pc.
     sq (tf_put p TF_epc pc)
     (bnd (gets scause) (\<lambda>cause.
     if cause = 8 then
       bnd (curproc pkilled) (\<lambda>k. if k then die else
       sq (tf_put p TF_epc (pc + 4))
       (sq sie_on
       (bnd syscall (call_end usertrap_at))))
     else bnd (devintr virtio_disk_intr) (\<lambda>which_dev.
       if which_dev \<noteq> 0 then trap_end usertrap_at which_dev else
       bnd (gets (\<lambda>s. (ppid (ptable s p), sepc s, stval s))) (\<lambda>(pid, spc, val).
       sq (console_printf (Some (chars ''usertrap(): unexpected scause %p pid=%d'' @ [10])) [ALong cause, AInt (word_of_int pid)])
       (sq (console_printf (Some (chars ''            sepc=%p stval=%p'' @ [10])) [ALong spc, ALong val])
       (sq (setkilled p)
       (trap_end usertrap_at 0)))))))))))"

definition kerneltrap :: "('z, unit) sprog \<Rightarrow> ('z, bool) sprog" where
  "kerneltrap virtio_disk_intr = bnd (gets (\<lambda>s. (sepc s, sstatus s, scause s, stval s))) (\<lambda>(spc, st, cause, val).
     if st AND SSTATUS_SPP = 0 then panic ''kerneltrap: not from supervisor mode''
     else if st AND SSTATUS_SIE \<noteq> 0 then panic ''kerneltrap: interrupts enabled''
     else bnd (devintr virtio_disk_intr) (\<lambda>which_dev.
       if which_dev = 0 then
         sq (console_printf (Some (chars ''scause %p'' @ [10])) [ALong cause])
         (sq (console_printf (Some (chars ''sepc=%p stval=%p'' @ [10])) [ALong spc, ALong val])
         (panic ''kerneltrap''))
       else bnd (gets (\<lambda>s. curp s < NPROC \<and> pstate (ptable s (curp s)) = RUNNING)) (\<lambda>running.
         let gives_up = (which_dev = 2 \<and> running) in
         sq (if gives_up then yield else ret ())
         (sq (upd (\<lambda>s. s\<lparr>sepc := spc, sstatus := st\<rparr>))
         (ret gives_up)))))"

section \<open>Entering a process\<close>

text \<open>
  What a process does when the scheduler switches to it: a new one starts in \<^verbatim>\<open>forkret\<close>, one that
  waited in a system call goes on with it, and one that the clock interrupted returns to user space.
\<close>

definition forkret :: "64 word \<Rightarrow> ('z, trapped) sprog" where
  "forkret usertrap_at = bnd (gets first_run) (\<lambda>first.
     sq (if first then sq (upd (\<lambda>s. s\<lparr>first_run := False\<rparr>)) (fsinit ROOTDEV) else ret ())
     (usertrapret usertrap_at))"

datatype cont = AtForkret | InCall nat | AtYield

definition enter :: "64 word \<Rightarrow> cont \<Rightarrow> ('z, trapped) sprog" where
  "enter usertrap_at k = (case k of
       AtForkret \<Rightarrow> forkret usertrap_at
     | InCall i \<Rightarrow> bnd (resume i) (call_end usertrap_at)
     | AtYield \<Rightarrow> usertrapret usertrap_at)"

end
