(* ===== verification/Frame.thy ===== *)
theory Frame
  imports Trap
begin

text \<open>
  Reasoning about the programs of the kernel. \<open>keeps f m\<close> says that a run of \<open>m\<close> leaves the view \<open>f\<close> of the state as
  it was, and \<open>triple P m Q\<close> that a run of \<open>m\<close> from a state with \<open>P\<close> ends in one with \<open>Q\<close>. The rules
  follow the structure of programs. The view \<open>tabs\<close> is what the invariants of processes and open files
  depend on; most of the kernel keeps it.
\<close>

named_theorems keeps_rules
named_theorems triple_rules

section \<open>Rules\<close>

definition keeps :: "('s \<Rightarrow> 'v) \<Rightarrow> ('s, 'e, 'a) comp \<Rightarrow> bool" where
  "keeps f m \<longleftrightarrow> (\<forall>s x s'. m s = Inr (x, s') \<longrightarrow> f s' = f s)"

definition triple :: "('s \<Rightarrow> bool) \<Rightarrow> ('s, 'e, 'a) comp \<Rightarrow> ('a \<Rightarrow> 's \<Rightarrow> bool) \<Rightarrow> bool" where
  "triple P m Q \<longleftrightarrow> (\<forall>s x s'. P s \<longrightarrow> m s = Inr (x, s') \<longrightarrow> Q x s')"

lemma keepsD: "keeps f m \<Longrightarrow> m s = Inr (x, s') \<Longrightarrow> f s' = f s"
  by (simp add: keeps_def)

lemma tripleD: "triple P m Q \<Longrightarrow> P s \<Longrightarrow> m s = Inr (x, s') \<Longrightarrow> Q x s'"
  by (simp add: triple_def)

lemma keepsI: "(\<And>s x s'. m s = Inr (x, s') \<Longrightarrow> f s' = f s) \<Longrightarrow> keeps f m"
  by (simp add: keeps_def)

lemma tripleI: "(\<And>s x s'. P s \<Longrightarrow> m s = Inr (x, s') \<Longrightarrow> Q x s') \<Longrightarrow> triple P m Q"
  by (simp add: triple_def)

lemma keeps_ret [keeps_rules]: "keeps f (ret x)"
  by (simp add: keeps_def run_simps)

lemma keeps_fail [keeps_rules]: "keeps f (fail e)"
  by (simp add: keeps_def run_simps)

lemma keeps_panic [keeps_rules]: "keeps f (panic e)"
  by (simp add: panic_def keeps_fail)

lemma keeps_gets [keeps_rules]: "keeps f (gets g)"
  by (simp add: keeps_def run_simps)

lemma keeps_guard [keeps_rules]: "keeps f (guard b e)"
  by (cases b) (simp_all add: keeps_def run_simps)

lemma keeps_upd [keeps_rules]: "(\<And>s. f (g s) = f s) \<Longrightarrow> keeps f (upd g)"
  by (simp add: keeps_def run_simps)

lemma keeps_bnd [keeps_rules]: "keeps f m \<Longrightarrow> (\<And>x. keeps f (k x)) \<Longrightarrow> keeps f (bnd m k)"
  by (auto simp: keeps_def elim!: bnd_InrE)

lemma keeps_sq [keeps_rules]: "keeps f m \<Longrightarrow> keeps f k \<Longrightarrow> keeps f (sq m k)"
  by (simp add: sq_def keeps_bnd)

lemma keeps_if [keeps_rules]: "(b \<Longrightarrow> keeps f m) \<Longrightarrow> (\<not> b \<Longrightarrow> keeps f k) \<Longrightarrow> keeps f (if b then m else k)"
  by simp

lemma keeps_option [keeps_rules]: "(x = None \<Longrightarrow> keeps f m) \<Longrightarrow> (\<And>y. x = Some y \<Longrightarrow> keeps f (k y)) \<Longrightarrow> keeps f (case x of None \<Rightarrow> m | Some y \<Rightarrow> k y)"
  by (cases x) simp_all

lemma keeps_prod [keeps_rules]: "(\<And>a b. x = (a, b) \<Longrightarrow> keeps f (k a b)) \<Longrightarrow> keeps f (case x of (a, b) \<Rightarrow> k a b)"
  by (cases x) simp_all

lemma keeps_list [keeps_rules]: "(x = [] \<Longrightarrow> keeps f m) \<Longrightarrow> (\<And>y ys. x = y # ys \<Longrightarrow> keeps f (k y ys)) \<Longrightarrow> keeps f (case x of [] \<Rightarrow> m | y # ys \<Rightarrow> k y ys)"
  by (cases x) simp_all

lemma keeps_let [keeps_rules]: "(\<And>y. y = x \<Longrightarrow> keeps f (k y)) \<Longrightarrow> keeps f (let y = x in k y)"
  by simp

lemma triple_ret: "triple (Q x) (ret x) Q"
  by (simp add: triple_def run_simps)

lemma triple_fail [triple_rules]: "triple P (fail e) Q"
  by (simp add: triple_def run_simps)

lemma triple_panic [triple_rules]: "triple P (panic e) Q"
  by (simp add: panic_def triple_fail)

lemma triple_gets: "triple (\<lambda>s. Q (g s) s) (gets g) Q"
  by (simp add: triple_def run_simps)

lemma triple_upd: "triple (\<lambda>s. Q () (g s)) (upd g) Q"
  by (simp add: triple_def run_simps)

lemma triple_bnd: "triple P m R \<Longrightarrow> (\<And>x. triple (R x) (k x) Q) \<Longrightarrow> triple P (bnd m k) Q"
  by (auto simp: triple_def elim!: bnd_InrE)

lemma triple_sq: "triple P m R \<Longrightarrow> triple (R ()) k Q \<Longrightarrow> triple P (sq m k) Q"
  unfolding sq_def by (rule triple_bnd) auto

lemma triple_pre: "triple P' m Q \<Longrightarrow> (\<And>s. P s \<Longrightarrow> P' s) \<Longrightarrow> triple P m Q"
  by (auto simp: triple_def)

lemma triple_post: "triple P m Q' \<Longrightarrow> (\<And>x s. Q' x s \<Longrightarrow> Q x s) \<Longrightarrow> triple P m Q"
  by (auto simp: triple_def)

lemma triple_if: "(b \<Longrightarrow> triple P m Q) \<Longrightarrow> (\<not> b \<Longrightarrow> triple P k Q) \<Longrightarrow> triple P (if b then m else k) Q"
  by simp

lemma triple_option: "(x = None \<Longrightarrow> triple P m Q) \<Longrightarrow> (\<And>y. x = Some y \<Longrightarrow> triple P (k y) Q) \<Longrightarrow> triple P (case x of None \<Rightarrow> m | Some y \<Rightarrow> k y) Q"
  by (cases x) simp_all

lemma triple_prod: "(\<And>a b. x = (a, b) \<Longrightarrow> triple P (k a b) Q) \<Longrightarrow> triple P (case x of (a, b) \<Rightarrow> k a b) Q"
  by (cases x) simp_all

lemma triple_asm: "(\<And>s. P s \<Longrightarrow> A) \<Longrightarrow> (A \<Longrightarrow> triple P m Q) \<Longrightarrow> triple P m Q"
  by (auto simp: triple_def)

text \<open>A program that keeps a view keeps what depends on the view only.\<close>

lemma keeps_triple: "keeps f m \<Longrightarrow> (\<And>s s'. f s = f s' \<Longrightarrow> P s \<Longrightarrow> P s') \<Longrightarrow> triple P m (\<lambda>_. P)"
  unfolding keeps_def triple_def by metis

section \<open>The view of the tables\<close>

definition pview :: "proc \<Rightarrow> procstate \<times> int \<times> nat option \<times> (nat \<Rightarrow> nat option)" where
  "pview P = (pstate P, ppid P, pparent P, pofile P)"

definition tabs :: "'z kst_scheme \<Rightarrow> (nat \<Rightarrow> procstate \<times> int \<times> nat option \<times> (nat \<Rightarrow> nat option)) \<times> (nat \<Rightarrow> int) \<times> int \<times> nat \<times> nat option" where
  "tabs s = (\<lambda>p. pview (ptable s p), \<lambda>f. fref (ftable s f), nextpid s, curp s, initproc s)"

lemma tabs_phys [simp]: "tabs (s\<lparr>pm := a\<rparr>) = tabs s" "tabs (s\<lparr>freelist := b\<rparr>) = tabs s"
  by (simp_all add: tabs_def)

lemma tabs_pipe [simp]: "tabs (s\<lparr>pipe_at := a\<rparr>) = tabs s" "tabs (s\<lparr>wakes := b\<rparr>) = tabs s"
  by (simp_all add: tabs_def)

lemma tabs_tty [simp]: "tabs (s\<lparr>rx := a\<rparr>) = tabs s" "tabs (s\<lparr>tx_idle := b\<rparr>) = tabs s" "tabs (s\<lparr>sent := c\<rparr>) = tabs s"
    "tabs (s\<lparr>uart_tx_buf := d\<rparr>) = tabs s" "tabs (s\<lparr>uart_tx_w := e\<rparr>) = tabs s" "tabs (s\<lparr>uart_tx_r := e\<rparr>) = tabs s"
    "tabs (s\<lparr>cons_buf := d\<rparr>) = tabs s" "tabs (s\<lparr>cons_r := g\<rparr>) = tabs s" "tabs (s\<lparr>cons_w := g\<rparr>) = tabs s" "tabs (s\<lparr>cons_e := g\<rparr>) = tabs s"
    "tabs (s\<lparr>chan_wakes := h\<rparr>) = tabs s" "tabs (s\<lparr>panicked := i\<rparr>) = tabs s"
  by (simp_all add: tabs_def)

lemma tabs_blk [simp]: "tabs (s\<lparr>bufs := a\<rparr>) = tabs s" "tabs (s\<lparr>bnext := b\<rparr>) = tabs s" "tabs (s\<lparr>bprev := b\<rparr>) = tabs s"
    "tabs (s\<lparr>disk := c\<rparr>) = tabs s" "tabs (s\<lparr>wtrace := d\<rparr>) = tabs s" "tabs (s\<lparr>mypid := e\<rparr>) = tabs s"
  by (simp_all add: tabs_def)

lemma tabs_log [simp]: "tabs (s\<lparr>log_start := a\<rparr>) = tabs s" "tabs (s\<lparr>log_size := a\<rparr>) = tabs s" "tabs (s\<lparr>log_outstanding := b\<rparr>) = tabs s"
    "tabs (s\<lparr>log_committing := c\<rparr>) = tabs s" "tabs (s\<lparr>log_dev := a\<rparr>) = tabs s" "tabs (s\<lparr>lh_n := b\<rparr>) = tabs s" "tabs (s\<lparr>lh_block := d\<rparr>) = tabs s"
  by (simp_all add: tabs_def)

lemma tabs_kst [simp]: "tabs (s\<lparr>sb := a\<rparr>) = tabs s" "tabs (s\<lparr>itable := b\<rparr>) = tabs s" "tabs (s\<lparr>first_run := c\<rparr>) = tabs s" "tabs (s\<lparr>ticks := d\<rparr>) = tabs s"
    "tabs (s\<lparr>devsw := e\<rparr>) = tabs s" "tabs (s\<lparr>scause := x\<rparr>) = tabs s" "tabs (s\<lparr>sepc := x\<rparr>) = tabs s" "tabs (s\<lparr>stval := x\<rparr>) = tabs s"
    "tabs (s\<lparr>sstatus := x\<rparr>) = tabs s" "tabs (s\<lparr>stvec := y\<rparr>) = tabs s" "tabs (s\<lparr>satp := x\<rparr>) = tabs s" "tabs (s\<lparr>sip := x\<rparr>) = tabs s" "tabs (s\<lparr>plic := z\<rparr>) = tabs s"
  by (simp_all add: tabs_def)

lemma proc_upd_keeps [keeps_rules]: "(\<And>P. pview (f P) = pview P) \<Longrightarrow> keeps tabs (proc_upd p f)"
  by (auto simp: proc_upd_def keeps_def run_simps tabs_def)

lemma file_upd_keeps [keeps_rules]: "(\<And>F. fref (f F) = fref F) \<Longrightarrow> keeps tabs (file_upd p f)"
  by (auto simp: file_upd_def keeps_def run_simps tabs_def)

lemma inode_upd_keeps [keeps_rules]: "keeps tabs (inode_upd i f)"
  by (auto simp: inode_upd_def keeps_def run_simps)

lemma reads_keep [keeps_rules]: "keeps f myproc" "keeps f (curproc g)" "keeps f (ino i h)" "keeps f (fil i k)"
  by (simp_all add: kst_run keeps_gets)

section \<open>Memory\<close>

lemma mem_upd_keeps [keeps_rules]: "keeps tabs (mem_upd f)"
  unfolding mem_upd_def by (intro keeps_rules) simp

lemma kfree_keeps [keeps_rules]: "keeps tabs (kfree pa)"
  unfolding kfree_def by (intro keeps_rules) simp

lemma kalloc_keeps [keeps_rules]: "keeps tabs kalloc"
  unfolding kalloc_def by (intro keeps_rules) simp

lemma ldpte_keeps [keeps_rules]: "keeps tabs (ldpte a)"
  unfolding ldpte_def by (intro keeps_rules)

lemma stpte_keeps [keeps_rules]: "keeps tabs (stpte a e)"
  unfolding stpte_def by (intro keeps_rules)

lemma zero_page_keeps [keeps_rules]: "keeps tabs (zero_page a)"
  unfolding zero_page_def by (intro keeps_rules)

lemma walk_loop_keeps [keeps_rules]: "keeps tabs (walk_loop va alloc l pt)"
  by (induction l arbitrary: pt) (auto simp: Let_def intro!: keeps_rules)

lemma walk_keeps [keeps_rules]: "keeps tabs (walk pt va alloc)"
  unfolding walk_def by (intro keeps_rules)

lemma walkaddr_keeps [keeps_rules]: "keeps tabs (walkaddr pt va)"
  unfolding walkaddr_def by (intro keeps_rules)

lemma map_loop_keeps [keeps_rules]: "keeps tabs (map_loop pt l perm n a pa)"
  by (induction n arbitrary: a pa) (auto intro!: keeps_rules)

lemma mappages_keeps [keeps_rules]: "keeps tabs (mappages pt va sz pa perm)"
  unfolding mappages_def by (intro keeps_rules)

lemma unmap_loop_keeps [keeps_rules]: "keeps tabs (unmap_loop pt d n a)"
  by (induction n arbitrary: a) (auto intro!: keeps_rules)

lemma uvmunmap_keeps [keeps_rules]: "keeps tabs (uvmunmap pt va n d)"
  unfolding uvmunmap_def by (intro keeps_rules)

lemma uvmcreate_keeps [keeps_rules]: "keeps tabs uvmcreate"
  unfolding uvmcreate_def by (intro keeps_rules)

lemma uvmfirst_keeps [keeps_rules]: "keeps tabs (uvmfirst pt src)"
  unfolding uvmfirst_def by (intro keeps_rules)

lemma uvmdealloc_keeps [keeps_rules]: "keeps tabs (uvmdealloc pt a b)"
  unfolding uvmdealloc_def by (intro keeps_rules)

lemma uvmalloc_loop_keeps [keeps_rules]: "keeps tabs (uvmalloc_loop pt a b x n c)"
  by (induction n arbitrary: c) (auto intro!: keeps_rules)

lemma uvmalloc_keeps [keeps_rules]: "keeps tabs (uvmalloc pt a b x)"
  unfolding uvmalloc_def by (intro keeps_rules)

lemma free_entries_keeps: "(\<And>a. keeps tabs (rec a)) \<Longrightarrow> keeps tabs (free_entries rec pt n)"
  by (induction n) (auto intro!: keeps_rules)

lemma freewalk_keeps [keeps_rules]: "keeps tabs (freewalk d pt)"
  by (induction d arbitrary: pt) (auto intro!: keeps_rules free_entries_keeps)

lemma uvmfree_keeps [keeps_rules]: "keeps tabs (uvmfree pt sz)"
  unfolding uvmfree_def by (intro keeps_rules)

lemma uvmcopy_err_keeps [keeps_rules]: "keeps tabs (uvmcopy_err new i)"
  unfolding uvmcopy_err_def by (intro keeps_rules)

lemma uvmcopy_loop_keeps [keeps_rules]: "keeps tabs (uvmcopy_loop old new n i)"
  by (induction n arbitrary: i) (auto intro!: keeps_rules)

lemma uvmcopy_keeps [keeps_rules]: "keeps tabs (uvmcopy old new sz)"
  unfolding uvmcopy_def by (intro keeps_rules)

lemma uvmclear_keeps [keeps_rules]: "keeps tabs (uvmclear pt va)"
  unfolding uvmclear_def by (intro keeps_rules)

lemma copyout_tabs: "copyout pt va src s = Inr (r, s') \<Longrightarrow> tabs s' = tabs s"
  by (induction pt va src s rule: copyout.induct)
    (subst (asm) (2) copyout.simps, auto simp: Let_def split: if_splits sum.splits dest!: keepsD[OF walkaddr_keeps])

lemma copyout_keeps [keeps_rules]: "keeps tabs (copyout pt va src)"
  by (rule keepsI) (rule copyout_tabs)

lemma copyin_tabs: "copyin pt va len s = Inr (r, s') \<Longrightarrow> tabs s' = tabs s"
  by (induction pt va len s arbitrary: r s' rule: copyin.induct)
    (subst (asm) (2) copyin.simps, auto simp: Let_def split: if_splits sum.splits dest!: keepsD[OF walkaddr_keeps])

lemma copyin_keeps [keeps_rules]: "keeps tabs (copyin pt va len)"
  by (rule keepsI) (rule copyin_tabs)

lemma copyinstr_tabs: "copyinstr pt va mx s = Inr (r, s') \<Longrightarrow> tabs s' = tabs s"
  by (induction pt va mx s arbitrary: r s' rule: copyinstr.induct)
    (subst (asm) (2) copyinstr.simps, auto simp: Let_def split: if_splits sum.splits prod.splits dest!: keepsD[OF walkaddr_keeps])

lemma copyinstr_keeps [keeps_rules]: "keeps tabs (copyinstr pt va mx)"
  by (rule keepsI) (rule copyinstr_tabs)

lemma either_copyout_keeps [keeps_rules]: "keeps tabs (either_copyout pt u a bs)"
  unfolding either_copyout_def by (intro keeps_rules)

lemma either_copyin_keeps [keeps_rules]: "keeps tabs (either_copyin pt u a n)"
  unfolding either_copyin_def by (intro keeps_rules)

section \<open>Pipes and the console\<close>

lemma tabs_wake [simp]: "tabs (wake c s) = tabs s" "tabs (pipe_upd pi f s) = tabs s"
  by (simp_all add: wake_def pipe_upd_def)

lemma pipeclose_keeps [keeps_rules]: "keeps tabs (pipeclose pi w)"
  unfolding pipeclose_def by (intro keeps_rules) simp_all

lemma pipewrite_tabs: "pipewrite pt k pi addr n i s = Inr (r, s') \<Longrightarrow> tabs s' = tabs s"
  by (induction pt k pi addr n i s arbitrary: r s' rule: pipewrite.induct)
    (subst (asm) (2) pipewrite.simps, auto simp: Let_def split: if_splits sum.splits dest!: copyin_tabs)

lemma piperead_loop_tabs: "piperead_loop pt pi addr n i s = Inr (r, s') \<Longrightarrow> tabs s' = tabs s"
  by (induction pt pi addr n i s arbitrary: r s' rule: piperead_loop.induct)
    (subst (asm) (2) piperead_loop.simps, auto simp: Let_def split: if_splits sum.splits dest!: copyout_tabs)

lemma pipe_loops_keep [keeps_rules]: "keeps tabs (pipewrite pt k pi addr n i)" "keeps tabs (piperead_loop pt pi addr n i)"
  by (rule keepsI, erule pipewrite_tabs) (rule keepsI, erule piperead_loop_tabs)

lemma piperead_keeps [keeps_rules]: "keeps tabs (piperead pt k pi addr n)"
  unfolding piperead_def by (intro keeps_rules) simp

lemma uartstart_tabs: "uartstart s = Inr (r, s') \<Longrightarrow> tabs s' = tabs s"
  by (induction s arbitrary: r s' rule: uartstart.induct)
    (subst (asm) (2) uartstart.simps, auto simp: Let_def split: if_splits list.splits)

lemma uartstart_keeps [keeps_rules]: "keeps tabs uartstart"
  by (rule keepsI) (rule uartstart_tabs)

lemma write_thr_keeps [keeps_rules]: "keeps tabs (write_thr c)"
  unfolding write_thr_def by (intro keeps_rules) simp

lemma wakeup_chan_keeps [keeps_rules]: "keeps tabs (wakeup_chan c)"
  unfolding wakeup_chan_def by (intro keeps_rules) simp

lemma uartputc_keeps [keeps_rules]: "keeps tabs (uartputc c)"
  unfolding uartputc_def by (intro keeps_rules) simp

lemma uartputc_sync_keeps [keeps_rules]: "keeps tabs (uartputc_sync c)"
  unfolding uartputc_sync_def by (intro keeps_rules) simp

lemma consputc_keeps [keeps_rules]: "keeps tabs (consputc c)"
  unfolding consputc_def by (intro keeps_rules)

lemma consolewrite_loop_keeps [keeps_rules]: "keeps tabs (consolewrite_loop pt u a n i)"
  by (induction n arbitrary: i) (auto intro!: keeps_rules)

lemma consolewrite_keeps [keeps_rules]: "keeps tabs (consolewrite pt u a n)"
  unfolding consolewrite_def by (intro keeps_rules)

lemma consoleread_tabs: "consoleread pt k u a n i s = Inr (r, s') \<Longrightarrow> tabs s' = tabs s"
  by (induction pt k u a n i s arbitrary: r s' rule: consoleread.induct)
    (subst (asm) (2) consoleread.simps, auto simp: Let_def split: if_splits sum.splits dest!: keepsD[OF either_copyout_keeps])

lemma consoleread_keeps [keeps_rules]: "keeps tabs (consoleread pt k u a n i)"
  by (rule keepsI) (rule consoleread_tabs)

lemma kill_line_tabs: "kill_line s = Inr (r, s') \<Longrightarrow> tabs s' = tabs s"
  by (induction s arbitrary: r s' rule: kill_line.induct)
    (subst (asm) (2) kill_line.simps, auto split: if_splits sum.splits dest!: keepsD[OF consputc_keeps])

lemma kill_line_keeps [keeps_rules]: "keeps tabs kill_line"
  by (rule keepsI) (rule kill_line_tabs)

lemma consoleintr_keeps: "keeps tabs dump \<Longrightarrow> keeps tabs (consoleintr dump c)"
  unfolding consoleintr_def by (intro keeps_rules) simp_all

lemma uart_input_keeps: "keeps tabs dump \<Longrightarrow> keeps tabs (uart_input dump cs)"
  by (induction cs) (auto intro!: keeps_rules consoleintr_keeps)

lemma uartintr_keeps: "keeps tabs dump \<Longrightarrow> keeps tabs (uartintr dump)"
  unfolding uartintr_def by (intro keeps_rules uart_input_keeps)

lemma consputs_keeps [keeps_rules]: "keeps tabs (consputs cs)"
  by (induction cs) (auto intro!: keeps_rules)

lemma console_printf_keeps [keeps_rules]: "keeps tabs (console_printf fmt ap)"
  unfolding console_printf_def by (intro keeps_rules)

lemma kputln_keeps [keeps_rules]: "keeps tabs (kputln str)"
  unfolding kputln_def by (intro keeps_rules)

section \<open>Blocks and the log\<close>

lemma bio_updates_keep [keeps_rules]: "keeps tabs (buf_upd b f)" "keeps tabs (set_next b x)" "keeps tabs (set_prev b x)"
  by (auto simp: buf_upd_def set_next_def set_prev_def intro!: keeps_rules)

lemma disk_rw_keeps [keeps_rules]: "keeps tabs (disk_rw b wr)"
  unfolding disk_rw_def by (intro keeps_rules) simp

lemma lock_buf_keeps [keeps_rules]: "keeps tabs (lock_buf b)" "keeps tabs (holding_buf b)"
  unfolding lock_buf_def holding_buf_def by (intro keeps_rules)+

lemma find_next_keeps [keeps_rules]: "keeps tabs (find_next dev bno n b)"
  by (induction n arbitrary: b) (auto intro!: keeps_rules)

lemma find_unused_keeps [keeps_rules]: "keeps tabs (find_unused n b)"
  by (induction n arbitrary: b) (auto intro!: keeps_rules)

lemma bget_keeps [keeps_rules]: "keeps tabs (bget dev bno)"
  unfolding bget_def by (intro keeps_rules)

lemma bread_keeps [keeps_rules]: "keeps tabs (bread dev bno)"
  unfolding bread_def by (intro keeps_rules)

lemma push_front_keeps [keeps_rules]: "keeps tabs (push_front b)"
  unfolding push_front_def by (intro keeps_rules)

lemma bwrite_keeps [keeps_rules]: "keeps tabs (bwrite b)"
  unfolding bwrite_def by (intro keeps_rules)

lemma brelse_keeps [keeps_rules]: "keeps tabs (brelse b)"
  unfolding brelse_def by (intro keeps_rules)

lemma bpin_keeps [keeps_rules]: "keeps tabs (bpin b)" "keeps tabs (bunpin b)"
  unfolding bpin_def bunpin_def by (intro keeps_rules)+

lemma set_data_keeps [keeps_rules]: "keeps tabs (set_data b d)" "keeps tabs (buf_data b)"
  unfolding set_data_def buf_data_def by (intro keeps_rules)+

lemma lh_keeps [keeps_rules]: "keeps tabs (lh_at i)" "keeps tabs (set_lh_at i n)" "keeps tabs (set_lh_n k)"
  unfolding lh_at_def set_lh_at_def set_lh_n_def by (intro keeps_rules; simp)+

lemma install_block_keeps [keeps_rules]: "keeps tabs (install_block r t)"
  unfolding install_block_def by (intro keeps_rules)

lemma install_loop_keeps [keeps_rules]: "keeps tabs (install_loop r k t)"
  by (induction k arbitrary: t) (auto intro!: keeps_rules)

lemma install_trans_keeps [keeps_rules]: "keeps tabs (install_trans r)"
  unfolding install_trans_def by (intro keeps_rules)

lemma log_block_keeps [keeps_rules]: "keeps tabs (log_block t)"
  unfolding log_block_def by (intro keeps_rules)

lemma write_log_loop_keeps [keeps_rules]: "keeps tabs (write_log_loop k t)"
  by (induction k arbitrary: t) (auto intro!: keeps_rules)

lemma write_log_keeps [keeps_rules]: "keeps tabs write_log"
  unfolding write_log_def by (intro keeps_rules)

lemma read_blocks_keeps [keeps_rules]: "keeps tabs (read_blocks d k i)"
  by (induction k arbitrary: i) (auto intro!: keeps_rules)

lemma read_head_keeps [keeps_rules]: "keeps tabs read_head"
  unfolding read_head_def by (intro keeps_rules) simp

lemma write_head_keeps [keeps_rules]: "keeps tabs write_head"
  unfolding write_head_def by (intro keeps_rules)

lemma initlog_keeps [keeps_rules]: "keeps tabs (initlog dev sblk)"
  unfolding initlog_def recover_from_log_def by (intro keeps_rules) simp

lemma begin_op_keeps [keeps_rules]: "keeps tabs begin_op"
  unfolding begin_op_def by (intro keeps_rules) simp

lemma commit_keeps [keeps_rules]: "keeps tabs commit"
  unfolding commit_def by (intro keeps_rules)

lemma end_op_keeps [keeps_rules]: "keeps tabs end_op"
  unfolding end_op_def by (intro keeps_rules) simp_all

lemma log_write_keeps [keeps_rules]: "keeps tabs (log_write b)"
  unfolding log_write_def by (intro keeps_rules; simp)

section \<open>The file system\<close>

lemma readsb_keeps [keeps_rules]: "keeps tabs (readsb dev)"
  unfolding readsb_def by (intro keeps_rules)

lemma fsinit_keeps [keeps_rules]: "keeps tabs (fsinit dev)"
  unfolding fsinit_def by (intro keeps_rules) simp

lemma bzero_keeps [keeps_rules]: "keeps tabs (bzero dev b)"
  unfolding bzero_def by (intro keeps_rules)

lemma balloc_loop_keeps [keeps_rules]: "keeps tabs (balloc_loop dev k b)"
  by (induction k arbitrary: b) (auto intro!: keeps_rules)

lemma balloc_keeps [keeps_rules]: "keeps tabs (balloc dev)"
  unfolding balloc_def by (intro keeps_rules)

lemma bfree_keeps [keeps_rules]: "keeps tabs (bfree dev b)"
  unfolding bfree_def by (intro keeps_rules)

lemma iget_keeps [keeps_rules]: "keeps tabs (iget dev i)"
  unfolding iget_def by (intro keeps_rules)

lemma ialloc_loop_keeps [keeps_rules]: "keeps tabs (ialloc_loop dev ty k i)"
  by (induction k arbitrary: i) (auto intro!: keeps_rules)

lemma ialloc_keeps [keeps_rules]: "keeps tabs (ialloc dev ty)"
  unfolding ialloc_def by (intro keeps_rules)

lemma iupdate_keeps [keeps_rules]: "keeps tabs (iupdate i)"
  unfolding iupdate_def by (intro keeps_rules)

lemma inode_locks_keep [keeps_rules]: "keeps tabs (idup i)" "keeps tabs (lock_inode i)" "keeps tabs (unlock_inode i)"
  unfolding idup_def lock_inode_def unlock_inode_def by (intro keeps_rules)+

lemma ilock_keeps [keeps_rules]: "keeps tabs (ilock i)"
  unfolding ilock_def by (intro keeps_rules)

lemma iunlock_keeps [keeps_rules]: "keeps tabs (iunlock i)"
  unfolding iunlock_def by (intro keeps_rules)

lemma set_addr_keeps [keeps_rules]: "keeps tabs (set_addr i bn a)"
  unfolding set_addr_def by (intro keeps_rules)

lemma bmap_keeps [keeps_rules]: "keeps tabs (bmap i bn)"
  unfolding bmap_def by (intro keeps_rules)

lemma trunc_direct_keeps [keeps_rules]: "keeps tabs (trunc_direct i k)"
  by (induction k) (auto intro!: keeps_rules)

lemma trunc_indirect_keeps [keeps_rules]: "keeps tabs (trunc_indirect dev d k)"
  by (induction k) (auto intro!: keeps_rules)

lemma itrunc_keeps [keeps_rules]: "keeps tabs (itrunc i)"
  unfolding itrunc_def by (intro keeps_rules)

lemma iput_keeps [keeps_rules]: "keeps tabs (iput i)"
  unfolding iput_def by (intro keeps_rules)

lemma iunlockput_keeps [keeps_rules]: "keeps tabs (iunlockput i)"
  unfolding iunlockput_def by (intro keeps_rules)

lemma stati_keeps [keeps_rules]: "keeps tabs (stati i)"
  unfolding stati_def by (intro keeps_rules)

lemma copy_keeps [keeps_rules]: "keeps tabs (copy_to dst t bs)" "keeps tabs (copy_from src t m)"
  by (cases dst; simp add: copy_to_def; intro keeps_rules) (cases src; simp add: copy_from_def; intro keeps_rules)

lemma readi_loop_keeps [keeps_rules]: "keeps tabs (readi_loop i dst off n t)"
  by (induction i dst off n t rule: readi_loop.induct) (subst readi_loop.simps, intro keeps_rules, simp_all)

lemma readi_keeps [keeps_rules]: "keeps tabs (readi i dst off n)"
  unfolding readi_def by (intro keeps_rules)

lemma writei_loop_keeps [keeps_rules]: "keeps tabs (writei_loop i src off n t)"
  by (induction i src off n t rule: writei_loop.induct) (subst writei_loop.simps, intro keeps_rules, simp_all)

lemma writei_keeps [keeps_rules]: "keeps tabs (writei i src off n)"
  unfolding writei_def by (intro keeps_rules)

lemma dirlookup_loop_keeps [keeps_rules]: "keeps tabs (dirlookup_loop dp name sz off)"
  by (induction dp name sz off rule: dirlookup_loop.induct) (subst dirlookup_loop.simps, auto intro!: keeps_rules)

lemma dirlookup_keeps [keeps_rules]: "keeps tabs (dirlookup dp name)"
  unfolding dirlookup_def by (intro keeps_rules)

lemma dirlink_loop_keeps [keeps_rules]: "keeps tabs (dirlink_loop dp sz off)"
  by (induction dp sz off rule: dirlink_loop.induct) (subst dirlink_loop.simps, auto intro!: keeps_rules)

lemma dirlink_keeps [keeps_rules]: "keeps tabs (dirlink dp name i)"
  unfolding dirlink_def by (intro keeps_rules)

lemma namex_loop_keeps [keeps_rules]: "keeps tabs (namex_loop parent path ip)"
  by (induction parent path ip rule: namex_loop.induct) (subst namex_loop.simps, intro keeps_rules, simp_all)

lemma namex_keeps [keeps_rules]: "keeps tabs (namex parent path)"
  unfolding namex_def by (intro keeps_rules)

lemma namei_keeps [keeps_rules]: "keeps tabs (namei path)" "keeps tabs (nameiparent path)"
  unfolding namei_def nameiparent_def by (intro keeps_rules)+

end
