(* ===== verification/Tables.thy ===== *)
theory Tables
  imports Frame
begin

text \<open>
  The invariant of the process table and the table of open files, and what the functions of
  \<^verbatim>\<open>kernel/file.c\<close> and \<^verbatim>\<open>kernel/proc.c\<close> do to it. Process numbers are unique, parents are alive, only a
  process that runs or waits has open files, and the reference count of an open file is the number of
  descriptors that name it. While a function works on a file, the count may differ from that number; the
  difference is the argument \<open>ex\<close>. A process under construction is the argument \<open>u\<close>.
\<close>

section \<open>The invariant\<close>

definition live :: "procstate \<Rightarrow> bool" where
  "live st \<longleftrightarrow> st = SLEEPING \<or> st = RUNNABLE \<or> st = RUNNING"

definition proc_ok :: "nat option \<Rightarrow> 'z kst_scheme \<Rightarrow> nat \<Rightarrow> bool" where
  "proc_ok u s p \<longleftrightarrow> (let P = ptable s p in
     (pstate P = UNUSED \<longrightarrow> ppid P = 0 \<and> pparent P = None) \<and>
     (pstate P = USED \<longleftrightarrow> u = Some p) \<and>
     (pstate P \<noteq> UNUSED \<longrightarrow> 0 < ppid P \<and> ppid P < nextpid s) \<and>
     (case pparent P of None \<Rightarrow> True | Some q \<Rightarrow> q < NPROC \<and> live (pstate (ptable s q))) \<and>
     (pstate P = UNUSED \<or> pstate P = ZOMBIE \<longrightarrow> (\<forall>fd<NOFILE. pofile P fd = None)) \<and>
     (pstate P = RUNNING \<longrightarrow> curp s = p))"

definition pids_ok :: "'z kst_scheme \<Rightarrow> bool" where
  "pids_ok s \<longleftrightarrow> 0 < nextpid s \<and> nextpid s \<le> INT_MAX \<and>
     (\<forall>p<NPROC. \<forall>q<NPROC. pstate (ptable s p) \<noteq> UNUSED \<and> ppid (ptable s p) = ppid (ptable s q) \<longrightarrow> p = q)"

definition nrefs :: "'z kst_scheme \<Rightarrow> nat \<Rightarrow> int" where
  "nrefs s f = (\<Sum>p<NPROC. \<Sum>fd<NOFILE. if pofile (ptable s p) fd = Some f then 1 else 0)"

definition refs_ok :: "(nat \<Rightarrow> int) \<Rightarrow> 'z kst_scheme \<Rightarrow> bool" where
  "refs_ok ex s \<longleftrightarrow> (\<forall>f<NFILE. fref (ftable s f) = nrefs s f + ex f) \<and>
     (\<forall>p<NPROC. \<forall>fd<NOFILE. case pofile (ptable s p) fd of None \<Rightarrow> True | Some f \<Rightarrow> f < NFILE)"

definition init_ok :: "'z kst_scheme \<Rightarrow> bool" where
  "init_ok s \<longleftrightarrow> (case initproc s of None \<Rightarrow> False | Some i \<Rightarrow> i < NPROC \<and> live (pstate (ptable s i)))"

definition running :: "'z kst_scheme \<Rightarrow> bool" where
  "running s \<longleftrightarrow> curp s < NPROC \<and> pstate (ptable s (curp s)) = RUNNING"

definition tables_ok :: "(nat \<Rightarrow> int) \<Rightarrow> nat option \<Rightarrow> 'z kst_scheme \<Rightarrow> bool" where
  "tables_ok ex u s \<longleftrightarrow> (\<forall>p<NPROC. proc_ok u s p) \<and> pids_ok s \<and> refs_ok ex s"

text \<open>The invariant while a process runs, and at any time.\<close>

definition busy :: "(nat \<Rightarrow> int) \<Rightarrow> nat option \<Rightarrow> 'z kst_scheme \<Rightarrow> bool" where
  "busy ex u s \<longleftrightarrow> tables_ok ex u s \<and> init_ok s \<and> running s"

definition rest :: "'z kst_scheme \<Rightarrow> bool" where
  "rest s \<longleftrightarrow> tables_ok (\<lambda>_. 0) None s \<and> init_ok s"

section \<open>It depends on the view only\<close>

lemma tabs_eqD:
  assumes "tabs s = tabs s'"
  shows "pstate (ptable s p) = pstate (ptable s' p)" "ppid (ptable s p) = ppid (ptable s' p)" "pparent (ptable s p) = pparent (ptable s' p)"
    "pofile (ptable s p) = pofile (ptable s' p)" "fref (ftable s f) = fref (ftable s' f)" "nextpid s = nextpid s'" "curp s = curp s'" "initproc s = initproc s'"
  using assms by (auto simp: tabs_def pview_def fun_eq_iff)

lemma tables_ok_tabs: "tabs s = tabs s' \<Longrightarrow> tables_ok ex u s = tables_ok ex u s'"
  by (simp add: tables_ok_def proc_ok_def pids_ok_def refs_ok_def nrefs_def Let_def tabs_eqD[of s s'] cong: option.case_cong)

lemma init_ok_tabs: "tabs s = tabs s' \<Longrightarrow> init_ok s = init_ok s'"
  by (simp add: init_ok_def tabs_eqD[of s s'] cong: option.case_cong)

lemma running_tabs: "tabs s = tabs s' \<Longrightarrow> running s = running s'"
  by (simp add: running_def tabs_eqD[of s s'])

lemma busy_tabs: "tabs s = tabs s' \<Longrightarrow> busy ex u s = busy ex u s'"
  by (simp add: busy_def tables_ok_tabs[of s s'] init_ok_tabs[of s s'] running_tabs[of s s'])

lemma rest_tabs: "tabs s = tabs s' \<Longrightarrow> rest s = rest s'"
  by (simp add: rest_def tables_ok_tabs[of s s'] init_ok_tabs[of s s'])

definition viewed :: "('z kst_scheme \<Rightarrow> bool) \<Rightarrow> bool" where
  "viewed P \<longleftrightarrow> (\<forall>s s'. tabs s = tabs s' \<longrightarrow> P s = P s')"

named_theorems viewed_rules

lemma viewed_busy [viewed_rules]: "viewed (busy ex u)"
  unfolding viewed_def using busy_tabs by blast

lemma viewed_rest [viewed_rules]: "viewed rest"
  unfolding viewed_def using rest_tabs by blast

lemma viewed_conj [viewed_rules]: "viewed P \<Longrightarrow> viewed Q \<Longrightarrow> viewed (\<lambda>s. P s \<and> Q s)"
  unfolding viewed_def by blast

lemma viewed_const [viewed_rules]: "viewed (\<lambda>s. A)"
  by (simp add: viewed_def)

lemma viewed_fields [viewed_rules]: "viewed (\<lambda>s. A (pofile (ptable s p) fd))" "viewed (\<lambda>s. B (curp s))" "viewed (\<lambda>s. C (pstate (ptable s p)))"
  by (simp_all add: viewed_def tabs_def pview_def fun_eq_iff)

lemma triple_keeps: "keeps tabs m \<Longrightarrow> viewed P \<Longrightarrow> triple P m (\<lambda>_. P)"
  unfolding viewed_def by (rule keeps_triple) blast+

lemma triple_keeps_bnd: "keeps tabs m \<Longrightarrow> viewed P \<Longrightarrow> (\<And>x. triple P (k x) Q) \<Longrightarrow> triple P (bnd m k) Q"
  by (rule triple_bnd[OF triple_keeps])

lemma triple_keeps_sq: "keeps tabs m \<Longrightarrow> viewed P \<Longrightarrow> triple P k Q \<Longrightarrow> triple P (sq m k) Q"
  by (rule triple_sq[OF triple_keeps])

lemma triple_retI: "(\<And>s. P s \<Longrightarrow> Q x s) \<Longrightarrow> triple P (ret x) Q"
  by (simp add: triple_def run_simps)

lemma triple_gets_bnd: "(\<And>s0. triple (\<lambda>s. P s \<and> s = s0) (k (g s0)) Q) \<Longrightarrow> triple P (bnd (gets g) k) Q"
  unfolding triple_def by (auto simp: run_simps elim!: bnd_InrE)

section \<open>Changes of the tables\<close>

abbreviation put_proc :: "nat \<Rightarrow> proc \<Rightarrow> 'z kst_scheme \<Rightarrow> 'z kst_scheme" where
  "put_proc p P s \<equiv> s\<lparr>ptable := (ptable s)(p := P)\<rparr>"

abbreviation put_file :: "nat \<Rightarrow> kfile \<Rightarrow> 'z kst_scheme \<Rightarrow> 'z kst_scheme" where
  "put_file f F s \<equiv> s\<lparr>ftable := (ftable s)(f := F)\<rparr>"

definition add :: "nat \<Rightarrow> int \<Rightarrow> (nat \<Rightarrow> int) \<Rightarrow> nat \<Rightarrow> int" where
  "add f k ex = (\<lambda>g. ex g + (if g = f then k else 0))"

lemma add_add [simp]: "add f k (add f l ex) = add f (l + k) ex"
  by (auto simp: add_def fun_eq_iff)

lemma add_zero [simp]: "add f 0 ex = ex"
  by (auto simp: add_def fun_eq_iff)

lemma add_commute: "add f k (add g l ex) = add g l (add f k ex)"
  by (auto simp: add_def fun_eq_iff)

definition fds :: "proc \<Rightarrow> nat \<Rightarrow> int" where
  "fds P f = (\<Sum>fd<NOFILE. if pofile P fd = Some f then 1 else 0)"

lemma nrefs_put:
  assumes "p < NPROC"
  shows "nrefs (put_proc p P s) f = nrefs s f - fds (ptable s p) f + fds P f"
proof -
  have n: "nrefs t f = (\<Sum>q<NPROC. fds (ptable t q) f)" for t :: "'z kst_scheme" by (simp add: nrefs_def fds_def)
  have "(\<Sum>q<NPROC. fds (((ptable s)(p := P)) q) f) = fds P f + (\<Sum>q\<in>{..<NPROC} - {p}. fds (ptable s q) f)"
    using assms by (subst sum.remove[of _ p]) auto
  moreover have "(\<Sum>q<NPROC. fds (ptable s q) f) = fds (ptable s p) f + (\<Sum>q\<in>{..<NPROC} - {p}. fds (ptable s q) f)"
    using assms by (subst sum.remove[of _ p]) auto
  ultimately show ?thesis by (simp add: n)
qed

lemma fds_same: "pofile P = pofile Q \<Longrightarrow> fds P f = fds Q f"
  by (simp add: fds_def)

lemma fds_set:
  assumes "fd < NOFILE" "pofile Q = (pofile P)(fd := x)"
  shows "fds Q f = fds P f - (if pofile P fd = Some f then 1 else 0) + (if x = Some f then 1 else 0)"
proof -
  have "fds Q f = (if x = Some f then 1 else 0) + (\<Sum>d\<in>{..<NOFILE} - {fd}. if pofile P d = Some f then 1 else 0)"
    unfolding fds_def using assms by (subst sum.remove[of _ fd]) (auto intro!: sum.cong)
  moreover have "fds P f = (if pofile P fd = Some f then 1 else 0) + (\<Sum>d\<in>{..<NOFILE} - {fd}. if pofile P d = Some f then 1 else 0)"
    unfolding fds_def using assms by (subst sum.remove[of _ fd]) auto
  ultimately show ?thesis by simp
qed

lemma nrefs_ftable [simp]: "nrefs (s\<lparr>ftable := t\<rparr>) f = nrefs s f"
  by (simp add: nrefs_def)

text \<open>A change of one reference count, and of one descriptor.\<close>

lemma refs_file:
  assumes "refs_ok ex s" "f < NFILE" "fref F = fref (ftable s f) + k"
  shows "refs_ok (add f k ex) (put_file f F s)"
  using assms by (auto simp: refs_ok_def add_def)

lemma refs_set:
  assumes "refs_ok ex s" "p < NPROC" "fd < NOFILE" "pofile (ptable s p) fd = None" "f < NFILE" "pofile P = (pofile (ptable s p))(fd := Some f)"
  shows "refs_ok (add f (- 1) ex) (put_proc p P s)"
  using assms by (auto simp: refs_ok_def nrefs_put fds_set[OF assms(3,6)] add_def)

lemma refs_clear:
  assumes "refs_ok ex s" "p < NPROC" "fd < NOFILE" "pofile (ptable s p) fd = Some f" "pofile P = (pofile (ptable s p))(fd := None)"
  shows "refs_ok (add f 1 ex) (put_proc p P s)"
  using assms by (auto simp: refs_ok_def nrefs_put fds_set[OF assms(3,5)] add_def)

lemma refs_same: "refs_ok ex s \<Longrightarrow> pofile P = pofile (ptable s p) \<Longrightarrow> refs_ok ex (put_proc p P s)"
proof -
  assume h: "refs_ok ex s" "pofile P = pofile (ptable s p)"
  have p: "pofile (((ptable s)(p := P)) q) = pofile (ptable s q)" for q using h(2) by simp
  show ?thesis using h(1) by (simp add: refs_ok_def nrefs_def p del: fun_upd_apply)
qed

lemma refs_pos: "refs_ok ex s \<Longrightarrow> p < NPROC \<Longrightarrow> fd < NOFILE \<Longrightarrow> pofile (ptable s p) fd = Some f \<Longrightarrow> f < NFILE"
  by (auto simp: refs_ok_def dest!: spec[of _ p] split: option.splits)

text \<open>A process between running, ready to run and asleep.\<close>

lemma proc_ok_live:
  assumes "proc_ok u s q" "live (pstate (ptable s p))" "live (pstate P)" "pstate P = RUNNING \<longrightarrow> curp s = p"
    "ppid P = ppid (ptable s p)" "pparent P = pparent (ptable s p)"
  shows "proc_ok u (put_proc p P s) q"
proof -
  have l: "pstate P \<noteq> UNUSED" "pstate P \<noteq> USED" "pstate P \<noteq> ZOMBIE" "pstate (ptable s p) \<noteq> UNUSED" "pstate (ptable s p) \<noteq> USED"
    using assms(2,3) by (auto simp: live_def)
  show ?thesis using assms l by (cases "q = p") (auto simp: proc_ok_def Let_def split: option.splits)
qed

lemma pids_ok_put:
  assumes "pids_ok s" "ppid P = ppid (ptable s p)" "pstate P = UNUSED \<longleftrightarrow> pstate (ptable s p) = UNUSED"
  shows "pids_ok (put_proc p P s)"
proof -
  have p: "ppid (((ptable s)(p := P)) q) = ppid (ptable s q)" "pstate (((ptable s)(p := P)) q) = UNUSED \<longleftrightarrow> pstate (ptable s q) = UNUSED" for q
    using assms(2,3) by simp_all
  show ?thesis using assms(1) by (simp add: pids_ok_def p del: fun_upd_apply)
qed

lemma tables_live:
  assumes "tables_ok ex u s" "live (pstate (ptable s p))" "live (pstate P)" "pstate P = RUNNING \<longrightarrow> curp s = p"
    "ppid P = ppid (ptable s p)" "pparent P = pparent (ptable s p)" "pofile P = pofile (ptable s p)"
  shows "tables_ok ex u (put_proc p P s)"
proof -
  have "pstate P = UNUSED \<longleftrightarrow> pstate (ptable s p) = UNUSED" using assms(2,3) by (auto simp: live_def)
  then show ?thesis using assms by (auto simp: tables_ok_def intro: proc_ok_live pids_ok_put refs_same)
qed

lemma init_live: "init_ok s \<Longrightarrow> live (pstate P) \<Longrightarrow> init_ok (put_proc p P s)"
  by (auto simp: init_ok_def split: option.splits)

lemma rest_live:
  assumes "rest s" "live (pstate (ptable s p))" "live (pstate P)" "pstate P = RUNNING \<longrightarrow> curp s = p"
    "ppid P = ppid (ptable s p)" "pparent P = pparent (ptable s p)" "pofile P = pofile (ptable s p)"
  shows "rest (put_proc p P s)"
  using assms by (auto simp: rest_def intro: tables_live init_live)

lemma busy_rest: "busy (\<lambda>_. 0) None s \<Longrightarrow> rest s"
  by (simp add: busy_def rest_def)

lemma busy_running: "busy ex u s \<Longrightarrow> curp s < NPROC" "busy ex u s \<Longrightarrow> pstate (ptable s (curp s)) = RUNNING"
  by (simp_all add: busy_def running_def)

text \<open>A descriptor of a process that is alive or under construction.\<close>

lemma proc_ok_fd:
  assumes "proc_ok u s q" "pstate (ptable s p) \<noteq> UNUSED" "pstate (ptable s p) \<noteq> ZOMBIE"
    "pstate P = pstate (ptable s p)" "ppid P = ppid (ptable s p)" "pparent P = pparent (ptable s p)"
  shows "proc_ok u (put_proc p P s) q"
  using assms by (cases "q = p") (auto simp: proc_ok_def Let_def split: option.splits)

lemma running_put: "running s \<Longrightarrow> pstate P = pstate (ptable s p) \<Longrightarrow> running (put_proc p P s)"
  by (auto simp: running_def)

lemma init_put: "init_ok s \<Longrightarrow> pstate P = pstate (ptable s p) \<Longrightarrow> init_ok (put_proc p P s)"
  by (auto simp: init_ok_def split: option.splits)

lemma busy_fd:
  assumes "busy ex u s" "refs_ok ex' (put_proc p P s)" "pstate (ptable s p) \<noteq> UNUSED" "pstate (ptable s p) \<noteq> ZOMBIE"
    "pstate P = pstate (ptable s p)" "ppid P = ppid (ptable s p)" "pparent P = pparent (ptable s p)"
  shows "busy ex' u (put_proc p P s)"
  using assms by (auto simp: busy_def tables_ok_def intro: proc_ok_fd pids_ok_put running_put init_put)

lemma proc_ok_file [simp]: "proc_ok u (s\<lparr>ftable := t\<rparr>) p = proc_ok u s p"
  by (simp add: proc_ok_def Let_def cong: option.case_cong)

lemma busy_file:
  assumes "busy ex u s" "f < NFILE" "fref F = fref (ftable s f) + k"
  shows "busy (add f k ex) u (put_file f F s)"
proof -
  have "init_ok (put_file f F s) = init_ok s" by (simp add: init_ok_def cong: option.case_cong)
  then show ?thesis using assms refs_file[OF _ assms(2,3), of ex] by (simp add: busy_def tables_ok_def pids_ok_def running_def)
qed

section \<open>Open files\<close>

text \<open>The part of the view that the file table has no part in.\<close>

definition ptab :: "'z kst_scheme \<Rightarrow> (nat \<Rightarrow> procstate \<times> int \<times> nat option \<times> (nat \<Rightarrow> nat option)) \<times> nat \<times> nat option" where
  "ptab s = (\<lambda>p. pview (ptable s p), curp s, initproc s)"

lemma viewed_ptab [viewed_rules]: "viewed (\<lambda>s. A (ptab s))"
  by (simp add: viewed_def tabs_def ptab_def)

lemma ptab_file [simp]: "ptab (s\<lparr>ftable := t\<rparr>) = ptab s"
  by (simp add: ptab_def)

lemma find_upt: "List.find P [0..<n] = Some k \<Longrightarrow> k < n \<and> P k"
  by (auto simp: find_Some_iff)

lemma filealloc_ok:
  "triple (\<lambda>s. busy ex u s \<and> A (ptab s)) filealloc
     (\<lambda>r s. (case r of None \<Rightarrow> busy ex u s | Some f \<Rightarrow> f < NFILE \<and> busy (add f 1 ex) u s) \<and> A (ptab s))"
proof (rule tripleI)
  fix s r s' assume h: "busy ex u s \<and> A (ptab s)" "filealloc s = Inr (r, s')"
  show "(case r of None \<Rightarrow> busy ex u s' | Some f \<Rightarrow> f < NFILE \<and> busy (add f 1 ex) u s') \<and> A (ptab s')"
  proof (cases "List.find (\<lambda>f. fref (ftable s f) = 0) [0..<NFILE]")
    case None
    then show ?thesis using h by (auto simp: filealloc_def run_simps)
  next
    case (Some f)
    have "filealloc s = Inr (Some f, put_file f (ftable s f\<lparr>fref := 1\<rparr>) s)" by (simp add: filealloc_def run_simps file_upd_def Some)
    then have "r = Some f" "s' = put_file f (ftable s f\<lparr>fref := 1\<rparr>) s" using h(2) by simp_all
    moreover have "busy (add f 1 ex) u (put_file f (ftable s f\<lparr>fref := 1\<rparr>) s)" using h(1) find_upt[OF Some] by (intro busy_file) auto
    ultimately show ?thesis using h(1) find_upt[OF Some] by simp
  qed
qed

lemma filedup_ok:
  "f < NFILE \<Longrightarrow> triple (\<lambda>s. busy ex u s \<and> A (ptab s)) (filedup f) (\<lambda>r s. r = f \<and> busy (add f 1 ex) u s \<and> A (ptab s))"
  by (rule tripleI) (auto simp: filedup_def run_simps kst_run panic_def bnd_def sq_def split: if_splits intro!: busy_file)

lemma file_release_keeps [keeps_rules]: "keeps tabs (file_release ff)"
  unfolding file_release_def by (cases "ftyp ff") (auto intro!: keeps_rules)

lemma fileclose_ok:
  assumes "f < NFILE"
  shows "triple (\<lambda>s. busy ex u s \<and> A (ptab s)) (fileclose f) (\<lambda>_ s. busy (add f (- 1) ex) u s \<and> A (ptab s))"
proof (rule tripleI)
  fix s x s' assume h: "busy ex u s \<and> A (ptab s)" "fileclose f s = Inr (x, s')"
  let ?F = "ftable s f"
  let ?s1 = "put_file f (?F\<lparr>fref := fref ?F - 1\<rparr>) s"
  have r: "\<not> fref ?F < 1" using h(2) by (auto simp: fileclose_def run_simps kst_run panic_def)
  have b1: "busy (add f (- 1) ex) u ?s1" using h(1) assms by (intro busy_file) auto
  show "busy (add f (- 1) ex) u s' \<and> A (ptab s')"
  proof (cases "fref ?F - 1 > 0")
    case True
    then have "s' = ?s1" using h(2) r by (auto simp: fileclose_def run_simps kst_run)
    then show ?thesis using b1 h(1) by simp
  next
    case False
    let ?s2 = "put_file f (?F\<lparr>fref := 0, ftyp := FD_NONE\<rparr>) ?s1"
    have m: "file_release (?F\<lparr>fref := fref ?F - 1\<rparr>) ?s2 = Inr (x, s')"
      using h(2) r False by (simp add: fileclose_def run_simps kst_run)
    have t: "tabs s' = tabs ?s2" by (rule keepsD[OF file_release_keeps m])
    have "fref ?F = 1" using r False by simp
    then have "busy (add f (- 1) ex) u ?s2" using h(1) assms by (simp add: busy_file)
    moreover have "ptab s' = ptab s" using t by (simp add: tabs_def ptab_def)
    ultimately show ?thesis using busy_tabs[OF t] h(1) by simp
  qed
qed

section \<open>Descriptors\<close>

lemma fdalloc_run:
  assumes "busy ex u s" "fdalloc f s = Inr (r, s')" "f < NFILE"
  shows "case r of None \<Rightarrow> s' = s | Some fd \<Rightarrow> fd < NOFILE \<and> pofile (ptable s (curp s)) fd = None \<and> curp s' = curp s \<and>
    pofile (ptable s' (curp s)) = (pofile (ptable s (curp s)))(fd := Some f) \<and> busy (add f (- 1) ex) u s'"
proof (cases "List.find (\<lambda>fd. pofile (ptable s (curp s)) fd = None) [0..<NOFILE]")
  case None
  then show ?thesis using assms by (auto simp: fdalloc_def run_simps kst_run)
next
  case (Some fd)
  let ?P = "ptable s (curp s)"
  let ?P' = "?P\<lparr>pofile := (pofile ?P)(fd := Some f)\<rparr>"
  have r: "r = Some fd" "s' = put_proc (curp s) ?P' s" using assms(2) Some by (auto simp: fdalloc_def run_simps kst_run)
  have fd: "fd < NOFILE" "pofile ?P fd = None" using find_upt[OF Some] by auto
  have "refs_ok ex s" using assms(1) by (simp add: busy_def tables_ok_def)
  then have "refs_ok (add f (- 1) ex) (put_proc (curp s) ?P' s)"
    using assms(3) fd busy_running[OF assms(1)] by (intro refs_set) auto
  then have "busy (add f (- 1) ex) u s'" unfolding r(2) using busy_running[OF assms(1)] by (intro busy_fd[OF assms(1)]) auto
  then show ?thesis using r fd by simp
qed

lemma fdalloc_ok:
  "f < NFILE \<Longrightarrow> triple (busy ex u) (fdalloc f) (\<lambda>r s. case r of None \<Rightarrow> busy ex u s
     | Some fd \<Rightarrow> fd < NOFILE \<and> pofile (ptable s (curp s)) fd = Some f \<and> busy (add f (- 1) ex) u s)"
  by (rule tripleI) (frule fdalloc_run, assumption, assumption, auto split: option.splits)

lemma fdalloc_second:
  "f < NFILE \<Longrightarrow> triple (\<lambda>s. busy ex u s \<and> pofile (ptable s (curp s)) d = Some g) (fdalloc f)
     (\<lambda>r s. pofile (ptable s (curp s)) d = Some g \<and> (case r of None \<Rightarrow> busy ex u s
     | Some fd \<Rightarrow> fd \<noteq> d \<and> fd < NOFILE \<and> pofile (ptable s (curp s)) fd = Some f \<and> busy (add f (- 1) ex) u s))"
  by (rule tripleI) (elim conjE, frule fdalloc_run, assumption, assumption, auto split: option.splits)

lemma fd_clear_ok:
  assumes "fd < NOFILE"
  shows "triple (\<lambda>s. busy ex u s \<and> pofile (ptable s (curp s)) fd = Some f) (fd_clear fd)
    (\<lambda>_ s. busy (add f 1 ex) u s)"
proof (rule tripleI)
  fix s x s' assume h: "busy ex u s \<and> pofile (ptable s (curp s)) fd = Some f" "fd_clear fd s = Inr (x, s')"
  let ?P = "ptable s (curp s)"
  let ?P' = "?P\<lparr>pofile := (pofile ?P)(fd := None)\<rparr>"
  have r: "s' = put_proc (curp s) ?P' s" using h(2) by (auto simp: fd_clear_def run_simps kst_run)
  have "refs_ok ex s" using h(1) by (simp add: busy_def tables_ok_def)
  then have "refs_ok (add f 1 ex) (put_proc (curp s) ?P' s)" using assms h(1) busy_running[of ex u s] by (intro refs_clear) auto
  then show "busy (add f 1 ex) u s'" unfolding r using h(1) busy_running[of ex u s] by (intro busy_fd) auto
qed

lemma fd_clear_first:
  assumes "fd < NOFILE" "d \<noteq> fd"
  shows "triple (\<lambda>s. busy ex u s \<and> pofile (ptable s (curp s)) fd = Some f \<and> pofile (ptable s (curp s)) d = Some g) (fd_clear fd)
    (\<lambda>_ s. busy (add f 1 ex) u s \<and> pofile (ptable s (curp s)) d = Some g)"
proof (rule tripleI)
  fix s x s' assume h: "busy ex u s \<and> pofile (ptable s (curp s)) fd = Some f \<and> pofile (ptable s (curp s)) d = Some g" "fd_clear fd s = Inr (x, s')"
  have "busy (add f 1 ex) u s'" using tripleD[OF fd_clear_ok[OF assms(1)]] h by blast
  moreover have "pofile (ptable s' (curp s')) d = Some g" using h assms by (auto simp: fd_clear_def run_simps kst_run)
  ultimately show "busy (add f 1 ex) u s' \<and> pofile (ptable s' (curp s')) d = Some g" by simp
qed

end
