(* ===== verification/Procs.thy ===== *)
theory Procs
  imports Tables
begin

text \<open>
  The functions of \<^verbatim>\<open>kernel/proc.c\<close> keep the invariant of the tables. What a process table entry that is not
  alive goes through - creation and release - does not concern the others; \<open>bystander\<close> is the
  interface of the facts about the others that the callers of \<^verbatim>\<open>allocproc\<close> and \<^verbatim>\<open>freeproc\<close> rely on.
\<close>

section \<open>Creation and release\<close>

lemma pids_okI:
  "0 < nextpid s \<Longrightarrow> nextpid s \<le> INT_MAX \<Longrightarrow> (\<And>p q. p < NPROC \<Longrightarrow> q < NPROC \<Longrightarrow> pstate (ptable s p) \<noteq> UNUSED \<Longrightarrow> ppid (ptable s p) = ppid (ptable s q) \<Longrightarrow> p = q) \<Longrightarrow> pids_ok s"
  by (simp add: pids_ok_def)

lemma pids_okD: "pids_ok s \<Longrightarrow> p < NPROC \<Longrightarrow> q < NPROC \<Longrightarrow> pstate (ptable s p) \<noteq> UNUSED \<Longrightarrow> ppid (ptable s p) = ppid (ptable s q) \<Longrightarrow> p = q"
  by (simp add: pids_ok_def)

lemma tables_free:
  assumes "tables_ok ex u s" "u = None \<or> u = Some p" "p < NPROC" "\<not> live (pstate (ptable s p))" "\<forall>fd<NOFILE. pofile (ptable s p) fd = None"
    "pstate P = UNUSED" "ppid P = 0" "pparent P = None" "pofile P = pofile (ptable s p)"
  shows "tables_ok ex None (put_proc p P s)"
proof -
  have ok: "proc_ok u s q" if "q < NPROC" for q using assms(1) that by (simp add: tables_ok_def)
  have "proc_ok None (put_proc p P s) q" if "q < NPROC" for q
    using ok[OF that] assms by (cases "q = p") (auto simp: proc_ok_def Let_def split: option.splits)
  moreover have "pids_ok (put_proc p P s)"
  proof -
    have pos: "0 < ppid (ptable s q)" if "q < NPROC" "pstate (ptable s q) \<noteq> UNUSED" for q
      using ok[OF that(1)] that(2) by (simp add: proc_ok_def Let_def)
    have "pids_ok s" using assms(1) by (simp add: tables_ok_def)
    moreover have "0 < nextpid s" "nextpid s \<le> INT_MAX" using assms(1) by (simp_all add: tables_ok_def pids_ok_def)
    ultimately show ?thesis using assms(6,7) pos pids_okD[of s]
      by (intro pids_okI) (fastforce split: if_splits)+
  qed
  ultimately show ?thesis using assms(1,9) by (auto simp: tables_ok_def intro: refs_same)
qed

lemma tables_used:
  assumes "tables_ok ex None s" "p < NPROC" "pstate (ptable s p) = UNUSED"
    "pstate P = USED" "ppid P = nextpid s" "pparent P = None" "pofile P = pofile (ptable s p)" "nextpid s < INT_MAX"
  shows "tables_ok ex (Some p) (put_proc p P (s\<lparr>nextpid := nextpid s + 1\<rparr>))"
proof -
  let ?t = "put_proc p P (s\<lparr>nextpid := nextpid s + 1\<rparr>)"
  have ok: "proc_ok None s q" if "q < NPROC" for q using assms(1) that by (simp add: tables_ok_def)
  have n: "0 < nextpid s" using assms(1) by (simp add: tables_ok_def pids_ok_def)
  have "proc_ok (Some p) ?t q" if "q < NPROC" for q
    using ok[OF that] assms n by (cases "q = p") (auto simp: proc_ok_def Let_def live_def split: option.splits)
  moreover have "pids_ok ?t"
  proof -
    have lt: "ppid (ptable s q) < nextpid s" if "q < NPROC" for q
      using ok[OF that] n by (cases "pstate (ptable s q) = UNUSED") (auto simp: proc_ok_def Let_def)
    have "pids_ok s" using assms(1) by (simp add: tables_ok_def)
    then show ?thesis using assms(5,8) lt n pids_okD[of s] by (intro pids_okI) (fastforce split: if_splits)+
  qed
  moreover have "refs_ok ex ?t"
  proof -
    have "refs_ok ex (s\<lparr>nextpid := nextpid s + 1\<rparr>)" using assms(1) by (simp add: tables_ok_def refs_ok_def nrefs_def)
    then show ?thesis using assms(7) by (intro refs_same) auto
  qed
  ultimately show ?thesis by (simp add: tables_ok_def)
qed

locale bystander =
  fixes Z :: "'z kst_scheme \<Rightarrow> bool"
  assumes view: "viewed Z"
    and put: "Z s \<Longrightarrow> \<not> live (pstate (ptable s p)) \<Longrightarrow> \<not> live (pstate P) \<Longrightarrow> Z (put_proc p P s)"
    and pid: "Z s \<Longrightarrow> Z (s\<lparr>nextpid := n\<rparr>)"
begin

lemma after_freeproc:
  assumes "u = None \<or> u = Some p" "p < NPROC"
  shows "triple (\<lambda>s. tables_ok ex u s \<and> Z s \<and> \<not> live (pstate (ptable s p)) \<and> (\<forall>fd<NOFILE. pofile (ptable s p) fd = None)) (freeproc p)
    (\<lambda>_ s. tables_ok ex None s \<and> Z s)"
proof -
  let ?A = "\<lambda>s. tables_ok ex u s \<and> Z s \<and> \<not> live (pstate (ptable s p)) \<and> (\<forall>fd<NOFILE. pofile (ptable s p) fd = None)"
  have v: "viewed ?A" using view tables_ok_tabs tabs_eqD unfolding viewed_def by metis
  have u: "triple ?A (proc_upd p (\<lambda>P. P\<lparr>ptrapframe := 0, ppagetable := 0, psz := 0, ppid := 0, pparent := None, pname := [], pchan := None,
        pkilled := False, pxstate := 0, pstate := UNUSED\<rparr>)) (\<lambda>_ s. tables_ok ex None s \<and> Z s)"
    using assms by (intro tripleI) (auto simp: proc_upd_def run_simps live_def intro!: tables_free put)
  show ?thesis unfolding freeproc_def
    by (intro triple_keeps_bnd triple_keeps_sq v u keeps_rules) (auto simp: proc_freepagetable_def intro!: keeps_rules)
qed

lemma after_used:
  assumes "p < NPROC" "pstate (ptable s0 p) = UNUSED"
  shows "triple (\<lambda>s. s = s0\<lparr>nextpid := nextpid s0 + 1\<rparr> \<and> n = nextpid s0 \<and> n < INT_MAX \<and> tables_ok ex None s0 \<and> Z s0)
    (proc_upd p (\<lambda>P. P\<lparr>ppid := n, pstate := USED\<rparr>))
    (\<lambda>_ s. tables_ok ex (Some p) s \<and> Z s \<and> \<not> live (pstate (ptable s p)) \<and> (\<forall>fd<NOFILE. pofile (ptable s p) fd = None))"
proof (rule tripleI, elim conjE)
  fix s x s' assume h: "s = s0\<lparr>nextpid := nextpid s0 + 1\<rparr>" "n = nextpid s0" "n < INT_MAX" "tables_ok ex None s0" "Z s0"
    "proc_upd p (\<lambda>P. P\<lparr>ppid := n, pstate := USED\<rparr>) s = Inr (x, s')"
  let ?P' = "(ptable s0 p)\<lparr>ppid := nextpid s0, pstate := USED\<rparr>"
  have s': "s' = put_proc p ?P' (s0\<lparr>nextpid := nextpid s0 + 1\<rparr>)" using h by (auto simp: proc_upd_def run_simps)
  have "proc_ok None s0 p" using h(4) assms(1) by (simp add: tables_ok_def)
  then have un: "pparent (ptable s0 p) = None" "\<forall>fd<NOFILE. pofile (ptable s0 p) fd = None" using assms(2) by (auto simp: proc_ok_def Let_def)
  have "tables_ok ex (Some p) s'" unfolding s' using h(2-4) assms un by (intro tables_used) auto
  moreover have "Z s'" unfolding s' using h(5) assms(2) by (intro put pid) (auto simp: live_def)
  ultimately show "tables_ok ex (Some p) s' \<and> Z s' \<and> \<not> live (pstate (ptable s' p)) \<and> (\<forall>fd<NOFILE. pofile (ptable s' p) fd = None)"
    using un by (simp add: s' live_def)
qed

lemma after_found:
  assumes "p < NPROC" "pstate (ptable s0 p) = UNUSED"
  shows "triple (\<lambda>s. (tables_ok ex None s \<and> Z s) \<and> s = s0) (allocproc_found p) (\<lambda>r s. case r of None \<Rightarrow> tables_ok ex None s \<and> Z s
     | Some p \<Rightarrow> p < NPROC \<and> tables_ok ex (Some p) s \<and> Z s \<and> (\<forall>fd<NOFILE. pofile (ptable s p) fd = None))" (is "triple ?P _ ?Q")
proof -
  let ?B = "\<lambda>s. tables_ok ex (Some p) s \<and> Z s \<and> \<not> live (pstate (ptable s p)) \<and> (\<forall>fd<NOFILE. pofile (ptable s p) fd = None)"
  have v: "viewed ?B" using view tables_ok_tabs tabs_eqD unfolding viewed_def by metis
  have new: "triple ?P allocpid (\<lambda>n s. s = s0\<lparr>nextpid := nextpid s0 + 1\<rparr> \<and> n = nextpid s0 \<and> n < INT_MAX \<and> tables_ok ex None s0 \<and> Z s0)"
    by (rule tripleI) (auto simp: allocpid_def tables_ok_def pids_ok_def run_simps split: if_splits)
  have free: "triple ?B (sq (freeproc p) (ret None)) ?Q"
    by (rule triple_sq[OF after_freeproc]) (auto simp: assms intro!: triple_retI)
  show ?thesis unfolding allocproc_found_def
    by (rule triple_bnd[OF new], rule triple_sq[OF after_used[OF assms]], intro triple_keeps_bnd triple_keeps_sq triple_if v free keeps_rules)
      (auto simp: pview_def assms proc_pagetable_def intro!: triple_retI keeps_rules)
qed

lemma after_allocproc:
  "triple (\<lambda>s. tables_ok ex None s \<and> Z s) allocproc (\<lambda>r s. case r of None \<Rightarrow> tables_ok ex None s \<and> Z s
     | Some p \<Rightarrow> p < NPROC \<and> tables_ok ex (Some p) s \<and> Z s \<and> (\<forall>fd<NOFILE. pofile (ptable s p) fd = None))"
  unfolding allocproc_def
  by (rule triple_gets_bnd, rule triple_option, rule triple_retI, simp, drule find_upt, rule after_found) simp_all

end

interpretation bsy: bystander "\<lambda>s. init_ok s \<and> running s \<and> curp s = p" for p
proof
  show "viewed (\<lambda>s. init_ok s \<and> running s \<and> curp s = p)" unfolding viewed_def using init_ok_tabs running_tabs tabs_eqD(7) by metis
qed (auto simp: init_ok_def running_def live_def split: option.splits)

text \<open>The process that runs, \<open>p\<close>, creates and releases others.\<close>

lemma allocproc_ok:
  "triple (\<lambda>s. busy ex None s \<and> curp s = p) allocproc (\<lambda>r s. case r of None \<Rightarrow> busy ex None s \<and> curp s = p
     | Some np \<Rightarrow> np < NPROC \<and> (busy ex (Some np) s \<and> curp s = p) \<and> (\<forall>fd<NOFILE. pofile (ptable s np) fd = None))"
  unfolding busy_def by (rule triple_post[OF triple_pre[OF bsy.after_allocproc]]) (auto split: option.splits)

lemma busy_used: "busy ex (Some np) s \<Longrightarrow> np < NPROC \<Longrightarrow> pstate (ptable s np) = USED"
  by (auto simp: busy_def tables_ok_def proc_ok_def Let_def)

lemma freeproc_used:
  "np < NPROC \<Longrightarrow> triple (\<lambda>s. (busy ex (Some np) s \<and> curp s = p) \<and> (\<forall>fd<NOFILE. pofile (ptable s np) fd = None)) (freeproc np)
     (\<lambda>_ s. busy ex None s \<and> curp s = p)"
  by (rule triple_post[OF triple_pre[OF bsy.after_freeproc[of "Some np" np ex p]]])
    (auto simp: busy_def live_def tables_ok_def proc_ok_def Let_def)

lemma freeproc_zombie:
  "pp < NPROC \<Longrightarrow> triple (\<lambda>s. busy ex None s \<and> curp s = p \<and> pstate (ptable s pp) = ZOMBIE) (freeproc pp) (\<lambda>_ s. busy ex None s \<and> curp s = p)"
  by (rule triple_post[OF triple_pre[OF bsy.after_freeproc[of None pp ex p]]])
    (auto simp: busy_def live_def tables_ok_def proc_ok_def Let_def)

section \<open>Fork\<close>

lemma fork_fd_ok:
  assumes "np < NPROC" "i < NOFILE" "f < NFILE"
  shows "triple (\<lambda>s. (busy (add f 1 ex) (Some np) s \<and> curp s = p) \<and> (\<forall>fd<NOFILE. i \<le> fd \<longrightarrow> pofile (ptable s np) fd = None))
    (proc_upd np (\<lambda>P. P\<lparr>pofile := (pofile P)(i := Some f)\<rparr>))
    (\<lambda>_ s. (busy ex (Some np) s \<and> curp s = p) \<and> (\<forall>fd<NOFILE. Suc i \<le> fd \<longrightarrow> pofile (ptable s np) fd = None))"
proof (rule tripleI)
  fix s x s' assume h: "(busy (add f 1 ex) (Some np) s \<and> curp s = p) \<and> (\<forall>fd<NOFILE. i \<le> fd \<longrightarrow> pofile (ptable s np) fd = None)"
    "proc_upd np (\<lambda>P. P\<lparr>pofile := (pofile P)(i := Some f)\<rparr>) s = Inr (x, s')"
  let ?P = "(ptable s np)\<lparr>pofile := (pofile (ptable s np))(i := Some f)\<rparr>"
  have s': "s' = put_proc np ?P s" using h(2) by (auto simp: proc_upd_def run_simps)
  have "refs_ok (add f 1 ex) s" using h(1) by (simp add: busy_def tables_ok_def)
  then have "refs_ok (add f (- 1) (add f 1 ex)) (put_proc np ?P s)" using assms h(1) by (intro refs_set) auto
  moreover have "pstate (ptable s np) = USED" using busy_used[of "add f 1 ex" np s] h(1) assms(1) by simp
  ultimately have "busy ex (Some np) s'" unfolding s' using h(1) by (intro busy_fd) auto
  then show "(busy ex (Some np) s' \<and> curp s' = p) \<and> (\<forall>fd<NOFILE. Suc i \<le> fd \<longrightarrow> pofile (ptable s' np) fd = None)" using h(1) by (auto simp: s')
qed

lemma fork_files_ok:
  assumes "np < NPROC" "p < NPROC" "i \<le> NOFILE"
  shows "triple (\<lambda>s. (busy ex (Some np) s \<and> curp s = p) \<and> (\<forall>fd<NOFILE. pofile (ptable s np) fd = None)) (fork_files p np i)
    (\<lambda>_ s. (busy ex (Some np) s \<and> curp s = p) \<and> (\<forall>fd<NOFILE. i \<le> fd \<longrightarrow> pofile (ptable s np) fd = None))"
  using assms(3)
proof (induction i)
  case (Suc i)
  let ?A = "\<lambda>ex s. (busy ex (Some np) s \<and> curp s = p) \<and> (\<forall>fd<NOFILE. i \<le> fd \<longrightarrow> pofile (ptable s np) fd = None)"
  let ?Q = "\<lambda>_ s. (busy ex (Some np) s \<and> curp s = p) \<and> (\<forall>fd<NOFILE. Suc i \<le> fd \<longrightarrow> pofile (ptable s np) fd = None)"
  let ?put = "\<lambda>f. proc_upd np (\<lambda>P. P\<lparr>pofile := (pofile P)(i := Some f)\<rparr>)"
  have i: "i < NOFILE" "i \<le> NOFILE" using Suc.prems by auto
  have dup: "triple (?A ex) (filedup f) (\<lambda>r s. r = f \<and> ?A (add f 1 ex) s)" if "f < NFILE" for f
    using filedup_ok[OF that, of ex "Some np" "\<lambda>t. fst (snd t) = p \<and> (\<forall>fd<NOFILE. i \<le> fd \<longrightarrow> snd (snd (snd (fst t np))) fd = None)"] by (simp add: ptab_def pview_def)
  have put: "triple (\<lambda>s. r = f \<and> ?A (add f 1 ex) s) (?put r) ?Q" if "f < NFILE" for r f
  proof (rule triple_asm[where A = "r = f"])
    show "triple (\<lambda>s. r = f \<and> ?A (add f 1 ex) s) (?put r) ?Q" if "r = f"
      unfolding that by (rule triple_pre[OF fork_fd_ok[OF assms(1) i(1) \<open>f < NFILE\<close>]]) (erule conjunct2)
  qed (erule conjunct1)
  have step: "triple (\<lambda>s. ?A ex s \<and> s = s0) (bnd (filedup f) ?put) ?Q" if f: "pofile (ptable s0 p) i = Some f" for s0 f
  proof (rule triple_asm[where A = "f < NFILE"])
    show "f < NFILE" if "?A ex s \<and> s = s0" for s
      using that f assms(2) i(1) by (auto simp: busy_def tables_ok_def intro: refs_pos)
  next
    assume "f < NFILE"
    then show "triple (\<lambda>s. ?A ex s \<and> s = s0) (bnd (filedup f) ?put) ?Q"
      by (intro triple_bnd[OF triple_pre[OF dup] put]) auto
  qed
  show ?case unfolding fork_files.simps
    by (rule triple_sq[OF Suc.IH[OF i(2)]], rule triple_gets_bnd, rule triple_option, rule triple_retI, force, erule step)
qed (auto intro!: triple_retI)

lemma tables_ready:
  assumes "tables_ok ex (Some p) s" "p < NPROC" "pstate P = RUNNABLE" "ppid P = ppid (ptable s p)" "pparent P = pparent (ptable s p)"
    "pofile P = pofile (ptable s p)"
  shows "tables_ok ex None (put_proc p P s)"
proof -
  have ok: "proc_ok (Some p) s q" if "q < NPROC" for q using assms(1) that by (simp add: tables_ok_def)
  have u: "pstate (ptable s p) = USED" using ok[OF assms(2)] by (simp add: proc_ok_def Let_def)
  have "proc_ok None (put_proc p P s) q" if "q < NPROC" for q
    using ok[OF that] ok[OF assms(2)] assms(3-6) u by (cases "q = p") (auto simp: proc_ok_def Let_def live_def split: option.splits)
  then show ?thesis using assms u by (auto simp: tables_ok_def intro: refs_same pids_ok_put)
qed

lemma busy_parent:
  assumes "busy ex (Some np) s" "np < NPROC" "p = curp s"
  shows "busy ex (Some np) (put_proc np ((ptable s np)\<lparr>pparent := Some p\<rparr>) s)"
proof -
  let ?P = "(ptable s np)\<lparr>pparent := Some p\<rparr>"
  note r = busy_running[OF assms(1)]
  have u: "pstate (ptable s np) = USED" by (rule busy_used[OF assms(1,2)])
  have ok: "proc_ok (Some np) s q" if "q < NPROC" for q using assms(1) that by (simp add: busy_def tables_ok_def)
  have n: "np \<noteq> p" using u r assms(3) by auto
  have "proc_ok (Some np) (put_proc np ?P s) q" if "q < NPROC" for q
    using ok[OF that] u r assms(3) n by (cases "q = np") (auto simp: proc_ok_def Let_def live_def split: option.splits)
  then show ?thesis using assms(1) by (auto simp: busy_def tables_ok_def intro: refs_same pids_ok_put running_put init_put)
qed

lemma busy_ready:
  assumes "busy ex (Some np) s" "np < NPROC"
  shows "busy ex None (put_proc np ((ptable s np)\<lparr>pstate := RUNNABLE\<rparr>) s)"
proof -
  have "np \<noteq> curp s" using busy_used[OF assms] busy_running[OF assms(1)] by auto
  then show ?thesis using assms by (auto simp: busy_def running_def live_def intro!: tables_ready init_live)
qed

lemma fork_tail_ok:
  assumes "np < NPROC"
  shows "triple (\<lambda>s. busy ex (Some np) s \<and> curp s = p)
    (sq (proc_upd np (\<lambda>Q. Q\<lparr>pcwd := Some cwd, pname := nm\<rparr>))
     (sq (proc_upd np (\<lambda>Q. Q\<lparr>pparent := Some p\<rparr>))
     (sq (proc_upd np (\<lambda>Q. Q\<lparr>pstate := RUNNABLE\<rparr>)) (ret pid)))) (\<lambda>_. busy ex None)"
proof -
  have v: "viewed (\<lambda>s. busy ex (Some np) s \<and> curp s = p)" by (intro viewed_rules)
  have 1: "triple (\<lambda>s. busy ex (Some np) s \<and> curp s = p) (proc_upd np (\<lambda>Q. Q\<lparr>pparent := Some p\<rparr>)) (\<lambda>_. busy ex (Some np))"
    by (rule tripleI) (auto simp: proc_upd_def run_simps intro!: busy_parent assms)
  have 2: "triple (busy ex (Some np)) (proc_upd np (\<lambda>Q. Q\<lparr>pstate := RUNNABLE\<rparr>)) (\<lambda>_. busy ex None)"
    by (rule tripleI) (auto simp: proc_upd_def run_simps intro!: busy_ready assms)
  show ?thesis
    by (rule triple_keeps_sq[OF _ v triple_sq[OF 1 triple_sq[OF 2]]]) (auto simp: pview_def intro!: keeps_rules triple_retI)
qed

lemma tf_keeps [keeps_rules]: "keeps tabs (tf_get p off)" "keeps tabs (tf_put p off w)"
  unfolding tf_get_def tf_put_def by (intro keeps_rules)+

lemma fork_into_ok:
  assumes "np < NPROC" "p < NPROC"
  shows "triple (\<lambda>s. (busy ex (Some np) s \<and> curp s = p) \<and> (\<forall>fd<NOFILE. pofile (ptable s np) fd = None)) (fork_into p np) (\<lambda>_. busy ex None)"
    (is "triple ?R _ ?Q")
proof -
  have v: "viewed ?R" using busy_tabs tabs_eqD(4,7) unfolding viewed_def by metis
  have w: "viewed (\<lambda>s. busy ex (Some np) s \<and> curp s = p)" by (intro viewed_rules)
  have files: "triple ?R (fork_files p np NOFILE) (\<lambda>_ s. busy ex (Some np) s \<and> curp s = p)"
    by (rule triple_post[OF fork_files_ok]) (auto simp: assms)
  have free: "triple ?R (sq (freeproc np) (ret (- 1))) ?Q"
    by (rule triple_sq[OF freeproc_used[OF assms(1)]], rule triple_retI) simp
  show ?thesis unfolding fork_into_def
    by (rule triple_keeps_bnd[OF _ v], rule keeps_rules, rule triple_prod, rule triple_keeps_bnd[OF _ v], rule keeps_rules, rule triple_if, rule free,
        intro triple_keeps_sq[OF _ v] keeps_rules triple_sq[OF files] triple_keeps_bnd[OF _ w] fork_tail_ok[OF assms(1)]) (simp add: pview_def)
qed

lemma fork_ok: "triple (busy ex None) fork (\<lambda>_. busy ex None)"
proof -
  have start: "triple (busy ex None) myproc (\<lambda>p s. (busy ex None s \<and> curp s = p) \<and> p < NPROC)"
    by (rule tripleI) (auto simp: kst_run run_simps dest: busy_running)
  have child: "triple (\<lambda>s. case r of None \<Rightarrow> busy ex None s \<and> curp s = p
     | Some np \<Rightarrow> np < NPROC \<and> (busy ex (Some np) s \<and> curp s = p) \<and> (\<forall>fd<NOFILE. pofile (ptable s np) fd = None))
     (case r of None \<Rightarrow> ret (- 1) | Some np \<Rightarrow> fork_into p np) (\<lambda>_. busy ex None)" if "p < NPROC" for p r
    using that by (cases r) (auto intro!: triple_retI, rule triple_asm, erule conjunct1, rule triple_pre[OF fork_into_ok], auto)
  show ?thesis unfolding fork_def
    by (rule triple_bnd[OF start], rule triple_asm, erule conjunct2, rule triple_bnd[OF triple_pre[OF allocproc_ok] child]) auto
qed

section \<open>Sleeping and waking up\<close>

text \<open>What waking up others does not change.\<close>

definition kin :: "'z kst_scheme \<Rightarrow> (nat \<Rightarrow> nat option \<times> (nat \<Rightarrow> nat option)) \<times> nat \<times> procstate \<times> nat option" where
  "kin s = (\<lambda>p. (pparent (ptable s p), pofile (ptable s p)), curp s, pstate (ptable s (curp s)), initproc s)"

lemma kin_wake: "p \<noteq> curp s \<Longrightarrow> pparent P = pparent (ptable s p) \<Longrightarrow> pofile P = pofile (ptable s p) \<Longrightarrow> kin (put_proc p P s) = kin s"
  by (auto simp: kin_def)

lemma wakeup_loop_ok:
  "triple (\<lambda>s. (tables_ok ex u s \<and> init_ok s) \<and> B (kin s)) (wakeup_loop ch n) (\<lambda>_ s. (tables_ok ex u s \<and> init_ok s) \<and> B (kin s))"
proof (induction n)
  case (Suc p)
  let ?A = "\<lambda>s. (tables_ok ex u s \<and> init_ok s) \<and> B (kin s)"
  have "triple ?A (bnd myproc (\<lambda>me. if p = me then ret () else
     bnd (gets (\<lambda>s. ptable s p)) (\<lambda>P.
     if pstate P = SLEEPING \<and> pchan P = Some ch then proc_upd p (\<lambda>P. P\<lparr>pstate := RUNNABLE\<rparr>) else ret ()))) (\<lambda>_. ?A)"
  proof (rule tripleI)
    fix s x s' assume h: "?A s" "bnd myproc (\<lambda>me. if p = me then ret () else
     bnd (gets (\<lambda>s. ptable s p)) (\<lambda>P.
     if pstate P = SLEEPING \<and> pchan P = Some ch then proc_upd p (\<lambda>P. P\<lparr>pstate := RUNNABLE\<rparr>) else ret ())) s = Inr (x, s')"
    let ?P = "(ptable s p)\<lparr>pstate := RUNNABLE\<rparr>"
    have c: "s' = s \<or> p \<noteq> curp s \<and> pstate (ptable s p) = SLEEPING \<and> s' = put_proc p ?P s"
      using h(2) by (auto simp: kst_run run_simps split: if_splits)
    then show "?A s'"
    proof
      assume c: "p \<noteq> curp s \<and> pstate (ptable s p) = SLEEPING \<and> s' = put_proc p ?P s"
      then have "tables_ok ex u s'" using h(1) by (auto simp: live_def intro!: tables_live)
      moreover have "init_ok s'" using c h(1) by (auto simp: live_def intro!: init_live)
      moreover have "kin s' = kin s" using c by (simp add: kin_wake)
      ultimately show ?thesis using h(1) by simp
    qed (use h(1) in simp)
  qed
  then show ?case unfolding wakeup_loop.simps by (rule triple_sq[OF Suc.IH])
qed (auto intro: triple_retI)

lemma wakeup_ok:
  "triple (\<lambda>s. (tables_ok ex u s \<and> init_ok s) \<and> B (kin s)) (wakeup ch) (\<lambda>_ s. (tables_ok ex u s \<and> init_ok s) \<and> B (kin s))"
  unfolding wakeup_def by (rule wakeup_loop_ok)

lemma wakeup_busy: "triple (busy ex u) (wakeup ch) (\<lambda>_. busy ex u)"
  using wakeup_ok[of ex u "\<lambda>t. fst (snd t) < NPROC \<and> fst (snd (snd t)) = RUNNING" ch] by (simp add: busy_def[abs_def] running_def kin_def conj_assoc)

lemma wakeup_rest: "triple (\<lambda>s. rest s \<and> \<not> running s) (wakeup ch) (\<lambda>_ s. rest s \<and> \<not> running s)"
  using wakeup_ok[of "\<lambda>_. 0" None "\<lambda>t. \<not> (fst (snd t) < NPROC \<and> fst (snd (snd t)) = RUNNING)" ch] by (simp add: rest_def running_def kin_def conj_assoc)

text \<open>A process that gives up the processor.\<close>

lemma give_up:
  assumes "busy (\<lambda>_. 0) None s" "live (pstate P)" "pstate P \<noteq> RUNNING" "ppid P = ppid (ptable s (curp s))"
    "pparent P = pparent (ptable s (curp s))" "pofile P = pofile (ptable s (curp s))"
  shows "rest (put_proc (curp s) P s) \<and> \<not> running (put_proc (curp s) P s)"
proof -
  have "live (pstate (ptable s (curp s)))" using busy_running[OF assms(1)] by (simp add: live_def)
  then show ?thesis using busy_rest[OF assms(1)] assms(2-6) by (auto simp: running_def intro!: rest_live)
qed

lemma sleep_ok: "triple (busy (\<lambda>_. 0) None) (sleep ch) (\<lambda>_ s. rest s \<and> \<not> running s)"
  by (rule tripleI) (simp add: sleep_def kst_run run_simps, erule subst, rule give_up, simp_all add: live_def)

lemma yield_ok: "triple (busy (\<lambda>_. 0) None) yield (\<lambda>_ s. rest s \<and> \<not> running s)"
  by (rule tripleI) (simp add: yield_def kst_run run_simps, erule subst, rule give_up, simp_all add: live_def)

definition seg_ok :: "seg \<Rightarrow> 'z kst_scheme \<Rightarrow> bool" where
  "seg_ok r s \<longleftrightarrow> (case r of Returns v \<Rightarrow> busy (\<lambda>_. 0) None s | Asleep i \<Rightarrow> rest s \<and> \<not> running s)"

lemma sleep_if_ok: "triple (busy (\<lambda>_. 0) None) (sleep_if ch r) seg_ok"
  by (cases r) (auto simp: sleep_if_def seg_ok_def intro!: triple_retI triple_sq[OF sleep_ok])

lemma kill_ok: "triple (busy ex u) (kill pid) (\<lambda>_. busy ex u)"
proof (rule tripleI)
  fix s x s' assume h: "busy ex u s" "kill pid s = Inr (x, s')"
  show "busy ex u s'"
  proof (cases "List.find (\<lambda>p. ppid (ptable s p) = pid) [0..<NPROC]")
    case None
    then show ?thesis using h by (simp add: kill_def run_simps)
  next
    case (Some p)
    let ?P = "(ptable s p)\<lparr>pkilled := True, pstate := (if pstate (ptable s p) = SLEEPING then RUNNABLE else pstate (ptable s p))\<rparr>"
    have s': "s' = put_proc p ?P s" using h(2) by (auto simp: kill_def run_simps kst_run Some)
    show ?thesis
    proof (cases "pstate (ptable s p) = SLEEPING")
      case True
      then have "p \<noteq> curp s" using busy_running[OF h(1)] by auto
      then show ?thesis using h(1) True unfolding s'
        by (auto simp: busy_def running_def live_def intro!: tables_live init_live)
    next
      case False
      then have "tabs s' = tabs s" unfolding s' by (auto simp: tabs_def pview_def)
      then show ?thesis using h(1) busy_tabs by blast
    qed
  qed
qed

section \<open>Exit and wait\<close>

text \<open>
  Where \<^verbatim>\<open>exit\<close> of process \<open>p\<close> is: descriptors below \<open>d\<close> are closed, and the first \<open>i\<close> table entries are not its
  children any more.
\<close>

definition exiting :: "nat \<Rightarrow> nat \<Rightarrow> nat \<Rightarrow> (nat \<Rightarrow> nat option \<times> (nat \<Rightarrow> nat option)) \<times> nat \<times> procstate \<times> nat option \<Rightarrow> bool" where
  "exiting p d i = (\<lambda>(k, c, st, ip). c = p \<and> p < NPROC \<and> st = RUNNING \<and> ip \<noteq> Some p \<and> (\<forall>fd<d. snd (k p) fd = None) \<and> (\<forall>q<i. fst (k q) \<noteq> Some p))"

abbreviation exits :: "(nat \<Rightarrow> int) \<Rightarrow> nat \<Rightarrow> nat \<Rightarrow> nat \<Rightarrow> 'z kst_scheme \<Rightarrow> bool" where
  "exits ex p d i s \<equiv> (tables_ok ex None s \<and> init_ok s) \<and> exiting p d i (kin s)"

lemma viewed_exits [viewed_rules]: "viewed (exits ex p d i)"
proof -
  have "tabs s = tabs s' \<Longrightarrow> kin s = kin s'" for s s' :: "'z kst_scheme" by (simp add: tabs_def pview_def kin_def fun_eq_iff)
  then show ?thesis unfolding viewed_def using tables_ok_tabs init_ok_tabs by metis
qed

lemma exits_busy: "exits ex p d i s \<Longrightarrow> busy ex None s \<and> curp s = p"
  by (auto simp: busy_def running_def exiting_def kin_def)

lemma exits_fileclose:
  assumes "f < NFILE"
  shows "triple (exits ex p d i) (fileclose f) (\<lambda>_. exits (add f (- 1) ex) p d i)"
proof (rule tripleI)
  fix s x s' assume h: "exits ex p d i s" "fileclose f s = Inr (x, s')"
  have b: "busy ex None s" using exits_busy[OF h(1)] by simp
  have r: "busy (add f (- 1) ex) None s' \<and> ptab s' = ptab s"
    using tripleD[OF fileclose_ok[OF assms, of ex None "\<lambda>t. t = ptab s"] _ h(2)] b by simp
  then have "kin s' = kin s" by (auto simp: ptab_def pview_def kin_def fun_eq_iff)
  then show "exits (add f (- 1) ex) p d i s'" using r h(1) by (simp add: busy_def)
qed

lemma exits_clear:
  assumes "d < NOFILE"
  shows "triple (\<lambda>s. exits (add f (- 1) ex) p d i s \<and> pofile (ptable s p) d = Some f) (proc_upd p (\<lambda>P. P\<lparr>pofile := (pofile P)(d := None)\<rparr>))
    (\<lambda>_. exits ex p (Suc d) i)"
proof (rule tripleI)
  fix s x s' assume h: "exits (add f (- 1) ex) p d i s \<and> pofile (ptable s p) d = Some f" "proc_upd p (\<lambda>P. P\<lparr>pofile := (pofile P)(d := None)\<rparr>) s = Inr (x, s')"
  have c: "curp s = p" "busy (add f (- 1) ex) None s" using exits_busy h(1) by blast+
  have "fd_clear d s = Inr (x, s')" using h(2) c(1) by (simp add: fd_clear_def kst_run run_simps)
  then have "busy (add f 1 (add f (- 1) ex)) None s'" using tripleD[OF fd_clear_ok[OF assms]] c h(1) by blast
  moreover have "exiting p (Suc d) i (kin s')" using h c(1) by (auto simp: exiting_def kin_def kst_run run_simps less_Suc_eq split: if_splits)
  ultimately show "exits ex p (Suc d) i s'" by (simp add: busy_def)
qed

lemma close_files_ok: "d \<le> NOFILE \<Longrightarrow> triple (exits ex p 0 i) (close_files p d) (\<lambda>_. exits ex p d i)"
proof (induction d)
  case (Suc d)
  have d: "d < NOFILE" "d \<le> NOFILE" using Suc.prems by auto
  have step: "triple (\<lambda>s. exits ex p d i s \<and> s = s0) (sq (fileclose f) (proc_upd p (\<lambda>P. P\<lparr>pofile := (pofile P)(d := None)\<rparr>))) (\<lambda>_. exits ex p (Suc d) i)"
    if f: "pofile (ptable s0 p) d = Some f" for f s0
  proof (rule triple_asm[where A = "f < NFILE \<and> curp s0 = p"])
    show "f < NFILE \<and> curp s0 = p" if "exits ex p d i s \<and> s = s0" for s
      using that f d(1) by (auto simp: tables_ok_def exiting_def kin_def intro: refs_pos)
  next
    assume "f < NFILE \<and> curp s0 = p"
    then have "triple (exits ex p d i) (fileclose f) (\<lambda>_. exits (add f (- 1) ex) p d i)" by (intro exits_fileclose) simp
    moreover have "triple (\<lambda>s. busy ex None s \<and> snd (snd (snd (fst (ptab s) p))) d = Some f) (fileclose f)
      (\<lambda>_ s. busy (add f (- 1) ex) None s \<and> snd (snd (snd (fst (ptab s) p))) d = Some f)" 
      using fileclose_ok[of f ex None "\<lambda>t. snd (snd (snd (fst t p))) d = Some f"] \<open>f < NFILE \<and> curp s0 = p\<close> by simp
    ultimately have "triple (\<lambda>s. exits ex p d i s \<and> s = s0) (fileclose f) (\<lambda>_ s. exits (add f (- 1) ex) p d i s \<and> pofile (ptable s p) d = Some f)"
      using f exits_busy[of ex _ p d i] by (auto simp: triple_def ptab_def pview_def)
    then show "triple (\<lambda>s. exits ex p d i s \<and> s = s0) (sq (fileclose f) (proc_upd p (\<lambda>P. P\<lparr>pofile := (pofile P)(d := None)\<rparr>))) (\<lambda>_. exits ex p (Suc d) i)"
      by (rule triple_sq[OF _ exits_clear[OF d(1)]])
  qed
  have none: "exits ex p d i s \<Longrightarrow> pofile (ptable s p) d = None \<Longrightarrow> exits ex p (Suc d) i s" for s
    by (auto simp: exiting_def kin_def less_Suc_eq)
  show ?case unfolding close_files.simps
    by (rule triple_sq[OF Suc.IH[OF d(2)]], rule triple_gets_bnd, rule triple_option, rule triple_retI, use none in blast, erule step)
qed (auto intro!: triple_retI)

lemma exits_wakeup: "triple (exits ex p d i) (wakeup ch) (\<lambda>_. exits ex p d i)"
  by (rule wakeup_ok)

lemma wakeup_init_ok: "triple (exits ex p d i) wakeup_init (\<lambda>_. exits ex p d i)"
  unfolding wakeup_init_def
  by (rule triple_gets_bnd, rule triple_option, rule triple_retI, erule conjunct1, rule triple_pre[OF exits_wakeup], erule conjunct1)

lemma tables_adopt:
  assumes "tables_ok ex None s" "init_ok s" "pparent P = initproc s" "pstate P = pstate (ptable s p)" "ppid P = ppid (ptable s p)"
    "pofile P = pofile (ptable s p)" "pstate (ptable s p) \<noteq> UNUSED"
  shows "tables_ok ex None (put_proc p P s)"
proof -
  have "proc_ok None (put_proc p P s) q" if "q < NPROC" for q
  proof -
    have "proc_ok None s q" using assms(1) that by (simp add: tables_ok_def)
    then show ?thesis using assms(2-7) by (cases "q = p") (auto simp: proc_ok_def init_ok_def Let_def split: option.splits)
  qed
  then show ?thesis using assms by (auto simp: tables_ok_def intro: refs_same pids_ok_put)
qed

lemma reparent_one:
  assumes "i < NPROC"
  shows "triple (\<lambda>s. exits ex p d i s \<and> s = s0) (if pparent (ptable s0 i) = Some p then sq (proc_upd i (\<lambda>P. P\<lparr>pparent := initproc s0\<rparr>)) wakeup_init else ret ())
    (\<lambda>_. exits ex p d (Suc i))"
proof (rule triple_if)
  assume c: "pparent (ptable s0 i) = Some p"
  have "triple (\<lambda>s. exits ex p d i s \<and> s = s0) (proc_upd i (\<lambda>P. P\<lparr>pparent := initproc s0\<rparr>)) (\<lambda>_. exits ex p d (Suc i))"
  proof (rule tripleI, elim conjE)
    fix s x s' assume h: "tables_ok ex None s" "init_ok s" "exiting p d i (kin s)" "s = s0" "proc_upd i (\<lambda>P. P\<lparr>pparent := initproc s0\<rparr>) s = Inr (x, s')"
    let ?P = "(ptable s i)\<lparr>pparent := initproc s\<rparr>"
    have s': "s' = put_proc i ?P s" using h(4,5) by (auto simp: proc_upd_def run_simps)
    have "proc_ok None s i" using h(1) assms by (simp add: tables_ok_def)
    then have "pstate (ptable s i) \<noteq> UNUSED" using c h(4) by (auto simp: proc_ok_def Let_def)
    then have "tables_ok ex None s'" unfolding s' using h(1,2) by (intro tables_adopt) auto
    moreover have "init_ok s'" unfolding s' using h(2) by (intro init_put) auto
    moreover have "exiting p d (Suc i) (kin s')" using h(3) by (auto simp: s' exiting_def kin_def less_Suc_eq split: if_splits)
    ultimately show "exits ex p d (Suc i) s'" by simp
  qed
  then show "triple (\<lambda>s. exits ex p d i s \<and> s = s0) (sq (proc_upd i (\<lambda>P. P\<lparr>pparent := initproc s0\<rparr>)) wakeup_init) (\<lambda>_. exits ex p d (Suc i))"
    by (rule triple_sq[OF _ wakeup_init_ok])
next
  assume "pparent (ptable s0 i) \<noteq> Some p"
  then show "triple (\<lambda>s. exits ex p d i s \<and> s = s0) (ret ()) (\<lambda>_. exits ex p d (Suc i))"
    by (intro triple_retI) (auto simp: exiting_def kin_def less_Suc_eq)
qed

lemma reparent_loop_ok: "i \<le> NPROC \<Longrightarrow> triple (exits ex p d 0) (reparent_loop p i) (\<lambda>_. exits ex p d i)"
proof (induction i)
  case (Suc i)
  have i: "i < NPROC" "i \<le> NPROC" using Suc.prems by auto
  show ?case unfolding reparent_loop.simps
    by (rule triple_sq[OF Suc.IH[OF i(2)]], rule triple_gets_bnd, simp only: prod.case, rule reparent_one[OF i(1)])
qed (auto intro!: triple_retI)

lemma tables_zombie:
  assumes "tables_ok ex None s" "pstate (ptable s p) = RUNNING" "\<forall>fd<NOFILE. pofile (ptable s p) fd = None" "\<forall>q<NPROC. pparent (ptable s q) \<noteq> Some p"
    "pstate P = ZOMBIE" "ppid P = ppid (ptable s p)" "pparent P = pparent (ptable s p)" "pofile P = pofile (ptable s p)"
  shows "tables_ok ex None (put_proc p P s)"
proof -
  have "proc_ok None (put_proc p P s) q" if "q < NPROC" for q
  proof -
    have "proc_ok None s q" using assms(1) that by (simp add: tables_ok_def)
    then show ?thesis using assms(2-8) that by (cases "q = p") (auto simp: proc_ok_def Let_def split: option.splits)
  qed
  then show ?thesis using assms by (auto simp: tables_ok_def intro: refs_same pids_ok_put)
qed

lemma exits_zombie:
  "triple (exits (\<lambda>_. 0) p NOFILE NPROC) (proc_upd p (\<lambda>P. P\<lparr>pxstate := status, pstate := ZOMBIE\<rparr>)) (\<lambda>_ s. rest s \<and> \<not> running s)"
proof (rule tripleI)
  fix s x s' assume h: "exits (\<lambda>_. 0) p NOFILE NPROC s" "proc_upd p (\<lambda>P. P\<lparr>pxstate := status, pstate := ZOMBIE\<rparr>) s = Inr (x, s')"
  let ?P = "(ptable s p)\<lparr>pxstate := status, pstate := ZOMBIE\<rparr>"
  have s': "s' = put_proc p ?P s" using h(2) by (auto simp: proc_upd_def run_simps)
  have e: "curp s = p" "p < NPROC" "pstate (ptable s p) = RUNNING" "initproc s \<noteq> Some p" "\<forall>fd<NOFILE. pofile (ptable s p) fd = None"
      "\<forall>q<NPROC. pparent (ptable s q) \<noteq> Some p"
    using h(1) by (auto simp: exiting_def kin_def)
  have "tables_ok (\<lambda>_. 0) None s'" unfolding s' using h(1) e by (intro tables_zombie) auto
  moreover have "init_ok s'" using h(1) e(4) by (auto simp: s' init_ok_def split: option.splits)
  ultimately show "rest s' \<and> \<not> running s'" using e(1) by (simp add: rest_def running_def s')
qed

lemma kexit_ok: "triple (busy (\<lambda>_. 0) None) (kexit status) (\<lambda>_ s. rest s \<and> \<not> running s)"
proof -
  have start: "triple (busy (\<lambda>_. 0) None) myproc (\<lambda>p s. busy (\<lambda>_. 0) None s \<and> curp s = p)"
    by (rule tripleI) (auto simp: kst_run run_simps)
  have first: "triple (\<lambda>s. busy (\<lambda>_. 0) None s \<and> curp s = p) (gets initproc) (\<lambda>ip s. ip \<noteq> Some p \<longrightarrow> exits (\<lambda>_. 0) p 0 0 s)" for p
    by (rule tripleI) (auto simp: run_simps busy_def running_def exiting_def kin_def)
  have main: "triple (exits (\<lambda>_. 0) p 0 0) (sq (close_files p NOFILE)
     (sq begin_op
     (sq (bnd (curproc pcwd) (\<lambda>c. case c of None \<Rightarrow> fail (Undef ''cwd'') | Some cwd \<Rightarrow> iput cwd))
     (sq end_op
     (sq (proc_upd p (\<lambda>P. P\<lparr>pcwd := None\<rparr>))
     (sq (reparent p)
     (sq (bnd (curproc pparent) (\<lambda>par. case par of None \<Rightarrow> ret () | Some q \<Rightarrow> wakeup (WProc q)))
     (proc_upd p (\<lambda>P. P\<lparr>pxstate := status, pstate := ZOMBIE\<rparr>))))))))) (\<lambda>_ s. rest s \<and> \<not> running s)" for p
  proof -
    have w: "triple (exits (\<lambda>_. 0) p NOFILE NPROC) (bnd (curproc pparent) (\<lambda>par. case par of None \<Rightarrow> ret () | Some q \<Rightarrow> wakeup (WProc q)))
      (\<lambda>_. exits (\<lambda>_. 0) p NOFILE NPROC)"
      by (rule triple_keeps_bnd, rule keeps_rules, rule viewed_exits, rule triple_option, rule triple_retI, assumption, rule exits_wakeup)
    have k: "keeps tabs (bnd (curproc pcwd) (\<lambda>c. case c of None \<Rightarrow> fail (Undef ''cwd'') | Some cwd \<Rightarrow> iput cwd))" by (intro keeps_rules)
    have c: "keeps tabs (proc_upd p (\<lambda>P. P\<lparr>pcwd := None\<rparr>))" by (intro keeps_rules) (simp add: pview_def)
    note r = reparent_loop_ok[OF le_refl, folded reparent_def]
    show ?thesis
      by (rule triple_sq[OF close_files_ok triple_keeps_sq[OF begin_op_keeps viewed_exits triple_keeps_sq[OF k viewed_exits
            triple_keeps_sq[OF end_op_keeps viewed_exits triple_keeps_sq[OF c viewed_exits triple_sq[OF r triple_sq[OF w exits_zombie]]]]]]]) simp
  qed
  show ?thesis unfolding kexit_def
    by (rule triple_bnd[OF start], rule triple_bnd[OF first], rule triple_if, rule triple_panic, rule triple_pre[OF main]) auto
qed

lemma wait_scan_child: "wait_scan tab p n = Child c \<Longrightarrow> c < n \<and> pparent (tab c) = Some p \<and> pstate (tab c) = ZOMBIE"
  by (induction n) (auto split: waited.splits if_splits)

lemma wait_ok: "triple (busy (\<lambda>_. 0) None) (wait addr) seg_ok"
proof -
  let ?B = "busy (\<lambda>_. 0) None"
  have v: "viewed (\<lambda>s. ?B s \<and> curp s = q \<and> pstate (ptable s pp) = ZOMBIE)" for q pp
    by (intro viewed_rules)
  have child: "triple (\<lambda>s. ?B s \<and> curp s = q \<and> pstate (ptable s pp) = ZOMBIE)
     (bnd (if addr \<noteq> 0 then copyout pt addr bs else ret 0) (\<lambda>r.
       if r < 0 then ret (Returns (- 1)) else sq (freeproc pp) (ret (Returns pid)))) seg_ok" if "pp < NPROC" for pp q pt bs pid
    by (rule triple_keeps_bnd[OF _ v], intro keeps_rules, rule triple_if, rule triple_retI, simp add: seg_ok_def, rule triple_sq[OF freeproc_zombie[OF that]])
      (auto intro!: triple_retI simp: seg_ok_def)
  have idle: "triple ?B (if b then ret (Returns (- 1)) else sq (sleep ch) (ret (Asleep 0))) seg_ok" for b ch
    by (rule triple_if) (auto intro!: triple_retI triple_sq[OF sleep_ok] simp: seg_ok_def)
  show ?thesis unfolding wait_def
  proof (rule triple_keeps_bnd[OF _ viewed_busy], rule keeps_rules, rule triple_gets_bnd)
    fix p s0
    show "triple (\<lambda>s. ?B s \<and> s = s0) (case wait_scan (ptable s0) p NPROC of
     Child pp \<Rightarrow>
       bnd (if addr \<noteq> 0 then copyout (ppagetable (ptable s0 p)) addr (le32 (pxstate (ptable s0 pp))) else ret 0) (\<lambda>r.
       if r < 0 then ret (Returns (- 1)) else
       sq (freeproc pp) (ret (Returns (ppid (ptable s0 pp)))))
   | Kids h \<Rightarrow>
       if \<not> h \<or> pkilled (ptable s0 p) then ret (Returns (- 1))
       else sq (sleep (WProc p)) (ret (Asleep 0))) seg_ok"
    proof (cases "wait_scan (ptable s0) p NPROC")
      case (Child pp)
      then show ?thesis using wait_scan_child[OF Child] by (simp only: waited.case) (rule triple_pre[OF child[of pp "curp s0"]], auto)
    next
      case (Kids h)
      show ?thesis unfolding Kids waited.case by (rule triple_pre[OF idle]) (erule conjunct1)
    qed
  qed
qed

end
