(* ===== verification/Calls.thy ===== *)
theory Calls
  imports Procs
begin

text \<open>
  Every system call and every trap handler keeps the invariant of the tables: a call that returns a
  value leaves the process running, and one that waits or ends leaves the processor without a process.
\<close>

section \<open>System calls\<close>

definition done_ok :: "outcome \<Rightarrow> 'z kst_scheme \<Rightarrow> bool" where
  "done_ok r s \<longleftrightarrow> (case r of Value v \<Rightarrow> busy (\<lambda>_. 0) None s | Waits i \<Rightarrow> rest s \<and> \<not> running s | Gone \<Rightarrow> rest s \<and> \<not> running s)"

named_theorems call_rules

lemmas call_flow [call_rules] =
  triple_keeps_bnd[OF _ viewed_busy[of "\<lambda>_. 0" None]] triple_keeps_sq[OF _ viewed_busy[of "\<lambda>_. 0" None]]
  triple_if triple_option triple_prod triple_panic triple_fail

lemma value_of_ok [call_rules]: "triple (busy (\<lambda>_. 0) None) (value_of v) done_ok"
  unfolding value_of_def by (rule triple_retI) (simp add: done_ok_def)

lemma end_with_ok [call_rules]: "triple (busy (\<lambda>_. 0) None) (end_with v) done_ok"
  unfolding end_with_def by (intro call_rules keeps_rules)

text \<open>The functions that the system calls use and that keep the view.\<close>

lemma args_keep [keeps_rules]: "keeps tabs (fetchaddr a)" "keeps tabs (fetchstr a n)" "keeps tabs (argraw k)" "keeps tabs (argint k)" "keeps tabs (argaddr k)"
    "keeps tabs (argstr k n)" "keeps tabs (argfd k)"
proof -
  show "keeps tabs (fetchaddr a)" unfolding fetchaddr_def by (intro keeps_rules)
  show f: "keeps tabs (fetchstr a n)" for a unfolding fetchstr_def by (intro keeps_rules)
  show r: "keeps tabs (argraw k)" unfolding argraw_def by (intro keeps_rules)
  show i: "keeps tabs (argint k)" unfolding argint_def by (intro keeps_rules r)
  show a: "keeps tabs (argaddr k)" unfolding argaddr_def by (intro keeps_rules r)
  show "keeps tabs (argstr k n)" unfolding argstr_def by (intro keeps_rules a f)
  show "keeps tabs (argfd k)" unfolding argfd_def by (intro keeps_rules i)
qed

lemma pagetable_keeps [keeps_rules]: "keeps tabs (proc_pagetable p)" "keeps tabs (proc_freepagetable pt sz)"
  unfolding proc_pagetable_def proc_freepagetable_def by (intro keeps_rules)+

lemma growproc_keeps [keeps_rules]: "keeps tabs (growproc n)"
  unfolding growproc_def by (intro keeps_rules) (simp add: pview_def)

lemma loadseg_loop_keeps [keeps_rules]: "keeps tabs (loadseg_loop pt va ip off sz k i)"
  by (induction k arbitrary: i) (auto simp: Let_def intro!: keeps_rules)

lemma loadseg_keeps [keeps_rules]: "keeps tabs (loadseg pt va ip off sz)"
  unfolding loadseg_def by (intro keeps_rules)

lemma load_segments_keeps [keeps_rules]: "keeps tabs (load_segments pt ip k off sz)"
  by (induction k arbitrary: off sz) (auto simp: Let_def intro!: keeps_rules)

lemma exec_load_keeps [keeps_rules]: "keeps tabs (exec_load ip)"
  unfolding exec_load_def by (intro keeps_rules)

lemma push_args_keeps [keeps_rules]: "keeps tabs (push_args pt base argv sp us)"
  by (induction argv arbitrary: sp us) (auto simp: Let_def intro!: keeps_rules)

lemma exec_stack_keeps [keeps_rules]: "keeps tabs (exec_stack pt sz argv)"
  unfolding exec_stack_def by (intro keeps_rules)

lemma exec_bad_keeps [keeps_rules]: "keeps tabs (exec_bad pt sz)"
  unfolding exec_bad_def by (intro keeps_rules)

lemma exec_keeps [keeps_rules]: "keeps tabs (exec path argv)"
  unfolding exec_def by (intro keeps_rules) (simp_all add: pview_def)

lemma exec_args_keeps [keeps_rules]: "keeps tabs (exec_args u k i pages argv)"
  by (induction k arbitrary: i pages argv) (auto intro!: keeps_rules)

lemma free_args_keeps [keeps_rules]: "keeps tabs (free_args pages)"
  by (induction pages) (auto intro!: keeps_rules)

lemma add_link_keeps [keeps_rules]: "keeps tabs (add_link ip k)"
  unfolding add_link_def by (intro keeps_rules)

lemma isdirempty_loop_keeps [keeps_rules]: "keeps tabs (isdirempty_loop dp sz off)"
  by (induction dp sz off rule: isdirempty_loop.induct) (subst isdirempty_loop.simps, auto intro!: keeps_rules)

lemma isdirempty_keeps [keeps_rules]: "keeps tabs (isdirempty dp)"
  unfolding isdirempty_def by (intro keeps_rules)

lemma create_fail_keeps [keeps_rules]: "keeps tabs (create_fail ip dp)"
  unfolding create_fail_def by (intro keeps_rules)

lemma create_keeps [keeps_rules]: "keeps tabs (create path ty major minor)"
  unfolding create_def by (intro keeps_rules)

lemma open_inode_keeps [keeps_rules]: "keeps tabs (open_inode path omode)"
  unfolding open_inode_def by (intro keeps_rules)

lemma filestat_keeps [keeps_rules]: "keeps tabs (filestat f addr)"
  unfolding filestat_def by (intro keeps_rules)

lemma filewrite_loop_keeps [keeps_rules]: "keeps tabs (filewrite_loop f ip addr n i)"
  by (induction f ip addr n i rule: filewrite_loop.induct) (subst filewrite_loop.simps, intro keeps_rules, simp_all)

text \<open>Calls that do not touch descriptors or processes.\<close>

lemma quiet_calls_ok [call_rules]:
  "triple (busy (\<lambda>_. 0) None) sys_link done_ok" "triple (busy (\<lambda>_. 0) None) sys_unlink done_ok" "triple (busy (\<lambda>_. 0) None) sys_mkdir done_ok"
  "triple (busy (\<lambda>_. 0) None) sys_mknod done_ok" "triple (busy (\<lambda>_. 0) None) sys_chdir done_ok" "triple (busy (\<lambda>_. 0) None) sys_exec done_ok"
  "triple (busy (\<lambda>_. 0) None) sys_fstat done_ok" "triple (busy (\<lambda>_. 0) None) sys_getpid done_ok" "triple (busy (\<lambda>_. 0) None) sys_sbrk done_ok"
  "triple (busy (\<lambda>_. 0) None) sys_uptime done_ok" "triple (busy (\<lambda>_. 0) None) sys_getclk done_ok"
  unfolding sys_link_def sys_unlink_def sys_mkdir_def sys_mknod_def make_node_def sys_chdir_def sys_exec_def sys_fstat_def sys_getpid_def sys_sbrk_def
    sys_uptime_def sys_getclk_def Let_def
  by (intro call_rules keeps_rules; simp add: pview_def)+

text \<open>Descriptors.\<close>

lemma argfd_ok:
  "triple (busy (\<lambda>_. 0) None) (argfd k) (\<lambda>r s. busy (\<lambda>_. 0) None s \<and>
     (case r of None \<Rightarrow> True | Some (fd, f) \<Rightarrow> fd < NOFILE \<and> f < NFILE \<and> pofile (ptable s (curp s)) fd = Some f))"
proof (rule tripleI)
  fix s r s' assume h: "busy (\<lambda>_. 0) None s" "argfd k s = Inr (r, s')"
  have t: "tabs s' = tabs s" by (rule keepsD[OF args_keep(7) h(2)])
  have b: "busy (\<lambda>_. 0) None s'" using busy_tabs[OF t] h(1) by simp
  obtain fd s1 where a: "argint k s = Inr (fd, s1)" and
      g: "(if fd < 0 \<or> fd \<ge> int NOFILE then ret None else bnd (curproc (\<lambda>P. pofile P (nat fd))) (\<lambda>f. ret (map_option (\<lambda>f. (nat fd, f)) f))) s1 = Inr (r, s')"
    using h(2) unfolding argfd_def by (rule bnd_InrE)
  show "busy (\<lambda>_. 0) None s' \<and> (case r of None \<Rightarrow> True | Some (fd, f) \<Rightarrow> fd < NOFILE \<and> f < NFILE \<and> pofile (ptable s' (curp s')) fd = Some f)"
  proof (cases "fd < 0 \<or> fd \<ge> int NOFILE")
    case True
    then show ?thesis using g b by (simp add: run_simps)
  next
    case False
    then have r: "s' = s1" "r = map_option (\<lambda>f. (nat fd, f)) (pofile (ptable s1 (curp s1)) (nat fd))" using g by (auto simp: kst_run run_simps)
    have "f < NFILE" if "pofile (ptable s' (curp s')) (nat fd) = Some f" for f
      using b that False busy_running[OF b] by (intro refs_pos[of "\<lambda>_. 0" s' "curp s'" "nat fd"]) (auto simp: busy_def tables_ok_def)
    then show ?thesis using r b False by (auto split: option.splits)
  qed
qed

lemma sys_dup_ok: "triple (busy (\<lambda>_. 0) None) sys_dup done_ok"
proof -
  let ?B = "busy (\<lambda>_. 0) None"
  have dup: "triple (\<lambda>s. busy (add f (- 1) (\<lambda>_. 0)) None s) (bnd (filedup f) (\<lambda>_. value_of v)) done_ok" if "f < NFILE" for f v
    using filedup_ok[OF that, of "add f (- 1) (\<lambda>_. 0)" None "\<lambda>_. True"]
    by (intro triple_bnd[where R = "\<lambda>_. ?B"] value_of_ok) (auto elim!: triple_post triple_pre)
  have alloc: "triple ?B (bnd (fdalloc f) (\<lambda>fd. case fd of None \<Rightarrow> value_of (- 1) | Some fd \<Rightarrow> bnd (filedup f) (\<lambda>_. value_of (int fd)))) done_ok"
    if "f < NFILE" for f
    by (rule triple_bnd[OF fdalloc_ok[OF that]], rule triple_option)
      (auto intro!: triple_pre[OF value_of_ok] triple_pre[OF dup[OF that]])
  show ?thesis unfolding sys_dup_def
    by (rule triple_bnd[OF argfd_ok], rule triple_option, rule triple_pre[OF value_of_ok], simp, rule triple_prod, rule triple_asm[where A = "fd < NFILE" for fd])
      (auto intro!: triple_pre[OF alloc])
qed

lemma sys_close_ok: "triple (busy (\<lambda>_. 0) None) sys_close done_ok"
proof -
  have close: "triple (busy (add f 1 (\<lambda>_. 0)) None) (sq (fileclose f) (value_of 0)) done_ok" if "f < NFILE" for f
    using fileclose_ok[OF that, of "add f 1 (\<lambda>_. 0)" None "\<lambda>_. True"]
    by (intro triple_sq[where R = "\<lambda>_. busy (\<lambda>_. 0) None"] value_of_ok) simp
  have clear: "triple (\<lambda>s. busy (\<lambda>_. 0) None s \<and> pofile (ptable s (curp s)) fd = Some f) (sq (fd_clear fd) (sq (fileclose f) (value_of 0))) done_ok"
    if "fd < NOFILE" "f < NFILE" for fd f
    by (rule triple_sq[OF fd_clear_ok[OF that(1)] close[OF that(2)]])
  show ?thesis unfolding sys_close_def
    by (rule triple_bnd[OF argfd_ok], rule triple_option, rule triple_pre[OF value_of_ok], simp, rule triple_prod,
        rule triple_asm[where A = "fd < NOFILE \<and> f < NFILE" for fd f]) (auto intro!: triple_pre[OF clear])
qed

lemma fileread_ok: "triple (busy (\<lambda>_. 0) None) (fileread f addr n i) seg_ok"
proof -
  have r: "triple (busy (\<lambda>_. 0) None) (ret (Returns v)) seg_ok" for v by (rule triple_retI) (simp add: seg_ok_def)
  show ?thesis unfolding fileread_def
    by (intro call_rules keeps_rules r) (auto split: ftype.split intro!: call_flow keeps_rules r sleep_if_ok)
qed

lemma filewrite_ok: "triple (busy (\<lambda>_. 0) None) (filewrite f addr n i) seg_ok"
proof -
  have r: "triple (busy (\<lambda>_. 0) None) (ret (Returns v)) seg_ok" for v by (rule triple_retI) (simp add: seg_ok_def)
  show ?thesis unfolding filewrite_def
    by (intro call_rules keeps_rules r) (auto split: ftype.split intro!: call_flow keeps_rules r sleep_if_ok)
qed

lemma result_ok: "triple P m seg_ok \<Longrightarrow> triple P (bnd m (\<lambda>r. ret (result r))) done_ok"
  by (erule triple_bnd, rule triple_retI) (auto simp: seg_ok_def done_ok_def result_def split: seg.splits)

lemma transfer_calls_ok: "triple (busy (\<lambda>_. 0) None) (sys_read i) done_ok" "triple (busy (\<lambda>_. 0) None) (sys_write i) done_ok"
    "triple (busy (\<lambda>_. 0) None) sys_wait done_ok"
  unfolding sys_read_def sys_write_def sys_wait_def
  by (intro call_rules keeps_rules result_ok fileread_ok filewrite_ok wait_ok)+

lemma open_file_ok:
  "triple (busy (\<lambda>_. 0) None) open_file (\<lambda>_. busy (\<lambda>_. 0) None)"
proof -
  let ?B = "busy (\<lambda>_. 0) None"
  have close: "triple (busy (add f 1 (\<lambda>_. 0)) None) (sq (fileclose f) (ret None)) (\<lambda>_. ?B)" if "f < NFILE" for f
    using fileclose_ok[OF that, of "add f 1 (\<lambda>_. 0)" None "\<lambda>_. True"]
    by (intro triple_sq[where R = "\<lambda>_. busy (\<lambda>_. 0) None"] triple_retI) simp_all
  have fd: "triple (busy (add f 1 (\<lambda>_. 0)) None) (bnd (fdalloc f) (\<lambda>fd. case fd of None \<Rightarrow> sq (fileclose f) (ret None) | Some fd \<Rightarrow> ret (Some (f, fd)))) (\<lambda>_. ?B)"
    if "f < NFILE" for f
    by (rule triple_bnd[OF fdalloc_ok[OF that]], rule triple_option) (auto intro!: triple_pre[OF close[OF that]] triple_retI)
  show ?thesis unfolding open_file_def
    by (rule triple_bnd[OF triple_pre[OF filealloc_ok[where A = "\<lambda>_. True"]]], simp, rule triple_option, rule triple_retI, simp,
        rule triple_asm[where A = "f < NFILE" for f]) (auto intro!: triple_pre[OF fd])
qed

lemma sys_open_ok: "triple (busy (\<lambda>_. 0) None) sys_open done_ok"
  unfolding sys_open_def Let_def
  by (rule call_flow, rule keeps_rules, rule call_flow, rule keeps_rules, rule call_flow, rule value_of_ok, rule call_flow, rule keeps_rules,
      rule call_flow, rule keeps_rules, rule call_flow, rule end_with_ok, rule call_flow, rule keeps_rules, rule call_flow,
      intro call_rules keeps_rules, rule triple_bnd[OF open_file_ok], intro call_rules keeps_rules) auto

lemma other_calls_ok: "triple (busy (\<lambda>_. 0) None) sys_fork done_ok" "triple (busy (\<lambda>_. 0) None) sys_exit done_ok"
    "triple (busy (\<lambda>_. 0) None) sys_kill done_ok" "triple (busy (\<lambda>_. 0) None) (sleep_until t n) done_ok" "triple (busy (\<lambda>_. 0) None) sys_sleep done_ok"
proof -
  show "triple (busy (\<lambda>_. 0) None) sys_fork done_ok" unfolding sys_fork_def by (rule triple_bnd[OF fork_ok value_of_ok])
  show "triple (busy (\<lambda>_. 0) None) sys_exit done_ok" unfolding sys_exit_def
    by (rule call_flow, rule keeps_rules, rule triple_sq[OF kexit_ok], rule triple_retI) (simp add: done_ok_def)
  show "triple (busy (\<lambda>_. 0) None) sys_kill done_ok" unfolding sys_kill_def
    by (rule call_flow, rule keeps_rules, rule triple_bnd[OF kill_ok value_of_ok])
  show s: "triple (busy (\<lambda>_. 0) None) (sleep_until t n) done_ok" for t n unfolding sleep_until_def
    by (rule call_flow, rule keeps_rules, rule call_flow, rule call_flow, rule keeps_rules, rule call_flow, rule value_of_ok,
        rule triple_sq[OF sleep_ok], rule triple_retI, simp add: done_ok_def, rule value_of_ok)
  show "triple (busy (\<lambda>_. 0) None) sys_sleep done_ok" unfolding sys_sleep_def by (intro call_rules keeps_rules s)
qed

text \<open>Pipes: two new files, held by the function until they have descriptors.\<close>

definition two :: "nat \<Rightarrow> nat \<Rightarrow> nat \<Rightarrow> int" where
  "two f0 f1 = add f1 1 (add f0 1 (\<lambda>_. 0))"

lemma two_minus: "add f0 (- 1) (two f0 f1) = add f1 1 (\<lambda>_. 0)"
  by (auto simp: two_def add_def fun_eq_iff)

lemma close_two:
  assumes "f0 < NFILE" "f1 < NFILE" "\<And>s. busy (\<lambda>_. 0) None s \<Longrightarrow> Q v s"
  shows "triple (busy (two f0 f1) None) (sq (fileclose f0) (sq (fileclose f1) (ret v))) Q"
proof -
  have 0: "triple (busy (two f0 f1) None) (fileclose f0) (\<lambda>_. busy (add f1 1 (\<lambda>_. 0)) None)"
    using fileclose_ok[OF assms(1), of "two f0 f1" None "\<lambda>_. True"] by (simp add: two_minus)
  have 1: "triple (busy (add f1 1 (\<lambda>_. 0)) None) (fileclose f1) (\<lambda>_. busy (\<lambda>_. 0) None)"
    using fileclose_ok[OF assms(2), of "add f1 1 (\<lambda>_. 0)" None "\<lambda>_. True"] by simp
  show ?thesis by (rule triple_sq[OF 0 triple_sq[OF 1 triple_retI]]) (rule assms(3))
qed

lemma pipealloc_ok:
  "triple (busy (\<lambda>_. 0) None) pipealloc (\<lambda>r s. case r of None \<Rightarrow> busy (\<lambda>_. 0) None s
     | Some (f0, f1) \<Rightarrow> f0 < NFILE \<and> f1 < NFILE \<and> busy (two f0 f1) None s)" (is "triple _ _ ?Q")
proof -
  let ?b = "\<lambda>ex. busy ex None"
  have alloc: "triple (?b ex) filealloc (\<lambda>r s. case r of None \<Rightarrow> ?b ex s | Some f \<Rightarrow> f < NFILE \<and> ?b (add f 1 ex) s)" for ex
    using filealloc_ok[of ex None "\<lambda>_. True"] by simp
  have one: "triple (?b (add f0 1 (\<lambda>_. 0))) (sq (fileclose f0) (ret None)) ?Q" if "f0 < NFILE" for f0
    using fileclose_ok[OF that, of "add f0 1 (\<lambda>_. 0)" None "\<lambda>_. True"] by (intro triple_sq[where R = "\<lambda>_. ?b (\<lambda>_. 0)"] triple_retI) simp_all
  have page: "triple (?b (two f0 f1)) (bnd kalloc (\<lambda>pi. if pi = 0 then sq (fileclose f0) (sq (fileclose f1) (ret None)) else
     sq (upd (pipe_upd pi new_pipe))
     (sq (file_upd f0 (pipe_file False pi))
     (sq (file_upd f1 (pipe_file True pi))
     (ret (Some (f0, f1))))))) ?Q" if "f0 < NFILE" "f1 < NFILE" for f0 f1
    using that
    by (intro triple_keeps_bnd[OF kalloc_keeps viewed_busy] triple_if close_two triple_keeps_sq[OF _ viewed_busy] keeps_rules triple_retI) (auto simp: pipe_file_def)
  have second: "triple (?b (add f0 1 (\<lambda>_. 0))) (bnd filealloc (\<lambda>f1. case f1 of None \<Rightarrow> sq (fileclose f0) (ret None) | Some f1 \<Rightarrow>
     bnd kalloc (\<lambda>pi. if pi = 0 then sq (fileclose f0) (sq (fileclose f1) (ret None)) else
     sq (upd (pipe_upd pi new_pipe))
     (sq (file_upd f0 (pipe_file False pi))
     (sq (file_upd f1 (pipe_file True pi))
     (ret (Some (f0, f1)))))))) ?Q" if "f0 < NFILE" for f0
    by (rule triple_bnd[OF alloc], rule triple_option, rule triple_pre[OF one[OF that]], simp, rule triple_asm[where A = "f < NFILE" for f])
      (auto simp: two_def[symmetric] intro!: triple_pre[OF page[OF that]])
  show ?thesis unfolding pipealloc_def
    by (rule triple_bnd[OF alloc], rule triple_option, rule triple_retI, simp, rule triple_asm[where A = "f < NFILE" for f])
      (auto intro!: triple_pre[OF second])
qed

lemma sys_pipe_ok: "triple (busy (\<lambda>_. 0) None) sys_pipe done_ok"
proof -
  let ?b = "\<lambda>ex. busy ex None"
  let ?bad = "\<lambda>f0 f1. sq (fileclose f0) (sq (fileclose f1) (value_of (- 1)))"
  have bad: "triple (?b (two f0 f1)) (?bad f0 f1) done_ok" if "f0 < NFILE" "f1 < NFILE" for f0 f1
    unfolding value_of_def using that by (intro close_two) (auto simp: done_ok_def)
  have last: "triple (\<lambda>s. ?b (\<lambda>_. 0) s \<and> pofile (ptable s (curp s)) fd0 = Some f0 \<and> pofile (ptable s (curp s)) fd1 = Some f1)
     (sq (fd_clear fd0) (sq (fd_clear fd1) (?bad f0 f1))) done_ok" if "fd0 < NOFILE" "fd1 < NOFILE" "fd1 \<noteq> fd0" "f0 < NFILE" "f1 < NFILE" for fd0 fd1 f0 f1
  proof -
    have "add f1 1 (add f0 1 (\<lambda>_. 0)) = two f0 f1" by (simp add: two_def)
    then have "triple (\<lambda>s. ?b (add f0 1 (\<lambda>_. 0)) s \<and> pofile (ptable s (curp s)) fd1 = Some f1) (sq (fd_clear fd1) (?bad f0 f1)) done_ok"
      using fd_clear_ok[OF that(2), of "add f0 1 (\<lambda>_. 0)" None f1] by (intro triple_sq[OF _ bad[OF that(4,5)]]) simp
    then show ?thesis by (rule triple_sq[OF fd_clear_first[OF that(1,3)]])
  qed
  let ?out = "\<lambda>fdarray f0 f1 fd0 fd1. bnd (curproc ppagetable) (\<lambda>pt.
     bnd (bnd (copyout pt fdarray (le32 (of_nat fd0))) (\<lambda>r. if r < 0 then ret r else copyout pt (w64 (fdarray + 4)) (le32 (of_nat fd1)))) (\<lambda>r.
     if r < 0 then sq (fd_clear fd0) (sq (fd_clear fd1) (?bad f0 f1)) else value_of 0))"
  have v: "viewed (\<lambda>s. ?b (\<lambda>_. 0) s \<and> pofile (ptable s (curp s)) fd0 = Some f0 \<and> pofile (ptable s (curp s)) fd1 = Some f1)" for fd0 fd1 f0 f1
    using busy_tabs tabs_eqD(4,7) unfolding viewed_def by metis
  have out: "triple (\<lambda>s. ?b (\<lambda>_. 0) s \<and> pofile (ptable s (curp s)) fd0 = Some f0 \<and> pofile (ptable s (curp s)) fd1 = Some f1)
     (?out fdarray f0 f1 fd0 fd1) done_ok" if "fd0 < NOFILE" "fd1 < NOFILE" "fd1 \<noteq> fd0" "f0 < NFILE" "f1 < NFILE" for fdarray fd0 fd1 f0 f1
    by (intro triple_keeps_bnd[OF _ v] keeps_rules triple_if last that triple_pre[OF value_of_ok]) (erule conjunct1)
  let ?fd1 = "\<lambda>fdarray f0 f1 fd0. bnd (fdalloc f1) (\<lambda>r. case r of None \<Rightarrow> sq (fd_clear fd0) (?bad f0 f1) | Some fd1 \<Rightarrow> ?out fdarray f0 f1 fd0 fd1)"
  have fd1: "triple (\<lambda>s. ?b (add f1 1 (\<lambda>_. 0)) s \<and> pofile (ptable s (curp s)) fd0 = Some f0) (?fd1 fdarray f0 f1 fd0) done_ok"
    if f: "fd0 < NOFILE" "f0 < NFILE" "f1 < NFILE" for fdarray f0 f1 fd0
  proof -
    have "add f0 1 (add f1 1 (\<lambda>_. 0)) = two f0 f1" by (simp add: two_def add_commute)
    then have n: "triple (\<lambda>s. ?b (add f1 1 (\<lambda>_. 0)) s \<and> pofile (ptable s (curp s)) fd0 = Some f0) (sq (fd_clear fd0) (?bad f0 f1)) done_ok"
      using fd_clear_ok[OF f(1), of "add f1 1 (\<lambda>_. 0)" None f0] by (intro triple_sq[OF _ bad[OF f(2,3)]]) simp
    have o: "triple (\<lambda>s. pofile (ptable s (curp s)) fd0 = Some f0 \<and> y \<noteq> fd0 \<and> y < NOFILE \<and> pofile (ptable s (curp s)) y = Some f1 \<and>
        ?b (add f1 (- 1) (add f1 1 (\<lambda>_. 0))) s) (?out fdarray f0 f1 fd0 y) done_ok" for y
      by (rule triple_asm[where A = "y < NOFILE \<and> y \<noteq> fd0"], simp, rule triple_pre[OF out]) (auto simp: f)
    show ?thesis
      by (rule triple_bnd[OF fdalloc_second[OF f(3)]], rule triple_option, rule triple_pre[OF n], simp, rule triple_pre[OF o], simp)
  qed
  let ?fd0 = "\<lambda>fdarray f0 f1. bnd (fdalloc f0) (\<lambda>r. case r of None \<Rightarrow> ?bad f0 f1 | Some fd0 \<Rightarrow> ?fd1 fdarray f0 f1 fd0)"
  have fd0: "triple (?b (two f0 f1)) (?fd0 fdarray f0 f1) done_ok" if f: "f0 < NFILE" "f1 < NFILE" for fdarray f0 f1
  proof -
    have o: "triple (\<lambda>s. y < NOFILE \<and> pofile (ptable s (curp s)) y = Some f0 \<and> ?b (add f0 (- 1) (two f0 f1)) s) (?fd1 fdarray f0 f1 y) done_ok" for y
      by (rule triple_asm[where A = "y < NOFILE"], simp, rule triple_pre[OF fd1]) (auto simp: f two_minus)
    show ?thesis
      by (rule triple_bnd[OF fdalloc_ok[OF f(1)]], rule triple_option, rule triple_pre[OF bad[OF f]], simp, rule triple_pre[OF o], simp)
  qed
  have start: "triple (\<lambda>s. f0 < NFILE \<and> f1 < NFILE \<and> ?b (two f0 f1) s) (?fd0 fdarray f0 f1) done_ok" for fdarray f0 f1
    by (rule triple_asm[where A = "f0 < NFILE \<and> f1 < NFILE"], simp, rule triple_pre[OF fd0]) auto
  show ?thesis unfolding sys_pipe_def Let_def
    by (rule call_flow, rule keeps_rules, rule triple_bnd[OF pipealloc_ok], rule triple_option, rule triple_pre[OF value_of_ok], simp, rule triple_prod,
        rule triple_pre[OF start], simp)
qed

section \<open>Dispatch and traps\<close>

lemmas calls_ok = quiet_calls_ok sys_dup_ok sys_close_ok transfer_calls_ok sys_open_ok other_calls_ok sys_pipe_ok

lemma syscalls_ok: "m \<in> set syscalls \<Longrightarrow> triple (busy (\<lambda>_. 0) None) m done_ok"
  by (auto simp: syscalls_def calls_ok)

lemma done_ok_Value: "done_ok (Value v) = busy (\<lambda>_. 0) None"
  by (simp add: done_ok_def fun_eq_iff)

lemma length_syscalls: "length syscalls = 22"
  by (simp add: syscalls_def)

lemma syscall_end_ok: "triple (done_ok r) (syscall_end p r) done_ok"
proof (cases r)
  case (Value v)
  show ?thesis unfolding Value done_ok_Value syscall_end_def outcome.case
    by (intro call_rules keeps_rules triple_retI) (simp add: done_ok_def)
qed (auto simp: syscall_end_def intro!: triple_retI)

lemma syscall_ok: "triple (busy (\<lambda>_. 0) None) syscall done_ok"
proof -
  have call: "triple (busy (\<lambda>_. 0) None) (bnd (syscalls ! (nat num - 1)) (syscall_end p)) done_ok"
    if "0 < num" "num \<le> 22" for num p
    using that by (intro triple_bnd[OF syscalls_ok syscall_end_ok] nth_mem) (auto simp: length_syscalls)
  have bad: "triple (busy (\<lambda>_. 0) None) (sq (tf_put p TF_a0 (- 1)) (ret (Value (- 1)))) done_ok" for p
    by (intro call_rules keeps_rules triple_retI) (simp add: done_ok_def)
  show ?thesis unfolding syscall_def Let_def length_syscalls
    by (rule call_flow, rule keeps_rules, rule call_flow, rule keeps_rules, rule call_flow, rule call, simp, simp, intro call_flow keeps_rules bad)
qed

lemma awake_keeps [keeps_rules]: "keeps tabs awake"
  unfolding awake_def by (intro keeps_rules) (simp add: pview_def)

lemma resume_ok: "triple (busy (\<lambda>_. 0) None) (resume i) done_ok"
  unfolding resume_def Let_def
  by (rule call_flow, rule keeps_rules, rule call_flow, rule keeps_rules, rule call_flow, rule keeps_rules, rule triple_bnd[OF _ syscall_end_ok])
    (intro call_rules keeps_rules calls_ok)

definition trap_ok :: "trapped \<Rightarrow> 'z kst_scheme \<Rightarrow> bool" where
  "trap_ok r s \<longleftrightarrow> (case r of Resumes w \<Rightarrow> busy (\<lambda>_. 0) None s | _ \<Rightarrow> rest s \<and> \<not> running s)"

lemma sie_keeps [keeps_rules]: "keeps tabs sie_on" "keeps tabs sie_off"
  unfolding sie_on_def sie_off_def by (intro keeps_rules, simp)+

lemma usertrapret_ok: "triple (busy (\<lambda>_. 0) None) (usertrapret u) trap_ok"
  unfolding usertrapret_def by (intro call_rules keeps_rules triple_retI) (simp_all add: trap_ok_def)

lemma die_ok: "triple (busy (\<lambda>_. 0) None) die trap_ok"
  unfolding die_def by (rule triple_sq[OF kexit_ok], rule triple_retI) (simp add: trap_ok_def)

lemma trap_end_ok: "triple (busy (\<lambda>_. 0) None) (trap_end u d) trap_ok"
  unfolding trap_end_def
  by (rule call_flow, rule keeps_rules, rule call_flow, rule die_ok, rule call_flow, rule triple_sq[OF yield_ok], rule triple_retI,
      simp add: trap_ok_def, rule usertrapret_ok)

lemma call_end_ok: "triple (done_ok r) (call_end u r) trap_ok"
proof (cases r)
  case (Value v)
  show ?thesis unfolding Value done_ok_Value call_end_def outcome.case by (rule trap_end_ok)
qed (auto simp: call_end_def done_ok_def trap_ok_def intro!: triple_retI)

end
