(* ===== verification/Virtio.thy ===== *)
theory Virtio
  imports Calls
begin

text \<open>
  The driver of the disk, \<^verbatim>\<open>kernel/virtio_disk.c\<close>: the descriptors, the ring of requests for the device
  and the ring of finished ones. The state extends the kernel's by \<^verbatim>\<open>struct disk\<close>, the field \<^verbatim>\<open>disk\<close> of every
  buffer, and how far the device has read the ring of requests. The addresses that the driver gives to
  the device are those of three kinds of objects. \<^verbatim>\<open>virtio_disk_rw\<close> sleeps until the device
  has finished; it is modelled by what it does before and after.
\<close>

section \<open>Descriptors\<close>

datatype dma = Nowhere | OpsOf nat | DataOf nat | StatusOf nat

record virtq_desc =
  d_addr :: dma
  d_len :: nat
  d_flags :: "16 word"
  d_next :: nat

record virtio_blk_req =
  r_type :: "32 word"
  r_reserved :: "32 word"
  r_sector :: "64 word"

record vdisk = kst +
  v_desc :: "nat \<Rightarrow> virtq_desc"
  avail_ring :: "nat \<Rightarrow> nat"
  avail_idx :: "16 word"
  used_ring :: "nat \<Rightarrow> nat"
  used_dev :: "16 word"
  v_free :: "nat \<Rightarrow> bool"
  used_idx :: "16 word"
  info_b :: "nat \<Rightarrow> nat option"
  info_status :: "nat \<Rightarrow> byte"
  v_ops :: "nat \<Rightarrow> virtio_blk_req"
  b_disk :: "nat \<Rightarrow> bool"
  dev_seen :: "16 word"

type_synonym ('z, 'a) vprog = "('z vdisk_scheme, kerr, 'a) comp"

definition NUM :: nat where "NUM = 8"
definition VRING_DESC_F_NEXT :: "16 word" where "VRING_DESC_F_NEXT = 1"
definition VRING_DESC_F_WRITE :: "16 word" where "VRING_DESC_F_WRITE = 2"
definition VIRTIO_BLK_T_IN :: "32 word" where "VIRTIO_BLK_T_IN = 0"
definition VIRTIO_BLK_T_OUT :: "32 word" where "VIRTIO_BLK_T_OUT = 1"

definition desc_upd :: "nat \<Rightarrow> virtq_desc \<Rightarrow> ('z, unit) vprog" where
  "desc_upd i d = upd (\<lambda>s. s\<lparr>v_desc := (v_desc s)(i := d)\<rparr>)"

definition set_free :: "nat \<Rightarrow> bool \<Rightarrow> ('z, unit) vprog" where
  "set_free i b = upd (\<lambda>s. s\<lparr>v_free := (v_free s)(i := b)\<rparr>)"

definition alloc_desc :: "('z, nat option) vprog" where
  "alloc_desc = bnd (gets v_free) (\<lambda>fr. case List.find fr [0..<NUM] of
     None \<Rightarrow> ret None
   | Some i \<Rightarrow> sq (set_free i False) (ret (Some i)))"

definition free_desc :: "nat \<Rightarrow> ('z, unit) vprog" where
  "free_desc i = (if i \<ge> NUM then panic ''free_desc 1'' else
     bnd (gets (\<lambda>s. v_free s i)) (\<lambda>fr. if fr then panic ''free_desc 2'' else
     sq (desc_upd i \<lparr>d_addr = Nowhere, d_len = 0, d_flags = 0, d_next = 0\<rparr>)
     (sq (set_free i True)
     (wakeup_chan ''disk.free''))))"

lemma free_desc_run:
  "free_desc i s = Inr (u, s') \<Longrightarrow> i < NUM \<and> \<not> v_free s i \<and>
    s' = s\<lparr>v_desc := (v_desc s)(i := \<lparr>d_addr = Nowhere, d_len = 0, d_flags = 0, d_next = 0\<rparr>), v_free := (v_free s)(i := True),
           chan_wakes := chan_wakes s @ [''disk.free'']\<rparr>"
  by (auto simp: free_desc_def panic_def run_simps desc_upd_def set_free_def wakeup_chan_def split: if_splits)

text \<open>Each round of \<^verbatim>\<open>free_chain\<close> frees a descriptor that was in use, or panics.\<close>

function free_chain :: "nat \<Rightarrow> ('z, unit) vprog" where
  "free_chain i s = (let d = v_desc s i in
     case free_desc i s of Inl e \<Rightarrow> Inl e | Inr (u, s1) \<Rightarrow>
     if d_flags d AND VRING_DESC_F_NEXT \<noteq> 0 then free_chain (d_next d) s1 else Inr ((), s1))"
  by auto

lemma in_use_less:
  assumes "free_desc i s = Inr (u, s')"
  shows "card {j. j < NUM \<and> \<not> v_free s' j} < card {j. j < NUM \<and> \<not> v_free s j}"
proof -
  have "{j. j < NUM \<and> \<not> v_free s' j} = {j. j < NUM \<and> \<not> v_free s j} - {i}" "i \<in> {j. j < NUM \<and> \<not> v_free s j}"
    using free_desc_run[OF assms] by auto
  then show ?thesis using card_Diff1_less[of "{j. j < NUM \<and> \<not> v_free s j}" i] by simp
qed

termination free_chain
  by (relation "measure (\<lambda>(i, s). card {j. j < NUM \<and> \<not> v_free s j})") (auto intro: in_use_less)

declare free_chain.simps [simp del]

primrec free_descs :: "nat list \<Rightarrow> ('z, unit) vprog" where
  "free_descs [] = ret ()"
| "free_descs (i # is) = sq (free_desc i) (free_descs is)"

text \<open>\<^verbatim>\<open>alloc3_desc\<close>, the loop by the number of descriptors still wanted and those that it has got.\<close>

primrec alloc_descs :: "nat \<Rightarrow> nat list \<Rightarrow> ('z, nat list option) vprog" where
  "alloc_descs 0 idx = ret (Some idx)"
| "alloc_descs (Suc k) idx = bnd alloc_desc (\<lambda>r. case r of
     None \<Rightarrow> sq (free_descs idx) (ret None)
   | Some i \<Rightarrow> alloc_descs k (idx @ [i]))"

definition alloc3_desc :: "('z, nat list option) vprog" where
  "alloc3_desc = alloc_descs 3 []"

section \<open>Requests\<close>

text \<open>\<^verbatim>\<open>virtio_disk_rw\<close> up to the notification of the device; it sleeps when there are no descriptors.\<close>

definition virtio_format :: "nat \<Rightarrow> nat \<Rightarrow> nat \<Rightarrow> nat \<Rightarrow> bool \<Rightarrow> ('z, unit) vprog" where
  "virtio_format i0 i1 i2 b wr = bnd (gets (\<lambda>s. blockno (bufs s b))) (\<lambda>bno.
     sq (upd (\<lambda>s. s\<lparr>v_ops := (v_ops s)(i0 := \<lparr>r_type = (if wr then VIRTIO_BLK_T_OUT else VIRTIO_BLK_T_IN), r_reserved = 0,
           r_sector = ucast (of_nat bno * (of_nat (BSIZE div 512)) :: 32 word)\<rparr>)\<rparr>))
     (sq (desc_upd i0 \<lparr>d_addr = OpsOf i0, d_len = 16, d_flags = VRING_DESC_F_NEXT, d_next = i1\<rparr>)
     (sq (desc_upd i1 \<lparr>d_addr = DataOf b, d_len = BSIZE, d_flags = (if wr then 0 else VRING_DESC_F_WRITE) OR VRING_DESC_F_NEXT, d_next = i2\<rparr>)
     (sq (upd (\<lambda>s. s\<lparr>info_status := (info_status s)(i0 := 0xff)\<rparr>))
     (sq (desc_upd i2 \<lparr>d_addr = StatusOf i0, d_len = 1, d_flags = VRING_DESC_F_WRITE, d_next = 0\<rparr>)
     (upd (\<lambda>s. s\<lparr>b_disk := (b_disk s)(b := True), info_b := (info_b s)(i0 := Some b)\<rparr>)))))))"

definition virtio_start :: "nat \<Rightarrow> bool \<Rightarrow> ('z, nat) vprog" where
  "virtio_start b wr = bnd alloc3_desc (\<lambda>r. case r of
     Some [i0, i1, i2] \<Rightarrow>
       sq (virtio_format i0 i1 i2 b wr)
       (sq (upd (\<lambda>s. s\<lparr>avail_ring := (avail_ring s)(unat (avail_idx s) mod NUM := i0)\<rparr>))
       (sq (upd (\<lambda>s. s\<lparr>avail_idx := avail_idx s + 1\<rparr>))
       (ret i0)))
   | _ \<Rightarrow> fail (Sleeps ''disk.free''))"

text \<open>The rest of \<^verbatim>\<open>virtio_disk_rw\<close>; it sleeps again as long as the request is not finished.\<close>

definition virtio_end :: "nat \<Rightarrow> nat \<Rightarrow> ('z, unit) vprog" where
  "virtio_end b i0 = bnd (gets (\<lambda>s. b_disk s b)) (\<lambda>busy. if busy then fail (Sleeps ''buf'') else
     sq (upd (\<lambda>s. s\<lparr>info_b := (info_b s)(i0 := None)\<rparr>)) (free_chain i0))"

text \<open>The loop of \<^verbatim>\<open>virtio_disk_intr\<close> over the finished requests; the device adds at most \<^verbatim>\<open>NUM\<close> at a time.\<close>

primrec intr_loop :: "nat \<Rightarrow> ('z, unit) vprog" where
  "intr_loop 0 = fail NoFuel"
| "intr_loop (Suc k) = bnd (gets (\<lambda>s. used_idx s = used_dev s)) (\<lambda>done. if done then ret () else
     bnd (gets (\<lambda>s. used_ring s (unat (used_idx s) mod NUM))) (\<lambda>id.
     bnd (gets (\<lambda>s. (info_status s id, info_b s id))) (\<lambda>(st, ob).
     if st \<noteq> 0 then panic ''virtio_disk_intr status'' else
     case ob of None \<Rightarrow> fail (Undef ''info.b'') | Some b \<Rightarrow>
     sq (upd (\<lambda>s. s\<lparr>b_disk := (b_disk s)(b := False)\<rparr>))
     (sq (wakeup_chan ''buf'')
     (sq (upd (\<lambda>s. s\<lparr>used_idx := used_idx s + 1\<rparr>))
     (intr_loop k))))))"

definition virtio_disk_intr :: "('z, unit) vprog" where
  "virtio_disk_intr = intr_loop (2 ^ 16)"

section \<open>The descriptors in use\<close>

text \<open>
  The requests in flight, each a chain of three descriptors: no descriptor is in two chains, the free
  ones are in none, and the links are those of the chains.
\<close>

definition chain_ok :: "'z vdisk_scheme \<Rightarrow> nat \<times> nat \<times> nat \<Rightarrow> bool" where
  "chain_ok s = (\<lambda>(i0, i1, i2). i0 < NUM \<and> i1 < NUM \<and> i2 < NUM \<and>
     d_flags (v_desc s i0) AND VRING_DESC_F_NEXT \<noteq> 0 \<and> d_next (v_desc s i0) = i1 \<and>
     d_flags (v_desc s i1) AND VRING_DESC_F_NEXT \<noteq> 0 \<and> d_next (v_desc s i1) = i2 \<and>
     d_flags (v_desc s i2) AND VRING_DESC_F_NEXT = 0)"

definition flat :: "(nat \<times> nat \<times> nat) list \<Rightarrow> nat list" where
  "flat cs = concat (map (\<lambda>(i0, i1, i2). [i0, i1, i2]) cs)"

definition vd_rep :: "'z vdisk_scheme \<Rightarrow> (nat \<times> nat \<times> nat) list \<Rightarrow> bool" where
  "vd_rep s cs \<longleftrightarrow> (\<forall>c\<in>set cs. chain_ok s c) \<and> distinct (flat cs) \<and> (\<forall>i<NUM. v_free s i \<longleftrightarrow> i \<notin> set (flat cs))"

lemma flat_simps [simp]: "flat [] = []" "flat ((i0, i1, i2) # cs) = i0 # i1 # i2 # flat cs"
  by (simp_all add: flat_def)

lemma flat_mem: "c \<in> set cs \<Longrightarrow> i \<in> set (flat [c]) \<Longrightarrow> i \<in> set (flat cs)"
  by (force simp: flat_def)

lemma chain_ok_cong: "(\<And>i. i \<in> set (flat [c]) \<Longrightarrow> v_desc s' i = v_desc s i) \<Longrightarrow> chain_ok s' c = chain_ok s c"
  by (cases c) (auto simp: chain_ok_def)

lemma alloc_desc_run:
  "alloc_desc s = (case List.find (v_free s) [0..<NUM] of None \<Rightarrow> Inr (None, s) | Some i \<Rightarrow> Inr (Some i, s\<lparr>v_free := (v_free s)(i := False)\<rparr>))"
  by (auto simp: alloc_desc_def run_simps set_free_def split: option.splits)

text \<open>With three free descriptors, \<^verbatim>\<open>alloc3_desc\<close> takes three different ones of them.\<close>

lemma find_free:
  assumes "\<exists>i<NUM. F i"
  obtains i where "List.find F [0..<NUM] = Some i" "i < NUM" "F i"
proof (cases "List.find F [0..<NUM]")
  case None
  then show ?thesis using assms by (auto simp: find_None_iff)
next
  case (Some i)
  then show ?thesis using find_upt[OF Some] that by blast
qed

lemma alloc3_run:
  assumes "3 \<le> card {i. i < NUM \<and> v_free s i}"
  obtains i0 i1 i2 where "alloc3_desc s = Inr (Some [i0, i1, i2], s\<lparr>v_free := (v_free s)(i0 := False, i1 := False, i2 := False)\<rparr>)"
    "distinct [i0, i1, i2]" "i0 < NUM" "i1 < NUM" "i2 < NUM" "v_free s i0" "v_free s i1" "v_free s i2"
proof -
  let ?F = "{i. i < NUM \<and> v_free s i}"
  have more: "\<exists>i<NUM. v_free s i \<and> i \<notin> A" if "finite A" "card A < 3" for A
  proof (rule ccontr)
    assume "\<not> (\<exists>i<NUM. v_free s i \<and> i \<notin> A)"
    then have "?F \<subseteq> A" by auto
    then have "card ?F \<le> card A" by (rule card_mono[OF that(1)])
    then show False using that(2) assms by linarith
  qed
  obtain i0 where i0: "List.find (v_free s) [0..<NUM] = Some i0" "i0 < NUM" "v_free s i0"
    using more[of "{}"] by (auto elim!: find_free)
  let ?f1 = "(v_free s)(i0 := False)"
  have "\<exists>i<NUM. ?f1 i" using more[of "{i0}"] by auto
  then obtain i1 where i1: "List.find ?f1 [0..<NUM] = Some i1" "i1 < NUM" "?f1 i1" by (rule find_free)
  let ?f2 = "?f1(i1 := False)"
  have "card {i0, i1} < 3" by (simp add: card_insert_if)
  then have "\<exists>i<NUM. ?f2 i" using more[of "{i0, i1}"] by auto
  then obtain i2 where i2: "List.find ?f2 [0..<NUM] = Some i2" "i2 < NUM" "?f2 i2" by (rule find_free)
  have "alloc3_desc s = Inr (Some [i0, i1, i2], s\<lparr>v_free := (v_free s)(i0 := False, i1 := False, i2 := False)\<rparr>)"
    by (simp add: alloc3_desc_def numeral_3_eq_3 run_simps alloc_desc_run i0(1) i1(1) i2(1) bnd_def)
  moreover have "distinct [i0, i1, i2]" "v_free s i1" "v_free s i2" using i1(3) i2(3) by (auto split: if_splits)
  ultimately show thesis using i0(2,3) i1(2) i2(2) by (intro that)
qed

lemma free_chain_run:
  assumes "chain_ok s (i0, i1, i2)" "distinct [i0, i1, i2]" "\<not> v_free s i0" "\<not> v_free s i1" "\<not> v_free s i2"
  shows "\<exists>s'. free_chain i0 s = Inr ((), s') \<and> v_free s' = (v_free s)(i0 := True, i1 := True, i2 := True) \<and>
    (\<forall>i. i \<notin> {i0, i1, i2} \<longrightarrow> v_desc s' i = v_desc s i) \<and> bufs s' = bufs s \<and> disk s' = disk s"
proof -
  have f: "free_desc i t = Inr ((), t\<lparr>v_desc := (v_desc t)(i := \<lparr>d_addr = Nowhere, d_len = 0, d_flags = 0, d_next = 0\<rparr>), v_free := (v_free t)(i := True),
           chan_wakes := chan_wakes t @ [''disk.free'']\<rparr>)" if "i < NUM" "\<not> v_free t i" for i and t :: "'a vdisk_scheme"
    using that by (simp add: free_desc_def run_simps desc_upd_def set_free_def wakeup_chan_def)
  show ?thesis using assms
    by (subst free_chain.simps, subst free_chain.simps, subst free_chain.simps) (auto simp: chain_ok_def f Let_def)
qed

section \<open>The device\<close>

text \<open>
  A request as the virtio specification has it: a chain of a header, one block of data and a status byte, the
  parts that the device writes being marked. \<open>serves dev\<close> says that \<open>dev\<close>, the device, takes the next chain
  from the ring, transfers the block, sets the status to 0 and reports the chain in the other ring.
\<close>

definition request_at :: "'z vdisk_scheme \<Rightarrow> nat \<Rightarrow> nat \<Rightarrow> bool \<Rightarrow> nat \<Rightarrow> nat \<Rightarrow> bool" where
  "request_at s h b wr bno st \<longleftrightarrow> (let d0 = v_desc s h; d1 = v_desc s (d_next d0); d2 = v_desc s (d_next d1) in
     (\<exists>k. d_addr d0 = OpsOf k \<and> r_type (v_ops s k) = (if wr then VIRTIO_BLK_T_OUT else VIRTIO_BLK_T_IN) \<and> unat (r_sector (v_ops s k)) = 2 * bno) \<and>
     d_len d0 = 16 \<and> d_flags d0 = VRING_DESC_F_NEXT \<and>
     d_addr d1 = DataOf b \<and> d_len d1 = BSIZE \<and> d_flags d1 = (if wr then 0 else VRING_DESC_F_WRITE) OR VRING_DESC_F_NEXT \<and>
     d_addr d2 = StatusOf st \<and> d_len d2 = 1 \<and> d_flags d2 = VRING_DESC_F_WRITE)"

definition overlay :: "memory \<Rightarrow> memory \<Rightarrow> memory" where
  "overlay new old = (\<lambda>i. if i < BSIZE then new i else old i)"

definition transfer :: "bool \<Rightarrow> nat \<Rightarrow> nat \<Rightarrow> 'z vdisk_scheme \<Rightarrow> 'z vdisk_scheme" where
  "transfer wr b bno s = (if wr then s\<lparr>disk := (disk s)(bno := overlay (bdata (bufs s b)) (disk s bno))\<rparr>
     else s\<lparr>bufs := (bufs s)(b := (bufs s b)\<lparr>bdata := overlay (disk s bno) (bdata (bufs s b))\<rparr>)\<rparr>)"

definition completed :: "nat \<Rightarrow> nat \<Rightarrow> 'z vdisk_scheme \<Rightarrow> 'z vdisk_scheme" where
  "completed h st s = s\<lparr>info_status := (info_status s)(st := 0), used_ring := (used_ring s)(unat (used_dev s) mod NUM := h),
     used_dev := used_dev s + 1, dev_seen := dev_seen s + 1\<rparr>"

definition serves :: "('z vdisk_scheme \<Rightarrow> 'z vdisk_scheme) \<Rightarrow> bool" where
  "serves dev \<longleftrightarrow> (\<forall>s b wr bno st. let h = avail_ring s (unat (dev_seen s) mod NUM) in
     dev_seen s \<noteq> avail_idx s \<and> request_at s h b wr bno st \<longrightarrow> dev s = completed h st (transfer wr b bno s))"

lemma servesD:
  "serves dev \<Longrightarrow> dev_seen s \<noteq> avail_idx s \<Longrightarrow> request_at s (avail_ring s (unat (dev_seen s) mod NUM)) b wr bno st \<Longrightarrow>
    dev s = completed (avail_ring s (unat (dev_seen s) mod NUM)) st (transfer wr b bno s)"
  unfolding serves_def Let_def by blast

section \<open>A transfer from beginning to end\<close>

lemma next_flags: "VRING_DESC_F_NEXT AND VRING_DESC_F_NEXT \<noteq> 0" "((if wr then 0 else VRING_DESC_F_WRITE) OR VRING_DESC_F_NEXT) AND VRING_DESC_F_NEXT \<noteq> 0"
    "VRING_DESC_F_WRITE AND VRING_DESC_F_NEXT = 0"
  by (simp_all add: VRING_DESC_F_NEXT_def VRING_DESC_F_WRITE_def)

text \<open>What \<^verbatim>\<open>virtio_disk_rw\<close> has set up when it notifies the device.\<close>

lemma virtio_start_run:
  assumes "vd_rep s cs" "3 \<le> card {i. i < NUM \<and> v_free s i}" "2 * blockno (bufs s b) < 2 ^ 32"
  obtains i0 i1 i2 s1 where "virtio_start b wr s = Inr (i0, s1)" "vd_rep s1 ((i0, i1, i2) # cs)" "request_at s1 i0 b wr (blockno (bufs s b)) i0"
    "avail_idx s1 = avail_idx s + 1" "avail_ring s1 (unat (avail_idx s) mod NUM) = i0" "info_b s1 i0 = Some b"
    "bufs s1 = bufs s" "disk s1 = disk s" "used_idx s1 = used_idx s" "used_dev s1 = used_dev s" "dev_seen s1 = dev_seen s"
proof -
  obtain i0 i1 i2 where a: "alloc3_desc s = Inr (Some [i0, i1, i2], s\<lparr>v_free := (v_free s)(i0 := False, i1 := False, i2 := False)\<rparr>)"
    and d: "distinct [i0, i1, i2]" and l: "i0 < NUM" "i1 < NUM" "i2 < NUM" and f: "v_free s i0" "v_free s i1" "v_free s i2"
    by (rule alloc3_run[OF assms(2)])
  have n: "i0 \<notin> set (flat cs)" "i1 \<notin> set (flat cs)" "i2 \<notin> set (flat cs)" using assms(1) l f by (auto simp: vd_rep_def)
  obtain s1 where s1: "virtio_start b wr s = Inr (i0, s1)" and
    e: "v_free s1 = (v_free s)(i0 := False, i1 := False, i2 := False)"
      "v_desc s1 = (v_desc s)(i0 := \<lparr>d_addr = OpsOf i0, d_len = 16, d_flags = VRING_DESC_F_NEXT, d_next = i1\<rparr>,
         i1 := \<lparr>d_addr = DataOf b, d_len = BSIZE, d_flags = (if wr then 0 else VRING_DESC_F_WRITE) OR VRING_DESC_F_NEXT, d_next = i2\<rparr>,
         i2 := \<lparr>d_addr = StatusOf i0, d_len = 1, d_flags = VRING_DESC_F_WRITE, d_next = 0\<rparr>)"
      "v_ops s1 i0 = \<lparr>r_type = (if wr then VIRTIO_BLK_T_OUT else VIRTIO_BLK_T_IN), r_reserved = 0,
         r_sector = ucast (of_nat (blockno (bufs s b)) * (of_nat (BSIZE div 512)) :: 32 word)\<rparr>"
      "avail_idx s1 = avail_idx s + 1" "avail_ring s1 (unat (avail_idx s) mod NUM) = i0" "info_b s1 i0 = Some b"
      "bufs s1 = bufs s" "disk s1 = disk s" "used_idx s1 = used_idx s" "used_dev s1 = used_dev s" "dev_seen s1 = dev_seen s"
    by (simp add: virtio_start_def virtio_format_def desc_upd_def run_simps a)
  have c: "chain_ok s1 c = chain_ok s c" if "c \<in> set cs" for c
    using n flat_mem[OF that] by (intro chain_ok_cong) (auto simp: e(2))
  have "chain_ok s1 (i0, i1, i2)" using d l next_flags by (simp add: chain_ok_def e(2))
  then have v: "vd_rep s1 ((i0, i1, i2) # cs)" using assms(1) d n c by (auto simp: vd_rep_def e(1))
  have "unat (ucast (of_nat (blockno (bufs s b)) * (of_nat (BSIZE div 512)) :: 32 word) :: 64 word) = 2 * blockno (bufs s b)"
  proof -
    have "of_nat (blockno (bufs s b)) * (of_nat (BSIZE div 512)) = (of_nat (2 * blockno (bufs s b)) :: 32 word)" by (simp add: BSIZE_def)
    moreover have "unat (of_nat (2 * blockno (bufs s b)) :: 32 word) = 2 * blockno (bufs s b)"
      using assms(3) by (intro unat_of_nat_small) simp
    moreover have "unat (ucast w :: 64 word) = unat w" for w :: "32 word" by transfer (simp add: take_bit_eq_mod)
    ultimately show ?thesis by simp
  qed
  then have "request_at s1 i0 b wr (blockno (bufs s b)) i0" using d e(2,3) by (auto simp: request_at_def Let_def)
  then show thesis using that[OF s1 v] e(4-11) by blast
qed

lemma overlay_mem: "i < BSIZE \<Longrightarrow> overlay a b i = a i"
  by (simp add: overlay_def)

lemma transfer_keeps: "v_desc (transfer wr b n s) = v_desc s" "v_free (transfer wr b n s) = v_free s" "info_b (transfer wr b n s) = info_b s"
    "used_idx (transfer wr b n s) = used_idx s" "used_dev (transfer wr b n s) = used_dev s" "info_status (transfer wr b n s) = info_status s"
  by (simp_all add: transfer_def)

lemma vd_rep_cong: "v_desc s' = v_desc s \<Longrightarrow> v_free s' = v_free s \<Longrightarrow> vd_rep s' cs = vd_rep s cs"
  by (auto simp: vd_rep_def chain_ok_def)

lemma intr_one:
  assumes "used_dev s = used_idx s + 1" "info_status s h = 0" "info_b s h = Some b" "used_ring s (unat (used_idx s) mod NUM) = h"
  shows "virtio_disk_intr s = Inr ((), s\<lparr>b_disk := (b_disk s)(b := False), chan_wakes := chan_wakes s @ [''buf''], used_idx := used_idx s + 1\<rparr>)"
proof -
  have "intr_loop (Suc (Suc k)) s = Inr ((), s\<lparr>b_disk := (b_disk s)(b := False), chan_wakes := chan_wakes s @ [''buf''], used_idx := used_idx s + 1\<rparr>)" for k
    using assms by (simp add: bnd_def sq_def gets_run upd_run ret_run wakeup_chan_def)
  moreover have "(2 :: nat) ^ 16 = Suc (Suc 65534)" by simp
  ultimately show ?thesis unfolding virtio_disk_intr_def by metis
qed

lemma virtio_end_run:
  assumes "vd_rep s ((i0, i1, i2) # cs)" "\<not> b_disk s b"
  shows "\<exists>s'. virtio_end b i0 s = Inr ((), s') \<and> vd_rep s' cs \<and> bufs s' = bufs s \<and> disk s' = disk s"
proof -
  let ?t = "s\<lparr>info_b := (info_b s)(i0 := None)\<rparr>"
  have c: "chain_ok ?t (i0, i1, i2)" "distinct [i0, i1, i2]" "\<not> v_free ?t i0" "\<not> v_free ?t i1" "\<not> v_free ?t i2"
    using assms(1) by (auto simp: vd_rep_def chain_ok_def)
  obtain s' where s': "free_chain i0 ?t = Inr ((), s')" "v_free s' = (v_free ?t)(i0 := True, i1 := True, i2 := True)"
      "\<forall>i. i \<notin> {i0, i1, i2} \<longrightarrow> v_desc s' i = v_desc ?t i" "bufs s' = bufs ?t" "disk s' = disk ?t"
    using free_chain_run[OF c] by blast
  have n: "i0 \<notin> set (flat cs)" "i1 \<notin> set (flat cs)" "i2 \<notin> set (flat cs)" using assms(1) by (auto simp: vd_rep_def)
  have "chain_ok s' c = chain_ok s c" if "c \<in> set cs" for c
  proof (rule chain_ok_cong)
    fix i assume "i \<in> set (flat [c])"
    then have "i \<notin> {i0, i1, i2}" using n flat_mem[OF that] by blast
    then show "v_desc s' i = v_desc s i" using s'(3) by simp
  qed
  then have "vd_rep s' cs" using assms(1) n by (auto simp: vd_rep_def s'(2))
  moreover have "virtio_end b i0 s = Inr ((), s')" using assms(2) s'(1) by (simp add: virtio_end_def run_simps)
  ultimately show ?thesis using s'(4,5) by auto
qed

text \<open>
  C7. The disk driver implements the block transfers on which the buffer cache relies. With a device that
  serves requests as the virtio specification says, a call of \<^verbatim>\<open>virtio_disk_rw\<close> that finds three free
  descriptors, the device's work and its interrupt move the block between buffer and disk exactly as \<open>disk_rw\<close>
  does, change no other block and no other buffer, and give back exactly the descriptors they took;
  the chains of other requests in flight stay as they are.
\<close>

theorem virtio_implements_disk_rw:
  fixes s :: "'z vdisk_scheme"
  assumes "serves dev" "vd_rep s cs" "3 \<le> card {i. i < NUM \<and> v_free s i}" "2 * blockno (bufs s b) < 2 ^ 32"
    "used_idx s = used_dev s" "dev_seen s = avail_idx s" "disk_rw b wr s = Inr ((), t)"
  shows "\<exists>i0 s1 s2 s3. virtio_start b wr s = Inr (i0, s1) \<and> virtio_disk_intr (dev s1) = Inr ((), s2) \<and> virtio_end b i0 s2 = Inr ((), s3) \<and>
    vd_rep s3 cs \<and> (\<forall>n. \<forall>i<BSIZE. disk s3 n i = disk t n i) \<and> (\<forall>n. \<forall>i<BSIZE. bdata (bufs s3 n) i = bdata (bufs t n) i) \<and>
    (\<forall>n. (bufs s3 n)\<lparr>bdata := bdata (bufs t n)\<rparr> = bufs t n)"
proof -
  obtain i0 i1 i2 s1 where s1: "virtio_start b wr s = Inr (i0, s1)" "vd_rep s1 ((i0, i1, i2) # cs)" "request_at s1 i0 b wr (blockno (bufs s b)) i0"
    and e: "avail_idx s1 = avail_idx s + 1" "avail_ring s1 (unat (avail_idx s) mod NUM) = i0" "info_b s1 i0 = Some b"
    "bufs s1 = bufs s" "disk s1 = disk s" "used_idx s1 = used_idx s" "used_dev s1 = used_dev s" "dev_seen s1 = dev_seen s"
    by (rule virtio_start_run[OF assms(2-4)])
  let ?t = "transfer wr b (blockno (bufs s b)) s1"
  let ?d = "completed i0 i0 ?t"
  have "dev_seen s1 \<noteq> avail_idx s1" using e(1,8) assms(6) by simp
  moreover have "avail_ring s1 (unat (dev_seen s1) mod NUM) = i0" using e(2,8) assms(6) by simp
  ultimately have d: "dev s1 = ?d" using servesD[OF assms(1)] s1(3) by metis
  let ?s2 = "?d\<lparr>b_disk := (b_disk ?d)(b := False), chan_wakes := chan_wakes ?d @ [''buf''], used_idx := used_idx ?d + 1\<rparr>"
  have s2: "virtio_disk_intr (dev s1) = Inr ((), ?s2)"
    unfolding d using e assms(5) by (intro intr_one[where h = i0]) (simp_all add: completed_def transfer_keeps)
  have "vd_rep ?s2 ((i0, i1, i2) # cs)" using s1(2) by (simp add: completed_def transfer_keeps cong: vd_rep_cong)
  then obtain s3 where s3: "virtio_end b i0 ?s2 = Inr ((), s3)" "vd_rep s3 cs" "bufs s3 = bufs ?s2" "disk s3 = disk ?s2"
    using virtio_end_run[of ?s2 i0 i1 i2 cs b] by auto
  have b: "bufs s3 = bufs ?t" "disk s3 = disk ?t" using s3(3,4) by (simp_all add: completed_def)
  have "(\<forall>n. \<forall>i<BSIZE. disk s3 n i = disk t n i) \<and> (\<forall>n. \<forall>i<BSIZE. bdata (bufs s3 n) i = bdata (bufs t n) i) \<and>
    (\<forall>n. (bufs s3 n)\<lparr>bdata := bdata (bufs t n)\<rparr> = bufs t n)"
    using assms(7) e(4,5) by (cases wr) (auto simp: b transfer_def disk_rw_def buf_upd_def run_simps overlay_mem)
  then show ?thesis using s1(1) s2 s3(1,2) by blast
qed

text \<open>A device, and the state before the first request.\<close>

definition simple_device :: "'z vdisk_scheme \<Rightarrow> 'z vdisk_scheme" where
  "simple_device s = (let h = avail_ring s (unat (dev_seen s) mod NUM); d0 = v_desc s h; d1 = v_desc s (d_next d0); d2 = v_desc s (d_next d1) in
     case (d_addr d0, d_addr d1, d_addr d2) of
       (OpsOf k, DataOf b, StatusOf st) \<Rightarrow> completed h st (transfer (r_type (v_ops s k) = VIRTIO_BLK_T_OUT) b (unat (r_sector (v_ops s k)) div 2) s)
     | _ \<Rightarrow> s)"

lemma simple_device_serves: "serves simple_device"
  by (auto simp: serves_def simple_device_def request_at_def Let_def VIRTIO_BLK_T_OUT_def VIRTIO_BLK_T_IN_def)

definition blank_inode :: inode where
  "blank_inode = \<lparr>idev = 0, inum = 0, iref = 0, ilocked = False, ipid = 0, ivalid = False, itype = 0, imajor = 0, iminor = 0, inlink = 0,
     isize = 0, iaddrs = (\<lambda>_. 0)\<rparr>"

definition blank_file :: kfile where
  "blank_file = \<lparr>ftyp = FD_NONE, fref = 0, freadable = False, fwritable = False, fpipe = 0, fip = 0, foff = 0, fmajor = 0\<rparr>"

definition blank_proc :: proc where
  "blank_proc = \<lparr>pstate = UNUSED, pchan = None, pkilled = False, pxstate = 0, ppid = 0, pparent = None, pkstack = 0, psz = 0, ppagetable = 0,
     ptrapframe = 0, pcontext = \<lparr>ctx_ra = [], ctx_sp = 0\<rparr>, pofile = (\<lambda>_. None), pcwd = None, pname = []\<rparr>"

definition kst_boot :: kst where
  "kst_boot = logd.extend log_boot (kst.fields demo_sb (\<lambda>_. blank_inode) (\<lambda>_. blank_file) (\<lambda>_. blank_proc) NPROC None 1 True 0
     (\<lambda>_. NoDriver) 0x80001000 0 0 0 0 KernelVec 0 0 0 [])"

definition vd_boot :: vdisk where
  "vd_boot = kst.extend kst_boot (vdisk.fields (\<lambda>_. \<lparr>d_addr = Nowhere, d_len = 0, d_flags = 0, d_next = 0\<rparr>) (\<lambda>_. 0) 0 (\<lambda>_. 0) 0
     (\<lambda>i. i < NUM) 0 (\<lambda>_. None) (\<lambda>_. 0) (\<lambda>_. \<lparr>r_type = 0, r_reserved = 0, r_sector = 0\<rparr>) (\<lambda>_. False) 0)"

lemma vd_boot_fields: "v_free vd_boot = (\<lambda>i. i < NUM)" "used_idx vd_boot = used_dev vd_boot" "dev_seen vd_boot = avail_idx vd_boot"
    "blockno (bufs vd_boot b) = 0"
  by (simp_all add: vd_boot_def kst_boot_def log_boot_def boot_def kst.extend_def vdisk.fields_def logd.extend_def kst.fields_def blkd.extend_def
      logd.fields_def ttyd.extend_def blkd.fields_def)

theorem virtio_implements_disk_rw_witness:
  "\<exists>t i0 s1 s2 s3. disk_rw 5 True vd_boot = Inr ((), t) \<and> virtio_start 5 True vd_boot = Inr (i0, s1) \<and>
     virtio_disk_intr (simple_device s1) = Inr ((), s2) \<and> virtio_end 5 i0 s2 = Inr ((), s3) \<and> vd_rep s3 [] \<and> (\<forall>i<BSIZE. disk s3 0 i = disk t 0 i)"
proof -
  have r: "vd_rep vd_boot []" by (simp add: vd_rep_def vd_boot_fields)
  have c: "3 \<le> card {i. i < NUM \<and> v_free vd_boot i}" by (simp add: vd_boot_fields NUM_def)
  obtain t where t: "disk_rw 5 True vd_boot = Inr ((), t)" by (simp add: disk_rw_def run_simps)
  show ?thesis
    using virtio_implements_disk_rw[OF simple_device_serves r c _ vd_boot_fields(2,3) t] t by (simp add: vd_boot_fields) blast
qed

end
