(* ===== verification/Boot.thy ===== *)
theory Boot
  imports Virtio
begin

text \<open>
  The first process. With nine free pages \<^verbatim>\<open>userinit\<close> of \<^verbatim>\<open>kernel/proc.c\<close> succeeds: the process gets its trap
  frame, a page table that maps the trampoline, the trap frame and one page of user memory with \<^verbatim>\<open>initcode\<close>
  in it, and the root directory as its current one.
\<close>

section \<open>Memory apart from the rest of the state\<close>

text \<open>The view of the state without memory; the programs of \<^verbatim>\<open>kalloc.c\<close> and \<^verbatim>\<open>vm.c\<close> keep it.\<close>

definition above :: "'z phys_scheme \<Rightarrow> 'z phys_scheme" where
  "above s = s\<lparr>pm := (\<lambda>_. 0), freelist := 0\<rparr>"

lemma aboveE:
  assumes "above s' = above s"
  obtains m l where "s' = s\<lparr>pm := m, freelist := l\<rparr>"
proof
  show "s' = s\<lparr>pm := pm s', freelist := freelist s'\<rparr>" using assms by (cases s, cases s') (simp add: above_def)
qed

lemma above_mem [simp]: "above (s\<lparr>pm := m\<rparr>) = above s" "above (s\<lparr>freelist := l\<rparr>) = above s"
  by (simp_all add: above_def)

lemma mem_upd_above [keeps_rules]: "keeps above (mem_upd f)"
  unfolding mem_upd_def by (intro keeps_rules) simp

lemma kalloc_above [keeps_rules]: "keeps above kalloc"
  unfolding kalloc_def by (intro keeps_rules) simp

lemma kfree_above [keeps_rules]: "keeps above (kfree pa)"
  unfolding kfree_def by (intro keeps_rules) simp

lemma freerange_loop_above [keeps_rules]: "keeps above (freerange_loop n a)"
  by (induction n arbitrary: a) (auto intro!: keeps_rules)

lemma pte_above [keeps_rules]: "keeps above (ldpte a)" "keeps above (stpte a e)" "keeps above (zero_page a)"
  unfolding ldpte_def stpte_def zero_page_def by (intro keeps_rules)+

lemma walk_loop_above [keeps_rules]: "keeps above (walk_loop va alloc l pt)"
  by (induction l arbitrary: pt) (auto simp: Let_def intro!: keeps_rules)

lemma walk_above [keeps_rules]: "keeps above (walk pt va alloc)"
  unfolding walk_def by (intro keeps_rules)

lemma map_loop_above [keeps_rules]: "keeps above (map_loop pt l perm n a pa)"
  by (induction n arbitrary: a pa) (auto intro!: keeps_rules)

lemma mappages_above [keeps_rules]: "keeps above (mappages pt va sz pa perm)"
  unfolding mappages_def by (intro keeps_rules)

lemma uvmcreate_above [keeps_rules]: "keeps above uvmcreate"
  unfolding uvmcreate_def by (intro keeps_rules)

section \<open>One page\<close>

lemma map_page:
  assumes inv: "pt_inv s pt ps" and a: "a mod 4096 = 0" "a + PGSIZE \<le> MAXVA" and free: "leaf (pm s) pt a = 0" and n: "2 \<le> length ps"
  obtains s' ps' where "mappages pt a PGSIZE pa perm s = Inr (0, s')" "pt_ext pt s ps s' ps'" "length ps \<le> length ps' + 2"
    "\<And>vb. vb < MAXVA \<Longrightarrow> leaf (pm s') pt vb = (if vb div 4096 = a div 4096 then PA2PTE pa OR perm OR PTE_V else leaf (pm s) pt vb)"
proof -
  have d: "PGROUNDDOWN a = a" "PGROUNDDOWN (w64 (a + PGSIZE - 1)) = a"
    using PGROUNDDOWN_aligned[OF a(1), of 0] PGROUNDDOWN_aligned[OF a(1), of 4095] a(2) by (simp_all add: PGSIZE_def MAXVA_def w64_def add.commute)
  have "a < MAXVA" using a(2) by (simp add: PGSIZE_def)
  then show thesis
  proof (rule map_step[OF inv, where lst = a and perm = perm and pa = pa])
    show "leaf (pm s) pt a AND PTE_V = 0" by (simp add: free)
  next
    fix s' assume "length ps < 2"
    then show thesis using n by simp
  next
    fix s' ps' assume m: "\<And>n. map_loop pt a perm (Suc n) a pa s = (if a = a then Inr (0, s') else map_loop pt a perm n (a + PGSIZE) (pa + PGSIZE) s')"
      "pt_ext pt s ps s' ps'" "length ps \<le> length ps' + 2"
      "\<And>vb. vb < MAXVA \<Longrightarrow> leaf (pm s') pt vb = (if vb div 4096 = a div 4096 then PA2PTE pa OR perm OR PTE_V else leaf (pm s) pt vb)"
    have "mappages pt a PGSIZE pa perm s = Inr (0, s')"
      using m(1)[of "MAXVA div PGSIZE"] unfolding mappages_def d by (simp add: PGSIZE_def)
    then show thesis using m(2-4) by (rule that)
  qed
qed

text \<open>What a page outside of the tables and the free list sees of an extension of the page table.\<close>

lemma ext_apart:
  assumes "pt_ext pt s ps s' ps'" "q \<notin> set ps" "q \<notin> tables (pm s) pt" "page_addr (kend s) q"
  shows "q \<notin> set ps'" "q \<notin> tables (pm s') pt" "\<And>x. in_page q x \<Longrightarrow> pm s' x = pm s x"
proof -
  show 1: "q \<notin> set ps'" and 2: "q \<notin> tables (pm s') pt" using assms(1-3) by (auto simp: pt_ext_def)
  fix x assume x: "in_page q x"
  have "\<not> in_page t x" if "t \<in> tables (pm s') pt" for t
  proof -
    have "page_addr (kend s) t" using assms(1) that by (auto simp: pt_ext_def pt_inv_def)
    moreover have "q \<noteq> t" using 2 that by auto
    ultimately show ?thesis using in_page_apart[OF assms(4)] x by blast
  qed
  then show "pm s' x = pm s x" using assms(1) by (auto simp: pt_ext_def)
qed

section \<open>The process\<close>

lemma proc_pagetable_run:
  fixes s :: "'z kst_scheme"
  assumes k: "kmem_inv s (pt # ps)" and n: "4 \<le> length ps"
    and tf: "ptrapframe (ptable s p) = tf" "page_addr (kend s) tf" "tf \<notin> set (pt # ps)"
  obtains s' ps' where "proc_pagetable p s = Inr (pt, s')" "pt \<noteq> 0" "pt_inv s' pt ps'" "length ps \<le> length ps' + 4" "kend s' = kend s" "above s' = above s"
    "tf \<notin> set ps'" "tf \<notin> tables (pm s') pt"
    "\<And>vb. vb < MAXVA \<Longrightarrow> leaf (pm s') pt vb = (if vb div 4096 = TRAMPOLINE div 4096 then PA2PTE (tramp s) OR (PTE_R OR PTE_X) OR PTE_V
       else if vb div 4096 = TRAPFRAME div 4096 then PA2PTE tf OR (PTE_R OR PTE_W) OR PTE_V else 0)"
proof -
  obtain s1 where s1: "uvmcreate s = Inr (pt, s1)" "pt_inv s1 pt ps" "kend s1 = kend s" "\<And>va. leaf (pm s1) pt va = 0" "tables (pm s1) pt = {pt}"
    by (rule uvmcreate_run[OF k]) (rule that)
  have pt: "pt \<noteq> 0" using k by (auto simp: kmem_inv_def page_addr_def)
  have a: "TRAMPOLINE mod 4096 = 0" "TRAMPOLINE + PGSIZE \<le> MAXVA" "TRAPFRAME mod 4096 = 0" "TRAPFRAME + PGSIZE \<le> MAXVA"
      "TRAMPOLINE div 4096 \<noteq> TRAPFRAME div 4096" "TRAPFRAME < MAXVA"
    by (simp_all add: TRAMPOLINE_def TRAPFRAME_def MAXVA_def PGSIZE_def)
  have n1: "2 \<le> length ps" using n by simp
  obtain s2 qs where s2: "mappages pt TRAMPOLINE PGSIZE (tramp s) (PTE_R OR PTE_X) s1 = Inr (0, s2)" "pt_ext pt s1 ps s2 qs" "length ps \<le> length qs + 2"
    "\<And>vb. vb < MAXVA \<Longrightarrow> leaf (pm s2) pt vb = (if vb div 4096 = TRAMPOLINE div 4096 then PA2PTE (tramp s) OR (PTE_R OR PTE_X) OR PTE_V else leaf (pm s1) pt vb)"
    by (rule map_page[OF s1(2) a(1,2) s1(4) n1]) (rule that)
  have i2: "pt_inv s2 pt qs" "kend s2 = kend s" using pt_extD[OF s2(2)] s1(3) by auto
  have z: "leaf (pm s2) pt TRAPFRAME = 0" "2 \<le> length qs" using s2(4)[OF a(6)] s1(4) a(5) n s2(3) by auto
  obtain s3 rs where s3: "mappages pt TRAPFRAME PGSIZE tf (PTE_R OR PTE_W) s2 = Inr (0, s3)" "pt_ext pt s2 qs s3 rs" "length qs \<le> length rs + 2"
    "\<And>vb. vb < MAXVA \<Longrightarrow> leaf (pm s3) pt vb = (if vb div 4096 = TRAPFRAME div 4096 then PA2PTE tf OR (PTE_R OR PTE_W) OR PTE_V else leaf (pm s2) pt vb)"
    by (rule map_page[OF i2(1) a(3,4) z]) (rule that)
  have t2: "tf \<notin> set qs" "tf \<notin> tables (pm s2) pt"
    using ext_apart(1,2)[OF s2(2)] tf(2,3) s1(3,5) by auto
  have t3: "tf \<notin> set rs" "tf \<notin> tables (pm s3) pt"
    using ext_apart(1,2)[OF s3(2) t2] tf(2) i2(2) by auto
  have "proc_pagetable p s = Inr (pt, s3)"
    using tf(1) pt s1(1) s2(1) s3(1) by (simp add: proc_pagetable_def run_simps)
  moreover have "above s3 = above s"
    using keepsD[OF uvmcreate_above s1(1)] keepsD[OF mappages_above s2(1)] keepsD[OF mappages_above s3(1)] by simp
  moreover have "pt_inv s3 pt rs" "kend s3 = kend s" using pt_extD[OF s3(2)] i2(2) by auto
  moreover have "leaf (pm s3) pt vb = (if vb div 4096 = TRAMPOLINE div 4096 then PA2PTE (tramp s) OR (PTE_R OR PTE_X) OR PTE_V
       else if vb div 4096 = TRAPFRAME div 4096 then PA2PTE tf OR (PTE_R OR PTE_W) OR PTE_V else 0)" if "vb < MAXVA" for vb
    using s3(4)[OF that] s2(4)[OF that] s1(4)[of vb] a(5) by auto
  moreover have "length ps \<le> length rs + 4" using s2(3) s3(3) by simp
  ultimately show thesis using pt t3 by (intro that)
qed

lemma allocproc_found_run:
  fixes s :: "'z kst_scheme"
  assumes k: "kmem_inv s (tf # pt # ps)" and n: "4 \<le> length ps" and pid: "nextpid s \<noteq> INT_MAX"
  obtains s' ps' where "allocproc_found p s = Inr (Some p, s')" "pt_inv s' pt ps'" "length ps \<le> length ps' + 4" "kend s' = kend s"
    "above s' = above (s\<lparr>nextpid := nextpid s + 1, ptable := (ptable s)(p := (ptable s p)\<lparr>ppid := nextpid s, pstate := USED, ptrapframe := tf,
       ppagetable := pt, pcontext := \<lparr>ctx_ra = ''forkret'', ctx_sp = pkstack (ptable s p) + PGSIZE\<rparr>\<rparr>)\<rparr>)"
    "page_addr (kend s) tf" "tf \<notin> set ps'" "tf \<notin> tables (pm s') pt"
    "\<And>vb. vb < MAXVA \<Longrightarrow> leaf (pm s') pt vb = (if vb div 4096 = TRAMPOLINE div 4096 then PA2PTE (tramp s) OR (PTE_R OR PTE_X) OR PTE_V
       else if vb div 4096 = TRAPFRAME div 4096 then PA2PTE tf OR (PTE_R OR PTE_W) OR PTE_V else 0)"
proof -
  let ?s0 = "s\<lparr>nextpid := nextpid s + 1, ptable := (ptable s)(p := (ptable s p)\<lparr>ppid := nextpid s, pstate := USED\<rparr>)\<rparr>"
  have "kmem_inv ?s0 (tf # pt # ps)" using k by (simp add: kmem_inv_def)
  then obtain s1 where s1: "kalloc ?s0 = Inr (tf, s1)" "kmem_inv s1 (pt # ps)" "kend s1 = kend ?s0"
    by (rule kalloc_inv) (rule that)
  obtain m1 l1 where u1: "s1 = ?s0\<lparr>pm := m1, freelist := l1\<rparr>" by (rule aboveE[OF keepsD[OF kalloc_above s1(1)]])
  have tf: "page_addr (kend s) tf" "tf \<noteq> 0" "tf \<notin> set (pt # ps)" using k by (auto simp: kmem_inv_def page_addr_def)
  let ?s1 = "s1\<lparr>ptable := (ptable s1)(p := (ptable s1 p)\<lparr>ptrapframe := tf\<rparr>)\<rparr>"
  have k1: "kmem_inv ?s1 (pt # ps)" "ptrapframe (ptable ?s1 p) = tf" "page_addr (kend ?s1) tf" "tramp ?s1 = tramp s"
    using s1(2,3) tf(1) by (simp_all add: kmem_inv_def u1)
  obtain s2 ps' where s2: "proc_pagetable p ?s1 = Inr (pt, s2)" "pt \<noteq> 0" "pt_inv s2 pt ps'" "length ps \<le> length ps' + 4" "kend s2 = kend ?s1" "above s2 = above ?s1"
    "tf \<notin> set ps'" "tf \<notin> tables (pm s2) pt"
    "\<And>vb. vb < MAXVA \<Longrightarrow> leaf (pm s2) pt vb = (if vb div 4096 = TRAMPOLINE div 4096 then PA2PTE (tramp ?s1) OR (PTE_R OR PTE_X) OR PTE_V
       else if vb div 4096 = TRAPFRAME div 4096 then PA2PTE tf OR (PTE_R OR PTE_W) OR PTE_V else 0)"
    by (rule proc_pagetable_run[OF k1(1) n k1(2,3) tf(3)]) (rule that)
  obtain m2 l2 where u2: "s2 = ?s1\<lparr>pm := m2, freelist := l2\<rparr>" by (rule aboveE[OF s2(6)])
  let ?s' = "s2\<lparr>ptable := (ptable s2)(p := (ptable s2 p)\<lparr>ppagetable := pt, pcontext := \<lparr>ctx_ra = ''forkret'', ctx_sp = pkstack (ptable s2 p) + PGSIZE\<rparr>\<rparr>)\<rparr>"
  have "allocproc_found p s = Inr (Some p, ?s')"
    using s1(1) s2(1,2) tf(2) pid by (simp add: allocproc_found_def allocpid_def proc_upd_def run_simps)
  moreover have "above ?s' = above (s\<lparr>nextpid := nextpid s + 1, ptable := (ptable s)(p := (ptable s p)\<lparr>ppid := nextpid s, pstate := USED, ptrapframe := tf,
       ppagetable := pt, pcontext := \<lparr>ctx_ra = ''forkret'', ctx_sp = pkstack (ptable s p) + PGSIZE\<rparr>\<rparr>)\<rparr>)"
    by (simp add: u2 u1 above_def)
  moreover have "pt_inv ?s' pt ps'" using s2(3) by (simp add: pt_inv_def kmem_inv_def)
  ultimately show thesis using s2(4,5,7-9) k1(4) s1(3) tf(1) by (intro that[of ?s' ps']) simp_all
qed

section \<open>Its memory\<close>

lemma page_write:
  assumes "pt_inv s pt ps" "page_addr (kend s) q" "q \<notin> set ps" "q \<notin> tables (pm s) pt" "\<forall>x. \<not> in_page q x \<longrightarrow> m x = pm s x"
  shows "pt_inv (s\<lparr>pm := m\<rparr>) pt ps" "tables m pt = tables (pm s) pt" "\<And>vb. vb < MAXVA \<Longrightarrow> leaf m pt vb = leaf (pm s) pt vb"
proof -
  have "m x = pm s x" if "\<exists>t \<in> tables (pm s) pt \<union> set ps. in_page t x" for x
  proof -
    from that obtain t where t: "t \<in> tables (pm s) pt \<union> set ps" "in_page t x" by blast
    have "page_addr (kend s) t" using t(1) assms(1) by (auto simp: pt_inv_def kmem_inv_def)
    moreover have "q \<noteq> t" using t(1) assms(3,4) by auto
    ultimately show ?thesis using in_page_apart[OF assms(2)] t(2) assms(5) by blast
  qed
  note w = write_pt[OF assms(1) this]
  show "pt_inv (s\<lparr>pm := m\<rparr>) pt ps" "tables m pt = tables (pm s) pt" "\<And>vb. vb < MAXVA \<Longrightarrow> leaf m pt vb = leaf (pm s) pt vb" using w by auto
qed

lemma uvmfirst_run:
  assumes inv: "pt_inv s pt (q # ps)" and n: "2 \<le> length ps" "length src < PGSIZE" and z: "leaf (pm s) pt 0 = 0"
    and tf: "page_addr (kend s) tf" "tf \<notin> set (q # ps)" "tf \<notin> tables (pm s) pt"
  obtains s' ps' where "uvmfirst pt src s = Inr ((), s')" "pt_inv s' pt ps'" "kend s' = kend s" "above s' = above s"
    "tf \<notin> set ps'" "tf \<notin> tables (pm s') pt" "q \<noteq> tf" "page_addr (kend s) q" "q \<notin> set ps'" "q \<notin> tables (pm s') pt"
    "\<And>vb. vb < MAXVA \<Longrightarrow> leaf (pm s') pt vb = (if vb div 4096 = 0 then PA2PTE q OR (PTE_W OR PTE_R OR PTE_X OR PTE_U) OR PTE_V else leaf (pm s) pt vb)"
    "\<And>i. i < PGSIZE \<Longrightarrow> pm s' (q + i) = (if i < length src then src ! i else 0)"
proof -
  have q: "page_addr (kend s) q" "q \<notin> set ps" "q \<notin> tables (pm s) pt" using inv by (auto simp: pt_inv_def kmem_inv_def)
  obtain s0 where s0: "kalloc s = Inr (q, s0)" "pt_inv s0 pt ps" "kend s0 = kend s" "tables (pm s0) pt = tables (pm s) pt"
    "\<And>vb. vb < MAXVA \<Longrightarrow> leaf (pm s0) pt vb = leaf (pm s) pt vb" by (rule kalloc_pt[OF inv]) (rule that)
  let ?m1 = "memset (pm s0) q 0 PGSIZE"
  let ?s1 = "s0\<lparr>pm := ?m1\<rparr>"
  have q0: "page_addr (kend s0) q" "q \<notin> tables (pm s0) pt" using q s0(3,4) by auto
  have out1: "\<forall>x. \<not> in_page q x \<longrightarrow> ?m1 x = pm s0 x" using memset_out by blast
  note s1 = page_write[OF s0(2) q0(1) q(2) q0(2) out1]
  have a: "0 mod 4096 = (0::nat)" "0 + PGSIZE \<le> MAXVA" "leaf (pm ?s1) pt 0 = 0" using s1(3)[of 0] s0(5)[of 0] z by (simp_all add: MAXVA_def PGSIZE_def)
  obtain s2 ps' where s2: "mappages pt 0 PGSIZE q (PTE_W OR PTE_R OR PTE_X OR PTE_U) ?s1 = Inr (0, s2)" "pt_ext pt ?s1 ps s2 ps'"
    "\<And>vb. vb < MAXVA \<Longrightarrow> leaf (pm s2) pt vb = (if vb div 4096 = 0 div 4096 then PA2PTE q OR (PTE_W OR PTE_R OR PTE_X OR PTE_U) OR PTE_V else leaf (pm ?s1) pt vb)"
    by (rule map_page[OF s1(1) a n(1)]) (rule that)
  have i2: "pt_inv s2 pt ps'" "kend s2 = kend s" using pt_extD[OF s2(2)] s0(3) by auto
  have q1: "q \<notin> tables (pm ?s1) pt" "page_addr (kend ?s1) q" "tf \<notin> tables (pm ?s1) pt" "page_addr (kend ?s1) tf"
    using q tf s0(3,4) s1(2) by auto
  note q2 = ext_apart[OF s2(2) q(2) q1(1,2)]
  have t2: "tf \<notin> set ps'" "tf \<notin> tables (pm s2) pt" using ext_apart(1,2)[OF s2(2) _ q1(3,4)] tf(2) by auto
  let ?m = "store_bytes (pm s2) q src"
  have out: "\<forall>x. \<not> in_page q x \<longrightarrow> ?m x = pm s2 x"
    using n(2) by (auto simp: in_page_def intro!: store_bytes_other)
  have q2a: "page_addr (kend s2) q" using q(1) i2(2) by simp
  note w = page_write[OF i2(1) q2a q2(1,2) out]
  have "uvmfirst pt src s = Inr ((), s2\<lparr>pm := ?m\<rparr>)"
    using n(2) s0(1) s2(1) by (simp add: uvmfirst_def mem_upd_def zero_page_def run_simps)
  moreover have "?m (q + i) = (if i < length src then src ! i else 0)" if "i < PGSIZE" for i
  proof -
    have "in_page q (q + i)" using that by (simp add: in_page_def)
    then have "pm s2 (q + i) = 0" using q2(3) that by (simp add: memset_same)
    then show ?thesis by (simp add: store_bytes_def)
  qed
  moreover have "above s2 = above s"
    using keepsD[OF kalloc_above s0(1)] keepsD[OF mappages_above s2(1)] by simp
  moreover have "leaf ?m pt vb = (if vb div 4096 = 0 then PA2PTE q OR (PTE_W OR PTE_R OR PTE_X OR PTE_U) OR PTE_V else leaf (pm s) pt vb)"
    if "vb < MAXVA" for vb using w(3)[OF that] s2(3)[OF that] s1(3)[OF that] s0(5)[OF that] by simp
  ultimately show thesis
    using w t2 q2 q i2(2) tf by (intro that[of "s2\<lparr>pm := ?m\<rparr>" ps']) simp_all
qed

lemma PA2PTE_flags: "PTE_FLAGS f = f \<Longrightarrow> PA2PTE pa AND f = 0"
  by (rule bit_word_eqI) (auto simp: PA2PTE_def bit_simps dest: bit_flags)

lemma pte_U: "(PA2PTE pa OR (PTE_R OR PTE_X) OR PTE_V) AND PTE_U = 0" "(PA2PTE pa OR (PTE_R OR PTE_W) OR PTE_V) AND PTE_U = 0"
    "(PA2PTE pa OR (PTE_W OR PTE_R OR PTE_X OR PTE_U) OR PTE_V) AND PTE_U \<noteq> 0"
  using PA2PTE_flags[of PTE_U pa] by (simp_all add: bit.conj_disj_distrib2 PTE_FLAGS_def PTE_R_def PTE_W_def PTE_X_def PTE_U_def PTE_V_def)

lemma first_space:
  assumes "page_addr e q"
    and L: "\<And>vb. vb < MAXVA \<Longrightarrow> leaf m pt vb = (if vb div 4096 = 0 then PA2PTE q OR (PTE_W OR PTE_R OR PTE_X OR PTE_U) OR PTE_V
       else if vb div 4096 = TRAMPOLINE div 4096 then PA2PTE t OR (PTE_R OR PTE_X) OR PTE_V
       else if vb div 4096 = TRAPFRAME div 4096 then PA2PTE tf OR (PTE_R OR PTE_W) OR PTE_V else 0)"
  shows "uaddr m pt va = (if va < PGSIZE then Some (q + va) else None)"
proof (cases "va < PGSIZE")
  case True
  then have l: "leaf m pt va = PA2PTE q OR (PTE_W OR PTE_R OR PTE_X OR PTE_U) OR PTE_V" "va < MAXVA" using L[of va] by (simp_all add: PGSIZE_def MAXVA_def)
  have q: "q mod 4096 = 0" "q < 2 ^ 64" "q \<noteq> 0" using assms(1) by (auto simp: page_addr_def PGSIZE_def PHYSTOP_val)
  have "PTE2PA (PA2PTE q OR ((PTE_W OR PTE_R OR PTE_X OR PTE_U) OR PTE_V)) = q"
    by (rule PTE2PA_PA2PTE) (use q in \<open>simp_all add: PTE_FLAGS_def PTE_R_def PTE_W_def PTE_X_def PTE_U_def PTE_V_def\<close>)
  then show ?thesis using True l q(3) pte_U(3)[of q] V_valid[of "PA2PTE q OR (PTE_W OR PTE_R OR PTE_X OR PTE_U)"]
    by (simp add: uaddr_def or.assoc PGSIZE_def)
next
  case False
  then have "va div 4096 \<noteq> 0" by (simp add: PGSIZE_def div_eq_0_iff)
  then show ?thesis using False L[of va] pte_U(1)[of t] pte_U(2)[of tf] by (auto simp: uaddr_def Let_def)
qed

lemma find_first: "P (0::nat) \<Longrightarrow> 0 < n \<Longrightarrow> List.find P [0..<n] = Some 0"
  by (cases n) (simp_all add: upt_conv_Cons del: upt_Suc)

lemma namei_root:
  fixes s :: "'z kst_scheme"
  assumes "\<forall>k<NINODE. iref (itable s k) = 0"
  shows "namei (chars ''/'') s = Inr (Some 0, s\<lparr>itable := (itable s)(0 := (itable s 0)\<lparr>idev := ROOTDEV, inum := ROOTINO, iref := 1, ivalid := False\<rparr>)\<rparr>)"
proof -
  have n: "List.find (\<lambda>k. 0 < iref (itable s k) \<and> idev (itable s k) = ROOTDEV \<and> inum (itable s k) = ROOTINO) [0..<NINODE] = None"
    using assms by (auto simp: find_None_iff)
  have f: "List.find (\<lambda>k. iref (itable s k) = 0) [0..<NINODE] = Some 0" using assms by (intro find_first) (simp_all add: NINODE_def)
  have "namex_loop False (chars ''/'') 0 t = Inr (Some (0, []), t)" for t :: "'z kst_scheme"
    by (subst namex_loop.simps) (simp add: skipelem_def chars_def ret_run)
  moreover have "iget ROOTDEV ROOTINO s = Inr (0, s\<lparr>itable := (itable s)(0 := (itable s 0)\<lparr>idev := ROOTDEV, inum := ROOTINO, iref := 1, ivalid := False\<rparr>)\<rparr>)"
    by (simp add: iget_def bnd_def gets_run n f inode_upd_def run_simps)
  moreover have "char0 (chars ''/'') = 47" by (simp add: char0_def chars_def)
  ultimately show ?thesis by (simp add: namei_def namex_def bnd_def ret_run)
qed

lemma userinit_run:
  fixes s :: "'z kst_scheme"
  assumes k: "kmem_inv s (tf # pt # ps)" "7 \<le> length ps" and p: "pstate (ptable s 0) = UNUSED" and i: "\<forall>k<NINODE. iref (itable s k) = 0" and n: "nextpid s \<noteq> INT_MAX"
  obtains s' ps' where "userinit s = Inr ((), s')" "pt_inv s' pt ps'" "initproc s' = Some 0" "nextpid s' = nextpid s + 1"
    "ptable s' = (ptable s)(0 := (ptable s 0)\<lparr>ppid := nextpid s, pstate := RUNNABLE, ptrapframe := tf, ppagetable := pt,
       pcontext := \<lparr>ctx_ra = ''forkret'', ctx_sp = pkstack (ptable s 0) + PGSIZE\<rparr>, psz := PGSIZE, pname := chars ''initcode'', pcwd := Some 0\<rparr>)"
    "itable s' = (itable s)(0 := (itable s 0)\<lparr>idev := ROOTDEV, inum := ROOTINO, iref := 1, ivalid := False\<rparr>)"
    "ftable s' = ftable s" "first_run s' = first_run s" "curp s' = curp s"
    "load64 (pm s') (tf + TF_epc) = 0" "load64 (pm s') (tf + TF_sp) = of_nat PGSIZE"
    "\<exists>q. (\<forall>va. uaddr (pm s') pt va = (if va < PGSIZE then Some (q + va) else None)) \<and> (\<forall>j<PGSIZE. pm s' (q + j) = (if j < length initcode then initcode ! j else 0))"
    "leaf (pm s') pt TRAMPOLINE = PA2PTE (tramp s) OR (PTE_R OR PTE_X) OR PTE_V" "leaf (pm s') pt TRAPFRAME = PA2PTE tf OR (PTE_R OR PTE_W) OR PTE_V"
proof -
  let ?P = "(ptable s 0)\<lparr>ppid := nextpid s, pstate := USED, ptrapframe := tf, ppagetable := pt, pcontext := \<lparr>ctx_ra = ''forkret'', ctx_sp = pkstack (ptable s 0) + PGSIZE\<rparr>\<rparr>"
  have k4: "4 \<le> length ps" using k(2) by simp
  obtain s1 ps1 where s1: "allocproc_found 0 s = Inr (Some 0, s1)" "pt_inv s1 pt ps1" "length ps \<le> length ps1 + 4" "kend s1 = kend s"
    "above s1 = above (s\<lparr>nextpid := nextpid s + 1, ptable := (ptable s)(0 := ?P)\<rparr>)" "page_addr (kend s) tf" "tf \<notin> set ps1" "tf \<notin> tables (pm s1) pt"
    "\<And>vb. vb < MAXVA \<Longrightarrow> leaf (pm s1) pt vb = (if vb div 4096 = TRAMPOLINE div 4096 then PA2PTE (tramp s) OR (PTE_R OR PTE_X) OR PTE_V
       else if vb div 4096 = TRAPFRAME div 4096 then PA2PTE tf OR (PTE_R OR PTE_W) OR PTE_V else 0)"
    by (rule allocproc_found_run[OF k(1) k4 n]) (rule that)
  obtain m1 l1 where u1: "s1 = s\<lparr>nextpid := nextpid s + 1, ptable := (ptable s)(0 := ?P), pm := m1, freelist := l1\<rparr>"
    using s1(5) by (rule aboveE) (rule that)
  obtain q ps2 where q: "ps1 = q # ps2" "2 \<le> length ps2" using s1(3) k(2) by (cases ps1) auto
  let ?s1 = "s1\<lparr>initproc := Some 0\<rparr>"
  have i1: "pt_inv ?s1 pt (q # ps2)" "page_addr (kend ?s1) tf" "tf \<notin> set (q # ps2)" "tf \<notin> tables (pm ?s1) pt" "length initcode < PGSIZE"
    using s1(2,4,6-8) q(1) by (simp_all add: pt_inv_def kmem_inv_def initcode_def PGSIZE_def)
  have c: "TRAMPOLINE div 4096 \<noteq> 0" "TRAPFRAME div 4096 \<noteq> 0" "TRAPFRAME div 4096 \<noteq> TRAMPOLINE div 4096" "TRAPFRAME < MAXVA" "TRAMPOLINE < MAXVA" "0 < MAXVA"
    by (simp_all add: TRAMPOLINE_def TRAPFRAME_def MAXVA_def PGSIZE_def)
  have z: "leaf (pm ?s1) pt 0 = 0" using s1(9)[OF c(6)] c(1,2) by simp
  obtain s2 ps3 where s2: "uvmfirst pt initcode ?s1 = Inr ((), s2)" "pt_inv s2 pt ps3" "kend s2 = kend ?s1" "above s2 = above ?s1"
    "tf \<notin> set ps3" "tf \<notin> tables (pm s2) pt" "q \<noteq> tf" "page_addr (kend ?s1) q" "q \<notin> set ps3" "q \<notin> tables (pm s2) pt"
    "\<And>vb. vb < MAXVA \<Longrightarrow> leaf (pm s2) pt vb = (if vb div 4096 = 0 then PA2PTE q OR (PTE_W OR PTE_R OR PTE_X OR PTE_U) OR PTE_V else leaf (pm ?s1) pt vb)"
    "\<And>i. i < PGSIZE \<Longrightarrow> pm s2 (q + i) = (if i < length initcode then initcode ! i else 0)"
    by (rule uvmfirst_run[OF i1(1) q(2) i1(5) z i1(2-4)]) (rule that)
  obtain m2 l2 where u2: "s2 = ?s1\<lparr>pm := m2, freelist := l2\<rparr>" using s2(4) by (rule aboveE) (rule that)
  let ?m = "store64 (store64 m2 (tf + TF_epc) 0) (tf + TF_sp) (of_nat PGSIZE)"
  have out: "\<forall>x. \<not> in_page tf x \<longrightarrow> ?m x = pm s2 x"
    by (auto simp: u2 in_page_def TF_epc_def TF_sp_def PGSIZE_def store64_other)
  have tf2: "page_addr (kend s2) tf" using s2(3) i1(2) by simp
  note w = page_write[OF s2(2) tf2 s2(5,6) out]
  let ?s' = "s\<lparr>nextpid := nextpid s + 1, initproc := Some 0, pm := ?m, freelist := l2,
     ptable := (ptable s)(0 := ?P\<lparr>psz := PGSIZE, pname := chars ''initcode'', pcwd := Some 0, pstate := RUNNABLE\<rparr>),
     itable := (itable s)(0 := (itable s 0)\<lparr>idev := ROOTDEV, inum := ROOTINO, iref := 1, ivalid := False\<rparr>)\<rparr>"
  have "allocproc s = Inr (Some 0, s1)"
    using s1(1) p by (simp add: allocproc_def bnd_def gets_run find_first NPROC_def)
  moreover have "ppagetable (ptable ?s1 0) = pt" by (simp add: u1)
  moreover have "safestr (chars ''initcode'') 16 = chars ''initcode''" by (simp add: safestr_def chars_def)
  ultimately have "userinit s = Inr ((), ?s')"
    using s2(1) i by (simp add: userinit_def bnd_def sq_def upd_run gets_run proc_upd_def tf_put_def mem_upd_def u2) (simp add: u1 namei_root upd_run)
  moreover have "pt_inv ?s' pt ps3" using w(1) by (simp add: pt_inv_def kmem_inv_def u2 u1)
  moreover have "\<forall>va. uaddr ?m pt va = (if va < PGSIZE then Some (q + va) else None)"
    using s2(8) w(3) s2(11) s1(9) by (intro allI first_space) (auto simp: u2)
  moreover have "\<forall>j<PGSIZE. ?m (q + j) = (if j < length initcode then initcode ! j else 0)"
  proof (intro allI impI)
    fix j assume j: "j < PGSIZE"
    then have "in_page q (q + j)" by (simp add: in_page_def)
    then have "\<not> in_page tf (q + j)" using in_page_apart[OF s2(8) i1(2) s2(7)] by blast
    then show "?m (q + j) = (if j < length initcode then initcode ! j else 0)" using out s2(12)[OF j] by simp
  qed
  moreover have "leaf ?m pt TRAMPOLINE = PA2PTE (tramp s) OR (PTE_R OR PTE_X) OR PTE_V" "leaf ?m pt TRAPFRAME = PA2PTE tf OR (PTE_R OR PTE_W) OR PTE_V"
    using c w(3) s2(11) s1(9) by (auto simp: u2)
  moreover have "load64 ?m (tf + TF_epc) = 0" "load64 ?m (tf + TF_sp) = of_nat PGSIZE"
    by (simp_all add: TF_epc_def TF_sp_def mem_simps)
  ultimately show thesis by (intro that[of ?s' ps3]) auto
qed

section \<open>The first process\<close>

text \<open>
  C8. \<^verbatim>\<open>userinit\<close> succeeds when nine pages are free, no inode is in use and there is a process identifier left. It makes entry 0 a ready process, which
  will run \<^verbatim>\<open>initcode\<close>, padded with zeros to a page, from address 0 with the stack at the end of that page; the user
  can access no other address, the trampoline and the trap frame being mapped for the kernel only. Its current directory is
  the root, the other entries of the table stay as they are, and the page table is disjoint from the free pages.
\<close>

theorem userinit_first_process:
  assumes "kmem_inv s (tf # pt # ps)" "7 \<le> length ps" "pstate (ptable s 0) = UNUSED" "\<forall>k<NINODE. iref (itable s k) = 0" "nextpid s \<noteq> INT_MAX"
  shows "\<exists>s' ps'. userinit s = Inr ((), s') \<and> (let P = ptable s' 0; m = pm s' in
    pstate P = RUNNABLE \<and> ppid P = nextpid s \<and> initproc s' = Some 0 \<and> (\<forall>p. p \<noteq> 0 \<longrightarrow> ptable s' p = ptable s p) \<and>
    psz P = PGSIZE \<and> ubytes m (ppagetable P) 0 PGSIZE = initcode @ replicate (PGSIZE - length initcode) 0 \<and>
    (\<forall>va. uaddr m (ppagetable P) va \<noteq> None \<longleftrightarrow> va < PGSIZE) \<and>
    load64 m (ptrapframe P + TF_epc) = 0 \<and> load64 m (ptrapframe P + TF_sp) = of_nat PGSIZE \<and>
    leaf m (ppagetable P) TRAMPOLINE = PA2PTE (tramp s) OR (PTE_R OR PTE_X) OR PTE_V \<and>
    leaf m (ppagetable P) TRAPFRAME = PA2PTE (ptrapframe P) OR (PTE_R OR PTE_W) OR PTE_V \<and> pt_inv s' (ppagetable P) ps' \<and>
    (\<exists>i. pcwd P = Some i \<and> idev (itable s' i) = ROOTDEV \<and> inum (itable s' i) = ROOTINO \<and> iref (itable s' i) = 1))"
proof (rule userinit_run[OF assms])
  fix s' ps' assume u: "userinit s = Inr ((), s')" "pt_inv s' pt ps'" "initproc s' = Some 0"
    and P: "ptable s' = (ptable s)(0 := (ptable s 0)\<lparr>ppid := nextpid s, pstate := RUNNABLE, ptrapframe := tf, ppagetable := pt,
       pcontext := \<lparr>ctx_ra = ''forkret'', ctx_sp = pkstack (ptable s 0) + PGSIZE\<rparr>, psz := PGSIZE, pname := chars ''initcode'', pcwd := Some 0\<rparr>)"
    and r: "itable s' = (itable s)(0 := (itable s 0)\<lparr>idev := ROOTDEV, inum := ROOTINO, iref := 1, ivalid := False\<rparr>)"
      "load64 (pm s') (tf + TF_epc) = 0" "load64 (pm s') (tf + TF_sp) = of_nat PGSIZE"
      "leaf (pm s') pt TRAMPOLINE = PA2PTE (tramp s) OR (PTE_R OR PTE_X) OR PTE_V" "leaf (pm s') pt TRAPFRAME = PA2PTE tf OR (PTE_R OR PTE_W) OR PTE_V"
    and "\<exists>q. (\<forall>va. uaddr (pm s') pt va = (if va < PGSIZE then Some (q + va) else None)) \<and> (\<forall>j<PGSIZE. pm s' (q + j) = (if j < length initcode then initcode ! j else 0))"
  then obtain q where q: "\<And>va. uaddr (pm s') pt va = (if va < PGSIZE then Some (q + va) else None)" "\<And>j. j < PGSIZE \<Longrightarrow> pm s' (q + j) = (if j < length initcode then initcode ! j else 0)"
    by blast
  have "length initcode \<le> PGSIZE" by (simp add: initcode_def PGSIZE_def)
  then have "ubytes (pm s') pt 0 PGSIZE = initcode @ replicate (PGSIZE - length initcode) 0"
    by (intro nth_equalityI) (auto simp: ubytes_def q nth_append)
  then show ?thesis using u P r q(1) by (intro exI[of _ s'] exI[of _ ps']) (simp add: Let_def)
qed

definition boot_ram :: vdisk where
  "boot_ram = vd_boot\<lparr>pm := (\<lambda>_. 0), freelist := 0, kend := 2281664512\<rparr>"

lemma boot_ram_fields: "ptable boot_ram = (\<lambda>_. blank_proc)" "ftable boot_ram = (\<lambda>_. blank_file)" "itable boot_ram = (\<lambda>_. blank_inode)" "nextpid boot_ram = 1"
    "curp boot_ram = NPROC"
  by (simp_all add: boot_ram_def vd_boot_def kst_boot_def log_boot_def boot_def kst.extend_def vdisk.fields_def logd.extend_def kst.fields_def blkd.extend_def
      logd.fields_def ttyd.extend_def blkd.fields_def)

lemma nine_pages:
  obtains s m l tf pt ps where "freerange_loop 9 2281664512 boot_ram = Inr ((), s)" "s = boot_ram\<lparr>pm := m, freelist := l\<rparr>" "kmem_inv s (tf # pt # ps)" "length ps = 7"
proof -
  have "\<exists>s'. freerange_loop 9 2281664512 boot_ram = Inr ((), s') \<and>
      kmem_inv s' (rev (map (\<lambda>i. 2281664512 + i * PGSIZE) [0..<9]) @ []) \<and> kend s' = kend boot_ram"
    by (rule freerange_loop_run) (simp_all add: kmem_inv_def boot_ram_def PGSIZE_def PHYSTOP_val)
  then obtain s where s: "freerange_loop 9 2281664512 boot_ram = Inr ((), s)" "kmem_inv s (rev (map (\<lambda>i. 2281664512 + i * PGSIZE) [0..<9]))" by auto
  obtain m l where "s = boot_ram\<lparr>pm := m, freelist := l\<rparr>" by (rule aboveE[OF keepsD[OF freerange_loop_above s(1)]])
  with s show thesis by (intro that[of s l m "2281664512 + 8 * PGSIZE" "2281664512 + 7 * PGSIZE" "rev (map (\<lambda>i. 2281664512 + i * PGSIZE) [0..<7])"])
    (simp_all add: upt_rec PGSIZE_def)
qed

theorem userinit_first_process_witness:
  "\<exists>s s' ps'. freerange_loop 9 2281664512 boot_ram = Inr ((), s) \<and> userinit s = Inr ((), s') \<and> pstate (ptable s' 0) = RUNNABLE \<and>
     ubytes (pm s') (ppagetable (ptable s' 0)) 0 PGSIZE = initcode @ replicate (PGSIZE - length initcode) 0 \<and> pt_inv s' (ppagetable (ptable s' 0)) ps'"
proof (rule nine_pages)
  fix s m l tf pt ps assume s: "freerange_loop 9 2281664512 boot_ram = Inr ((), s)" "s = boot_ram\<lparr>pm := m, freelist := l\<rparr>" "kmem_inv s (tf # pt # ps)" "length ps = 7"
  have "7 \<le> length ps" "pstate (ptable s 0) = UNUSED" "\<forall>k<NINODE. iref (itable s k) = 0" "nextpid s \<noteq> INT_MAX"
    using s(4) by (simp_all add: s(2) boot_ram_fields blank_proc_def blank_inode_def INT_MAX_def)
  from userinit_first_process[OF s(3) this] show ?thesis using s(1) by (auto simp: Let_def)
qed

end
