(* ===== verification/Machine.thy ===== *)
theory Machine
  imports Boot
begin

text \<open>
  The kernel as a whole: one processor that runs processes, takes their traps, schedules them and handles
  interrupts, from the first process on. Between two switches of the processor the kernel runs one
  function to its end or to the point where the process has to wait. What \<^verbatim>\<open>wakeup\<close> was called for in the layers that do
  not know the process table is delivered when that function is done.
\<close>

section \<open>Interrupts\<close>

primrec wakeup_all :: "wchan list \<Rightarrow> ('z, unit) sprog" where
  "wakeup_all [] = ret ()"
| "wakeup_all (ch # cs) = sq (wakeup ch) (wakeup_all cs)"

definition deliver :: "('z, unit) sprog" where
  "deliver = bnd (gets (\<lambda>s. map WPipe (wakes s) @ map WObj (chan_wakes s))) (\<lambda>cs.
     sq (upd (\<lambda>s. s\<lparr>wakes := [], chan_wakes := []\<rparr>)) (wakeup_all cs))"

lemma procdump_keeps [keeps_rules]: "keeps tabs procdump"
proof -
  have "keeps tabs (procdump_loop n)" for n by (induction n) (auto intro!: keeps_rules)
  then show ?thesis unfolding procdump_def by (intro keeps_rules)
qed

lemma tabs_vdisk [simp]: "tabs (s\<lparr>b_disk := a\<rparr>) = tabs s" "tabs (s\<lparr>used_idx := b\<rparr>) = tabs s"
  by (simp_all add: tabs_def)

lemma virtio_disk_intr_keeps [keeps_rules]: "keeps tabs virtio_disk_intr"
proof -
  have "keeps tabs (intr_loop n)" for n by (induction n) (auto intro!: keeps_rules)
  then show ?thesis unfolding virtio_disk_intr_def by blast
qed

lemma plic_keeps [keeps_rules]: "keeps tabs plic_claim" "keeps tabs (plic_complete irq)"
  unfolding plic_claim_def plic_complete_def by (intro keeps_rules, simp?)+

text \<open>What the handlers of interrupts rely on, whether or not a process runs.\<close>

locale interruptible =
  fixes J :: "'z kst_scheme \<Rightarrow> bool"
  assumes view: "viewed J" and wakes: "triple J (wakeup ch) (\<lambda>_. J)"
begin

lemma after_wakeup_all: "triple J (wakeup_all cs) (\<lambda>_. J)"
  by (induction cs) (auto intro!: triple_retI triple_sq[OF wakes])

lemma after_deliver: "triple J deliver (\<lambda>_. J)"
  unfolding deliver_def by (intro triple_keeps_bnd triple_keeps_sq view keeps_rules after_wakeup_all) simp

lemma after_devintr: "keeps tabs vdi \<Longrightarrow> triple J (devintr vdi) (\<lambda>_. J)"
proof -
  assume k: "keeps tabs vdi"
  have clock: "triple J clockintr (\<lambda>_. J)"
    unfolding clockintr_def by (rule triple_keeps_sq[OF _ view wakes], rule keeps_rules) simp
  have c: "triple J (if h then clockintr else ret ()) (\<lambda>_. J)" for h :: bool
    by (rule triple_if, rule clock, rule triple_retI)
  show ?thesis unfolding devintr_def
    by (rule triple_keeps_bnd[OF _ view], rule keeps_rules, rule triple_if,
        intro triple_keeps_bnd triple_keeps_sq view keeps_rules uartintr_keeps k triple_retI, assumption,
        rule triple_if, rule triple_keeps_bnd[OF _ view], rule keeps_rules, rule triple_sq[OF c],
        rule triple_keeps_sq[OF _ view], rule keeps_rules, simp, rule triple_retI, assumption, rule triple_retI, assumption)
qed

end

interpretation irq_busy: interruptible "busy ex u" for ex u
  by unfold_locales (rule viewed_busy, rule wakeup_busy)

lemma viewed_idle: "viewed (\<lambda>s. rest s \<and> \<not> running s)"
  unfolding viewed_def using rest_tabs running_tabs by blast

interpretation irq_idle: interruptible "\<lambda>s. rest s \<and> \<not> running s"
  by unfold_locales (rule viewed_idle, rule wakeup_rest)

lemma viewed_none: "viewed (\<lambda>s. rest s \<and> curp s = NPROC)"
  by (intro viewed_rules)

lemma wakeup_none: "triple (\<lambda>s. rest s \<and> curp s = NPROC) (wakeup ch) (\<lambda>_ s. rest s \<and> curp s = NPROC)"
  using wakeup_ok[of "\<lambda>_. 0" None "\<lambda>t. fst (snd t) = NPROC" ch] by (simp add: rest_def kin_def conj_assoc)

interpretation irq_none: interruptible "\<lambda>s. rest s \<and> curp s = NPROC"
  by unfold_locales (rule viewed_none, rule wakeup_none)

section \<open>Traps\<close>

lemma setkilled_keeps [keeps_rules]: "keeps tabs (setkilled p)"
  unfolding setkilled_def by (intro keeps_rules) (simp add: pview_def)

lemma usertrap_ok:
  assumes "keeps tabs vdi"
  shows "triple (busy (\<lambda>_. 0) None) (usertrap u vdi) trap_ok"
proof -
  have call: "triple (busy (\<lambda>_. 0) None) (bnd syscall (call_end u)) trap_ok" by (rule triple_bnd[OF syscall_ok call_end_ok])
  show ?thesis unfolding usertrap_def
    by (rule call_flow, rule keeps_rules, rule call_flow, rule call_flow, rule call_flow, rule keeps_rules, simp, rule call_flow, rule keeps_rules,
        rule call_flow, rule keeps_rules, rule call_flow, rule keeps_rules, rule call_flow, rule keeps_rules, rule call_flow,
        rule call_flow, rule keeps_rules, rule call_flow, rule die_ok, rule call_flow, rule keeps_rules, rule call_flow, rule keeps_rules, rule call,
        rule triple_bnd[OF irq_busy.after_devintr[OF assms]], rule call_flow, rule trap_end_ok, intro call_flow keeps_rules trap_end_ok)
qed

lemma enter_ok: "triple (busy (\<lambda>_. 0) None) (enter u k) trap_ok"
proof (cases k)
  case AtForkret
  have "triple (busy (\<lambda>_. 0) None) (forkret u) trap_ok"
    unfolding forkret_def by (intro call_flow keeps_rules usertrapret_ok) simp
  then show ?thesis by (simp add: AtForkret enter_def)
next
  case (InCall i)
  show ?thesis unfolding InCall enter_def cont.case by (rule triple_bnd[OF resume_ok call_end_ok])
qed (simp add: enter_def usertrapret_ok)

lemma kerneltrap_idle:
  assumes "keeps tabs vdi"
  shows "triple (\<lambda>s. rest s \<and> curp s = NPROC) (kerneltrap vdi) (\<lambda>_ s. rest s \<and> curp s = NPROC)"
proof -
  let ?J = "\<lambda>s. rest s \<and> curp s = NPROC"
  have e: "triple ?J (bnd (gets (\<lambda>s. curp s < NPROC \<and> pstate (ptable s (curp s)) = RUNNING)) (\<lambda>rn.
         let gives_up = (d = 2 \<and> rn) in
         sq (if gives_up then yield else ret ())
         (sq (upd (\<lambda>s. s\<lparr>sepc := spc, sstatus := st\<rparr>))
         (ret gives_up)))) (\<lambda>_. ?J)" for d :: nat and spc st
  proof (rule triple_gets_bnd, rule triple_asm[where A = "\<not> (curp s0 < NPROC \<and> pstate (ptable s0 (curp s0)) = RUNNING)" for s0])
    fix s0 and s :: "'z kst_scheme" assume "?J s \<and> s = s0"
    then show "\<not> (curp s0 < NPROC \<and> pstate (ptable s0 (curp s0)) = RUNNING)" by auto
  next
    fix s0 :: "'z kst_scheme" assume n: "\<not> (curp s0 < NPROC \<and> pstate (ptable s0 (curp s0)) = RUNNING)"
    have "triple ?J (sq (ret ()) (sq (upd (\<lambda>s. s\<lparr>sepc := spc, sstatus := st\<rparr>)) (ret False))) (\<lambda>_. ?J)"
      by (intro triple_keeps_sq viewed_none keeps_rules triple_retI) simp_all
    then show "triple (\<lambda>s. ?J s \<and> s = s0) (let gives_up = (d = 2 \<and> curp s0 < NPROC \<and> pstate (ptable s0 (curp s0)) = RUNNING) in
         sq (if gives_up then yield else ret ())
         (sq (upd (\<lambda>s. s\<lparr>sepc := spc, sstatus := st\<rparr>))
         (ret gives_up))) (\<lambda>_. ?J)" using n by (auto simp: Let_def elim: triple_pre)
  qed
  show ?thesis unfolding kerneltrap_def
    by (rule triple_keeps_bnd[OF _ viewed_none], rule keeps_rules, intro triple_prod triple_if triple_panic,
        rule triple_bnd[OF irq_none.after_devintr[OF assms]], rule triple_if, intro triple_keeps_sq viewed_none keeps_rules triple_panic, rule e)
qed

text \<open>The scheduler gives the processor to a process that is ready, and takes it back.\<close>

lemma schedule_ok:
  assumes "p < NPROC"
  shows "triple (\<lambda>s. rest s \<and> curp s = NPROC) (schedule p) (\<lambda>r s. if r then busy (\<lambda>_. 0) None s else rest s \<and> curp s = NPROC)"
proof (rule tripleI)
  fix s r s' assume h: "rest s \<and> curp s = NPROC" "schedule p s = Inr (r, s')"
  let ?P = "(ptable s p)\<lparr>pstate := RUNNING\<rparr>"
  show "if r then busy (\<lambda>_. 0) None s' else rest s' \<and> curp s' = NPROC"
  proof (cases "pstate (ptable s p) = RUNNABLE")
    case True
    then have r: "r = True" "s' = (put_proc p ?P s)\<lparr>curp := p, mypid := ppid (ptable s p)\<rparr>"
      using h(2) by (auto simp: schedule_def kst_run run_simps)
    have ok: "proc_ok None s q" if "q < NPROC" for q using h(1) that by (simp add: rest_def tables_ok_def)
    have "proc_ok None s' q" if "q < NPROC" for q
      using ok[OF that] h(1) True assms that by (cases "q = p") (auto simp: r(2) proc_ok_def Let_def live_def split: option.splits)
    moreover have "pids_ok s'"
    proof -
      have "pids_ok (put_proc p ?P s)" using h(1) True by (intro pids_ok_put) (auto simp: rest_def tables_ok_def)
      then show ?thesis by (simp add: r(2) pids_ok_def)
    qed
    moreover have "refs_ok (\<lambda>_. 0) s'"
    proof -
      have "refs_ok (\<lambda>_. 0) (put_proc p ?P s)" using h(1) by (intro refs_same) (auto simp: rest_def tables_ok_def)
      then show ?thesis by (simp add: r(2) refs_ok_def nrefs_def)
    qed
    moreover have "init_ok s'" using h(1) by (auto simp: r(2) rest_def init_ok_def live_def split: option.splits)
    ultimately show ?thesis using assms r by (simp add: busy_def tables_ok_def running_def)
  next
    case False
    then show ?thesis using h by (simp add: schedule_def run_simps)
  qed
qed

lemma unschedule_ok: "triple (\<lambda>s. rest s \<and> \<not> running s) unschedule (\<lambda>_ s. rest s \<and> curp s = NPROC)"
proof (rule tripleI)
  fix s x s' assume h: "rest s \<and> \<not> running s" "unschedule s = Inr (x, s')"
  have s': "s' = s\<lparr>curp := NPROC\<rparr>" using h(2) by (simp add: unschedule_def run_simps)
  have ok: "proc_ok None s q" if "q < NPROC" for q using h(1) that by (simp add: rest_def tables_ok_def)
  have "proc_ok None s' q" if "q < NPROC" for q
    using ok[OF that] h(1) that by (auto simp: s' proc_ok_def Let_def running_def split: option.splits)
  moreover have "pids_ok s' \<and> refs_ok (\<lambda>_. 0) s' \<and> init_ok s'"
    using h(1) by (auto simp: s' rest_def tables_ok_def pids_ok_def refs_ok_def nrefs_def init_ok_def cong: option.case_cong)
  ultimately show "rest s' \<and> curp s' = NPROC" by (simp add: rest_def tables_ok_def s')
qed

section \<open>The machine\<close>

text \<open>
  A state of the machine: that of the kernel and the devices, where each process goes on when it gets
  the processor, and the entry at which the loop of \<^verbatim>\<open>scheduler\<close> is.
\<close>

record 'z machine =
  kern :: "'z vdisk_scheme"
  conts :: "nat \<Rightarrow> cont"
  pos :: nat

text \<open>A process leaves the kernel, or the processor.\<close>

definition leave :: "trapped \<Rightarrow> 'z vdisk_scheme \<Rightarrow> 'z machine \<Rightarrow> 'z machine" where
  "leave r s m = (let off = (\<lambda>k. m\<lparr>kern := s\<lparr>curp := NPROC\<rparr>, conts := (conts m)(curp s := k)\<rparr>) in
     case r of Resumes w \<Rightarrow> m\<lparr>kern := s\<rparr> | Suspended i \<Rightarrow> off (InCall i) | Yields \<Rightarrow> off AtYield | Dead \<Rightarrow> off AtForkret)"

datatype action = User | Trap | Look | Switch nat | Irq | Device

text \<open>
  The steps. User code changes memory and, by what it does, the registers that describe its next trap. The scheduler
  looks at one entry after the other. Interrupts also arrive while it has no process to run.
\<close>

inductive mstep :: "64 word \<Rightarrow> action \<Rightarrow> 'z machine \<Rightarrow> 'z machine \<Rightarrow> bool" for ut where
  user: "curp (kern m) < NPROC \<Longrightarrow> mstep ut User m (m\<lparr>kern := (kern m)\<lparr>pm := mem, scause := c, sepc := pc, stval := v, sstatus := st\<rparr>\<rparr>)"
| trap: "curp (kern m) < NPROC \<Longrightarrow> usertrap ut virtio_disk_intr (kern m) = Inr (r, s1) \<Longrightarrow> deliver s1 = Inr ((), s2) \<Longrightarrow>
    mstep ut Trap m (leave r s2 m)"
| look: "curp (kern m) = NPROC \<Longrightarrow> pos m < NPROC \<Longrightarrow> schedule (pos m) (kern m) = Inr (False, s1) \<Longrightarrow>
    mstep ut Look m (m\<lparr>kern := s1, pos := (pos m + 1) mod NPROC\<rparr>)"
| switch: "curp (kern m) = NPROC \<Longrightarrow> pos m < NPROC \<Longrightarrow> schedule (pos m) (kern m) = Inr (True, s1) \<Longrightarrow> enter ut (conts m (pos m)) s1 = Inr (r, s2) \<Longrightarrow>
    deliver s2 = Inr ((), s3) \<Longrightarrow> mstep ut (Switch (pos m)) m (leave r s3 (m\<lparr>pos := (pos m + 1) mod NPROC\<rparr>))"
| irq: "curp (kern m) = NPROC \<Longrightarrow> kerneltrap virtio_disk_intr (kern m) = Inr (b, s1) \<Longrightarrow> deliver s1 = Inr ((), s2) \<Longrightarrow> mstep ut Irq m (m\<lparr>kern := s2\<rparr>)"
| device: "mstep ut Device m (m\<lparr>kern := (kern m)\<lparr>rx := inp, tx_idle := idl, disk := dsk, plic := irqs, sip := ip, scause := c, sstatus := st,
    used_ring := ur, used_dev := ud, info_status := is, dev_seen := ds\<rparr>\<rparr>)"

text \<open>Static variables as the loader leaves them, and the states that the machine reaches from there.\<close>

definition fresh :: "'z kst_scheme \<Rightarrow> bool" where
  "fresh s \<longleftrightarrow> (\<forall>p<NPROC. ppid (ptable s p) = 0 \<and> pparent (ptable s p) = None \<and> (\<forall>fd<NOFILE. pofile (ptable s p) fd = None)) \<and>
     (\<forall>f<NFILE. fref (ftable s f) = 0) \<and> nextpid s = 1 \<and> curp s = NPROC"

inductive reach :: "64 word \<Rightarrow> 'z machine \<Rightarrow> bool" for ut where
  boot: "fresh s \<Longrightarrow> sq procinit userinit s = Inr ((), s1) \<Longrightarrow> reach ut \<lparr>kern = s1, conts = (\<lambda>_. AtForkret), pos = 0\<rparr>"
| step: "reach ut m \<Longrightarrow> mstep ut a m m' \<Longrightarrow> reach ut m'"

inductive_cases mstep_cases: "mstep ut a m m'"

definition machine_ok :: "'z machine \<Rightarrow> bool" where
  "machine_ok m \<longleftrightarrow> rest (kern m) \<and> (running (kern m) \<or> curp (kern m) = NPROC) \<and> pos m < NPROC"

section \<open>Its invariant\<close>

lemma machine_busy: "machine_ok m \<Longrightarrow> curp (kern m) < NPROC \<Longrightarrow> busy (\<lambda>_. 0) None (kern m)"
  by (auto simp: machine_ok_def busy_def rest_def)

lemma machine_idle: "machine_ok m \<Longrightarrow> curp (kern m) = NPROC \<Longrightarrow> rest (kern m) \<and> curp (kern m) = NPROC"
  by (simp add: machine_ok_def)

lemma machine_tabs: "machine_ok m \<Longrightarrow> tabs s = tabs (kern m) \<Longrightarrow> machine_ok (m\<lparr>kern := s\<rparr>)"
  using rest_tabs[of s "kern m"] running_tabs[of s "kern m"] tabs_eqD(7)[of s "kern m"] by (simp add: machine_ok_def)

lemma tabs_user [simp]: "tabs (s\<lparr>used_ring := a\<rparr>) = tabs s" "tabs (s\<lparr>used_dev := b\<rparr>) = tabs s" "tabs (s\<lparr>info_status := c\<rparr>) = tabs s" "tabs (s\<lparr>dev_seen := d\<rparr>) = tabs s"
  by (simp_all add: tabs_def)

lemma leave_ok:
  assumes "trap_ok r s" "deliver s = Inr ((), s2)" "pos m < NPROC"
  shows "machine_ok (leave r s2 m)"
proof (cases r)
  case (Resumes w)
  then have "busy (\<lambda>_. 0) None s2" using assms(1) tripleD[OF irq_busy.after_deliver _ assms(2)] by (simp add: trap_ok_def)
  then show ?thesis using Resumes assms(3) by (simp add: leave_def machine_ok_def busy_def rest_def)
qed (use assms tripleD[OF irq_idle.after_deliver _ assms(2)] tripleD[OF unschedule_ok, of s2 "()" "s2\<lparr>curp := NPROC\<rparr>"] in
    \<open>auto simp: trap_ok_def leave_def machine_ok_def unschedule_def run_simps\<close>)

lemma mstep_ok: "mstep ut a m m' \<Longrightarrow> machine_ok m \<Longrightarrow> machine_ok m'"
proof (induction rule: mstep.induct)
  case user
  then show ?case by (intro machine_tabs) simp_all
next
  case (trap m r s1 s2)
  have "trap_ok r s1" by (rule tripleD[OF usertrap_ok[OF virtio_disk_intr_keeps] machine_busy[OF trap(4,1)] trap(2)])
  then show ?case using trap by (intro leave_ok) (auto simp: machine_ok_def)
next
  case (look m s1)
  have "rest s1 \<and> curp s1 = NPROC" using tripleD[OF schedule_ok[OF look(2)] _ look(3)] look(1,4) by (simp add: machine_ok_def)
  then show ?case by (simp add: machine_ok_def NPROC_def)
next
  case (switch m s1 r s2 s3)
  have "busy (\<lambda>_. 0) None s1" using tripleD[OF schedule_ok[OF switch(2)] _ switch(3)] switch(1,6) by (simp add: machine_ok_def)
  then have "trap_ok r s2" by (rule tripleD[OF enter_ok _ switch(4)])
  then show ?case using switch(5) by (rule leave_ok) (simp add: NPROC_def)
next
  case (irq m b s1 s2)
  have "rest s1 \<and> curp s1 = NPROC" by (rule tripleD[OF kerneltrap_idle[OF virtio_disk_intr_keeps] machine_idle[OF irq(4,1)] irq(2)])
  then have "rest s2 \<and> curp s2 = NPROC" by (rule tripleD[OF irq_none.after_deliver _ irq(3)])
  then show ?case using irq(4) by (simp add: machine_ok_def)
next
  case device
  then show ?case by (intro machine_tabs) simp_all
qed

section \<open>Booting\<close>

lemma procinit_loop_run:
  "procinit_loop n s = Inr ((), s\<lparr>ptable := (\<lambda>p. if p < n then (ptable s p)\<lparr>pstate := UNUSED, pkstack := KSTACK p\<rparr> else ptable s p)\<rparr>)"
  by (induction n) (auto simp: run_simps kst_run fun_eq_iff)

lemma procinit_ok: "triple fresh procinit (\<lambda>_ s. tables_ok (\<lambda>_. 0) None s \<and> curp s = NPROC)"
proof (rule tripleI)
  fix s x s' assume h: "fresh s" "procinit s = Inr (x, s')"
  have s': "s' = s\<lparr>ptable := (\<lambda>p. if p < NPROC then (ptable s p)\<lparr>pstate := UNUSED, pkstack := KSTACK p\<rparr> else ptable s p)\<rparr>"
    using h(2) by (simp add: procinit_def procinit_loop_run)
  have "proc_ok None s' p" if "p < NPROC" for p using h(1) that by (simp add: s' proc_ok_def fresh_def Let_def)
  moreover have "pids_ok s'" using h(1) by (simp add: s' pids_ok_def fresh_def INT_MAX_def)
  moreover have "refs_ok (\<lambda>_. 0) s'" using h(1) by (simp add: s' refs_ok_def nrefs_def fresh_def)
  ultimately show "tables_ok (\<lambda>_. 0) None s' \<and> curp s' = NPROC" using h(1) by (simp add: tables_ok_def s' fresh_def)
qed

interpretation first: bystander "\<lambda>s. curp s = NPROC"
  by unfold_locales (intro viewed_rules, simp_all)

lemma tables_initproc: "tables_ok ex u (s\<lparr>initproc := r\<rparr>) = tables_ok ex u s"
  by (simp add: tables_ok_def proc_ok_def pids_ok_def refs_ok_def nrefs_def Let_def cong: option.case_cong)

lemma userinit_ok: "triple (\<lambda>s. tables_ok (\<lambda>_. 0) None s \<and> curp s = NPROC) userinit (\<lambda>_ s. rest s \<and> curp s = NPROC)"
proof -
  let ?A = "\<lambda>p s. tables_ok (\<lambda>_. 0) (Some p) s \<and> curp s = NPROC \<and> initproc s = Some p"
  have v: "viewed (?A p)" for p using tables_ok_tabs tabs_eqD(7,8) unfolding viewed_def by metis
  have set: "triple (\<lambda>s. case r of None \<Rightarrow> tables_ok (\<lambda>_. 0) None s \<and> curp s = NPROC
     | Some p \<Rightarrow> p < NPROC \<and> tables_ok (\<lambda>_. 0) (Some p) s \<and> curp s = NPROC \<and> (\<forall>fd<NOFILE. pofile (ptable s p) fd = None))
     (upd (\<lambda>s. s\<lparr>initproc := r\<rparr>)) (\<lambda>_ s. case r of None \<Rightarrow> True | Some p \<Rightarrow> p < NPROC \<and> ?A p s)" for r
    by (cases r) (auto simp: triple_def upd_run tables_initproc)
  have ready: "triple (?A p) (proc_upd p (\<lambda>P. P\<lparr>pcwd := cwd, pstate := RUNNABLE\<rparr>)) (\<lambda>_ s. rest s \<and> curp s = NPROC)" if "p < NPROC" for p cwd
    using that by (intro tripleI) (auto simp: proc_upd_def run_simps rest_def init_ok_def live_def intro!: tables_ready)
  have go: "triple (\<lambda>s. p < NPROC \<and> ?A p s) (sq (bnd (gets (\<lambda>s. ppagetable (ptable s p))) (\<lambda>pt. uvmfirst pt initcode))
      (sq (proc_upd p (\<lambda>P. P\<lparr>psz := PGSIZE\<rparr>))
      (sq (tf_put p TF_epc 0)
      (sq (tf_put p TF_sp (of_nat PGSIZE))
      (sq (proc_upd p (\<lambda>P. P\<lparr>pname := safestr (chars ''initcode'') 16\<rparr>))
      (bnd (namei (chars ''/'')) (\<lambda>cwd.
      proc_upd p (\<lambda>P. P\<lparr>pcwd := cwd, pstate := RUNNABLE\<rparr>)))))))) (\<lambda>_ s. rest s \<and> curp s = NPROC)" for p
    by (rule triple_asm[where A = "p < NPROC"], simp, rule triple_pre[where P' = "?A p"],
        intro triple_keeps_sq[OF _ v] triple_keeps_bnd[OF _ v] keeps_rules ready) (auto simp: pview_def)
  show ?thesis unfolding userinit_def
    by (rule triple_bnd[OF first.after_allocproc], rule triple_sq[OF set], rule triple_option, rule triple_fail, rule triple_pre[OF go]) simp
qed

lemma reach_ok: "reach ut m \<Longrightarrow> machine_ok m"
proof (induction rule: reach.induct)
  case (boot s s1)
  have "rest s1 \<and> curp s1 = NPROC" by (rule tripleD[OF triple_sq[OF procinit_ok userinit_ok] boot])
  then show ?case by (simp add: machine_ok_def NPROC_def)
qed (rule mstep_ok)

lemma nrefs_card: "nrefs s f = int (card {(p, fd). p < NPROC \<and> fd < NOFILE \<and> pofile (ptable s p) fd = Some f})"
proof -
  let ?S = "\<lambda>p. {fd. fd < NOFILE \<and> pofile (ptable s p) fd = Some f}"
  have "nrefs s f = (\<Sum>p<NPROC. int (card (?S p)))"
    by (simp add: nrefs_def sum.If_cases lessThan_def Collect_conj_eq)
  also have "\<dots> = int (card (SIGMA p:{..<NPROC}. ?S p))" by (simp add: card_SigmaI)
  also have "(SIGMA p:{..<NPROC}. ?S p) = {(p, fd). p < NPROC \<and> fd < NOFILE \<and> pofile (ptable s p) fd = Some f}" by auto
  finally show ?thesis .
qed

text \<open>
  C2. In every state that the machine reaches, whatever user programs and devices do, as long as fewer than \<open>2 ^ 31 - 1\<close> processes
  have been created (with more, \<^verbatim>\<open>nextpid\<close> overflows, which is undefined): process identifiers are unique; the parent
  of a process is a process that has not ended; the reference count of an open file is the number of descriptors that refer to
  it, so that no file is closed too early or kept for ever; unused entries and zombies have no open files; the only entry
  marked as running is that of the process that has the processor; and the first process is alive.
\<close>

theorem kernel_tables_consistent:
  assumes "reach ut m"
  defines "s \<equiv> kern m"
  shows "(\<forall>p<NPROC. \<forall>q<NPROC. pstate (ptable s p) \<noteq> UNUSED \<and> ppid (ptable s p) = ppid (ptable s q) \<longrightarrow> p = q) \<and>
    (\<forall>p<NPROC. \<forall>q. pparent (ptable s p) = Some q \<longrightarrow> q < NPROC \<and> pstate (ptable s q) \<in> {SLEEPING, RUNNABLE, RUNNING}) \<and>
    (\<forall>f<NFILE. fref (ftable s f) = int (card {(p, fd). p < NPROC \<and> fd < NOFILE \<and> pofile (ptable s p) fd = Some f})) \<and>
    (\<forall>p<NPROC. pstate (ptable s p) \<in> {UNUSED, ZOMBIE} \<longrightarrow> (\<forall>fd<NOFILE. pofile (ptable s p) fd = None)) \<and>
    (\<forall>p<NPROC. pstate (ptable s p) = RUNNING \<longleftrightarrow> curp s = p) \<and>
    (\<exists>i<NPROC. initproc s = Some i \<and> pstate (ptable s i) \<in> {SLEEPING, RUNNABLE, RUNNING})"
proof -
  have m: "tables_ok (\<lambda>_. 0) None s" "init_ok s" "running s \<or> curp s = NPROC"
    using reach_ok[OF assms(1)] by (auto simp: machine_ok_def rest_def s_def)
  then have ok: "proc_ok None s p" if "p < NPROC" for p using that by (simp add: tables_ok_def)
  have "q < NPROC \<and> pstate (ptable s q) \<in> {SLEEPING, RUNNABLE, RUNNING}" if "p < NPROC" "pparent (ptable s p) = Some q" for p q
    using ok[OF that(1)] that(2) by (auto simp: proc_ok_def Let_def live_def)
  moreover have "pofile (ptable s p) fd = None" if "p < NPROC" "pstate (ptable s p) \<in> {UNUSED, ZOMBIE}" "fd < NOFILE" for p fd
    using ok[OF that(1)] that(2,3) by (auto simp: proc_ok_def Let_def)
  moreover have "\<forall>p<NPROC. pstate (ptable s p) = RUNNING \<longleftrightarrow> curp s = p"
    using ok m(3) by (auto simp: proc_ok_def Let_def running_def)
  moreover have "\<exists>i<NPROC. initproc s = Some i \<and> pstate (ptable s i) \<in> {SLEEPING, RUNNABLE, RUNNING}"
    using m(2) by (auto simp: init_ok_def live_def split: option.splits)
  moreover have "\<forall>p<NPROC. \<forall>q<NPROC. pstate (ptable s p) \<noteq> UNUSED \<and> ppid (ptable s p) = ppid (ptable s q) \<longrightarrow> p = q"
    using m(1) unfolding tables_ok_def pids_ok_def by blast
  moreover have "fref (ftable s f) = int (card {(p, fd). p < NPROC \<and> fd < NOFILE \<and> pofile (ptable s p) fd = Some f})" if "f < NFILE" for f
    using m(1) that by (simp add: tables_ok_def refs_ok_def nrefs_card)
  ultimately show ?thesis by (intro conjI) blast+
qed

lemma booted: obtains s1 s2 where "freerange_loop 9 2281664512 boot_ram = Inr ((), s1)" "sq procinit userinit s1 = Inr ((), s2)" "fresh s1"
proof (rule nine_pages)
  fix s m l tf pt ps assume s: "freerange_loop 9 2281664512 boot_ram = Inr ((), s)" "s = boot_ram\<lparr>pm := m, freelist := l\<rparr>" "kmem_inv s (tf # pt # ps)" "length ps = 7"
  obtain s1 where s1: "procinit s = Inr ((), s1)" "s1 = s\<lparr>ptable := ptable s1\<rparr>" "pstate (ptable s1 0) = UNUSED"
    by (simp add: procinit_def procinit_loop_run NPROC_def)
  have k: "kmem_inv s1 (tf # pt # ps)" "7 \<le> length ps" "\<forall>k<NINODE. iref (itable s1 k) = 0" "nextpid s1 \<noteq> INT_MAX"
  proof -
    show "kmem_inv s1 (tf # pt # ps)" by (subst s1(2)) (use s(3) in \<open>simp add: kmem_inv_def\<close>)
    show "7 \<le> length ps" using s(4) by simp
    show "\<forall>k<NINODE. iref (itable s1 k) = 0" by (subst s1(2)) (simp add: s(2) boot_ram_fields blank_inode_def)
    show "nextpid s1 \<noteq> INT_MAX" by (subst s1(2)) (simp add: s(2) boot_ram_fields INT_MAX_def)
  qed
  obtain s2 where "userinit s1 = Inr ((), s2)" by (rule userinit_run[OF k(1,2) s1(3) k(3,4)])
  then have "sq procinit userinit s = Inr ((), s2)" using s1(1) by (simp add: run_simps)
  moreover have "fresh s" by (simp add: fresh_def s(2) boot_ram_fields blank_proc_def blank_file_def)
  ultimately show thesis using that s(1) by blast
qed

theorem kernel_tables_consistent_witness:
  "\<exists>s1 s2. freerange_loop 9 2281664512 boot_ram = Inr ((), s1) \<and> sq procinit userinit s1 = Inr ((), s2) \<and>
     reach 0 \<lparr>kern = s2, conts = (\<lambda>_. AtForkret), pos = 0\<rparr> \<and>
     (\<exists>i<NPROC. initproc s2 = Some i \<and> pstate (ptable s2 i) \<in> {SLEEPING, RUNNABLE, RUNNING})"
proof -
  obtain s1 s2 where s: "freerange_loop 9 2281664512 boot_ram = Inr ((), s1)" "sq procinit userinit s1 = Inr ((), s2)" "fresh s1" by (rule booted)
  have r: "reach 0 \<lparr>kern = s2, conts = (\<lambda>_. AtForkret), pos = 0\<rparr>" by (rule reach.boot[OF s(3,2)])
  from kernel_tables_consistent[OF r] have "\<exists>i<NPROC. initproc s2 = Some i \<and> pstate (ptable s2 i) \<in> {SLEEPING, RUNNABLE, RUNNING}" by simp
  with s(1,2) r show ?thesis by blast
qed

text \<open>
  C19. The tables are well typed in every reachable state: descriptors are indices of the table of open files, parents and the
  first process are entries of the process table, the processor has an entry or none, the scheduler is at an entry,
  an entry in use has a positive identifier that was given out already and is the value of an \<^verbatim>\<open>int\<close> (the machine stops where
  \<^verbatim>\<open>nextpid\<close> would overflow), an unused one has neither identifier nor parent,
  and no entry is left half allocated between two steps.
\<close>

theorem kernel_tables_typed:
  assumes "reach ut m"
  shows "curp (kern m) \<le> NPROC \<and> pos m < NPROC \<and> nextpid (kern m) < 2 ^ 31 \<and> (case initproc (kern m) of None \<Rightarrow> False | Some i \<Rightarrow> i < NPROC) \<and>
    (\<forall>p<NPROC. let P = ptable (kern m) p in pstate P \<noteq> USED \<and>
       (if pstate P = UNUSED then ppid P = 0 \<and> pparent P = None else 0 < ppid P \<and> ppid P < nextpid (kern m)) \<and>
       (case pparent P of None \<Rightarrow> True | Some q \<Rightarrow> q < NPROC) \<and>
       (\<forall>fd<NOFILE. case pofile P fd of None \<Rightarrow> True | Some f \<Rightarrow> f < NFILE))"
proof -
  have m: "tables_ok (\<lambda>_. 0) None (kern m)" "init_ok (kern m)" "running (kern m) \<or> curp (kern m) = NPROC" "pos m < NPROC"
    using reach_ok[OF assms(1)] by (auto simp: machine_ok_def rest_def)
  have "let P = ptable (kern m) p in pstate P \<noteq> USED \<and> (if pstate P = UNUSED then ppid P = 0 \<and> pparent P = None else 0 < ppid P \<and> ppid P < nextpid (kern m)) \<and>
       (case pparent P of None \<Rightarrow> True | Some q \<Rightarrow> q < NPROC) \<and> (\<forall>fd<NOFILE. case pofile P fd of None \<Rightarrow> True | Some f \<Rightarrow> f < NFILE)" if "p < NPROC" for p
  proof -
    have "proc_ok None (kern m) p" "refs_ok (\<lambda>_. 0) (kern m)" using m(1) that by (auto simp: tables_ok_def)
    then show ?thesis using that by (auto simp: proc_ok_def refs_ok_def Let_def split: option.splits)
  qed
  moreover have "curp (kern m) \<le> NPROC" "case initproc (kern m) of None \<Rightarrow> False | Some i \<Rightarrow> i < NPROC"
    using m(2,3) by (auto simp: running_def init_ok_def split: option.splits)
  moreover have "nextpid (kern m) < 2 ^ 31" using m(1) by (simp add: tables_ok_def pids_ok_def INT_MAX_def)
  ultimately show ?thesis using m(4) by blast
qed

theorem kernel_tables_typed_witness:
  "\<exists>s1 s2. freerange_loop 9 2281664512 boot_ram = Inr ((), s1) \<and> sq procinit userinit s1 = Inr ((), s2) \<and>
     reach 0 \<lparr>kern = s2, conts = (\<lambda>_. AtForkret), pos = 0\<rparr> \<and> curp s2 \<le> NPROC"
proof -
  obtain s1 s2 where s: "freerange_loop 9 2281664512 boot_ram = Inr ((), s1)" "sq procinit userinit s1 = Inr ((), s2)" "fresh s1" by (rule booted)
  have r: "reach 0 \<lparr>kern = s2, conts = (\<lambda>_. AtForkret), pos = 0\<rparr>" by (rule reach.boot[OF s(3,2)])
  from kernel_tables_typed[OF r] have "curp s2 \<le> NPROC" by simp
  with s(1,2) r show ?thesis by blast
qed

end
