(* ===== verification/Sched.thy ===== *)
theory Sched
  imports Machine
begin

text \<open>
  The scheduler lets no ready process wait for ever. A process that is ready stays so until it gets the
  processor, whatever the others do, and the round of the scheduler over the table reaches it after
  less than \<^verbatim>\<open>NPROC\<close> other entries.
\<close>

section \<open>A ready process stays ready\<close>

definition patient :: "nat \<Rightarrow> 'z kst_scheme \<Rightarrow> bool" where
  "patient p s \<longleftrightarrow> p < NPROC \<and> pstate (ptable s p) = RUNNABLE \<and> curp s \<noteq> p"

definition spares :: "nat \<Rightarrow> ('z kst_scheme, 'e, 'a) comp \<Rightarrow> bool" where
  "spares p m \<longleftrightarrow> triple (patient p) m (\<lambda>_. patient p)"

named_theorems spare_rules

lemma viewed_patient: "viewed (patient p)"
  unfolding patient_def by (intro viewed_rules)

lemma spares_tabs: "keeps tabs m \<Longrightarrow> spares p m"
  using viewed_patient[of p] unfolding spares_def viewed_def keeps_def triple_def by blast

lemma spares_ret [spare_rules]: "spares p (ret x)" "spares p (fail e)" "spares p (panic c)" "spares p (gets f)" "spares p (guard b e)"
  by (intro spares_tabs keeps_rules)+

lemma spares_bnd [spare_rules]: "spares p m \<Longrightarrow> (\<And>x. spares p (k x)) \<Longrightarrow> spares p (bnd m k)"
  unfolding spares_def by (rule triple_bnd)

lemma spares_sq [spare_rules]: "spares p m \<Longrightarrow> spares p k \<Longrightarrow> spares p (sq m k)"
  unfolding spares_def by (rule triple_sq)

lemma spares_if [spare_rules]: "(b \<Longrightarrow> spares p m) \<Longrightarrow> (\<not> b \<Longrightarrow> spares p k) \<Longrightarrow> spares p (if b then m else k)"
  by simp

lemma spares_option [spare_rules]: "(x = None \<Longrightarrow> spares p m) \<Longrightarrow> (\<And>y. x = Some y \<Longrightarrow> spares p (k y)) \<Longrightarrow> spares p (case x of None \<Rightarrow> m | Some y \<Rightarrow> k y)"
  by (cases x) simp_all

lemma spares_prod [spare_rules]: "(\<And>a b. x = (a, b) \<Longrightarrow> spares p (k a b)) \<Longrightarrow> spares p (case x of (a, b) \<Rightarrow> k a b)"
  by (cases x) simp_all

lemma spares_let [spare_rules]: "(\<And>y. y = x \<Longrightarrow> spares p (k y)) \<Longrightarrow> spares p (let y = x in k y)"
  by simp

lemma spares_proc_upd [spare_rules]: "(\<And>P. pstate (f P) = pstate P \<or> q \<noteq> p \<or> pstate (f P) = RUNNABLE) \<Longrightarrow> spares p (proc_upd q f)"
  unfolding spares_def triple_def patient_def proc_upd_def by (auto simp: run_simps) metis

lemma spares_file_upd [spare_rules]: "spares p (file_upd f g)"
  by (auto simp: spares_def triple_def patient_def file_upd_def run_simps)

lemma spares_myproc: "(\<And>q. q \<noteq> p \<Longrightarrow> spares p (k q)) \<Longrightarrow> spares p (bnd myproc k)"
  by (auto simp: spares_def triple_def patient_def myproc_def run_simps)

lemma spares_gets: "(\<And>s. patient p s \<Longrightarrow> spares p (k (g s))) \<Longrightarrow> spares p (bnd (gets g) k)"
  unfolding spares_def triple_def bnd_def gets_run by (metis case_prod_conv sum.case(2))

text \<open>Files and descriptors.\<close>

lemma files_spare [spare_rules]: "spares p filealloc" "spares p (filedup f)" "spares p (fileclose f)" "spares p (fdalloc f)" "spares p (fd_clear d)"
  unfolding filealloc_def filedup_def fileclose_def fdalloc_def fd_clear_def
  by (intro spare_rules | rule spares_tabs, intro keeps_rules | simp)+

lemma pipealloc_spares [spare_rules]: "spares p pipealloc"
  unfolding pipealloc_def by (intro spare_rules | rule spares_tabs, intro keeps_rules | simp)+

lemma open_file_spares [spare_rules]: "spares p open_file"
  unfolding open_file_def by (intro spare_rules)

text \<open>Processes.\<close>

lemma wakeup_spares [spare_rules]: "spares p (wakeup ch)"
proof -
  have "spares p (wakeup_loop ch n)" for n by (induction n) (auto intro!: spare_rules spares_tabs[OF reads_keep(1)])
  then show ?thesis by (simp add: wakeup_def)
qed

lemma sleep_spares [spare_rules]: "spares p (sleep ch)" "spares p yield" "spares p (sleep_if ch r)"
proof -
  show s: "spares p (sleep ch)" "spares p yield" unfolding sleep_def yield_def by (rule spares_myproc, rule spare_rules, simp)+
  show "spares p (sleep_if ch r)" by (cases r) (auto simp: sleep_if_def intro!: spare_rules s)
qed

lemma kill_spares [spare_rules]: "spares p (kill pid)" "spares p (setkilled q)"
  unfolding kill_def setkilled_def by (intro spare_rules; auto)+

lemma freeproc_spares: "q \<noteq> p \<Longrightarrow> spares p (freeproc q)"
  unfolding freeproc_def by (intro spare_rules spares_tabs[OF kfree_keeps] spares_tabs[OF pagetable_keeps(2)]) simp

lemma allocpid_spares [spare_rules]: "spares p allocpid"
  by (auto simp: allocpid_def spares_def triple_def patient_def run_simps)

lemma allocproc_found_spares: "q \<noteq> p \<Longrightarrow> spares p (allocproc_found q)"
  unfolding allocproc_found_def by (intro spare_rules freeproc_spares; (rule spares_tabs, rule keeps_rules)?; simp?)

lemma triple_last: "(\<And>x. triple (\<lambda>_. True) (k x) Q) \<Longrightarrow> triple (\<lambda>_. True) (bnd m k) Q" "triple (\<lambda>_. True) l Q \<Longrightarrow> triple (\<lambda>_. True) (sq m' l) Q"
  by (auto simp: triple_def sq_def elim!: bnd_InrE)

lemma allocproc_found_result: "triple (\<lambda>_. True) (allocproc_found q) (\<lambda>r _. r = None \<or> r = Some q)"
  unfolding allocproc_found_def by (intro triple_last triple_if triple_retI) simp_all

lemma allocproc_patient: "triple (patient p) allocproc (\<lambda>r s. patient p s \<and> r \<noteq> Some p)"
proof (rule tripleI)
  fix s r s' assume h: "patient p s" "allocproc s = Inr (r, s')"
  show "patient p s' \<and> r \<noteq> Some p"
  proof (cases "List.find (\<lambda>q. pstate (ptable s q) = UNUSED) [0..<NPROC]")
    case None
    then show ?thesis using h by (auto simp: allocproc_def run_simps)
  next
    case (Some q)
    then have q: "q \<noteq> p" "allocproc_found q s = Inr (r, s')" using h find_upt[OF Some] by (auto simp: allocproc_def run_simps patient_def)
    moreover have "r = None \<or> r = Some q" using tripleD[OF allocproc_found_result _ q(2)] by simp
    ultimately show ?thesis using tripleD[OF allocproc_found_spares[OF q(1), unfolded spares_def] h(1)] by auto
  qed
qed

lemma fork_files_spares: "spares p (fork_files q np n)"
  by (induction n) (auto intro!: spare_rules)

lemma fork_into_spares: "np \<noteq> p \<Longrightarrow> spares p (fork_into q np)"
  unfolding fork_into_def by (intro spare_rules freeproc_spares fork_files_spares; (rule spares_tabs, intro keeps_rules)?; simp?)

lemma fork_spares [spare_rules]: "spares p fork"
proof -
  have "triple (\<lambda>s. patient p s \<and> r \<noteq> Some p) (case r of None \<Rightarrow> ret (- 1) | Some np \<Rightarrow> fork_into q np) (\<lambda>_. patient p)" for r q
    using fork_into_spares[of _ p q] by (cases r) (auto simp: spares_def triple_def run_simps)
  then have "spares p (bnd allocproc (\<lambda>r. case r of None \<Rightarrow> ret (- 1) | Some np \<Rightarrow> fork_into q np))" for q
    unfolding spares_def by (rule triple_bnd[OF allocproc_patient])
  then show ?thesis unfolding fork_def by (rule spares_bnd[OF spares_tabs[OF reads_keep(1)]])
qed

lemma kexit_spares [spare_rules]: "spares p (kexit st)"
proof -
  have c: "spares p (close_files q n)" for q n by (induction n) (auto intro!: spare_rules)
  have r: "spares p (reparent q)" for q
  proof -
    have "spares p (reparent_loop q n)" for n unfolding wakeup_init_def[symmetric]
      by (induction n) (auto simp: wakeup_init_def intro!: spare_rules)
    then show ?thesis by (simp add: reparent_def)
  qed
  show ?thesis unfolding kexit_def
    by (rule spares_myproc, intro spare_rules c r; (rule spares_tabs, intro keeps_rules)?; simp?)
qed

lemma wait_spares [spare_rules]: "spares p (wait addr)"
proof -
  have z: "pp \<noteq> p" if "wait_scan (ptable s) q n = Child pp" "patient p s" for s :: "'z kst_scheme" and q n pp
    using that by (induction n) (auto simp: patient_def split: waited.splits if_splits)
  have "spares p (case wait_scan (ptable s) q NPROC of
       Child pp \<Rightarrow> bnd (if addr \<noteq> 0 then copyout (ppagetable (ptable s q)) addr (le32 (pxstate (ptable s pp))) else ret 0) (\<lambda>r.
         if r < 0 then ret (Returns (- 1)) else sq (freeproc pp) (ret (Returns (ppid (ptable s pp)))))
     | Kids h \<Rightarrow> if \<not> h \<or> pkilled (ptable s q) then ret (Returns (- 1)) else sq (sleep (WProc q)) (ret (Asleep 0)))"
    if "patient p s" for s :: "'z kst_scheme" and q
    using z[OF _ that] by (cases "wait_scan (ptable s) q NPROC") (auto intro!: spare_rules freeproc_spares spares_tabs[OF copyout_keeps])
  then show ?thesis unfolding wait_def by (intro spares_myproc spares_gets)
qed

section \<open>System calls and traps\<close>

lemma quiet_calls_spare [spare_rules]:
  "spares p sys_link" "spares p sys_unlink" "spares p sys_mkdir" "spares p sys_mknod" "spares p sys_chdir" "spares p sys_exec"
  "spares p sys_fstat" "spares p sys_getpid" "spares p sys_sbrk" "spares p sys_uptime" "spares p sys_getclk"
  unfolding sys_link_def sys_unlink_def sys_mkdir_def sys_mknod_def make_node_def sys_chdir_def sys_exec_def sys_fstat_def sys_getpid_def sys_sbrk_def
    sys_uptime_def sys_getclk_def Let_def value_of_def end_with_def
  by (rule spares_tabs; intro keeps_rules; simp add: pview_def)+

lemma transfers_spare: "spares p (fileread f addr n i)" "spares p (filewrite f addr n i)"
  unfolding fileread_def filewrite_def
  by (auto split: ftype.split intro!: spare_rules; rule spares_tabs; intro keeps_rules)+

lemma calls_spare [spare_rules]: "spares p (sys_read i)" "spares p (sys_write i)" "spares p sys_wait" "spares p sys_dup" "spares p sys_close" "spares p sys_pipe"
    "spares p sys_open" "spares p sys_fork" "spares p sys_exit" "spares p sys_kill" "spares p (sleep_until t n)" "spares p sys_sleep"
  unfolding sys_read_def sys_write_def sys_wait_def sys_dup_def sys_close_def sys_pipe_def sys_open_def sys_fork_def sys_exit_def sys_kill_def
    sys_sleep_def sleep_until_def value_of_def end_with_def Let_def
  by (intro spare_rules transfers_spare; (rule spares_tabs, intro keeps_rules)?; simp?)+

lemma syscall_end_spares: "spares p (syscall_end q r)"
  by (cases r) (auto simp: syscall_end_def intro!: spare_rules spares_tabs[OF tf_keeps(2)])

lemma syscalls_spare: "m \<in> set syscalls \<Longrightarrow> spares p m"
  by (auto simp: syscalls_def intro: spare_rules)

lemma syscall_spares [spare_rules]: "spares p syscall" "spares p (resume i)"
proof -
  have call: "spares p (bnd (syscalls ! (nat num - 1)) (syscall_end q))" if "0 < num" "num \<le> 22" for num q
    using that by (intro spares_bnd[OF syscalls_spare syscall_end_spares] nth_mem) (auto simp: length_syscalls)
  show "spares p syscall" unfolding syscall_def Let_def length_syscalls
    by (rule spares_bnd, rule spares_tabs, rule keeps_rules, rule spares_bnd, rule spares_tabs, rule keeps_rules, rule spares_if, rule call, simp, simp)
      (intro spare_rules; rule spares_tabs; intro keeps_rules)
  show "spares p (resume i)" unfolding resume_def Let_def
    by (intro spare_rules syscall_end_spares; rule spares_tabs; intro keeps_rules)
qed

interpretation irq_patient: interruptible "patient p" for p
  by unfold_locales (rule viewed_patient, rule wakeup_spares[unfolded spares_def])

lemma usertrapret_spares [spare_rules]: "spares p (usertrapret u)"
  unfolding usertrapret_def by (rule spares_tabs) (intro keeps_rules; simp)

lemma trap_end_spares [spare_rules]: "spares p die" "spares p (trap_end u d)" "spares p (call_end u r)"
proof -
  show d: "spares p die" unfolding die_def by (intro spare_rules)
  show t: "spares p (trap_end u d)" for d unfolding trap_end_def by (intro spare_rules d; rule spares_tabs; intro keeps_rules)
  show "spares p (call_end u r)" by (cases r) (auto simp: call_end_def intro!: spare_rules t)
qed

lemma devintr_spares [spare_rules]: "spares p (devintr virtio_disk_intr)"
  unfolding spares_def by (rule irq_patient.after_devintr[OF virtio_disk_intr_keeps])

lemma deliver_spares: "spares p deliver"
  unfolding spares_def by (rule irq_patient.after_deliver)

lemma traps_spare: "spares p (usertrap u virtio_disk_intr)" "spares p (kerneltrap virtio_disk_intr)" "spares p (enter u k)"
proof -
  show "spares p (usertrap u virtio_disk_intr)" unfolding usertrap_def
    by (intro spare_rules; rule spares_tabs; intro keeps_rules; simp)
  show "spares p (kerneltrap virtio_disk_intr)" unfolding kerneltrap_def
    by (intro spare_rules; rule spares_tabs; intro keeps_rules; simp)
  have "spares p (forkret u)" unfolding forkret_def by (intro spare_rules; rule spares_tabs; intro keeps_rules; simp)
  then show "spares p (enter u k)" by (cases k) (auto simp: enter_def intro!: spare_rules)
qed

section \<open>Runs\<close>

text \<open>A run, with the action and the state after it for each step; the actions that are turns of the loop of \<^verbatim>\<open>scheduler\<close>.\<close>

fun mrun :: "64 word \<Rightarrow> 'z machine \<Rightarrow> (action \<times> 'z machine) list \<Rightarrow> bool" where
  "mrun ut m [] = True"
| "mrun ut m ((a, m1) # tr) = (mstep ut a m m1 \<and> mrun ut m1 tr)"

fun turn :: "action \<Rightarrow> bool" where
  "turn Look = True"
| "turn (Switch q) = True"
| "turn a = False"

lemma leave_patient: "patient p s \<Longrightarrow> patient p (kern (leave r s m))"
  by (cases r) (auto simp: leave_def patient_def)

lemma schedule_patient: "patient p s \<Longrightarrow> schedule q s = Inr (r, s') \<Longrightarrow> q \<noteq> p \<Longrightarrow> patient p s'"
  by (auto simp: schedule_def run_simps proc_upd_def patient_def split: if_splits)

lemma mstep_patient: "mstep ut a m m' \<Longrightarrow> patient p (kern m) \<Longrightarrow> a \<noteq> Switch p \<Longrightarrow> patient p (kern m')"
proof (induction rule: mstep.induct)
  case (trap m r s1 s2)
  then show ?case using tripleD[OF traps_spare(1)[unfolded spares_def]] tripleD[OF deliver_spares[unfolded spares_def]] by (blast intro: leave_patient)
next
  case (look m s1)
  then show ?case by (auto simp: schedule_def run_simps proc_upd_def split: if_splits)
next
  case (switch m s1 r s2 s3)
  then show ?case using tripleD[OF traps_spare(3)[unfolded spares_def]] tripleD[OF deliver_spares[unfolded spares_def]]
    by (blast intro: leave_patient schedule_patient)
next
  case (irq m b s1 s2)
  then show ?case using tripleD[OF traps_spare(2)[unfolded spares_def]] tripleD[OF deliver_spares[unfolded spares_def]] by (simp, blast)
qed (simp_all add: patient_def)

lemma leave_pos [simp]: "pos (leave r s m) = pos m"
  by (cases r) (simp_all add: leave_def)

lemma mstep_pos: "mstep ut a m m' \<Longrightarrow> pos m' = (if turn a then (pos m + 1) mod NPROC else pos m)"
  by (induction rule: mstep.induct) auto

lemma schedule_False: "schedule q s = Inr (False, s') \<Longrightarrow> pstate (ptable s q) \<noteq> RUNNABLE"
  by (auto simp: schedule_def run_simps proc_upd_def)

lemma mstep_look: "mstep ut a m m' \<Longrightarrow> turn a \<Longrightarrow> patient p (kern m) \<Longrightarrow> a \<noteq> Switch p \<Longrightarrow> pos m < NPROC \<and> pos m \<noteq> p"
  by (induction rule: mstep.induct) (auto simp: patient_def dest: schedule_False)

definition ahead :: "nat \<Rightarrow> 'z machine \<Rightarrow> nat" where
  "ahead p m = (p + NPROC - pos m) mod NPROC"

lemma ahead_step: "p < NPROC \<Longrightarrow> pos m < NPROC \<Longrightarrow> pos m \<noteq> p \<Longrightarrow> pos m' = (pos m + 1) mod NPROC \<Longrightarrow> ahead p m = Suc (ahead p m')"
  unfolding ahead_def by (cases "pos m + 1 = NPROC"; cases "pos m < p") (auto simp: NPROC_def mod_if)

lemma run_reaches:
  assumes "mrun ut m tr" "patient p (kern m)" "ahead p m < length (filter turn (map fst tr))"
  shows "\<exists>us m1 vs. tr = us @ (Switch p, m1) # vs \<and> (\<forall>(a, m') \<in> set us. pstate (ptable (kern m') p) = RUNNABLE) \<and>
    length (filter turn (map fst us)) \<le> ahead p m"
  using assms
proof (induction tr arbitrary: m)
  case (Cons e tr)
  obtain a m1 where e: "e = (a, m1)" by (cases e)
  have st: "mstep ut a m m1" "mrun ut m1 tr" using Cons.prems(1) e by auto
  show ?case
  proof (cases "a = Switch p")
    case True
    then show ?thesis using e by (intro exI[of _ "[]"] exI[of _ m1] exI[of _ tr]) simp
  next
    case False
    have p1: "patient p (kern m1)" by (rule mstep_patient[OF st(1) Cons.prems(2) False])
    have le: "ahead p m = (if turn a then Suc (ahead p m1) else ahead p m1)"
    proof (cases "turn a")
      case True
      then show ?thesis using mstep_look[OF st(1) True Cons.prems(2) False] mstep_pos[OF st(1)] Cons.prems(2) by (simp add: ahead_step patient_def)
    next
      case False
      then show ?thesis using mstep_pos[OF st(1)] by (simp add: ahead_def)
    qed
    then have "ahead p m1 < length (filter turn (map fst tr))" using Cons.prems(3) e by (simp split: if_splits)
    from Cons.IH[OF st(2) p1 this] obtain us m2 vs where "tr = us @ (Switch p, m2) # vs"
      "\<forall>(a, m') \<in> set us. pstate (ptable (kern m') p) = RUNNABLE" "length (filter turn (map fst us)) \<le> ahead p m1" by blast
    then show ?thesis using e le p1 by (intro exI[of _ "(a, m1) # us"] exI[of _ m2] exI[of _ vs]) (auto simp: patient_def)
  qed
qed simp

text \<open>
  C5. The scheduler lets no ready process starve. In every run from a state in which process \<open>p\<close> is ready - whatever the other
  processes, the devices and the interrupts do - \<open>p\<close> stays ready until the scheduler switches to it, and the scheduler does
  so once it has made more turns of its loop than there are entries from its position to \<open>p\<close>, hence at the latest
  with its turn number \<^verbatim>\<open>NPROC\<close>.
\<close>

theorem scheduler_reaches_ready:
  assumes "mrun ut m tr" "p < NPROC" "pstate (ptable (kern m) p) = RUNNABLE" "curp (kern m) \<noteq> p"
    "(p + NPROC - pos m) mod NPROC < length (filter turn (map fst tr))"
  shows "\<exists>us m1 vs. tr = us @ (Switch p, m1) # vs \<and> (\<forall>(a, m') \<in> set us. pstate (ptable (kern m') p) = RUNNABLE) \<and>
    length (filter turn (map fst us)) < NPROC"
proof -
  have "(p + NPROC - pos m) mod NPROC < NPROC" by (simp add: NPROC_def)
  then show ?thesis using run_reaches[OF assms(1), of p] assms(2-5) unfolding ahead_def patient_def by (meson le_less_trans)
qed

definition ready_ram :: vdisk where
  "ready_ram = boot_ram\<lparr>ptable := (\<lambda>_. blank_proc)(0 := blank_proc\<lparr>pstate := RUNNABLE, ppid := 1\<rparr>), first_run := False\<rparr>"

lemma ready_run:
  obtains m1 m2 where "mrun 0 \<lparr>kern = ready_ram, conts = (\<lambda>_. AtForkret), pos = 63\<rparr> [(Look, m1), (Switch 0, m2)]"
proof -
  let ?m = "\<lparr>kern = ready_ram, conts = (\<lambda>_. AtForkret), pos = 63\<rparr>"
  have f: "curp ready_ram = NPROC" "ptable ready_ram = (\<lambda>_. blank_proc)(0 := blank_proc\<lparr>pstate := RUNNABLE, ppid := 1\<rparr>)" "first_run ready_ram = False"
      "wakes ready_ram = []" "chan_wakes ready_ram = []"
    by (simp_all add: ready_ram_def boot_ram_fields)
      (simp_all add: boot_ram_def vd_boot_def kst_boot_def log_boot_def boot_def blank_tty_def kst.extend_def vdisk.fields_def logd.extend_def kst.fields_def
        blkd.extend_def logd.fields_def ttyd.extend_def blkd.fields_def)
  have "schedule (pos ?m) (kern ?m) = Inr (False, ready_ram)" by (simp add: schedule_def run_simps f blank_proc_def)
  then have 1: "mstep 0 Look ?m (?m\<lparr>kern := ready_ram, pos := (pos ?m + 1) mod NPROC\<rparr>)"
    by (intro mstep.look) (simp_all add: f NPROC_def)
  let ?m1 = "?m\<lparr>kern := ready_ram, pos := (pos ?m + 1) mod NPROC\<rparr>"
  have p: "pos ?m1 = 0" by (simp add: NPROC_def)
  obtain s1 where s1: "schedule 0 ready_ram = Inr (True, s1)" "first_run s1 = False" "wakes s1 = []" "chan_wakes s1 = []"
    by (simp add: schedule_def run_simps f proc_upd_def)
  obtain r s2 where s2: "enter 0 AtForkret s1 = Inr (r, s2)" "wakes s2 = []" "chan_wakes s2 = []"
    using s1(2-4) by (simp add: enter_def forkret_def usertrapret_def bnd_def sq_def gets_run upd_run ret_run myproc_def tf_put_def tf_get_def mem_upd_def
        curproc_def sie_off_def)
  obtain s3 where s3: "deliver s2 = Inr ((), s3)" using s2(2,3) by (simp add: deliver_def run_simps)
  have "mstep 0 (Switch (pos ?m1)) ?m1 (leave r s3 (?m1\<lparr>pos := (pos ?m1 + 1) mod NPROC\<rparr>))"
    by (rule mstep.switch[OF _ _ _ _ s3, of _ s1]) (use s1(1) s2(1) in \<open>simp_all add: f NPROC_def\<close>)
  then show thesis using that 1 unfolding p by fastforce
qed

theorem scheduler_reaches_ready_witness:
  "\<exists>m1 m2 us n vs. mrun 0 \<lparr>kern = ready_ram, conts = (\<lambda>_. AtForkret), pos = 63\<rparr> [(Look, m1), (Switch 0, m2)] \<and>
     [(Look, m1), (Switch 0, m2)] = us @ (Switch 0, n) # vs"
proof (rule ready_run)
  fix m1 m2 assume r: "mrun 0 \<lparr>kern = ready_ram, conts = (\<lambda>_. AtForkret), pos = 63\<rparr> [(Look, m1), (Switch 0, m2)]"
  have "curp ready_ram = NPROC" "pstate (ptable ready_ram 0) = RUNNABLE" by (simp_all add: ready_ram_def boot_ram_fields)
  then have "\<exists>us n vs. [(Look, m1), (Switch 0, m2)] = us @ (Switch 0, n) # vs" using scheduler_reaches_ready[OF r, of 0] by (auto simp: NPROC_def)
  then show ?thesis using r by blast
qed

end
