(* ===== verification/Sh.thy ===== *)
theory Sh
  imports Sysfile
begin

text \<open>
  The parser of the shell, \<^verbatim>\<open>user/sh.c\<close>. The line is the list of bytes before its NUL, pointers into it are
  positions, and the pointer \<^verbatim>\<open>ps\<close> that the functions advance is the state. The nodes of the command tree hold positions;
  \<^verbatim>\<open>parseexec\<close> goes on filling the node of the program when it is already below redirections, which \<open>put_arg\<close> does.
  The recursion of the parser has a fuel that is linear in the length of the line and always enough. \<^verbatim>\<open>malloc\<close> is
  taken to succeed.
\<close>

section \<open>Tokens\<close>

definition whitespace :: "byte list" where "whitespace = [32, 9, 13, 10, 11]"
definition symbols :: "byte list" where "symbols = [60, 124, 62, 38, 59, 40, 41]"

definition byte_at :: "byte list \<Rightarrow> nat \<Rightarrow> byte" where
  "byte_at buf s = (if s < length buf then buf ! s else 0)"

type_synonym 'a parser = "(nat, kerr, 'a) comp"

function skip_ws :: "byte list \<Rightarrow> nat \<Rightarrow> nat" where
  "skip_ws buf s = (if s < length buf \<and> byte_at buf s \<in> set whitespace then skip_ws buf (s + 1) else s)"
  by auto

termination
  by (relation "measure (\<lambda>(buf, s). length buf - s)") auto

function word_end :: "byte list \<Rightarrow> nat \<Rightarrow> nat" where
  "word_end buf s = (if s < length buf \<and> byte_at buf s \<notin> set whitespace \<and> byte_at buf s \<notin> set symbols then word_end buf (s + 1) else s)"
  by auto

termination
  by (relation "measure (\<lambda>(buf, s). length buf - s)") auto

declare skip_ws.simps [simp del] word_end.simps [simp del]

text \<open>\<^verbatim>\<open>gettoken\<close> with the code of the token and its two ends; \<^verbatim>\<open>'+'\<close> (43) stands for \<^verbatim>\<open>>>\<close> and \<^verbatim>\<open>'a'\<close> (97) for a word.\<close>

definition gettoken :: "byte list \<Rightarrow> (byte \<times> nat \<times> nat) parser" where
  "gettoken buf ps = (let s = skip_ws buf ps; c = byte_at buf s;
     (tok, e) = (if c = 0 then (0, s)
       else if c \<in> {124, 40, 41, 59, 38, 60} then (c, s + 1)
       else if c = 62 then (if byte_at buf (s + 1) = 62 then (43, s + 2) else (62, s + 1))
       else (97, word_end buf s))
     in Inr ((tok, s, e), skip_ws buf e))"

definition peek :: "byte list \<Rightarrow> byte list \<Rightarrow> bool parser" where
  "peek buf toks ps = (let s = skip_ws buf ps in Inr (byte_at buf s \<noteq> 0 \<and> byte_at buf s \<in> set toks, s))"

section \<open>Commands\<close>

datatype cmd =
    EXEC "(nat \<times> nat) list"
  | REDIR cmd nat nat "32 word" nat
  | PIPE cmd cmd
  | LIST cmd cmd
  | BACK cmd

definition MAXARGS :: nat where "MAXARGS = 10"

text \<open>The node of the program at the bottom of the redirections gets one more argument.\<close>

primrec put_arg :: "cmd \<Rightarrow> nat \<times> nat \<Rightarrow> cmd" where
  "put_arg (EXEC args) a = EXEC (args @ [a])"
| "put_arg (REDIR c q eq mode fd) a = REDIR (put_arg c a) q eq mode fd"
| "put_arg (PIPE l r) a = PIPE l r"
| "put_arg (LIST l r) a = LIST l r"
| "put_arg (BACK c) a = BACK c"

definition redir :: "byte \<Rightarrow> cmd \<Rightarrow> nat \<Rightarrow> nat \<Rightarrow> cmd" where
  "redir tok cmd q eq =
     (if tok = 60 then REDIR cmd q eq O_RDONLY 0
      else if tok = 62 then REDIR cmd q eq (O_WRONLY OR O_CREATE OR O_TRUNC) 1
      else if tok = 43 then REDIR cmd q eq (O_WRONLY OR O_CREATE) 1
      else cmd)"

lemma skip_ws_bounds: "s \<le> length buf \<Longrightarrow> s \<le> skip_ws buf s \<and> skip_ws buf s \<le> length buf"
  by (induction buf s rule: skip_ws.induct) (subst (1 2) skip_ws.simps, auto)

lemma skip_ws_ge: "s \<le> skip_ws buf s"
  by (induction buf s rule: skip_ws.induct) (subst skip_ws.simps, auto)

lemma word_end_bounds: "s \<le> length buf \<Longrightarrow> s \<le> word_end buf s \<and> word_end buf s \<le> length buf"
  by (induction buf s rule: word_end.induct) (subst (1 2) word_end.simps, auto)

lemma byte_at_less: "byte_at buf s \<noteq> 0 \<Longrightarrow> s < length buf"
  by (simp add: byte_at_def split: if_splits)

lemma skip_ws_stop: "byte_at buf (skip_ws buf s) \<notin> set whitespace"
proof (induction buf s rule: skip_ws.induct)
  case (1 buf s)
  then show ?case by (subst skip_ws.simps) (auto simp: byte_at_def whitespace_def)
qed

lemma word_end_more: "byte_at buf s \<noteq> 0 \<Longrightarrow> byte_at buf s \<notin> set whitespace \<Longrightarrow> byte_at buf s \<notin> set symbols \<Longrightarrow> s < word_end buf s"
  by (subst word_end.simps) (use word_end_bounds[of "s + 1" buf] byte_at_less[of buf s] in auto)

lemma gettoken_progress:
  assumes "gettoken buf ps = Inr ((tok, q, e), ps')"
  shows "ps \<le> q \<and> q \<le> e \<and> e \<le> ps' \<and> (tok \<noteq> 0 \<longrightarrow> q < e) \<and> (ps \<le> length buf \<longrightarrow> ps' \<le> length buf)"
proof -
  let ?s = "skip_ws buf ps" let ?c = "byte_at buf ?s"
  have p: "ps' = skip_ws buf e" "q = ?s" using assms by (auto simp: gettoken_def Let_def split: if_splits)
  consider "tok = 0" "e = ?s" | "?c \<noteq> 0" "tok \<noteq> 0" "e = ?s + 1" | "?c \<noteq> 0" "byte_at buf (?s + 1) \<noteq> 0" "tok \<noteq> 0" "e = ?s + 2"
    | "tok \<noteq> 0" "?c \<noteq> 0" "e = word_end buf ?s" "?c \<notin> set symbols"
    using assms by (auto simp: gettoken_def Let_def symbols_def split: if_splits)
  then have "q \<le> e \<and> (tok \<noteq> 0 \<longrightarrow> q < e) \<and> (ps \<le> length buf \<longrightarrow> e \<le> length buf)"
  proof cases
    case 4
    then show ?thesis using word_end_more[of buf ?s] skip_ws_stop[of buf ps] p(2) word_end_bounds[of ?s buf] byte_at_less[of buf ?s] by auto
  qed (use p(2) skip_ws_bounds[of ps buf] byte_at_less[of buf ?s] byte_at_less[of buf "?s + 1"] in auto)
  then show ?thesis using p skip_ws_ge[of ps buf] skip_ws_ge[of e buf] skip_ws_bounds[of e buf] by auto
qed

lemma peek_progress: "peek buf toks ps = Inr (b, ps') \<Longrightarrow> ps \<le> ps' \<and> (ps \<le> length buf \<longrightarrow> ps' \<le> length buf) \<and> (b \<longrightarrow> ps' < length buf \<and> byte_at buf ps' \<in> set toks)"
  using skip_ws_ge[of ps buf] skip_ws_bounds[of ps buf] byte_at_less[of buf "skip_ws buf ps"] by (auto simp: peek_def Let_def)

lemma skip_ws_idem: "skip_ws buf (skip_ws buf s) = skip_ws buf s"
  by (subst skip_ws.simps) (simp add: skip_ws_stop)

lemma gettoken_peeked: "peek buf toks ps = Inr (True, s1) \<Longrightarrow> gettoken buf s1 = Inr ((tok, q, e), s2) \<Longrightarrow> tok \<noteq> 0"
  by (auto simp: peek_def gettoken_def Let_def skip_ws_idem split: if_splits)

lemma gettoken_total: obtains tok q e s' where "gettoken buf s = Inr ((tok, q, e), s')"
proof -
  have "\<exists>x. gettoken buf s = Inr x" by (simp add: gettoken_def Let_def case_prod_beta)
  then show thesis using that by auto
qed

lemma peek_total: obtains b s' where "peek buf toks s = Inr (b, s')"
  by (simp add: peek_def Let_def)

text \<open>The loops over redirections, arguments and ampersands.\<close>

function parseredirs :: "byte list \<Rightarrow> cmd \<Rightarrow> cmd parser" where
  "parseredirs buf cmd ps = (case peek buf [60, 62] ps of Inl e \<Rightarrow> Inl e | Inr (b, s1) \<Rightarrow>
     if \<not> b then Inr (cmd, s1) else
     case gettoken buf s1 of Inl e \<Rightarrow> Inl e | Inr ((tok, _, _), s2) \<Rightarrow>
     case gettoken buf s2 of Inl e \<Rightarrow> Inl e | Inr ((tok2, q, eq), s3) \<Rightarrow>
     if tok2 \<noteq> 97 then Inl (Panic ''missing file for redirection'') else parseredirs buf (redir tok cmd q eq) s3)"
  by auto

termination
proof (relation "measure (\<lambda>(buf, cmd, ps). length buf - ps)")
  fix buf cmd ps y b s1 z u v w tok x2 x3 s2 y2 tok2 x4 q eq s3
  assume h: "peek buf [60, 62] ps = Inr y" "(b, s1) = y" "\<not> \<not> b" "gettoken buf s1 = Inr z" "(u, s2) = z" "(tok, v) = u" "(x2, x3) = v"
    "gettoken buf s2 = Inr y2" "(w, s3) = y2" "(tok2, x4) = w" "(q, eq) = x4"
  have p: "ps \<le> s1" "s1 < length buf" using peek_progress[of buf "[60, 62]" ps b s1] h(1-3) by auto
  have g: "gettoken buf s1 = Inr ((tok, x2, x3), s2)" "gettoken buf s2 = Inr ((tok2, q, eq), s3)" "peek buf [60, 62] ps = Inr (True, s1)" using h by auto
  have "tok \<noteq> 0" by (rule gettoken_peeked[OF g(3,1)])
  then have "s1 < s2" "s2 \<le> s3" using gettoken_progress[OF g(1)] gettoken_progress[OF g(2)] by auto
  then show "((buf, redir tok cmd q eq, s3), (buf, cmd, ps)) \<in> measure (\<lambda>(buf, cmd, ps). length buf - ps)" using p by auto
qed simp

declare parseredirs.simps [simp del]

lemma parseredirs_progress: "parseredirs buf cmd ps = Inr (c, ps') \<Longrightarrow> ps \<le> ps' \<and> (ps \<le> length buf \<longrightarrow> ps' \<le> length buf)"
proof (induction buf cmd ps rule: parseredirs.induct)
  case (1 buf cmd ps)
  obtain b s1 where b: "peek buf [60, 62] ps = Inr (b, s1)" by (rule peek_total)
  note p = peek_progress[OF b]
  show ?case
  proof (cases b)
    case False
    then show ?thesis using "1.prems" b p by (subst (asm) parseredirs.simps) auto
  next
    case True
    obtain tok x2 x3 s2 where t: "gettoken buf s1 = Inr ((tok, x2, x3), s2)" by (rule gettoken_total)
    obtain tok2 q eq s3 where u: "gettoken buf s2 = Inr ((tok2, q, eq), s3)" by (rule gettoken_total)
    have "tok2 = 97" "parseredirs buf (redir tok cmd q eq) s3 = Inr (c, ps')"
      using "1.prems" b t u True by (subst (asm) parseredirs.simps, auto split: if_splits)+
    then have "s3 \<le> ps' \<and> (s3 \<le> length buf \<longrightarrow> ps' \<le> length buf)" using "1.IH" b t u True by auto
    then show ?thesis using p gettoken_progress[OF t] gettoken_progress[OF u] by auto
  qed
qed

function parseargs :: "byte list \<Rightarrow> cmd \<Rightarrow> nat \<Rightarrow> cmd parser" where
  "parseargs buf cmd argc ps = (case peek buf [124, 41, 38, 59] ps of Inl e \<Rightarrow> Inl e | Inr (b, s1) \<Rightarrow>
     if b then Inr (cmd, s1) else
     case gettoken buf s1 of Inl e \<Rightarrow> Inl e | Inr ((tok, q, eq), s2) \<Rightarrow>
     if tok = 0 then Inr (cmd, s2)
     else if tok \<noteq> 97 then Inl (Panic ''syntax'')
     else if argc + 1 \<ge> MAXARGS then Inl (Panic ''too many args'') else
     case parseredirs buf (put_arg cmd (q, eq)) s2 of Inl e \<Rightarrow> Inl e | Inr (cmd', s3) \<Rightarrow>
     parseargs buf cmd' (argc + 1) s3)"
  by auto

termination
proof (relation "measure (\<lambda>(buf, cmd, argc, ps). MAXARGS - argc)")
qed auto

function back_loop :: "byte list \<Rightarrow> cmd \<Rightarrow> cmd parser" where
  "back_loop buf cmd ps = (case peek buf [38] ps of Inl e \<Rightarrow> Inl e | Inr (b, s1) \<Rightarrow>
     if \<not> b then Inr (cmd, s1) else
     case gettoken buf s1 of Inl e \<Rightarrow> Inl e | Inr (t, s2) \<Rightarrow> back_loop buf (BACK cmd) s2)"
  by auto

termination
proof (relation "measure (\<lambda>(buf, cmd, ps). length buf - ps)")
  fix buf cmd ps y b s1 z t s2
  assume h: "peek buf [38] ps = Inr y" "(b, s1) = y" "\<not> \<not> b" "gettoken buf s1 = Inr z" "(t, s2) = z"
  obtain tok q e where t: "t = (tok, q, e)" by (cases t)
  have g: "peek buf [38] ps = Inr (True, s1)" "gettoken buf s1 = Inr ((tok, q, e), s2)" using h t by auto
  have "s1 < s2" using gettoken_progress[OF g(2)] gettoken_peeked[OF g] by auto
  then show "((buf, BACK cmd, s2), (buf, cmd, ps)) \<in> measure (\<lambda>(buf, cmd, ps). length buf - ps)" using peek_progress[OF g(1)] by auto
qed simp

declare parseargs.simps [simp del] back_loop.simps [simp del]

section \<open>The grammar\<close>

fun parseline :: "byte list \<Rightarrow> nat \<Rightarrow> cmd parser"
  and parsepipe :: "byte list \<Rightarrow> nat \<Rightarrow> cmd parser"
  and parseexec :: "byte list \<Rightarrow> nat \<Rightarrow> cmd parser"
  and parseblock :: "byte list \<Rightarrow> nat \<Rightarrow> cmd parser" where
  "parseline buf 0 = fail NoFuel"
| "parseline buf (Suc n) = bnd (parsepipe buf n) (\<lambda>cmd. bnd (back_loop buf cmd) (\<lambda>cmd.
     bnd (peek buf [59]) (\<lambda>b. if b then bnd (gettoken buf) (\<lambda>_. bnd (parseline buf n) (\<lambda>r. ret (LIST cmd r))) else ret cmd)))"
| "parsepipe buf 0 = fail NoFuel"
| "parsepipe buf (Suc n) = bnd (parseexec buf n) (\<lambda>cmd.
     bnd (peek buf [124]) (\<lambda>b. if b then bnd (gettoken buf) (\<lambda>_. bnd (parsepipe buf n) (\<lambda>r. ret (PIPE cmd r))) else ret cmd))"
| "parseexec buf 0 = fail NoFuel"
| "parseexec buf (Suc n) = bnd (peek buf [40]) (\<lambda>b. if b then parseblock buf n else
     bnd (parseredirs buf (EXEC [])) (\<lambda>cmd. parseargs buf cmd 0))"
| "parseblock buf 0 = fail NoFuel"
| "parseblock buf (Suc n) = bnd (peek buf [40]) (\<lambda>b. if \<not> b then panic ''parseblock'' else
     bnd (gettoken buf) (\<lambda>_. bnd (parseline buf n) (\<lambda>cmd.
     bnd (peek buf [41]) (\<lambda>b. if \<not> b then panic ''syntax - missing )'' else
     bnd (gettoken buf) (\<lambda>_. parseredirs buf cmd)))))"

text \<open>\<^verbatim>\<open>nulterminate\<close> on the line with its NUL.\<close>

primrec nulterminate :: "cmd \<Rightarrow> byte list \<Rightarrow> byte list" where
  "nulterminate (EXEC args) m = foldl (\<lambda>m a. m[snd a := 0]) m args"
| "nulterminate (REDIR c q eq mode fd) m = (nulterminate c m)[eq := 0]"
| "nulterminate (PIPE l r) m = nulterminate r (nulterminate l m)"
| "nulterminate (LIST l r) m = nulterminate r (nulterminate l m)"
| "nulterminate (BACK c) m = nulterminate c m"

definition parsecmd :: "byte list \<Rightarrow> kerr + cmd \<times> byte list" where
  "parsecmd buf = (case bnd (parseline buf (4 * length buf + 4)) (\<lambda>cmd. bnd (peek buf []) (\<lambda>_. ret cmd)) 0 of
     Inl e \<Rightarrow> Inl e
   | Inr (cmd, s) \<Rightarrow> if s \<noteq> length buf then Inl (Panic ''syntax'') else Inr (cmd, nulterminate cmd (buf @ [0])))"

section \<open>The parser is total\<close>

definition word_ok :: "byte list \<Rightarrow> nat \<times> nat \<Rightarrow> bool" where
  "word_ok buf = (\<lambda>(q, e). q < e \<and> e \<le> length buf \<and> (\<forall>i. q \<le> i \<and> i < e \<longrightarrow> buf ! i \<notin> set whitespace \<and> buf ! i \<notin> set symbols) \<and>
     (e < length buf \<longrightarrow> buf ! e \<in> set whitespace \<or> buf ! e \<in> set symbols))"

primrec cmd_ok :: "byte list \<Rightarrow> cmd \<Rightarrow> bool" where
  "cmd_ok buf (EXEC args) \<longleftrightarrow> length args < MAXARGS \<and> (\<forall>a\<in>set args. word_ok buf a)"
| "cmd_ok buf (REDIR c q e mode fd) \<longleftrightarrow> cmd_ok buf c \<and> word_ok buf (q, e) \<and>
     (mode, fd) \<in> {(O_RDONLY, 0), (O_WRONLY OR O_CREATE OR O_TRUNC, 1), (O_WRONLY OR O_CREATE, 1)}"
| "cmd_ok buf (PIPE l r) \<longleftrightarrow> cmd_ok buf l \<and> cmd_ok buf r"
| "cmd_ok buf (LIST l r) \<longleftrightarrow> cmd_ok buf l \<and> cmd_ok buf r"
| "cmd_ok buf (BACK c) \<longleftrightarrow> cmd_ok buf c"

primrec nargs :: "cmd \<Rightarrow> nat" where
  "nargs (EXEC args) = length args"
| "nargs (REDIR c q e mode fd) = nargs c"
| "nargs (PIPE l r) = 0"
| "nargs (LIST l r) = 0"
| "nargs (BACK c) = 0"

definition syntax_errors :: "kerr set" where
  "syntax_errors = {Panic ''syntax'', Panic ''missing file for redirection'', Panic ''too many args'', Panic ''syntax - missing )''}"

definition parsed :: "byte list \<Rightarrow> nat \<Rightarrow> kerr + cmd \<times> nat \<Rightarrow> bool" where
  "parsed buf s r \<longleftrightarrow> (case r of Inl e \<Rightarrow> e \<in> syntax_errors | Inr (c, s') \<Rightarrow> cmd_ok buf c \<and> s \<le> s' \<and> s' \<le> length buf)"

lemma skip_ws_eq: "s \<le> length buf \<Longrightarrow> skip_ws buf s = s + length (takeWhile (\<lambda>c. c \<in> set whitespace) (drop s buf))"
proof (induction buf s rule: skip_ws.induct)
  case (1 buf s)
  show ?case
  proof (cases "s < length buf")
    case True
    then show ?thesis using "1.IH" by (subst skip_ws.simps) (auto simp: byte_at_def Cons_nth_drop_Suc[symmetric])
  next
    case False
    then show ?thesis by (subst skip_ws.simps) auto
  qed
qed

lemma word_end_eq: "s \<le> length buf \<Longrightarrow> word_end buf s = s + length (takeWhile (\<lambda>c. c \<notin> set whitespace \<and> c \<notin> set symbols) (drop s buf))"
proof (induction buf s rule: word_end.induct)
  case (1 buf s)
  show ?case
  proof (cases "s < length buf")
    case True
    then show ?thesis using "1.IH" by (subst word_end.simps) (auto simp: byte_at_def Cons_nth_drop_Suc[symmetric])
  next
    case False
    then show ?thesis by (subst word_end.simps) auto
  qed
qed

lemma word_end_chars: "s \<le> length buf \<Longrightarrow> s \<le> i \<Longrightarrow> i < word_end buf s \<Longrightarrow> buf ! i \<notin> set whitespace \<and> buf ! i \<notin> set symbols"
proof -
  let ?P = "\<lambda>c. c \<notin> set whitespace \<and> c \<notin> set symbols"
  assume h: "s \<le> length buf" "s \<le> i" "i < word_end buf s"
  then have "i - s < length (takeWhile ?P (drop s buf))" by (simp add: word_end_eq)
  from nth_mem[OF this] takeWhile_nth[OF this] have "drop s buf ! (i - s) \<in> set (takeWhile ?P (drop s buf))" by simp
  then have "?P (drop s buf ! (i - s))" by (blast dest: set_takeWhileD)
  then show ?thesis using h by simp
qed

lemma word_end_stop: "s \<le> length buf \<Longrightarrow> word_end buf s < length buf \<Longrightarrow> buf ! word_end buf s \<in> set whitespace \<or> buf ! word_end buf s \<in> set symbols"
proof -
  let ?P = "\<lambda>c. c \<notin> set whitespace \<and> c \<notin> set symbols"
  assume h: "s \<le> length buf" "word_end buf s < length buf"
  then have "length (takeWhile ?P (drop s buf)) < length (drop s buf)" by (simp add: word_end_eq)
  from nth_length_takeWhile[OF this] show ?thesis using h by (simp add: word_end_eq)
qed

lemma gettoken_word:
  assumes "gettoken buf ps = Inr ((97, q, e), ps')" "ps \<le> length buf"
  shows "word_ok buf (q, e)"
proof -
  let ?s = "skip_ws buf ps" let ?c = "byte_at buf ?s"
  have p: "q = ?s" "e = word_end buf ?s" "?c \<noteq> 0" "?c \<notin> set symbols"
    using assms(1) by (auto simp: gettoken_def Let_def symbols_def split: if_splits)
  have l: "?s < length buf" by (rule byte_at_less[OF p(3)])
  have b: "q < e" "e \<le> length buf" using word_end_more[of buf ?s] skip_ws_stop[of buf ps] word_end_bounds[of ?s buf] p l by auto
  have "buf ! i \<notin> set whitespace \<and> buf ! i \<notin> set symbols" if "q \<le> i" "i < e" for i
    using word_end_chars[of ?s buf i] that p l by simp
  moreover have "buf ! e \<in> set whitespace \<or> buf ! e \<in> set symbols" if "e < length buf"
    using word_end_stop[of ?s buf] that p l by simp
  ultimately show ?thesis using b by (simp add: word_ok_def)
qed

lemma put_arg_ok: "cmd_ok buf c \<Longrightarrow> nargs c + 1 < MAXARGS \<Longrightarrow> word_ok buf a \<Longrightarrow> cmd_ok buf (put_arg c a) \<and> nargs (put_arg c a) \<le> nargs c + 1"
  by (induction c) auto

lemma redir_ok: "cmd_ok buf c \<Longrightarrow> word_ok buf (q, e) \<Longrightarrow> cmd_ok buf (redir tok c q e) \<and> nargs (redir tok c q e) = nargs c"
  by (auto simp: redir_def)

lemma parseredirs_ok:
  "cmd_ok buf cmd \<Longrightarrow> ps \<le> length buf \<Longrightarrow> (case parseredirs buf cmd ps of Inl e \<Rightarrow> e \<in> syntax_errors
     | Inr (c, s') \<Rightarrow> cmd_ok buf c \<and> nargs c = nargs cmd \<and> ps \<le> s' \<and> s' \<le> length buf)"
proof (induction buf cmd ps rule: parseredirs.induct)
  case (1 buf cmd ps)
  obtain b s1 where b: "peek buf [60, 62] ps = Inr (b, s1)" by (rule peek_total)
  obtain tok x2 x3 s2 where t: "gettoken buf s1 = Inr ((tok, x2, x3), s2)" by (rule gettoken_total)
  obtain tok2 q eq s3 where u: "gettoken buf s2 = Inr ((tok2, q, eq), s3)" by (rule gettoken_total)
  note p = peek_progress[OF b] gettoken_progress[OF t] gettoken_progress[OF u]
  show ?case
  proof (cases "b \<and> tok2 = 97")
    case True
    have l: "s2 \<le> length buf" "s3 \<le> length buf" using p "1.prems"(2) by auto
    have "word_ok buf (q, eq)" by (rule gettoken_word) (use u True l in auto)
    then have r: "cmd_ok buf (redir tok cmd q eq)" "nargs (redir tok cmd q eq) = nargs cmd" using redir_ok "1.prems"(1) by auto
    have "parseredirs buf cmd ps = parseredirs buf (redir tok cmd q eq) s3" using b t u True by (subst parseredirs.simps) simp
    moreover have "case parseredirs buf (redir tok cmd q eq) s3 of Inl e \<Rightarrow> e \<in> syntax_errors
     | Inr (c, s') \<Rightarrow> cmd_ok buf c \<and> nargs c = nargs (redir tok cmd q eq) \<and> s3 \<le> s' \<and> s' \<le> length buf"
      by (rule "1.IH"[OF b refl _ t refl refl refl u refl refl refl]) (use True r l in auto)
    ultimately show ?thesis using p r(2) "1.prems"(2) by (auto split: sum.splits)
  next
    case False
    then show ?thesis using b t u p "1.prems" by (subst parseredirs.simps) (auto simp: syntax_errors_def)
  qed
qed

lemma parseargs_ok: "cmd_ok buf cmd \<Longrightarrow> nargs cmd \<le> argc \<Longrightarrow> ps \<le> length buf \<Longrightarrow> parsed buf ps (parseargs buf cmd argc ps)"
proof (induction buf cmd argc ps rule: parseargs.induct)
  case (1 buf cmd argc ps)
  obtain b s1 where b: "peek buf [124, 41, 38, 59] ps = Inr (b, s1)" by (rule peek_total)
  obtain tok q eq s2 where t: "gettoken buf s1 = Inr ((tok, q, eq), s2)" by (rule gettoken_total)
  note p = peek_progress[OF b] gettoken_progress[OF t]
  have l: "s1 \<le> length buf" "s2 \<le> length buf" "ps \<le> s2" using p "1.prems"(3) by auto
  show ?case
  proof (cases "\<not> b \<and> tok = 97 \<and> argc + 1 < MAXARGS")
    case True
    then have m: "\<not> b" "tok = 97" "argc + 1 < MAXARGS" by auto
    have "word_ok buf (q, eq)" by (rule gettoken_word) (use t m l in auto)
    then have c: "cmd_ok buf (put_arg cmd (q, eq))" "nargs (put_arg cmd (q, eq)) \<le> argc + 1" using put_arg_ok[of buf cmd "(q, eq)"] "1.prems"(1,2) m(3) by auto
    show ?thesis
    proof (cases "parseredirs buf (put_arg cmd (q, eq)) s2")
      case (Inl e)
      then show ?thesis using parseredirs_ok[OF c(1) l(2)] b t m by (subst parseargs.simps) (simp add: parsed_def)
    next
      case (Inr y)
      obtain cmd' s3 where y: "y = (cmd', s3)" by (cases y)
      have r: "cmd_ok buf cmd'" "nargs cmd' \<le> argc + 1" "s2 \<le> s3" "s3 \<le> length buf" using parseredirs_ok[OF c(1) l(2)] c(2) Inr y by auto
      have "parsed buf s3 (parseargs buf cmd' (argc + 1) s3)"
        by (rule "1.IH"[OF b refl _ t refl refl refl]) (use m r Inr y in auto)
      moreover have "parseargs buf cmd argc ps = parseargs buf cmd' (argc + 1) s3" using b t m Inr y by (subst parseargs.simps) simp
      ultimately show ?thesis using r(3) l(3) by (auto simp: parsed_def split: sum.splits)
    qed
  next
    case False
    then show ?thesis using b t p "1.prems" by (subst parseargs.simps) (auto simp: parsed_def syntax_errors_def)
  qed
qed

lemma back_loop_ok: "cmd_ok buf cmd \<Longrightarrow> ps \<le> length buf \<Longrightarrow> parsed buf ps (back_loop buf cmd ps)"
proof (induction buf cmd ps rule: back_loop.induct)
  case (1 buf cmd ps)
  obtain b s1 where b: "peek buf [38] ps = Inr (b, s1)" by (rule peek_total)
  obtain tok q eq s2 where t: "gettoken buf s1 = Inr ((tok, q, eq), s2)" by (rule gettoken_total)
  note p = peek_progress[OF b] gettoken_progress[OF t]
  show ?case
  proof (cases b)
    case True
    have "parsed buf s2 (back_loop buf (BACK cmd) s2)" by (rule "1.IH"[OF b refl _ t refl]) (use True p "1.prems" in auto)
    moreover have "back_loop buf cmd ps = back_loop buf (BACK cmd) s2" using b t True by (subst back_loop.simps) simp
    ultimately show ?thesis using p by (auto simp: parsed_def split: sum.splits)
  next
    case False
    then show ?thesis using b p "1.prems" by (subst back_loop.simps) (auto simp: parsed_def)
  qed
qed

lemma parsed_bnd:
  "parsed buf s (m s) \<Longrightarrow> (\<And>c s'. cmd_ok buf c \<Longrightarrow> s \<le> s' \<Longrightarrow> s' \<le> length buf \<Longrightarrow> parsed buf s' (k c s')) \<Longrightarrow> parsed buf s (bnd m k s)"
proof (cases "m s")
  case (Inl e)
  assume "parsed buf s (m s)"
  then show ?thesis using Inl by (simp add: parsed_def bnd_def)
next
  case (Inr y)
  obtain c s' where y: "y = (c, s')" by (cases y)
  assume h: "parsed buf s (m s)" "\<And>c s'. cmd_ok buf c \<Longrightarrow> s \<le> s' \<Longrightarrow> s' \<le> length buf \<Longrightarrow> parsed buf s' (k c s')"
  have c: "cmd_ok buf c" "s \<le> s'" "s' \<le> length buf" using h(1) Inr y by (auto simp: parsed_def)
  then have "parsed buf s (k c s')" using h(2)[OF c] by (auto simp: parsed_def split: sum.splits)
  then show ?thesis using Inr y by (simp add: bnd_def)
qed

lemma parsed_peek:
  assumes "s \<le> length buf" "\<And>s'. s \<le> s' \<Longrightarrow> s' \<le> length buf \<Longrightarrow> parsed buf s' (k False s')"
    and "\<And>s' tok q e s''. s \<le> s' \<Longrightarrow> s' < s'' \<Longrightarrow> s'' \<le> length buf \<Longrightarrow> peek buf toks s' = Inr (True, s') \<Longrightarrow>
       gettoken buf s' = Inr ((tok, q, e), s'') \<Longrightarrow> parsed buf s' (k True s')"
  shows "parsed buf s (bnd (peek buf toks) k s)"
proof -
  obtain b s' where b: "peek buf toks s = Inr (b, s')" by (rule peek_total)
  obtain tok q e s'' where t: "gettoken buf s' = Inr ((tok, q, e), s'')" by (rule gettoken_total)
  note p = peek_progress[OF b] gettoken_progress[OF t]
  have "parsed buf s' (k b s')"
  proof (cases b)
    case True
    have "peek buf toks s' = Inr (True, s')" using b True by (auto simp: peek_def Let_def skip_ws_idem)
    moreover have "tok \<noteq> 0" using gettoken_peeked b t True by simp
    ultimately show ?thesis using assms(3)[of s' s''] p t True assms(1) by auto
  next
    case False
    then show ?thesis using assms(1,2) p by auto
  qed
  then show ?thesis using b p by (auto simp: bnd_def parsed_def split: sum.splits)
qed

lemma parsed_ret: "cmd_ok buf c \<Longrightarrow> s \<le> length buf \<Longrightarrow> parsed buf s (ret c s)"
  by (simp add: parsed_def ret_run)

lemma parsed_later: "parsed buf s' r \<Longrightarrow> s \<le> s' \<Longrightarrow> parsed buf s r"
  by (auto simp: parsed_def split: sum.splits)

lemma parsed_token: "gettoken buf s = Inr (t, s') \<Longrightarrow> s \<le> s' \<Longrightarrow> parsed buf s' (k t s') \<Longrightarrow> parsed buf s (bnd (gettoken buf) k s)"
  by (simp add: bnd_def parsed_later)

lemma redirs_ok: "cmd_ok buf c \<Longrightarrow> s \<le> length buf \<Longrightarrow> parsed buf s (parseredirs buf c s)"
  using parseredirs_ok[of buf c s] by (auto simp: parsed_def split: sum.splits)

lemma args_ok: "s \<le> length buf \<Longrightarrow> parsed buf s (bnd (parseredirs buf (EXEC [])) (\<lambda>cmd. parseargs buf cmd 0) s)"
proof -
  assume s: "s \<le> length buf"
  have "cmd_ok buf (EXEC [])" by (simp add: MAXARGS_def)
  note r = parseredirs_ok[OF this s]
  show ?thesis
  proof (cases "parseredirs buf (EXEC []) s")
    case (Inl e)
    then show ?thesis using r by (simp add: bnd_def parsed_def)
  next
    case (Inr y)
    then show ?thesis using r parseargs_ok[of buf "fst y" 0 "snd y"] by (cases y) (auto simp: bnd_def intro: parsed_later)
  qed
qed

lemma grammar_ok: assumes "s \<le> length buf"
  shows "4 * (length buf - s) + 4 \<le> n \<Longrightarrow> parsed buf s (parseline buf n s)"
    and "4 * (length buf - s) + 3 \<le> n \<Longrightarrow> parsed buf s (parsepipe buf n s)"
    and "4 * (length buf - s) + 2 \<le> n \<Longrightarrow> parsed buf s (parseexec buf n s)"
    and "4 * (length buf - s) + 1 \<le> n \<Longrightarrow> peek buf [40] s = Inr (True, s) \<Longrightarrow> parsed buf s (parseblock buf n s)"
  using assms
proof (induction n arbitrary: s)
  case (Suc n)
  have after: "4 * (length buf - s'') + 4 \<le> n" if "4 * (length buf - s) + 1 \<le> Suc n" "s \<le> s'" "s' < s''" "s'' \<le> length buf" for s' s''
    using that by auto
  {
    case 1
    show ?case unfolding parseline.simps
    proof (rule parsed_bnd, rule Suc.IH(2), use 1 in simp, use 1 in simp, rule parsed_bnd, rule back_loop_ok, assumption, assumption, rule parsed_peek, assumption,
        simp add: parsed_ret)
      fix c1 s1 c s2 s3 tok q e s4
      assume c: "cmd_ok buf c" "s \<le> s1" "s1 \<le> s2" "s2 \<le> s3" "s3 < s4" "s4 \<le> length buf" "gettoken buf s3 = Inr ((tok, q, e), s4)"
      have "s \<le> s3" using c by linarith
      then have "parsed buf s4 (parseline buf n s4)" using 1(1) after[of s3 s4] c(5,6) by (intro Suc.IH(1)) auto
      then have "parsed buf s4 (bnd (parseline buf n) (\<lambda>r. ret (LIST c r)) s4)" by (rule parsed_bnd) (simp add: parsed_ret c(1))
      then show "parsed buf s3 ((if True then bnd (gettoken buf) (\<lambda>_. bnd (parseline buf n) (\<lambda>r. ret (LIST c r))) else ret c) s3)"
        using parsed_token[OF c(7)] c(5) by simp
    qed
  next
    case 2
    show ?case unfolding parsepipe.simps
    proof (rule parsed_bnd, rule Suc.IH(3), use 2 in simp, use 2 in simp, rule parsed_peek, assumption, simp add: parsed_ret)
      fix c s2 s3 tok q e s4
      assume c: "cmd_ok buf c" "s \<le> s2" "s2 \<le> s3" "s3 < s4" "s4 \<le> length buf" "gettoken buf s3 = Inr ((tok, q, e), s4)"
      have "s \<le> s3" using c by linarith
      then have "parsed buf s4 (parsepipe buf n s4)" using 2(1) after[of s3 s4] c(4,5) by (intro Suc.IH(2)) auto
      then have "parsed buf s4 (bnd (parsepipe buf n) (\<lambda>r. ret (PIPE c r)) s4)" by (rule parsed_bnd) (simp add: parsed_ret c(1))
      then show "parsed buf s3 ((if True then bnd (gettoken buf) (\<lambda>_. bnd (parsepipe buf n) (\<lambda>r. ret (PIPE c r))) else ret c) s3)"
        using parsed_token[OF c(6)] c(4) by simp
    qed
  next
    case 3
    show ?case unfolding parseexec.simps
    proof (rule parsed_peek, use 3 in simp)
      fix s' assume "s \<le> s'" "s' \<le> length buf"
      then show "parsed buf s' ((if False then parseblock buf n else bnd (parseredirs buf (EXEC [])) (\<lambda>cmd. parseargs buf cmd 0)) s')"
        using args_ok by simp
    next
      fix s' tok q e s'' assume "s \<le> s'" "s' < s''" "s'' \<le> length buf" "peek buf [40] s' = Inr (True, s')"
      then show "parsed buf s' ((if True then parseblock buf n else bnd (parseredirs buf (EXEC [])) (\<lambda>cmd. parseargs buf cmd 0)) s')"
        using Suc.IH(4)[of s'] 3 by simp
    qed
  next
    case 4
    obtain tok q e s2 where t: "gettoken buf s = Inr ((tok, q, e), s2)" by (rule gettoken_total)
    have s2: "s < s2" "s2 \<le> length buf" using gettoken_progress[OF t] gettoken_peeked[OF 4(2) t] 4(3) by auto
    have "parsed buf s2 (bnd (parseline buf n) (\<lambda>cmd. bnd (peek buf [41]) (\<lambda>b. if \<not> b then panic ''syntax - missing )'' else
        bnd (gettoken buf) (\<lambda>_. parseredirs buf cmd))) s2)"
    proof (rule parsed_bnd, rule Suc.IH(1), use 4 s2 after[of s s2] in simp, use s2 in simp, rule parsed_peek, assumption,
        simp add: parsed_def panic_def fail_run syntax_errors_def)
      fix c s3 s4 tok q e s5 assume c: "cmd_ok buf c" "s4 < s5" "s5 \<le> length buf" "gettoken buf s4 = Inr ((tok, q, e), s5)"
      then show "parsed buf s4 ((if \<not> True then panic ''syntax - missing )'' else bnd (gettoken buf) (\<lambda>_. parseredirs buf c)) s4)"
        using redirs_ok[OF c(1,3)] parsed_token[OF c(4), where k = "\<lambda>_. parseredirs buf c"] by simp
    qed
    then show ?case using 4(2) parsed_token[OF t] s2 by (simp add: run_simps)
  }
qed (auto simp: fail_run)

lemma length_nulterminate: "length (nulterminate c m) = length m"
proof -
  have "length (foldl (\<lambda>m a. m[snd a := 0]) m as) = length m" for m :: "byte list" and as :: "(nat \<times> nat) list"
    by (induction as arbitrary: m) simp_all
  then show ?thesis by (induction c arbitrary: m) simp_all
qed

text \<open>
  C36. The parser of the shell answers every line: it stops with one of the four messages for syntax errors, or it returns a command
  in which every program has fewer than \<^verbatim>\<open>MAXARGS\<close> arguments, every argument and file name is a longest run of characters
  of the line that are neither whitespace nor symbols, the modes are those of the three kinds of redirection, and the NULs that it
  stored are inside of the line and its terminator.
\<close>

theorem parsecmd_total:
  "case parsecmd buf of Inl e \<Rightarrow> e \<in> {Panic ''syntax'', Panic ''missing file for redirection'', Panic ''too many args'', Panic ''syntax - missing )''}
   | Inr (c, m) \<Rightarrow> cmd_ok buf c \<and> length m = length buf + 1"
proof -
  let ?p = "parseline buf (4 * length buf + 4) 0"
  have p: "parsed buf 0 ?p" by (rule grammar_ok(1)) simp_all
  show ?thesis
  proof (cases ?p)
    case (Inl e)
    then show ?thesis using p by (simp add: parsecmd_def bnd_def parsed_def syntax_errors_def)
  next
    case (Inr y)
    then show ?thesis using p by (cases y) (auto simp: parsecmd_def bnd_def peek_def Let_def ret_run parsed_def length_nulterminate)
  qed
qed

section \<open>The language\<close>

text \<open>
  Commands with the text of their words, and their tokens: a word, or the code of a symbol. \<open>lexes\<close> says that a text consists of the
  given tokens, with any whitespace between them; only two words next to each other and \<^verbatim>\<open>>\<close> before \<^verbatim>\<open>>\<close> need some.
\<close>

datatype redirect = RIn | ROut | RApp

datatype ucmd =
    UExec "byte list list"
  | URedir ucmd redirect "byte list"
  | UPipe ucmd ucmd
  | UList ucmd ucmd
  | UBack ucmd

datatype token = Word "byte list" | Sym byte

definition word_char :: "byte \<Rightarrow> bool" where
  "word_char c \<longleftrightarrow> c \<noteq> 0 \<and> c \<notin> set whitespace \<and> c \<notin> set symbols"

inductive lexes :: "byte list \<Rightarrow> token list \<Rightarrow> bool" where
  finish: "set ws \<subseteq> set whitespace \<Longrightarrow> lexes ws []"
| word: "set ws \<subseteq> set whitespace \<Longrightarrow> w \<noteq> [] \<Longrightarrow> \<forall>c\<in>set w. word_char c \<Longrightarrow> t = [] \<or> \<not> word_char (hd t) \<Longrightarrow> lexes t ts \<Longrightarrow> lexes (ws @ w @ t) (Word w # ts)"
| sym: "set ws \<subseteq> set whitespace \<Longrightarrow> c \<in> {124, 40, 41, 59, 38, 60} \<Longrightarrow> lexes t ts \<Longrightarrow> lexes (ws @ c # t) (Sym c # ts)"
| out: "set ws \<subseteq> set whitespace \<Longrightarrow> t = [] \<or> hd t \<noteq> 62 \<Longrightarrow> lexes t ts \<Longrightarrow> lexes (ws @ 62 # t) (Sym 62 # ts)"
| append: "set ws \<subseteq> set whitespace \<Longrightarrow> lexes t ts \<Longrightarrow> lexes (ws @ 62 # 62 # t) (Sym 43 # ts)"

primrec redir_code :: "redirect \<Rightarrow> byte" where
  "redir_code RIn = 60"
| "redir_code ROut = 62"
| "redir_code RApp = 43"

primrec redir_mode :: "redirect \<Rightarrow> 32 word \<times> nat" where
  "redir_mode RIn = (O_RDONLY, 0)"
| "redir_mode ROut = (O_WRONLY OR O_CREATE OR O_TRUNC, 1)"
| "redir_mode RApp = (O_WRONLY OR O_CREATE, 1)"

text \<open>
  The grammar. A line is a pipeline, ampersands and possibly \<^verbatim>\<open>;\<close> and a line; a pipeline is a command, possibly \<^verbatim>\<open>|\<close> and a
  pipeline; a command is a line in parentheses with redirections, or a program, whose arguments and redirections come in any order.
\<close>

datatype item = Arg "byte list" | Red redirect "byte list"

definition backs :: "nat \<Rightarrow> ucmd \<Rightarrow> ucmd" where
  "backs k c = (UBack ^^ k) c"

definition wrap :: "(redirect \<times> byte list) list \<Rightarrow> ucmd \<Rightarrow> ucmd" where
  "wrap rs c = foldl (\<lambda>c (k, f). URedir c k f) c rs"

definition item_tokens :: "item list \<Rightarrow> token list" where
  "item_tokens is = concat (map (\<lambda>i. case i of Arg w \<Rightarrow> [Word w] | Red k f \<Rightarrow> [Sym (redir_code k), Word f]) is)"

definition redir_tokens :: "(redirect \<times> byte list) list \<Rightarrow> token list" where
  "redir_tokens rs = item_tokens (map (\<lambda>(k, f). Red k f) rs)"

definition words :: "item list \<Rightarrow> byte list list" where
  "words is = concat (map (\<lambda>i. case i of Arg w \<Rightarrow> [w] | Red k f \<Rightarrow> []) is)"

definition redirs :: "item list \<Rightarrow> (redirect \<times> byte list) list" where
  "redirs is = concat (map (\<lambda>i. case i of Arg w \<Rightarrow> [] | Red k f \<Rightarrow> [(k, f)]) is)"

inductive is_line :: "ucmd \<Rightarrow> token list \<Rightarrow> bool"
  and is_pipe :: "ucmd \<Rightarrow> token list \<Rightarrow> bool"
  and is_command :: "ucmd \<Rightarrow> token list \<Rightarrow> bool" where
  line: "is_pipe c ts \<Longrightarrow> is_line (backs k c) (ts @ replicate k (Sym 38))"
| list: "is_pipe c ts \<Longrightarrow> is_line d us \<Longrightarrow> is_line (UList (backs k c) d) (ts @ replicate k (Sym 38) @ Sym 59 # us)"
| single: "is_command c ts \<Longrightarrow> is_pipe c ts"
| pipe: "is_command c ts \<Longrightarrow> is_pipe d us \<Longrightarrow> is_pipe (UPipe c d) (ts @ Sym 124 # us)"
| block: "is_line c ts \<Longrightarrow> is_command (wrap rs c) (Sym 40 # ts @ Sym 41 # redir_tokens rs)"
| program: "length (words is) < MAXARGS \<Longrightarrow> is_command (wrap (redirs is) (UExec (words is))) (item_tokens is)"

text \<open>The command that a tree of positions stands for, on the line before and after \<^verbatim>\<open>nulterminate\<close>.\<close>

definition text_at :: "byte list \<Rightarrow> nat \<times> nat \<Rightarrow> byte list" where
  "text_at buf = (\<lambda>(q, e). take (e - q) (drop q buf))"

definition cstr_at :: "byte list \<Rightarrow> nat \<times> nat \<Rightarrow> byte list" where
  "cstr_at m = (\<lambda>(q, e). takeWhile (\<lambda>c. c \<noteq> 0) (drop q m))"

fun denotes :: "(nat \<times> nat \<Rightarrow> byte list) \<Rightarrow> cmd \<Rightarrow> ucmd \<Rightarrow> bool" where
  "denotes g (EXEC args) (UExec ws) \<longleftrightarrow> map g args = ws"
| "denotes g (REDIR c q e mode fd) (URedir u k f) \<longleftrightarrow> denotes g c u \<and> g (q, e) = f \<and> (mode, fd) = redir_mode k"
| "denotes g (PIPE l r) (UPipe u v) \<longleftrightarrow> denotes g l u \<and> denotes g r v"
| "denotes g (LIST l r) (UList u v) \<longleftrightarrow> denotes g l u \<and> denotes g r v"
| "denotes g (BACK c) (UBack u) \<longleftrightarrow> denotes g c u"
| "denotes g _ _ \<longleftrightarrow> False"

section \<open>Tokens in the line\<close>

abbreviation ws_char :: "byte \<Rightarrow> bool" where
  "ws_char c \<equiv> c \<in> set whitespace"

lemma dropWhile_ws: "set ws \<subseteq> set whitespace \<Longrightarrow> dropWhile ws_char (ws @ t) = dropWhile ws_char t"
  by (induction ws) auto

lemma symbols_not_ws: "c \<in> set symbols \<Longrightarrow> c \<notin> set whitespace" "word_char c \<Longrightarrow> c \<notin> set whitespace"
  by (auto simp: symbols_def whitespace_def word_char_def)

lemma lexes_skip: "lexes t ts \<Longrightarrow> lexes (dropWhile ws_char t) ts"
proof (induction rule: lexes.induct)
  case (finish ws)
  then have "dropWhile ws_char ws = []" by auto
  then show ?case using lexes.finish[of "[]"] by (simp only:) simp
next
  case (word ws w t ts)
  then have "dropWhile ws_char (ws @ w @ t) = [] @ w @ t" by (subst dropWhile_ws) (simp, cases w, auto simp: symbols_not_ws)
  then show ?case using word by (simp only:) (rule lexes.word, auto)
next
  case (sym ws c t ts)
  then have "dropWhile ws_char (ws @ c # t) = [] @ c # t" by (subst dropWhile_ws) (auto simp: whitespace_def)
  then show ?case using sym by (simp only:) (rule lexes.sym, auto)
next
  case (out ws t ts)
  then have "dropWhile ws_char (ws @ 62 # t) = [] @ 62 # t" by (subst dropWhile_ws) (auto simp: whitespace_def)
  then show ?case using out by (simp only:) (rule lexes.out, auto)
next
  case (append ws t ts)
  then have "dropWhile ws_char (ws @ 62 # 62 # t) = [] @ 62 # 62 # t" by (subst dropWhile_ws) (auto simp: whitespace_def)
  then show ?case using append by (simp only:) (rule lexes.append, auto)
qed

definition input :: "byte list \<Rightarrow> nat \<Rightarrow> token list \<Rightarrow> bool" where
  "input buf s ts \<longleftrightarrow> s \<le> length buf \<and> lexes (drop s buf) ts"

lemma skip_ws_drop: "s \<le> length buf \<Longrightarrow> drop (skip_ws buf s) buf = dropWhile ws_char (drop s buf)"
  by (simp add: skip_ws_eq dropWhile_eq_drop drop_drop add.commute)

lemma input_skip: "input buf s ts \<Longrightarrow> input buf (skip_ws buf s) ts"
  using skip_ws_bounds[of s buf] by (auto simp: input_def skip_ws_drop intro: lexes_skip)

lemma byte_at_drop: "byte_at buf s = (case drop s buf of [] \<Rightarrow> 0 | c # t \<Rightarrow> c)"
  by (cases "s < length buf") (auto simp: byte_at_def Cons_nth_drop_Suc[symmetric])

inductive_cases lexes_NilE: "lexes t []"
inductive_cases lexes_WordE: "lexes t (Word w # ts)"
inductive_cases lexes_SymE: "lexes t (Sym c # ts)"

text \<open>At a token, no whitespace is left before it.\<close>

lemma no_ws: "ws @ t = u \<Longrightarrow> set ws \<subseteq> set whitespace \<Longrightarrow> u = [] \<or> hd u \<notin> set whitespace \<Longrightarrow> ws = []"
  by (cases ws) auto

lemma skipped: "s \<le> length buf \<Longrightarrow> drop (skip_ws buf s) buf = [] \<or> hd (drop (skip_ws buf s) buf) \<notin> set whitespace"
  using skip_ws_stop[of buf s] by (auto simp: byte_at_drop split: list.splits)

lemma at_end: assumes "input buf s []" shows "drop (skip_ws buf s) buf = []"
proof -
  have "lexes (drop (skip_ws buf s) buf) []" using input_skip[OF assms] by (simp add: input_def)
  then have "set (drop (skip_ws buf s) buf) \<subseteq> set whitespace" by (rule lexes_NilE)
  then show ?thesis using skipped[of s buf] assms by (cases "drop (skip_ws buf s) buf") (auto simp: input_def)
qed

lemma at_word:
  assumes "input buf s (Word w # ts)"
  obtains t where "drop (skip_ws buf s) buf = w @ t" "w \<noteq> []" "\<forall>c\<in>set w. word_char c" "t = [] \<or> \<not> word_char (hd t)" "lexes t ts"
proof -
  have l: "lexes (drop (skip_ws buf s) buf) (Word w # ts)" "s \<le> length buf" using input_skip[OF assms] assms by (simp_all add: input_def)
  from l(1) show thesis
  proof (rule lexes_WordE)
    fix ws t assume h: "drop (skip_ws buf s) buf = ws @ w @ t" "set ws \<subseteq> set whitespace" "w \<noteq> []" "\<forall>c\<in>set w. word_char c" "t = [] \<or> \<not> word_char (hd t)" "lexes t ts"
    then show thesis using no_ws[OF h(1)[symmetric] h(2) skipped[OF l(2)]] by (intro that[of t]) auto
  qed
qed

lemma at_sym:
  assumes "input buf s (Sym c # ts)"
  obtains t where "c \<in> {124, 40, 41, 59, 38, 60}" "drop (skip_ws buf s) buf = c # t" "lexes t ts"
  | t where "c = 62" "drop (skip_ws buf s) buf = 62 # t" "t = [] \<or> hd t \<noteq> 62" "lexes t ts"
  | t where "c = 43" "drop (skip_ws buf s) buf = 62 # 62 # t" "lexes t ts"
proof -
  have l: "lexes (drop (skip_ws buf s) buf) (Sym c # ts)" "s \<le> length buf" using input_skip[OF assms] assms by (simp_all add: input_def)
  note n = no_ws[OF _ _ skipped[OF l(2)]]
  from l(1) show thesis
  proof (rule lexes_SymE)
    fix ws t assume h: "drop (skip_ws buf s) buf = ws @ c # t" "set ws \<subseteq> set whitespace" "c = 124 \<or> c = 40 \<or> c = 41 \<or> c = 59 \<or> c = 38 \<or> c = 60" "lexes t ts"
    then show thesis using n[OF h(1)[symmetric] h(2)] by (intro that(1)[of t]) auto
  next
    fix ws t assume h: "drop (skip_ws buf s) buf = ws @ 62 # t" "c = 62" "set ws \<subseteq> set whitespace" "t = [] \<or> hd t \<noteq> 62" "lexes t ts"
    then show thesis using n[OF h(1)[symmetric] h(3)] by (intro that(2)[of t]) auto
  next
    fix ws t assume h: "drop (skip_ws buf s) buf = ws @ 62 # 62 # t" "c = 43" "set ws \<subseteq> set whitespace" "lexes t ts"
    then show thesis using n[OF h(1)[symmetric] h(3)] by (intro that(3)[of t]) auto
  qed
qed

definition first_char :: "token list \<Rightarrow> byte" where
  "first_char ts = (case ts of Sym c # _ \<Rightarrow> if c = 43 then 62 else c | _ \<Rightarrow> 0)"

lemma peek_input:
  assumes "input buf s ts" "set T \<subseteq> set symbols"
  obtains s' where "peek buf T s = Inr (first_char ts \<in> set T, s')" "input buf s' ts"
proof -
  let ?s = "skip_ws buf s"
  have z: "0 \<notin> set T" using assms(2) by (auto simp: symbols_def)
  have "peek buf T s = Inr (first_char ts \<in> set T, ?s)"
  proof (cases ts)
    case Nil
    then show ?thesis using at_end assms z by (auto simp: peek_def Let_def byte_at_drop first_char_def)
  next
    case (Cons x xs)
    show ?thesis
    proof (cases x)
      case (Word w)
      then have "input buf s (Word w # xs)" using assms(1) Cons by simp
      then show ?thesis
      proof (cases rule: at_word)
        case (1 t)
        then have "byte_at buf ?s \<notin> set T" using assms(2) by (cases w) (auto simp: byte_at_drop word_char_def)
        then show ?thesis using z Cons Word by (simp add: peek_def Let_def first_char_def)
      qed
    next
      case (Sym c)
      then have "input buf s (Sym c # xs)" using assms(1) Cons by simp
      then show ?thesis by (cases rule: at_sym) (auto simp: peek_def Let_def byte_at_drop first_char_def z Cons Sym)
    qed
  qed
  then show thesis using that input_skip[OF assms(1)] by blast
qed

lemma input_after: "e \<le> length buf \<Longrightarrow> lexes (drop e buf) ts \<Longrightarrow> input buf (skip_ws buf e) ts"
  by (rule input_skip) (simp add: input_def)

lemma gettoken_end:
  assumes "input buf s []"
  obtains q e s' where "gettoken buf s = Inr ((0, q, e), s')" "input buf s' []"
proof -
  have "byte_at buf (skip_ws buf s) = 0" using at_end[OF assms] by (simp add: byte_at_drop)
  then show thesis using input_skip[OF input_skip[OF assms]] by (intro that) (auto simp: gettoken_def Let_def)
qed

lemma lexes_no_NUL: "lexes t ts \<Longrightarrow> t = [] \<or> hd t \<noteq> 0"
proof -
  have w: "0 \<notin> set whitespace" by (simp add: whitespace_def)
  have h: "set ws \<subseteq> set whitespace \<Longrightarrow> u = [] \<or> hd u \<noteq> 0 \<Longrightarrow> ws @ u = [] \<or> hd (ws @ u) \<noteq> 0" for ws u
    using w by (cases ws) auto
  assume "lexes t ts"
  then show ?thesis
  proof cases
    case (finish)
    then show ?thesis using h[of t "[]"] by simp
  next
    case (word ws w u us)
    then have "hd (w @ u) \<noteq> 0" by (cases w) (auto simp: word_char_def)
    then show ?thesis using h[of ws "w @ u"] word by simp
  next
    case (sym ws c u us)
    then show ?thesis using h[of ws "c # u"] by auto
  next
    case (out ws u us)
    then show ?thesis using h[of ws "62 # u"] by auto
  next
    case (append ws u us)
    then show ?thesis using h[of ws "62 # 62 # u"] by auto
  qed
qed

lemma gettoken_Word:
  assumes "input buf s (Word w # ts)"
  obtains q e s' where "gettoken buf s = Inr ((97, q, e), s')" "text_at buf (q, e) = w" "input buf s' ts"
proof -
  let ?s = "skip_ws buf s"
  obtain t where t: "drop ?s buf = w @ t" "w \<noteq> []" "\<forall>c\<in>set w. word_char c" "t = [] \<or> \<not> word_char (hd t)" "lexes t ts"
    by (rule at_word[OF assms])
  have s: "?s \<le> length buf" using input_skip[OF assms] by (simp add: input_def)
  have c: "word_char (byte_at buf ?s)" using t(1-3) by (cases w) (auto simp: byte_at_drop)
  have "takeWhile (\<lambda>c. c \<notin> set whitespace \<and> c \<notin> set symbols) (w @ t) = w"
  proof (subst takeWhile_append2)
    show "w @ takeWhile (\<lambda>c. c \<notin> set whitespace \<and> c \<notin> set symbols) t = w"
      using t(4) lexes_no_NUL[OF t(5)] by (cases t) (auto simp: word_char_def)
  qed (use t(3) in \<open>auto simp: word_char_def\<close>)
  then have e: "word_end buf ?s = ?s + length w" using word_end_eq[OF s] t(1) by simp
  have d: "drop (?s + length w) buf = t" using t(1) by (metis append_eq_conv_conj drop_drop add.commute)
  show thesis
  proof (rule that)
    show "gettoken buf s = Inr ((97, ?s, ?s + length w), skip_ws buf (?s + length w))"
      using c e by (auto simp: gettoken_def Let_def word_char_def symbols_def)
    show "text_at buf (?s, ?s + length w) = w" using t(1) by (simp add: text_at_def)
    have "length (drop ?s buf) = length w + length t" using t(1) by simp
    then show "input buf (skip_ws buf (?s + length w)) ts" using s t(2,5) d by (intro input_after) auto
  qed
qed

lemma gettoken_Sym:
  assumes "input buf s (Sym c # ts)"
  obtains q e s' where "gettoken buf s = Inr ((c, q, e), s')" "input buf s' ts"
proof -
  let ?s = "skip_ws buf s"
  have n: "thesis" if "gettoken buf s = Inr ((c, ?s, ?s + k), skip_ws buf (?s + k))" "drop ?s buf = x @ t" "k = length x" "x \<noteq> []" "lexes t ts" for k x t
  proof -
    have "length (drop ?s buf) = k + length t" using that(2,3) by simp
    then have "?s + k \<le> length buf" using that(3,4) by (cases x) auto
    moreover have "drop (?s + k) buf = t" using that(2,3) by (metis append_eq_conv_conj drop_drop add.commute)
    ultimately show thesis using that by (intro \<open>\<And>q e s'. gettoken buf s = Inr ((c, q, e), s') \<Longrightarrow> input buf s' ts \<Longrightarrow> thesis\<close>) (auto intro!: input_after)
  qed
  from assms show thesis
  proof (cases rule: at_sym)
    case (1 t)
    then show thesis by (intro n[of 1 "[c]" t]) (auto simp: gettoken_def Let_def byte_at_drop)
  next
    case (2 t)
    have "byte_at buf (Suc ?s) = (case t of [] \<Rightarrow> 0 | x # _ \<Rightarrow> x)"
      using 2(2) by (simp add: byte_at_drop drop_Suc flip: tl_drop)
    then have "byte_at buf (Suc ?s) \<noteq> 62" using 2(3) by (cases t) auto
    then show thesis using 2 by (intro n[of 1 "[62]" t]) (auto simp: gettoken_def Let_def byte_at_drop[of buf ?s])
  next
    case (3 t)
    have "byte_at buf (Suc ?s) = 62" using 3(2) by (simp add: byte_at_drop drop_Suc flip: tl_drop)
    then show thesis using 3 by (intro n[of 2 "[62, 62]" t]) (auto simp: gettoken_def Let_def byte_at_drop[of buf ?s])
  qed
qed

section \<open>Every sentence is parsed\<close>

lemma items_simps [simp]:
  "item_tokens [] = []" "item_tokens (Arg w # is) = Word w # item_tokens is" "item_tokens (Red k f # is) = Sym (redir_code k) # Word f # item_tokens is"
  "words [] = []" "words (Arg w # is) = w # words is" "words (Red k f # is) = words is"
  "redirs [] = []" "redirs (Arg w # is) = redirs is" "redirs (Red k f # is) = (k, f) # redirs is"
  "redir_tokens [] = []" "redir_tokens ((k, f) # rs) = Sym (redir_code k) # Word f # redir_tokens rs"
  "wrap [] c = c" "wrap ((k, f) # rs) c = wrap rs (URedir c k f)" "wrap (rs @ [(k, f)]) c = URedir (wrap rs c) k f"
  by (simp_all add: item_tokens_def words_def redirs_def redir_tokens_def wrap_def)

lemma wrap_append [simp]: "wrap (rs @ qs) c = wrap qs (wrap rs c)"
  by (simp add: wrap_def)

lemma backs_simps [simp]: "backs 0 c = c" "backs (Suc k) c = backs k (UBack c)"
  by (simp_all add: backs_def funpow_swap1)

lemma first_char_simps [simp]:
  "first_char [] = 0" "first_char (Word w # ts) = 0" "first_char (Sym c # ts) = (if c = 43 then 62 else c)"
  by (simp_all add: first_char_def)

lemma redir_redir_code: "redir (redir_code k) c q e = REDIR c q e (fst (redir_mode k)) (snd (redir_mode k))"
  by (cases k) (simp_all add: redir_def)

lemma first_char_redir_code: "(if redir_code k = 43 then 62 else redir_code k) \<in> {60, 62}"
  by (cases k) simp_all

lemma symbols_sub [simp]: "set symbols = {60, 124, 62, 38, 59, 40, 41}"
  by (simp add: symbols_def)

lemma parseredirs_stop:
  assumes "input buf s ts" "first_char ts \<notin> {60, 62}"
  obtains s' where "parseredirs buf c s = Inr (c, s')" "input buf s' ts"
proof -
  obtain s' where "peek buf [60, 62] s = Inr (first_char ts \<in> set [60, 62], s')" "input buf s' ts"
    by (rule peek_input[OF assms(1), of "[60, 62]"]) auto
  then show thesis using that[of s'] assms(2) by (subst (asm) parseredirs.simps) auto
qed

lemma parseredirs_step:
  assumes "input buf s (Sym (redir_code k) # Word f # ts)" "denotes (text_at buf) t u"
  obtains t' s' where "parseredirs buf t s = parseredirs buf t' s'" "input buf s' ts" "denotes (text_at buf) t' (URedir u k f)"
proof -
  obtain s1 where 1: "peek buf [60, 62] s = Inr (True, s1)" "input buf s1 (Sym (redir_code k) # Word f # ts)"
    using first_char_redir_code[of k] by (rule_tac peek_input[OF assms(1), of "[60, 62]"]) (auto split: if_splits)
  obtain q0 e0 s2 where 2: "gettoken buf s1 = Inr ((redir_code k, q0, e0), s2)" "input buf s2 (Word f # ts)" by (rule gettoken_Sym[OF 1(2)])
  obtain q e s3 where 3: "gettoken buf s2 = Inr ((97, q, e), s3)" "text_at buf (q, e) = f" "input buf s3 ts" by (rule gettoken_Word[OF 2(2)])
  have "parseredirs buf t s = parseredirs buf (redir (redir_code k) t q e) s3" using 1(1) 2(1) 3(1) by (subst parseredirs.simps) simp
  then show thesis using that[OF _ 3(3)] 3(2) assms(2) by (simp add: redir_redir_code)
qed

lemma parseredirs_all:
  assumes "input buf s (redir_tokens rs @ ts)" "first_char ts \<notin> {60, 62}" "denotes (text_at buf) t u"
  obtains t' s' where "parseredirs buf t s = Inr (t', s')" "input buf s' ts" "denotes (text_at buf) t' (wrap rs u)"
  using assms
proof (induction rs arbitrary: s t u thesis)
  case Nil
  obtain s' where "parseredirs buf t s = Inr (t, s')" "input buf s' ts" by (rule parseredirs_stop[of buf s ts t]) (use Nil.prems in auto)
  then show ?case using Nil.prems(4) by (intro Nil.prems(1)) simp_all
next
  case (Cons r rs)
  obtain k f where r: "r = (k, f)" by (cases r)
  have "input buf s (Sym (redir_code k) # Word f # redir_tokens rs @ ts)" using Cons.prems(2) r by simp
  then obtain t1 s1 where "parseredirs buf t s = parseredirs buf t1 s1" "input buf s1 (redir_tokens rs @ ts)" "denotes (text_at buf) t1 (URedir u k f)"
    by (rule parseredirs_step[OF _ Cons.prems(4)])
  then show ?case using Cons.IH[OF _ _ Cons.prems(3)] Cons.prems(1) r by auto
qed

lemma denotes_put_arg: "denotes g t (wrap rs (UExec ws)) \<Longrightarrow> denotes g (put_arg t a) (wrap rs (UExec (ws @ [g a])))"
proof (induction rs arbitrary: t rule: rev_induct)
  case Nil
  then show ?case by (cases t) auto
next
  case (snoc r rs)
  then show ?case by (cases r; cases t) auto
qed

definition follows :: "byte set \<Rightarrow> token list \<Rightarrow> bool" where
  "follows T ts \<longleftrightarrow> ts = [] \<or> (\<exists>c r. ts = Sym c # r \<and> c \<in> T)"

lemma parseargs_stop:
  assumes "input buf s ts" "follows {124, 41, 38, 59} ts"
  obtains s' where "parseargs buf c n s = Inr (c, s')" "input buf s' ts"
proof -
  obtain s1 where 1: "peek buf [124, 41, 38, 59] s = Inr (first_char ts \<in> set [124, 41, 38, 59], s1)" "input buf s1 ts"
    by (rule peek_input[OF assms(1), of "[124, 41, 38, 59]"]) auto
  show thesis
  proof (cases "ts = []")
    case True
    obtain q e s2 where "gettoken buf s1 = Inr ((0, q, e), s2)" "input buf s2 []" using gettoken_end 1(2) True by metis
    then show thesis using 1(1) True by (intro that[of s2]) (simp_all add: parseargs.simps[of buf c n s])
  next
    case False
    then have "first_char ts \<in> set [124, 41, 38, 59]" using assms(2) by (auto simp: follows_def)
    then show thesis using 1 by (intro that[of s1]) (simp_all add: parseargs.simps[of buf c n s])
  qed
qed

lemma parseargs_step:
  assumes "input buf s (Word w # ts)" "n + 1 < MAXARGS"
  obtains q e s' where "text_at buf (q, e) = w" "input buf s' ts"
    "parseargs buf c n s = (case parseredirs buf (put_arg c (q, e)) s' of Inl e \<Rightarrow> Inl e | Inr (c', s3) \<Rightarrow> parseargs buf c' (n + 1) s3)"
proof -
  obtain s1 where 1: "peek buf [124, 41, 38, 59] s = Inr (first_char (Word w # ts) \<in> set [124, 41, 38, 59], s1)" "input buf s1 (Word w # ts)"
    by (rule peek_input[OF assms(1), of "[124, 41, 38, 59]"]) auto
  obtain q e s2 where 2: "gettoken buf s1 = Inr ((97, q, e), s2)" "text_at buf (q, e) = w" "input buf s2 ts" by (rule gettoken_Word[OF 1(2)])
  show thesis using 1(1) 2 assms(2) by (intro that[of q e s2]) (simp_all add: parseargs.simps[of buf c n s])
qed

lemma program_items:
  assumes "input buf s (item_tokens is @ ts)" "follows {124, 41, 38, 59} ts" "denotes (text_at buf) t (wrap rs (UExec ws))" "length ws + length (words is) < MAXARGS"
  shows "\<exists>t1 s1 t' s'. parseredirs buf t s = Inr (t1, s1) \<and> parseargs buf t1 (length ws) s1 = Inr (t', s') \<and>
    denotes (text_at buf) t' (wrap (rs @ redirs is) (UExec (ws @ words is))) \<and> input buf s' ts"
  using assms
proof (induction "is" arbitrary: s t rs ws)
  case Nil
  then have i: "input buf s ts" "first_char ts \<notin> {60, 62}" by (auto simp: follows_def)
  obtain s1 where 1: "parseredirs buf t s = Inr (t, s1)" "input buf s1 ts" by (rule parseredirs_stop[OF i])
  obtain s2 where "parseargs buf t (length ws) s1 = Inr (t, s2)" "input buf s2 ts" by (rule parseargs_stop[OF 1(2) Nil(2)])
  then show ?case using 1 Nil(3) by auto
next
  case (Cons i "is")
  show ?case
  proof (cases i)
    case (Red k f)
    have "input buf s (Sym (redir_code k) # Word f # item_tokens is @ ts)" using Cons.prems(1) Red by simp
    then obtain t1 s1 where 1: "parseredirs buf t s = parseredirs buf t1 s1" "input buf s1 (item_tokens is @ ts)" "denotes (text_at buf) t1 (wrap (rs @ [(k, f)]) (UExec ws))"
      using parseredirs_step[OF _ Cons.prems(3)] by (metis items_simps(14))
    show ?thesis using Cons.IH[OF 1(2) Cons.prems(2) 1(3)] Cons.prems(4) 1(1) Red by simp
  next
    case (Arg w)
    then have i: "input buf s (Word w # item_tokens is @ ts)" "length ws + 1 < MAXARGS" using Cons.prems(1,4) by simp_all
    obtain s1 where 1: "parseredirs buf t s = Inr (t, s1)" "input buf s1 (Word w # item_tokens is @ ts)" by (rule parseredirs_stop[OF i(1)]) auto
    obtain q e s2 where 2: "text_at buf (q, e) = w" "input buf s2 (item_tokens is @ ts)"
      "parseargs buf t (length ws) s1 = (case parseredirs buf (put_arg t (q, e)) s2 of Inl e \<Rightarrow> Inl e | Inr (c', s3) \<Rightarrow> parseargs buf c' (length ws + 1) s3)"
      by (rule parseargs_step[OF 1(2) i(2)])
    have d: "denotes (text_at buf) (put_arg t (q, e)) (wrap rs (UExec (ws @ [w])))" using denotes_put_arg[OF Cons.prems(3), of "(q, e)"] 2(1) by simp
    have "length (ws @ [w]) + length (words is) < MAXARGS" using Cons.prems(4) Arg by simp
    from Cons.IH[OF 2(2) Cons.prems(2) d this] show ?thesis using 1(1) 2(3) Arg by auto
  qed
qed

lemma back_loop_all:
  assumes "input buf s (replicate k (Sym 38) @ ts)" "first_char ts \<noteq> 38" "denotes (text_at buf) t u"
  shows "\<exists>t' s'. back_loop buf t s = Inr (t', s') \<and> denotes (text_at buf) t' (backs k u) \<and> input buf s' ts"
  using assms
proof (induction k arbitrary: s t u)
  case 0
  then obtain s1 where "peek buf [38] s = Inr (False, s1)" "input buf s1 ts" by (rule_tac peek_input[of buf s ts "[38]"]) auto
  then show ?case using 0 by (subst back_loop.simps) auto
next
  case (Suc k)
  then have "input buf s (Sym 38 # replicate k (Sym 38) @ ts)" by simp
  then obtain s1 where 1: "peek buf [38] s = Inr (True, s1)" "input buf s1 (Sym 38 # replicate k (Sym 38) @ ts)" by (rule peek_input[of _ _ _ "[38]"]) auto
  obtain q e s2 where 2: "gettoken buf s1 = Inr ((38, q, e), s2)" "input buf s2 (replicate k (Sym 38) @ ts)" by (rule gettoken_Sym[OF 1(2)])
  have "denotes (text_at buf) (BACK t) (UBack u)" using Suc.prems(3) by simp
  from Suc.IH[OF 2(2) Suc.prems(2) this] show ?case using 1(1) 2(1) by (subst back_loop.simps) auto
qed

definition accepts :: "byte list \<Rightarrow> (nat \<Rightarrow> cmd parser) \<Rightarrow> nat \<Rightarrow> byte set \<Rightarrow> ucmd \<Rightarrow> token list \<Rightarrow> bool" where
  "accepts buf f b T c ts \<longleftrightarrow> (\<forall>s n rest. input buf s (ts @ rest) \<longrightarrow> follows T rest \<longrightarrow> 4 * length ts + b \<le> n \<longrightarrow>
     (\<exists>t s'. f n s = Inr (t, s') \<and> denotes (text_at buf) t c \<and> input buf s' rest))"

lemma accepts_run:
  assumes "accepts buf f b T c ts" "input buf s (ts @ rest)" "follows T rest" "4 * length ts + b \<le> n"
  obtains t s' where "f n s = Inr (t, s')" "denotes (text_at buf) t c" "input buf s' rest"
  using assms unfolding accepts_def by blast

lemma line_head:
  assumes "accepts buf (parsepipe buf) 3 {41, 38, 59} c ts" "input buf s (ts @ replicate k (Sym 38) @ rest)" "follows {41, 59} rest" "4 * length ts + 3 \<le> n"
  obtains t s1 t' s' where "parsepipe buf n s = Inr (t, s1)" "back_loop buf t s1 = Inr (t', s')" "denotes (text_at buf) t' (backs k c)" "input buf s' rest"
proof -
  have "follows {41, 38, 59} (replicate k (Sym 38) @ rest)" using assms(3) by (cases k) (auto simp: follows_def)
  then obtain t s1 where "parsepipe buf n s = Inr (t, s1)" "denotes (text_at buf) t c" "input buf s1 (replicate k (Sym 38) @ rest)"
    by (rule accepts_run[OF assms(1,2) _ assms(4)])
  moreover have "first_char rest \<noteq> 38" using assms(3) by (auto simp: follows_def)
  ultimately show thesis using back_loop_all that by blast
qed

lemma accepts_line:
  assumes "accepts buf (parsepipe buf) 3 {41, 38, 59} c ts"
  shows "accepts buf (parseline buf) 4 {41} (backs k c) (ts @ replicate k (Sym 38))"
  unfolding accepts_def
proof (intro allI impI)
  fix s n rest assume h: "input buf s ((ts @ replicate k (Sym 38)) @ rest)" "follows {41} rest" "4 * length (ts @ replicate k (Sym 38)) + 4 \<le> n"
  then obtain m where n: "n = Suc m" "4 * length ts + 3 \<le> m" by (cases n) auto
  have f: "follows {41, 59} rest" "first_char rest \<noteq> 59" using h(2) by (auto simp: follows_def)
  obtain t s1 t' s2 where p: "parsepipe buf m s = Inr (t, s1)" "back_loop buf t s1 = Inr (t', s2)" "denotes (text_at buf) t' (backs k c)" "input buf s2 rest"
    by (rule line_head[OF assms _ f(1) n(2)]) (use h(1) in auto)
  obtain s3 where "peek buf [59] s2 = Inr (False, s3)" "input buf s3 rest" by (rule peek_input[OF p(4), of "[59]"]) (use f(2) in auto)
  then show "\<exists>t s'. parseline buf n s = Inr (t, s') \<and> denotes (text_at buf) t (backs k c) \<and> input buf s' rest"
    using p n(1) by (auto simp: bnd_def ret_run)
qed

lemma accepts_list:
  assumes "accepts buf (parsepipe buf) 3 {41, 38, 59} c ts" "accepts buf (parseline buf) 4 {41} d us"
  shows "accepts buf (parseline buf) 4 {41} (UList (backs k c) d) (ts @ replicate k (Sym 38) @ Sym 59 # us)"
  unfolding accepts_def
proof (intro allI impI)
  fix s n rest assume h: "input buf s ((ts @ replicate k (Sym 38) @ Sym 59 # us) @ rest)" "follows {41} rest" "4 * length (ts @ replicate k (Sym 38) @ Sym 59 # us) + 4 \<le> n"
  then obtain m where n: "n = Suc m" "4 * length ts + 3 \<le> m" "4 * length us + 4 \<le> m" by (cases n) auto
  have f: "follows {41, 59} (Sym 59 # us @ rest)" by (auto simp: follows_def)
  obtain t s1 t' s2 where p: "parsepipe buf m s = Inr (t, s1)" "back_loop buf t s1 = Inr (t', s2)" "denotes (text_at buf) t' (backs k c)" "input buf s2 (Sym 59 # us @ rest)"
    by (rule line_head[OF assms(1) _ f n(2)]) (use h(1) in auto)
  obtain s3 where 3: "peek buf [59] s2 = Inr (True, s3)" "input buf s3 (Sym 59 # us @ rest)" by (rule peek_input[OF p(4), of "[59]"]) auto
  obtain q e s4 where 4: "gettoken buf s3 = Inr ((59, q, e), s4)" "input buf s4 (us @ rest)" by (rule gettoken_Sym[OF 3(2)])
  obtain r s5 where "parseline buf m s4 = Inr (r, s5)" "denotes (text_at buf) r d" "input buf s5 rest" by (rule accepts_run[OF assms(2) 4(2) h(2) n(3)])
  then show "\<exists>t s'. parseline buf n s = Inr (t, s') \<and> denotes (text_at buf) t (UList (backs k c) d) \<and> input buf s' rest"
    using p 3 4 n(1) by (auto simp: bnd_def ret_run)
qed

lemma accepts_single:
  assumes "accepts buf (parseexec buf) 2 {41, 38, 59, 124} c ts"
  shows "accepts buf (parsepipe buf) 3 {41, 38, 59} c ts"
  unfolding accepts_def
proof (intro allI impI)
  fix s n rest assume h: "input buf s (ts @ rest)" "follows {41, 38, 59} rest" "4 * length ts + 3 \<le> n"
  then obtain m where n: "n = Suc m" "4 * length ts + 2 \<le> m" by (cases n) auto
  have f: "follows {41, 38, 59, 124} rest" "first_char rest \<noteq> 124" using h(2) by (auto simp: follows_def)
  obtain t s1 where p: "parseexec buf m s = Inr (t, s1)" "denotes (text_at buf) t c" "input buf s1 rest" by (rule accepts_run[OF assms h(1) f(1) n(2)])
  obtain s2 where "peek buf [124] s1 = Inr (False, s2)" "input buf s2 rest" by (rule peek_input[OF p(3), of "[124]"]) (use f(2) in auto)
  then show "\<exists>t s'. parsepipe buf n s = Inr (t, s') \<and> denotes (text_at buf) t c \<and> input buf s' rest"
    using p n(1) by (auto simp: bnd_def ret_run)
qed

lemma accepts_pipe:
  assumes "accepts buf (parseexec buf) 2 {41, 38, 59, 124} c ts" "accepts buf (parsepipe buf) 3 {41, 38, 59} d us"
  shows "accepts buf (parsepipe buf) 3 {41, 38, 59} (UPipe c d) (ts @ Sym 124 # us)"
  unfolding accepts_def
proof (intro allI impI)
  fix s n rest assume h: "input buf s ((ts @ Sym 124 # us) @ rest)" "follows {41, 38, 59} rest" "4 * length (ts @ Sym 124 # us) + 3 \<le> n"
  then obtain m where n: "n = Suc m" "4 * length ts + 2 \<le> m" "4 * length us + 3 \<le> m" by (cases n) auto
  have f: "follows {41, 38, 59, 124} (Sym 124 # us @ rest)" by (auto simp: follows_def)
  obtain t s1 where p: "parseexec buf m s = Inr (t, s1)" "denotes (text_at buf) t c" "input buf s1 (Sym 124 # us @ rest)"
    by (rule accepts_run[OF assms(1) _ f n(2)]) (use h(1) in auto)
  obtain s2 where 2: "peek buf [124] s1 = Inr (True, s2)" "input buf s2 (Sym 124 # us @ rest)" by (rule peek_input[OF p(3), of "[124]"]) auto
  obtain q e s3 where 3: "gettoken buf s2 = Inr ((124, q, e), s3)" "input buf s3 (us @ rest)" by (rule gettoken_Sym[OF 2(2)])
  obtain r s4 where "parsepipe buf m s3 = Inr (r, s4)" "denotes (text_at buf) r d" "input buf s4 rest" by (rule accepts_run[OF assms(2) 3(2) h(2) n(3)])
  then show "\<exists>t s'. parsepipe buf n s = Inr (t, s') \<and> denotes (text_at buf) t (UPipe c d) \<and> input buf s' rest"
    using p 2 3 n(1) by (auto simp: bnd_def ret_run)
qed

lemma accepts_block:
  assumes "accepts buf (parseline buf) 4 {41} c ts"
  shows "accepts buf (parseexec buf) 2 {41, 38, 59, 124} (wrap rs c) (Sym 40 # ts @ Sym 41 # redir_tokens rs)"
  unfolding accepts_def
proof (intro allI impI)
  let ?ts = "\<lambda>rest. Sym 40 # ts @ Sym 41 # redir_tokens rs @ rest"
  fix s n rest assume h: "input buf s ((Sym 40 # ts @ Sym 41 # redir_tokens rs) @ rest)" "follows {41, 38, 59, 124} rest" "4 * length (Sym 40 # ts @ Sym 41 # redir_tokens rs) + 2 \<le> n"
  then have i: "input buf s (?ts rest)" by simp
  obtain m where n: "n = Suc (Suc m)" "4 * length ts + 4 \<le> m" using h(3) by (cases n; cases "n - 1") auto
  obtain s1 where 1: "peek buf [40] s = Inr (True, s1)" "input buf s1 (?ts rest)" by (rule peek_input[OF i, of "[40]"]) auto
  obtain s2 where 2: "peek buf [40] s1 = Inr (True, s2)" "input buf s2 (?ts rest)" by (rule peek_input[OF 1(2), of "[40]"]) auto
  obtain q e s3 where 3: "gettoken buf s2 = Inr ((40, q, e), s3)" "input buf s3 (ts @ Sym 41 # redir_tokens rs @ rest)" by (rule gettoken_Sym[OF 2(2)])
  have f: "follows {41} (Sym 41 # redir_tokens rs @ rest)" by (simp add: follows_def)
  obtain t s4 where 4: "parseline buf m s3 = Inr (t, s4)" "denotes (text_at buf) t c" "input buf s4 (Sym 41 # redir_tokens rs @ rest)"
    by (rule accepts_run[OF assms 3(2) f n(2)])
  obtain s5 where 5: "peek buf [41] s4 = Inr (True, s5)" "input buf s5 (Sym 41 # redir_tokens rs @ rest)" by (rule peek_input[OF 4(3), of "[41]"]) auto
  obtain q e s6 where 6: "gettoken buf s5 = Inr ((41, q, e), s6)" "input buf s6 (redir_tokens rs @ rest)" by (rule gettoken_Sym[OF 5(2)])
  obtain t' s7 where "parseredirs buf t s6 = Inr (t', s7)" "input buf s7 rest" "denotes (text_at buf) t' (wrap rs c)"
    by (rule parseredirs_all[OF 6(2) _ 4(2)]) (use h(2) in \<open>auto simp: follows_def\<close>)
  then show "\<exists>t s'. parseexec buf n s = Inr (t, s') \<and> denotes (text_at buf) t (wrap rs c) \<and> input buf s' rest"
    using 1 2 3 4 5 6 n(1) by (auto simp: bnd_def)
qed

lemma item_tokens_first: "first_char (item_tokens is @ ts) = 40 \<Longrightarrow> first_char ts = 40"
proof (cases "is")
  case (Cons i "is'")
  assume "first_char (item_tokens is @ ts) = 40"
  then show ?thesis using Cons by (cases i; cases "case i of Red k f \<Rightarrow> k") auto
qed simp

lemma accepts_program:
  assumes "length (words is) < MAXARGS"
  shows "accepts buf (parseexec buf) 2 {41, 38, 59, 124} (wrap (redirs is) (UExec (words is))) (item_tokens is)"
  unfolding accepts_def
proof (intro allI impI)
  fix s n rest assume h: "input buf s (item_tokens is @ rest)" "follows {41, 38, 59, 124} rest" "4 * length (item_tokens is) + 2 \<le> n"
  then obtain m where n: "n = Suc m" by (cases n) auto
  have "first_char (item_tokens is @ rest) \<noteq> 40" using h(2) item_tokens_first[of "is" rest] by (auto simp: follows_def)
  then obtain s1 where 1: "peek buf [40] s = Inr (False, s1)" "input buf s1 (item_tokens is @ rest)" by (rule_tac peek_input[OF h(1), of "[40]"]) auto
  have f: "follows {124, 41, 38, 59} rest" using h(2) by (auto simp: follows_def)
  have "denotes (text_at buf) (EXEC []) (wrap [] (UExec []))" by simp
  from program_items[OF 1(2) f this] assms show "\<exists>t s'. parseexec buf n s = Inr (t, s') \<and> denotes (text_at buf) t (wrap (redirs is) (UExec (words is))) \<and> input buf s' rest"
    using 1(1) n by (auto simp: bnd_def)
qed

lemma sentences_parsed:
  "is_line c ts \<Longrightarrow> accepts buf (parseline buf) 4 {41} c ts"
  "is_pipe c ts \<Longrightarrow> accepts buf (parsepipe buf) 3 {41, 38, 59} c ts"
  "is_command c ts \<Longrightarrow> accepts buf (parseexec buf) 2 {41, 38, 59, 124} c ts"
  by (induction rule: is_line_is_pipe_is_command.inducts)
    (blast intro: accepts_line accepts_list accepts_single accepts_pipe accepts_block accepts_program)+

section \<open>Only sentences are parsed\<close>

lemma input_cases:
  assumes "input buf s ts"
  obtains "ts = []" | w r where "ts = Word w # r" | c r where "ts = Sym c # r" "c \<in> {124, 40, 41, 59, 38, 60, 62, 43}"
proof (cases ts)
  case (Cons x r)
  then show thesis using that at_sym[of buf s _ r thesis] assms by (cases x) auto
qed (use that in auto)

lemma redirs_only:
  assumes "parseredirs buf t s = Inr (t', s')" "input buf s ts" "denotes (text_at buf) t u"
  shows "\<exists>rs rest. ts = redir_tokens rs @ rest \<and> input buf s' rest \<and> denotes (text_at buf) t' (wrap rs u)"
  using assms
proof (induction buf t s arbitrary: ts u rule: parseredirs.induct)
  case (1 buf t s)
  obtain s1 where p: "peek buf [60, 62] s = Inr (first_char ts \<in> {60, 62}, s1)" "input buf s1 ts" by (rule peek_input[OF "1.prems"(2), of "[60, 62]"]) auto
  show ?case
  proof (cases "first_char ts \<in> {60, 62}")
    case False
    then have "t' = t" "s' = s1" using "1.prems"(1) p(1) by (simp_all add: parseredirs.simps[of buf t s])
    then show ?thesis using p(2) "1.prems"(3) by (intro exI[of _ "[]"] exI[of _ ts]) simp
  next
    case True
    then have p': "peek buf [60, 62] s = Inr (True, s1)" using p(1) by simp
    from True obtain c r where c: "ts = Sym c # r" "c \<in> {60, 62, 43}" by (auto simp: first_char_def split: list.splits token.splits if_splits)
    then have "c = redir_code RIn \<or> c = redir_code ROut \<or> c = redir_code RApp" by auto
    then obtain k where k: "c = redir_code k" by blast
    obtain q0 e0 s2 where g: "gettoken buf s1 = Inr ((c, q0, e0), s2)" "input buf s2 r" using gettoken_Sym p(2) c(1) by blast
    from g(2) show ?thesis
    proof (cases rule: input_cases)
      case (2 f r')
      then obtain q e s3 where w: "gettoken buf s2 = Inr ((97, q, e), s3)" "text_at buf (q, e) = f" "input buf s3 r'" using gettoken_Word g(2) by blast
      have "parseredirs buf (redir c t q e) s3 = Inr (t', s')" using "1.prems"(1) p' g(1) w(1) by (simp add: parseredirs.simps[of buf t s])
      moreover have "denotes (text_at buf) (redir c t q e) (URedir u k f)" using "1.prems"(3) w(2) k by (simp add: redir_redir_code)
      ultimately have "\<exists>rs rest. r' = redir_tokens rs @ rest \<and> input buf s' rest \<and> denotes (text_at buf) t' (wrap rs (URedir u k f))"
        using "1.IH" p' g(1) w by simp
      then obtain rs rest where "r' = redir_tokens rs @ rest" "input buf s' rest" "denotes (text_at buf) t' (wrap rs (URedir u k f))" by blast
      then show ?thesis using c(1) k 2 by (intro exI[of _ "(k, f) # rs"] exI[of _ rest]) simp
    next
      case 1
      then obtain q e s3 where "gettoken buf s2 = Inr ((0, q, e), s3)" using gettoken_end g(2) by blast
      then show ?thesis using "1.prems"(1) p' g(1) by (simp add: parseredirs.simps[of buf t s])
    next
      case (3 d r')
      then obtain q e s3 where "gettoken buf s2 = Inr ((d, q, e), s3)" using gettoken_Sym g(2) by blast
      then show ?thesis using "1.prems"(1) p' g(1) 3(2) by (auto simp: parseredirs.simps[of buf t s])
    qed
  qed
qed

lemma items_append [simp]:
  "item_tokens (xs @ ys) = item_tokens xs @ item_tokens ys" "words (xs @ ys) = words xs @ words ys" "redirs (xs @ ys) = redirs xs @ redirs ys"
  by (simp_all add: item_tokens_def words_def redirs_def)

lemma items_Red [simp]:
  "item_tokens (map (\<lambda>(k, f). Red k f) rs) = redir_tokens rs" "words (map (\<lambda>(k, f). Red k f) rs) = []" "redirs (map (\<lambda>(k, f). Red k f) rs) = rs"
  by (simp_all add: redir_tokens_def) (induction rs, auto)+

lemma args_only:
  assumes "parseargs buf t n s = Inr (t', s')" "input buf s ts" "denotes (text_at buf) t (wrap rs (UExec ws))" "n = length ws" "length ws < MAXARGS"
  shows "\<exists>is rest. ts = item_tokens is @ rest \<and> input buf s' rest \<and> denotes (text_at buf) t' (wrap (rs @ redirs is) (UExec (ws @ words is))) \<and> length (ws @ words is) < MAXARGS"
  using assms
proof (induction buf t n s arbitrary: ts rs ws rule: parseargs.induct)
  case (1 buf t n s)
  obtain s1 where p: "peek buf [124, 41, 38, 59] s = Inr (first_char ts \<in> {124, 41, 38, 59}, s1)" "input buf s1 ts" by (rule peek_input[OF "1.prems"(2), of "[124, 41, 38, 59]"]) auto
  have stop: ?case if "t' = t" "input buf s' ts"
    using that "1.prems" by (intro exI[of _ "[]"] exI[of _ ts]) simp
  show ?case
  proof (cases "first_char ts \<in> {124, 41, 38, 59}")
    case True
    then show ?thesis using "1.prems"(1) p by (intro stop) (simp_all add: parseargs.simps[of buf t n s])
  next
    case False
    from p(2) show ?thesis
    proof (cases rule: input_cases)
      case 1
      then obtain q e s2 where "gettoken buf s1 = Inr ((0, q, e), s2)" "input buf s2 ts" using gettoken_end p(2) by blast
      then show ?thesis using "1.prems"(1) p(1) False by (intro stop) (simp_all add: parseargs.simps[of buf t n s])
    next
      case (3 c r)
      then obtain q e s2 where "gettoken buf s1 = Inr ((c, q, e), s2)" using gettoken_Sym p(2) by blast
      then show ?thesis using "1.prems"(1) p(1) False 3(2) by (auto simp: parseargs.simps[of buf t n s])
    next
      case (2 w r)
      then obtain q e s2 where w: "gettoken buf s1 = Inr ((97, q, e), s2)" "text_at buf (q, e) = w" "input buf s2 r" using gettoken_Word p(2) by blast
      have m: "\<not> MAXARGS \<le> n + 1" using "1.prems"(1) p(1) False w(1) by (auto simp: parseargs.simps[of buf t n s])
      then obtain t1 s3 where a: "parseredirs buf (put_arg t (q, e)) s2 = Inr (t1, s3)" "parseargs buf t1 (n + 1) s3 = Inr (t', s')"
        using "1.prems"(1) p(1) False w(1) by (auto simp: parseargs.simps[of buf t n s] split: sum.splits)
      have d: "denotes (text_at buf) (put_arg t (q, e)) (wrap rs (UExec (ws @ [w])))" using denotes_put_arg[OF "1.prems"(3), of "(q, e)"] w(2) by simp
      obtain rs1 rest where r: "r = redir_tokens rs1 @ rest" "input buf s3 rest" "denotes (text_at buf) t1 (wrap (rs @ rs1) (UExec (ws @ [w])))"
        using redirs_only[OF a(1) w(3) d] by auto
      have "\<exists>is rest'. rest = item_tokens is @ rest' \<and> input buf s' rest' \<and> denotes (text_at buf) t' (wrap ((rs @ rs1) @ redirs is) (UExec ((ws @ [w]) @ words is))) \<and> length ((ws @ [w]) @ words is) < MAXARGS"
        using "1.IH"[OF p(1) refl _ w(1) refl refl refl _ _ m a(1) refl a(2) r(2,3)] "1.prems"(4) m False by simp
      then obtain "is" rest' where "rest = item_tokens is @ rest'" "input buf s' rest'" "denotes (text_at buf) t' (wrap ((rs @ rs1) @ redirs is) (UExec ((ws @ [w]) @ words is)))" "length ((ws @ [w]) @ words is) < MAXARGS" by blast
      then show ?thesis using 2 r(1) by (intro exI[of _ "Arg w # map (\<lambda>(k, f). Red k f) rs1 @ is"] exI[of _ rest']) simp
    qed
  qed
qed

lemma backs_only:
  assumes "back_loop buf t s = Inr (t', s')" "input buf s ts" "denotes (text_at buf) t u"
  shows "\<exists>k rest. ts = replicate k (Sym 38) @ rest \<and> input buf s' rest \<and> denotes (text_at buf) t' (backs k u)"
  using assms
proof (induction buf t s arbitrary: ts u rule: back_loop.induct)
  case (1 buf t s)
  obtain s1 where p: "peek buf [38] s = Inr (first_char ts = 38, s1)" "input buf s1 ts" by (rule peek_input[OF "1.prems"(2), of "[38]"]) auto
  show ?case
  proof (cases "first_char ts = 38")
    case False
    then have "t' = t" "s' = s1" using "1.prems"(1) p(1) by (simp_all add: back_loop.simps[of buf t s])
    then show ?thesis using p(2) "1.prems"(3) by (intro exI[of _ 0] exI[of _ ts]) simp
  next
    case True
    then obtain r where c: "ts = Sym 38 # r" by (auto simp: first_char_def split: list.splits token.splits if_splits)
    then obtain q e s2 where g: "gettoken buf s1 = Inr ((38, q, e), s2)" "input buf s2 r" using gettoken_Sym p(2) by blast
    have "back_loop buf (BACK t) s2 = Inr (t', s')" using "1.prems"(1) p(1) g(1) True by (simp add: back_loop.simps[of buf t s])
    then have "\<exists>k rest. r = replicate k (Sym 38) @ rest \<and> input buf s' rest \<and> denotes (text_at buf) t' (backs k (UBack u))"
      using "1.IH"[OF p(1) refl _ g(1) refl _ g(2), of "UBack u"] "1.prems"(3) True by simp
    then obtain k rest where "r = replicate k (Sym 38) @ rest" "input buf s' rest" "denotes (text_at buf) t' (backs k (UBack u))" by blast
    then show ?thesis using c by (intro exI[of _ "Suc k"] exI[of _ rest]) simp
  qed
qed

definition yields :: "byte list \<Rightarrow> cmd parser \<Rightarrow> (ucmd \<Rightarrow> token list \<Rightarrow> bool) \<Rightarrow> bool" where
  "yields buf m G \<longleftrightarrow> (\<forall>s t s' ts. m s = Inr (t, s') \<longrightarrow> input buf s ts \<longrightarrow>
     (\<exists>us rest u. ts = us @ rest \<and> G u us \<and> denotes (text_at buf) t u \<and> input buf s' rest))"

lemma yields_run:
  assumes "yields buf m G" "m s = Inr (t, s')" "input buf s ts"
  obtains us rest u where "ts = us @ rest" "G u us" "denotes (text_at buf) t u" "input buf s' rest"
  using assms unfolding yields_def by blast

lemma first_char_Sym: "first_char ts = c \<Longrightarrow> c \<notin> {0, 62} \<Longrightarrow> \<exists>r. ts = Sym c # r"
  by (auto simp: first_char_def split: list.splits token.splits if_splits)

text \<open>A token that was seen by \<^verbatim>\<open>peek\<close> and taken by \<^verbatim>\<open>gettoken\<close>.\<close>

lemma peek_take:
  assumes "input buf s ts" "peek buf [c] s = Inr (b, s1)" "c \<in> set symbols" "c \<noteq> 62"
  shows "(b \<longrightarrow> (\<exists>r. ts = Sym c # r \<and> (\<forall>x s2. gettoken buf s1 = Inr (x, s2) \<longrightarrow> input buf s2 r))) \<and> input buf s1 ts"
proof -
  obtain s' where p: "peek buf [c] s = Inr (first_char ts \<in> set [c], s')" "input buf s' ts" by (rule peek_input[OF assms(1), of "[c]"]) (use assms(3) in simp)
  have "c \<noteq> 0" using assms(3) by auto
  show ?thesis
  proof (cases b)
    case True
    then obtain r where r: "ts = Sym c # r" using first_char_Sym[of ts c] p(1) assms(2,4) \<open>c \<noteq> 0\<close> by auto
    obtain q e s2 where "gettoken buf s' = Inr ((c, q, e), s2)" "input buf s2 r" using gettoken_Sym p(2) r by blast
    then show ?thesis using r p assms(2) by auto
  qed (use p assms(2) in auto)
qed

lemma yields_line:
  assumes "yields buf (parsepipe buf n) is_pipe" "yields buf (parseline buf n) is_line"
  shows "yields buf (parseline buf (Suc n)) is_line"
  unfolding yields_def
proof (intro allI impI)
  fix s t s' ts assume h: "parseline buf (Suc n) s = Inr (t, s')" "input buf s ts"
  from h(1) obtain t1 s1 t2 s2 b s3 where r: "parsepipe buf n s = Inr (t1, s1)" "back_loop buf t1 s1 = Inr (t2, s2)" "peek buf [59] s2 = Inr (b, s3)"
    "(if b then bnd (gettoken buf) (\<lambda>_. bnd (parseline buf n) (\<lambda>r. ret (LIST t2 r))) else ret t2) s3 = Inr (t, s')"
    by (auto elim!: bnd_InrE)
  obtain us rest u where p: "ts = us @ rest" "is_pipe u us" "denotes (text_at buf) t1 u" "input buf s1 rest" by (rule yields_run[OF assms(1) r(1) h(2)])
  obtain k rest' where k: "rest = replicate k (Sym 38) @ rest'" "input buf s2 rest'" "denotes (text_at buf) t2 (backs k u)" using backs_only[OF r(2) p(4,3)] by blast
  have a: "(b \<longrightarrow> (\<exists>r. rest' = Sym 59 # r \<and> (\<forall>x s2. gettoken buf s3 = Inr (x, s2) \<longrightarrow> input buf s2 r))) \<and> input buf s3 rest'" by (rule peek_take[OF k(2) r(3)]) simp_all
  show "\<exists>us rest u. ts = us @ rest \<and> is_line u us \<and> denotes (text_at buf) t u \<and> input buf s' rest"
  proof (cases b)
    case False
    then have "t = t2" "s' = s3" using r(4) by (simp_all add: ret_run)
    then show ?thesis using line[OF p(2), of k] p(1) k a by (intro exI[of _ "us @ replicate k (Sym 38)"] exI[of _ rest'] exI[of _ "backs k u"]) simp
  next
    case True
    then obtain r' where r': "rest' = Sym 59 # r'" "\<forall>x s2. gettoken buf s3 = Inr (x, s2) \<longrightarrow> input buf s2 r'" using a by blast
    obtain x s4 d where d: "gettoken buf s3 = Inr (x, s4)" "parseline buf n s4 = Inr (d, s')" "t = LIST t2 d" using r(4) True by (auto elim!: bnd_InrE simp: ret_run)
    have "input buf s4 r'" using r'(2) d(1) by blast
    then obtain vs rest2 v where "r' = vs @ rest2" "is_line v vs" "denotes (text_at buf) d v" "input buf s' rest2" by (rule yields_run[OF assms(2) d(2)])
    then show ?thesis using list[OF p(2), of v vs k] p(1) k r'(1) d(3)
      by (intro exI[of _ "us @ replicate k (Sym 38) @ Sym 59 # vs"] exI[of _ rest2] exI[of _ "UList (backs k u) v"]) simp
  qed
qed

lemma yields_pipe:
  assumes "yields buf (parseexec buf n) is_command" "yields buf (parsepipe buf n) is_pipe"
  shows "yields buf (parsepipe buf (Suc n)) is_pipe"
  unfolding yields_def
proof (intro allI impI)
  fix s t s' ts assume h: "parsepipe buf (Suc n) s = Inr (t, s')" "input buf s ts"
  from h(1) obtain t1 s1 b s2 where r: "parseexec buf n s = Inr (t1, s1)" "peek buf [124] s1 = Inr (b, s2)"
    "(if b then bnd (gettoken buf) (\<lambda>_. bnd (parsepipe buf n) (\<lambda>r. ret (PIPE t1 r))) else ret t1) s2 = Inr (t, s')"
    by (auto elim!: bnd_InrE)
  obtain us rest u where p: "ts = us @ rest" "is_command u us" "denotes (text_at buf) t1 u" "input buf s1 rest" by (rule yields_run[OF assms(1) r(1) h(2)])
  have a: "(b \<longrightarrow> (\<exists>r. rest = Sym 124 # r \<and> (\<forall>x s3. gettoken buf s2 = Inr (x, s3) \<longrightarrow> input buf s3 r))) \<and> input buf s2 rest" by (rule peek_take[OF p(4) r(2)]) simp_all
  show "\<exists>us rest u. ts = us @ rest \<and> is_pipe u us \<and> denotes (text_at buf) t u \<and> input buf s' rest"
  proof (cases b)
    case False
    then show ?thesis using r(3) single[OF p(2)] p(1,3) a by (auto simp: ret_run)
  next
    case True
    then obtain r' where r': "rest = Sym 124 # r'" "\<forall>x s3. gettoken buf s2 = Inr (x, s3) \<longrightarrow> input buf s3 r'" using a by blast
    obtain x s4 d where d: "gettoken buf s2 = Inr (x, s4)" "parsepipe buf n s4 = Inr (d, s')" "t = PIPE t1 d" using r(3) True by (auto elim!: bnd_InrE simp: ret_run)
    have "input buf s4 r'" using r'(2) d(1) by blast
    then obtain vs rest2 v where "r' = vs @ rest2" "is_pipe v vs" "denotes (text_at buf) d v" "input buf s' rest2" by (rule yields_run[OF assms(2) d(2)])
    then show ?thesis using pipe[OF p(2), of v vs] p(1,3) r'(1) d(3)
      by (intro exI[of _ "us @ Sym 124 # vs"] exI[of _ rest2] exI[of _ "UPipe u v"]) simp
  qed
qed

lemma yields_block:
  assumes "yields buf (parseline buf n) is_line"
  shows "yields buf (parseblock buf (Suc n)) is_command"
  unfolding yields_def
proof (intro allI impI)
  fix s t s' ts assume h: "parseblock buf (Suc n) s = Inr (t, s')" "input buf s ts"
  from h(1) obtain s1 x s2 t1 s3 s4 y s5 where r: "peek buf [40] s = Inr (True, s1)" "gettoken buf s1 = Inr (x, s2)" "parseline buf n s2 = Inr (t1, s3)"
    "peek buf [41] s3 = Inr (True, s4)" "gettoken buf s4 = Inr (y, s5)" "parseredirs buf t1 s5 = Inr (t, s')"
    by (auto elim!: bnd_InrE simp: panic_def fail_run split: if_splits)
  obtain r1 where 1: "ts = Sym 40 # r1" "input buf s2 r1" using peek_take[OF h(2) r(1)] r(2) by (cases x) auto
  obtain us rest u where p: "r1 = us @ rest" "is_line u us" "denotes (text_at buf) t1 u" "input buf s3 rest" by (rule yields_run[OF assms r(3) 1(2)])
  obtain r2 where 2: "rest = Sym 41 # r2" "input buf s5 r2" using peek_take[OF p(4) r(4)] r(5) by (cases y) auto
  obtain rs r3 where "r2 = redir_tokens rs @ r3" "input buf s' r3" "denotes (text_at buf) t (wrap rs u)" using redirs_only[OF r(6) 2(2) p(3)] by blast
  then show "\<exists>us rest u. ts = us @ rest \<and> is_command u us \<and> denotes (text_at buf) t u \<and> input buf s' rest"
    using block[OF p(2), of rs] 1(1) 2(1) p(1) by (intro exI[of _ "Sym 40 # us @ Sym 41 # redir_tokens rs"] exI[of _ r3] exI[of _ "wrap rs u"]) simp
qed

lemma yields_exec:
  assumes "yields buf (parseblock buf n) is_command"
  shows "yields buf (parseexec buf (Suc n)) is_command"
  unfolding yields_def
proof (intro allI impI)
  fix s t s' ts assume h: "parseexec buf (Suc n) s = Inr (t, s')" "input buf s ts"
  from h(1) obtain b s1 where r: "peek buf [40] s = Inr (b, s1)" "(if b then parseblock buf n else bnd (parseredirs buf (EXEC [])) (\<lambda>cmd. parseargs buf cmd 0)) s1 = Inr (t, s')"
    by (auto elim!: bnd_InrE)
  have i: "input buf s1 ts" using peek_take[OF h(2) r(1)] by simp
  show "\<exists>us rest u. ts = us @ rest \<and> is_command u us \<and> denotes (text_at buf) t u \<and> input buf s' rest"
  proof (cases b)
    case True
    then show ?thesis using assms r(2) i unfolding yields_def by simp
  next
    case False
    then obtain t1 s2 where a: "parseredirs buf (EXEC []) s1 = Inr (t1, s2)" "parseargs buf t1 0 s2 = Inr (t, s')" using r(2) by (auto elim!: bnd_InrE)
    obtain rs r1 where 1: "ts = redir_tokens rs @ r1" "input buf s2 r1" "denotes (text_at buf) t1 (wrap rs (UExec []))"
      using redirs_only[OF a(1) i, of "UExec []"] by auto
    obtain "is" r2 where "r1 = item_tokens is @ r2" "input buf s' r2" "denotes (text_at buf) t (wrap (rs @ redirs is) (UExec (words is)))" "length (words is) < MAXARGS"
      using args_only[OF a(2) 1(2,3)] by (auto simp: MAXARGS_def)
    then show ?thesis using 1(1) program[of "map (\<lambda>(k, f). Red k f) rs @ is"]
      by (intro exI[of _ "redir_tokens rs @ item_tokens is"] exI[of _ r2] exI[of _ "wrap (rs @ redirs is) (UExec (words is))"]) simp
  qed
qed

lemma sentences_only:
  "yields buf (parseline buf n) is_line \<and> yields buf (parsepipe buf n) is_pipe \<and> yields buf (parseexec buf n) is_command \<and> yields buf (parseblock buf n) is_command"
proof (induction n)
  case 0
  then show ?case by (simp add: yields_def fail_run)
next
  case (Suc n)
  then show ?case using yields_line yields_pipe yields_exec yields_block by blast
qed

section \<open>The strings of the tree\<close>

primrec cmd_words :: "cmd \<Rightarrow> (nat \<times> nat) list" where
  "cmd_words (EXEC args) = args"
| "cmd_words (REDIR c q e mode fd) = cmd_words c @ [(q, e)]"
| "cmd_words (PIPE l r) = cmd_words l @ cmd_words r"
| "cmd_words (LIST l r) = cmd_words l @ cmd_words r"
| "cmd_words (BACK c) = cmd_words c"

lemma update_nth: "i < length m \<Longrightarrow> m[e := 0] ! i = (if i = e then 0 else m ! i)"
  by (cases "i = e") simp_all

lemma foldl_ends: "i < length m \<Longrightarrow> foldl (\<lambda>m a. m[snd a := 0]) m as ! i = (if \<exists>q. (q, i) \<in> set as then 0 else m ! i)"
  by (induction "as" arbitrary: m) (auto simp: update_nth)

lemma nulterminate_nth: "i < length m \<Longrightarrow> nulterminate t m ! i = (if \<exists>q. (q, i) \<in> set (cmd_words t) then 0 else m ! i)"
  by (induction t arbitrary: m) (auto simp: foldl_ends length_nulterminate update_nth)

lemma cmd_ok_words: "cmd_ok buf t \<Longrightarrow> a \<in> set (cmd_words t) \<Longrightarrow> word_ok buf a"
  by (induction t) auto

lemma denotes_cong: "(\<And>a. a \<in> set (cmd_words t) \<Longrightarrow> g a = h a) \<Longrightarrow> denotes g t c = denotes h t c"
proof (induction t arbitrary: c)
  case (EXEC args)
  then show ?case by (cases c) (auto cong: map_cong)
next
  case (REDIR t q e mode fd)
  then show ?case by (cases c) auto
next
  case (PIPE l r)
  then show ?case by (cases c) auto
next
  case (LIST l r)
  then show ?case by (cases c) auto
next
  case (BACK t)
  then show ?case by (cases c) auto
qed

lemma redir_mode_inj: "redir_mode k = redir_mode l \<Longrightarrow> k = l"
  by (cases k; cases l) (simp_all add: O_RDONLY_def O_WRONLY_def O_CREATE_def O_TRUNC_def)

lemma denotes_unique: "denotes g t c \<Longrightarrow> denotes g t d \<Longrightarrow> c = d"
proof (induction t arbitrary: c d)
  case (REDIR t q e mode fd)
  then show ?case by (cases c; cases d) (auto dest!: redir_mode_inj)
next
  case (EXEC args)
  then show ?case by (cases c; cases d) auto
next
  case (PIPE l r)
  then show ?case by (cases c; cases d) auto
next
  case (LIST l r)
  then show ?case by (cases c; cases d) auto
next
  case (BACK t)
  then show ?case by (cases c; cases d) auto
qed

lemma cstr_text:
  assumes "cmd_ok buf t" "0 \<notin> set buf" "a \<in> set (cmd_words t)"
  shows "cstr_at (nulterminate t (buf @ [0])) a = text_at buf a"
proof -
  let ?m = "nulterminate t (buf @ [0])"
  obtain q e where a: "a = (q, e)" by (cases a)
  have w: "word_ok buf (q, e)" using cmd_ok_words[OF assms(1,3)] a by simp
  then have b: "q < e" "e \<le> length buf" by (simp_all add: word_ok_def)
  have l: "length ?m = length buf + 1" by (simp add: length_nulterminate)
  have z: "?m ! e = 0" using assms(3) a b by (auto simp: nulterminate_nth)
  have same: "?m ! i = buf ! i" if "q \<le> i" "i < e" for i
  proof -
    have "\<nexists>p. (p, i) \<in> set (cmd_words t)"
    proof
      assume "\<exists>p. (p, i) \<in> set (cmd_words t)"
      then obtain p where "(p, i) \<in> set (cmd_words t)" by blast
      then have "word_ok buf (p, i)" by (rule cmd_ok_words[OF assms(1)])
      then show False using w that b by (auto simp: word_ok_def)
    qed
    then show ?thesis using that b by (simp add: nulterminate_nth nth_append)
  qed
  have t: "take (e - q) (drop q ?m) = take (e - q) (drop q buf)" using b l same by (intro nth_equalityI) auto
  have "drop q ?m = take (e - q) (drop q buf) @ 0 # drop (Suc e) ?m"
    using append_take_drop_id[of "e - q" "drop q ?m"] t z b l Cons_nth_drop_Suc[of e ?m] by simp
  moreover have "\<forall>x\<in>set (take (e - q) (drop q buf)). x \<noteq> 0" using assms(2) by (metis in_set_dropD in_set_takeD)
  ultimately show ?thesis using a by (simp add: cstr_at_def text_at_def)
qed

lemma denotes_cstr: "cmd_ok buf t \<Longrightarrow> 0 \<notin> set buf \<Longrightarrow> denotes (cstr_at (nulterminate t (buf @ [0]))) t c = denotes (text_at buf) t c"
  by (rule denotes_cong) (simp add: cstr_text)

lemma lexes_ws: "lexes t ts \<Longrightarrow> c \<in> set whitespace \<Longrightarrow> lexes (c # t) ts"
proof (induction rule: lexes.cases)
  case (finish ws)
  then show ?case using lexes.finish[of "c # ws"] by simp
next
  case (word ws w t ts)
  then show ?case using lexes.word[of "c # ws" w t ts] by simp
next
  case (sym ws d t ts)
  then show ?case using lexes.sym[of "c # ws" d t ts] by simp
next
  case (out ws t ts)
  then show ?case using lexes.out[of "c # ws" t ts] by simp
next
  case (append ws t ts)
  then show ?case using lexes.append[of "c # ws" t ts] by simp
qed

lemma lexes_exists: "0 \<notin> set t \<Longrightarrow> \<exists>ts. lexes t ts"
proof (induction t rule: length_induct)
  case (1 t)
  show ?case
  proof (cases t)
    case Nil
    then show ?thesis using lexes.finish[of "[]"] by auto
  next
    case (Cons c u)
    have ih: "\<exists>ts. lexes v ts" if "length v \<le> length u" "set v \<subseteq> set t" for v using 1 that Cons by (auto simp: less_Suc_eq_le)
    consider "c \<in> set whitespace" | "c \<in> {124, 40, 41, 59, 38, 60}" | "c = 62" | "word_char c" using 1 Cons by (auto simp: word_char_def)
    then show ?thesis
    proof cases
      case 1
      then show ?thesis using ih[of u] Cons lexes_ws by auto
    next
      case 2
      then show ?thesis using ih[of u] Cons lexes.sym[of "[]" c u] by auto
    next
      case 3
      obtain xs ys where l: "lexes u xs" "lexes (tl u) ys" using ih[of u] ih[of "tl u"] Cons by (cases u) fastforce+
      show ?thesis
      proof (cases "u \<noteq> [] \<and> hd u = 62")
        case True
        then have "t = [] @ 62 # 62 # tl u" using Cons 3 by (cases u) auto
        then show ?thesis using lexes.append[of "[]", OF _ l(2)] by auto
      next
        case False
        then show ?thesis using lexes.out[of "[]" u, OF _ _ l(1)] Cons 3 by auto
      qed
    next
      case 4
      let ?w = "takeWhile word_char t" let ?v = "dropWhile word_char t"
      have "length ?v \<le> length u" using Cons 4 by (simp add: length_dropWhile_le)
      then obtain ts where "lexes ?v ts" using ih[of ?v] set_dropWhileD[of _ word_char t] by blast
      moreover have "?v = [] \<or> \<not> word_char (hd ?v)" using hd_dropWhile[of word_char t] by blast
      moreover have "?w \<noteq> []" "\<forall>c\<in>set ?w. word_char c" using Cons 4 by (auto dest: set_takeWhileD)
      ultimately have "lexes ([] @ ?w @ ?v) (Word ?w # ts)" by (intro lexes.word) auto
      then show ?thesis by auto
    qed
  qed
qed

lemma lexes_length: "lexes t ts \<Longrightarrow> length ts \<le> length t"
proof (induction rule: lexes.induct)
  case (word ws w t ts)
  then show ?case by (cases w) auto
qed auto

lemma parsecmd_parse:
  assumes "parseline cs (4 * length cs + 4) 0 = Inr (t, s)"
  shows "cmd_ok cs t" "s \<le> length cs"
    "parsecmd cs = (if skip_ws cs s = length cs then Inr (t, nulterminate t (cs @ [0])) else Inl (Panic ''syntax''))"
proof -
  have "parsed cs 0 (Inr (t, s))" unfolding assms[symmetric] by (rule grammar_ok(1)) simp_all
  then show "cmd_ok cs t" "s \<le> length cs" by (simp_all add: parsed_def)
  show "parsecmd cs = (if skip_ws cs s = length cs then Inr (t, nulterminate t (cs @ [0])) else Inl (Panic ''syntax''))"
    using assms by (simp add: parsecmd_def bnd_def peek_def Let_def ret_run)
qed

text \<open>C10. The parser of the shell accepts exactly the language of the grammar. For a line without NUL bytes, it returns a tree, and leaves strings
  in the line, that stand for the command \<open>c\<close> if and only if the line consists of tokens that are a sentence of the grammar for \<open>c\<close>: pipelines
  bind tighter than \<^verbatim>\<open>&\<close> and \<^verbatim>\<open>;\<close>, parentheses group, and arguments and redirections of a program come in any order.\<close>

theorem parsecmd_language:
  assumes "0 \<notin> set cs"
  shows "(\<exists>t m. parsecmd cs = Inr (t, m) \<and> denotes (cstr_at m) t c) \<longleftrightarrow> (\<exists>ts. lexes cs ts \<and> is_line c ts)"
proof
  assume "\<exists>ts. lexes cs ts \<and> is_line c ts"
  then obtain ts where ts: "lexes cs ts" "is_line c ts" by blast
  have i: "input cs 0 (ts @ [])" using ts(1) by (simp add: input_def)
  obtain t s where p: "parseline cs (4 * length cs + 4) 0 = Inr (t, s)" "denotes (text_at cs) t c" "input cs s []"
    by (rule accepts_run[OF sentences_parsed(1)[OF ts(2)] i, where n = "4 * length cs + 4"]) (use lexes_length[OF ts(1)] in \<open>auto simp: follows_def\<close>)
  have "skip_ws cs s = length cs" using at_end[OF p(3)] skip_ws_bounds[of s cs] parsecmd_parse(2)[OF p(1)] by simp
  then show "\<exists>t m. parsecmd cs = Inr (t, m) \<and> denotes (cstr_at m) t c"
    using parsecmd_parse[OF p(1)] p(2) denotes_cstr[OF _ assms, of t c] by simp
next
  assume "\<exists>t m. parsecmd cs = Inr (t, m) \<and> denotes (cstr_at m) t c"
  then obtain t m where t: "parsecmd cs = Inr (t, m)" "denotes (cstr_at m) t c" by blast
  obtain t' s where p: "parseline cs (4 * length cs + 4) 0 = Inr (t', s)"
    using t(1) by (cases "parseline cs (4 * length cs + 4) 0") (auto simp: parsecmd_def bnd_def)
  have m: "t' = t" "m = nulterminate t (cs @ [0])" "skip_ws cs s = length cs" using t(1) parsecmd_parse(3)[OF p] by (auto split: if_splits)
  obtain ts where ts: "lexes cs ts" using lexes_exists[OF assms] by blast
  then have i: "input cs 0 ts" by (simp add: input_def)
  obtain us rest u where u: "ts = us @ rest" "is_line u us" "denotes (text_at cs) t' u" "input cs s rest"
    by (rule yields_run[OF sentences_only[THEN conjunct1] p i])
  have "lexes [] rest" using input_skip[OF u(4)] m(3) by (simp add: input_def)
  then have "rest = []" using lexes_length by fastforce
  moreover have "u = c" using denotes_unique t(2) u(3) denotes_cstr[OF parsecmd_parse(1)[OF p] assms] m by blast
  ultimately show "\<exists>ts. lexes cs ts \<and> is_line c ts" using ts u by auto
qed

lemma parsecmd_example: "parsecmd [97, 124, 98, 62, 99] = Inr (PIPE (EXEC [(0, 1)]) (REDIR (EXEC [(2, 3)]) 4 5 (O_WRONLY OR O_CREATE OR O_TRUNC) 1), [97, 0, 98, 0, 99, 0])"
  by code_simp

theorem parsecmd_language_witness:
  "0 \<notin> set [97, 124, 98, 62, 99 :: byte] \<and>
   (\<exists>ts. lexes [97, 124, 98, 62, 99] ts \<and> is_line (UPipe (UExec [[97]]) (URedir (UExec [[98]]) ROut [99])) ts)"
proof -
  have "denotes (cstr_at [97, 0, 98, 0, 99, 0]) (PIPE (EXEC [(0, 1)]) (REDIR (EXEC [(2, 3)]) 4 5 (O_WRONLY OR O_CREATE OR O_TRUNC) 1))
    (UPipe (UExec [[97]]) (URedir (UExec [[98]]) ROut [99]))" by (simp add: cstr_at_def)
  then show ?thesis using parsecmd_language[of "[97, 124, 98, 62, 99]" "UPipe (UExec [[97]]) (URedir (UExec [[98]]) ROut [99])"] parsecmd_example by auto
qed

end
