(* ===== verification/Txn.thy ===== *)
theory Txn
  imports Fs
begin

text \<open>
  The blocks of the disk as a file system operation sees them between \<^verbatim>\<open>begin_op\<close> and \<^verbatim>\<open>end_op\<close>. \<open>txn D s H L bs\<close> says that in the
  state \<open>s\<close> the running process holds the buffers \<open>H\<close>, that the blocks have the contents \<open>L\<close>, of which \<open>bs\<close> are those the transaction
  has changed, and that the disk has the contents \<open>D\<close>. The laws of reading, changing and releasing a block lead to the laws of the free map:
  \<^verbatim>\<open>balloc\<close> and \<^verbatim>\<open>bfree\<close>.
\<close>

section \<open>Transactions\<close>

definition still :: "'z logd_scheme \<Rightarrow> 'z logd_scheme \<Rightarrow> bool" where
  "still s s' \<longleftrightarrow> (\<exists>B nx pv d w n f. s' = s\<lparr>bufs := B, bnext := nx, bprev := pv, disk := d, wtrace := w, lh_n := n, lh_block := f\<rparr>)"

definition hpins :: "nat list \<Rightarrow> (nat \<Rightarrow> nat option) \<Rightarrow> nat \<Rightarrow> int" where
  "hpins bs H n = pins bs n + (if n \<in> ran H then 1 else 0)"

definition txn :: "(nat \<Rightarrow> memory) \<Rightarrow> 'z logd_scheme \<Rightarrow> (nat \<Rightarrow> nat option) \<Rightarrow> (nat \<Rightarrow> memory) \<Rightarrow> nat list \<Rightarrow> bool" where
  "txn D s H L bs \<longleftrightarrow> crep s H L D (wtrace s) (hpins bs H) \<and> log_ok s (log_start s) (log_size s) bs D \<and> 1 \<le> log_outstanding s \<and>
     (\<forall>n. n \<notin> set bs \<longrightarrow> L n = D n)"

lemma stillI: "s' = s\<lparr>bufs := B, bnext := nx, bprev := pv, disk := d, wtrace := w, lh_n := n, lh_block := f\<rparr> \<Longrightarrow> still s s'"
  unfolding still_def by blast

lemma still_refl [simp]: "still s s"
  by (rule stillI[where B = "bufs s" and nx = "bnext s" and pv = "bprev s" and d = "disk s" and w = "wtrace s" and n = "lh_n s" and f = "lh_block s"]) simp

lemma still_trans:
  assumes "still s t" "still t u"
  shows "still s u"
proof -
  obtain B nx pv d w n f where t: "t = s\<lparr>bufs := B, bnext := nx, bprev := pv, disk := d, wtrace := w, lh_n := n, lh_block := f\<rparr>"
    using assms(1) by (auto simp: still_def)
  obtain B' nx' pv' d' w' n' f' where u: "u = t\<lparr>bufs := B', bnext := nx', bprev := pv', disk := d', wtrace := w', lh_n := n', lh_block := f'\<rparr>"
    using assms(2) by (auto simp: still_def)
  show ?thesis by (rule stillI[where B = B' and nx = nx' and pv = pv' and d = d' and w = w' and n = n' and f = f']) (simp add: u t)
qed

lemma kept_still:
  assumes "kept (s\<lparr>lh_n := n, lh_block := f\<rparr>) t"
  shows "still s t"
proof -
  obtain B nx pv d w where t: "t = s\<lparr>lh_n := n, lh_block := f, bufs := B, bnext := nx, bprev := pv, disk := d, wtrace := w\<rparr>"
    using assms by (auto simp: kept_def)
  show ?thesis by (rule stillI[where B = B and nx = nx and pv = pv and d = d and w = w and n = n and f = f]) (simp add: t)
qed

lemma kept_still2: "kept s t \<Longrightarrow> still s t"
  using kept_still[where s = s and n = "lh_n s" and f = "lh_block s" and t = t] by simp

lemma still_logd: "still s t \<Longrightarrow> log_start t = log_start s \<and> log_size t = log_size s \<and> log_outstanding t = log_outstanding s \<and>
    log_committing t = log_committing s \<and> log_dev t = log_dev s \<and> mypid t = mypid s \<and> logd.more t = logd.more s"
  by (auto simp: still_def)

lemma still_kst: "still s t \<Longrightarrow> sb t = sb s \<and> itable t = itable s \<and> ftable t = ftable s \<and> ptable t = ptable s \<and> curp t = curp s \<and> pm t = pm s \<and> freelist t = freelist s \<and> kend t = kend s \<and> log_start t = log_start s \<and> log_size t = log_size s"
  by (auto simp: still_def)

lemma txnD:
  assumes "txn D s H L bs"
  shows "crep s H L D (wtrace s) (hpins bs H)" "log_rep s (log_start s) bs" "distinct bs" "1 \<le> log_outstanding s" "n \<notin> set bs \<Longrightarrow> L n = D n"
    "length bs < log_size s" "length bs < NBUF" "head_n (D (log_start s)) = 0" "\<forall>b\<in>set bs. outside (log_start s) (log_size s) b \<and> b < 2 ^ 32"
  using assms by (simp_all add: txn_def log_ok_def)

lemma txn_held:
  assumes "txn D s H L bs" "H b = Some n"
  shows "bdata (bufs s b) = L n" "H b' = Some n \<Longrightarrow> b' = b"
proof -
  show "bdata (bufs s b) = L n" using held_data[OF txnD(1)[OF assms(1)] assms(2)] by simp
  show "H b' = Some n \<Longrightarrow> b' = b" using held_cached[OF txnD(1)[OF assms(1)]] assms(2) by (metis option.inject)
qed

lemma ran_upd: "H b = None \<Longrightarrow> ran (H(b \<mapsto> n)) = insert n (ran H)"
  by (rule ran_map_upd)

lemma txn_bread:
  assumes "txn D s H L bs" "n \<notin> ran H" "length bs + card (ran H) < NBUF"
  obtains b s' where "bread ROOTDEV n s = Inr (b, s')" "H b = None" "txn D s' (H(b \<mapsto> n)) L bs" "still s s'" "bdata (bufs s' b) = L n"
proof -
  have fin: "finite (ran H)" 
  proof -
    have "dom H \<subseteq> {..<NBUF}" using crepD(9)[OF txnD(1)[OF assms(1)]] by auto
    then show ?thesis by (meson finite_lessThan finite_ran finite_subset)
  qed
  have "{m. hpins bs H m \<noteq> 0} \<subseteq> set bs \<union> ran H" by (auto simp: hpins_def pins_def)
  then have "card {m. hpins bs H m \<noteq> 0} \<le> card (set bs \<union> ran H)" using fin by (intro card_mono) auto
  also have "\<dots> \<le> length bs + card (ran H)" using card_Un_le[of "set bs" "ran H"] card_length[of bs] by simp
  finally have c: "card {m. hpins bs H m \<noteq> 0} < NBUF" using assms(3) by simp
  obtain b s' where b: "bread ROOTDEV n s = Inr (b, s')" "H b = None" "crep s' (H(b \<mapsto> n)) L D (wtrace s) ((hpins bs H)(n := hpins bs H n + 1))" "kept s s'"
    using bread_law[OF txnD(1)[OF assms(1)] assms(2)] c by blast
  have p: "(hpins bs H)(n := hpins bs H n + 1) = hpins bs (H(b \<mapsto> n))" using b(2) assms(2) by (auto simp: fun_eq_iff hpins_def ran_upd)
  have w: "wtrace s' = wtrace s" using crepD(4)[OF b(3)] .
  have t: "txn D s' (H(b \<mapsto> n)) L bs"
    using assms(1) b(3) p w kept_logd[OF b(4)] kept_rep[OF b(4)] by (simp add: txn_def log_ok_def)
  show thesis using that[OF b(1,2) t kept_still2[OF b(4)]] txn_held(1)[OF t, of b n] by simp
qed

lemma txn_brelse:
  assumes "txn D s H L bs" "H b = Some n"
  obtains s' where "brelse b s = Inr ((), s')" "txn D s' (H(b := None)) L bs" "still s s'"
proof -
  have "L n = D n" if "hpins bs H n = 1"
    using that txnD(5)[OF assms(1), of n] assms(2) by (auto simp: hpins_def pins_def ran_def split: if_splits)
  then obtain s' where b: "brelse b s = Inr ((), s')" "crep s' (H(b := None)) L D (wtrace s) ((hpins bs H)(n := hpins bs H n - 1))" "kept s s'"
    using brelse_law[OF txnD(1)[OF assms(1)] assms(2)] by blast
  have "m \<in> ran (H(b := None)) \<longleftrightarrow> m \<in> ran H \<and> m \<noteq> n" for m
  proof
    assume "m \<in> ran (H(b := None))"
    then obtain a where "a \<noteq> b" "H a = Some m" by (auto simp: ran_def split: if_splits)
    then show "m \<in> ran H \<and> m \<noteq> n" using txn_held(2)[OF assms, of a] by (auto intro: ranI)
  next
    assume "m \<in> ran H \<and> m \<noteq> n"
    then obtain a where "H a = Some m" "m \<noteq> n" by (auto simp: ran_def)
    then have "(H(b := None)) a = Some m" using assms(2) by auto
    then show "m \<in> ran (H(b := None))" by (rule ranI)
  qed
  then have p: "(hpins bs H)(n := hpins bs H n - 1) = hpins bs (H(b := None))" using ranI[of H b n] assms(2) by (simp add: fun_eq_iff hpins_def)
  have w: "wtrace s' = wtrace s" using crepD(4)[OF b(2)] .
  have t: "txn D s' (H(b := None)) L bs"
    using assms(1) b(2) p w kept_logd[OF b(3)] kept_rep[OF b(3)] by (simp add: txn_def log_ok_def)
  show thesis using that[OF b(1) t kept_still2[OF b(3)]] .
qed

text \<open>Room for \<open>k\<close> more blocks in the log and the cache, when the blocks of \<open>X\<close> are already counted.\<close>

definition load :: "nat set \<Rightarrow> nat list \<Rightarrow> nat" where
  "load X bs = card (set bs \<union> X)"

definition room :: "'z logd_scheme \<Rightarrow> nat set \<Rightarrow> nat list \<Rightarrow> nat \<Rightarrow> bool" where
  "room s X bs k \<longleftrightarrow> finite X \<and> load X bs + k + 1 < log_size s \<and> load X bs + k + 2 < NBUF"

lemma load_length: "finite X \<Longrightarrow> distinct bs \<Longrightarrow> length bs \<le> load X bs"
  by (simp add: load_def card_mono flip: distinct_card)

lemma load_add: "load X (add_block bs n) \<le> load X bs + 1" "n \<in> X \<Longrightarrow> load X (add_block bs n) = load X bs"
proof -
  have e: "set (add_block bs n) \<union> X = insert n (set bs \<union> X)" by (auto simp: add_block_def)
  show "load X (add_block bs n) \<le> load X bs + 1" unfolding load_def e by (cases "finite (set bs \<union> X)") (simp_all add: card_insert_if)
  show "n \<in> X \<Longrightarrow> load X (add_block bs n) = load X bs" unfolding load_def e by (simp add: insert_absorb)
qed

lemma room_len: "txn D s H L bs \<Longrightarrow> room s X bs k \<Longrightarrow> length bs + k + 1 < log_size s \<and> length bs + k + 2 < NBUF"
  using load_length[of X bs] txnD(3)[of D s H L bs] by (simp add: room_def)

lemma room_still: "still s s' \<Longrightarrow> room s' X bs k = room s X bs k"
  using still_logd[of s s'] by (simp add: room_def)

lemma room_load: "room s X bs k \<Longrightarrow> load X bs' + j \<le> load X bs + k \<Longrightarrow> room s X bs' j"
  by (simp add: room_def)

lemma txn_log_write:
  assumes "txn D s H L bs" "H b = Some n" "outside (log_start s) (log_size s) n" "n < 2 ^ 32" "room s X bs 0"
  obtains s1 s' where "set_data b d s = Inr ((), s1)" "log_write b s1 = Inr ((), s')" "txn D s' H (L(n := d)) (add_block bs n)" "still s s'"
proof -
  obtain s1 where 1: "set_data b d s = Inr ((), s1)" "crep s1 H (L(n := d)) D (wtrace s) (hpins bs H)" "kept s s1"
    using set_data_law[OF txnD(1)[OF assms(1)] assms(2)] by blast
  have k: "log_rep s1 (log_start s) bs" "log_size s1 = log_size s" "1 \<le> log_outstanding s1" "log_start s1 = log_start s"
    using txnD(2,4)[OF assms(1)] kept_logd[OF 1(3)] kept_rep[OF 1(3)] by simp_all
  obtain s' f where 2: "log_write b s1 = Inr ((), s')" "crep s' H (L(n := d)) D (wtrace s) (if n \<in> set bs then hpins bs H else (hpins bs H)(n := hpins bs H n + 1))"
     "log_rep s' (log_start s) (add_block bs n)" "kept (s1\<lparr>lh_n := int (length (add_block bs n)), lh_block := f\<rparr>) s'"
    using log_write_law[OF 1(2) assms(2) k(1) txnD(3)[OF assms(1)]] k(2,3) room_len[OF assms(1,5)] by (auto simp: NBUF_def LOGSIZE_def MAXOPBLOCKS_def)
  have p: "(if n \<in> set bs then hpins bs H else (hpins bs H)(n := hpins bs H n + 1)) = hpins (add_block bs n) H"
    by (auto simp: fun_eq_iff hpins_def pins_def add_block_def)
  have w: "wtrace s' = wtrace s" using crepD(4)[OF 2(2)] .
  have st: "still s s'" by (rule still_trans[OF kept_still2[OF 1(3)] kept_still[OF 2(4)]])
  have t: "txn D s' H (L(n := d)) (add_block bs n)"
    using txnD[OF assms(1)] 2(2,3) still_logd[OF st] assms(3,4) room_len[OF assms(1,5)] unfolding p
    by (auto simp: txn_def log_ok_def w add_block_def)
  show thesis by (rule that[OF 1(1) 2(1) t st])
qed

section \<open>The free map\<close>

definition used :: "superblock \<Rightarrow> (nat \<Rightarrow> memory) \<Rightarrow> nat \<Rightarrow> bool" where
  "used sblk L b = block_bit (L (BBLOCK b sblk)) (b mod BPB)"

text \<open>The blocks that hold the free map and the inodes.\<close>

definition bitmap :: "superblock \<Rightarrow> nat set" where
  "bitmap sblk = {BBLOCK b sblk | b. b < sb_size sblk}"

definition iblocks :: "superblock \<Rightarrow> nat set" where
  "iblocks sblk = {IBLOCK i sblk | i. i < sb_ninodes sblk}"

definition meta :: "superblock \<Rightarrow> nat set" where
  "meta sblk = bitmap sblk \<union> iblocks sblk"

text \<open>The free map of a file system: the log and the metadata are outside of what \<^verbatim>\<open>balloc\<close> may give out.\<close>

definition map_ok :: "'z kst_scheme \<Rightarrow> (nat \<Rightarrow> memory) \<Rightarrow> bool" where
  "map_ok s L \<longleftrightarrow> sb_size (sb s) < 2 ^ 32 \<and> bitmap (sb s) \<inter> iblocks (sb s) = {} \<and> (\<forall>n\<in>meta (sb s). outside (log_start s) (log_size s) n \<and> n < 2 ^ 32) \<and>
     (\<forall>b < sb_size (sb s). \<not> used (sb s) L b \<longrightarrow> b \<noteq> 0 \<and> outside (log_start s) (log_size s) b \<and> b \<notin> meta (sb s))"

lemma block_bit_bit: "block_bit d i = bit (d (i div 8)) (i mod 8)"
  by (simp only: block_bit_def bit_iff_and_push_bit_not_eq_0)

lemma bits:
  shows "block_bit (set_bit_at d i) j \<longleftrightarrow> j = i \<or> block_bit d j"
    and "block_bit (clear_bit_at d i) j \<longleftrightarrow> j \<noteq> i \<and> block_bit d j"
proof -
  have e: "j = i \<longleftrightarrow> j div 8 = i div 8 \<and> j mod 8 = i mod 8" by (metis div_mult_mod_eq)
  have p: "bit (push_bit k 1 :: byte) l \<longleftrightarrow> l = k" if "k < 8" "l < 8" for k l
    using that by (auto simp: bit_simps)
  show "block_bit (set_bit_at d i) j \<longleftrightarrow> j = i \<or> block_bit d j"
    unfolding block_bit_bit set_bit_at_def e using p[of "i mod 8" "j mod 8"] by (auto simp: bit_or_iff simp del: push_bit_of_1)
  show "block_bit (clear_bit_at d i) j \<longleftrightarrow> j \<noteq> i \<and> block_bit d j"
    unfolding block_bit_bit clear_bit_at_def e using p[of "i mod 8" "j mod 8"] by (auto simp: bit_and_iff bit_not_iff simp del: push_bit_of_1)
qed

lemma BBLOCK_same: "j < BPB \<Longrightarrow> BPB dvd b \<Longrightarrow> BBLOCK (b + j) sblk = BBLOCK b sblk \<and> (b + j) mod BPB = j"
  by (auto simp: BBLOCK_def BPB_def BSIZE_def elim!: dvdE)

lemma used_set: "used sblk (L(BBLOCK b sblk := set_bit_at (L (BBLOCK b sblk)) (b mod BPB))) c \<longleftrightarrow> c = b \<or> used sblk L c"
proof -
  have "c = b \<longleftrightarrow> c div BPB = b div BPB \<and> c mod BPB = b mod BPB" by (metis div_mult_mod_eq)
  then show ?thesis by (auto simp: used_def bits BBLOCK_def)
qed

lemma used_clear: "used sblk (L(BBLOCK b sblk := clear_bit_at (L (BBLOCK b sblk)) (b mod BPB))) c \<longleftrightarrow> c \<noteq> b \<and> used sblk L c"
proof -
  have "c = b \<longleftrightarrow> c div BPB = b div BPB \<and> c mod BPB = b mod BPB" by (metis div_mult_mod_eq)
  then show ?thesis by (auto simp: used_def bits BBLOCK_def)
qed

lemma used_other: "n \<notin> meta sblk \<Longrightarrow> c < sb_size sblk \<Longrightarrow> used sblk (L(n := d)) c = used sblk L c"
  by (auto simp: used_def meta_def bitmap_def)

lemma BBLOCK_meta: "b < sb_size sblk \<Longrightarrow> BBLOCK b sblk \<in> meta sblk \<and> BBLOCK b sblk \<in> bitmap sblk"
  by (auto simp: meta_def bitmap_def)

lemma txn_release:
  assumes "txn D s (H(b \<mapsto> n)) L bs" "H b = None"
  obtains s' where "brelse b s = Inr ((), s')" "txn D s' H L bs" "still s s'"
proof -
  obtain s' where "brelse b s = Inr ((), s')" "txn D s' ((H(b \<mapsto> n))(b := None)) L bs" "still s s'" by (rule txn_brelse[OF assms(1), of b n]) simp
  moreover have "(H(b \<mapsto> n))(b := None) = H" using assms(2) by auto
  ultimately show thesis using that by simp
qed

lemma txn_logged_update:
  assumes "txn D s H L bs" "n \<notin> ran H" "card (ran H) \<le> 2" "outside (log_start s) (log_size s) n" "n < 2 ^ 32" "room s X bs 0"
  obtains s' where "logged_update n f s = Inr ((), s')" "txn D s' H (L(n := f (L n))) (add_block bs n)" "still s s'"
proof -
  obtain b s1 where 1: "bread ROOTDEV n s = Inr (b, s1)" "H b = None" "txn D s1 (H(b \<mapsto> n)) L bs" "still s s1" "bdata (bufs s1 b) = L n"
    by (rule txn_bread[OF assms(1,2)]) (use assms(3) room_len[OF assms(1,6)] in simp_all)
  obtain s2 s3 where 2: "set_data b (f (L n)) s1 = Inr ((), s2)" "log_write b s2 = Inr ((), s3)" "txn D s3 (H(b \<mapsto> n)) (L(n := f (L n))) (add_block bs n)" "still s1 s3"
    by (rule txn_log_write[OF 1(3), of b n X "f (L n)"]) (use assms(4-6) still_logd[OF 1(4)] room_still[OF 1(4)] in simp_all)
  obtain s4 where 3: "brelse b s3 = Inr ((), s4)" "txn D s4 H (L(n := f (L n))) (add_block bs n)" "still s3 s4"
    by (rule txn_release[OF 2(3) 1(2)])
  have "logged_update n f s = Inr ((), s4)" by (simp add: logged_update_def run_simps buf_data_def 1(1,5) 2(1,2) 3(1))
  then show thesis using that 3(2) still_trans[OF still_trans[OF 1(4) 2(4)] 3(3)] by blast
qed

definition alloc :: "superblock \<Rightarrow> (nat \<Rightarrow> memory) \<Rightarrow> nat \<Rightarrow> nat \<Rightarrow> memory" where
  "alloc sblk L b = (L(BBLOCK b sblk := set_bit_at (L (BBLOCK b sblk)) (b mod BPB)))(b := memset (L b) 0 0 BSIZE)"

lemma free_bit_Some: "free_bit d b sz = Some i \<Longrightarrow> i < BPB \<and> b + i < sz \<and> \<not> block_bit d i"
  by (auto simp: free_bit_def find_Some_iff)

lemma free_bit_None: "free_bit d b sz = None \<Longrightarrow> i < BPB \<Longrightarrow> b + i < sz \<Longrightarrow> block_bit d i"
  by (auto simp: free_bit_def find_None_iff)

lemma bzero_logged: "bzero ROOTDEV n = logged_update n (\<lambda>d. memset d 0 0 BSIZE)"
  by (simp add: bzero_def logged_update_def)

lemma map_ok_free: "map_ok s L \<Longrightarrow> b < sb_size (sb s) \<Longrightarrow> \<not> used (sb s) L b \<Longrightarrow> b \<noteq> 0 \<and> b < 2 ^ 32 \<and> outside (log_start s) (log_size s) b \<and> b \<notin> meta (sb s)"
  by (auto simp: map_ok_def)

lemma balloc_loop_law:
  fixes s :: "'z kst_scheme"
  assumes "txn D s H L bs" "map_ok s L" "room s X bs 0" "bitmap (sb s) \<subseteq> X" "card (ran H) \<le> 1" "ran H \<inter> meta (sb s) = {}" "\<forall>n\<in>ran H. used (sb s) L n"
    "BPB dvd b" "b \<le> c" "c < b + k * BPB" "c < sb_size (sb s)" "\<not> used (sb s) L c"
  shows "\<exists>a s' bs'. balloc_loop ROOTDEV k b s = Inr (a, s') \<and> a < sb_size (sb s) \<and> \<not> used (sb s) L a \<and>
    txn D s' H (alloc (sb s) L a) bs' \<and> still s s' \<and> set bs' = insert a (insert (BBLOCK a (sb s)) (set bs))"
  using assms
proof (induction k arbitrary: b s)
  case (Suc k)
  let ?n = "BBLOCK b (sb s)"
  have m: "?n \<in> meta (sb s)" "?n \<in> X" using Suc.prems(4,9,11) BBLOCK_meta[of b "sb s"] by auto
  have o: "outside (log_start s) (log_size s) ?n" "?n < 2 ^ 32" using Suc.prems(2) m by (auto simp: map_ok_def)
  obtain bp s1 where 1: "bread ROOTDEV ?n s = Inr (bp, s1)" "H bp = None" "txn D s1 (H(bp \<mapsto> ?n)) L bs" "still s s1" "bdata (bufs s1 bp) = L ?n"
    by (rule txn_bread[OF Suc.prems(1), of ?n]) (use m Suc.prems(5,6) room_len[OF Suc.prems(1,3)] in auto)
  note k1 = still_kst[OF 1(4)] room_still[OF 1(4)]
  show ?case
  proof (cases "free_bit (L ?n) b (sb_size (sb s))")
    case None
    obtain s2 where 2: "brelse bp s1 = Inr ((), s2)" "txn D s2 H L bs" "still s1 s2"
      by (rule txn_release[OF 1(3,2)])
    have st: "still s s2" by (rule still_trans[OF 1(4) 2(3)])
    note k2 = still_kst[OF st] room_still[OF st]
    have c: "b + BPB \<le> c"
    proof (rule ccontr)
      assume "\<not> b + BPB \<le> c"
      then have "c - b < BPB" "b + (c - b) = c" using Suc.prems(9) by auto
      then have "used (sb s) L c" using free_bit_None[OF None, of "c - b"] BBLOCK_same[OF _ Suc.prems(8), of "c - b" "sb s"] Suc.prems(11) by (simp add: used_def)
      then show False using Suc.prems(12) by simp
    qed
    have "map_ok s2 L" using Suc.prems(2) k2 by (simp add: map_ok_def)
    from Suc.IH[OF 2(2) this, of "b + BPB"] Suc.prems(3-8,10-12) k2 c
    obtain a s' bs' where "balloc_loop ROOTDEV k (b + BPB) s2 = Inr (a, s')" "a < sb_size (sb s)" "\<not> used (sb s) L a" "txn D s' H (alloc (sb s) L a) bs'" "still s2 s'" "set bs' = insert a (insert (BBLOCK a (sb s)) (set bs))"
      by (auto simp: algebra_simps)
    then show ?thesis using still_trans[OF st] by (intro exI[of _ a] exI[of _ s'] exI[of _ bs']) (simp add: run_simps buf_data_def 1(1,5) None 2(1) cong: option.case_cong)
  next
    case (Some i)
    let ?a = "b + i"
    note f = free_bit_Some[OF Some]
    have e: "BBLOCK ?a (sb s) = ?n" "?a mod BPB = i" using BBLOCK_same[OF _ Suc.prems(8)] f by auto
    have u: "\<not> used (sb s) L ?a" using f e by (simp add: used_def)
    note fr = map_ok_free[OF Suc.prems(2) _ u]
    let ?L1 = "L(?n := set_bit_at (L ?n) i)"
    obtain s2 s3 where 2: "set_data bp (set_bit_at (L ?n) i) s1 = Inr ((), s2)" "log_write bp s2 = Inr ((), s3)" "txn D s3 (H(bp \<mapsto> ?n)) ?L1 (add_block bs ?n)" "still s1 s3"
      by (rule txn_log_write[OF 1(3), of bp ?n X "set_bit_at (L ?n) i"]) (use o k1 Suc.prems(3) in auto)
    obtain s4 where 3: "brelse bp s3 = Inr ((), s4)" "txn D s4 H ?L1 (add_block bs ?n)" "still s3 s4"
      by (rule txn_release[OF 2(3) 1(2)])
    have st: "still s s4" by (rule still_trans[OF still_trans[OF 1(4) 2(4)] 3(3)])
    note k4 = still_kst[OF st] room_still[OF st]
    have ah: "?a \<notin> ran H" using Suc.prems(7) u by blast
    have r0: "room s4 X (add_block bs ?n) 0" using room_load[OF Suc.prems(3), of "add_block bs ?n" 0] load_add(2)[OF m(2)] k4 by simp
    obtain s5 where 4: "bzero ROOTDEV ?a s4 = Inr ((), s5)" "txn D s5 H (?L1(?a := memset (?L1 ?a) 0 0 BSIZE)) (add_block (add_block bs ?n) ?a)" "still s4 s5"
      unfolding bzero_logged
      by (rule txn_logged_update[OF 3(2) ah, where f = "\<lambda>d. memset d 0 0 BSIZE" and X = X]) (use Suc.prems(5) fr f k4 r0 in auto)
    have al: "alloc (sb s) L ?a = ?L1(?a := memset (?L1 ?a) 0 0 BSIZE)" using e fr f m by (auto simp: alloc_def)
    have l: "set (add_block (add_block bs ?n) ?a) = insert ?a (insert (BBLOCK ?a (sb s)) (set bs))" using e by (auto simp: add_block_def)
    have "balloc_loop ROOTDEV (Suc k) b s = Inr (?a, s5)"
      by (simp add: run_simps buf_data_def 1(1,5) Some 2(1,2) 3(1) 4(1) cong: option.case_cong)
    then show ?thesis using f u 4(2)[folded al] l still_trans[OF st 4(3)] by blast
  qed
qed simp

lemma balloc_law:
  fixes s :: "'z kst_scheme"
  assumes "txn D s H L bs" "map_ok s L" "room s X bs 0" "bitmap (sb s) \<subseteq> X" "card (ran H) \<le> 1" "ran H \<inter> meta (sb s) = {}" "\<forall>n\<in>ran H. used (sb s) L n"
    "c < sb_size (sb s)" "\<not> used (sb s) L c"
  obtains a s' bs' where "balloc ROOTDEV s = Inr (a, s')" "a < sb_size (sb s)" "\<not> used (sb s) L a"
    "txn D s' H (alloc (sb s) L a) bs'" "still s s'" "set bs' = insert a (insert (BBLOCK a (sb s)) (set bs))"
proof -
  have "c < (sb_size (sb s) + (BPB - 1)) div BPB * BPB"
    using assms(8) div_mult_mod_eq[of "sb_size (sb s) + (BPB - 1)" BPB] mod_less_divisor[of BPB "sb_size (sb s) + (BPB - 1)"] by (simp add: BPB_def BSIZE_def)
  then show thesis using balloc_loop_law[OF assms(1-7), of 0 c "(sb_size (sb s) + (BPB - 1)) div BPB"] assms(8,9) that by (auto simp: balloc_def run_simps)
qed

lemma used_alloc: "a < sb_size sblk \<Longrightarrow> a \<notin> meta sblk \<Longrightarrow> c < sb_size sblk \<Longrightarrow> used sblk (alloc sblk L a) c \<longleftrightarrow> c = a \<or> used sblk L c"
  by (simp add: alloc_def used_other used_set)

lemma alloc_other: "n \<noteq> a \<Longrightarrow> n \<noteq> BBLOCK a sblk \<Longrightarrow> alloc sblk L a n = L n"
  by (simp add: alloc_def)

lemma map_ok_alloc: "map_ok s L \<Longrightarrow> a < sb_size (sb s) \<Longrightarrow> a \<notin> meta (sb s) \<Longrightarrow> map_ok s (alloc (sb s) L a)"
  by (auto simp: map_ok_def used_alloc)

lemma map_ok_still: "still s s' \<Longrightarrow> map_ok s' L = map_ok s L"
  using still_kst[of s s'] by (simp add: map_ok_def)

text \<open>\<^verbatim>\<open>bfree\<close> of a block that is in use, and the panic on one that is free already.\<close>

lemma bfree_law:
  fixes s :: "'z kst_scheme"
  assumes "txn D s H L bs" "map_ok s L" "room s X bs 0" "card (ran H) \<le> 1" "ran H \<inter> meta (sb s) = {}" "b < sb_size (sb s)"
  shows "used (sb s) L b \<Longrightarrow> \<exists>s'. bfree ROOTDEV b s = Inr ((), s') \<and>
      txn D s' H (L(BBLOCK b (sb s) := clear_bit_at (L (BBLOCK b (sb s))) (b mod BPB))) (add_block bs (BBLOCK b (sb s))) \<and> still s s'"
    "\<not> used (sb s) L b \<Longrightarrow> bfree ROOTDEV b s = Inl (Panic ''freeing free block'')"
proof -
  let ?n = "BBLOCK b (sb s)"
  have m: "?n \<in> meta (sb s)" using BBLOCK_meta[OF assms(6)] by simp
  have o: "outside (log_start s) (log_size s) ?n" "?n < 2 ^ 32" using assms(2) m by (auto simp: map_ok_def)
  obtain bp s1 where 1: "bread ROOTDEV ?n s = Inr (bp, s1)" "H bp = None" "txn D s1 (H(bp \<mapsto> ?n)) L bs" "still s s1" "bdata (bufs s1 bp) = L ?n"
    by (rule txn_bread[OF assms(1), of ?n]) (use m assms(4,5) room_len[OF assms(1,3)] in auto)
  note k1 = still_kst[OF 1(4)] room_still[OF 1(4)]
  show "\<not> used (sb s) L b \<Longrightarrow> bfree ROOTDEV b s = Inl (Panic ''freeing free block'')"
    by (simp add: bfree_def run_simps buf_data_def 1(1,5) used_def panic_def)
  assume u: "used (sb s) L b"
  let ?d = "clear_bit_at (L ?n) (b mod BPB)"
  obtain s2 s3 where 2: "set_data bp ?d s1 = Inr ((), s2)" "log_write bp s2 = Inr ((), s3)" "txn D s3 (H(bp \<mapsto> ?n)) (L(?n := ?d)) (add_block bs ?n)" "still s1 s3"
    by (rule txn_log_write[OF 1(3), of bp ?n X ?d]) (use o k1 assms(3) in auto)
  obtain s4 where 3: "brelse bp s3 = Inr ((), s4)" "txn D s4 H (L(?n := ?d)) (add_block bs ?n)" "still s3 s4" by (rule txn_release[OF 2(3) 1(2)])
  have "bfree ROOTDEV b s = Inr ((), s4)" using u by (simp add: bfree_def run_simps buf_data_def 1(1,5) used_def 2(1,2) 3(1))
  then show "\<exists>s'. bfree ROOTDEV b s = Inr ((), s') \<and> txn D s' H (L(?n := ?d)) (add_block bs ?n) \<and> still s s'"
    using 3(2) still_trans[OF still_trans[OF 1(4) 2(4)] 3(3)] by blast
qed

end
