(* ===== verification/Files.thy ===== *)
theory Files
  imports Txn Virtio Vm_User
begin

text \<open>
  The contents of files: the block map of an inode (\<^verbatim>\<open>bmap\<close>) and \<^verbatim>\<open>readi\<close> and \<^verbatim>\<open>writei\<close> on it. A file is a list of bytes, those of the
  blocks that its inode lists; the invariant says that these blocks are distinct, in use, and none of them is metadata.
\<close>

section \<open>The blocks of a file\<close>

definition baddr :: "(nat \<Rightarrow> memory) \<Rightarrow> inode \<Rightarrow> nat \<Rightarrow> nat" where
  "baddr L ip k = (if k < NDIRECT then iaddrs ip k
     else if iaddrs ip NDIRECT = 0 then 0 else unat (load32 (L (iaddrs ip NDIRECT)) (4 * (k - NDIRECT))))"

definition good :: "'z kst_scheme \<Rightarrow> (nat \<Rightarrow> memory) \<Rightarrow> nat \<Rightarrow> bool" where
  "good s L n \<longleftrightarrow> n < sb_size (sb s) \<and> used (sb s) L n \<and> n \<notin> meta (sb s) \<and> outside (log_start s) (log_size s) n"

definition file_ok :: "'z kst_scheme \<Rightarrow> (nat \<Rightarrow> memory) \<Rightarrow> inode \<Rightarrow> bool" where
  "file_ok s L ip \<longleftrightarrow> (\<forall>j < MAXFILE. \<forall>k < MAXFILE. baddr L ip j \<noteq> 0 \<longrightarrow> baddr L ip j = baddr L ip k \<longrightarrow> j = k) \<and>
     (\<forall>k < MAXFILE. baddr L ip k \<noteq> 0 \<longrightarrow> baddr L ip k \<noteq> iaddrs ip NDIRECT \<and> good s L (baddr L ip k)) \<and>
     (iaddrs ip NDIRECT \<noteq> 0 \<longrightarrow> good s L (iaddrs ip NDIRECT))"

definition frees :: "'z kst_scheme \<Rightarrow> (nat \<Rightarrow> memory) \<Rightarrow> nat set" where
  "frees s L = {b. b < sb_size (sb s) \<and> \<not> used (sb s) L b}"

text \<open>Nothing but the cache, the log and the entry \<open>i\<close> of the inode table changes.\<close>

definition touches :: "nat \<Rightarrow> 'z kst_scheme \<Rightarrow> 'z kst_scheme \<Rightarrow> bool" where
  "touches i s s' \<longleftrightarrow> still (s\<lparr>itable := (itable s)(i := itable s' i)\<rparr>) s'"

definition fstate :: "(nat \<Rightarrow> memory) \<Rightarrow> nat \<Rightarrow> 'z kst_scheme \<Rightarrow> (nat \<Rightarrow> memory) \<Rightarrow> nat list \<Rightarrow> bool" where
  "fstate D i s L bs \<longleftrightarrow> txn D s Map.empty L bs \<and> map_ok s L \<and> file_ok s L (itable s i) \<and> idev (itable s i) = ROOTDEV"

definition fblocks :: "(nat \<Rightarrow> memory) \<Rightarrow> inode \<Rightarrow> nat set" where
  "fblocks L ip = insert (iaddrs ip NDIRECT) (baddr L ip ` {..<MAXFILE})"

text \<open>What \<^verbatim>\<open>bmap\<close> may do to the blocks and the inode to give the file its block \<open>k\<close> at \<open>a\<close>.\<close>

definition grown :: "'z kst_scheme \<Rightarrow> (nat \<Rightarrow> memory) \<Rightarrow> inode \<Rightarrow> nat \<Rightarrow> (nat \<Rightarrow> memory) \<Rightarrow> inode \<Rightarrow> nat \<Rightarrow> bool" where
  "grown s L ip k L' ip' a \<longleftrightarrow> (\<exists>f. ip' = ip\<lparr>iaddrs := f\<rparr>) \<and> baddr L' ip' k = a \<and> a \<noteq> 0 \<and>
     (\<forall>j < MAXFILE. j \<noteq> k \<longrightarrow> baddr L' ip' j = baddr L ip j) \<and>
     (baddr L ip k \<noteq> 0 \<longrightarrow> L' = L \<and> ip' = ip) \<and>
     (\<forall>n. n \<notin> bitmap (sb s) \<longrightarrow> (n < sb_size (sb s) \<longrightarrow> used (sb s) L n) \<longrightarrow> n \<noteq> iaddrs ip NDIRECT \<longrightarrow> L' n = L n) \<and>
     (\<forall>n < sb_size (sb s). used (sb s) L n \<longrightarrow> used (sb s) L' n) \<and>
     card (frees s L) \<le> card (frees s L') + (if baddr L ip k = 0 then 2 else 0) \<and>
     (iaddrs ip NDIRECT \<noteq> 0 \<or> k < NDIRECT \<longrightarrow> iaddrs ip' NDIRECT = iaddrs ip NDIRECT) \<and>
     fblocks L' ip' \<subseteq> fblocks L ip \<union> frees s L"

section \<open>Frames\<close>

lemma still_itable: "still s t \<Longrightarrow> still (s\<lparr>itable := f\<rparr>) (t\<lparr>itable := f\<rparr>)" for s t :: "'z kst_scheme"
proof -
  assume "still s t"
  then obtain B nx pv d w n g where t: "t = s\<lparr>bufs := B, bnext := nx, bprev := pv, disk := d, wtrace := w, lh_n := n, lh_block := g\<rparr>"
    by (auto simp: still_def)
  show ?thesis by (rule stillI[where B = B and nx = nx and pv = pv and d = d and w = w and n = n and f = g]) (simp add: t)
qed

lemma touches_still: "still s t \<Longrightarrow> touches i s t"
  using still_kst[of s t] by (simp add: touches_def)

lemma touches_trans:
  assumes "touches i s t" "touches i t u"
  shows "touches i s u"
proof -
  have t: "still (s\<lparr>itable := (itable s)(i := itable t i)\<rparr>) t" "itable t = (itable s)(i := itable t i)"
    using assms(1) still_kst[of "s\<lparr>itable := (itable s)(i := itable t i)\<rparr>" t] by (simp_all add: touches_def)
  have e: "(itable t)(i := itable u i) = (itable s)(i := itable u i)" by (subst t(2)) simp
  have "still (s\<lparr>itable := (itable t)(i := itable u i)\<rparr>) (t\<lparr>itable := (itable t)(i := itable u i)\<rparr>)"
    using still_itable[OF t(1), of "(itable t)(i := itable u i)"] by simp
  then show ?thesis using still_trans[of _ "t\<lparr>itable := (itable t)(i := itable u i)\<rparr>" u] assms(2) e by (simp add: touches_def)
qed

lemma touches_kst: "touches i s t \<Longrightarrow> sb t = sb s \<and> log_start t = log_start s \<and> log_size t = log_size s \<and> ftable t = ftable s \<and> ptable t = ptable s \<and> curp t = curp s \<and> pm t = pm s \<and> freelist t = freelist s \<and> kend t = kend s \<and> (\<forall>j. j \<noteq> i \<longrightarrow> itable t j = itable s j)"
proof -
  assume "touches i s t"
  then have k: "sb t = sb s" "log_start t = log_start s" "log_size t = log_size s" "ftable t = ftable s" "ptable t = ptable s" "curp t = curp s" "pm t = pm s" "freelist t = freelist s" "kend t = kend s"
      "itable t = (itable s)(i := itable t i)"
    using still_kst[of "s\<lparr>itable := (itable s)(i := itable t i)\<rparr>" t] by (simp_all add: touches_def)
  then show ?thesis using fun_upd_other[of _ i "itable s" "itable t i"] by metis
qed

lemma touches_room: "touches i s t \<Longrightarrow> room t X bs k = room s X bs k"
  using touches_kst[of i s t] by (simp add: room_def)

lemma touches_upd: "itable s' = (itable s)(i := x) \<Longrightarrow> s' = s\<lparr>itable := (itable s)(i := x)\<rparr> \<Longrightarrow> touches i s s'"
  by (simp add: touches_def)

lemma txn_itable [simp]: "txn D (s\<lparr>itable := f\<rparr>) H L bs = txn D s H L bs"
proof -
  have c: "crep (s\<lparr>itable := f\<rparr>) = crep s" by (rule crep_cong) simp_all
  show ?thesis by (simp add: txn_def c log_ok_def log_rep_def)
qed

lemma same_kst:
  assumes "sb t = sb s" "log_start t = log_start s" "log_size t = log_size s"
  shows "map_ok t = map_ok s" "good t = good s" "file_ok t = file_ok s" "frees t = frees s"
proof -
  show "map_ok t = map_ok s" "good t = good s" "frees t = frees s" by (simp_all add: fun_eq_iff map_ok_def good_def frees_def assms)
  then show "file_ok t = file_ok s" by (simp add: fun_eq_iff file_ok_def)
qed

lemma touches_same: "touches i s t \<Longrightarrow> map_ok t = map_ok s \<and> good t = good s \<and> file_ok t = file_ok s \<and> frees t = frees s"
  using same_kst[of t s] touches_kst[of i s t] by simp

section \<open>Growing a file\<close>

lemma fileD:
  assumes "file_ok s L ip"
  shows "\<lbrakk>j < MAXFILE; k < MAXFILE; baddr L ip j \<noteq> 0; baddr L ip j = baddr L ip k\<rbrakk> \<Longrightarrow> j = k"
    "\<lbrakk>k < MAXFILE; baddr L ip k \<noteq> 0\<rbrakk> \<Longrightarrow> baddr L ip k \<noteq> iaddrs ip NDIRECT"
    "\<lbrakk>k < MAXFILE; baddr L ip k \<noteq> 0\<rbrakk> \<Longrightarrow> good s L (baddr L ip k)"
    "iaddrs ip NDIRECT \<noteq> 0 \<Longrightarrow> good s L (iaddrs ip NDIRECT)"
  using assms unfolding file_ok_def by blast+

lemma goodD: "good s L n \<Longrightarrow> n < sb_size (sb s)" "good s L n \<Longrightarrow> used (sb s) L n" "good s L n \<Longrightarrow> n \<notin> meta (sb s)"
    "good s L n \<Longrightarrow> outside (log_start s) (log_size s) n" "good s L n \<Longrightarrow> n \<notin> bitmap (sb s)" "map_ok s L' \<Longrightarrow> good s L n \<Longrightarrow> n < 2 ^ 32"
  by (auto simp: good_def map_ok_def meta_def)

lemma file_grow:
  assumes "file_ok s L ip" "\<forall>j < MAXFILE. j \<noteq> k \<longrightarrow> baddr L' ip' j = baddr L ip j" "baddr L' ip' k = a" "\<And>n. good s L n \<Longrightarrow> good s L' n"
    "good s L' a" "\<not> used (sb s) L a" "iaddrs ip' NDIRECT = iaddrs ip NDIRECT"
  shows "file_ok s L' ip'"
proof -
  have old: "baddr L ip j \<noteq> a" if "j < MAXFILE" "baddr L ip j \<noteq> 0" for j using fileD(3)[OF assms(1) that] assms(6) goodD(2) by auto
  have ind: "iaddrs ip NDIRECT \<noteq> a \<or> a = 0" using fileD(4)[OF assms(1)] assms(6) goodD(2) by auto
  have "j = l" if "j < MAXFILE" "l < MAXFILE" "baddr L' ip' j \<noteq> 0" "baddr L' ip' j = baddr L' ip' l" for j l
    using that assms(2,3) old fileD(1)[OF assms(1), of j l] by (cases "j = k"; cases "l = k") auto
  moreover have "baddr L' ip' j \<noteq> iaddrs ip' NDIRECT \<and> good s L' (baddr L' ip' j)" if "j < MAXFILE" "baddr L' ip' j \<noteq> 0" for j
    using that assms(2-5,7) ind fileD(2,3)[OF assms(1), of j] by (cases "j = k") auto
  moreover have "iaddrs ip' NDIRECT \<noteq> 0 \<longrightarrow> good s L' (iaddrs ip' NDIRECT)" using assms(4,7) fileD(4)[OF assms(1)] by auto
  ultimately show ?thesis unfolding file_ok_def by blast
qed

lemma fblocks_grow:
  assumes "\<forall>j < MAXFILE. j \<noteq> k \<longrightarrow> baddr L' ip' j = baddr L ip j" "baddr L' ip' k \<in> F" "iaddrs ip' NDIRECT = iaddrs ip NDIRECT"
  shows "fblocks L' ip' \<subseteq> fblocks L ip \<union> F"
proof
  fix x assume "x \<in> fblocks L' ip'"
  then consider "x = iaddrs ip NDIRECT" | m where "m < MAXFILE" "x = baddr L' ip' m" using assms(3) by (auto simp: fblocks_def)
  then show "x \<in> fblocks L ip \<union> F"
  proof cases
    case (2 m)
    then show ?thesis using assms(1,2) by (cases "m = k") (auto simp: fblocks_def)
  qed (simp add: fblocks_def)
qed

lemma good_alloc:
  assumes "map_ok s L" "a \<in> frees s L"
  shows "good s L n \<Longrightarrow> good s (alloc (sb s) L a) n" "good s (alloc (sb s) L a) a" "a \<noteq> 0" "a < 2 ^ 32" "map_ok s (alloc (sb s) L a)"
    "a \<notin> meta (sb s)" "frees s (alloc (sb s) L a) = frees s L - {a}"
proof -
  have a: "a < sb_size (sb s)" "\<not> used (sb s) L a" using assms(2) by (simp_all add: frees_def)
  note f = map_ok_free[OF assms(1) a]
  show "a \<noteq> 0" "a < 2 ^ 32" "a \<notin> meta (sb s)" using f by auto
  show "map_ok s (alloc (sb s) L a)" by (rule map_ok_alloc[OF assms(1) a(1)]) (use f in simp)
  show "good s L n \<Longrightarrow> good s (alloc (sb s) L a) n" "good s (alloc (sb s) L a) a" using a f by (auto simp: good_def used_alloc)
  show "frees s (alloc (sb s) L a) = frees s L - {a}" using a f by (auto simp: frees_def used_alloc)
qed

lemma alloc_good: "good s L n \<Longrightarrow> map_ok s L \<Longrightarrow> a \<in> frees s L \<Longrightarrow> alloc (sb s) L a n = L n"
  by (rule alloc_other) (auto simp: good_def frees_def meta_def bitmap_def)

lemma baddr_alloc: "file_ok s L ip \<Longrightarrow> map_ok s L \<Longrightarrow> a \<in> frees s L \<Longrightarrow> baddr (alloc (sb s) L a) ip k = baddr L ip k"
  using fileD(4)[of s L ip] alloc_good[of s L "iaddrs ip NDIRECT" a] by (simp add: baddr_def)

lemma alloc_zero: "x < BSIZE \<Longrightarrow> alloc sblk L a a x = 0"
  by (simp add: alloc_def memset_same)

lemma alloc_frame: "a \<in> frees s L \<Longrightarrow> n \<notin> bitmap (sb s) \<Longrightarrow> (n < sb_size (sb s) \<longrightarrow> used (sb s) L n) \<Longrightarrow> alloc (sb s) L a n = L n"
  by (rule alloc_other) (auto simp: frees_def bitmap_def)

lemma frees_card:
  assumes "map_ok s L" "a \<in> frees s L"
  shows "card (frees s L) = card (frees s (alloc (sb s) L a)) + 1"
proof -
  have "finite (frees s L)" by (simp add: frees_def)
  then show ?thesis using good_alloc(7)[OF assms] assms(2) card.remove[of "frees s L" a] by simp
qed

lemma used_alloc_mono: "map_ok s L \<Longrightarrow> a \<in> frees s L \<Longrightarrow> n < sb_size (sb s) \<Longrightarrow> used (sb s) L n \<Longrightarrow> used (sb s) (alloc (sb s) L a) n"
  using good_alloc(6)[of s L a] by (auto simp: frees_def used_alloc)

section \<open>The block map\<close>

text \<open>A block that the file has already is found without a change.\<close>

lemma bmap_found:
  assumes "fstate D i s L bs" "k < MAXFILE" "baddr L (itable s i) k \<noteq> 0" "length bs < NBUF"
  obtains s' where "bmap i k s = Inr (baddr L (itable s i) k, s')" "fstate D i s' L bs" "still s s'"
proof (cases "k < NDIRECT")
  case True
  then have "bmap i k s = Inr (baddr L (itable s i) k, s)" using assms(3) by (simp add: bmap_def run_simps baddr_def)
  then show thesis using that assms(1) by simp
next
  case False
  let ?ip = "itable s i" let ?n = "iaddrs (itable s i) NDIRECT"
  have n: "?n \<noteq> 0" "unat (load32 (L ?n) (4 * (k - NDIRECT))) = baddr L ?ip k" using False assms(3) by (simp_all add: baddr_def split: if_splits)
  have d: "txn D s Map.empty L bs" "idev ?ip = ROOTDEV" using assms(1) by (simp_all add: fstate_def)
  obtain b s1 where 1: "bread ROOTDEV ?n s = Inr (b, s1)" "Map.empty b = (None :: nat option)" "txn D s1 (Map.empty(b \<mapsto> ?n)) L bs" "still s s1" "bdata (bufs s1 b) = L ?n"
    by (rule txn_bread[OF d(1), of ?n]) (use assms(4) in auto)
  obtain s2 where 2: "brelse b s1 = Inr ((), s2)" "txn D s2 Map.empty L bs" "still s1 s2" by (rule txn_release[OF 1(3)]) simp
  have st: "still s s2" by (rule still_trans[OF 1(4) 2(3)])
  have "k - NDIRECT < NINDIRECT" using False assms(2) by (simp add: MAXFILE_def)
  then have "bmap i k s = Inr (baddr L ?ip k, s2)"
    using False assms(2,3) n d(2) by (simp add: bmap_def run_simps MAXFILE_def buf_data_def Let_def 1(1,5) 2(1))
  moreover have "fstate D i s2 L bs" using assms(1) 2(2) still_kst[OF st] same_kst[of s2 s] by (simp add: fstate_def)
  ultimately show thesis using that st by blast
qed

text \<open>A direct block, the indirect block, and a block listed in the indirect block are allocated.\<close>

lemma set_addr_run: "set_addr i bn a s = Inr ((), s\<lparr>itable := (itable s)(i := (itable s i)\<lparr>iaddrs := (iaddrs (itable s i))(bn := a)\<rparr>)\<rparr>)"
  by (simp add: set_addr_def inode_upd_def run_simps)

lemma balloc_file:
  assumes "txn D s H L bs" "map_ok s L" "room s X bs 0" "bitmap (sb s) \<subseteq> X" "card (ran H) \<le> 1" "\<forall>n\<in>ran H. good s L n" "frees s L \<noteq> {}"
  obtains a s' bs' where "balloc ROOTDEV s = Inr (a, s')" "a \<in> frees s L" "txn D s' H (alloc (sb s) L a) bs'" "still s s'"
    "set bs' = insert a (insert (BBLOCK a (sb s)) (set bs))" "load X bs' \<le> load X bs + 1"
proof -
  have l: "load X bs' \<le> load X bs + 1" if "set bs' = insert a (insert (BBLOCK a (sb s)) (set bs))" "a < sb_size (sb s)" for a bs'
  proof -
    have "set bs' \<union> X = insert a (set bs \<union> X)" using that assms(4) BBLOCK_meta[of a "sb s"] by auto
    then show ?thesis using assms(3) by (simp add: load_def room_def card_insert_if)
  qed
  obtain c where c: "c < sb_size (sb s)" "\<not> used (sb s) L c" using assms(7) by (auto simp: frees_def)
  have h: "ran H \<inter> meta (sb s) = {}" "\<forall>n\<in>ran H. used (sb s) L n" using assms(6) by (auto simp: good_def)
  show thesis by (rule balloc_law[OF assms(1-5) h c]) (use that l in \<open>auto simp: frees_def\<close>)
qed

lemma direct_grown:
  assumes "map_ok s L" "file_ok s L ip" "k < NDIRECT" "iaddrs ip k = 0" "a \<in> frees s L"
  shows "grown s L ip k (alloc (sb s) L a) (ip\<lparr>iaddrs := (iaddrs ip)(k := a)\<rparr>) a" "file_ok s (alloc (sb s) L a) (ip\<lparr>iaddrs := (iaddrs ip)(k := a)\<rparr>)"
proof -
  let ?L = "alloc (sb s) L a" let ?ip = "ip\<lparr>iaddrs := (iaddrs ip)(k := a)\<rparr>"
  note g = good_alloc[OF assms(1,5)]
  have j: "baddr ?L ?ip j = baddr L ip j" if "j \<noteq> k" for j
    using that baddr_alloc[OF assms(2,1,5), of j] assms(3) by (auto simp: baddr_def split: if_splits)
  have k: "baddr ?L ?ip k = a" "baddr L ip k = 0" using assms(3,4) by (simp_all add: baddr_def)
  show "file_ok s ?L ?ip" by (rule file_grow[OF assms(2), where k = k and a = a]) (use j k g assms(3,5) in \<open>auto simp: frees_def\<close>)
  have "fblocks ?L ?ip \<subseteq> fblocks L ip \<union> frees s L" by (rule fblocks_grow[where k = k]) (use j k assms(3,5) in auto)
  then show "grown s L ip k ?L ?ip a"
    unfolding grown_def using j k g(3) assms(3) alloc_frame[OF assms(5)] used_alloc_mono[OF assms(1,5)] frees_card[OF assms(1,5)] by auto
qed

lemma load32_zero: "(\<And>x. x < 4 \<Longrightarrow> d (a + x) = 0) \<Longrightarrow> load32 d a = 0"
proof -
  assume z: "\<And>x. x < 4 \<Longrightarrow> d (a + x) = 0"
  show ?thesis using z[of 0] z[of 1] z[of 2] z[of 3] by (simp add: load32_def)
qed

lemma indirect_grown:
  assumes "map_ok s L" "file_ok s L ip" "iaddrs ip NDIRECT = 0" "a \<in> frees s L"
  defines "ip' \<equiv> ip\<lparr>iaddrs := (iaddrs ip)(NDIRECT := a)\<rparr>"
  shows "j < MAXFILE \<Longrightarrow> baddr (alloc (sb s) L a) ip' j = baddr L ip j" "file_ok s (alloc (sb s) L a) ip'"
proof -
  let ?L = "alloc (sb s) L a"
  note g = good_alloc[OF assms(1,4)]
  have z: "load32 (?L a) (4 * (j - NDIRECT)) = 0" if "j < MAXFILE" for j
    by (rule load32_zero, rule alloc_zero) (use that in \<open>auto simp: MAXFILE_def NDIRECT_def NINDIRECT_def BSIZE_def\<close>)
  show j: "baddr ?L ip' j = baddr L ip j" if "j < MAXFILE" for j
    using z[OF that] assms(3) by (auto simp: baddr_def ip'_def)
  have "baddr L ip k \<noteq> a" if "k < MAXFILE" "baddr L ip k \<noteq> 0" for k
    using fileD(3)[OF assms(2) that] assms(4) by (auto simp: good_def frees_def)
  moreover have "iaddrs ip' NDIRECT = a" by (simp add: ip'_def)
  ultimately show "file_ok s ?L ip'" unfolding file_ok_def using j fileD[OF assms(2)] g(1,2) by auto
qed

lemma entry_grown:
  assumes "map_ok s L" "file_ok s L ip" "iaddrs ip NDIRECT \<noteq> 0" "NDIRECT \<le> k" "k < MAXFILE" "baddr L ip k = 0" "a \<in> frees s L"
  defines "n \<equiv> iaddrs ip NDIRECT"
  defines "L' \<equiv> (alloc (sb s) L a)(n := store32 (L n) (4 * (k - NDIRECT)) (of_nat a))"
  shows "grown s L ip k L' ip a" "file_ok s L' ip" "map_ok s L'" "frees s L' = frees s L - {a}"
proof -
  let ?L = "alloc (sb s) L a"
  note g = good_alloc[OF assms(1,7)]
  have n: "good s L n" "n \<notin> meta (sb s)" "n < sb_size (sb s)" using fileD(4)[OF assms(2,3)] by (simp_all add: n_def good_def)
  have u: "used (sb s) L' c = used (sb s) ?L c" if "c < sb_size (sb s)" for c unfolding L'_def by (rule used_other[OF n(2) that])
  show m: "map_ok s L'" using g(5) u by (simp add: map_ok_def)
  show f: "frees s L' = frees s L - {a}" using g(7) u by (auto simp: frees_def)
  have gd: "good s L x \<Longrightarrow> good s L' x" "good s L' a" for x using g(1,2) u by (auto simp: good_def)
  have "take_bit 32 a = a" using g(4) by (simp add: take_bit_nat_eq_self)
  then have k: "baddr L' ip k = a" using assms(3,4) by (simp add: baddr_def L'_def n_def unsigned_of_nat)
  have j: "baddr L' ip j = baddr L ip j" if "j < MAXFILE" "j \<noteq> k" for j
  proof -
    have "load32 (store32 (L n) (4 * (k - NDIRECT)) (of_nat a)) (4 * (j - NDIRECT)) = load32 (L n) (4 * (j - NDIRECT))" if "\<not> j < NDIRECT"
    proof (cases "j < k")
      case True
      then show ?thesis using that by (intro load32_store32_hi) auto
    next
      case False
      then show ?thesis using that \<open>j \<noteq> k\<close> assms(4) by (intro load32_store32_lo) auto
    qed
    then show ?thesis using assms(3) by (simp add: baddr_def L'_def n_def)
  qed
  show "file_ok s L' ip" by (rule file_grow[OF assms(2), where k = k and a = a]) (use j k gd assms(7) in \<open>auto simp: frees_def\<close>)
  have "finite (frees s L)" by (simp add: frees_def)
  then have c: "card (frees s L) = card (frees s L') + 1" using f card.remove[of "frees s L" a] assms(7) by simp
  show "grown s L ip k L' ip a"
    unfolding grown_def using j k g(3) assms(6) c
  proof (intro conjI allI impI)
    show "L' x = L x" if "x \<notin> bitmap (sb s)" "x < sb_size (sb s) \<longrightarrow> used (sb s) L x" "x \<noteq> iaddrs ip NDIRECT" for x
      using alloc_frame[OF assms(7) that(1,2)] that(3) by (simp add: L'_def n_def)
    show "used (sb s) L' x" if "x < sb_size (sb s)" "used (sb s) L x" for x using u used_alloc_mono[OF assms(1,7)] that by simp
    show "\<exists>f. ip = ip\<lparr>iaddrs := f\<rparr>" by (rule exI[of _ "iaddrs ip"]) simp
    show "fblocks L' ip \<subseteq> fblocks L ip \<union> frees s L" by (rule fblocks_grow[where k = k]) (use j k assms(7) in auto)
  qed auto
qed

definition bmap_entry :: "nat \<Rightarrow> nat \<Rightarrow> nat \<Rightarrow> ('z, nat) sprog" where
  "bmap_entry dev off ind = (if ind = 0 then ret 0 else
     bnd (bread dev ind) (\<lambda>bp.
     bnd (buf_data bp) (\<lambda>d.
     let addr = unat (load32 d off) in
     bnd (if addr = 0 then bnd (balloc dev) (\<lambda>addr.
            if addr \<noteq> 0 then sq (set_data bp (store32 d off (of_nat addr))) (sq (log_write bp) (ret addr)) else ret 0)
          else ret addr) (\<lambda>addr.
     sq (brelse bp) (ret addr)))))"

lemma bmap_indirect:
  "NDIRECT \<le> k \<Longrightarrow> k < MAXFILE \<Longrightarrow> bmap i k s = bnd (if iaddrs (itable s i) NDIRECT = 0 then bnd (balloc (idev (itable s i))) (\<lambda>addr.
       if addr = 0 then ret 0 else sq (set_addr i NDIRECT addr) (ret addr)) else ret (iaddrs (itable s i) NDIRECT))
     (bmap_entry (idev (itable s i)) (4 * (k - NDIRECT))) s"
proof -
  assume "NDIRECT \<le> k" "k < MAXFILE"
  then have r: "k - NDIRECT < NINDIRECT" "(k < NDIRECT) = False" by (auto simp: MAXFILE_def)
  show ?thesis unfolding bmap_def bmap_entry_def[abs_def] Let_def by (subst bnd_Inr[OF gets_run]) (simp only: r if_False if_True simp_thms)
qed

lemma entry_law:
  assumes "fstate D i s L bs" "room s X bs 1" "bitmap (sb s) \<subseteq> X" "frees s L \<noteq> {}"
    "iaddrs (itable s i) NDIRECT \<noteq> 0" "NDIRECT \<le> k" "k < MAXFILE" "baddr L (itable s i) k = 0"
  obtains a s' L' bs' where "bmap_entry ROOTDEV (4 * (k - NDIRECT)) (iaddrs (itable s i) NDIRECT) s = Inr (a, s')" "fstate D i s' L' bs'" "still s s'"
    "grown s L (itable s i) k L' (itable s i) a" "set bs' = insert (iaddrs (itable s i) NDIRECT) (insert a (insert (BBLOCK a (sb s)) (set bs)))"
    "card (frees s L) = card (frees s L') + 1"
proof -
  let ?ip = "itable s i" let ?n = "iaddrs (itable s i) NDIRECT" let ?off = "4 * (k - NDIRECT)"
  have d: "txn D s Map.empty L bs" "map_ok s L" "file_ok s L ?ip" "idev ?ip = ROOTDEV" using assms(1) by (simp_all add: fstate_def)
  have z: "load32 (L ?n) ?off = 0" using assms(5,6,8) by (simp add: baddr_def unat_eq_zero)
  have gn: "good s L ?n" by (rule fileD(4)[OF d(3) assms(5)])
  have r0: "room s X bs 0" using room_load[OF assms(2), of bs 0] by simp
  obtain b s1 where 1: "bread ROOTDEV ?n s = Inr (b, s1)" "Map.empty b = (None :: nat option)" "txn D s1 (Map.empty(b \<mapsto> ?n)) L bs" "still s s1" "bdata (bufs s1 b) = L ?n"
    by (rule txn_bread[OF d(1), of ?n]) (use room_len[OF d(1) r0] in auto)
  note k1 = still_kst[OF 1(4)] room_still[OF 1(4)] same_kst[of s1 s]
  have rn: "ran [b \<mapsto> ?n] = {?n}" by auto
  obtain a s2 bs2 where 2: "balloc ROOTDEV s1 = Inr (a, s2)" "a \<in> frees s1 L" "txn D s2 [b \<mapsto> ?n] (alloc (sb s1) L a) bs2" "still s1 s2"
    "set bs2 = insert a (insert (BBLOCK a (sb s1)) (set bs))" "load X bs2 \<le> load X bs + 1"
    by (rule balloc_file[OF 1(3)]) (use d(2) r0 k1 assms(3,4) gn rn in auto)
  have st2: "still s s2" by (rule still_trans[OF 1(4) 2(4)])
  note k2 = still_kst[OF st2] room_still[OF st2] same_kst[of s2 s]
  have af: "a \<in> frees s L" "alloc (sb s1) L a = alloc (sb s) L a" using 2(2) k1 by simp_all
  let ?L = "alloc (sb s) L a" let ?L' = "(alloc (sb s) L a)(?n := store32 (L ?n) ?off (of_nat a))"
  have ng: "outside (log_start s) (log_size s) ?n" "?n < 2 ^ 32" using gn goodD(6)[OF d(2) gn] by (simp_all add: good_def)
  have r2: "room s X bs2 0" by (rule room_load[OF assms(2)]) (use 2(6) in simp)
  obtain s3 s4 where 3: "set_data b (store32 (L ?n) ?off (of_nat a)) s2 = Inr ((), s3)" "log_write b s3 = Inr ((), s4)" "txn D s4 [b \<mapsto> ?n] ?L' (add_block bs2 ?n)" "still s2 s4"
    by (rule txn_log_write[OF 2(3)[unfolded af(2)], of b ?n X "store32 (L ?n) ?off (of_nat a)"]) (use ng k2 r2 in auto)
  obtain s5 where 4: "brelse b s4 = Inr ((), s5)" "txn D s5 Map.empty ?L' (add_block bs2 ?n)" "still s4 s5" by (rule txn_release[OF 3(3)]) simp
  have st: "still s s5" by (rule still_trans[OF still_trans[OF st2 3(4)] 4(3)])
  note e = entry_grown[OF d(2,3) assms(5-8) af(1)]
  have a0: "a \<noteq> 0" by (rule good_alloc(3)[OF d(2) af(1)])
  have run: "bmap_entry ROOTDEV ?off ?n s = Inr (a, s5)"
    using assms(5) z a0 by (simp add: bmap_entry_def run_simps buf_data_def Let_def 1(1,5) 2(1) 3(1,2) 4(1))
  have fs: "fstate D i s5 ?L' (add_block bs2 ?n)" using 4(2) e(2,3) d(4) still_kst[OF st] same_kst[of s5 s] by (simp add: fstate_def)
  have "set (add_block bs2 ?n) = insert ?n (insert a (insert (BBLOCK a (sb s)) (set bs)))" using 2(5) k1 by (auto simp: add_block_def)
  moreover have "finite (frees s L)" by (simp add: frees_def)
  then have "card (frees s L) = card (frees s ?L') + 1" using e(4) card.remove[of "frees s L" a] af(1) by simp
  ultimately show thesis using that[OF run fs st e(1)] by simp
qed

lemma grown_indirect:
  assumes "map_ok s L" "file_ok s L ip" "iaddrs ip NDIRECT = 0" "a \<in> frees s L" "k < MAXFILE" "baddr L ip k = 0"
  defines "ip1 \<equiv> ip\<lparr>iaddrs := (iaddrs ip)(NDIRECT := a)\<rparr>"
  assumes "grown s (alloc (sb s) L a) ip1 k L' ip1 b" "card (frees s (alloc (sb s) L a)) = card (frees s L') + 1" "NDIRECT \<le> k"
  shows "grown s L ip k L' ip1 b"
proof -
  let ?L = "alloc (sb s) L a"
  have a: "a < sb_size (sb s)" "\<not> used (sb s) L a" using assms(4) by (simp_all add: frees_def)
  have j: "baddr ?L ip1 j = baddr L ip j" if "j < MAXFILE" for j using indirect_grown(1)[OF assms(1-4) that] by (simp add: ip1_def)
  have fr: "L' n = L n" if "n \<notin> bitmap (sb s)" "n < sb_size (sb s) \<longrightarrow> used (sb s) L n" for n
  proof -
    have "n < sb_size (sb s) \<longrightarrow> used (sb s) ?L n" using that(2) used_alloc_mono[OF assms(1,4)] by blast
    moreover have "n \<noteq> iaddrs ip1 NDIRECT" using a that(2) by (auto simp: ip1_def)
    ultimately have "L' n = ?L n" using assms(8) that(1) unfolding grown_def by blast
    then show ?thesis using alloc_frame[OF assms(4) that] by simp
  qed
  show ?thesis
    unfolding grown_def
  proof (intro conjI allI impI)
    show "\<exists>f. ip1 = ip\<lparr>iaddrs := f\<rparr>" by (auto simp: ip1_def)
    show "baddr L' ip1 k = b" "b \<noteq> 0" using assms(8) by (auto simp: grown_def)
    show "baddr L' ip1 i = baddr L ip i" if "i < MAXFILE" "i \<noteq> k" for i using assms(8) that j[OF that(1)] by (simp add: grown_def)
    show "used (sb s) L' n" if "n < sb_size (sb s)" "used (sb s) L n" for n
      using assms(8) used_alloc_mono[OF assms(1,4) that] that(1) by (simp add: grown_def)
    show "fblocks L' ip1 \<subseteq> fblocks L ip \<union> frees s L"
    proof
      fix x assume "x \<in> fblocks L' ip1"
      then have "x \<in> fblocks ?L ip1 \<union> frees s ?L" using assms(8) by (auto simp: grown_def)
      then consider "x = a" | m where "m < MAXFILE" "x = baddr ?L ip1 m" | "x \<in> frees s L" using good_alloc(7)[OF assms(1,4)] by (auto simp: fblocks_def ip1_def)
      then show "x \<in> fblocks L ip \<union> frees s L" using j assms(4) by cases (auto simp: fblocks_def)
    qed
    show "card (frees s L) \<le> card (frees s L') + (if baddr L ip k = 0 then 2 else 0)"
      using frees_card[OF assms(1,4)] assms(6,9) by simp
  qed (use fr assms(3,6,10) in auto)
qed

lemma alloc_addr:
  assumes "txn D s Map.empty L bs" "map_ok s L" "room s X bs 0" "bitmap (sb s) \<subseteq> X" "frees s L \<noteq> {}"
  obtains a s' bs' where "bnd (balloc ROOTDEV) (\<lambda>addr. if addr = 0 then ret 0 else sq (set_addr i bn addr) (ret addr)) s = Inr (a, s')"
    "a \<in> frees s L" "a \<noteq> 0" "txn D s' Map.empty (alloc (sb s) L a) bs'" "touches i s s'"
    "itable s' i = (itable s i)\<lparr>iaddrs := (iaddrs (itable s i))(bn := a)\<rparr>"
    "set bs' = insert a (insert (BBLOCK a (sb s)) (set bs))" "load X bs' \<le> load X bs + 1"
proof -
  obtain a t bs' where t: "balloc ROOTDEV s = Inr (a, t)" "a \<in> frees s L" "txn D t Map.empty (alloc (sb s) L a) bs'" "still s t"
    "set bs' = insert a (insert (BBLOCK a (sb s)) (set bs))" "load X bs' \<le> load X bs + 1"
    by (rule balloc_file[OF assms(1-4) _ _ assms(5)]) auto
  have a0: "a \<noteq> 0" by (rule good_alloc(3)[OF assms(2) t(2)])
  let ?s = "t\<lparr>itable := (itable t)(i := (itable t i)\<lparr>iaddrs := (iaddrs (itable t i))(bn := a)\<rparr>)\<rparr>"
  have k: "itable t = itable s" using still_kst[OF t(4)] by simp
  have run: "bnd (balloc ROOTDEV) (\<lambda>addr. if addr = 0 then ret 0 else sq (set_addr i bn addr) (ret addr)) s = Inr (a, ?s)"
    using a0 by (simp add: run_simps t(1) set_addr_run)
  have "touches i t ?s" by (simp add: touches_def)
  then have "touches i s ?s" by (rule touches_trans[OF touches_still[OF t(4)]])
  then show thesis using that[OF run t(2) a0] t(3,5,6) k by simp
qed

text \<open>
  The blocks that a transaction may come to change, with one for the indirect block until it is among them.
\<close>

definition pot :: "nat set \<Rightarrow> nat list \<Rightarrow> inode \<Rightarrow> nat" where
  "pot X bs ip = load X bs + (if iaddrs ip NDIRECT \<noteq> 0 \<and> iaddrs ip NDIRECT \<in> set bs \<union> X then 0 else 1)"

definition space :: "'z logd_scheme \<Rightarrow> nat set \<Rightarrow> nat \<Rightarrow> bool" where
  "space s X m \<longleftrightarrow> finite X \<and> m + 1 < log_size s \<and> m + 2 < NBUF"

lemma space_room: "space s X m \<Longrightarrow> load X bs + k \<le> m \<Longrightarrow> room s X bs k"
  by (simp add: space_def room_def)

lemma pot_load: "load X bs \<le> pot X bs ip" "pot X bs ip \<le> load X bs + 1"
  by (simp_all add: pot_def)

lemma load_mono: "finite X \<Longrightarrow> set bs' \<subseteq> insert a (set bs \<union> X) \<Longrightarrow> load X bs' \<le> load X bs + 1"
proof -
  assume h: "finite X" "set bs' \<subseteq> insert a (set bs \<union> X)"
  have "card (set bs' \<union> X) \<le> card (insert a (set bs \<union> X))" using h by (intro card_mono) auto
  also have "\<dots> \<le> card (set bs \<union> X) + 1" using h(1) by (simp add: card_insert_if)
  finally show ?thesis by (simp add: load_def)
qed

lemma pot_direct:
  assumes "finite X" "set bs' \<subseteq> insert a (set bs \<union> X)" "set bs \<subseteq> set bs'" "iaddrs ip' NDIRECT = iaddrs ip NDIRECT"
  shows "pot X bs' ip' \<le> pot X bs ip + 1"
  using load_mono[OF assms(1,2)] assms(3,4) by (auto simp: pot_def)

lemma pot_indirect:
  assumes "finite X" "set bs' \<subseteq> insert a (insert n (set bs \<union> X))" "n \<in> set bs'" "n \<noteq> 0" "iaddrs ip' NDIRECT = n" "iaddrs ip NDIRECT \<noteq> 0 \<Longrightarrow> iaddrs ip NDIRECT = n"
  shows "pot X bs' ip' \<le> pot X bs ip + 1"
proof -
  have p: "pot X bs' ip' = load X bs'" using assms(3-5) by (simp add: pot_def)
  show ?thesis
  proof (cases "iaddrs ip NDIRECT \<noteq> 0 \<and> n \<in> set bs \<union> X")
    case True
    then have "set bs' \<subseteq> insert a (set bs \<union> X)" using assms(2) by auto
    from load_mono[OF assms(1) this] show ?thesis using p pot_load(1)[of X bs ip] by simp
  next
    case False
    have "set bs' \<subseteq> insert a (set (bs @ [n]) \<union> X)" "set (bs @ [n]) \<subseteq> insert n (set bs \<union> X)" using assms(2) by auto
    from load_mono[OF assms(1) this(1)] load_mono[OF assms(1) this(2)] have "load X bs' \<le> load X bs + 2" by simp
    moreover have "pot X bs ip = load X bs + 1" using False assms(6) by (auto simp: pot_def)
    ultimately show ?thesis using p by simp
  qed
qed

lemma BBLOCK_in: "a \<in> frees s L \<Longrightarrow> bitmap (sb s) \<subseteq> X \<Longrightarrow> BBLOCK a (sb s) \<in> X"
  using BBLOCK_meta[of a "sb s"] by (auto simp: frees_def)

lemma bmap_grows:
  assumes "fstate D i s L bs" "space s X (pot X bs (itable s i) + 1)" "bitmap (sb s) \<subseteq> X" "2 \<le> card (frees s L)" "k < MAXFILE" "baddr L (itable s i) k = 0"
  obtains a s' L' bs' where "bmap i k s = Inr (a, s')" "fstate D i s' L' bs'" "touches i s s'"
    "grown s L (itable s i) k L' (itable s' i) a" "pot X bs' (itable s' i) \<le> pot X bs (itable s i) + 1" "a \<in> set bs'"
proof -
  let ?ip = "itable s i"
  have d: "txn D s Map.empty L bs" "map_ok s L" "file_ok s L ?ip" "idev ?ip = ROOTDEV" using assms(1) by (simp_all add: fstate_def)
  have fin: "finite X" using assms(2) by (simp add: space_def)
  have r1: "room s X bs 1" "room s X bs 0" using space_room[OF assms(2), of bs] pot_load(1)[of X bs ?ip] by simp_all
  have ne: "frees s L \<noteq> {}" using assms(4) by auto
  show thesis
  proof (cases "k < NDIRECT")
    case True
    obtain a s1 bs1 where 1: "bnd (balloc ROOTDEV) (\<lambda>addr. if addr = 0 then ret 0 else sq (set_addr i k addr) (ret addr)) s = Inr (a, s1)"
      "a \<in> frees s L" "a \<noteq> 0" "txn D s1 Map.empty (alloc (sb s) L a) bs1" "touches i s s1" "itable s1 i = ?ip\<lparr>iaddrs := (iaddrs ?ip)(k := a)\<rparr>"
      "set bs1 = insert a (insert (BBLOCK a (sb s)) (set bs))" "load X bs1 \<le> load X bs + 1"
      by (rule alloc_addr[OF d(1,2) r1(2) assms(3) ne])
    have z: "iaddrs ?ip k = 0" using True assms(6) by (simp add: baddr_def)
    note g = direct_grown[OF d(2,3) True z 1(2)]
    have "bmap i k s = Inr (a, s1)" using True z d(4) 1(1) by (simp add: bmap_def bnd_def gets_run)
    moreover have "fstate D i s1 (alloc (sb s) L a) bs1" using 1(4,6) g(2) good_alloc(5)[OF d(2) 1(2)] d(4) touches_same[OF 1(5)] by (simp add: fstate_def)
    moreover have "pot X bs1 (itable s1 i) \<le> pot X bs ?ip + 1"
      by (rule pot_direct[OF fin, of _ a]) (use 1(6,7) True BBLOCK_in[OF 1(2) assms(3)] in auto)
    ultimately show thesis using that[of a s1 "alloc (sb s) L a" bs1] g(1) 1(5-7) by simp
  next
    case False
    then have nk: "NDIRECT \<le> k" by simp
    show thesis
    proof (cases "iaddrs ?ip NDIRECT = 0")
      case True
      obtain b s1 bs1 where 1: "bnd (balloc ROOTDEV) (\<lambda>addr. if addr = 0 then ret 0 else sq (set_addr i NDIRECT addr) (ret addr)) s = Inr (b, s1)"
        "b \<in> frees s L" "b \<noteq> 0" "txn D s1 Map.empty (alloc (sb s) L b) bs1" "touches i s s1" "itable s1 i = ?ip\<lparr>iaddrs := (iaddrs ?ip)(NDIRECT := b)\<rparr>"
        "set bs1 = insert b (insert (BBLOCK b (sb s)) (set bs))" "load X bs1 \<le> load X bs + 1"
        by (rule alloc_addr[OF d(1,2) r1(2) assms(3) ne])
      note g = indirect_grown[OF d(2,3) True 1(2)]
      note k1 = touches_same[OF 1(5)] touches_kst[OF 1(5)] touches_room[OF 1(5)]
      have f1: "fstate D i s1 (alloc (sb s) L b) bs1" using 1(4,6) g(2) good_alloc(5)[OF d(2) 1(2)] d(4) k1 by (simp add: fstate_def)
      have r2: "room s1 X bs1 1" using space_room[OF assms(2), of bs1 1] 1(8) k1 True by (simp add: pot_def)
      have n1: "frees s1 (alloc (sb s) L b) \<noteq> {}" using frees_card[OF d(2) 1(2)] assms(4) k1 by fastforce
      have b1: "iaddrs (itable s1 i) NDIRECT = b" "baddr (alloc (sb s) L b) (itable s1 i) k = 0" using 1(6) g(1)[OF assms(5)] assms(6) by simp_all
      have "iaddrs (itable s1 i) NDIRECT \<noteq> 0" "bitmap (sb s1) \<subseteq> X" using b1(1) 1(3) k1 assms(3) by simp_all
      then obtain a s2 L' bs' where 2: "bmap_entry ROOTDEV (4 * (k - NDIRECT)) b s1 = Inr (a, s2)" "fstate D i s2 L' bs'" "still s1 s2"
        "grown s1 (alloc (sb s) L b) (itable s1 i) k L' (itable s1 i) a" "set bs' = insert b (insert a (insert (BBLOCK a (sb s1)) (set bs1)))"
        "card (frees s1 (alloc (sb s) L b)) = card (frees s1 L') + 1"
        using entry_law[OF f1 r2 _ n1 _ nk assms(5) b1(2)] b1(1) by metis
      have ab: "a < sb_size (sb s)"
      proof -
        have "good s2 L' a" using 2(2,4) fileD(3)[of s2 L' "itable s2 i" k] still_kst[OF 2(3)] assms(5) by (auto simp: fstate_def grown_def)
        then show ?thesis using still_kst[OF 2(3)] k1 by (simp add: good_def)
      qed
      have run: "bmap i k s = Inr (a, s2)" using bmap_indirect[OF nk assms(5), of i s] True d(4) 1(1) 2(1) by (simp add: run_simps)
      have "grown s (alloc (sb s) L b) (itable s1 i) k L' (itable s1 i) a" using 2(4) k1 by (simp add: grown_def)
      then have gr: "grown s L ?ip k L' (itable s2 i) a"
        using grown_indirect[OF d(2,3) True 1(2) assms(5,6), of L' a] nk 2(6) k1 1(6) still_kst[OF 2(3)] by simp
      have i2: "iaddrs (itable s2 i) NDIRECT = b" using b1(1) still_kst[OF 2(3)] by simp
      have "BBLOCK a (sb s1) \<in> X" "BBLOCK b (sb s) \<in> X" using BBLOCK_in[OF 1(2) assms(3)] BBLOCK_meta[OF ab] k1 assms(3) by auto
      then have "pot X bs' (itable s2 i) \<le> pot X bs ?ip + 1"
        by (intro pot_indirect[OF fin, where n = b and a = a]) (use 2(5) 1(3,7) i2 True in auto)
      then show thesis using that[OF run 2(2) touches_trans[OF 1(5) touches_still[OF 2(3)]] gr] 2(5) by simp
    next
      case F: False
      obtain a s2 L' bs' where 2: "bmap_entry ROOTDEV (4 * (k - NDIRECT)) (iaddrs ?ip NDIRECT) s = Inr (a, s2)" "fstate D i s2 L' bs'" "still s s2"
        "grown s L ?ip k L' ?ip a" "set bs' = insert (iaddrs ?ip NDIRECT) (insert a (insert (BBLOCK a (sb s)) (set bs)))"
        by (rule entry_law[OF assms(1) r1(1) assms(3) ne F nk assms(5,6)])
      have k2: "itable s2 i = ?ip" "sb s2 = sb s" using still_kst[OF 2(3)] by simp_all
      have "good s2 L' a" using 2(2,4) fileD(3)[of s2 L' "itable s2 i" k] k2 assms(5) by (auto simp: fstate_def grown_def)
      then have "BBLOCK a (sb s) \<in> X" using BBLOCK_meta[of a "sb s"] k2 assms(3) by (auto simp: good_def)
      then have p: "pot X bs' (itable s2 i) \<le> pot X bs ?ip + 1"
        by (intro pot_indirect[OF fin, where n = "iaddrs ?ip NDIRECT" and a = a]) (use 2(5) F k2 in auto)
      have "bmap i k s = Inr (a, s2)" using bmap_indirect[OF nk assms(5), of i s] F d(4) 2(1) by (simp add: run_simps)
      then show thesis using that[OF _ 2(2) touches_still[OF 2(3)]] k2 2(4,5) p by simp
    qed
  qed
qed

lemma grown_found: "baddr L ip k \<noteq> 0 \<Longrightarrow> grown s L ip k L ip (baddr L ip k)"
  unfolding grown_def by (auto intro: exI[of _ "iaddrs ip"])

lemma bmap_law:
  assumes "fstate D i s L bs" "space s X (pot X bs (itable s i) + 1)" "bitmap (sb s) \<subseteq> X" "2 \<le> card (frees s L)" "k < MAXFILE"
  obtains a s' L' bs' where "bmap i k s = Inr (a, s')" "fstate D i s' L' bs'" "touches i s s'"
    "grown s L (itable s i) k L' (itable s' i) a" "pot X (add_block bs' a) (itable s' i) \<le> pot X bs (itable s i) + 1" "room s X bs' 0"
proof (cases "baddr L (itable s i) k = 0")
  case True
  obtain a s' L' bs' where 1: "bmap i k s = Inr (a, s')" "fstate D i s' L' bs'" "touches i s s'"
    "grown s L (itable s i) k L' (itable s' i) a" "pot X bs' (itable s' i) \<le> pot X bs (itable s i) + 1" "a \<in> set bs'"
    by (rule bmap_grows[OF assms True])
  have "add_block bs' a = bs'" using 1(6) by (simp add: add_block_def)
  moreover have "room s X bs' 0" by (rule space_room[OF assms(2)]) (use 1(5) pot_load(1)[of X bs' "itable s' i"] in simp)
  ultimately show thesis using that[OF 1(1-4)] 1(5) by simp
next
  case False
  have d: "txn D s Map.empty L bs" using assms(1) by (simp add: fstate_def)
  obtain s' where 1: "bmap i k s = Inr (baddr L (itable s i) k, s')" "fstate D i s' L bs" "still s s'"
    by (rule bmap_found[OF assms(1,5) False txnD(7)[OF d]])
  have k: "itable s' i = itable s i" using still_kst[OF 1(3)] by simp
  have "pot X (add_block bs (baddr L (itable s i) k)) (itable s i) \<le> pot X bs (itable s i) + 1"
    by (rule pot_direct[where a = "baddr L (itable s i) k"]) (use assms(2) in \<open>auto simp: space_def add_block_def\<close>)
  moreover have "room s X bs 0" by (rule space_room[OF assms(2)]) (use pot_load(1)[of X bs "itable s i"] in simp)
  ultimately show thesis using that[OF 1(1,2) touches_still[OF 1(3)]] grown_found[OF False, of s] k by simp
qed

section \<open>Contents\<close>

definition fbyte :: "(nat \<Rightarrow> memory) \<Rightarrow> inode \<Rightarrow> nat \<Rightarrow> byte" where
  "fbyte L ip p = L (baddr L ip (p div BSIZE)) (p mod BSIZE)"

text \<open>The file \<open>ip\<close> in the blocks \<open>L\<close> has become \<open>ip'\<close> in \<open>L'\<close> with the bytes \<open>ds\<close> at the offset \<open>off\<close>.\<close>

definition written :: "'z kst_scheme \<Rightarrow> (nat \<Rightarrow> memory) \<Rightarrow> inode \<Rightarrow> nat \<Rightarrow> byte list \<Rightarrow> (nat \<Rightarrow> memory) \<Rightarrow> inode \<Rightarrow> bool" where
  "written s L ip off ds L' ip' \<longleftrightarrow> (\<exists>f. ip' = ip\<lparr>iaddrs := f\<rparr>) \<and>
     (\<forall>p < length ds. baddr L' ip' ((off + p) div BSIZE) \<noteq> 0 \<and> fbyte L' ip' (off + p) = ds ! p) \<and>
     (\<forall>p < MAXFILE * BSIZE. (p < off \<or> off + length ds \<le> p) \<longrightarrow> baddr L ip (p div BSIZE) \<noteq> 0 \<longrightarrow>
        baddr L' ip' (p div BSIZE) \<noteq> 0 \<and> fbyte L' ip' p = fbyte L ip p) \<and>
     (\<forall>n. n \<notin> bitmap (sb s) \<longrightarrow> (n < sb_size (sb s) \<longrightarrow> used (sb s) L n) \<longrightarrow> n \<notin> fblocks L ip \<longrightarrow> L' n = L n) \<and>
     (\<forall>n < sb_size (sb s). used (sb s) L n \<longrightarrow> used (sb s) L' n) \<and>
     fblocks L' ip' \<subseteq> fblocks L ip \<union> frees s L"

lemma put_data:
  assumes "map_ok s L" "file_ok s L ip" "good s L a" "a \<noteq> iaddrs ip NDIRECT"
  shows "baddr (L(a := d)) ip = baddr L ip" "good s (L(a := d)) = good s L" "map_ok s (L(a := d))" "file_ok s (L(a := d)) ip" "frees s (L(a := d)) = frees s L"
    "c < sb_size (sb s) \<Longrightarrow> used (sb s) (L(a := d)) c = used (sb s) L c"
proof -
  have u: "used (sb s) (L(a := d)) c = used (sb s) L c" if "c < sb_size (sb s)" for c by (rule used_other[OF _ that]) (use assms(3) in \<open>simp add: good_def\<close>)
  show "c < sb_size (sb s) \<Longrightarrow> used (sb s) (L(a := d)) c = used (sb s) L c" by (rule u)
  show b: "baddr (L(a := d)) ip = baddr L ip" using assms(4) by (auto simp: fun_eq_iff baddr_def)
  show g: "good s (L(a := d)) = good s L" using u by (auto simp: fun_eq_iff good_def)
  show "map_ok s (L(a := d))" using assms(1) u by (simp add: map_ok_def)
  show "file_ok s (L(a := d)) ip" using assms(2) by (simp add: file_ok_def b g)
  show "frees s (L(a := d)) = frees s L" using u by (auto simp: frees_def)
qed

lemma store_bytes_nth: "i < length bs \<Longrightarrow> store_bytes m a bs (a + i) = bs ! i"
  using nth_load_bytes[of i "length bs" "store_bytes m a bs" a] by simp

lemma block_pos: "p div BSIZE = k \<Longrightarrow> p = k * BSIZE + p mod BSIZE"
  by (metis div_mult_mod_eq)

lemma written_block:
  assumes "map_ok s L" "file_ok s L ip" "grown s L ip k L1 ip1 a" "map_ok s L1" "file_ok s L1 ip1" "k < MAXFILE" "r + length ds \<le> BSIZE" "r < BSIZE"
  defines "L2 \<equiv> L1(a := store_bytes (L1 a) r ds)"
  shows "written s L ip (k * BSIZE + r) ds L2 ip1"
proof -
  have a: "baddr L1 ip1 k = a" "a \<noteq> 0" using assms(3) by (auto simp: grown_def)
  have ga: "good s L1 a" "a \<noteq> iaddrs ip1 NDIRECT" using fileD(2,3)[OF assms(5,6)] a by auto
  note pd = put_data[OF assms(4,5) ga, where d = "store_bytes (L1 a) r ds", folded L2_def]
  have l2: "L2 a = store_bytes (L1 a) r ds" "\<And>n. n \<noteq> a \<Longrightarrow> L2 n = L1 n" by (simp_all add: L2_def)
  have in_range: "baddr L2 ip1 ((k * BSIZE + r + p) div BSIZE) \<noteq> 0 \<and> fbyte L2 ip1 (k * BSIZE + r + p) = ds ! p" if "p < length ds" for p
  proof -
    have "(k * BSIZE + (r + p)) div BSIZE = k" "(k * BSIZE + (r + p)) mod BSIZE = r + p" using that assms(7) by (simp_all add: BSIZE_def)
    then show ?thesis using a store_bytes_nth[OF that, of "L1 a" r] by (simp add: pd(1) fbyte_def l2 add.assoc)
  qed
  have out_range: "baddr L2 ip1 (p div BSIZE) \<noteq> 0 \<and> fbyte L2 ip1 p = fbyte L ip p"
    if p: "p < MAXFILE * BSIZE" "p < k * BSIZE + r \<or> k * BSIZE + r + length ds \<le> p" "baddr L ip (p div BSIZE) \<noteq> 0" for p
  proof (cases "p div BSIZE = k")
    case True
    then have e: "L1 = L" "ip1 = ip" using assms(3) p(3) by (auto simp: grown_def)
    have "p mod BSIZE < r \<or> r + length ds \<le> p mod BSIZE" using p(2) block_pos[OF True] by arith
    then show ?thesis using True a store_bytes_other[of "p mod BSIZE" r ds "L1 a"] e by (simp add: pd(1)[unfolded e] fbyte_def l2)
  next
    case False
    have j: "p div BSIZE < MAXFILE" using p(1) by (simp add: less_mult_imp_div_less)
    have b: "baddr L1 ip1 (p div BSIZE) = baddr L ip (p div BSIZE)" using assms(3) j False by (auto simp: grown_def)
    have na: "baddr L1 ip1 (p div BSIZE) \<noteq> a" using fileD(1)[OF assms(5) j assms(6)] p(3) False a b by auto
    note g = fileD(2,3)[OF assms(2) j p(3)]
    have "L1 (baddr L ip (p div BSIZE)) = L (baddr L ip (p div BSIZE))" using assms(3) g goodD(2,5)[OF g(2)] by (auto simp: grown_def)
    then show ?thesis using p(3) b na by (simp add: pd(1) fbyte_def l2)
  qed
  have frame: "L2 n = L n" if n: "n \<notin> bitmap (sb s)" "n < sb_size (sb s) \<longrightarrow> used (sb s) L n" "n \<notin> fblocks L ip" for n
  proof -
    have "L1 n = L n" using assms(3) n by (auto simp: grown_def fblocks_def)
    moreover have "a \<in> fblocks L1 ip1" using a(1) assms(6) by (auto simp: fblocks_def)
    then have "n \<noteq> a" using assms(3) n by (auto simp: grown_def frees_def)
    ultimately show ?thesis by (simp add: L2_def)
  qed
  show ?thesis
    unfolding written_def
  proof (intro conjI allI impI)
    show "\<exists>f. ip1 = ip\<lparr>iaddrs := f\<rparr>" "fblocks L2 ip1 \<subseteq> fblocks L ip \<union> frees s L" using assms(3) pd(1) by (auto simp: grown_def fblocks_def)
    show "used (sb s) L2 n" if "n < sb_size (sb s)" "used (sb s) L n" for n using assms(3) that pd(6) by (auto simp: grown_def)
  qed (use in_range out_range frame in blast)+
qed

lemma written_append:
  assumes "written s L ip off ds L1 ip1" "written s L1 ip1 (off + length ds) es L2 ip2" "off + length ds \<le> MAXFILE * BSIZE"
  shows "written s L ip off (ds @ es) L2 ip2"
proof -
  let ?m = "off + length ds"
  have fr: "frees s L1 \<subseteq> frees s L" using assms(1) by (auto simp: written_def frees_def)
  have ds: "baddr L2 ip2 ((off + p) div BSIZE) \<noteq> 0 \<and> fbyte L2 ip2 (off + p) = ds ! p" if "p < length ds" for p
  proof -
    have "baddr L1 ip1 ((off + p) div BSIZE) \<noteq> 0" "fbyte L1 ip1 (off + p) = ds ! p" using assms(1) that by (auto simp: written_def)
    then show ?thesis using assms(2,3) that by (simp add: written_def)
  qed
  have es: "baddr L2 ip2 ((?m + p) div BSIZE) \<noteq> 0 \<and> fbyte L2 ip2 (?m + p) = es ! p" if "p < length es" for p
    using assms(2) that by (simp add: written_def)
  show ?thesis
    unfolding written_def
  proof (intro conjI allI impI)
    obtain f g where "ip1 = ip\<lparr>iaddrs := f\<rparr>" "ip2 = ip1\<lparr>iaddrs := g\<rparr>" using assms(1,2) unfolding written_def by blast
    then show "\<exists>f. ip2 = ip\<lparr>iaddrs := f\<rparr>" by auto
    fix p assume p: "p < length (ds @ es)"
    show "baddr L2 ip2 ((off + p) div BSIZE) \<noteq> 0" "fbyte L2 ip2 (off + p) = (ds @ es) ! p"
      using ds[of p] es[of "p - length ds"] p by (cases "p < length ds"; simp add: nth_append)+
  next
    fix p assume p: "p < MAXFILE * BSIZE" "p < off \<or> off + length (ds @ es) \<le> p" "baddr L ip (p div BSIZE) \<noteq> 0"
    then have 1: "baddr L1 ip1 (p div BSIZE) \<noteq> 0" "fbyte L1 ip1 p = fbyte L ip p" using assms(1) by (auto simp: written_def)
    then show "baddr L2 ip2 (p div BSIZE) \<noteq> 0" "fbyte L2 ip2 p = fbyte L ip p" using assms(2) p by (auto simp: written_def)
  next
    fix n assume n: "n \<notin> bitmap (sb s)" "n < sb_size (sb s) \<longrightarrow> used (sb s) L n" "n \<notin> fblocks L ip"
    have 1: "L1 n = L n" "n < sb_size (sb s) \<longrightarrow> used (sb s) L1 n" "fblocks L1 ip1 \<subseteq> fblocks L ip \<union> frees s L" using assms(1) n by (auto simp: written_def)
    then have "n \<notin> fblocks L1 ip1" using n by (auto simp: frees_def)
    then show "L2 n = L n" using assms(2) n(1) 1 by (auto simp: written_def)
  next
    show "used (sb s) L2 n" if "n < sb_size (sb s)" "used (sb s) L n" for n using assms(1,2) that by (auto simp: written_def)
    show "fblocks L2 ip2 \<subseteq> fblocks L ip \<union> frees s L" using assms(1,2) fr by (auto simp: written_def)
  qed
qed

lemma written_nil: "written s L ip off [] L ip"
  unfolding written_def by (auto intro: exI[of _ "iaddrs ip"])

section \<open>The loop of writei\<close>

text \<open>The source of a transfer supplies the bytes \<open>cs\<close>, in whatever pieces they are asked for.\<close>

definition supplies :: "source \<Rightarrow> byte list \<Rightarrow> 'z kst_scheme \<Rightarrow> bool" where
  "supplies src cs s \<longleftrightarrow> (\<forall>t tot m. pm t = pm s \<longrightarrow> freelist t = freelist s \<longrightarrow> kend t = kend s \<longrightarrow> ptable t = ptable s \<longrightarrow> curp t = curp s \<longrightarrow> tot + m \<le> length cs \<longrightarrow>
     copy_from src tot m (t :: 'z kst_scheme) = Inr ((0, take m (drop tot cs)), t))"

lemma supplies_var: "supplies (FromVar cs) cs s"
  by (simp add: supplies_def copy_from_def run_simps)

lemma supplies_kernel: "supplies (FromKernel a) (load_bytes (pm s) a n) s"
proof -
  have "take m (drop tot (load_bytes (pm s) a n)) = load_bytes (pm s) (a + tot) m" if "tot + m \<le> n" for tot m
    using that by (intro nth_equalityI) (auto simp: add.assoc)
  then show ?thesis by (simp add: supplies_def copy_from_def either_copyin_def curproc_def run_simps)
qed

lemma supplies_user:
  assumes "pt_inv s pt ps" "pt = ppagetable (ptable s (curp s))" "user_range (pm s) pt a n"
  shows "supplies (FromUser a) (ubytes (pm s) pt a n) s"
  unfolding supplies_def
proof (intro allI impI)
  fix t tot m assume t: "pm t = pm s" "freelist t = freelist s" "kend t = kend s" "ptable t = ptable s" "curp t = curp s" and m: "tot + m \<le> length (ubytes (pm s) pt a n)"
  have n: "tot + m \<le> n" using m by (simp add: ubytes_def)
  have p: "pt_inv t pt ps" "user_range (pm t) pt (a + tot) m" using assms(1,3) t n by (auto simp: pt_inv_def kmem_inv_def user_range_def add.assoc)
  have "take m (drop tot (ubytes (pm s) pt a n)) = ubytes (pm s) pt (a + tot) m"
    using n by (intro nth_equalityI) (auto simp: ubytes_def add.assoc)
  then show "copy_from (FromUser a) tot m t = Inr ((0, take m (drop tot (ubytes (pm s) pt a n))), t)"
    using copyin_run[OF p] t assms(2) by (simp add: copy_from_def either_copyin_def curproc_def run_simps)
qed

definition nblk :: "nat \<Rightarrow> nat \<Rightarrow> nat" where
  "nblk off r = (if r = 0 then 0 else (off mod BSIZE + r + BSIZE - 1) div BSIZE)"

lemma nblk_step:
  assumes "tot < n"
  shows "nblk off (n - tot) = nblk (off + chunk n tot off) (n - (tot + chunk n tot off)) + 1"
proof (cases "off mod BSIZE + (n - tot) \<le> BSIZE")
  case True
  have b: "off mod BSIZE < BSIZE" by (simp add: BSIZE_def)
  then have c: "chunk n tot off = n - tot" using True by (auto simp: chunk_def)
  have "(off mod BSIZE + (n - tot) + BSIZE - 1) div BSIZE = 1"
    using True assms b by (intro div_nat_eqI) (auto simp: BSIZE_def)
  then show ?thesis using assms c by (simp add: nblk_def)
next
  case False
  have b: "off mod BSIZE < BSIZE" by (simp add: BSIZE_def)
  let ?m = "BSIZE - off mod BSIZE"
  have c: "chunk n tot off = ?m" using False b by (auto simp: chunk_def)
  have "off + ?m = BSIZE * (off div BSIZE) + BSIZE" using b mult_div_mod_eq[of BSIZE off] by linarith
  then have z: "(off + ?m) mod BSIZE = 0" by simp
  have r: "off mod BSIZE + (n - tot) + BSIZE - 1 = (n - (tot + ?m) + BSIZE - 1) + BSIZE" using False b by auto
  have "(off mod BSIZE + (n - tot) + BSIZE - 1) div BSIZE = (n - (tot + ?m) + BSIZE - 1) div BSIZE + 1"
    unfolding r by (simp add: BSIZE_def)
  then show ?thesis using assms c z False b by (simp add: nblk_def)
qed

lemma writei_loop_law:
  assumes "fstate D i s L bs" "supplies src cs s" "length cs = n" "tot \<le> n" "off + (n - tot) \<le> MAXFILE * BSIZE"
    "space s X (pot X bs (itable s i) + nblk off (n - tot))" "bitmap (sb s) \<subseteq> X" "2 * nblk off (n - tot) \<le> card (frees s L)"
  shows "\<exists>s' L' bs'. writei_loop i src off n tot s = Inr ((n, off + (n - tot)), s') \<and> fstate D i s' L' bs' \<and> touches i s s' \<and>
    pot X bs' (itable s' i) \<le> pot X bs (itable s i) + nblk off (n - tot) \<and> written s L (itable s i) off (drop tot cs) L' (itable s' i)"
  using assms
proof (induction "n - tot" arbitrary: off tot s L bs rule: less_induct)
  case less
  let ?ip = "itable s i" let ?k = "off div BSIZE" let ?m = "chunk n tot off"
  show ?case
  proof (cases "tot < n")
    case False
    then show ?thesis using less.prems by (intro exI[of _ s] exI[of _ L] exI[of _ bs]) (simp add: writei_loop.simps[of i src off n n] run_simps nblk_def written_nil touches_still)
  next
    case True
    have m: "0 < ?m" "tot + ?m \<le> n" "off mod BSIZE + ?m \<le> BSIZE" "off mod BSIZE < BSIZE" using chunk_pos[OF True, of off] True by (auto simp: chunk_def BSIZE_def)
    note nb = nblk_step[OF True, of off]
    have k: "?k < MAXFILE" using less.prems(5) True by (simp add: less_mult_imp_div_less)
    have sp1: "space s X (pot X bs ?ip + 1)" using less.prems(6) nb by (simp add: space_def)
    have f2: "2 \<le> card (frees s L)" using less.prems(8) nb by simp
    obtain a s1 L1 bs1 where 1: "bmap i ?k s = Inr (a, s1)" "fstate D i s1 L1 bs1" "touches i s s1" "grown s L ?ip ?k L1 (itable s1 i) a"
      "pot X (add_block bs1 a) (itable s1 i) \<le> pot X bs ?ip + 1" "room s X bs1 0"
      by (rule bmap_law[OF less.prems(1) sp1 less.prems(7) f2 k])
    note k1 = touches_kst[OF 1(3)] touches_same[OF 1(3)] touches_room[OF 1(3)]
    have d1: "txn D s1 Map.empty L1 bs1" "map_ok s1 L1" "file_ok s1 L1 (itable s1 i)" "idev (itable s1 i) = ROOTDEV" using 1(2) by (simp_all add: fstate_def)
    have a: "baddr L1 (itable s1 i) ?k = a" "a \<noteq> 0" using 1(4) by (auto simp: grown_def)
    have ga: "good s1 L1 a" "a \<noteq> iaddrs (itable s1 i) NDIRECT" using fileD(2,3)[OF d1(3) k] a by auto
    have r1: "room s1 X bs1 0" using 1(6) k1 by simp
    obtain b s2 where 2: "bread ROOTDEV a s1 = Inr (b, s2)" "Map.empty b = (None :: nat option)" "txn D s2 (Map.empty(b \<mapsto> a)) L1 bs1" "still s1 s2" "bdata (bufs s2 b) = L1 a"
      by (rule txn_bread[OF d1(1), of a]) (use room_len[OF d1(1) r1] in auto)
    note k2 = still_kst[OF 2(4)] room_still[OF 2(4)]
    let ?ds = "take ?m (drop tot cs)"
    have cp: "copy_from src tot ?m s2 = Inr ((0, ?ds), s2)" using less.prems(2,3) m(2) k1 k2 by (simp add: supplies_def)
    let ?d = "store_bytes (L1 a) (off mod BSIZE) ?ds" let ?L2 = "L1(a := store_bytes (L1 a) (off mod BSIZE) ?ds)"
    obtain s3 s4 where 3: "set_data b ?d s2 = Inr ((), s3)" "log_write b s3 = Inr ((), s4)" "txn D s4 (Map.empty(b \<mapsto> a)) ?L2 (add_block bs1 a)" "still s2 s4"
      by (rule txn_log_write[OF 2(3), of b a X ?d]) (use ga(1) goodD(6)[OF d1(2) ga(1)] r1 k2 in \<open>auto simp: good_def\<close>)
    obtain s5 where 4: "brelse b s4 = Inr ((), s5)" "txn D s5 Map.empty ?L2 (add_block bs1 a)" "still s4 s5" by (rule txn_release[OF 3(3)]) simp
    have st: "still s1 s5" by (rule still_trans[OF still_trans[OF 2(4) 3(4)] 4(3)])
    have t5: "touches i s s5" by (rule touches_trans[OF 1(3) touches_still[OF st]])
    note k5 = touches_kst[OF t5] touches_same[OF t5] still_kst[OF st] same_kst[of s5 s1]
    note pd = put_data[OF d1(2,3) ga, where d = ?d]
    have fs5: "fstate D i s5 ?L2 (add_block bs1 a)" using 4(2) pd(3,4) d1(4) k5 by (simp add: fstate_def)
    have step: "writei_loop i src off n tot s = writei_loop i src (off + ?m) n (tot + ?m) s5"
      using True a(2) d1(4) by (subst writei_loop.simps) (simp add: run_simps 1(1) ino_def 2(1,5) buf_data_def Let_def cp 3(1,2) 4(1))
    have w1: "written s L ?ip off ?ds ?L2 (itable s5 i)"
    proof -
      have "written s L ?ip (?k * BSIZE + off mod BSIZE) ?ds ?L2 (itable s1 i)"
        by (rule written_block[OF _ _ 1(4)]) (use less.prems(1) d1 k1 k m less.prems(3) in \<open>auto simp: fstate_def\<close>)
      then show ?thesis using k5 by simp
    qed
    have sup: "supplies src cs s5" using less.prems(2) k5 by (simp add: supplies_def)
    have pt: "pot X (add_block bs1 a) (itable s5 i) \<le> pot X bs ?ip + 1" using 1(5) k5 by simp
    have sp5: "space s5 X (pot X (add_block bs1 a) (itable s5 i) + nblk (off + ?m) (n - (tot + ?m)))"
      using less.prems(6) nb pt k5 by (simp add: space_def)
    have f5: "2 * nblk (off + ?m) (n - (tot + ?m)) \<le> card (frees s5 ?L2)"
    proof -
      have "card (frees s L) \<le> card (frees s L1) + 2" using 1(4) by (auto simp: grown_def split: if_splits)
      moreover have "frees s5 ?L2 = frees s L1" using pd(5) k5 k1 by simp
      ultimately show ?thesis using less.prems(8) nb by simp
    qed
    have ls: "n - (tot + ?m) < n - tot" "tot + ?m \<le> n" "off + ?m + (n - (tot + ?m)) \<le> MAXFILE * BSIZE" "bitmap (sb s5) \<subseteq> X" using m True less.prems(5,7) k5 by auto
    obtain s' L' bs' where r: "writei_loop i src (off + ?m) n (tot + ?m) s5 = Inr ((n, off + ?m + (n - (tot + ?m))), s')" "fstate D i s' L' bs'" "touches i s5 s'"
      "pot X bs' (itable s' i) \<le> pot X (add_block bs1 a) (itable s5 i) + nblk (off + ?m) (n - (tot + ?m))"
      "written s5 ?L2 (itable s5 i) (off + ?m) (drop (tot + ?m) cs) L' (itable s' i)"
      using less.hyps[OF ls(1) fs5 sup less.prems(3) ls(2,3) sp5 ls(4) f5] by blast
    have w2: "written s ?L2 (itable s5 i) (off + length ?ds) (drop (tot + ?m) cs) L' (itable s' i)"
      using r(5) k5 m(2) less.prems(3) by (simp add: written_def)
    have e: "?ds @ drop (tot + ?m) cs = drop tot cs" using append_take_drop_id[of ?m "drop tot cs"] by (simp add: add.commute[of tot])
    have "written s L ?ip off (drop tot cs) L' (itable s' i)"
      using written_append[OF w1 w2] m less.prems(3,5) unfolding e by simp
    moreover have "off + ?m + (n - (tot + ?m)) = off + (n - tot)" using m(2) by simp
    ultimately show ?thesis using r step touches_trans[OF t5 r(3)] pt nb by (intro exI[of _ s'] exI[of _ L'] exI[of _ bs']) simp
  qed
qed

section \<open>Reading\<close>

lemma block_div: "y < BSIZE \<Longrightarrow> (k * BSIZE + y) div BSIZE = k \<and> (k * BSIZE + y) mod BSIZE = y"
  by (simp add: BSIZE_def)

lemma load_fbytes:
  assumes "off mod BSIZE + m \<le> BSIZE" "baddr L ip (off div BSIZE) = a"
  shows "load_bytes (L a) (off mod BSIZE) m = map (fbyte L ip) [off..<off + m]"
proof (rule nth_equalityI)
  fix j assume "j < length (load_bytes (L a) (off mod BSIZE) m)"
  then have j: "j < m" by simp
  have e: "off + j = off div BSIZE * BSIZE + (off mod BSIZE + j)" by simp
  have "(off + j) div BSIZE = off div BSIZE" "(off + j) mod BSIZE = off mod BSIZE + j"
    using block_div[of "off mod BSIZE + j" "off div BSIZE"] j assms(1) unfolding e[symmetric] by simp_all
  then show "load_bytes (L a) (off mod BSIZE) m ! j = map (fbyte L ip) [off..<off + m] ! j" using j assms(2) by (simp add: fbyte_def)
qed simp

lemma readi_loop_law:
  assumes "fstate D i s L bs" "tot \<le> n" "off + (n - tot) \<le> MAXFILE * BSIZE" "\<forall>p. off \<le> p \<and> p < off + (n - tot) \<longrightarrow> baddr L (itable s i) (p div BSIZE) \<noteq> 0"
  shows "\<exists>s'. readi_loop i ToVar off n tot s = Inr ((int n, map (fbyte L (itable s i)) [off..<off + (n - tot)]), s') \<and> fstate D i s' L bs \<and> still s s'"
  using assms
proof (induction "n - tot" arbitrary: off tot s rule: less_induct)
  case less
  let ?ip = "itable s i" let ?k = "off div BSIZE" let ?m = "chunk n tot off"
  show ?case
  proof (cases "tot < n")
    case False
    then show ?thesis using less.prems by (intro exI[of _ s]) (simp add: readi_loop.simps[of i ToVar off n n] run_simps)
  next
    case True
    have m: "0 < ?m" "tot + ?m \<le> n" "off mod BSIZE + ?m \<le> BSIZE" using chunk_pos[OF True, of off] True by (auto simp: chunk_def BSIZE_def)
    have k: "?k < MAXFILE" using less.prems(3) True by (simp add: less_mult_imp_div_less)
    have d: "txn D s Map.empty L bs" "idev ?ip = ROOTDEV" using less.prems(1) by (simp_all add: fstate_def)
    have a: "baddr L ?ip ?k \<noteq> 0" using less.prems(4)[rule_format, of off] True by simp
    obtain s1 where 1: "bmap i ?k s = Inr (baddr L ?ip ?k, s1)" "fstate D i s1 L bs" "still s s1" by (rule bmap_found[OF less.prems(1) k a txnD(7)[OF d(1)]])
    have d1: "txn D s1 Map.empty L bs" using 1(2) by (simp add: fstate_def)
    obtain b s2 where 2: "bread ROOTDEV (baddr L ?ip ?k) s1 = Inr (b, s2)" "Map.empty b = (None :: nat option)" "txn D s2 (Map.empty(b \<mapsto> baddr L ?ip ?k)) L bs" "still s1 s2" "bdata (bufs s2 b) = L (baddr L ?ip ?k)"
      by (rule txn_bread[OF d1, of "baddr L ?ip ?k"]) (use txnD(7)[OF d1] in auto)
    obtain s3 where 3: "brelse b s2 = Inr ((), s3)" "txn D s3 Map.empty L bs" "still s2 s3" by (rule txn_release[OF 2(3)]) simp
    have st: "still s s3" by (rule still_trans[OF still_trans[OF 1(3) 2(4)] 3(3)])
    note k1 = still_kst[OF 1(3)] and k3 = still_kst[OF st] same_kst[of s3 s]
    have fs: "fstate D i s3 L bs" using less.prems(1) 3(2) k3 by (simp add: fstate_def)
    let ?bs = "map (fbyte L ?ip) [off..<off + ?m]"
    have lb: "load_bytes (L (baddr L ?ip ?k)) (off mod BSIZE) ?m = ?bs" by (rule load_fbytes[OF m(3) refl])
    have ls: "n - (tot + ?m) < n - tot" "off + ?m + (n - (tot + ?m)) \<le> MAXFILE * BSIZE"
      "\<forall>p. off + ?m \<le> p \<and> p < off + ?m + (n - (tot + ?m)) \<longrightarrow> baddr L (itable s3 i) (p div BSIZE) \<noteq> 0"
      using m True less.prems(3,4) k3 by auto
    obtain s' where r: "readi_loop i ToVar (off + ?m) n (tot + ?m) s3 = Inr ((int n, map (fbyte L (itable s3 i)) [off + ?m..<off + ?m + (n - (tot + ?m))]), s')" "fstate D i s' L bs" "still s3 s'"
      using less.hyps[OF ls(1) fs m(2) ls(2,3)] by blast
    have e: "off + ?m + (n - (tot + ?m)) = off + (n - tot)" using m(2) by simp
    have u: "[off..<off + (n - tot)] = [off..<off + ?m] @ [off + ?m..<off + (n - tot)]" using upt_add_eq_append[of off "off + ?m" "n - tot - ?m"] m(2) by simp
    have "readi_loop i ToVar off n tot s = Inr ((int n, ?bs @ map (fbyte L ?ip) [off + ?m..<off + (n - tot)]), s')"
      using True a d(2) k1 r(1)[unfolded e] k3 by (subst readi_loop.simps) (simp add: run_simps 1(1) ino_def 2(1,5) buf_data_def Let_def copy_to_def 3(1) lb)
    then show ?thesis using r(2) still_trans[OF st r(3)] unfolding u map_append by blast
  qed
qed

definition content :: "(nat \<Rightarrow> memory) \<Rightarrow> inode \<Rightarrow> byte list" where
  "content L ip = map (fbyte L ip) [0..<isize ip]"

text \<open>All blocks below the size of the file are there.\<close>

definition full :: "(nat \<Rightarrow> memory) \<Rightarrow> inode \<Rightarrow> bool" where
  "full L ip \<longleftrightarrow> isize ip \<le> MAXFILE * BSIZE \<and> (\<forall>p < isize ip. baddr L ip (p div BSIZE) \<noteq> 0)"

lemma readi_law:
  assumes "fstate D i s L bs" "full L (itable s i)" "off + n < 2 ^ 32"
  shows "\<exists>s'. readi i ToVar off n s = Inr ((int (length (take n (drop off (content L (itable s i))))), take n (drop off (content L (itable s i)))), s') \<and>
    fstate D i s' L bs \<and> still s s'"
proof (cases "off > isize (itable s i)")
  case True
  then show ?thesis using assms(1) by (intro exI[of _ s]) (simp add: readi_def run_simps ino_def content_def)
next
  case False
  let ?ip = "itable s i" let ?n = "if off + n > isize (itable s i) then isize (itable s i) - off else n"
  have r: "take n (drop off (content L ?ip)) = map (fbyte L ?ip) [off..<off + ?n]"
    using False by (simp add: content_def drop_map take_map drop_upt take_upt)
  have "off + ?n \<le> isize ?ip" using False by auto
  then have "\<exists>s'. readi_loop i ToVar off ?n 0 s = Inr ((int ?n, map (fbyte L ?ip) [off..<off + (?n - 0)]), s') \<and> fstate D i s' L bs \<and> still s s'"
    using assms(2) by (intro readi_loop_law[OF assms(1)]) (auto simp: full_def simp del: diff_zero split: if_splits)
  then show ?thesis using False assms(3) unfolding r by (auto simp: readi_def run_simps ino_def)
qed

section \<open>The inode on the disk\<close>

lemma load16_store16 [simp]: "load16 (store16 m a w) a = w"
  unfolding load16_def store16_def by (rule bit_eqI) (auto simp: bit_simps)

lemma load16_other:
  "b + 2 \<le> a \<or> a + 2 \<le> b \<Longrightarrow> load16 (store16 m a w) b = load16 m b"
  "b + 2 \<le> a \<or> a + 4 \<le> b \<Longrightarrow> load16 (store32 m a v) b = load16 m b"
  by (auto simp: load16_def store16_def store32_def)

lemma load32_store16: "b + 4 \<le> a \<or> a + 2 \<le> b \<Longrightarrow> load32 (store16 m a w) b = load32 m b"
  by (auto simp: load32_def store16_def)

lemma put_addrs_other:
  "b + 4 \<le> a \<Longrightarrow> load32 (put_addrs f a n m) b = load32 m b" "b + 2 \<le> a \<Longrightarrow> load16 (put_addrs f a n m) b = load16 m b"
  by (induction n) (simp_all add: load32_store32_hi load16_other)

lemma put_addrs_at: "k < n \<Longrightarrow> load32 (put_addrs f a n m) (a + 4 * k) = of_nat (f k)"
proof (induction n)
  case (Suc n)
  show ?case
  proof (cases "k = n")
    case False
    then have "load32 (store32 (put_addrs f a n m) (a + 4 * n) (of_nat (f n))) (a + 4 * k) = load32 (put_addrs f a n m) (a + 4 * k)"
      using Suc.prems by (intro load32_store32_hi) simp
    then show ?thesis using Suc False by simp
  qed simp
qed simp

lemma get_put_dinode:
  assumes "isize ip < 2 ^ 32" "\<forall>k \<le> NDIRECT. iaddrs ip k < 2 ^ 32"
  shows "get_dinode (put_dinode ip a d) a ip = ip"
proof -
  have k: "unat (load32 (put_dinode ip a d) (a + 12 + 4 * k)) = iaddrs ip k" if "k < NDIRECT + 1" for k
    using put_addrs_at[OF that, of "iaddrs ip" "a + 12"] assms(2) that by (simp add: put_dinode_def)
  have s: "unat (load32 (put_dinode ip a d) (a + 8)) = isize ip" using assms(1) by (simp add: put_dinode_def put_addrs_other del: put_addrs.simps)
  have h: "load16 (put_dinode ip a d) a = itype ip" "load16 (put_dinode ip a d) (a + 2) = imajor ip" "load16 (put_dinode ip a d) (a + 4) = iminor ip" "load16 (put_dinode ip a d) (a + 6) = inlink ip"
    by (simp_all add: put_dinode_def put_addrs_other load16_other del: put_addrs.simps)
  have "(\<lambda>i. if i < NDIRECT + 1 then unat (load32 (put_dinode ip a d) (a + 12 + 4 * i)) else iaddrs ip i) = iaddrs ip" using k by auto
  then show ?thesis unfolding get_dinode_def s h by simp
qed

lemma iupdate_logged: "idev (itable s i) = ROOTDEV \<Longrightarrow> iupdate i s = logged_update (IBLOCK (inum (itable s i)) (sb s)) (put_dinode (itable s i) (dinode_at (inum (itable s i)))) s"
  by (simp add: iupdate_def logged_update_def bnd_def gets_run)

lemma put_inode:
  assumes "map_ok s L" "n \<in> iblocks (sb s)"
  shows "c < sb_size (sb s) \<Longrightarrow> used (sb s) (L(n := d)) c = used (sb s) L c" "map_ok s (L(n := d))" "file_ok s L ip \<Longrightarrow> file_ok s (L(n := d)) ip"
    "file_ok s L ip \<Longrightarrow> baddr (L(n := d)) ip = baddr L ip" "file_ok s L ip \<Longrightarrow> k < MAXFILE \<Longrightarrow> baddr L ip k \<noteq> 0 \<Longrightarrow> (L(n := d)) (baddr L ip k) = L (baddr L ip k)"
proof -
  have u: "used (sb s) (L(n := d)) c = used (sb s) L c" if "c < sb_size (sb s)" for c
  proof -
    have "BBLOCK c (sb s) \<noteq> n" using BBLOCK_meta[OF that] assms by (auto simp: map_ok_def)
    then show ?thesis by (simp add: used_def)
  qed
  then show "c < sb_size (sb s) \<Longrightarrow> used (sb s) (L(n := d)) c = used (sb s) L c" .
  show "map_ok s (L(n := d))" using assms(1) u by (simp add: map_ok_def)
  have g: "good s (L(n := d)) = good s L" using u by (auto simp: fun_eq_iff good_def)
  have m: "n \<in> meta (sb s)" using assms(2) by (simp add: meta_def)
  show b: "baddr (L(n := d)) ip = baddr L ip" if "file_ok s L ip"
    using fileD(4)[OF that] m by (auto simp: fun_eq_iff baddr_def good_def)
  show "file_ok s (L(n := d)) ip" if "file_ok s L ip" using that b[OF that] g by (simp add: file_ok_def)
  show "(L(n := d)) (baddr L ip k) = L (baddr L ip k)" if "file_ok s L ip" "k < MAXFILE" "baddr L ip k \<noteq> 0"
    using fileD(3)[OF that] m by (auto simp: good_def)
qed

section \<open>Writing\<close>

text \<open>The blocks of metadata that writing to a file may change.\<close>

definition own_meta :: "superblock \<Rightarrow> inode \<Rightarrow> nat set" where
  "own_meta sblk ip = insert (IBLOCK (inum ip) sblk) (bitmap sblk)"

lemma content_written:
  assumes "written s L ip off cs L1 ip1" "full L ip" "off \<le> isize ip" "off + length cs \<le> MAXFILE * BSIZE" "isize ip2 = max (isize ip) (off + length cs)"
    "baddr L2 ip2 = baddr L1 ip1" "\<And>k. k < MAXFILE \<Longrightarrow> baddr L1 ip1 k \<noteq> 0 \<Longrightarrow> L2 (baddr L1 ip1 k) = L1 (baddr L1 ip1 k)"
  shows "full L2 ip2" "content L2 ip2 = take off (content L ip) @ cs @ drop (off + length cs) (content L ip)"
proof -
  have p: "baddr L1 ip1 (p div BSIZE) \<noteq> 0 \<and> fbyte L1 ip1 p = (if off \<le> p \<and> p < off + length cs then cs ! (p - off) else fbyte L ip p) \<and> p < MAXFILE * BSIZE"
    if "p < isize ip2" for p
  proof (cases "off \<le> p \<and> p < off + length cs")
    case True
    then obtain q where "p = off + q" "q < length cs" by (metis add_diff_inverse_nat nat_add_left_cancel_less not_less)
    then show ?thesis using assms(1,4) by (simp add: written_def)
  next
    case False
    then have "p < isize ip" using that assms(3,5) by auto
    then have "p < MAXFILE * BSIZE" "baddr L ip (p div BSIZE) \<noteq> 0" using assms(2) by (auto simp: full_def)
    then show ?thesis using assms(1) False by (auto simp: written_def)
  qed
  have "isize ip2 \<le> MAXFILE * BSIZE" using assms(2,4,5) by (simp add: full_def)
  then show "full L2 ip2" using p assms(6) by (simp add: full_def)
  have f2: "fbyte L2 ip2 p = fbyte L1 ip1 p" if "p < isize ip2" for p
    using p[OF that] assms(6) assms(7)[of "p div BSIZE"] by (simp add: fbyte_def less_mult_imp_div_less)
  have lc: "length (content L ip) = isize ip" by (simp add: content_def)
  show "content L2 ip2 = take off (content L ip) @ cs @ drop (off + length cs) (content L ip)"
  proof (rule nth_equalityI)
    show "length (content L2 ip2) = length (take off (content L ip) @ cs @ drop (off + length cs) (content L ip))"
      using assms(3,5) lc by (auto simp: content_def)
    fix q assume "q < length (content L2 ip2)"
    then have q: "q < isize ip2" by (simp add: content_def)
    have "content L2 ip2 ! q = (if off \<le> q \<and> q < off + length cs then cs ! (q - off) else fbyte L ip q)" using q f2[OF q] p[OF q] by (simp add: content_def)
    also have "\<dots> = (take off (content L ip) @ cs @ drop (off + length cs) (content L ip)) ! q"
      using q assms(3,5) lc by (auto simp: nth_append content_def min_def split: if_splits)
    finally show "content L2 ip2 ! q = (take off (content L ip) @ cs @ drop (off + length cs) (content L ip)) ! q" .
  qed
qed

lemma writei_law:
  assumes "fstate D i s L bs" "full L (itable s i)" "supplies src cs s" "off \<le> isize (itable s i)" "off + length cs \<le> MAXFILE * BSIZE"
    "inum (itable s i) < sb_ninodes (sb s)" "own_meta (sb s) (itable s i) \<subseteq> X"
    "space s X (pot X bs (itable s i) + nblk off (length cs))" "2 * nblk off (length cs) \<le> card (frees s L)"
  defines "n \<equiv> IBLOCK (inum (itable s i)) (sb s)"
  shows "\<exists>s' L' bs'. writei i src off (length cs) s = Inr (int (length cs), s') \<and> fstate D i s' L' bs' \<and> full L' (itable s' i) \<and> touches i s s' \<and>
    content L' (itable s' i) = take off (content L (itable s i)) @ cs @ drop (off + length cs) (content L (itable s i)) \<and>
    get_dinode (L' n) (dinode_at (inum (itable s i))) (itable s' i) = itable s' i \<and>
    (\<forall>m. m \<notin> bitmap (sb s) \<longrightarrow> (m < sb_size (sb s) \<longrightarrow> used (sb s) L m) \<longrightarrow> m \<notin> fblocks L (itable s i) \<longrightarrow> m \<noteq> n \<longrightarrow> L' m = L m)"
proof -
  let ?ip = "itable s i" let ?N = "length cs"
  have x: "bitmap (sb s) \<subseteq> X" "n \<in> X" using assms(7) by (auto simp: own_meta_def n_def)
  obtain s1 L1 bs1 where 1: "writei_loop i src off ?N 0 s = Inr ((?N, off + ?N), s1)" "fstate D i s1 L1 bs1" "touches i s s1"
    "pot X bs1 (itable s1 i) \<le> pot X bs ?ip + nblk off ?N" "written s L ?ip off cs L1 (itable s1 i)"
    using writei_loop_law[OF assms(1,3) refl, of 0 off X] assms(5,8,9) x(1) by auto
  note k1 = touches_kst[OF 1(3)] touches_same[OF 1(3)]
  obtain f where f: "itable s1 i = ?ip\<lparr>iaddrs := f\<rparr>" using 1(5) by (auto simp: written_def)
  let ?jp = "(itable s1 i)\<lparr>isize := max (isize ?ip) (off + ?N)\<rparr>"
  let ?s2 = "s1\<lparr>itable := (itable s1)(i := ?jp)\<rparr>"
  have d1: "txn D s1 Map.empty L1 bs1" "map_ok s1 L1" "file_ok s1 L1 (itable s1 i)" "idev (itable s1 i) = ROOTDEV" using 1(2) by (simp_all add: fstate_def)
  have sz: "(if off + ?N > isize ?ip then inode_upd i (\<lambda>ip. ip\<lparr>isize := off + ?N\<rparr>) else ret ()) s1 = Inr ((), ?s2)"
  proof (cases "off + ?N > isize ?ip")
    case False
    then have "?jp = itable s1 i" by (simp add: f max_def)
    then have "?s2 = s1" by simp
    then show ?thesis using False by (simp only: if_False ret_run)
  qed (simp add: inode_upd_def run_simps max_def)
  have t2: "touches i s1 ?s2" by (simp add: touches_def)
  have nb: "n \<in> iblocks (sb s1)" using assms(6) k1 by (auto simp: n_def iblocks_def)
  have d2: "txn D ?s2 Map.empty L1 bs1" "idev (itable ?s2 i) = ROOTDEV" using d1 by simp_all
  have o: "outside (log_start ?s2) (log_size ?s2) n" "n < 2 ^ 32" using d1(2) nb by (auto simp: map_ok_def meta_def)
  have fin: "finite X" using assms(8) by (simp add: space_def)
  have "room s X bs1 0" by (rule space_room[OF assms(8)]) (use 1(4) pot_load(1)[of X bs1 "itable s1 i"] in simp)
  then have r: "room ?s2 X bs1 0" using touches_room[OF touches_trans[OF 1(3) t2]] by simp
  let ?d = "put_dinode ?jp (dinode_at (inum ?ip)) (L1 n)"
  obtain s3 where 3: "logged_update n (put_dinode ?jp (dinode_at (inum ?ip))) ?s2 = Inr ((), s3)" "txn D s3 Map.empty (L1(n := ?d)) (add_block bs1 n)" "still ?s2 s3"
    by (rule txn_logged_update[OF d2(1) _ _ o r, where f = "put_dinode ?jp (dinode_at (inum ?ip))"]) auto
  have t3: "touches i s s3" by (rule touches_trans[OF touches_trans[OF 1(3) t2] touches_still[OF 3(3)]])
  note k3 = touches_kst[OF t3] touches_same[OF t3]
  have j3: "itable s3 i = ?jp" using still_kst[OF 3(3)] by simp
  have up: "iupdate i ?s2 = Inr ((), s3)" using iupdate_logged[OF d2(2)] 3(1) f k1 by (simp add: n_def)
  have "off + ?N < 2 ^ 32" using assms(5) by (simp add: MAXFILE_def NDIRECT_def NINDIRECT_def BSIZE_def)
  then have w: "writei i src off ?N s = Inr (int ?N, s3)" using assms(4,5) 1(1) sz up by (simp add: writei_def run_simps ino_def del: if_split)
  note pi = put_inode[OF d1(2) nb, where d = ?d]
  have bj: "baddr L' ?jp = baddr L' (itable s1 i)" "iaddrs ?jp = iaddrs (itable s1 i)" for L' by (simp_all add: fun_eq_iff baddr_def)
  have fo: "file_ok s1 (L1(n := ?d)) ?jp" using pi(3)[OF d1(3)] by (simp add: file_ok_def bj)
  have fs: "fstate D i s3 (L1(n := ?d)) (add_block bs1 n)" using 3(2) pi(2) fo j3 d1(4) k1 k3 by (simp add: fstate_def)
  note c = content_written[OF 1(5) assms(2,4,5), where ?L2.0 = "L1(n := ?d)" and ?ip2.0 = ?jp]
  have cf: "full (L1(n := ?d)) ?jp" "content (L1(n := ?d)) ?jp = take off (content L ?ip) @ cs @ drop (off + ?N) (content L ?ip)"
    by (rule c; use pi(4,5)[OF d1(3)] bj in simp)+
  have a32: "iaddrs ?jp k < 2 ^ 32" if "k \<le> NDIRECT" for k
  proof (cases "k = NDIRECT")
    case True
    then show ?thesis using fileD(4)[OF d1(3)] goodD(6)[OF d1(2)] by (cases "iaddrs (itable s1 i) NDIRECT = 0") auto
  next
    case False
    then have k: "baddr L1 (itable s1 i) k = iaddrs (itable s1 i) k" "k < MAXFILE" using that by (auto simp: baddr_def MAXFILE_def)
    then show ?thesis using fileD(3)[OF d1(3) k(2)] goodD(6)[OF d1(2)] by (cases "iaddrs (itable s1 i) k = 0") auto
  qed
  have "isize ?jp < 2 ^ 32" using cf(1) by (simp add: full_def MAXFILE_def NDIRECT_def NINDIRECT_def BSIZE_def)
  then have g: "get_dinode ?d (dinode_at (inum ?ip)) ?jp = ?jp" using a32 by (intro get_put_dinode) auto
  have fr: "(L1(n := ?d)) m = L m" if "m \<notin> bitmap (sb s)" "m < sb_size (sb s) \<longrightarrow> used (sb s) L m" "m \<notin> fblocks L ?ip" "m \<noteq> n" for m
    using 1(5) that by (simp add: written_def)
  show ?thesis using w fs cf g fr t3 j3 by (intro exI[of _ s3] exI[of _ "L1(n := ?d)"] exI[of _ "add_block bs1 n"]) simp
qed

section \<open>The properties\<close>

lemma finite_own_meta: "finite (own_meta sblk ip)"
proof -
  have "bitmap sblk = (\<lambda>b. BBLOCK b sblk) ` {..<sb_size sblk}" by (auto simp: bitmap_def)
  then show ?thesis by (simp add: own_meta_def)
qed

text \<open>
  C9. Writing to a file. Inside a transaction that has room for the blocks, with free blocks on the disk, \<^verbatim>\<open>writei\<close> at an offset within the
  file writes all bytes that the source supplies: the new contents of the file are the old ones with these bytes in place, the inode on
  the disk is the one in memory, every block in use that belongs neither to the file nor to the free map nor holds the inode is unchanged, and
  \<^verbatim>\<open>readi\<close> at any offset then returns the bytes of the new contents.
\<close>

theorem writei_readi:
  assumes "fstate D i s L bs" "full L (itable s i)" "supplies src cs s" "off \<le> isize (itable s i)" "off + length cs \<le> MAXFILE * BSIZE"
    "inum (itable s i) < sb_ninodes (sb s)" "2 * nblk off (length cs) \<le> card (frees s L)"
    "pot (own_meta (sb s) (itable s i)) bs (itable s i) + nblk off (length cs) + 1 < log_size s"
    "pot (own_meta (sb s) (itable s i)) bs (itable s i) + nblk off (length cs) + 2 < NBUF"
  shows "\<exists>s' L' bs' new. new = take off (content L (itable s i)) @ cs @ drop (off + length cs) (content L (itable s i)) \<and>
    writei i src off (length cs) s = Inr (int (length cs), s') \<and> fstate D i s' L' bs' \<and> full L' (itable s' i) \<and> content L' (itable s' i) = new \<and>
    get_dinode (L' (IBLOCK (inum (itable s i)) (sb s))) (dinode_at (inum (itable s i))) (itable s' i) = itable s' i \<and>
    (\<forall>m. m \<notin> own_meta (sb s) (itable s i) \<longrightarrow> (m < sb_size (sb s) \<longrightarrow> used (sb s) L m) \<longrightarrow> m \<notin> fblocks L (itable s i) \<longrightarrow> L' m = L m) \<and>
    (\<forall>pos m. pos + m < 2 ^ 32 \<longrightarrow> (\<exists>s''. readi i ToVar pos m s' = Inr ((int (length (take m (drop pos new))), take m (drop pos new)), s'')))"
proof -
  let ?X = "own_meta (sb s) (itable s i)"
  have sp: "space s ?X (pot ?X bs (itable s i) + nblk off (length cs))" using assms(8,9) finite_own_meta by (simp add: space_def)
  obtain s' L' bs' where w: "writei i src off (length cs) s = Inr (int (length cs), s')" "fstate D i s' L' bs'" "full L' (itable s' i)"
    "content L' (itable s' i) = take off (content L (itable s i)) @ cs @ drop (off + length cs) (content L (itable s i))"
    "get_dinode (L' (IBLOCK (inum (itable s i)) (sb s))) (dinode_at (inum (itable s i))) (itable s' i) = itable s' i"
    "\<forall>m. m \<notin> bitmap (sb s) \<longrightarrow> (m < sb_size (sb s) \<longrightarrow> used (sb s) L m) \<longrightarrow> m \<notin> fblocks L (itable s i) \<longrightarrow> m \<noteq> IBLOCK (inum (itable s i)) (sb s) \<longrightarrow> L' m = L m"
    using writei_law[OF assms(1-6) subset_refl sp assms(7)] by blast
  have "\<exists>s''. readi i ToVar pos m s' = Inr ((int (length (take m (drop pos (content L' (itable s' i))))), take m (drop pos (content L' (itable s' i)))), s'')"
    if "pos + m < 2 ^ 32" for pos m using readi_law[OF w(2,3) that] by blast
  then show ?thesis using w unfolding w(4)[symmetric]
    by (intro exI[of _ s'] exI[of _ L'] exI[of _ bs'] exI[of _ "content L' (itable s' i)"]) (auto simp: own_meta_def)
qed

lemma content_same:
  assumes "file_ok s L ip" "full L ip" "\<And>b. good s L b \<Longrightarrow> L2 b = L b"
  shows "content L2 ip = content L ip"
proof -
  have b: "baddr L2 ip k = baddr L ip k" for k
    using assms(3)[OF fileD(4)[OF assms(1)]] by (cases "iaddrs ip NDIRECT = 0") (simp_all add: baddr_def)
  have "fbyte L2 ip p = fbyte L ip p" if "p < isize ip" for p
  proof -
    have p: "p div BSIZE < MAXFILE" "baddr L ip (p div BSIZE) \<noteq> 0" using assms(2) that by (auto simp: full_def less_mult_imp_div_less)
    then show ?thesis using fileD(3)[OF assms(1) p] assms(3) b by (simp add: fbyte_def)
  qed
  then show ?thesis by (simp add: content_def)
qed

text \<open>
  C3. Writing to a file is atomic. A transaction that consists of one \<^verbatim>\<open>writei\<close>, whose file is on the disk as in memory before, is
  committed by \<^verbatim>\<open>end_op\<close>. If the machine stops after any number of the disk writes of the commit and \<^verbatim>\<open>initlog\<close> recovers what is then on
  the disk, the file that the inode on the disk describes has its old contents or its new contents, never a mixture; from some
  disk write on it has the new ones.
\<close>

theorem file_write_atomic:
  assumes "fstate D i s D []" "full D (itable s i)" "supplies src cs s" "off \<le> isize (itable s i)" "off + length cs \<le> MAXFILE * BSIZE"
    "inum (itable s i) < sb_ninodes (sb s)" "2 * nblk off (length cs) \<le> card (frees s D)"
    "pot (own_meta (sb s) (itable s i)) [] (itable s i) + nblk off (length cs) + 1 < log_size s"
    "pot (own_meta (sb s) (itable s i)) [] (itable s i) + nblk off (length cs) + 2 < NBUF"
    "get_dinode (D (IBLOCK (inum (itable s i)) (sb s))) (dinode_at (inum (itable s i))) (itable s i) = itable s i"
    "log_outstanding s = 1" "\<not> log_committing s" "log_start s = sb_logstart (sb s)" "log_size s = sb_nlog (sb s)"
  shows "\<exists>s1 s2 W c old new ip'. old = content D (itable s i) \<and> new = take off old @ cs @ drop (off + length cs) old \<and>
    writei i src off (length cs) s = Inr (int (length cs), s1) \<and> disk s1 = disk s \<and> end_op s1 = Inr ((), s2) \<and> wtrace s2 = wtrace s1 @ W \<and>
    get_dinode (disk s2 (IBLOCK (inum (itable s i)) (sb s))) (dinode_at (inum (itable s i))) ip' = ip' \<and> content (disk s2) ip' = new \<and>
    (\<forall>k (t :: 'z kst_scheme) E ip. E = wr_all (take k W) D \<longrightarrow> crep t Map.empty E E [] (\<lambda>_. 0) \<longrightarrow> ip = (if k \<le> c then itable s i else ip') \<longrightarrow>
       (\<exists>t'. initlog ROOTDEV (sb s) t = Inr ((), t') \<and>
          get_dinode (disk t' (IBLOCK (inum (itable s i)) (sb s))) (dinode_at (inum (itable s i))) ip = ip \<and>
          content (disk t') ip = (if k \<le> c then old else new)))"
proof -
  let ?ip = "itable s i" let ?X = "own_meta (sb s) (itable s i)" let ?n = "IBLOCK (inum (itable s i)) (sb s)"
  let ?new = "take off (content D ?ip) @ cs @ drop (off + length cs) (content D ?ip)"
  have sp: "space s ?X (pot ?X [] ?ip + nblk off (length cs))" using assms(8,9) finite_own_meta by (simp add: space_def)
  obtain s1 L' bs' where w: "writei i src off (length cs) s = Inr (int (length cs), s1)" "fstate D i s1 L' bs'" "full L' (itable s1 i)" "touches i s s1"
    "content L' (itable s1 i) = ?new" "get_dinode (L' ?n) (dinode_at (inum ?ip)) (itable s1 i) = itable s1 i"
    using writei_law[OF assms(1-6) subset_refl sp assms(7)] by blast
  have t1: "txn D s1 Map.empty L' bs'" "map_ok s1 L'" "file_ok s1 L' (itable s1 i)" using w(2) by (simp_all add: fstate_def)
  have t0: "txn D s Map.empty D []" "map_ok s D" "file_ok s D ?ip" using assms(1) by (simp_all add: fstate_def)
  have k1: "log_outstanding s1 = 1" "\<not> log_committing s1" "log_start s1 = sb_logstart (sb s)" "log_size s1 = sb_nlog (sb s)" "sb s1 = sb s"
    using w(4) still_logd[of "s\<lparr>itable := (itable s)(i := itable s1 i)\<rparr>" s1] touches_kst[OF w(4)] assms(11-14) by (simp_all add: touches_def)
  have "hpins bs' Map.empty = pins bs'" by (simp add: fun_eq_iff hpins_def)
  then have c1: "crep s1 Map.empty L' D (wtrace s1) (pins bs')" using txnD(1)[OF t1(1)] by simp
  have l1: "log_ok s1 (sb_logstart (sb s)) (sb_nlog (sb s)) bs' D" using t1(1) k1 by (simp add: txn_def)
  obtain s2 W where e: "end_op s1 = Inr ((), s2)" "wtrace s2 = wtrace s1 @ W" "\<forall>b. outside (sb_logstart (sb s)) (sb_nlog (sb s)) b \<longrightarrow> disk s2 b = L' b"
    "\<And>k (t :: 'z kst_scheme) E. E = wr_all (take k W) D \<Longrightarrow> crep t Map.empty E E [] (\<lambda>_. 0) \<Longrightarrow>
        (\<exists>t'. initlog ROOTDEV (sb s) t = Inr ((), t') \<and> (\<forall>b. outside (sb_logstart (sb s)) (sb_nlog (sb s)) b \<longrightarrow> disk t' b = (if k \<le> length bs' then D b else L' b)))"
    using end_op_law[OF c1 l1 k1(1,2)] by blast
  have n: "outside (sb_logstart (sb s)) (sb_nlog (sb s)) ?n" using t0(2) assms(6,13,14) by (auto simp: map_ok_def meta_def iblocks_def)
  have old: "content E ?ip = content D ?ip \<and> get_dinode (E ?n) (dinode_at (inum ?ip)) ?ip = ?ip" if "\<forall>b. outside (sb_logstart (sb s)) (sb_nlog (sb s)) b \<longrightarrow> E b = D b" for E
    using content_same[OF t0(3) assms(2), of E] that n assms(10,13,14) by (simp add: good_def)
  have new: "content E (itable s1 i) = ?new \<and> get_dinode (E ?n) (dinode_at (inum ?ip)) (itable s1 i) = itable s1 i" if "\<forall>b. outside (sb_logstart (sb s)) (sb_nlog (sb s)) b \<longrightarrow> E b = L' b" for E
    using content_same[OF t1(3) w(3), of E] that n w(5,6) k1 by (simp add: good_def)
  have rec: "\<exists>t'. initlog ROOTDEV (sb s) t = Inr ((), t') \<and> get_dinode (disk t' ?n) (dinode_at (inum ?ip)) ip = ip \<and>
      content (disk t') ip = (if k \<le> length bs' then content D ?ip else ?new)"
    if "E = wr_all (take k W) D" "crep t Map.empty E E [] (\<lambda>_. 0)" "ip = (if k \<le> length bs' then ?ip else itable s1 i)" for k E ip and t :: "'z kst_scheme"
  proof -
    from e(4)[OF that(1,2)] obtain t' where t': "initlog ROOTDEV (sb s) t = Inr ((), t')" "\<forall>b. outside (sb_logstart (sb s)) (sb_nlog (sb s)) b \<longrightarrow> disk t' b = (if k \<le> length bs' then D b else L' b)"
      by blast
    show ?thesis
    proof (cases "k \<le> length bs'")
      case True
      then show ?thesis using t' old[of "disk t'"] that(3) by simp
    next
      case False
      then show ?thesis using t' new[of "disk t'"] that(3) by simp
    qed
  qed
  have ds: "disk s1 = disk s" using crepD(3)[OF c1] crepD(3)[OF txnD(1)[OF t0(1)]] by simp
  note n2 = new[OF e(3)]
  show ?thesis
  proof (intro exI conjI)
    show "content D ?ip = content D ?ip" "?new = ?new" by (rule refl)+
    show "\<forall>k (t :: 'z kst_scheme) E ip. E = wr_all (take k W) D \<longrightarrow> crep t Map.empty E E [] (\<lambda>_. 0) \<longrightarrow> ip = (if k \<le> length bs' then ?ip else itable s1 i) \<longrightarrow>
       (\<exists>t'. initlog ROOTDEV (sb s) t = Inr ((), t') \<and> get_dinode (disk t' ?n) (dinode_at (inum ?ip)) ip = ip \<and>
          content (disk t') ip = (if k \<le> length bs' then content D ?ip else ?new))"
      using rec by blast
  qed (fact w(1) ds e(1,2) n2[THEN conjunct1] n2[THEN conjunct2])+
qed

text \<open>A machine with an empty file as inode 1, whose first 48 blocks are marked as used, in a transaction.\<close>

definition small_file :: inode where
  "small_file = blank_inode\<lparr>idev := ROOTDEV, inum := 1, iref := 1, ilocked := True, ipid := 1, ivalid := True, itype := T_FILE, inlink := 1\<rparr>"

definition fs_disk :: "nat \<Rightarrow> memory" where
  "fs_disk = (\<lambda>_ _. 0)(32 := put_dinode small_file 64 (\<lambda>_. 0), 45 := (\<lambda>x. if x < 6 then 255 else 0))"

definition fs_boot :: kst where
  "fs_boot = logd.extend (blkd.extend (boot fs_disk) (logd.fields 2 30 1 False ROOTDEV 0 (\<lambda>_. 0)))
     (kst.fields demo_sb (\<lambda>_. small_file) (\<lambda>_. blank_file) (\<lambda>_. blank_proc) NPROC None 1 True 0
     (\<lambda>_. NoDriver) 0x80001000 0 0 0 0 KernelVec 0 0 0 [])"

lemma demo_blocks: "bitmap demo_sb = {45}" "n \<in> iblocks demo_sb \<Longrightarrow> 32 \<le> n \<and> n < 45" "IBLOCK (Suc 0) demo_sb = 32" "sb_size demo_sb = 2000" "Suc 0 < sb_ninodes demo_sb"
proof -
  have "BBLOCK b demo_sb = 45" if "b < 2000" for b using that by (simp add: BBLOCK_def demo_sb_def BPB_def BSIZE_def)
  then show "bitmap demo_sb = {45}" by (auto simp: bitmap_def demo_sb_def intro!: exI[of _ 0])
qed (auto simp: iblocks_def IBLOCK_def demo_sb_def IPB_def BSIZE_def)

lemma demo_used: "b < 2000 \<Longrightarrow> used demo_sb fs_disk b \<longleftrightarrow> b < 48"
proof -
  assume b: "b < 2000"
  have e: "BBLOCK b demo_sb = 45" "b mod BPB = b" using b by (simp_all add: BBLOCK_def demo_sb_def BPB_def BSIZE_def)
  have "(255 :: byte) = mask 8" by (simp add: mask_eq_exp_minus_1)
  then have "bit (255 :: byte) (b mod 8)" by (simp only: bit_mask_iff) simp
  moreover have "b < 48 \<longleftrightarrow> b div 8 < 6" by auto
  ultimately show ?thesis by (auto simp: used_def e block_bit_bit fs_disk_def)
qed

lemma fs_boot_run:
  obtains s0 where "binit fs_boot = Inr ((), s0)" "fstate fs_disk 0 s0 fs_disk []" "itable s0 0 = small_file" "sb s0 = demo_sb" "log_size s0 = 30" "log_start s0 = 2"
    "log_outstanding s0 = 1" "\<not> log_committing s0" "frees s0 fs_disk = {48..<2000}"
proof -
  have b: "bufs fs_boot b = \<lparr>valid = False, bdev = 0, blockno = 0, refcnt = 0, blocked = False, bpid = 0, bdata = (\<lambda>_. 0)\<rparr>"
    "disk fs_boot = fs_disk" "wtrace fs_boot = []" "log_start fs_boot = 2" "log_size fs_boot = 30" "log_outstanding fs_boot = 1"
    "\<not> log_committing fs_boot" "log_dev fs_boot = ROOTDEV" "lh_n fs_boot = 0" "sb fs_boot = demo_sb" "itable fs_boot = (\<lambda>_. small_file)" for b
    by (simp_all add: fs_boot_def logd.extend_def kst.fields_def blkd.extend_def logd.fields_def boot_def ttyd.extend_def blkd.fields_def)
  obtain s0 where s0: "binit fs_boot = Inr ((), s0)" "crep s0 Map.empty fs_disk fs_disk [] (\<lambda>_. 0)" "kept fs_boot s0"
    using binit_law[of fs_boot] b by auto
  note k = kept_logd[OF s0(3)] still_kst[OF kept_still2[OF s0(3)]] b
  have w: "wtrace s0 = []" using crepD(4)[OF s0(2)] .
  have h: "hpins [] Map.empty = (\<lambda>_. 0)" by (simp add: fun_eq_iff hpins_def pins_def)
  have "head_n (fs_disk 2) = 0" by (simp add: fs_disk_def head_n_def load32_def)
  then have t: "txn fs_disk s0 Map.empty fs_disk []" using s0(2) k w h by (simp add: txn_def log_ok_def log_rep_def NBUF_def)
  have f: "frees s0 fs_disk = {48..<2000}" using k demo_used demo_blocks(4) by (auto simp: frees_def)
  have "map_ok s0 fs_disk" using k demo_blocks(1,2,4) demo_used by (fastforce simp: map_ok_def meta_def outside_def)
  moreover have "file_ok s0 fs_disk small_file" by (simp add: file_ok_def baddr_def small_file_def blank_inode_def)
  ultimately have "fstate fs_disk 0 s0 fs_disk []" using t k by (simp add: fstate_def small_file_def)
  then show thesis using that s0(1) k f by simp
qed

lemma small_file_simps: "content L small_file = []" "full L small_file" "isize small_file = 0" "inum small_file = 1" "own_meta demo_sb small_file = {32, 45}"
    "pot {32, 45} [] small_file = 3" "nblk 0 2 = 1" "get_dinode (fs_disk 32) (dinode_at (Suc 0)) small_file = small_file"
proof -
  show i: "isize small_file = 0" "inum small_file = 1" by (simp_all add: small_file_def blank_inode_def)
  show "content L small_file = []" "full L small_file" by (simp_all add: content_def full_def i)
  show "own_meta demo_sb small_file = {32, 45}" by (simp add: own_meta_def demo_blocks i)
  show "pot {32, 45} [] small_file = 3" by (simp add: pot_def load_def small_file_def blank_inode_def)
  show "nblk 0 2 = 1" by (simp add: nblk_def BSIZE_def)
  have "dinode_at (Suc 0) = 64" by (simp add: dinode_at_def IPB_def BSIZE_def)
  moreover have "get_dinode (put_dinode small_file 64 (\<lambda>_. 0)) 64 small_file = small_file" by (rule get_put_dinode) (simp_all add: small_file_def blank_inode_def)
  ultimately show "get_dinode (fs_disk 32) (dinode_at (Suc 0)) small_file = small_file" by (simp add: fs_disk_def)
qed

lemma demo_hyps:
  assumes "itable s0 0 = small_file" "sb s0 = demo_sb" "log_size s0 = 30" "frees s0 fs_disk = {48..<2000}"
  defines "X \<equiv> own_meta (sb s0) (itable s0 0)"
  shows "full fs_disk (itable s0 0)" "0 \<le> isize (itable s0 0)" "0 + length [104, 105 :: byte] \<le> MAXFILE * BSIZE" "inum (itable s0 0) < sb_ninodes (sb s0)"
    "2 * nblk 0 (length [104, 105 :: byte]) \<le> card (frees s0 fs_disk)" "pot X [] (itable s0 0) + nblk 0 (length [104, 105 :: byte]) + 1 < log_size s0"
    "pot X [] (itable s0 0) + nblk 0 (length [104, 105 :: byte]) + 2 < NBUF"
proof -
  have n: "nblk 0 (length [104, 105 :: byte]) = 1" by (simp add: nblk_def BSIZE_def)
  show "full fs_disk (itable s0 0)" "0 \<le> isize (itable s0 0)" "inum (itable s0 0) < sb_ninodes (sb s0)" using demo_blocks(5) by (simp_all add: assms small_file_simps)
  show "0 + length [104, 105 :: byte] \<le> MAXFILE * BSIZE" by (simp add: MAXFILE_def NDIRECT_def NINDIRECT_def BSIZE_def)
  show "2 * nblk 0 (length [104, 105 :: byte]) \<le> card (frees s0 fs_disk)" unfolding n by (simp add: assms(4))
  show "pot X [] (itable s0 0) + nblk 0 (length [104, 105 :: byte]) + 1 < log_size s0" "pot X [] (itable s0 0) + nblk 0 (length [104, 105 :: byte]) + 2 < NBUF"
    unfolding X_def n by (simp_all add: assms small_file_simps NBUF_def)
qed

theorem writei_readi_witness:
  "\<exists>s0 s' s''. binit fs_boot = Inr ((), s0) \<and> writei 0 (FromVar [104, 105]) 0 2 s0 = Inr (2, s') \<and> readi 0 ToVar 0 10 s' = Inr ((2, [104, 105]), s'')"
proof -
  obtain s0 where s: "binit fs_boot = Inr ((), s0)" "fstate fs_disk 0 s0 fs_disk []" "itable s0 0 = small_file" "sb s0 = demo_sb" "log_size s0 = 30" "frees s0 fs_disk = {48..<2000}"
    by (rule fs_boot_run)
  note h = demo_hyps[OF s(3-6)]
  obtain s' new where w: "new = take 0 (content fs_disk (itable s0 0)) @ [104, 105] @ drop (0 + length [104, 105 :: byte]) (content fs_disk (itable s0 0))"
    "writei 0 (FromVar [104, 105]) 0 (length [104, 105 :: byte]) s0 = Inr (int (length [104, 105 :: byte]), s')"
    "\<forall>pos m. pos + m < 2 ^ 32 \<longrightarrow> (\<exists>s''. readi 0 ToVar pos m s' = Inr ((int (length (take m (drop pos new))), take m (drop pos new)), s''))"
    using writei_readi[OF s(2) h(1) supplies_var h(2-7)] by blast
  have "new = [104, 105]" using w(1) by (simp add: s(3) small_file_simps)
  moreover obtain s'' where "readi 0 ToVar 0 10 s' = Inr ((int (length (take 10 (drop 0 new))), take 10 (drop 0 new)), s'')" using w(3)[rule_format, of 0 10] by auto
  ultimately have "readi 0 ToVar 0 10 s' = Inr ((2, [104, 105]), s'')" by simp
  moreover have "writei 0 (FromVar [104, 105]) 0 2 s0 = Inr (2, s')" using w(2) by (simp add: numeral_2_eq_2)
  ultimately show ?thesis using s(1) by blast
qed

theorem file_write_atomic_witness:
  "\<exists>s0 s1 s2 W c ip'. binit fs_boot = Inr ((), s0) \<and> writei 0 (FromVar [104, 105]) 0 2 s0 = Inr (2, s1) \<and> end_op s1 = Inr ((), s2) \<and> wtrace s2 = wtrace s1 @ W \<and>
    content (disk s2) ip' = [104, 105] \<and>
    (\<forall>k (t :: kst) E ip. E = wr_all (take k W) fs_disk \<longrightarrow> crep t Map.empty E E [] (\<lambda>_. 0) \<longrightarrow> ip = (if k \<le> c then small_file else ip') \<longrightarrow>
       (\<exists>t'. initlog ROOTDEV demo_sb t = Inr ((), t') \<and> get_dinode (disk t' 32) 64 ip = ip \<and> content (disk t') ip = (if k \<le> c then [] else [104, 105])))"
proof -
  obtain s0 where s: "binit fs_boot = Inr ((), s0)" "fstate fs_disk 0 s0 fs_disk []" "itable s0 0 = small_file" "sb s0 = demo_sb" "log_size s0 = 30" "log_start s0 = 2"
    "log_outstanding s0 = 1" "\<not> log_committing s0" "frees s0 fs_disk = {48..<2000}"
    by (rule fs_boot_run)
  note h = demo_hyps[OF s(3-5,9)]
  have g: "get_dinode (fs_disk (IBLOCK (inum (itable s0 0)) (sb s0))) (dinode_at (inum (itable s0 0))) (itable s0 0) = itable s0 0"
    "log_start s0 = sb_logstart (sb s0)" "log_size s0 = sb_nlog (sb s0)"
    using s(4-6) by (simp_all add: s(3,4) small_file_simps demo_blocks) (simp_all add: demo_sb_def)
  have e: "IBLOCK (inum (itable s0 0)) (sb s0) = 32" "dinode_at (inum (itable s0 0)) = 64" "content fs_disk (itable s0 0) = []"
    by (simp_all add: s(3,4) small_file_simps demo_blocks) (simp add: dinode_at_def IPB_def BSIZE_def)
  from file_write_atomic[OF s(2) h(1) supplies_var h(2-7) g(1) s(7,8) g(2,3)]
  obtain s1 s2 W c old new ip' where w: "old = content fs_disk (itable s0 0)" "new = take 0 old @ [104, 105] @ drop (0 + length [104, 105 :: byte]) old"
    "writei 0 (FromVar [104, 105]) 0 (length [104, 105 :: byte]) s0 = Inr (int (length [104, 105 :: byte]), s1)" "end_op s1 = Inr ((), s2)" "wtrace s2 = wtrace s1 @ W"
    "content (disk s2) ip' = new"
    "\<forall>k (t :: kst) E ip. E = wr_all (take k W) fs_disk \<longrightarrow> crep t Map.empty E E [] (\<lambda>_. 0) \<longrightarrow> ip = (if k \<le> c then itable s0 0 else ip') \<longrightarrow>
       (\<exists>t'. initlog ROOTDEV (sb s0) t = Inr ((), t') \<and> get_dinode (disk t' (IBLOCK (inum (itable s0 0)) (sb s0))) (dinode_at (inum (itable s0 0))) ip = ip \<and>
          content (disk t') ip = (if k \<le> c then old else new))"
    by (elim exE conjE) (rule that)
  have n: "old = []" "new = [104, 105]" using w(1,2) e(3) by simp_all
  have w2: "writei 0 (FromVar [104, 105]) 0 2 s0 = Inr (2, s1)" using w(3) by (simp add: numeral_2_eq_2)
  show ?thesis by (intro exI conjI) (fact s(1) w2 w(4,5) w(6)[unfolded n(2)] w(7)[unfolded e(1,2), unfolded s(3,4) n])+
qed

end
