(* ===== verification/Spec2Isabelle.thy ===== *)
theory Spec2Isabelle
  imports Um_Props Str Vm_User Spinlock Grep Sched Sh Files
begin

text \<open>
  A verification development for xv6 (RISC-V) with the user-level memory allocator \<^verbatim>\<open>ummalloc\<close>. The C functions under
  \<^verbatim>\<open>src/\<close> are translated one by one, under their own names, into functions of HOL; the theorems are about these functions.

  \<^bold>\<open>The program and how its parts interact.\<close> \<^verbatim>\<open>memory/\<close> and \<^verbatim>\<open>user/ummalloc.c\<close> implement \<^verbatim>\<open>mm_init\<close>, \<^verbatim>\<open>mm_malloc\<close>, \<^verbatim>\<open>mm_free\<close>
  and \<^verbatim>\<open>mm_realloc\<close> on top of \<^verbatim>\<open>sbrk\<close>. \<^verbatim>\<open>kernel/\<close> is the operating system: the page allocator serves the page tables
  and pipes; the buffer cache sits on the disk driver, the log on the buffer cache, the file system on the log, the file table on
  the file system, pipes and devices; processes own page tables and descriptors; system calls and traps tie all of it to user
  code, and the scheduler chooses which process runs. \<^verbatim>\<open>user/\<close> holds the library and the programs, of which the shell's parser and
  \<^verbatim>\<open>grep\<close> are modelled.

  \<^bold>\<open>How C is modelled.\<close> \<^verbatim>\<open>Xv6_Base\<close> has the computations that all functions are written in: from a state to an error or a
  result with a new state. Memory is a function from addresses to bytes with little-endian accesses of 2, 4 and 8 bytes;
  machine integers are words, or natural numbers with the wrap-around written out; where an \<^verbatim>\<open>int\<close>
  can overflow (\<^verbatim>\<open>nextpid\<close>, \<^verbatim>\<open>atoi\<close>) the computation fails, as the behaviour is undefined. Errors of the kernel are values: \<open>Panic\<close> with the
  message of \<^verbatim>\<open>panic\<close>, \<open>Sleeps\<close> with the channel where the code would sleep, \<open>Undef\<close> for undefined behaviour of C and \<open>NoFuel\<close>. The kernel's
  state is a chain of records, each layer extending the one below (\<open>phys\<close>, \<open>piped\<close>, \<open>ttyd\<close>, \<open>blkd\<close>, \<open>logd\<close>, \<open>kst\<close>, \<open>vdisk\<close>), so that a function is
  written over the state of its own layer and runs in every layer above.

  \<^bold>\<open>The allocator.\<close>
  \<^item> \<^verbatim>\<open>Um_Decl\<close>, \<^verbatim>\<open>Um_Data\<close>, \<^verbatim>\<open>Um_Alloc\<close>: the functions of \<^verbatim>\<open>ummalloc_decl.h\<close> (chunk headers, the rings of the slots),
    \<^verbatim>\<open>ummalloc_data.h\<close> (slot numbers, logarithms, the slot bitmap), and \<^verbatim>\<open>ummalloc_alloc.h\<close>, \<^verbatim>\<open>ummalloc_dealloc.h\<close> and \<^verbatim>\<open>ummalloc.c\<close>.
  \<^item> \<^verbatim>\<open>Um_Layout\<close>, \<^verbatim>\<open>Um_Inv\<close>, \<^verbatim>\<open>Um_Cut\<close>, \<^verbatim>\<open>Um_Slots\<close>, \<^verbatim>\<open>Um_Malloc\<close>, \<^verbatim>\<open>Um_Requests\<close>, \<^verbatim>\<open>Um_Pages\<close>, \<^verbatim>\<open>Um_Fast\<close>, \<^verbatim>\<open>Um_Init\<close>, \<^verbatim>\<open>Um_Live\<close>: the layout of the
    heap, its invariant, and that every path through \<^verbatim>\<open>mm_malloc\<close> keeps it and does what an abstract allocator on lists of
    chunk sizes does.
  \<^item> \<^verbatim>\<open>Um_Client\<close>: a program that calls the allocator with requests of any size and writes into its blocks, within the bytes that
    their headers promise, as a step relation that ends with the first call that is refused memory or has undefined behaviour. In every
    reachable state its blocks are disjoint and their contents untouched by the allocator. \<^verbatim>\<open>mm_malloc\<close> refines the abstract allocator for
    every size, refusals and undefined behaviour included; up to 61432 bytes it succeeds while the break can move; a block can be eight
    bytes short for requests of 25 to 504 bytes, which a reachable state shows. \<^verbatim>\<open>mm_init\<close> establishes the invariant and never returns -1.
  \<^item> \<^verbatim>\<open>Um_Props\<close>: single operations: pages of small chunks, the refusal of \<^verbatim>\<open>sbrk\<close>, the logarithms, the bitmap search, the
    arithmetic of the request size.

  \<^bold>\<open>Memory of the kernel.\<close>
  \<^item> \<^verbatim>\<open>Str\<close> (\<^verbatim>\<open>kernel/string.c\<close>, \<^verbatim>\<open>user/ulib.c\<close>): overlapping moves, scans that return on terminated strings, bounded copies.
  \<^item> \<^verbatim>\<open>Kalloc\<close> (\<^verbatim>\<open>kernel/kalloc.c\<close>): the free list; the locale \<open>page_allocator\<close> is its contract.
  \<^item> \<^verbatim>\<open>Vm\<close>, \<^verbatim>\<open>Vm_Map\<close>, \<^verbatim>\<open>Vm_User\<close> (\<^verbatim>\<open>kernel/vm.c\<close>): the functions, the meaning of a page table as a tree of pages, and that mapping changes
    exactly the entries of its range, that growing an address space is all or nothing, and that \<^verbatim>\<open>copyin\<close> reads back what \<^verbatim>\<open>copyout\<close> wrote.

  \<^bold>\<open>Locks, rings and devices.\<close>
  \<^item> \<^verbatim>\<open>Spinlock\<close> (\<^verbatim>\<open>kernel/spinlock.c\<close>, \<^verbatim>\<open>kernel/sleeplock.c\<close>): the operations, and mutual exclusion of spin locks for any interleaving of their steps on any number of processors.
  \<^item> \<^verbatim>\<open>Ring\<close>: the locale \<open>ring\<close> of ring buffers with free-running counters, interpreted for the pipe, the console and the serial line.
  \<^item> \<^verbatim>\<open>Pipe\<close> (\<^verbatim>\<open>kernel/pipe.c\<close>): what is read is what was written, in order.
  \<^item> \<^verbatim>\<open>Printf\<close> (\<^verbatim>\<open>kernel/printf.c\<close>, \<^verbatim>\<open>user/printf.c\<close>): what \<^verbatim>\<open>atoi\<close> makes of every number that \<^verbatim>\<open>printf\<close> prints.
  \<^item> \<^verbatim>\<open>Console\<close> (\<^verbatim>\<open>kernel/console.c\<close>, \<^verbatim>\<open>kernel/uart.c\<close>): input refines line editing on lists; output is first in, first out.
  \<^item> \<^verbatim>\<open>Virtio\<close> (\<^verbatim>\<open>kernel/virtio_disk.c\<close>): the driver, with any device that serves its rings, does the one disk transfer that the buffer cache
    takes the disk to do.

  \<^bold>\<open>Storage.\<close>
  \<^item> \<^verbatim>\<open>Bio\<close>, \<^verbatim>\<open>Bcache\<close> (\<^verbatim>\<open>kernel/bio.c\<close>): the cache and its contract, the locale \<open>block_cache\<close>, over the disk and the trace of its writes.
  \<^item> \<^verbatim>\<open>Log\<close> (\<^verbatim>\<open>kernel/log.c\<close>): a commit is atomic if the machine stops after any of its disk writes and recovers.
  \<^item> \<^verbatim>\<open>Fs\<close> (\<^verbatim>\<open>kernel/fs.c\<close>) has all functions of the file; \<^verbatim>\<open>Txn\<close> states the laws of buffers and the free map inside a
    transaction; \<^verbatim>\<open>Files\<close> shows that \<^verbatim>\<open>writei\<close> and \<^verbatim>\<open>readi\<close> implement a file as a list of bytes and that a write is atomic across a crash.

  \<^bold>\<open>Processes and system calls.\<close>
  \<^item> \<^verbatim>\<open>Kstate\<close>, \<^verbatim>\<open>File\<close>, \<^verbatim>\<open>Proc\<close>, \<^verbatim>\<open>Exec\<close>, \<^verbatim>\<open>Sysfile\<close>, \<^verbatim>\<open>Trap\<close>: the tables, and the functions of \<^verbatim>\<open>kernel/file.c\<close>, \<^verbatim>\<open>proc.c\<close>, \<^verbatim>\<open>exec.c\<close>,
    \<^verbatim>\<open>syscall.c\<close>, \<^verbatim>\<open>sysfile.c\<close>, \<^verbatim>\<open>sysproc.c\<close> and \<^verbatim>\<open>trap.c\<close>. A call that has to wait returns what is left of it to do.
  \<^item> \<^verbatim>\<open>Frame\<close>, \<^verbatim>\<open>Tables\<close>, \<^verbatim>\<open>Procs\<close>, \<^verbatim>\<open>Calls\<close>: rules for what a function leaves unchanged, the invariant of the process and file tables, and
    that every function, system call and trap handler keeps it; the locale \<open>bystander\<close> is what the process functions keep of others.
  \<^item> \<^verbatim>\<open>Boot\<close>: \<^verbatim>\<open>userinit\<close> makes the first process.
  \<^item> \<^verbatim>\<open>Machine\<close>: user code, traps, the scheduler and interrupts as a step relation from the first process on; the invariant holds in every
    reachable state, the machine stopping where a function fails. The locale \<open>interruptible\<close> is what interrupt handlers keep.
  \<^item> \<^verbatim>\<open>Sched\<close>: a ready process gets the processor before the scheduler has made \<^verbatim>\<open>NPROC\<close> turns.

  \<^bold>\<open>User programs.\<close>
  \<^item> \<^verbatim>\<open>Sh\<close> (\<^verbatim>\<open>user/sh.c\<close>): the parser answers every line, and returns a tree for a command exactly when the tokens of the line are a sentence
    of the grammar for that command.
  \<^item> \<^verbatim>\<open>Grep\<close> (\<^verbatim>\<open>user/grep.c\<close>): the matcher decides the language of the pattern and the program prints the matching lines.

  \<^bold>\<open>Bounds and fuel.\<close> Most loops are structural or have a termination proof. The scans of \<^verbatim>\<open>Str\<close> that stop only at a NUL are partial, and
  shown to return on terminated strings. Fuel is used for: the walks over the list of buffers (\<open>NBUF + 1\<close> nodes, the whole list);
  \<^verbatim>\<open>mappages\<close> (one round more than there are pages below \<^verbatim>\<open>MAXVA\<close>; each round advances by a page); \<^verbatim>\<open>freewalk\<close> (the three levels of a page
  table); the loop of \<^verbatim>\<open>virtio_disk_intr\<close> (\<open>2 ^ 16\<close>, as it counts a 16-bit index up to another); and the parser (\<open>4 * length + 4\<close>, shown enough for every line).
  The theorems about \<^verbatim>\<open>bread\<close>, \<^verbatim>\<open>mappages\<close>, the driver and the parser state that they return.

  \<^bold>\<open>Parameters.\<close> What the device of the disk does is an argument of the theorem about the driver, with the virtio specification as
  hypothesis and a device that satisfies it. User code is any change of its memory and registers. How \<^verbatim>\<open>read\<close> divides the input of \<^verbatim>\<open>grep\<close>, what
  the serial line receives and when it is idle are arguments or fields of the state. \<^verbatim>\<open>sbrk\<close> as the allocator sees it moves a
  break up to a limit.

  \<^bold>\<open>Not modelled.\<close>
  \<^item> Assembly (\<^verbatim>\<open>entry.S\<close>, \<^verbatim>\<open>kernelvec.S\<close>, \<^verbatim>\<open>swtch.S\<close>, \<^verbatim>\<open>trampoline.S\<close>, \<^verbatim>\<open>initcode.S\<close>, the output of \<^verbatim>\<open>usys.pl\<close>) and the writes of machine registers in \<^verbatim>\<open>start.c\<close>,
    \<^verbatim>\<open>uartinit\<close>, \<^verbatim>\<open>plicinit\<close>, \<^verbatim>\<open>trapinithart\<close> and \<^verbatim>\<open>virtio_disk_init\<close>: there is no C to translate, or single writes to hardware whose result is the
    initial state.
  \<^item> The write protection of the pages of a program's text, in the allocator's view of memory.
  \<^item> Several processors inside the kernel: except in \<^verbatim>\<open>Spinlock\<close>, a critical section is one step, and a kernel function runs up to
    the point where it waits (so \<^verbatim>\<open>exit\<close> closes its files, hands over its children and becomes a zombie in one step); interrupts arrive in user code and in the scheduler.
  \<^item> \<^verbatim>\<open>runcmd\<close>, \<^verbatim>\<open>getcmd\<close> and \<^verbatim>\<open>main\<close> of the shell, \<^verbatim>\<open>main\<close> of \<^verbatim>\<open>grep\<close>, and the small programs (\<^verbatim>\<open>cat\<close>, \<^verbatim>\<open>echo\<close>, \<^verbatim>\<open>init\<close>, \<^verbatim>\<open>kill\<close>, \<^verbatim>\<open>ln\<close>, \<^verbatim>\<open>ls\<close>, \<^verbatim>\<open>mkdir\<close>, \<^verbatim>\<open>rm\<close>, \<^verbatim>\<open>wc\<close>,
    \<^verbatim>\<open>zombie\<close>), which are sequences of system calls; the allocator \<^verbatim>\<open>umalloc.c\<close> of the original library.
  \<^item> The tests (\<^verbatim>\<open>usertests.c\<close>, \<^verbatim>\<open>grind.c\<close>, \<^verbatim>\<open>stressfs.c\<close>, \<^verbatim>\<open>forktest.c\<close>, \<^verbatim>\<open>ummalloc_test.c\<close>) and \<^verbatim>\<open>ramdisk.c\<close>, which is not compiled.
\<close>

end
